(* ===== verification/Prelude.thy ===== *)
theory Prelude
  imports Main "HOL-Library.Word" "HOL-Library.Sublist" "HOL-Library.Char_ord" "HOL-Library.List_Lexorder"
begin

text \<open>
  Shared vocabulary of the development. Go strings and byte slices are both byte
  sequences and are modelled by HOL's \<^typ>\<open>string\<close>, whose characters are bytes. A Go
  \<open>error\<close> is a value of the datatype \<open>error\<close> below (\<open>nil\<close> is \<open>None\<close>); a function that
  returns \<open>(T, error)\<close> returns a value of \<open>error + T\<close>. The theorem collections declared here
  are filled by the component theories: \<open>go_defs\<close> with definitions a component wants
  unfolded by its own automation, \<open>frame\<close> with the facts that say what an operation leaves
  alone.
\<close>

named_theorems frame \<open>what an operation leaves unchanged\<close>
named_theorems go_defs \<open>definitions unfolded by component automation\<close>

section \<open>Bytes, strings and errors\<close>

type_synonym bytes = string

abbreviation (input) slash :: char where "slash \<equiv> CHR ''/''"
abbreviation (input) dot :: char where "dot \<equiv> CHR ''.''"
abbreviation (input) nl :: char where "nl \<equiv> CHR 0x0A"
abbreviation (input) dquote :: char where "dquote \<equiv> CHR 0x22"

text \<open>
  System-call error numbers the code distinguishes or that the file-system model produces;
  \<open>EOTHER\<close> stands for every further number of the operating system.
\<close>

datatype errno =
    ENOENT | ENOTDIR | EISDIR | EEXIST | ENOTEMPTY | ELOOP | EINVAL | EACCES | EPERM
  | EIO | ENOSPC | EOTHER nat

text \<open>
  Error values. \<open>PathError op path errno\<close> is \<open>*fs.PathError\<close>. \<open>Errorf fmt args wrapped\<close> is
  the result of \<open>fmt.Errorf\<close> with its format literal, its string arguments and the error
  argument (the operand of the final \<open>%w\<close> or \<open>%v\<close>), kept as a value. \<open>RollbackErrors\<close> is the
  merged error of \<open>Transaction.Rollback\<close>, \<open>ExitError\<close> a failed external command, and
  \<open>OutOfFuel\<close> a value of the model only: a fuelled loop that was cut off. \<open>NilDeref\<close> stands for
  the panic of a nil pointer dereference in a function whose result is an error.
  \<open>SentinelError\<close> is a package-level \<open>errors.New\<close> value by its text; the next two are the errors
  of \<open>encoding/json\<close>: message and offset; value, type, offset, struct and field; the last two are
  those of \<open>compress/flate\<close>.
\<close>

datatype error =
    Errno errno
  | PathError string string errno
  | Errorf string "string list" "error option"
  | RollbackErrors "(string \<times> error) list"
  | ExitError nat
  | SkipDir
  | SkipAll
  | OutOfFuel
  | NilDeref
  | SentinelError string
  | SyntaxError string nat
  | UnmarshalTypeError string string nat string string
  | CorruptInputError nat
  | InternalError string

type_synonym 'a result = "error + 'a"

text \<open>The error at the end of a chain of \<open>%w\<close> wrappings.\<close>

fun root_cause :: "error \<Rightarrow> error" where
  "root_cause (Errorf f as (Some e)) = root_cause e"
| "root_cause e = e"

section \<open>Lists\<close>

lemma takeWhile_dropWhile_split: "xs = takeWhile P xs @ dropWhile P xs"
  by simp

lemma dropWhile_Cons_hd: "dropWhile P xs = y # ys \<Longrightarrow> \<not> P y"
  by (induction xs) (auto split: if_splits)

lemma takeWhile_all: "x \<in> set (takeWhile P xs) \<Longrightarrow> P x"
  by (induction xs) (auto split: if_splits)

lemma length_dropWhile_less [simp]: "P x \<Longrightarrow> length (dropWhile P (x # xs)) < Suc (length xs)"
  by (simp add: length_dropWhile_le less_Suc_eq_le)

lemma takeWhile_upto [simp]: "x \<notin> set e \<Longrightarrow> takeWhile (\<lambda>c. c \<noteq> x) (e @ x # r) = e"
  by (induction e) auto

lemma dropWhile_upto [simp]: "x \<notin> set e \<Longrightarrow> dropWhile (\<lambda>c. c \<noteq> x) (e @ x # r) = x # r"
  by (induction e) auto

lemma takeWhile_neq_id [simp]: "x \<notin> set e \<Longrightarrow> takeWhile (\<lambda>c. c \<noteq> x) e = e"
  by (induction e) auto

lemma butlast_snoc_eq: "xs \<noteq> [] \<Longrightarrow> butlast xs @ [last xs] = xs"
  by simp

lemma prefix_snocD: "strict_prefix xs (ys @ [y]) \<Longrightarrow> prefix xs ys"
  by (auto simp: strict_prefix_def)

end
