(* ===== verification/GoPath.thy ===== *)
theory GoPath
  imports Prelude
begin

text \<open>
  Lexical path processing of the Go standard library that the program uses on Linux:
  \<open>Clean\<close>, \<open>Base\<close>, \<open>Dir\<close> of \<open>internal/filepathlite/path.go\<close>, \<open>Join\<close> and \<open>Rel\<close> of
  \<open>path/filepath\<close>. \<open>Clean\<close> is given twice: \<open>Clean_lazy\<close> is the code, with its read index,
  its lazily allocated output buffer and Go's bounds checks (an index out of range is
  \<open>None\<close>, a panic); \<open>Clean\<close> is the specification by path elements. They are shown equal,
  so \<open>Clean_lazy\<close> never panics, and everything else is proved from the specification.
\<close>

section \<open>The lazy buffer\<close>

definition IsPathSeparator :: "char \<Rightarrow> bool" where
  "IsPathSeparator c \<longleftrightarrow> c = slash"

text \<open>\<open>volAndPath\<close> equals \<open>path\<close> and \<open>volLen\<close> is 0 on Unix, so both are left out.\<close>

record lazybuf =
  lb_path :: string
  lb_buf :: "bytes option"
  lb_w :: nat

definition lb_index :: "lazybuf \<Rightarrow> nat \<Rightarrow> char option" where
  "lb_index b i =
     (case lb_buf b of
        Some bs \<Rightarrow> if i < length bs then Some (bs ! i) else None
      | None \<Rightarrow> if i < length (lb_path b) then Some (lb_path b ! i) else None)"

text \<open>\<open>make\<close> zeroes the new buffer; \<open>copy\<close> fills its first \<open>w\<close> bytes from the path.\<close>

definition lb_append :: "lazybuf \<Rightarrow> char \<Rightarrow> lazybuf option" where
  "lb_append b c =
     (let n = length (lb_path b); w = lb_w b in
      case lb_buf b of
        None \<Rightarrow>
          (if w < n \<and> lb_path b ! w = c then Some (b\<lparr>lb_w := w + 1\<rparr>)
           else if w < n then
             (let bs = take w (lb_path b) @ replicate (n - w) (CHR 0x00)
              in Some (b\<lparr>lb_buf := Some (bs[w := c]), lb_w := w + 1\<rparr>))
           else None)
      | Some bs \<Rightarrow>
          (if w < length bs then Some (b\<lparr>lb_buf := Some (bs[w := c]), lb_w := w + 1\<rparr>) else None))"

definition lb_string :: "lazybuf \<Rightarrow> string" where
  "lb_string b = (case lb_buf b of None \<Rightarrow> take (lb_w b) (lb_path b) | Some bs \<Rightarrow> take (lb_w b) bs)"

section \<open>Clean, as the code computes it\<close>

text \<open>The three inner loops: backing up over an element, and copying one.\<close>

function lb_backtrack :: "lazybuf \<Rightarrow> nat \<Rightarrow> lazybuf option" where
  "lb_backtrack b dotdot =
     (if lb_w b > dotdot then
        (case lb_index b (lb_w b) of
           None \<Rightarrow> None
         | Some c \<Rightarrow> if IsPathSeparator c then Some b
                     else lb_backtrack (b\<lparr>lb_w := lb_w b - 1\<rparr>) dotdot)
      else Some b)"
  by pat_completeness auto
termination by (relation "measure (\<lambda>(b, d). lb_w b)") auto

fun lb_appends :: "lazybuf \<Rightarrow> string \<Rightarrow> lazybuf option" where
  "lb_appends b [] = Some b"
| "lb_appends b (c # cs) = (case lb_append b c of None \<Rightarrow> None | Some b' \<Rightarrow> lb_appends b' cs)"

function copy_elem :: "string \<Rightarrow> nat \<Rightarrow> lazybuf \<Rightarrow> (nat \<times> lazybuf) option" where
  "copy_elem path r b =
     (if r < length path \<and> \<not> IsPathSeparator (path ! r) then
        (case lb_append b (path ! r) of None \<Rightarrow> None | Some b' \<Rightarrow> copy_elem path (r + 1) b')
      else Some (r, b))"
  by pat_completeness auto
termination by (relation "measure (\<lambda>(p, r, b). length p - r)") auto

declare lb_backtrack.simps [simp del] copy_elem.simps [simp del]

lemma copy_elem_progress: "copy_elem path r b = Some (r', b') \<Longrightarrow> r \<le> r'"
proof (induction path r b rule: copy_elem.induct)
  case (1 path r b)
  then show ?case
    by (subst (asm) (2) copy_elem.simps) (fastforce split: if_splits option.splits)
qed

lemma copy_elem_progress_strict:
  assumes "copy_elem path r b = Some (r', b')" "r < length path" "\<not> IsPathSeparator (path ! r)"
  shows "r < r'"
  using assms copy_elem_progress
  by (subst (asm) copy_elem.simps) (fastforce split: option.splits dest: copy_elem_progress)

text \<open>
  The main loop. \<open>dot_elem\<close> and \<open>dotdot_elem\<close> are the second and third case of the switch;
  both read \<open>path[r+1]\<close> only where the preceding test has shown it to exist.
\<close>

definition dot_elem :: "string \<Rightarrow> nat \<Rightarrow> bool" where
  "dot_elem path r \<longleftrightarrow>
     path ! r = dot \<and> (r + 1 = length path \<or> IsPathSeparator (path ! (r + 1)))"

definition dotdot_elem :: "string \<Rightarrow> nat \<Rightarrow> bool" where
  "dotdot_elem path r \<longleftrightarrow>
     path ! r = dot \<and> path ! (r + 1) = dot \<and>
     (r + 2 = length path \<or> IsPathSeparator (path ! (r + 2)))"

function clean_loop :: "string \<Rightarrow> bool \<Rightarrow> nat \<Rightarrow> nat \<Rightarrow> lazybuf \<Rightarrow> lazybuf option" where
  "clean_loop path rooted r dotdot out =
     (if r < length path then
        if IsPathSeparator (path ! r) then clean_loop path rooted (r + 1) dotdot out
        else if dot_elem path r then clean_loop path rooted (r + 1) dotdot out
        else if dotdot_elem path r then
          (if lb_w out > dotdot then
             (case lb_backtrack (out\<lparr>lb_w := lb_w out - 1\<rparr>) dotdot of
                None \<Rightarrow> None
              | Some out' \<Rightarrow> clean_loop path rooted (r + 2) dotdot out')
           else if \<not> rooted then
             (case lb_appends out (if lb_w out > 0 then [slash, dot, dot] else [dot, dot]) of
                None \<Rightarrow> None
              | Some out' \<Rightarrow> clean_loop path rooted (r + 2) (lb_w out') out')
           else clean_loop path rooted (r + 2) dotdot out)
        else
          (case lb_appends out (if (rooted \<and> lb_w out \<noteq> 1) \<or> (\<not> rooted \<and> lb_w out \<noteq> 0)
                                then [slash] else []) of
             None \<Rightarrow> None
           | Some out1 \<Rightarrow>
               (case copy_elem path r out1 of
                  None \<Rightarrow> None
                | Some (r', out') \<Rightarrow> clean_loop path rooted r' dotdot out'))
      else Some out)"
  by pat_completeness auto
termination
  by (relation "measure (\<lambda>(p, rt, r, dd, out). length p - r)")
     (auto dest: copy_elem_progress_strict)

declare clean_loop.simps [simp del]

definition Clean_lazy :: "string \<Rightarrow> string option" where
  "Clean_lazy path =
     (if path = [] then Some ''.''
      else
        let rooted = IsPathSeparator (path ! 0);
            out0 = \<lparr>lb_path = path, lb_buf = None, lb_w = 0\<rparr>
        in case (if rooted then lb_append out0 slash else Some out0) of
             None \<Rightarrow> None
           | Some out \<Rightarrow>
               (case clean_loop path rooted (if rooted then 1 else 0) (if rooted then 1 else 0) out of
                  None \<Rightarrow> None
                | Some out' \<Rightarrow>
                    (case (if lb_w out' = 0 then lb_append out' dot else Some out') of
                       None \<Rightarrow> None
                     | Some out'' \<Rightarrow> Some (lb_string out''))))"

section \<open>Clean, by path elements\<close>

text \<open>
  \<open>elems\<close> cuts a path at its separators (empty elements included). \<open>norm_step\<close> is what one
  element does to the elements kept so far, the last kept element first: an empty element
  and \<open>.\<close> do nothing, \<open>..\<close> removes the last real element, is dropped at the root, and is
  kept otherwise.
\<close>

fun elems :: "string \<Rightarrow> string list" where
  "elems [] = [[]]"
| "elems (c # cs) =
     (if c = slash then [] # elems cs
      else (case elems cs of [] \<Rightarrow> [[c]] | e # es \<Rightarrow> (c # e) # es))"

definition norm_step :: "bool \<Rightarrow> string list \<Rightarrow> string \<Rightarrow> string list" where
  "norm_step rooted st e =
     (if e = [] \<or> e = ''.'' then st
      else if e = ''..'' then
        (case st of
           [] \<Rightarrow> if rooted then [] else [''..'']
         | x # xs \<Rightarrow> if x = ''..'' then ''..'' # st else xs)
      else e # st)"

definition norm :: "bool \<Rightarrow> string list \<Rightarrow> string list" where
  "norm rooted es = rev (foldl (norm_step rooted) [] es)"

fun join_elems :: "string list \<Rightarrow> string" where
  "join_elems [] = []"
| "join_elems [e] = e"
| "join_elems (e # es) = e @ slash # join_elems es"

definition IsAbs :: "string \<Rightarrow> bool" where
  "IsAbs p \<longleftrightarrow> (case p of c # _ \<Rightarrow> c = slash | [] \<Rightarrow> False)"

definition render :: "bool \<Rightarrow> string list \<Rightarrow> string" where
  "render rooted es =
     (if rooted then slash # join_elems es else if es = [] then ''.'' else join_elems es)"

definition Clean :: "string \<Rightarrow> string" where
  "Clean p = render (IsAbs p) (norm (IsAbs p) (elems p))"

section \<open>Join, Base, Dir and Rel\<close>

text \<open>
  \<open>strings.Join\<close> with the separator \<open>/\<close> is \<open>join_elems\<close>. \<open>last_sep path n\<close> is the result
  (plus one) of the loops that scan down from index \<open>n - 1\<close> to the last separator.
\<close>

definition Join :: "string list \<Rightarrow> string" where
  "Join elem = (case dropWhile (\<lambda>e. e = []) elem of [] \<Rightarrow> [] | es \<Rightarrow> Clean (join_elems es))"

fun last_sep :: "string \<Rightarrow> nat \<Rightarrow> nat" where
  "last_sep path 0 = 0"
| "last_sep path (Suc i) = (if IsPathSeparator (path ! i) then Suc i else last_sep path i)"

fun strip_seps :: "string \<Rightarrow> nat \<Rightarrow> nat" where
  "strip_seps path 0 = 0"
| "strip_seps path (Suc i) = (if IsPathSeparator (path ! i) then strip_seps path i else Suc i)"

definition Base :: "string \<Rightarrow> string" where
  "Base path =
     (if path = [] then ''.''
      else let p1 = take (strip_seps path (length path)) path;
               p2 = drop (last_sep p1 (length p1)) p1
           in if p2 = [] then [slash] else p2)"

definition Dir :: "string \<Rightarrow> string" where
  "Dir path = Clean (take (last_sep path (length path)) path)"

text \<open>
  \<open>Rel\<close>. The outer loop compares the elements of the two paths one by one until they differ;
  at its head \<open>bi = b0\<close> and \<open>ti = t0\<close>. It has no exit of its own for two paths that agree to
  the end, hence the fuel; \<open>Rel\<close> starts it with a unit for every byte and one more.
\<close>

function seg_end :: "string \<Rightarrow> nat \<Rightarrow> nat" where
  "seg_end s i = (if i < length s \<and> s ! i \<noteq> slash then seg_end s (i + 1) else i)"
  by pat_completeness auto
termination by (relation "measure (\<lambda>(s, i). length s - i)") auto

declare seg_end.simps [simp del]

definition slice :: "string \<Rightarrow> nat \<Rightarrow> nat \<Rightarrow> string" where
  "slice s i j = take (j - i) (drop i s)"

fun rel_loop :: "nat \<Rightarrow> string \<Rightarrow> string \<Rightarrow> nat \<Rightarrow> nat \<Rightarrow> (nat \<times> nat \<times> nat) option" where
  "rel_loop 0 base targ b0 t0 = None"
| "rel_loop (Suc fuel) base targ b0 t0 =
     (let bi = seg_end base b0; ti = seg_end targ t0 in
      if slice targ t0 ti \<noteq> slice base b0 bi then Some (b0, bi, t0)
      else rel_loop fuel base targ (if bi < length base then bi + 1 else bi)
             (if ti < length targ then ti + 1 else ti))"

definition rel_error :: "string \<Rightarrow> string \<Rightarrow> error" where
  "rel_error basepath targpath = Errorf ''Rel: can't make %s relative to %s'' [targpath, basepath] None"

definition Rel :: "string \<Rightarrow> string \<Rightarrow> string result" where
  "Rel basepath targpath =
     (let base = Clean basepath; targ = Clean targpath in
      if targ = base then Inr ''.''
      else
        let base = (if base = ''.'' then [] else base) in
        if (base \<noteq> [] \<and> base ! 0 = slash) \<noteq> (targ \<noteq> [] \<and> targ ! 0 = slash)
        then Inl (rel_error basepath targpath)
        else case rel_loop (length base + length targ + 1) base targ 0 0 of
          None \<Rightarrow> Inl OutOfFuel
        | Some (b0, bi, t0) \<Rightarrow>
            if slice base b0 bi = ''..'' then Inl (rel_error basepath targpath)
            else if b0 \<noteq> length base then
              (let seps = count_list (drop b0 base) slash
               in Inr (''..'' @ concat (replicate seps ''/..'') @
                       (if t0 \<noteq> length targ then slash # drop t0 targ else [])))
            else Inr (drop t0 targ))"

section \<open>The code computes the specification\<close>

subsection \<open>The buffer as a string\<close>

definition lb_full :: "lazybuf \<Rightarrow> string" where
  "lb_full b = (case lb_buf b of None \<Rightarrow> lb_path b | Some bs \<Rightarrow> bs)"

definition lb_inv :: "lazybuf \<Rightarrow> bool" where
  "lb_inv b \<longleftrightarrow> lb_w b \<le> length (lb_path b) \<and> length (lb_full b) = length (lb_path b)"

lemma lb_full_upd_w [simp]: "lb_full (b\<lparr>lb_w := k\<rparr>) = lb_full b"
  by (simp add: lb_full_def split: option.split)

lemma lb_string_full: "lb_string b = take (lb_w b) (lb_full b)"
  by (simp add: lb_string_def lb_full_def split: option.split)

lemma lb_index_full: "lb_inv b \<Longrightarrow> i < length (lb_path b) \<Longrightarrow> lb_index b i = Some (lb_full b ! i)"
  by (auto simp: lb_inv_def lb_full_def lb_index_def split: option.splits)

lemma length_lb_string [simp]: "lb_inv b \<Longrightarrow> length (lb_string b) = lb_w b"
  by (simp add: lb_string_full lb_inv_def)

lemma lb_append_ok:
  assumes "lb_inv b" "lb_w b < length (lb_path b)"
  obtains b' where "lb_append b c = Some b'" "lb_inv b'" "lb_path b' = lb_path b"
    "lb_string b' = lb_string b @ [c]" "lb_w b' = lb_w b + 1"
proof (cases "lb_buf b")
  case None
  show ?thesis
  proof (cases "lb_path b ! lb_w b = c")
    case True
    with None assms show ?thesis
      by (intro that [of "b\<lparr>lb_w := lb_w b + 1\<rparr>"])
         (auto simp: lb_append_def lb_inv_def lb_full_def lb_string_full take_Suc_conv_app_nth)
  next
    case False
    let ?bs = "(take (lb_w b) (lb_path b) @ replicate (length (lb_path b) - lb_w b) (CHR 0x00))[lb_w b := c]"
    from False None assms show ?thesis
      by (intro that [of "b\<lparr>lb_buf := Some ?bs, lb_w := lb_w b + 1\<rparr>"])
         (auto simp: lb_append_def lb_inv_def lb_full_def lb_string_full take_Suc_conv_app_nth Let_def)
  qed
next
  case (Some bs)
  with assms show ?thesis
    by (intro that [of "b\<lparr>lb_buf := Some (bs[lb_w b := c]), lb_w := lb_w b + 1\<rparr>"])
       (auto simp: lb_append_def lb_inv_def lb_full_def lb_string_full take_Suc_conv_app_nth Let_def)
qed

lemma lb_appends_ok:
  assumes "lb_inv b" "lb_w b + length cs \<le> length (lb_path b)"
  obtains b' where "lb_appends b cs = Some b'" "lb_inv b'" "lb_path b' = lb_path b"
    "lb_string b' = lb_string b @ cs" "lb_w b' = lb_w b + length cs"
  using assms
proof (induction cs arbitrary: b thesis)
  case Nil
  then show ?case by simp
next
  case (Cons c cs)
  obtain b1 where b1: "lb_append b c = Some b1" "lb_inv b1" "lb_path b1 = lb_path b"
    "lb_string b1 = lb_string b @ [c]" "lb_w b1 = lb_w b + 1"
    using lb_append_ok [of b c] Cons.prems by auto
  obtain b2 where "lb_appends b1 cs = Some b2" "lb_inv b2" "lb_path b2 = lb_path b1"
    "lb_string b2 = lb_string b1 @ cs" "lb_w b2 = lb_w b1 + length cs"
    using Cons.IH [of b1] Cons.prems b1 by auto
  with b1 Cons.prems(1) show ?case by auto
qed

lemma lb_backtrack_ok:
  assumes "lb_inv b" "lb_w b < length (lb_path b)" "d \<le> k" "k \<le> lb_w b"
    and "\<And>i. k < i \<Longrightarrow> i \<le> lb_w b \<Longrightarrow> lb_full b ! i \<noteq> slash"
    and "k = d \<or> lb_full b ! k = slash"
  shows "lb_backtrack b d = Some (b\<lparr>lb_w := k\<rparr>)"
  using assms
proof (induction b d rule: lb_backtrack.induct)
  case (1 b d)
  note idx = lb_index_full [OF "1.prems"(1) "1.prems"(2)]
  show ?case
  proof (cases "k = lb_w b")
    case True
    with 1 idx show ?thesis
      by (subst lb_backtrack.simps) (auto simp: IsPathSeparator_def)
  next
    case False
    with "1.prems" have k: "k < lb_w b" by simp
    let ?b = "b\<lparr>lb_w := lb_w b - 1\<rparr>"
    have "lb_full b ! lb_w b \<noteq> slash" using "1.prems" k by auto
    moreover have "lb_backtrack ?b d = Some (?b\<lparr>lb_w := k\<rparr>)"
      using "1.prems" k \<open>lb_full b ! lb_w b \<noteq> slash\<close>
      by (intro "1.IH" [OF _ idx]) (auto simp: IsPathSeparator_def lb_inv_def)
    ultimately show ?thesis
      using "1.prems" k idx by (subst lb_backtrack.simps) (auto simp: IsPathSeparator_def)
  qed
qed

lemma copy_elem_ok:
  assumes "lb_inv b" "lb_path b = path" "r \<le> length path" "lb_w b \<le> r"
  obtains b' where "copy_elem path r b = Some (r + length (takeWhile (\<lambda>c. c \<noteq> slash) (drop r path)), b')"
    "lb_inv b'" "lb_path b' = path"
    "lb_string b' = lb_string b @ takeWhile (\<lambda>c. c \<noteq> slash) (drop r path)"
  using assms
proof (induction path r b arbitrary: thesis rule: copy_elem.induct)
  case (1 path r b)
  show ?case
  proof (cases "r < length path \<and> \<not> IsPathSeparator (path ! r)")
    case True
    then have split: "drop r path = path ! r # drop (r + 1) path" by (simp add: Cons_nth_drop_Suc)
    obtain b1 where b1: "lb_append b (path ! r) = Some b1" "lb_inv b1" "lb_path b1 = lb_path b"
      "lb_string b1 = lb_string b @ [path ! r]" "lb_w b1 = lb_w b + 1"
      using lb_append_ok [of b "path ! r"] "1.prems" True by auto
    have tw: "takeWhile (\<lambda>c. c \<noteq> slash) (drop r path) =
        path ! r # takeWhile (\<lambda>c. c \<noteq> slash) (drop (r + 1) path)"
      using True by (simp add: split IsPathSeparator_def)
    obtain b2 where "copy_elem path (r + 1) b1 =
        Some (r + 1 + length (takeWhile (\<lambda>c. c \<noteq> slash) (drop (r + 1) path)), b2)"
      "lb_inv b2" "lb_path b2 = path"
      "lb_string b2 = lb_string b1 @ takeWhile (\<lambda>c. c \<noteq> slash) (drop (r + 1) path)"
      using "1.IH" [OF True b1(1)] "1.prems" b1 True by auto
    with b1 True tw "1.prems"(1) [of b2] show ?thesis
      by (simp add: copy_elem.simps [of path r b])
  next
    case False
    then have "takeWhile (\<lambda>c. c \<noteq> slash) (drop r path) = []"
      by (cases "r < length path") (simp_all add: Cons_nth_drop_Suc [symmetric] IsPathSeparator_def)
    with False "1.prems" show ?thesis
      by (auto simp add: copy_elem.simps [of path r b])
  qed
qed

subsection \<open>Elements\<close>

lemma elems_ne [simp]: "elems s \<noteq> []"
  by (cases s) (auto split: list.splits)

lemma elems_no_slash: "slash \<notin> set s \<Longrightarrow> elems s = [s]"
  by (induction s) auto

lemma elems_append_slash: "slash \<notin> set e \<Longrightarrow> elems (e @ slash # s) = e # elems s"
  by (induction e) auto

lemma elems_Cons_slash [simp]: "elems (slash # s) = [] # elems s"
  by simp

lemma elems_parts: "e \<in> set (elems s) \<Longrightarrow> slash \<notin> set e"
proof (induction s arbitrary: e)
  case Nil
  then show ?case by simp
next
  case (Cons c cs)
  then show ?case
    by (cases "elems cs") (auto split: if_splits)
qed

text \<open>The element that starts a string, and what follows it.\<close>

lemma elems_first:
  "elems s = takeWhile (\<lambda>c. c \<noteq> slash) s # tl (elems (dropWhile (\<lambda>c. c \<noteq> slash) s))"
  by (induction s) (auto split: list.splits)

lemma elems_dropWhile_hd: "hd (elems (dropWhile (\<lambda>c. c \<noteq> slash) s)) = []"
  by (induction s) auto

definition pelem :: "string \<Rightarrow> bool" where
  "pelem e \<longleftrightarrow> e \<noteq> [] \<and> e \<noteq> ''.'' \<and> slash \<notin> set e"

definition name_ok :: "string \<Rightarrow> bool" where
  "name_ok e \<longleftrightarrow> pelem e \<and> e \<noteq> ''..''"

lemma join_elems_snoc: "join_elems (es @ [e]) = (if es = [] then e else join_elems es @ slash # e)"
  by (induction es rule: join_elems.induct) auto

lemma join_elems_Cons: "join_elems (e # es) = (if es = [] then e else e @ slash # join_elems es)"
  by (cases es) auto

lemma join_elems_append:
  "es \<noteq> [] \<Longrightarrow> fs \<noteq> [] \<Longrightarrow> join_elems (es @ fs) = join_elems es @ slash # join_elems fs"
  by (induction es rule: join_elems.induct) (auto simp: join_elems_Cons)

lemma join_elems_eq_Nil: "\<forall>e \<in> set es. e \<noteq> [] \<Longrightarrow> join_elems es = [] \<longleftrightarrow> es = []"
  by (cases es) (auto simp: join_elems_Cons split: if_splits)

lemma elems_join_elems:
  "es \<noteq> [] \<Longrightarrow> \<forall>e \<in> set es. slash \<notin> set e \<Longrightarrow> elems (join_elems es) = es"
proof (induction es)
  case Nil
  then show ?case by simp
next
  case (Cons e es)
  then show ?case
    by (cases "es = []") (auto simp: join_elems_Cons elems_no_slash elems_append_slash)
qed

subsection \<open>The loop invariant\<close>

text \<open>
  The elements kept so far, last one first, are some real elements \<open>ys\<close> above \<open>k\<close> leading
  \<open>..\<close> elements (none in a rooted path). The buffer holds them joined; \<open>dotdot\<close> is the
  length of the part that must stay.
\<close>

definition jn :: "bool \<Rightarrow> string list \<Rightarrow> string" where
  "jn rooted st = (if rooted then [slash] else []) @ join_elems (rev st)"

definition stack_ok :: "bool \<Rightarrow> string list \<Rightarrow> nat \<Rightarrow> bool" where
  "stack_ok rooted ys k \<longleftrightarrow> list_all name_ok ys \<and> (rooted \<longrightarrow> k = 0)"

abbreviation stack :: "string list \<Rightarrow> nat \<Rightarrow> string list" where
  "stack ys k \<equiv> ys @ replicate k ''..''"

definition loop_inv :: "string \<Rightarrow> bool \<Rightarrow> nat \<Rightarrow> nat \<Rightarrow> lazybuf \<Rightarrow> string list \<Rightarrow> nat \<Rightarrow> bool" where
  "loop_inv path rooted r dotdot out ys k \<longleftrightarrow>
     lb_inv out \<and> lb_path out = path \<and> r \<le> length path \<and> stack_ok rooted ys k \<and>
     lb_string out = jn rooted (stack ys k) \<and> dotdot = length (jn rooted (replicate k ''..'')) \<and>
     lb_w out \<le> r \<and>
     (stack ys k \<noteq> [] \<and> r < length path \<and> path ! r \<noteq> slash \<longrightarrow> lb_w out < r)"

lemma jn_Cons: "jn rooted (e # st) = jn rooted st @ (if st = [] then e else slash # e)"
  by (simp add: jn_def join_elems_snoc)

lemma stack_ne_Nil:
  assumes "stack_ok rooted ys k" "e \<in> set (stack ys k)"
  shows "e \<noteq> []" "slash \<notin> set e"
proof -
  have "e = ''..'' \<or> name_ok e"
    using assms by (auto simp: stack_ok_def list_all_iff)
  then show "e \<noteq> []" "slash \<notin> set e"
    by (auto simp: name_ok_def pelem_def)
qed

lemma jn_eq_Nil: "stack_ok rooted ys k \<Longrightarrow> jn False (stack ys k) = [] \<longleftrightarrow> stack ys k = []"
proof -
  assume "stack_ok rooted ys k"
  then have "\<forall>e \<in> set (rev (stack ys k)). e \<noteq> []"
    by (auto dest: stack_ne_Nil)
  from join_elems_eq_Nil [OF this] show ?thesis by (auto simp: jn_def)
qed

lemma jn_dotdot_less:
  assumes "stack_ok rooted ys k" "ys \<noteq> []"
  shows "length (jn rooted (replicate k ''..'')) < length (jn rooted (stack ys k))"
  using assms
proof (induction ys)
  case (Cons y ys)
  then have "y \<noteq> []" "stack_ok rooted ys k"
    by (auto simp: stack_ok_def name_ok_def pelem_def)
  with Cons show ?case by (cases "ys = []") (auto simp: jn_Cons)
qed simp

text \<open>Backing up over the last element removes it and the separator before it.\<close>

lemma lb_backtrack_stack:
  assumes "lb_inv b" "stack_ok rooted (y # ys) k" "lb_string b = jn rooted (stack (y # ys) k)"
  obtains b' where
    "lb_backtrack (b\<lparr>lb_w := lb_w b - 1\<rparr>) (length (jn rooted (replicate k ''..''))) = Some b'"
    "lb_inv b'" "lb_path b' = lb_path b" "lb_string b' = jn rooted (stack ys k)" "lb_w b' < lb_w b"
proof -
  let ?S = "jn rooted (stack ys k)" and ?d = "length (jn rooted (replicate k ''..''))"
  have y: "y \<noteq> []" "slash \<notin> set y" and ok: "stack_ok rooted ys k"
    using assms(2) by (auto simp: stack_ok_def name_ok_def pelem_def)
  have S: "lb_string b = ?S @ (if stack ys k = [] then y else slash # y)"
    using assms(3) by (simp add: jn_Cons)
  have w: "lb_w b = length (lb_string b)" using assms(1) by simp
  have le: "lb_w b \<le> length (lb_full b)" and full: "lb_full b = lb_string b @ drop (lb_w b) (lb_full b)"
    using assms(1) by (auto simp: lb_inv_def lb_string_full)
  have d: "?d \<le> length ?S"
    using jn_dotdot_less [OF ok] by (cases "ys = []") auto
  have lt: "length ?S < lb_w b" using y w S by (auto split: if_splits)
  have nth: "lb_full b ! i = lb_string b ! i" if "i < lb_w b" for i
    using that w by (subst full) (simp add: nth_append)
  have "lb_backtrack (b\<lparr>lb_w := lb_w b - 1\<rparr>) ?d = Some (b\<lparr>lb_w := lb_w b - 1\<rparr>\<lparr>lb_w := length ?S\<rparr>)"
  proof (rule lb_backtrack_ok)
    show "lb_inv (b\<lparr>lb_w := lb_w b - 1\<rparr>)" "lb_w (b\<lparr>lb_w := lb_w b - 1\<rparr>) < length (lb_path (b\<lparr>lb_w := lb_w b - 1\<rparr>))"
      using assms(1) lt by (auto simp: lb_inv_def)
    show "?d \<le> length ?S" "length ?S \<le> lb_w (b\<lparr>lb_w := lb_w b - 1\<rparr>)" using d lt by auto
    show "lb_full (b\<lparr>lb_w := lb_w b - 1\<rparr>) ! i \<noteq> slash"
      if "length ?S < i" "i \<le> lb_w (b\<lparr>lb_w := lb_w b - 1\<rparr>)" for i
    proof -
      have i: "i < lb_w b" using that lt by auto
      have "lb_string b ! i \<in> set y"
        using that i w S by (auto simp: nth_append nth_Cons' split: if_splits)
      with y(2) i show ?thesis by (auto simp: nth)
    qed
    show "length ?S = ?d \<or> lb_full (b\<lparr>lb_w := lb_w b - 1\<rparr>) ! length ?S = slash"
      using lt S by (cases "stack ys k = []") (auto simp: nth jn_def nth_append)
  qed
  then have bt: "lb_backtrack (b\<lparr>lb_w := lb_w b - 1\<rparr>) ?d = Some (b\<lparr>lb_w := length ?S\<rparr>)"
    by simp
  show ?thesis
  proof (rule that [OF bt])
    show "lb_inv (b\<lparr>lb_w := length ?S\<rparr>)" "lb_w (b\<lparr>lb_w := length ?S\<rparr>) < lb_w b"
      using assms(1) lt by (auto simp: lb_inv_def)
    have "take (length ?S) (lb_string b) = ?S" using S by simp
    then show "lb_string (b\<lparr>lb_w := length ?S\<rparr>) = ?S"
      using lt by (simp add: lb_string_full min_def)
  qed simp
qed

subsection \<open>One element at a time\<close>

lemma norm_step_simps [simp]:
  "norm_step rooted st [] = st"
  "norm_step rooted st ''.'' = st"
  by (simp_all add: norm_step_def)

lemma norm_step_name: "name_ok e \<Longrightarrow> norm_step rooted st e = e # st"
  by (simp add: norm_step_def name_ok_def pelem_def)

lemma norm_step_dotdot:
  assumes "stack_ok rooted ys k"
  shows "norm_step rooted (stack ys k) ''..'' =
    (case ys of y # ys' \<Rightarrow> stack ys' k | [] \<Rightarrow> if rooted then [] else stack [] (Suc k))"
  using assms
  by (cases ys; cases k) (auto simp: norm_step_def stack_ok_def name_ok_def)

lemma elems_drop:
  assumes "r \<le> length path" "takeWhile (\<lambda>c. c \<noteq> slash) (drop r path) = e"
  shows "foldl (norm_step rooted) st (elems (drop r path)) =
    foldl (norm_step rooted) (norm_step rooted st e) (elems (drop (r + length e) path))"
proof -
  let ?D = "dropWhile (\<lambda>c. c \<noteq> slash) (drop r path)"
  have "drop (r + length e) path = drop (length e) (e @ ?D)"
    using assms(2) takeWhile_dropWhile_id [of "\<lambda>c. c \<noteq> slash" "drop r path"] by (simp add: add.commute)
  then have D: "drop (r + length e) path = ?D" by simp
  have "elems ?D = [] # tl (elems ?D)"
    using elems_dropWhile_hd [of "drop r path"] by (cases "elems ?D") auto
  then show ?thesis
    using elems_first [of "drop r path"] assms(2) by (metis D foldl_Cons norm_step_simps(1))
qed

lemma first_elem_end:
  assumes "r < length path" "takeWhile (\<lambda>c. c \<noteq> slash) (drop r path) = e"
  shows "r + length e \<le> length path" "r + length e < length path \<Longrightarrow> path ! (r + length e) = slash"
proof -
  have len: "length e \<le> length (drop r path)"
    using assms(2) length_takeWhile_le by blast
  then show "r + length e \<le> length path" using assms(1) by simp
  assume less: "r + length e < length path"
  then have "\<not> (drop r path ! length e) \<noteq> slash"
    using assms(2) nth_length_takeWhile [of "\<lambda>c. c \<noteq> slash" "drop r path"] by auto
  then show "path ! (r + length e) = slash" using less by simp
qed

lemma takeWhile_dot:
  assumes "r < length path" "dot_elem path r"
  shows "takeWhile (\<lambda>c. c \<noteq> slash) (drop r path) = ''.''"
proof -
  have "drop r path = dot # drop (r + 1) path"
    using assms by (simp add: dot_elem_def Cons_nth_drop_Suc [symmetric])
  moreover have "takeWhile (\<lambda>c. c \<noteq> slash) (drop (r + 1) path) = []"
    using assms by (cases "r + 1 < length path")
      (auto simp: dot_elem_def IsPathSeparator_def Cons_nth_drop_Suc [symmetric])
  ultimately show ?thesis by simp
qed

lemma takeWhile_dotdot:
  assumes "r < length path" "\<not> dot_elem path r" "dotdot_elem path r"
  shows "takeWhile (\<lambda>c. c \<noteq> slash) (drop r path) = ''..''"
proof -
  have r1: "r + 1 < length path" using assms by (auto simp: dot_elem_def dotdot_elem_def)
  then have "drop r path = dot # dot # drop (r + 2) path"
    using assms by (simp add: dotdot_elem_def Cons_nth_drop_Suc [symmetric])
  moreover have "takeWhile (\<lambda>c. c \<noteq> slash) (drop (r + 2) path) = []"
    using assms by (cases "r + 2 < length path")
      (auto simp: dotdot_elem_def IsPathSeparator_def Cons_nth_drop_Suc [symmetric])
  ultimately show ?thesis by simp
qed

lemma takeWhile_other:
  assumes "r < length path" "\<not> IsPathSeparator (path ! r)" "\<not> dot_elem path r" "\<not> dotdot_elem path r"
  shows "name_ok (takeWhile (\<lambda>c. c \<noteq> slash) (drop r path))" (is "name_ok ?e")
proof -
  have sl: "slash \<notin> set ?e" by (auto dest: takeWhile_all)
  have split: "drop r path = ?e @ dropWhile (\<lambda>c. c \<noteq> slash) (drop r path)" by simp
  have at: "path ! (r + i) = ?e ! i" if "i < length ?e" for i
    using that assms(1) split by (metis less_imp_le_nat nth_append nth_drop)
  have "?e \<noteq> []"
    using assms(1,2) by (simp add: Cons_nth_drop_Suc [symmetric] IsPathSeparator_def)
  moreover have "?e \<noteq> ''.''"
    using assms first_elem_end [OF assms(1) refl] at [of 0]
    by (auto simp: dot_elem_def IsPathSeparator_def)
  moreover have "?e \<noteq> ''..''"
    using assms first_elem_end [OF assms(1) refl] at [of 0] at [of 1]
    by (auto simp: dotdot_elem_def IsPathSeparator_def)
  ultimately show ?thesis using sl by (simp add: name_ok_def pelem_def)
qed

text \<open>
  What one turn of the loop does to the invariant: skipping a separator, and each of the
  three kinds of element.
\<close>

lemma loop_inv_sep:
  assumes "loop_inv path rooted r dd out ys k" "r < length path" "path ! r = slash"
  shows "loop_inv path rooted (r + 1) dd out ys k"
  using assms by (auto simp: loop_inv_def)

lemma loop_inv_skip:
  assumes "loop_inv path rooted r dd out ys k" "r < length path"
    "takeWhile (\<lambda>c. c \<noteq> slash) (drop r path) = e"
  shows "loop_inv path rooted (r + length e) dd out ys k"
  using assms first_elem_end [OF assms(2,3)] by (auto simp: loop_inv_def)

lemma loop_inv_name:
  assumes inv: "loop_inv path rooted r dd out ys k" and r: "r < length path" "path ! r \<noteq> slash"
    and e: "takeWhile (\<lambda>c. c \<noteq> slash) (drop r path) = e" "name_ok e"
  obtains out1 out' where
    "lb_appends out (if (rooted \<and> lb_w out \<noteq> 1) \<or> (\<not> rooted \<and> lb_w out \<noteq> 0) then [slash] else []) = Some out1"
    "copy_elem path r out1 = Some (r + length e, out')"
    "loop_inv path rooted (r + length e) dd out' (e # ys) k"
proof -
  let ?st = "stack ys k"
  let ?sep = "if ?st \<noteq> [] then [slash] else []"
  have ok: "stack_ok rooted ys k" and str: "lb_string out = jn rooted ?st" and out: "lb_inv out" "lb_path out = path"
    using inv by (auto simp: loop_inv_def)
  have w: "lb_w out = length (jn rooted ?st)" using out str by (metis length_lb_string)
  have jr: "jn True ?st = slash # jn False ?st" by (simp add: jn_def)
  have sep: "((rooted \<and> lb_w out \<noteq> 1) \<or> (\<not> rooted \<and> lb_w out \<noteq> 0)) = (?st \<noteq> [])"
    using jn_eq_Nil [OF ok] w jr by (cases rooted) auto
  have room: "lb_w out + length ?sep \<le> r"
    using inv r by (auto simp: loop_inv_def)
  then have "lb_w out + length ?sep \<le> length (lb_path out)" using r(1) out by simp
  from lb_appends_ok [OF out(1) this] out(2)
  obtain out1 where out1: "lb_appends out ?sep = Some out1" "lb_inv out1" "lb_path out1 = path"
    "lb_string out1 = lb_string out @ ?sep" "lb_w out1 = lb_w out + length ?sep" by metis
  obtain out' where out': "copy_elem path r out1 = Some (r + length e, out')" "lb_inv out'"
    "lb_path out' = path" "lb_string out' = lb_string out1 @ e"
    using copy_elem_ok [of out1 path r] out1 room r(1) e(1) by auto
  have "lb_string out' = jn rooted (stack (e # ys) k)"
    using out' out1 str by (auto simp: jn_Cons)
  moreover have "lb_w out' \<le> r + length e"
    using out'(2,4) out1(2,5) room by (metis add_le_mono1 length_append length_lb_string)
  moreover have "stack_ok rooted (e # ys) k" using ok e(2) by (simp add: stack_ok_def)
  ultimately have "loop_inv path rooted (r + length e) dd out' (e # ys) k"
    using inv out'(2,3) first_elem_end [OF r(1) e(1)] unfolding loop_inv_def by blast
  with out1(1) out'(1) sep show ?thesis by (intro that) auto
qed

lemma loop_inv_backtrack:
  assumes inv: "loop_inv path rooted r dd out (y # ys) k" and r: "r < length path"
    and e: "takeWhile (\<lambda>c. c \<noteq> slash) (drop r path) = e"
  obtains out' where "lb_backtrack (out\<lparr>lb_w := lb_w out - 1\<rparr>) dd = Some out'"
    "loop_inv path rooted (r + length e) dd out' ys k"
proof -
  have dd: "dd = length (jn rooted (replicate k ''..''))" using inv by (simp add: loop_inv_def)
  obtain out' where out': "lb_backtrack (out\<lparr>lb_w := lb_w out - 1\<rparr>) dd = Some out'" "lb_inv out'"
    "lb_path out' = lb_path out" "lb_string out' = jn rooted (stack ys k)" "lb_w out' < lb_w out"
    using lb_backtrack_stack [of out rooted y ys k] inv unfolding dd by (auto simp: loop_inv_def)
  then have "loop_inv path rooted (r + length e) dd out' ys k"
    using inv first_elem_end [OF r e] by (auto simp: loop_inv_def stack_ok_def)
  with out'(1) show ?thesis by (rule that)
qed

lemma jn_replicate_Suc:
  "jn False (replicate (Suc k) ''..'') = jn False (replicate k ''..'') @ (if k = 0 then ''..'' else ''/..'')"
  by (simp add: jn_Cons)

lemma loop_inv_updir:
  assumes inv: "loop_inv path False r dd out [] k" and r: "r < length path" "path ! r \<noteq> slash"
    and e: "takeWhile (\<lambda>c. c \<noteq> slash) (drop r path) = ''..''"
  obtains out' where
    "lb_appends out (if lb_w out > 0 then [slash, dot, dot] else [dot, dot]) = Some out'"
    "loop_inv path False (r + 2) (lb_w out') out' [] (Suc k)"
proof -
  let ?add = "if k > 0 then [slash, dot, dot] else [dot, dot]"
  have ok: "stack_ok False [] k" and str: "lb_string out = jn False (replicate k ''..'')"
    and out: "lb_inv out" "lb_path out = path" and wr: "lb_w out \<le> r"
    using inv by (auto simp: loop_inv_def)
  have w: "lb_w out = length (jn False (replicate k ''..''))" using out str by (metis length_lb_string)
  then have k: "lb_w out > 0 \<longleftrightarrow> k > 0" using jn_eq_Nil [OF ok] by auto
  have lt: "k > 0 \<Longrightarrow> lb_w out < r" using inv r by (auto simp: loop_inv_def)
  have "r + 2 \<le> length path" using first_elem_end [OF r(1) e] by simp
  then have "lb_w out + length ?add \<le> length path" using wr lt by (cases "k > 0") auto
  then obtain out' where out': "lb_appends out ?add = Some out'" "lb_inv out'" "lb_path out' = path"
    "lb_string out' = lb_string out @ ?add" "lb_w out' = lb_w out + length ?add"
    using lb_appends_ok [of out ?add] out by metis
  have "loop_inv path False (r + 2) (lb_w out') out' [] (Suc k)"
    using out' str wr lt ok w first_elem_end [OF r(1) e]
    by (auto simp: loop_inv_def jn_replicate_Suc stack_ok_def simp del: replicate_Suc)
  with out'(1) k show ?thesis by (intro that) auto
qed

text \<open>
  One turn: the loop at \<open>r\<close> continues as the loop at a later \<open>r'\<close>, in a state that again
  satisfies the invariant, and the elements left over give the same normal form.
\<close>

definition clean_turn :: "string \<Rightarrow> bool \<Rightarrow> nat \<Rightarrow> nat \<Rightarrow> lazybuf \<Rightarrow> string list \<Rightarrow> bool" where
  "clean_turn path rooted r dd out st \<longleftrightarrow>
     (\<exists>r' dd' out' ys' k'. r < r' \<and> clean_loop path rooted r dd out = clean_loop path rooted r' dd' out' \<and>
        loop_inv path rooted r' dd' out' ys' k' \<and>
        foldl (norm_step rooted) st (elems (drop r path)) =
        foldl (norm_step rooted) (stack ys' k') (elems (drop r' path)))"

lemma clean_turnI:
  assumes "r < r'" "clean_loop path rooted r dd out = clean_loop path rooted r' dd' out'"
    "loop_inv path rooted r' dd' out' ys' k'"
    "foldl (norm_step rooted) st (elems (drop r path)) =
     foldl (norm_step rooted) (stack ys' k') (elems (drop r' path))"
  shows "clean_turn path rooted r dd out st"
  using assms unfolding clean_turn_def by blast

lemma clean_turn_sep:
  assumes inv: "loop_inv path rooted r dd out ys k" and r: "r < length path" "path ! r = slash"
  shows "clean_turn path rooted r dd out (stack ys k)"
proof (rule clean_turnI)
  show "loop_inv path rooted (r + 1) dd out ys k" by (rule loop_inv_sep [OF inv r])
  show "clean_loop path rooted r dd out = clean_loop path rooted (r + 1) dd out"
    using r by (simp add: clean_loop.simps [of path rooted r] IsPathSeparator_def)
  show "foldl (norm_step rooted) (stack ys k) (elems (drop r path)) =
      foldl (norm_step rooted) (stack ys k) (elems (drop (r + 1) path))"
    using r by (simp add: Cons_nth_drop_Suc [symmetric])
qed simp

lemma clean_turn_dot:
  assumes inv: "loop_inv path rooted r dd out ys k" and r: "r < length path" "dot_elem path r"
  shows "clean_turn path rooted r dd out (stack ys k)"
proof (rule clean_turnI)
  note e = takeWhile_dot [OF r]
  show "loop_inv path rooted (r + 1) dd out ys k" using loop_inv_skip [OF inv r(1) e] by simp
  show "clean_loop path rooted r dd out = clean_loop path rooted (r + 1) dd out"
    using r by (auto simp: clean_loop.simps [of path rooted r] IsPathSeparator_def dot_elem_def)
  show "foldl (norm_step rooted) (stack ys k) (elems (drop r path)) =
      foldl (norm_step rooted) (stack ys k) (elems (drop (r + 1) path))"
    using elems_drop [OF less_imp_le_nat [OF r(1)] e] by simp
qed simp

lemma clean_turn_name:
  assumes inv: "loop_inv path rooted r dd out ys k"
    and r: "r < length path" "path ! r \<noteq> slash" "\<not> dot_elem path r" "\<not> dotdot_elem path r"
  shows "clean_turn path rooted r dd out (stack ys k)"
proof -
  let ?e = "takeWhile (\<lambda>c. c \<noteq> slash) (drop r path)"
  have e: "name_ok ?e" using takeWhile_other [OF r(1) _ r(3,4)] r(2) by (simp add: IsPathSeparator_def)
  obtain out1 out' where
    "lb_appends out (if (rooted \<and> lb_w out \<noteq> 1) \<or> (\<not> rooted \<and> lb_w out \<noteq> 0) then [slash] else []) = Some out1"
    "copy_elem path r out1 = Some (r + length ?e, out')"
    "loop_inv path rooted (r + length ?e) dd out' (?e # ys) k"
    using loop_inv_name [OF inv r(1,2) refl e] by blast
  then show ?thesis
    using r e elems_drop [OF less_imp_le_nat [OF r(1)] refl] norm_step_name [OF e]
    by (intro clean_turnI [where r' = "r + length ?e"])
       (auto simp: clean_loop.simps [of path rooted r] IsPathSeparator_def name_ok_def pelem_def)
qed

lemma clean_turn_dotdot:
  assumes inv: "loop_inv path rooted r dd out ys k"
    and r: "r < length path" "path ! r \<noteq> slash" "\<not> dot_elem path r" "dotdot_elem path r"
  shows "clean_turn path rooted r dd out (stack ys k)"
proof -
  note e = takeWhile_dotdot [OF r(1,3,4)]
  note fold = elems_drop [OF less_imp_le_nat [OF r(1)] e]
  note unfold = clean_loop.simps [of path _ r dd out]
  have ok: "stack_ok rooted ys k" and dd: "dd = length (jn rooted (replicate k ''..''))"
    using inv by (simp_all add: loop_inv_def)
  have w: "lb_w out = length (jn rooted (stack ys k))"
    using inv by (auto simp: loop_inv_def dest: length_lb_string)
  consider y ys' where "ys = y # ys'" | "ys = []" "rooted" | "ys = []" "\<not> rooted"
    by (cases ys) auto
  then show ?thesis
  proof cases
    case pop: (1 y ys')
    obtain out' where "lb_backtrack (out\<lparr>lb_w := lb_w out - 1\<rparr>) dd = Some out'"
      "loop_inv path rooted (r + length ''..'') dd out' ys' k"
      using loop_inv_backtrack [OF inv [unfolded pop] r(1) e] by blast
    moreover have "dd < lb_w out" using jn_dotdot_less [OF ok] pop w dd by simp
    ultimately show ?thesis using r fold norm_step_dotdot [OF ok] pop
      by (intro clean_turnI [where r' = "r + 2"]) (auto simp: unfold IsPathSeparator_def)
  next
    case root: 2
    then have "k = 0" "\<not> dd < lb_w out" using ok w dd by (simp_all add: stack_ok_def)
    with r fold norm_step_dotdot [OF ok] root loop_inv_skip [OF inv r(1) e] show ?thesis
      by (intro clean_turnI [where r' = "r + 2"]) (auto simp: unfold IsPathSeparator_def)
  next
    case up: 3
    then have "\<not> dd < lb_w out" using w dd by simp
    moreover obtain out' where
      "lb_appends out (if lb_w out > 0 then [slash, dot, dot] else [dot, dot]) = Some out'"
      "loop_inv path False (r + 2) (lb_w out') out' [] (Suc k)"
      using loop_inv_updir [of path r dd out k] inv r(1,2) e up by auto
    ultimately show ?thesis using r fold norm_step_dotdot [OF ok] up
      by (intro clean_turnI [where r' = "r + 2" and ys' = "[]" and k' = "Suc k"])
         (auto simp: unfold IsPathSeparator_def simp del: replicate_Suc)
  qed
qed

lemma clean_loop_ok:
  assumes "loop_inv path rooted r dd out ys k"
  shows "\<exists>out' ys' k'. clean_loop path rooted r dd out = Some out' \<and> lb_inv out' \<and> lb_path out' = path \<and>
    lb_string out' = jn rooted (stack ys' k') \<and> stack_ok rooted ys' k' \<and>
    stack ys' k' = foldl (norm_step rooted) (stack ys k) (elems (drop r path))"
  using assms
proof (induction "length path - r" arbitrary: r dd out ys k rule: less_induct)
  case less
  note inv = less.prems
  show ?case
  proof (cases "r < length path")
    case False
    then have "clean_loop path rooted r dd out = Some out"
      "foldl (norm_step rooted) (stack ys k) (elems (drop r path)) = stack ys k"
      by (simp_all add: clean_loop.simps [of path rooted r])
    with inv show ?thesis unfolding loop_inv_def by metis
  next
    case r: True
    then have "clean_turn path rooted r dd out (stack ys k)"
      using clean_turn_sep [OF inv] clean_turn_dot [OF inv] clean_turn_name [OF inv] clean_turn_dotdot [OF inv]
      by blast
    then obtain r' dd' out' ys' k' where turn: "r < r'"
      "clean_loop path rooted r dd out = clean_loop path rooted r' dd' out'"
      "loop_inv path rooted r' dd' out' ys' k'"
      "foldl (norm_step rooted) (stack ys k) (elems (drop r path)) =
       foldl (norm_step rooted) (stack ys' k') (elems (drop r' path))"
      unfolding clean_turn_def by blast
    from less.hyps [OF _ turn(3)] r turn(1) show ?thesis
      unfolding turn(2,4) by (simp add: diff_less_mono2)
  qed
qed

lemma IsAbs_nth: "path \<noteq> [] \<Longrightarrow> IsAbs path = IsPathSeparator (path ! 0)"
  by (cases path) (auto simp: IsAbs_def IsPathSeparator_def)

lemma loop_inv_start:
  assumes "path \<noteq> []"
  obtains out where
    "(if IsAbs path then lb_append \<lparr>lb_path = path, lb_buf = None, lb_w = 0\<rparr> slash
      else Some \<lparr>lb_path = path, lb_buf = None, lb_w = 0\<rparr>) = Some out"
    "loop_inv path (IsAbs path) (if IsAbs path then 1 else 0) (if IsAbs path then 1 else 0) out [] 0"
proof
  let ?out = "\<lparr>lb_path = path, lb_buf = None, lb_w = if IsAbs path then 1 else 0\<rparr>"
  show "(if IsAbs path then lb_append \<lparr>lb_path = path, lb_buf = None, lb_w = 0\<rparr> slash
      else Some \<lparr>lb_path = path, lb_buf = None, lb_w = 0\<rparr>) = Some ?out"
    using assms by (cases path) (auto simp: IsAbs_def lb_append_def)
  show "loop_inv path (IsAbs path) (if IsAbs path then 1 else 0) (if IsAbs path then 1 else 0) ?out [] 0"
    using assms
    by (cases path) (auto simp: IsAbs_def loop_inv_def lb_inv_def lb_full_def lb_string_def stack_ok_def jn_def)
qed

lemma Clean_lazy_Clean: "Clean_lazy path = Some (Clean path)"
proof (cases "path = []")
  case True
  then show ?thesis by (simp add: Clean_lazy_def Clean_def render_def norm_def IsAbs_def)
next
  case False
  let ?rt = "IsAbs path" and ?r0 = "if IsAbs path then 1 else 0 :: nat"
  obtain out where out: "(if ?rt then lb_append \<lparr>lb_path = path, lb_buf = None, lb_w = 0\<rparr> slash
      else Some \<lparr>lb_path = path, lb_buf = None, lb_w = 0\<rparr>) = Some out"
    and inv: "loop_inv path ?rt ?r0 ?r0 out [] 0"
    using loop_inv_start [OF False] by blast
  obtain out' ys k where loop: "clean_loop path ?rt ?r0 ?r0 out = Some out'" and out': "lb_inv out'" "lb_path out' = path"
    and str: "lb_string out' = jn ?rt (stack ys k)" and ok: "stack_ok ?rt ys k"
    and st: "stack ys k = foldl (norm_step ?rt) [] (elems (drop ?r0 path))"
    using clean_loop_ok [OF inv] by auto
  have "elems path = [] # elems (drop 1 path)" if ?rt
    using that False by (cases path) (auto simp: IsAbs_def)
  then have norm: "norm ?rt (elems path) = rev (stack ys k)"
    by (auto simp: norm_def st)
  have w: "lb_w out' = length (jn ?rt (stack ys k))" using out'(1) str by (metis length_lb_string)
  then have w0: "lb_w out' = 0 \<longleftrightarrow> \<not> ?rt \<and> stack ys k = []"
    using jn_eq_Nil [OF ok] by (auto simp: jn_def)
  obtain out'' where ap: "lb_append out' dot = Some out''" "lb_string out'' = lb_string out' @ [dot]"
    if "lb_w out' = 0"
    using lb_append_ok [of out' dot] out' False by (metis length_greater_0_conv)
  show ?thesis
    using False out loop ap w0 str norm
    by (cases "lb_w out' = 0")
       (auto simp: Clean_lazy_def Let_def IsAbs_nth [symmetric] Clean_def render_def jn_def)
qed

section \<open>Normal forms\<close>

text \<open>
  A list of elements is in normal form when it is some \<open>..\<close> elements (none if rooted)
  followed by names. \<open>Clean\<close> produces normal forms and leaves them alone.
\<close>

definition normal :: "bool \<Rightarrow> string list \<Rightarrow> bool" where
  "normal rooted es \<longleftrightarrow> (\<exists>k ys. es = replicate k ''..'' @ ys \<and> list_all name_ok ys \<and> (rooted \<longrightarrow> k = 0))"

lemma normal_stack: "normal rooted es \<longleftrightarrow> (\<exists>ys k. rev es = stack ys k \<and> stack_ok rooted ys k)"
proof
  assume "normal rooted es"
  then obtain k ys where "es = replicate k ''..'' @ ys" "list_all name_ok ys" "rooted \<longrightarrow> k = 0"
    unfolding normal_def by blast
  then have "rev es = stack (rev ys) k" "stack_ok rooted (rev ys) k"
    by (auto simp: stack_ok_def list_all_iff)
  then show "\<exists>ys k. rev es = stack ys k \<and> stack_ok rooted ys k" by blast
next
  assume "\<exists>ys k. rev es = stack ys k \<and> stack_ok rooted ys k"
  then obtain ys k where "rev es = stack ys k" "stack_ok rooted ys k" by blast
  then have "es = rev (stack ys k)" "list_all name_ok (rev ys)" "rooted \<longrightarrow> k = 0"
    by (auto simp: stack_ok_def list_all_iff rev_swap)
  then have "es = replicate k ''..'' @ rev ys" "list_all name_ok (rev ys)" "rooted \<longrightarrow> k = 0"
    by simp_all
  then show "normal rooted es" unfolding normal_def by blast
qed

lemma normal_Nil [simp]: "normal rooted []"
  by (auto simp: normal_def)

lemma norm_step_normal:
  assumes "normal rooted (rev st)" "slash \<notin> set e"
  shows "normal rooted (rev (norm_step rooted st e))"
proof -
  obtain ys k where st: "st = stack ys k" and ok: "stack_ok rooted ys k"
    using assms(1) by (auto simp: normal_stack)
  consider "e = [] \<or> e = ''.''" | "e = ''..''" | "name_ok e"
    using assms(2) by (auto simp: name_ok_def pelem_def)
  then show ?thesis
  proof cases
    case 1
    with assms(1) show ?thesis by auto
  next
    case 2
    have "stack_ok rooted (tl ys) k" "\<not> rooted \<Longrightarrow> stack_ok rooted [] (Suc k)" "stack_ok rooted [] 0"
      using ok by (cases ys; simp add: stack_ok_def)+
    moreover from this have "stack_ok rooted ys' k" if "ys = y # ys'" for y ys' using that by simp
    ultimately show ?thesis
      unfolding 2 st norm_step_dotdot [OF ok] normal_stack rev_rev_ident
      by (cases ys; cases rooted) (auto intro: exI [of _ "[]"] simp del: replicate_Suc)
  next
    case 3
    then have "stack_ok rooted (e # ys) k" using ok by (simp add: stack_ok_def)
    then show ?thesis
      unfolding st norm_step_name [OF 3] normal_stack rev_rev_ident by (metis append_Cons)
  qed
qed

lemma norm_fold_normal:
  "normal rooted (rev st) \<Longrightarrow> \<forall>e \<in> set es. slash \<notin> set e \<Longrightarrow>
   normal rooted (rev (foldl (norm_step rooted) st es))"
  by (induction es arbitrary: st) (auto simp: norm_step_normal)

lemma norm_normal: "\<forall>e \<in> set es. slash \<notin> set e \<Longrightarrow> normal rooted (norm rooted es)"
  by (simp add: norm_def norm_fold_normal)

text \<open>Folding the tail of a normal form onto its front puts it back together.\<close>

lemma norm_fold_names:
  "list_all name_ok ys \<Longrightarrow> foldl (norm_step rooted) st ys = rev ys @ st"
  by (induction ys arbitrary: st) (auto simp: norm_step_name)

lemma norm_fold_ups:
  "foldl (norm_step False) (replicate j ''..'') (replicate k ''..'') = replicate (j + k) ''..''"
proof (induction k arbitrary: j)
  case (Suc k)
  have "norm_step False (replicate j ''..'') ''..'' = replicate (Suc j) ''..''"
    by (cases j) (simp_all add: norm_step_def)
  with Suc [of "Suc j"] show ?case by simp
qed simp

lemma prefix_replicate: "cs @ us = replicate k x \<Longrightarrow> cs = replicate (length cs) x \<and> us = replicate (length us) x"
  by (metis in_set_replicate Un_iff replicate_length_same set_append)

lemma normal_appendD:
  assumes "normal rooted (cs @ ts)"
  shows "list_all name_ok ts \<or>
    (\<not> rooted \<and> (\<exists>j k ys. cs = replicate j ''..'' \<and> ts = replicate k ''..'' @ ys \<and> list_all name_ok ys))"
proof -
  obtain k ys where eq: "cs @ ts = replicate k ''..'' @ ys" and ys: "list_all name_ok ys" "rooted \<longrightarrow> k = 0"
    using assms by (auto simp: normal_def)
  from eq consider us where "us @ ts = ys" | us where "cs @ us = replicate k ''..''" "ts = us @ ys"
    by (auto simp: append_eq_append_conv2)
  then show ?thesis
  proof cases
    case 1
    with ys(1) show ?thesis by (auto simp: list_all_iff)
  next
    case (2 us)
    then have cs: "cs = replicate (length cs) ''..''" and "ts = replicate (length us) ''..'' @ ys"
      using prefix_replicate [OF 2(1)] by auto
    moreover have "rooted \<Longrightarrow> us = []" using 2(1) ys(2) by simp
    ultimately show ?thesis using ys(1) 2(2) by (cases rooted) (simp, blast)
  qed
qed

lemma normal_prefix:
  assumes "normal rooted (es @ fs)"
  shows "normal rooted es"
proof -
  obtain k ys where eq: "es @ fs = replicate k ''..'' @ ys" and ys: "list_all name_ok ys" "rooted \<longrightarrow> k = 0"
    using assms by (auto simp: normal_def)
  from eq consider us where "es = replicate k ''..'' @ us" "us @ fs = ys" | us where "es @ us = replicate k ''..''"
    by (auto simp: append_eq_append_conv2)
  then show ?thesis
  proof cases
    case (1 us)
    with ys show ?thesis unfolding normal_def by (metis list_all_append)
  next
    case (2 us)
    from prefix_replicate [OF this] 2 ys(2) show ?thesis
      unfolding normal_def by (metis append_Nil2 append_is_Nil_conv list.pred_inject(1) replicate_0 list.size(3))
  qed
qed

lemma norm_fold_rejoin:
  assumes "normal rooted (cs @ ts)"
  shows "foldl (norm_step rooted) (rev cs) ts = rev (cs @ ts)"
proof (cases "list_all name_ok ts")
  case True
  then show ?thesis by (simp add: norm_fold_names)
next
  case False
  then obtain j k ys where "\<not> rooted" "cs = replicate j ''..''" "ts = replicate k ''..'' @ ys" "list_all name_ok ys"
    using normal_appendD [OF assms] by blast
  then show ?thesis by (simp add: norm_fold_ups norm_fold_names flip: replicate_add)
qed

lemma norm_id: "normal rooted es \<Longrightarrow> norm rooted es = es"
  using norm_fold_rejoin [of rooted "[]" es] by (simp add: norm_def)

section \<open>Facts about Clean and Join\<close>

definition celems :: "string \<Rightarrow> string list" where
  "celems p = norm (IsAbs p) (elems p)"

lemma Clean_celems: "Clean p = render (IsAbs p) (celems p)"
  by (simp add: Clean_def celems_def)

lemma normal_celems [simp]: "normal (IsAbs p) (celems p)"
  unfolding celems_def by (rule norm_normal) (blast dest: elems_parts)

lemma normal_pelems:
  assumes "normal rooted es" "e \<in> set es"
  shows "pelem e"
proof -
  have "e = ''..'' \<or> name_ok e" using assms by (auto simp: normal_def list_all_iff)
  then show ?thesis by (auto simp: name_ok_def pelem_def)
qed

lemma normal_no_slash: "normal rooted es \<Longrightarrow> \<forall>e \<in> set es. slash \<notin> set e"
  by (auto dest: normal_pelems simp: pelem_def)

lemma join_elems_hd: "es \<noteq> [] \<Longrightarrow> pelem (hd es) \<Longrightarrow> \<exists>c cs. join_elems es = c # cs \<and> c \<noteq> slash"
  by (cases es; cases "hd es") (auto simp: join_elems_Cons pelem_def)

lemma IsAbs_render:
  assumes "normal rooted es"
  shows "IsAbs (render rooted es) = rooted"
proof (cases "rooted \<or> es = []")
  case True
  then show ?thesis by (auto simp: render_def IsAbs_def)
next
  case False
  with join_elems_hd [of es] normal_pelems [OF assms] show ?thesis
    by (auto simp: render_def IsAbs_def)
qed

lemma elems_render:
  assumes "normal rooted es"
  shows "elems (render rooted es) =
    (if es = [] then (if rooted then [[], []] else [''.'']) else (if rooted then [[]] else []) @ es)"
  using assms elems_join_elems [of es] normal_no_slash [OF assms]
  by (auto simp: render_def elems_no_slash)

lemma celems_render: "normal rooted es \<Longrightarrow> celems (render rooted es) = es"
proof -
  assume n: "normal rooted es"
  have "norm rooted (elems (render rooted es)) = norm rooted es"
    unfolding elems_render [OF n] by (auto simp: norm_def)
  then show ?thesis by (simp add: celems_def IsAbs_render [OF n] norm_id [OF n])
qed

lemma IsAbs_Clean [simp]: "IsAbs (Clean p) = IsAbs p"
  by (simp add: Clean_celems IsAbs_render)

lemma celems_Clean [simp]: "celems (Clean p) = celems p"
  by (simp add: Clean_celems celems_render)

lemma Clean_idem: "Clean (Clean p) = Clean p"
  by (simp add: Clean_celems [of "Clean p"]) (simp add: Clean_celems)

lemma Clean_ne [simp]: "Clean p \<noteq> []"
proof -
  have "celems p \<noteq> [] \<Longrightarrow> join_elems (celems p) \<noteq> []"
    using join_elems_eq_Nil [of "celems p"] normal_pelems [OF normal_celems] by (auto simp: pelem_def)
  then show ?thesis by (auto simp: Clean_celems render_def)
qed

lemma Clean_eq_iff: "Clean p = Clean q \<longleftrightarrow> IsAbs p = IsAbs q \<and> celems p = celems q"
proof
  assume eq: "Clean p = Clean q"
  from arg_cong [OF eq, of IsAbs] arg_cong [OF eq, of celems] show "IsAbs p = IsAbs q \<and> celems p = celems q"
    by simp
qed (simp add: Clean_celems)

lemma elems_append: "elems (p @ slash # q) = elems p @ elems q"
proof (induction p)
  case (Cons c p)
  then show ?case by (cases "elems p") auto
qed simp

lemma Clean_render: "normal rooted es \<Longrightarrow> Clean (render rooted es) = render rooted es"
  by (simp add: Clean_celems IsAbs_render celems_render)

lemma render_ne: "normal rooted es \<Longrightarrow> render rooted es \<noteq> []"
  by (metis Clean_ne Clean_render)

lemma Join2: "a \<noteq> [] \<Longrightarrow> Join [a, b] = Clean (a @ slash # b)"
  by (simp add: Join_def)

lemma IsAbs_append: "a \<noteq> [] \<Longrightarrow> IsAbs (a @ b) = IsAbs a"
  by (cases a) (auto simp: IsAbs_def)

lemma celems_append:
  "a \<noteq> [] \<Longrightarrow> celems (a @ slash # b) = rev (foldl (norm_step (IsAbs a)) (rev (celems a)) (elems b))"
  by (simp add: celems_def IsAbs_append elems_append norm_def)

lemma Clean_trailing_slash: "p \<noteq> [] \<Longrightarrow> Clean (p @ [slash]) = Clean p"
  using celems_append [of p "[]"] by (simp add: Clean_eq_iff IsAbs_append)

lemma IsAbs_Join2: "a \<noteq> [] \<Longrightarrow> IsAbs (Join [a, b]) = IsAbs a"
  by (simp add: Join2 IsAbs_append)

lemma celems_Join2:
  "a \<noteq> [] \<Longrightarrow> celems (Join [a, b]) = rev (foldl (norm_step (IsAbs a)) (rev (celems a)) (elems b))"
  by (simp add: Join2 celems_append)

lemma celems_Join_name:
  "a \<noteq> [] \<Longrightarrow> name_ok n \<Longrightarrow> celems (Join [a, n]) = celems a @ [n]"
  using norm_step_name [of n] by (simp add: celems_Join2 elems_no_slash name_ok_def pelem_def)

section \<open>Dir and Base take a path apart\<close>

lemma last_sep_append: "i \<le> length p \<Longrightarrow> last_sep (p @ q) i = last_sep p i"
  by (induction i) (auto simp: nth_append)

lemma last_sep_none: "slash \<notin> set e \<Longrightarrow> i \<le> length e \<Longrightarrow> last_sep (p @ e) (length p + i) = last_sep p (length p)"
proof (induction i)
  case 0
  then show ?case by (simp add: last_sep_append)
next
  case (Suc i)
  then have "e ! i \<noteq> slash" by (metis Suc_le_lessD nth_mem)
  with Suc show ?case by (simp add: IsPathSeparator_def)
qed

lemma last_sep_snoc: "slash \<notin> set e \<Longrightarrow> last_sep (p @ slash # e) (length (p @ slash # e)) = length p + 1"
  using last_sep_none [of e "length e" "p @ [slash]"] by (simp add: IsPathSeparator_def nth_append)

lemma last_sep_no_slash: "slash \<notin> set e \<Longrightarrow> last_sep e (length e) = 0"
  using last_sep_none [of e "length e" "[]"] by simp

lemma strip_seps_id: "p \<noteq> [] \<Longrightarrow> last p \<noteq> slash \<Longrightarrow> strip_seps p (length p) = length p"
  by (cases "length p") (auto simp: IsPathSeparator_def last_conv_nth)

lemma join_elems_last: "es \<noteq> [] \<Longrightarrow> last es \<noteq> [] \<Longrightarrow> last (join_elems es) = last (last es) \<and> join_elems es \<noteq> []"
  by (induction es rule: join_elems.induct) auto

text \<open>A cleaned path other than the root is its directory's path, a separator and its base.\<close>

lemma render_snoc:
  "render rooted (es @ [e]) =
    (if es = [] then (if rooted then slash # e else e) else render rooted es @ slash # e)"
  by (simp add: render_def join_elems_snoc)

lemma Dir_render:
  assumes "normal rooted (es @ [e])"
  shows "Dir (render rooted (es @ [e])) = render rooted es"
proof -
  have e: "slash \<notin> set e" and n: "normal rooted es"
    using normal_no_slash [OF assms] normal_prefix [OF assms] by auto
  show ?thesis
  proof (cases "es = []")
    case True
    then show ?thesis
      using last_sep_snoc [OF e, of "[]"] last_sep_no_slash [OF e]
      by (auto simp: Dir_def render_snoc Clean_def IsAbs_def norm_def) (simp_all add: render_def)
  next
    case False
    then show ?thesis
      using last_sep_snoc [OF e, of "render rooted es"] Clean_trailing_slash [OF render_ne [OF n]] n
      by (simp add: Dir_def render_snoc Clean_render)
  qed
qed

lemma Base_render:
  assumes "normal rooted (es @ [e])"
  shows "Base (render rooted (es @ [e])) = e"
proof -
  let ?p = "render rooted (es @ [e])"
  have e: "slash \<notin> set e" "e \<noteq> []" using normal_pelems [OF assms] by (auto simp: pelem_def)
  obtain q where p: "?p = q @ slash # e \<or> ?p = e"
    unfolding render_snoc by (metis append_Nil)
  have "last e \<noteq> slash" using e last_in_set by metis
  with p e have "?p \<noteq> []" "last ?p \<noteq> slash" by auto
  moreover have "drop (last_sep ?p (length ?p)) ?p = e"
    using p last_sep_snoc [OF e(1), of q] last_sep_no_slash [OF e(1)] by auto
  ultimately show ?thesis using e(2) by (simp add: Base_def strip_seps_id Let_def del: drop_eq_Nil)
qed

section \<open>Rel undoes Join\<close>

lemma seg_end_takeWhile:
  "i \<le> length s \<Longrightarrow> seg_end s i = i + length (takeWhile (\<lambda>c. c \<noteq> slash) (drop i s))"
proof (induction s i rule: seg_end.induct)
  case (1 s i)
  show ?case
  proof (cases "i < length s \<and> s ! i \<noteq> slash")
    case True
    with 1 show ?thesis
      by (subst seg_end.simps) (auto simp: Cons_nth_drop_Suc [symmetric])
  next
    case False
    with 1 show ?thesis
      by (subst seg_end.simps) (auto simp: Cons_nth_drop_Suc [symmetric] dest: le_neq_implies_less)
  qed
qed

text \<open>The string that spells a list of elements, positioned at its \<open>i\<close>-th byte.\<close>

lemma seg_join:
  assumes "drop i s = join_elems (e # es)" "i \<le> length s" "slash \<notin> set e" "\<forall>x \<in> set es. x \<noteq> []"
  shows "slice s i (seg_end s i) = e"
    "drop (if seg_end s i < length s then seg_end s i + 1 else seg_end s i) s = join_elems es"
    "(if seg_end s i < length s then seg_end s i + 1 else seg_end s i) \<le> length s"
proof -
  have tw: "takeWhile (\<lambda>c. c \<noteq> slash) (drop i s) = e"
    using assms(1,3) by (simp add: join_elems_Cons)
  then have se: "seg_end s i = i + length e" by (simp add: seg_end_takeWhile [OF assms(2)])
  have len: "length s = i + length (join_elems (e # es))"
    using assms(1,2) by (metis le_add_diff_inverse length_drop)
  show "slice s i (seg_end s i) = e"
    using tw unfolding se slice_def by (metis add_diff_cancel_left' takeWhile_eq_take)
  have "drop (i + length e) s = drop (length e) (join_elems (e # es))"
    using assms(1) by (metis add.commute drop_drop)
  then have d: "drop (i + length e) s = (if es = [] then [] else slash # join_elems es)"
    by (simp add: join_elems_Cons)
  then have "i + length e < length s \<longleftrightarrow> es \<noteq> []"
    using len by (auto simp: join_elems_Cons)
  with d len show "drop (if seg_end s i < length s then seg_end s i + 1 else seg_end s i) s = join_elems es"
    "(if seg_end s i < length s then seg_end s i + 1 else seg_end s i) \<le> length s"
    unfolding se by (auto simp: join_elems_Cons drop_Suc [symmetric] tl_drop simp flip: drop_drop)
       (metis One_nat_def drop0 drop_Suc_Cons drop_drop plus_1_eq_Suc)+
qed

lemma slice_end: "slice s (length s) (seg_end s (length s)) = []"
  by (simp add: slice_def)

definition seg_ok :: "string \<Rightarrow> bool" where
  "seg_ok e \<longleftrightarrow> e \<noteq> [] \<and> slash \<notin> set e"

lemma slice_hd:
  assumes "drop i s = join_elems es" "i \<le> length s" "\<forall>x \<in> set es. seg_ok x"
  shows "slice s i (seg_end s i) = (case es of [] \<Rightarrow> [] | e # _ \<Rightarrow> e)"
proof (cases es)
  case Nil
  then have "i = length s" using assms(1,2) by simp
  with Nil show ?thesis by (simp add: slice_end)
next
  case (Cons e es')
  with assms seg_join(1) [of i s e es'] show ?thesis by (auto simp: seg_ok_def)
qed

text \<open>Two lists that have no first element in common and are not both empty.\<close>

definition parted :: "'a list \<Rightarrow> 'a list \<Rightarrow> bool" where
  "parted xs ys \<longleftrightarrow> (case xs of [] \<Rightarrow> ys \<noteq> [] | x # _ \<Rightarrow> (case ys of [] \<Rightarrow> True | y # _ \<Rightarrow> x \<noteq> y))"

lemma parted_neq: "parted xs ys \<Longrightarrow> xs \<noteq> ys"
  by (auto simp: parted_def split: list.splits)

lemma parted_extend: "parted xs (xs @ ys) \<Longrightarrow> xs = []"
  by (auto simp: parted_def split: list.splits)

lemma rel_loop_ok:
  assumes "drop b0 base = join_elems bs" "b0 \<le> length base" "\<forall>x \<in> set bs. seg_ok x"
    and "drop t0 targ = join_elems ts" "t0 \<le> length targ" "\<forall>x \<in> set ts. seg_ok x"
    and "bs \<noteq> ts" "length bs < fuel"
  shows "\<exists>cs bs' ts' b t. bs = cs @ bs' \<and> ts = cs @ ts' \<and> parted bs' ts' \<and>
    rel_loop fuel base targ b0 t0 = Some (b, seg_end base b, t) \<and>
    drop b base = join_elems bs' \<and> b \<le> length base \<and> drop t targ = join_elems ts' \<and> t \<le> length targ"
  using assms
proof (induction fuel arbitrary: bs ts b0 t0)
  case 0
  then show ?case by simp
next
  case (Suc fuel)
  note sb = slice_hd [OF Suc.prems(1-3)] and st = slice_hd [OF Suc.prems(4-6)]
  show ?case
  proof (cases "slice targ t0 (seg_end targ t0) = slice base b0 (seg_end base b0)")
    case False
    then have "parted bs ts" unfolding sb st by (auto simp: parted_def split: list.splits)
    with False Suc.prems show ?thesis
      by (intro exI [of _ "[]"] exI [of _ bs] exI [of _ ts] exI [of _ b0] exI [of _ t0]) (simp add: Let_def)
  next
    case True
    obtain e bs1 ts1 where bs: "bs = e # bs1" and ts: "ts = e # ts1"
      using True Suc.prems(3,6,7) unfolding sb st by (cases bs; cases ts) (auto simp: seg_ok_def)
    let ?b = "if seg_end base b0 < length base then seg_end base b0 + 1 else seg_end base b0"
    let ?t = "if seg_end targ t0 < length targ then seg_end targ t0 + 1 else seg_end targ t0"
    have e: "slash \<notin> set e" "\<forall>x \<in> set bs1. x \<noteq> []" "\<forall>x \<in> set ts1. x \<noteq> []"
      using Suc.prems(3,6) bs ts by (auto simp: seg_ok_def)
    note jb = seg_join [OF Suc.prems(1) [unfolded bs] Suc.prems(2) e(1,2)]
      and jt = seg_join [OF Suc.prems(4) [unfolded ts] Suc.prems(5) e(1,3)]
    have "\<exists>cs bs' ts' b t. bs1 = cs @ bs' \<and> ts1 = cs @ ts' \<and> parted bs' ts' \<and>
      rel_loop fuel base targ ?b ?t = Some (b, seg_end base b, t) \<and>
      drop b base = join_elems bs' \<and> b \<le> length base \<and> drop t targ = join_elems ts' \<and> t \<le> length targ"
      using Suc.prems bs ts by (intro Suc.IH jb jt) auto
    then obtain cs bs' ts' b t where IH: "bs1 = cs @ bs'" "ts1 = cs @ ts'" "parted bs' ts'"
      "rel_loop fuel base targ ?b ?t = Some (b, seg_end base b, t)"
      "drop b base = join_elems bs'" "b \<le> length base" "drop t targ = join_elems ts'" "t \<le> length targ"
      by blast
    have "rel_loop (Suc fuel) base targ b0 t0 = rel_loop fuel base targ ?b ?t"
      using True by (simp add: Let_def)
    with IH bs ts show ?thesis by (metis append_Cons)
  qed
qed

text \<open>The path that goes up \<open>length bs\<close> times and then down along \<open>ts\<close>.\<close>

lemma count_seps_join:
  "\<forall>x \<in> set bs. seg_ok x \<Longrightarrow> bs \<noteq> [] \<Longrightarrow> count_list (join_elems bs) slash = length bs - 1"
proof (induction bs)
  case (Cons b bs)
  then have "count_list b slash = 0" by (simp add: seg_ok_def count_list_0_iff)
  with Cons show ?case by (cases bs) (auto simp: join_elems_Cons)
qed simp

lemma join_ups:
  "''..'' @ concat (replicate n ''/..'') = join_elems (replicate (Suc n) ''..'')"
proof (induction n)
  case (Suc n)
  then show ?case by (simp add: join_elems_Cons)
qed simp

lemma rel_text:
  assumes "\<forall>x \<in> set bs. seg_ok x" "bs \<noteq> []"
  shows "''..'' @ concat (replicate (count_list (join_elems bs) slash) ''/..'') @
      (if ts \<noteq> [] then slash # join_elems ts else []) = join_elems (replicate (length bs) ''..'' @ ts)"
    (is "_ @ ?C @ ?T = join_elems (?U @ ts)")
proof -
  obtain n where n: "length bs = Suc n" using assms(2) by (cases bs) auto
  have "''..'' @ ?C = join_elems ?U"
    using count_seps_join [OF assms] by (simp only: join_ups n diff_Suc_1)
  then have "''..'' @ ?C @ ?T = join_elems ?U @ ?T" by (simp only: append_assoc [symmetric])
  also have "\<dots> = join_elems (?U @ ts)"
    using join_elems_append [of ?U ts] n by (cases "ts = []") auto
  finally show ?thesis .
qed

text \<open>The elements \<open>Rel\<close> walks over: a target that is the current directory is spelled \<open>.\<close>.\<close>

definition tsegs :: "string \<Rightarrow> string list" where
  "tsegs p = (if \<not> IsAbs p \<and> celems p = [] then [''.''] else celems p)"

lemma celems_seg_ok: "e \<in> set (celems p) \<Longrightarrow> seg_ok e"
  using normal_pelems [OF normal_celems] by (auto simp: seg_ok_def pelem_def)

lemma tsegs_seg_ok: "e \<in> set (tsegs p) \<Longrightarrow> seg_ok e"
  using celems_seg_ok by (auto simp: tsegs_def seg_ok_def split: if_splits)

lemma celems_not_dot: "celems p \<noteq> [''.'']"
  using normal_pelems [OF normal_celems, of "''.''" p] by (auto simp: pelem_def)

lemma Clean_tsegs: "Clean p = (if IsAbs p then [slash] else []) @ join_elems (tsegs p)"
  by (auto simp: Clean_celems render_def tsegs_def)

lemma tsegs_inj: "IsAbs p = IsAbs q \<Longrightarrow> tsegs p = celems q \<Longrightarrow> Clean p = Clean q"
  using celems_not_dot by (auto simp: tsegs_def Clean_eq_iff split: if_splits)

lemma length_join_elems: "\<forall>x \<in> set es. seg_ok x \<Longrightarrow> length es \<le> length (join_elems es)"
  by (induction es rule: join_elems.induct) (auto simp: seg_ok_def Suc_le_eq)

lemma base_text:
  "(if Clean p = ''.'' then [] else Clean p) = (if IsAbs p then [slash] else []) @ join_elems (celems p)"
proof (cases "\<not> IsAbs p \<and> celems p = []")
  case True
  then show ?thesis by (simp add: Clean_celems render_def)
next
  case False
  have "Clean p \<noteq> ''.''"
  proof
    assume "Clean p = ''.''"
    then have "IsAbs p = False" "celems p = []"
      using IsAbs_Clean [of p] celems_Clean [of p] by (auto simp: IsAbs_def celems_def norm_def)
    with False show False by simp
  qed
  with False show ?thesis by (auto simp: Clean_celems render_def)
qed

lemma rel_loop_from_start:
  assumes "IsAbs t = IsAbs b" "Clean t \<noteq> Clean b"
    and base: "base = (if IsAbs b then [slash] else []) @ join_elems (celems b)" and targ: "targ = Clean t"
  shows "\<exists>cs bs' ts' b0 t0. celems b = cs @ bs' \<and> tsegs t = cs @ ts' \<and> parted bs' ts' \<and>
    rel_loop (length base + length targ + 1) base targ 0 0 = Some (b0, seg_end base b0, t0) \<and>
    drop b0 base = join_elems bs' \<and> b0 \<le> length base \<and> drop t0 targ = join_elems ts' \<and> t0 \<le> length targ"
proof -
  have ok: "\<forall>x \<in> set (celems b). seg_ok x" "\<forall>x \<in> set (tsegs t). seg_ok x"
    using celems_seg_ok tsegs_seg_ok by auto
  have ne: "celems b \<noteq> tsegs t" using tsegs_inj [of t b] assms(1,2) by auto
  let ?i = "if IsAbs b then 1 else 0 :: nat"
  have len: "length (celems b) < length base + length targ + 1 - ?i"
    using length_join_elems [OF ok(1)] by (auto simp: base)
  have "rel_loop (length base + length targ + 1) base targ 0 0 =
      rel_loop (length base + length targ + 1 - ?i) base targ ?i ?i"
  proof (cases "IsAbs b")
    case True
    have "seg_end base 0 = 0" "seg_end targ 0 = 0"
      using True assms(1) by (simp_all add: base targ Clean_tsegs seg_end.simps)
    then show ?thesis using True assms(1) by (auto simp: slice_def Let_def base targ Clean_tsegs)
  qed simp
  moreover have "drop ?i base = join_elems (celems b)" "drop ?i targ = join_elems (tsegs t)"
    "?i \<le> length base" "?i \<le> length targ"
    using assms(1) by (simp_all add: base targ Clean_tsegs)
  ultimately show ?thesis
    using rel_loop_ok [of ?i base "celems b" ?i targ "tsegs t"] ok ne len by metis
qed

lemma IsAbs_alt: "(p \<noteq> [] \<and> p ! 0 = slash) = IsAbs p"
  by (cases p) (auto simp: IsAbs_def)

lemma IsAbs_base: "IsAbs (if Clean b = ''.'' then [] else Clean b) = IsAbs b"
  using IsAbs_Clean [of b] by (auto simp: IsAbs_def simp del: IsAbs_Clean)

text \<open>What \<open>Rel\<close> returns, by elements.\<close>

lemma Rel_elems:
  assumes "IsAbs t = IsAbs b" "Clean t \<noteq> Clean b"
  shows "\<exists>cs bs' ts'. celems b = cs @ bs' \<and> tsegs t = cs @ ts' \<and> parted bs' ts' \<and>
    Rel b t = (if bs' \<noteq> [] \<and> hd bs' = ''..'' then Inl (rel_error b t)
               else Inr (join_elems (replicate (length bs') ''..'' @ ts')))"
proof -
  define base where base: "base = (if Clean b = ''.'' then [] else Clean b)"
  define targ where targ: "targ = Clean t"
  note btext = base [unfolded base_text]
  obtain cs bs' ts' b0 t0 where sp: "celems b = cs @ bs'" "tsegs t = cs @ ts'" "parted bs' ts'"
    and loop: "rel_loop (length base + length targ + 1) base targ 0 0 = Some (b0, seg_end base b0, t0)"
    and at: "drop b0 base = join_elems bs'" "b0 \<le> length base" "drop t0 targ = join_elems ts'" "t0 \<le> length targ"
    using rel_loop_from_start [OF assms btext targ] by blast
  have ok: "\<forall>x \<in> set bs'. seg_ok x" "\<forall>x \<in> set ts'. seg_ok x"
    using celems_seg_ok [of _ b] tsegs_seg_ok [of _ t] sp by auto
  have slashed: "(base \<noteq> [] \<and> base ! 0 = slash) = (targ \<noteq> [] \<and> targ ! 0 = slash)"
    using assms(1) unfolding IsAbs_alt base targ by (simp only: IsAbs_base IsAbs_Clean)
  have sl: "slice base b0 (seg_end base b0) = (case bs' of [] \<Rightarrow> [] | e # _ \<Rightarrow> e)"
    by (rule slice_hd [OF at(1,2) ok(1)])
  have "drop b0 base = [] \<longleftrightarrow> bs' = []" "drop t0 targ = [] \<longleftrightarrow> ts' = []"
    unfolding at(1,3) using ok by (simp_all add: join_elems_eq_Nil seg_ok_def)
  then have ends: "b0 = length base \<longleftrightarrow> bs' = []" "t0 = length targ \<longleftrightarrow> ts' = []"
    using at(2,4) by auto
  have "Rel b t = (if bs' \<noteq> [] \<and> hd bs' = ''..'' then Inl (rel_error b t)
      else Inr (join_elems (replicate (length bs') ''..'' @ ts')))"
    unfolding Rel_def Let_def base [symmetric] targ [symmetric] loop
    using assms(2) slashed sl ends at rel_text [OF ok(1), of ts']
    by (cases bs') (auto simp: targ [symmetric])
  with sp show ?thesis by blast
qed

lemma norm_fold_pop:
  "list_all name_ok bs \<Longrightarrow>
   foldl (norm_step rooted) (rev (cs @ bs)) (replicate (length bs) ''..'') = rev cs"
proof (induction bs rule: rev_induct)
  case (snoc x bs)
  then have "norm_step rooted (rev (cs @ bs @ [x])) ''..'' = rev (cs @ bs)"
    by (auto simp: norm_step_def name_ok_def)
  with snoc show ?case by simp
qed simp

lemma normal_tail_names:
  assumes "normal rooted (cs @ bs)" "bs = [] \<or> hd bs \<noteq> ''..''"
  shows "list_all name_ok bs"
proof -
  obtain k ys where "list_all name_ok bs \<or> (bs = replicate k ''..'' @ ys \<and> list_all name_ok ys)"
    using normal_appendD [OF assms(1)] by blast
  with assms(2) show ?thesis by (cases k) auto
qed

lemma Join_elems:
  assumes "es \<noteq> []" "\<forall>x \<in> set es. seg_ok x" "b \<noteq> []"
  shows "celems (Join [b, join_elems es]) = rev (foldl (norm_step (IsAbs b)) (rev (celems b)) es)"
  using celems_Join2 [OF assms(3)] elems_join_elems [OF assms(1)] assms(2) by (simp add: seg_ok_def)

lemma Rel_abs:
  assumes "Rel b t = Inr rel"
  shows "IsAbs t = IsAbs b"
proof (rule ccontr)
  assume "IsAbs t \<noteq> IsAbs b"
  moreover from this have "Clean t \<noteq> Clean b" by (auto simp: Clean_eq_iff)
  ultimately have "Rel b t = Inl (rel_error b t)"
    unfolding Rel_def Let_def IsAbs_alt IsAbs_base IsAbs_Clean by auto
  with assms show False by simp
qed

lemma norm_fold_tsegs:
  assumes "tsegs t = cs @ ts" "celems b = cs @ bs"
  shows "foldl (norm_step (IsAbs t)) (rev cs) ts = rev (celems t)"
proof (cases "\<not> IsAbs t \<and> celems t = []")
  case True
  have "pelem e" if "e \<in> set cs" for e
    using that assms(2) normal_pelems [OF normal_celems, of e b] by simp
  then have "cs = [] \<and> ts = [''.'']"
    using assms(1) True by (cases cs) (auto simp: tsegs_def pelem_def)
  then show ?thesis using True by simp
next
  case False
  then have "celems t = cs @ ts" using assms(1) by (auto simp: tsegs_def)
  with norm_fold_rejoin [of "IsAbs t" cs ts] normal_celems [of t] show ?thesis by simp
qed

lemma Rel_Join_clean:
  assumes "Rel b t = Inr rel" "b \<noteq> []"
  shows "Join [b, rel] = Clean t"
proof -
  have abs: "IsAbs t = IsAbs b" by (rule Rel_abs [OF assms(1)])
  have "celems (Join [b, rel]) = celems t"
  proof (cases "Clean t = Clean b")
    case True
    then have "rel = ''.''" using assms(1) by (simp add: Rel_def Let_def)
    with True show ?thesis using assms(2) by (simp add: celems_Join2 Clean_eq_iff elems_no_slash)
  next
    case False
    obtain cs bs ts where sp: "celems b = cs @ bs" "tsegs t = cs @ ts" "bs \<noteq> ts"
      and R: "Rel b t = (if bs \<noteq> [] \<and> hd bs = ''..'' then Inl (rel_error b t)
               else Inr (join_elems (replicate (length bs) ''..'' @ ts)))"
      using Rel_elems [OF abs False] parted_neq by blast
    then have bs: "bs = [] \<or> hd bs \<noteq> ''..''" and rel: "rel = join_elems (replicate (length bs) ''..'' @ ts)"
      using assms(1) by (auto split: if_splits)
    have names: "list_all name_ok bs"
      using normal_tail_names [OF _ bs] sp(1) normal_celems [of b] by metis
    have ok: "\<forall>x \<in> set (replicate (length bs) ''..'' @ ts). seg_ok x"
      using tsegs_seg_ok [of _ t] sp(2) by (auto simp: seg_ok_def)
    have "celems (Join [b, rel]) =
        rev (foldl (norm_step (IsAbs b)) (rev (cs @ bs)) (replicate (length bs) ''..'' @ ts))"
      using sp(1,3) ok assms(2) unfolding rel by (subst Join_elems) auto
    also have "\<dots> = rev (foldl (norm_step (IsAbs t)) (rev cs) ts)"
      using norm_fold_pop [OF names] abs by (simp del: rev_append)
    finally show ?thesis using norm_fold_tsegs [OF sp(2,1)] by simp
  qed
  moreover have "Clean (Join [b, rel]) = Join [b, rel]" using assms(2) by (simp add: Join2 Clean_idem)
  ultimately show ?thesis
    using abs assms(2) Clean_eq_iff [of "Join [b, rel]" t] by (simp add: IsAbs_Join2)
qed

text \<open>From a directory to a path below it, \<open>Rel\<close> is the remaining elements.\<close>

lemma tsegs_abs: "IsAbs t \<Longrightarrow> tsegs t = celems t"
  by (simp add: tsegs_def)

lemma Rel_below:
  assumes "normal True (ps @ r)" "r \<noteq> []"
  shows "Rel (render True ps) (render True (ps @ r)) = Inr (join_elems r)"
proof -
  let ?b = "render True ps" and ?t = "render True (ps @ r)"
  have n: "normal True ps" by (rule normal_prefix [OF assms(1)])
  have ab: "IsAbs ?b" "IsAbs ?t" using IsAbs_render n assms(1) by auto
  have ce: "celems ?b = ps" "celems ?t = ps @ r" using celems_render n assms(1) by auto
  have "Clean ?t \<noteq> Clean ?b" using assms(2) ab ce by (simp add: Clean_eq_iff)
  from Rel_elems [OF _ this] ab ce tsegs_abs [OF ab(2)]
  obtain cs bs ts where sp: "ps = cs @ bs" "ps @ r = cs @ ts" "parted bs ts"
    and R: "Rel ?b ?t = (if bs \<noteq> [] \<and> hd bs = ''..'' then Inl (rel_error ?b ?t)
               else Inr (join_elems (replicate (length bs) ''..'' @ ts)))" by auto
  have "ts = bs @ r" using sp(1,2) by simp
  with sp(3) parted_extend have "bs = []" "ts = r" by auto
  with R show ?thesis by simp
qed

lemma Join_Rel_below:
  assumes "normal True (ps @ r)" "normal True (qs @ r)"
  shows "\<exists>rel. Rel (render True ps) (render True (ps @ r)) = Inr rel \<and> Join [render True qs, rel] = render True (qs @ r)"
proof (cases "r = []")
  case True
  then have "Rel (render True ps) (render True (ps @ r)) = Inr ''.''" by (simp add: Rel_def Let_def)
  moreover have "Join [render True qs, ''.''] = render True qs"
    using assms(2) True celems_append [of "render True qs" "''.''"] Clean_render [of True qs]
    by (simp add: render_ne Join2 Clean_celems IsAbs_append IsAbs_render elems_no_slash celems_render)
  ultimately show ?thesis using True by simp
next
  case False
  have q: "normal True qs" by (rule normal_prefix [OF assms(2)])
  have ne: "render True qs \<noteq> []" by (rule render_ne [OF q])
  have "Rel (render True ps) (render True (ps @ r)) = Inr (join_elems r)" by (rule Rel_below [OF assms(1) False])
  moreover have "celems (Join [render True qs, join_elems r]) = qs @ r"
  proof -
    have "\<forall>x \<in> set r. seg_ok x" using normal_pelems [OF assms(2)] by (auto simp: pelem_def seg_ok_def)
    then show ?thesis
      using Join_elems [OF False _ ne] norm_fold_rejoin [OF assms(2)] IsAbs_render [OF q] celems_render [OF q] by simp
  qed
  then have "Join [render True qs, join_elems r] = render True (qs @ r)"
    using Clean_celems [of "Join [render True qs, join_elems r]"] Clean_idem ne IsAbs_render [OF q]
    by (simp add: Join2 IsAbs_append)
  ultimately show ?thesis by blast
qed

lemma Rel_absolute:
  assumes "IsAbs b" "IsAbs t"
  shows "\<exists>rel. Rel b t = Inr rel"
proof (cases "Clean t = Clean b")
  case True
  then show ?thesis by (simp add: Rel_def Let_def)
next
  case False
  from Rel_elems [OF _ False] assms obtain cs bs ts where
    "celems b = cs @ bs" and "Rel b t = (if bs \<noteq> [] \<and> hd bs = ''..'' then Inl (rel_error b t)
               else Inr (join_elems (replicate (length bs) ''..'' @ ts)))" by auto
  moreover have "''..'' \<notin> set (celems b)"
    using normal_celems [of b] assms(1) by (auto simp: normal_def name_ok_def list_all_iff)
  ultimately show ?thesis by (cases bs) auto
qed

lemma norm_fold_no_up:
  "''..'' \<notin> set es \<Longrightarrow> suffix st (foldl (norm_step rooted) st es)"
proof (induction es arbitrary: st)
  case (Cons e es)
  then have "suffix st (norm_step rooted st e)" by (auto simp: norm_step_def suffix_def)
  with Cons show ?case by (auto intro: suffix_order.trans)
qed simp

lemma Join_below:
  "d \<noteq> [] \<Longrightarrow> ''..'' \<notin> set (elems name) \<Longrightarrow> prefix (celems d) (celems (Join [d, name]))"
  using norm_fold_no_up [of "elems name" "rev (celems d)" "IsAbs d"]
  by (simp add: celems_Join2 suffix_to_prefix)

section \<open>Properties\<close>

text \<open>
  C32. \<open>filepath.Clean\<close>: the code, with its two indices and its lazily allocated buffer, never
  indexes out of range and returns exactly the path given by the element-wise
  specification; cleaning again changes nothing, and two paths have the same cleaned form
  exactly if both or neither are rooted and they have the same normalised elements.
\<close>

theorem Clean_code_correct:
  "Clean_lazy p = Some (Clean p) \<and> Clean_lazy (Clean p) = Some (Clean p) \<and>
   (Clean_lazy p = Clean_lazy q \<longleftrightarrow> IsAbs p = IsAbs q \<and> norm (IsAbs p) (elems p) = norm (IsAbs q) (elems q))"
  by (simp add: Clean_lazy_Clean Clean_idem Clean_eq_iff celems_def)

text \<open>
  C36. \<open>filepath.Rel\<close> and \<open>filepath.Join\<close> are inverse: whenever \<open>Rel\<close> returns a relative path,
  joining it to the base gives the cleaned target. The comparison loop, which has no exit
  for equal paths, always ends within one round per byte, and between two absolute paths
  \<open>Rel\<close> always succeeds.
\<close>

theorem Rel_then_Join:
  assumes "b \<noteq> []"
  shows "Rel b t \<noteq> Inl OutOfFuel \<and> (\<forall>rel. Rel b t = Inr rel \<longrightarrow> Join [b, rel] = Clean t) \<and>
    (IsAbs b \<and> IsAbs t \<longrightarrow> (\<exists>rel. Rel b t = Inr rel))"
proof (intro conjI allI impI)
  have "Rel b t \<noteq> Inl OutOfFuel" if "Clean t \<noteq> Clean b" "IsAbs t = IsAbs b"
    using Rel_elems [OF that(2,1)] by (auto simp: rel_error_def split: if_splits)
  then show "Rel b t \<noteq> Inl OutOfFuel"
    unfolding Rel_def Let_def IsAbs_alt IsAbs_base IsAbs_Clean by (auto simp: rel_error_def)
qed (use Rel_Join_clean [OF _ assms] Rel_absolute in auto)

theorem Rel_then_Join_witness:
  "Rel ''/opt/a'' ''/opt/b/../c'' = Inr ''../c'' \<and> Join [''/opt/a'', ''../c''] = Clean ''/opt/b/../c''"
proof -
  have r: "Rel ''/opt/a'' ''/opt/b/../c'' = Inr ''../c''" by code_simp
  with Rel_then_Join [of "''/opt/a''" "''/opt/b/../c''"] show ?thesis by simp
qed

text \<open>
  Joining a name that has no \<open>..\<close> element to a directory stays inside the directory: the
  normalised elements of the result extend those of the directory.
\<close>

theorem Join_stays_below:
  assumes "d \<noteq> []" "''..'' \<notin> set (elems name)"
  shows "IsAbs (Join [d, name]) = IsAbs d \<and>
    prefix (norm (IsAbs d) (elems d)) (norm (IsAbs d) (elems (Join [d, name])))"
  using Join_below [OF assms] IsAbs_Join2 [OF assms(1)] by (simp add: celems_def)

theorem Join_stays_below_witness:
  "prefix [''tmp'', ''x''] (norm True (elems (Join [''/tmp/x'', ''/etc//./y''])))"
proof -
  have "norm True (elems ''/tmp/x'') = [''tmp'', ''x'']" "IsAbs ''/tmp/x''"
    "''..'' \<notin> set (elems ''/etc//./y'')"
    by code_simp+
  with Join_stays_below [of "''/tmp/x''" "''/etc//./y''"] show ?thesis by simp
qed

end
