(* ===== verification/World.thy ===== *)
theory World
  imports GoPath "HOL-Library.AList"
begin

unbundle bit_operations_syntax

text \<open>
  The operating system as package \<open>os\<close> presents it to a root process on Linux. The file
  system is a finite map from paths (lists of names below the root) to nodes; path names
  are resolved against it as the kernel does, with \<open>.\<close>, \<open>..\<close> and symbolic links (at most
  forty of them). Every system call may fail: \<open>w_faults\<close> is a schedule of failures, one
  entry for each call to come, and a theorem that holds for every schedule holds wherever
  the operating system refuses a call. Permission bits are stored and copied but not
  enforced, since the updater runs as root. Path names with a trailing separator are
  accepted for existing directories only.
\<close>

section \<open>Nodes, paths and the world\<close>

text \<open>Permissions are the twelve bits of \<open>chmod\<close>; octal 755 is \<open>0x1ED\<close>.\<close>

type_synonym path = "string list"
type_synonym perm = "12 word"

datatype node =
    DirN perm
  | FileN perm bytes
  | LinkN string

type_synonym fs = "(path \<times> node) list"

text \<open>A fault is an error number and, for a transfer, the bytes moved before it.\<close>

type_synonym fault = "(errno \<times> nat) option"

text \<open>
  Printed and logged messages are kept by their format literal, their string arguments and the
  error argument. The standard input is the list of what each read of it will return; an empty
  entry, or no entry, is the end of the input.
\<close>

type_synonym message = "string \<times> string list \<times> error option"

record world =
  w_fs :: fs
  w_cwd :: path
  w_umask :: perm
  w_euid :: nat
  w_env :: "(string \<times> string) list"
  w_stdin :: "string list"
  w_out :: "message list"
  w_cmds :: "string list list"
  w_faults :: "fault list"

fun is_dir :: "node \<Rightarrow> bool" where
  "is_dir (DirN _) = True"
| "is_dir _ = False"

fun perm_of :: "node \<Rightarrow> perm" where
  "perm_of (DirN p) = p"
| "perm_of (FileN p _) = p"
| "perm_of (LinkN _) = 0x1FF"

text \<open>The root directory is always there.\<close>

definition lookup :: "fs \<Rightarrow> path \<Rightarrow> node option" where
  "lookup f p = (if p = [] then Some (DirN 0x1ED) else map_of f p)"

definition store :: "path \<Rightarrow> node \<Rightarrow> fs \<Rightarrow> fs" where
  "store p n f = AList.update p n f"

definition erase :: "path \<Rightarrow> fs \<Rightarrow> fs" where
  "erase p f = AList.delete p f"

definition children :: "fs \<Rightarrow> path \<Rightarrow> string list" where
  "children f p = map last (filter (\<lambda>q. q \<noteq> [] \<and> butlast q = p) (map fst f))"

lemma lookup_store [simp]: "p \<noteq> [] \<Longrightarrow> lookup (store p n f) q = (if q = p then Some n else lookup f q)"
  by (simp add: lookup_def store_def update_conv')

lemma lookup_erase [simp]: "p \<noteq> [] \<Longrightarrow> lookup (erase p f) q = (if q = p then None else lookup f q)"
  by (simp add: lookup_def erase_def delete_conv')

lemma lookup_Nil [simp]: "lookup f [] = Some (DirN 0x1ED)"
  by (simp add: lookup_def)

lemma set_children: "set (children f p) = {n. lookup f (p @ [n]) \<noteq> None}"
proof -
  have "set (children f p) = {n. p @ [n] \<in> fst ` set f}"
    by (force simp: children_def image_iff)
  also have "\<dots> = {n. lookup f (p @ [n]) \<noteq> None}"
    by (auto simp: lookup_def map_of_eq_None_iff image_iff)
  finally show ?thesis .
qed

section \<open>Path resolution\<close>

function namei :: "nat \<Rightarrow> fs \<Rightarrow> path \<Rightarrow> string list \<Rightarrow> bool \<Rightarrow> errno + path" where
  "namei n f cur [] follow = Inr cur"
| "namei n f cur (c # cs) follow =
     (case lookup f cur of
        None \<Rightarrow> Inl ENOENT
      | Some nd \<Rightarrow>
          if \<not> is_dir nd then Inl ENOTDIR
          else if c = [] \<or> c = ''.'' then namei n f cur cs follow
          else if c = ''..'' then namei n f (butlast cur) cs follow
          else
            (case lookup f (cur @ [c]) of
               None \<Rightarrow> if cs = [] then Inr (cur @ [c]) else Inl ENOENT
             | Some (LinkN t) \<Rightarrow>
                 if cs = [] \<and> \<not> follow then Inr (cur @ [c])
                 else if n = 0 then Inl ELOOP
                 else namei (n - 1) f (if IsAbs t then [] else cur) (elems t @ cs) follow
             | Some _ \<Rightarrow> namei n f (cur @ [c]) cs follow))"
  by pat_completeness auto
termination
  by (relation "measures [\<lambda>(n, f, cur, cs, fl). n, \<lambda>(n, f, cur, cs, fl). length cs]") auto

definition resolve :: "world \<Rightarrow> string \<Rightarrow> bool \<Rightarrow> errno + path" where
  "resolve w p follow =
     (if p = [] then Inl ENOENT
      else namei 40 (w_fs w) (if IsAbs p then [] else w_cwd w) (elems p) follow)"

section \<open>System calls\<close>

definition tick :: "world \<Rightarrow> fault \<times> world" where
  "tick w = (case w_faults w of [] \<Rightarrow> (None, w) | f # fs \<Rightarrow> (f, w\<lparr>w_faults := fs\<rparr>))"

text \<open>
  A call that looks a name up: it fails as scheduled, or as resolution does, and otherwise
  goes on with the resolved path.
\<close>

definition at_path :: "world \<Rightarrow> string \<Rightarrow> bool \<Rightarrow> (world \<Rightarrow> path \<Rightarrow> (errno + 'a) \<times> world) \<Rightarrow> (errno + 'a) \<times> world" where
  "at_path w p follow k =
     (case tick w of
        (Some (e, _), w') \<Rightarrow> (Inl e, w')
      | (None, w') \<Rightarrow>
          (case resolve w' p follow of Inl e \<Rightarrow> (Inl e, w') | Inr q \<Rightarrow> k w' q))"

definition sys_stat :: "bool \<Rightarrow> string \<Rightarrow> world \<Rightarrow> (errno + node) \<times> world" where
  "sys_stat follow p w =
     at_path w p follow (\<lambda>w q. (case lookup (w_fs w) q of None \<Rightarrow> Inl ENOENT | Some n \<Rightarrow> Inr n, w))"

text \<open>\<open>mkdir\<close> ignores the set-user-ID and set-group-ID bits and applies the umask.\<close>

definition mkdir_mode :: "perm \<Rightarrow> perm \<Rightarrow> perm" where
  "mkdir_mode umask m = (m AND 0x3FF) AND NOT umask"

definition sys_mkdir :: "string \<Rightarrow> perm \<Rightarrow> world \<Rightarrow> (errno + unit) \<times> world" where
  "sys_mkdir p m w =
     at_path w p False (\<lambda>w q.
       case lookup (w_fs w) q of
         Some _ \<Rightarrow> (Inl EEXIST, w)
       | None \<Rightarrow> (Inr (), w\<lparr>w_fs := store q (DirN (mkdir_mode (w_umask w) m)) (w_fs w)\<rparr>))"

definition sys_unlink :: "string \<Rightarrow> world \<Rightarrow> (errno + unit) \<times> world" where
  "sys_unlink p w =
     at_path w p False (\<lambda>w q.
       case lookup (w_fs w) q of
         None \<Rightarrow> (Inl ENOENT, w)
       | Some n \<Rightarrow> if is_dir n then (Inl EISDIR, w) else (Inr (), w\<lparr>w_fs := erase q (w_fs w)\<rparr>))"

definition sys_rmdir :: "string \<Rightarrow> world \<Rightarrow> (errno + unit) \<times> world" where
  "sys_rmdir p w =
     at_path w p False (\<lambda>w q.
       case lookup (w_fs w) q of
         None \<Rightarrow> (Inl ENOENT, w)
       | Some n \<Rightarrow>
           if \<not> is_dir n then (Inl ENOTDIR, w)
           else if q = [] \<or> children (w_fs w) q \<noteq> [] then (Inl ENOTEMPTY, w)
           else (Inr (), w\<lparr>w_fs := erase q (w_fs w)\<rparr>))"

text \<open>Opening gives the resolved path as the handle.\<close>

definition sys_open :: "string \<Rightarrow> world \<Rightarrow> (errno + path) \<times> world" where
  "sys_open p w =
     at_path w p True (\<lambda>w q. (case lookup (w_fs w) q of None \<Rightarrow> Inl ENOENT | Some _ \<Rightarrow> Inr q, w))"

definition sys_creat :: "string \<Rightarrow> perm \<Rightarrow> world \<Rightarrow> (errno + path) \<times> world" where
  "sys_creat p m w =
     at_path w p True (\<lambda>w q.
       case lookup (w_fs w) q of
         None \<Rightarrow> (Inr q, w\<lparr>w_fs := store q (FileN (m AND NOT (w_umask w)) []) (w_fs w)\<rparr>)
       | Some (FileN m' _) \<Rightarrow> (Inr q, w\<lparr>w_fs := store q (FileN m' []) (w_fs w)\<rparr>)
       | Some _ \<Rightarrow> (Inl EISDIR, w))"

definition sys_symlink :: "string \<Rightarrow> string \<Rightarrow> world \<Rightarrow> (errno + unit) \<times> world" where
  "sys_symlink target p w =
     (if target = [] then (Inl ENOENT, w)
      else at_path w p False (\<lambda>w q.
        case lookup (w_fs w) q of
          Some _ \<Rightarrow> (Inl EEXIST, w)
        | None \<Rightarrow> (Inr (), w\<lparr>w_fs := store q (LinkN target) (w_fs w)\<rparr>)))"

definition sys_readdir :: "path \<Rightarrow> world \<Rightarrow> (errno + string list) \<times> world" where
  "sys_readdir q w =
     (case tick w of
        (Some (e, _), w') \<Rightarrow> (Inl e, w')
      | (None, w') \<Rightarrow>
          (case lookup (w_fs w') q of
             None \<Rightarrow> (Inl ENOENT, w')
           | Some n \<Rightarrow> if is_dir n then (Inr (children (w_fs w') q), w') else (Inl ENOTDIR, w')))"

definition sys_read :: "path \<Rightarrow> world \<Rightarrow> (errno + bytes) \<times> world" where
  "sys_read q w =
     (case tick w of
        (Some (e, _), w') \<Rightarrow> (Inl e, w')
      | (None, w') \<Rightarrow>
          (case lookup (w_fs w') q of
             Some (FileN _ bs) \<Rightarrow> (Inr bs, w')
           | Some _ \<Rightarrow> (Inl EISDIR, w')
           | None \<Rightarrow> (Inl ENOENT, w')))"

text \<open>Writing to a file that was just created or truncated; a fault leaves a prefix.\<close>

definition sys_write :: "path \<Rightarrow> bytes \<Rightarrow> world \<Rightarrow> errno option \<times> world" where
  "sys_write q bs w =
     (case tick w of
        (flt, w') \<Rightarrow>
          (let bs' = (case flt of None \<Rightarrow> bs | Some (_, k) \<Rightarrow> take k bs) in
           case lookup (w_fs w') q of
             Some (FileN m old) \<Rightarrow>
               (map_option fst flt, w'\<lparr>w_fs := store q (FileN m (old @ bs')) (w_fs w')\<rparr>)
           | _ \<Rightarrow> (Some (case flt of None \<Rightarrow> EIO | Some (e, _) \<Rightarrow> e), w')))"

definition sys_fchmod :: "path \<Rightarrow> perm \<Rightarrow> world \<Rightarrow> errno option \<times> world" where
  "sys_fchmod q m w =
     (case tick w of
        (Some (e, _), w') \<Rightarrow> (Some e, w')
      | (None, w') \<Rightarrow>
          (case lookup (w_fs w') q of
             Some (FileN _ bs) \<Rightarrow> (None, w'\<lparr>w_fs := store q (FileN m bs) (w_fs w')\<rparr>)
           | _ \<Rightarrow> (Some EIO, w')))"

text \<open>Calls relative to an open directory, given by its path.\<close>

definition at_fd :: "world \<Rightarrow> path \<Rightarrow> string \<Rightarrow> (world \<Rightarrow> path \<Rightarrow> (errno + 'a) \<times> world) \<Rightarrow> (errno + 'a) \<times> world" where
  "at_fd w d name k =
     (case tick w of
        (Some (e, _), w') \<Rightarrow> (Inl e, w')
      | (None, w') \<Rightarrow>
          (case namei 40 (w_fs w') d (elems name) False of Inl e \<Rightarrow> (Inl e, w') | Inr q \<Rightarrow> k w' q))"

definition unlinkat :: "path \<Rightarrow> string \<Rightarrow> world \<Rightarrow> (errno + unit) \<times> world" where
  "unlinkat d name w =
     at_fd w d name (\<lambda>w q.
       case lookup (w_fs w) q of
         None \<Rightarrow> (Inl ENOENT, w)
       | Some n \<Rightarrow> if is_dir n then (Inl EISDIR, w) else (Inr (), w\<lparr>w_fs := erase q (w_fs w)\<rparr>))"

definition removedirat :: "path \<Rightarrow> string \<Rightarrow> world \<Rightarrow> (errno + unit) \<times> world" where
  "removedirat d name w =
     at_fd w d name (\<lambda>w q.
       case lookup (w_fs w) q of
         None \<Rightarrow> (Inl ENOENT, w)
       | Some n \<Rightarrow>
           if \<not> is_dir n then (Inl ENOTDIR, w)
           else if q = [] \<or> children (w_fs w) q \<noteq> [] then (Inl ENOTEMPTY, w)
           else (Inr (), w\<lparr>w_fs := erase q (w_fs w)\<rparr>))"

definition openDirAt :: "path \<Rightarrow> string \<Rightarrow> world \<Rightarrow> (errno + path) \<times> world" where
  "openDirAt d name w =
     at_fd w d name (\<lambda>w q.
       case lookup (w_fs w) q of
         None \<Rightarrow> (Inl ENOENT, w)
       | Some (DirN _) \<Rightarrow> (Inr q, w)
       | Some (FileN _ _) \<Rightarrow> (Inl ENOTDIR, w)
       | Some (LinkN _) \<Rightarrow> (Inl ELOOP, w))"

definition println :: "string \<Rightarrow> world \<Rightarrow> world" where
  "println s w = w\<lparr>w_out := w_out w @ [(s, [], None)]\<rparr>"

definition printf :: "string \<Rightarrow> string list \<Rightarrow> error option \<Rightarrow> world \<Rightarrow> world" where
  "printf fmt args e w = w\<lparr>w_out := w_out w @ [(fmt, args, e)]\<rparr>"

section \<open>Well-formed file systems\<close>

text \<open>
  Every node hangs off a directory, every name is a proper one, and no path is listed twice.
\<close>

definition dir_at :: "fs \<Rightarrow> path \<Rightarrow> bool" where
  "dir_at f p \<longleftrightarrow> (\<exists>m. lookup f p = Some (DirN m))"

definition wf_fs :: "fs \<Rightarrow> bool" where
  "wf_fs f \<longleftrightarrow>
     (\<forall>p n. lookup f p = Some n \<longrightarrow> list_all name_ok p \<and> (p \<noteq> [] \<longrightarrow> dir_at f (butlast p))) \<and>
     distinct (map fst f)"

lemma is_dir_conv: "is_dir n \<longleftrightarrow> (\<exists>m. n = DirN m)"
  by (cases n) auto

lemma dir_at_Nil [simp]: "dir_at f []"
  by (simp add: dir_at_def)

lemma wf_fs_parent: "wf_fs f \<Longrightarrow> lookup f p = Some n \<Longrightarrow> p \<noteq> [] \<Longrightarrow> dir_at f (butlast p)"
  unfolding wf_fs_def by blast

lemma wf_fs_names: "wf_fs f \<Longrightarrow> lookup f p = Some n \<Longrightarrow> list_all name_ok p"
  unfolding wf_fs_def by blast

lemma wf_fs_prefix:
  assumes "wf_fs f"
  shows "lookup f (p @ q) \<noteq> None \<Longrightarrow> q \<noteq> [] \<Longrightarrow> dir_at f p"
proof (induction q rule: rev_induct)
  case (snoc x q)
  then have "dir_at f (p @ q)"
    using wf_fs_parent [OF assms, of "p @ q @ [x]"] by (auto simp: butlast_append)
  with snoc show ?case by (cases "q = []") (auto simp: dir_at_def)
qed simp

lemma wf_fs_no_child:
  "wf_fs f \<Longrightarrow> lookup f p = Some n \<Longrightarrow> \<not> is_dir n \<Longrightarrow> q \<noteq> [] \<Longrightarrow> lookup f (p @ q) = None"
  using wf_fs_prefix [of f p q] by (force simp: dir_at_def)

lemma wf_fs_absent: "wf_fs f \<Longrightarrow> lookup f p = None \<Longrightarrow> lookup f (p @ q) = None"
  using wf_fs_prefix [of f p q] by (cases "q = []") (force simp: dir_at_def)+

lemma distinct_children: "wf_fs f \<Longrightarrow> distinct (children f p)"
proof -
  assume "wf_fs f"
  then have d: "distinct (filter (\<lambda>q. q \<noteq> [] \<and> butlast q = p) (map fst f))"
    by (auto simp: wf_fs_def)
  have "inj_on last (set (filter (\<lambda>q. q \<noteq> [] \<and> butlast q = p) (map fst f)))"
    by (auto intro!: inj_onI) (metis append_butlast_last_id)
  with d show ?thesis by (simp add: children_def distinct_map)
qed

lemma children_empty: "children f p = [] \<longleftrightarrow> (\<forall>n. lookup f (p @ [n]) = None)"
  using set_children [of f p] by auto

lemma wf_fs_store:
  assumes "wf_fs f" "p \<noteq> []" "dir_at f (butlast p)" "list_all name_ok p"
    and "dir_at f p \<Longrightarrow> is_dir n"
  shows "wf_fs (store p n f)"
proof -
  have "dir_at (store p n f) q" if "dir_at f q" for q
    using that assms(2,5) by (auto simp: dir_at_def is_dir_conv)
  moreover have "distinct (map fst (store p n f))"
    using assms(1) by (simp add: store_def distinct_update wf_fs_def)
  ultimately show ?thesis using assms unfolding wf_fs_def by auto
qed

lemma wf_fs_erase:
  assumes "wf_fs f" "p \<noteq> []" "\<And>x. lookup f (p @ [x]) = None"
  shows "wf_fs (erase p f)"
proof -
  have "dir_at (erase p f) (butlast q)" if "lookup f q = Some n" "q \<noteq> []" for q n
  proof -
    have "butlast q \<noteq> p" using assms(3) [of "last q"] that by (metis append_butlast_last_id option.discI)
    then show ?thesis using wf_fs_parent [OF assms(1) that] assms(2) by (simp add: dir_at_def)
  qed
  moreover have "distinct (map fst (erase p f))"
    using assms(1) by (simp add: erase_def distinct_delete wf_fs_def)
  ultimately show ?thesis using assms(1,2) unfolding wf_fs_def by auto
qed

section \<open>What resolution returns\<close>

lemma namei_wf:
  assumes "wf_fs f" "list_all name_ok cur" "\<forall>c \<in> set cs. slash \<notin> set c"
    and "cur \<noteq> [] \<Longrightarrow> dir_at f (butlast cur)"
    and "namei n f cur cs follow = Inr q"
  shows "list_all name_ok q \<and> (q \<noteq> [] \<longrightarrow> dir_at f (butlast q))"
  using assms
proof (induction n f cur cs follow rule: namei.induct)
  case (1 n f cur follow)
  then show ?case by simp
next
  case (2 n f cur c cs follow)
  then obtain nd where nd: "lookup f cur = Some nd" "is_dir nd" by (auto split: option.splits if_splits)
  have up: "list_all name_ok (butlast cur)" "butlast cur \<noteq> [] \<Longrightarrow> dir_at f (butlast (butlast cur))"
  proof -
    show "list_all name_ok (butlast cur)" using "2.prems"(2) by (auto simp: list_all_iff dest: in_set_butlastD)
    show "butlast cur \<noteq> [] \<Longrightarrow> dir_at f (butlast (butlast cur))"
      using "2.prems"(1,4) by (cases "cur = []") (auto simp: dir_at_def dest: wf_fs_parent)
  qed
  consider "c = [] \<or> c = ''.''" | "c = ''..''" | (name) "c \<noteq> []" "c \<noteq> ''.''" "c \<noteq> ''..''" by blast
  then show ?case
  proof cases
    case 1
    with 2 nd show ?thesis by auto
  next
    case 2
    with "2.IH"(2) [OF nd(1)] "2.prems" nd up show ?thesis by auto
  next
    case name
    then have c: "name_ok c" using "2.prems"(3) by (simp add: name_ok_def pelem_def)
    have new: "list_all name_ok (cur @ [c])" "dir_at f (butlast (cur @ [c]))"
      using c nd "2.prems"(2) by (auto simp: dir_at_def is_dir_conv)
    show ?thesis
    proof (cases "lookup f (cur @ [c])")
      case None
      with "2.prems"(5) nd name new show ?thesis by (auto split: if_splits)
    next
      case (Some x)
      show ?thesis
      proof (cases x)
        case (LinkN t)
        have "\<forall>c \<in> set (elems t @ cs). slash \<notin> set c" using "2.prems"(3) by (auto dest: elems_parts)
        with "2.IH"(5) [OF nd(1)] "2.prems" nd name Some LinkN new show ?thesis by (auto split: if_splits)
      next
        case (DirN m)
        with "2.IH"(3) [OF nd(1)] "2.prems" nd name Some new show ?thesis by auto
      next
        case (FileN m b)
        with "2.IH"(4) [OF nd(1)] "2.prems" nd name Some new show ?thesis by auto
      qed
    qed
  qed
qed

text \<open>
  Resolving names below real directories changes nothing: each prefix is a directory and the
  last node, if it is to be followed, is no link.
\<close>

definition not_link :: "fs \<Rightarrow> path \<Rightarrow> bool" where
  "not_link f p \<longleftrightarrow> (\<forall>t. lookup f p \<noteq> Some (LinkN t))"

lemma namei_names:
  assumes "list_all name_ok ns" "\<And>k. k < length ns \<Longrightarrow> dir_at f (cur @ take k ns)"
    and "follow \<Longrightarrow> not_link f (cur @ ns)"
  shows "namei n f cur ns follow = Inr (cur @ ns)"
  using assms
proof (induction ns arbitrary: cur)
  case (Cons c ns)
  have c: "c \<noteq> []" "c \<noteq> ''.''" "c \<noteq> ''..''" using Cons.prems(1) by (auto simp: name_ok_def pelem_def)
  obtain m where m: "lookup f cur = Some (DirN m)" using Cons.prems(2) [of 0] by (auto simp: dir_at_def)
  show ?case
  proof (cases "ns = []")
    case True
    with c m Cons.prems(3) show ?thesis by (auto simp: not_link_def split: option.split node.split)
  next
    case False
    then obtain m' where "lookup f (cur @ [c]) = Some (DirN m')"
      using Cons.prems(2) [of 1] by (auto simp: dir_at_def)
    moreover have "namei n f (cur @ [c]) ns follow = Inr ((cur @ [c]) @ ns)"
      using Cons.prems(1,3) Cons.prems(2) [of "Suc k" for k] by (intro Cons.IH) auto
    ultimately show ?thesis using c m by simp
  qed
qed simp

abbreviation apath :: "path \<Rightarrow> string" where
  "apath ps \<equiv> render True ps"

lemma normal_names: "list_all name_ok ps \<Longrightarrow> normal rooted ps"
  unfolding normal_def by (rule exI [of _ 0]) auto

lemma normal_True_names: "normal True ps \<longleftrightarrow> list_all name_ok ps"
  by (auto simp: normal_def)

lemma Clean_abs: "IsAbs p \<Longrightarrow> Clean p = apath (celems p) \<and> list_all name_ok (celems p)"
  using normal_celems [of p] by (simp add: Clean_celems normal_True_names)

lemma resolve_apath:
  assumes "list_all name_ok ps"
  shows "resolve w (apath ps) follow = namei 40 (w_fs w) [] ps follow"
proof -
  have n: "normal True ps" using assms by (rule normal_names)
  have "apath ps \<noteq> []" by (simp add: render_def)
  then show ?thesis
    using elems_render [OF n] IsAbs_render [OF n] by (auto simp: resolve_def)
qed

lemma dir_at_take:
  assumes "wf_fs f" "dir_at f p"
  shows "dir_at f (take k p)"
proof (cases "drop k p = []")
  case True
  with assms(2) show ?thesis by simp
next
  case False
  have "lookup f (take k p @ drop k p) \<noteq> None" using assms(2) by (auto simp: dir_at_def)
  from wf_fs_prefix [OF assms(1) this False] show ?thesis .
qed

text \<open>The parent of \<open>ps\<close> is a directory: then the name denotes \<open>ps\<close> itself.\<close>

lemma resolve_real:
  assumes "wf_fs (w_fs w)" "list_all name_ok ps" "ps \<noteq> [] \<Longrightarrow> dir_at (w_fs w) (butlast ps)"
    and "follow \<Longrightarrow> not_link (w_fs w) ps"
  shows "resolve w (apath ps) follow = Inr ps"
proof -
  have "dir_at (w_fs w) (take k ps)" if "k < length ps" for k
  proof -
    have "take k ps = take k (butlast ps)" using that by (simp add: butlast_conv_take)
    then show ?thesis
      using dir_at_take [OF assms(1) assms(3), of k] that by (metis list.size(3) not_less_zero)
  qed
  then show ?thesis
    unfolding resolve_apath [OF assms(2)] using namei_names [of ps "w_fs w" "[]"] assms(2,4) by simp
qed

lemma resolve_present:
  assumes "wf_fs (w_fs w)" "lookup (w_fs w) ps = Some n" "follow \<Longrightarrow> not_link (w_fs w) ps"
  shows "resolve w (apath ps) follow = Inr ps"
  using assms by (intro resolve_real) (auto dest: wf_fs_names wf_fs_parent)

text \<open>A name whose parent is missing, below real directories, does not resolve.\<close>

lemma namei_missing:
  assumes "list_all name_ok ns" "dir_at f cur" "\<And>k. lookup f (cur @ take k ns) \<noteq> None \<Longrightarrow> dir_at f (cur @ take k ns)"
    and "k < length ns" "lookup f (cur @ take k ns) = None"
  shows "namei n f cur ns follow = Inl ENOENT"
  using assms
proof (induction ns arbitrary: cur k)
  case (Cons c ns)
  have c: "c \<noteq> []" "c \<noteq> ''.''" "c \<noteq> ''..''" using Cons.prems(1) by (auto simp: name_ok_def pelem_def)
  obtain m where m: "lookup f cur = Some (DirN m)" using Cons.prems(2) by (auto simp: dir_at_def)
  obtain k' where k: "k = Suc k'" using Cons.prems(5) m by (cases k) auto
  show ?case
  proof (cases "lookup f (cur @ [c])")
    case None
    with c m k Cons.prems(4) show ?thesis by (cases ns) auto
  next
    case (Some x)
    then have d: "dir_at f (cur @ [c])" using Cons.prems(3) [of 1] by simp
    have "namei n f (cur @ [c]) ns follow = Inl ENOENT"
      using Cons.prems k Cons.prems(3) [of "Suc j" for j] d by (intro Cons.IH [of _ k']) auto
    then show ?thesis using c m d by (auto simp: dir_at_def)
  qed
qed simp

section \<open>How system calls change the world\<close>

text \<open>
  A world is well-formed if its file system is; \<open>evolves\<close> says that a world came from another
  by file-system calls only: well-formedness is kept, nothing but the file system and the
  fault schedule changed, and the schedule was only consumed.
\<close>

definition w_ok :: "world \<Rightarrow> bool" where
  "w_ok w \<longleftrightarrow> wf_fs (w_fs w) \<and> list_all name_ok (w_cwd w)"

definition evolves :: "world \<Rightarrow> world \<Rightarrow> bool" where
  "evolves w w' \<longleftrightarrow>
     (w_ok w \<longrightarrow> w_ok w') \<and> suffix (w_faults w') (w_faults w) \<and>
     w' = w\<lparr>w_fs := w_fs w', w_faults := w_faults w'\<rparr>"

lemma evolves_refl [simp, intro]: "evolves w w"
  by (simp add: evolves_def)

lemma evolves_trans [trans]: "evolves w1 w2 \<Longrightarrow> evolves w2 w3 \<Longrightarrow> evolves w1 w3"
proof (unfold evolves_def, elim conjE, intro conjI)
  assume "w2 = w1\<lparr>w_fs := w_fs w2, w_faults := w_faults w2\<rparr>"
    "w3 = w2\<lparr>w_fs := w_fs w3, w_faults := w_faults w3\<rparr>"
  then show "w3 = w1\<lparr>w_fs := w_fs w3, w_faults := w_faults w3\<rparr>"
    by (cases w1; cases w2; cases w3) simp
qed (auto intro: suffix_order.trans)

lemma evolves_keeps:
  assumes "evolves w w'"
  shows "w_cwd w' = w_cwd w" "w_umask w' = w_umask w" "w_euid w' = w_euid w" "w_env w' = w_env w"
    "w_stdin w' = w_stdin w" "w_out w' = w_out w" "w_cmds w' = w_cmds w"
    "w_faults w = [] \<Longrightarrow> w_faults w' = []"
proof -
  have eq: "w' = w\<lparr>w_fs := w_fs w', w_faults := w_faults w'\<rparr>" using assms by (simp add: evolves_def)
  show "w_cwd w' = w_cwd w" "w_umask w' = w_umask w" "w_euid w' = w_euid w" "w_env w' = w_env w"
    "w_stdin w' = w_stdin w" "w_out w' = w_out w" "w_cmds w' = w_cmds w"
    by (subst eq; simp)+
  show "w_faults w = [] \<Longrightarrow> w_faults w' = []" using assms by (simp add: evolves_def)
qed

lemma tick_evolves: "tick w = (r, w') \<Longrightarrow> evolves w w' \<and> w_fs w' = w_fs w"
  by (auto simp: tick_def evolves_def w_ok_def suffix_Cons split: list.splits)

lemma evolves_fs: "(w_ok w \<Longrightarrow> wf_fs f) \<Longrightarrow> evolves w (w\<lparr>w_fs := f\<rparr>)"
  by (auto simp: evolves_def w_ok_def)

lemma resolve_wf:
  assumes "w_ok w" "resolve w p follow = Inr q"
  shows "list_all name_ok q" "q \<noteq> [] \<Longrightarrow> dir_at (w_fs w) (butlast q)"
proof -
  let ?cur = "if IsAbs p then [] else w_cwd w"
  have n: "namei 40 (w_fs w) ?cur (elems p) follow = Inr q"
    using assms(2) by (auto simp: resolve_def split: if_splits)
  obtain c cs where "elems p = c # cs" by (cases "elems p") auto
  with n obtain nd where "lookup (w_fs w) ?cur = Some nd"
    by (auto split: option.splits if_splits)
  then have "?cur \<noteq> [] \<Longrightarrow> dir_at (w_fs w) (butlast ?cur)"
    using assms(1) by (intro wf_fs_parent) (auto simp: w_ok_def)
  moreover have "list_all name_ok ?cur" "\<forall>c \<in> set (elems p). slash \<notin> set c" "wf_fs (w_fs w)"
    using assms(1) by (auto simp: w_ok_def dest: elems_parts)
  ultimately show "list_all name_ok q" "q \<noteq> [] \<Longrightarrow> dir_at (w_fs w) (butlast q)"
    using namei_wf [OF _ _ _ _ n] by auto
qed

lemma at_path_evolves:
  assumes "\<And>w' q. evolves w w' \<Longrightarrow> resolve w' p follow = Inr q \<Longrightarrow> evolves w' (snd (k w' q))"
  shows "evolves w (snd (at_path w p follow k))"
proof -
  obtain r w' where t: "tick w = (r, w')" by fastforce
  note ev = tick_evolves [OF t]
  show ?thesis
    using t ev assms [of w'] evolves_trans [of w w']
    by (auto simp: at_path_def split: option.splits sum.splits)
qed

text \<open>
  A preorder on worlds is kept by a definition if it is kept by its parts; the rules follow
  the shape of a definition: sequencing, case distinction, return.
\<close>

locale world_preorder =
  fixes R :: "world \<Rightarrow> world \<Rightarrow> bool"
  assumes R_refl: "R w w"
    and R_trans: "R w1 w2 \<Longrightarrow> R w2 w3 \<Longrightarrow> R w1 w3"
begin

lemma R_bind: "R w (snd r) \<Longrightarrow> (\<And>x w'. R w' (snd (k x w'))) \<Longrightarrow> R w (snd (case r of (x, w') \<Rightarrow> k x w'))"
  by (cases r) (auto intro: R_trans)

lemma R_ret: "R w (snd (x, w))"
  by (simp add: R_refl)

lemma R_sum: "(\<And>a. R w (snd (f a))) \<Longrightarrow> (\<And>b. R w (snd (g b))) \<Longrightarrow> R w (snd (case s of Inl a \<Rightarrow> f a | Inr b \<Rightarrow> g b))"
  by (cases s) auto

lemma R_option: "R w (snd f) \<Longrightarrow> (\<And>b. R w (snd (g b))) \<Longrightarrow> R w (snd (case s of None \<Rightarrow> f | Some b \<Rightarrow> g b))"
  by (cases s) auto

lemma R_pair: "(\<And>a b. R w (snd (f a b))) \<Longrightarrow> R w (snd (case s of (a, b) \<Rightarrow> f a b))"
  by (cases s) auto

lemma R_if: "R w (snd a) \<Longrightarrow> R w (snd b) \<Longrightarrow> R w (snd (if c then a else b))"
  by simp

lemmas R_shape = R_bind R_sum R_option R_if R_ret

end

text \<open>
  The laws a relation on worlds must satisfy to be kept by everything that looks at files and
  removes them: it is a preorder, and each single call of that kind is in it.
\<close>

locale removal_relation = world_preorder +
  assumes R_tick: "R w (snd (tick w))"
    and R_stat: "R w (snd (sys_stat follow p w))"
    and R_unlink: "R w (snd (sys_unlink p w))"
    and R_rmdir: "R w (snd (sys_rmdir p w))"
    and R_open: "R w (snd (sys_open p w))"
    and R_readdir: "R w (snd (sys_readdir q w))"
    and R_read: "R w (snd (sys_read q w))"
    and R_unlinkat: "R w (snd (unlinkat q name w))"
    and R_removedirat: "R w (snd (removedirat q name w))"
    and R_openDirAt: "R w (snd (openDirAt q name w))"

text \<open>With the calls that create and write, a relation is kept by all system calls.\<close>

locale sys_relation = removal_relation +
  assumes R_mkdir: "R w (snd (sys_mkdir p m w))"
    and R_creat: "R w (snd (sys_creat p m w))"
    and R_symlink: "R w (snd (sys_symlink t p w))"
    and R_write: "R w (snd (sys_write q bs w))"
    and R_fchmod: "R w (snd (sys_fchmod q m w))"

lemma store_file_evolves:
  "lookup (w_fs w) q = Some (FileN m b) \<Longrightarrow> evolves w (w\<lparr>w_fs := store q (FileN m' b') (w_fs w)\<rparr>)"
  by (intro evolves_fs wf_fs_store)
     (auto simp: w_ok_def dir_at_def dest: wf_fs_parent wf_fs_names)

lemma store_new_evolves:
  assumes "resolve w p follow = Inr q" "lookup (w_fs w) q = None"
  shows "evolves w (w\<lparr>w_fs := store q n (w_fs w)\<rparr>)"
proof -
  have "q \<noteq> []" using assms(2) by auto
  with resolve_wf [OF _ assms(1)] assms(2) show ?thesis
    by (intro evolves_fs wf_fs_store) (auto simp: w_ok_def dir_at_def)
qed

lemma erase_evolves:
  assumes "\<And>x. w_ok w \<Longrightarrow> lookup (w_fs w) (q @ [x]) = None" "q \<noteq> []"
  shows "evolves w (w\<lparr>w_fs := erase q (w_fs w)\<rparr>)"
  using assms by (intro evolves_fs wf_fs_erase) (auto simp: w_ok_def)

lemma erase_nondir_evolves:
  "lookup (w_fs w) q = Some n \<Longrightarrow> \<not> is_dir n \<Longrightarrow> evolves w (w\<lparr>w_fs := erase q (w_fs w)\<rparr>)"
  by (rule erase_evolves) (auto simp: w_ok_def dest: wf_fs_no_child)

lemma at_fd_evolves:
  assumes "\<And>w' q. evolves w w' \<Longrightarrow> evolves w' (snd (k w' q))"
  shows "evolves w (snd (at_fd w d name k))"
proof -
  obtain r w' where t: "tick w = (r, w')" by fastforce
  note ev = tick_evolves [OF t]
  show ?thesis
    using t ev assms [of w'] evolves_trans [of w w']
    by (auto simp: at_fd_def split: option.splits sum.splits)
qed

interpretation evo: sys_relation evolves
proof
  show "evolves w (snd (unlinkat q name w))" for w q name
    unfolding unlinkat_def
    by (rule at_fd_evolves) (auto split: option.split intro: erase_nondir_evolves)
  show "evolves w (snd (removedirat q name w))" for w q name
    unfolding removedirat_def
    by (rule at_fd_evolves) (auto split: option.split simp: children_empty intro: erase_evolves)
  show "evolves w (snd (openDirAt q name w))" for w q name
    unfolding openDirAt_def by (rule at_fd_evolves) (auto split: option.split node.split)
  show "evolves w1 w2 \<Longrightarrow> evolves w2 w3 \<Longrightarrow> evolves w1 w3" for w1 w2 w3 by (rule evolves_trans)
  show "evolves w (snd (tick w))" for w using tick_evolves [of w] by (cases "tick w") auto
  show "evolves w (snd (sys_stat follow p w))" for w follow p
    unfolding sys_stat_def by (rule at_path_evolves) auto
  show "evolves w (snd (sys_mkdir p m w))" for w p m
    unfolding sys_mkdir_def
    by (rule at_path_evolves) (auto split: option.split intro: store_new_evolves)
  show "evolves w (snd (sys_unlink p w))" for w p
    unfolding sys_unlink_def
    by (rule at_path_evolves) (auto split: option.split intro: erase_nondir_evolves)
  show "evolves w (snd (sys_rmdir p w))" for w p
    unfolding sys_rmdir_def
    by (rule at_path_evolves) (auto split: option.split simp: children_empty intro: erase_evolves)
  show "evolves w (snd (sys_open p w))" for w p
    unfolding sys_open_def by (rule at_path_evolves) auto
  show "evolves w (snd (sys_creat p m w))" for w p m
    unfolding sys_creat_def
    by (rule at_path_evolves) (auto split: option.split node.split intro: store_new_evolves store_file_evolves)
  show "evolves w (snd (sys_symlink t p w))" for w t p
    unfolding sys_symlink_def
    by (auto intro!: at_path_evolves store_new_evolves split: option.split)
  fix w :: world and q :: path and bs :: bytes and m :: perm
  obtain r w' where t: "tick w = (r, w')" by fastforce
  have ev: "evolves w w'" using tick_evolves [OF t] by simp
  then have st: "evolves w (w'\<lparr>w_fs := store q (FileN m1 b1) (w_fs w')\<rparr>)"
    if "lookup (w_fs w') q = Some (FileN m0 b0)" for m0 b0 m1 b1
    using that by (blast intro: evolves_trans store_file_evolves)
  show "evolves w (snd (sys_readdir q w))" "evolves w (snd (sys_read q w))"
    using ev t by (auto simp: sys_readdir_def sys_read_def split: option.split node.split)
  show "evolves w (snd (sys_write q bs w))"
    using ev t st by (auto simp: sys_write_def Let_def split: option.split node.split)
  show "evolves w (snd (sys_fchmod q m w))"
    using ev t st by (auto simp: sys_fchmod_def split: option.split node.split)
qed simp

text \<open>What only removes leaves every node as it was, or takes it away.\<close>

definition shrinks :: "world \<Rightarrow> world \<Rightarrow> bool" where
  "shrinks w w' \<longleftrightarrow> (\<forall>q. lookup (w_fs w') q = None \<or> lookup (w_fs w') q = lookup (w_fs w) q)"

lemma shrinks_erase: "shrinks w w' \<Longrightarrow> shrinks w (w'\<lparr>w_fs := erase q (w_fs w')\<rparr>)"
proof -
  have "lookup (erase q f) p = None \<or> lookup (erase q f) p = lookup f p" for f p
    by (simp add: lookup_def erase_def delete_conv')
  then show "shrinks w w' \<Longrightarrow> ?thesis" by (auto simp: shrinks_def) metis
qed

lemma tick_shrinks: "tick w = (r, w') \<Longrightarrow> shrinks w w'"
  by (auto simp: tick_def shrinks_def split: list.splits)

interpretation shr: removal_relation shrinks
proof
  show "shrinks w w" for w by (simp add: shrinks_def)
  show "shrinks w1 w2 \<Longrightarrow> shrinks w2 w3 \<Longrightarrow> shrinks w1 w3" for w1 w2 w3 unfolding shrinks_def by metis
  fix w :: world
  show "shrinks w (snd (tick w))" using tick_shrinks [of w] by (cases "tick w") auto
  show "shrinks w (snd (sys_stat follow p w))" for follow p
    using tick_shrinks [of w] by (auto simp: sys_stat_def at_path_def split: prod.split option.split sum.split)
  show "shrinks w (snd (sys_unlink p w))" "shrinks w (snd (sys_rmdir p w))" "shrinks w (snd (sys_open p w))" for p
    using tick_shrinks [of w]
    by (auto simp: sys_unlink_def sys_rmdir_def sys_open_def at_path_def shrinks_erase split: prod.split option.split sum.split)
  show "shrinks w (snd (sys_readdir q w))" "shrinks w (snd (sys_read q w))" for q
    using tick_shrinks [of w] by (auto simp: sys_readdir_def sys_read_def split: prod.split option.split node.split)
  show "shrinks w (snd (unlinkat q n w))" "shrinks w (snd (removedirat q n w))" "shrinks w (snd (openDirAt q n w))" for q n
    using tick_shrinks [of w]
    by (auto simp: unlinkat_def removedirat_def openDirAt_def at_fd_def shrinks_erase
        split: prod.split option.split sum.split node.split)
qed

end
