(* ===== verification/GoOS.thy ===== *)
theory GoOS
  imports World
begin

text \<open>
  The functions of package \<open>os\<close> and of \<open>path/filepath\<close> that the updater calls, written over
  the system calls of theory \<open>World\<close> as the Go standard library writes them
  (\<open>os/path.go\<close>, \<open>os/removeall_at.go\<close>, \<open>os/file.go\<close>, \<open>os/file_unix.go\<close>, \<open>os/dir.go\<close>,
  \<open>path/filepath/path.go\<close>). Recursions over the directory tree carry fuel; the callers start
  them with the number of nodes of the file system, which is shown to be enough.
\<close>

section \<open>Errors and simple calls\<close>

definition path_err :: "string \<Rightarrow> string \<Rightarrow> (errno + 'a) \<times> world \<Rightarrow> 'a result \<times> world" where
  "path_err op p r = (case r of (Inl e, w) \<Rightarrow> (Inl (PathError op p e), w) | (Inr x, w) \<Rightarrow> (Inr x, w))"

fun underlyingError :: "error \<Rightarrow> error" where
  "underlyingError (PathError op p e) = Errno e"
| "underlyingError e = e"

definition IsNotExist :: "error \<Rightarrow> bool" where
  "IsNotExist e \<longleftrightarrow> underlyingError e = Errno ENOENT"

definition Stat :: "string \<Rightarrow> world \<Rightarrow> node result \<times> world" where
  "Stat p w = path_err ''stat'' p (sys_stat True p w)"

definition Lstat :: "string \<Rightarrow> world \<Rightarrow> node result \<times> world" where
  "Lstat p w = path_err ''lstat'' p (sys_stat False p w)"

definition Open :: "string \<Rightarrow> world \<Rightarrow> path result \<times> world" where
  "Open p w = path_err ''open'' p (sys_open p w)"

text \<open>\<open>OpenFile\<close> with \<open>O_CREATE|O_WRONLY|O_TRUNC\<close>, and \<open>Create\<close> (mode 0666).\<close>

definition OpenTrunc :: "string \<Rightarrow> perm \<Rightarrow> world \<Rightarrow> path result \<times> world" where
  "OpenTrunc p m w = path_err ''open'' p (sys_creat p m w)"

definition Create :: "string \<Rightarrow> world \<Rightarrow> path result \<times> world" where
  "Create p w = OpenTrunc p 0x1B6 w"

definition Mkdir :: "string \<Rightarrow> perm \<Rightarrow> world \<Rightarrow> error option \<times> world" where
  "Mkdir p m w =
     (case sys_mkdir p m w of (Inl e, w') \<Rightarrow> (Some (PathError ''mkdir'' p e), w') | (Inr _, w') \<Rightarrow> (None, w'))"

definition Symlink :: "string \<Rightarrow> string \<Rightarrow> world \<Rightarrow> error option \<times> world" where
  "Symlink oldname newname w =
     (case sys_symlink oldname newname w of
        (Inl e, w') \<Rightarrow> (Some (Errorf ''symlink %s %s: %v'' [oldname, newname] (Some (Errno e))), w')
      | (Inr _, w') \<Rightarrow> (None, w'))"

definition Remove :: "string \<Rightarrow> world \<Rightarrow> error option \<times> world" where
  "Remove name w =
     (case sys_unlink name w of
        (Inr _, w1) \<Rightarrow> (None, w1)
      | (Inl e, w1) \<Rightarrow>
          (case sys_rmdir name w1 of
             (Inr _, w2) \<Rightarrow> (None, w2)
           | (Inl e1, w2) \<Rightarrow>
               (Some (PathError ''remove'' name (if e1 \<noteq> ENOTDIR then e1 else e)), w2)))"

section \<open>Whole files\<close>

definition ReadFile :: "string \<Rightarrow> world \<Rightarrow> bytes result \<times> world" where
  "ReadFile name w =
     (case Open name w of
        (Inl e, w1) \<Rightarrow> (Inl e, w1)
      | (Inr q, w1) \<Rightarrow> path_err ''read'' name (sys_read q w1))"

text \<open>The error of \<open>Close\<close> counts only if the write succeeded.\<close>

definition WriteFile :: "string \<Rightarrow> bytes \<Rightarrow> perm \<Rightarrow> world \<Rightarrow> error option \<times> world" where
  "WriteFile name data m w =
     (case OpenTrunc name m w of
        (Inl e, w1) \<Rightarrow> (Some e, w1)
      | (Inr q, w1) \<Rightarrow>
          (case sys_write q data w1 of
             (Some e, w2) \<Rightarrow> (Some (PathError ''write'' name e), snd (tick w2))
           | (None, w2) \<Rightarrow>
               (case tick w2 of
                  (None, w3) \<Rightarrow> (None, w3)
                | (Some (e, _), w3) \<Rightarrow> (Some (PathError ''close'' name e), w3))))"

text \<open>\<open>io.Copy\<close> from one open file to another: the bytes read are written.\<close>

definition io_Copy :: "string \<Rightarrow> path \<Rightarrow> string \<Rightarrow> path \<Rightarrow> world \<Rightarrow> error option \<times> world" where
  "io_Copy dst dq src sq w =
     (case sys_read sq w of
        (Inl e, w1) \<Rightarrow> (Some (PathError ''read'' src e), w1)
      | (Inr bs, w1) \<Rightarrow>
          (case sys_write dq bs w1 of
             (Some e, w2) \<Rightarrow> (Some (PathError ''write'' dst e), w2)
           | (None, w2) \<Rightarrow> (None, w2)))"

definition ReadDir :: "string \<Rightarrow> world \<Rightarrow> string list result \<times> world" where
  "ReadDir name w =
     (case Open name w of
        (Inl e, w1) \<Rightarrow> (Inl e, w1)
      | (Inr q, w1) \<Rightarrow>
          (case path_err ''readdirent'' name (sys_readdir q w1) of
             (Inl e, w2) \<Rightarrow> (Inl e, w2)
           | (Inr ns, w2) \<Rightarrow> (Inr (sort ns), w2)))"

section \<open>MkdirAll\<close>

definition parent_path :: "string \<Rightarrow> string" where
  "parent_path path = take (last_sep path (strip_seps path (length path)) - 1) path"

lemma strip_seps_le: "strip_seps p n \<le> n"
  by (induction n) auto

lemma last_sep_le: "last_sep p n \<le> n"
  by (induction n) auto

lemma length_parent_path [simp]: "path \<noteq> [] \<Longrightarrow> length (parent_path path) < length path"
proof -
  assume "path \<noteq> []"
  then have "0 < length path" by simp
  with strip_seps_le [of path "length path"] last_sep_le [of path "strip_seps path (length path)"]
  have "last_sep path (strip_seps path (length path)) - 1 < length path" by linarith
  then show ?thesis by (simp add: parent_path_def)
qed

text \<open>The last steps of \<open>MkdirAll\<close>, after the parent is there.\<close>

definition mkdir_last :: "string \<Rightarrow> perm \<Rightarrow> world \<Rightarrow> error option \<times> world" where
  "mkdir_last path m w =
     (case Mkdir path m w of
        (None, w1) \<Rightarrow> (None, w1)
      | (Some e, w1) \<Rightarrow>
          (case Lstat path w1 of
             (Inr n, w2) \<Rightarrow> if is_dir n then (None, w2) else (Some e, w2)
           | (Inl _, w2) \<Rightarrow> (Some e, w2)))"

function MkdirAll :: "string \<Rightarrow> perm \<Rightarrow> world \<Rightarrow> error option \<times> world" where
  "MkdirAll path m w =
     (case Stat path w of
        (Inr n, w1) \<Rightarrow> if is_dir n then (None, w1) else (Some (PathError ''mkdir'' path ENOTDIR), w1)
      | (Inl _, w1) \<Rightarrow>
          if parent_path path \<noteq> [] then
            (case MkdirAll (parent_path path) m w1 of
               (Some e, w2) \<Rightarrow> (Some e, w2)
             | (None, w2) \<Rightarrow> mkdir_last path m w2)
          else mkdir_last path m w1)"
  by pat_completeness auto
termination
proof (relation "measure (\<lambda>(p, m, w). length p)", goal_cases)
  case (2 path m w r w1 e)
  then have "path \<noteq> []" by (auto simp: parent_path_def)
  then show ?case by simp
qed simp

declare MkdirAll.simps [simp del]

section \<open>RemoveAll\<close>

definition endsWithDot :: "string \<Rightarrow> bool" where
  "endsWithDot path \<longleftrightarrow> path = ''.'' \<or>
     (length path \<ge> 2 \<and> path ! (length path - 1) = dot \<and> IsPathSeparator (path ! (length path - 2)))"

text \<open>
  \<open>splitPath\<close>: all but one leading slash and all trailing slashes (but not a lone one) are
  removed, then the path is cut at its last slash.
\<close>

fun drop_lead :: "string \<Rightarrow> string" where
  "drop_lead (a # b # s) = (if a = slash \<and> b = slash then drop_lead (b # s) else a # b # s)"
| "drop_lead s = s"

definition drop_trail :: "string \<Rightarrow> string" where
  "drop_trail p = take (max 1 (strip_seps p (length p))) p"

definition splitPath :: "string \<Rightarrow> string \<times> string" where
  "splitPath path =
     (let p = drop_trail (drop_lead path); k = last_sep p (length p - 1) in
      if k = 0 then (''.'', p)
      else (if k = 1 then take 1 p else take (k - 1) p, drop k p))"

text \<open>
  \<open>removeAllFrom\<close>. The directory is read in batches of \<open>reqSize\<close> names from the entries seen
  when it was opened; after a batch in which something could be removed it is opened again,
  until a batch comes up short. \<open>chunks\<close> are the batches of one opening (the last is short,
  perhaps empty). \<open>remove_names\<close> is the loop over one batch, \<open>remove_batches\<close> the
  loop over the batches of one opening, \<open>remove_openings\<close> the outer loop. Its result is
  either a value to return at once or the recorded error with which to go on.
\<close>

definition reqSize :: nat where "reqSize = 1024"

function chunks :: "string list \<Rightarrow> string list list" where
  "chunks ns = (if length ns < reqSize then [ns] else take reqSize ns # chunks (drop reqSize ns))"
  by pat_completeness auto
termination by (relation "measure length") (auto simp: reqSize_def)

declare chunks.simps [simp del]

fun prefix_err :: "string \<Rightarrow> error \<Rightarrow> error" where
  "prefix_err base (PathError op p e) = PathError op (base @ slash # p) e"
| "prefix_err base e = e"

function (sequential)
    removeAllFrom :: "nat \<Rightarrow> path \<Rightarrow> string \<Rightarrow> world \<Rightarrow> error option \<times> world"
  and remove_openings :: "nat \<Rightarrow> path \<Rightarrow> string \<Rightarrow> errno \<Rightarrow> error option \<Rightarrow> world
        \<Rightarrow> (error option + error option) \<times> world"
  and remove_batches :: "nat \<Rightarrow> path \<Rightarrow> string \<Rightarrow> string list list \<Rightarrow> error option \<Rightarrow> world
        \<Rightarrow> (nat \<times> error option) \<times> world"
  and remove_names :: "nat \<Rightarrow> path \<Rightarrow> string \<Rightarrow> string list \<Rightarrow> nat \<Rightarrow> error option \<Rightarrow> world
        \<Rightarrow> (nat \<times> error option) \<times> world" where
  "removeAllFrom 0 d base w = (Some OutOfFuel, w)"
| "removeAllFrom (Suc n) d base w =
     (case unlinkat d base w of
        (Inr _, w1) \<Rightarrow> (None, w1)
      | (Inl uErr, w1) \<Rightarrow>
          if uErr = ENOENT then (None, w1)
          else if uErr \<noteq> EISDIR \<and> uErr \<noteq> EPERM \<and> uErr \<noteq> EACCES
          then (Some (PathError ''unlinkat'' base uErr), w1)
          else
            (case remove_openings n d base uErr None w1 of
               (Inl ret, w2) \<Rightarrow> (ret, w2)
             | (Inr recurseErr, w2) \<Rightarrow>
                 (case removedirat d base w2 of
                    (Inr _, w3) \<Rightarrow> (None, w3)
                  | (Inl e, w3) \<Rightarrow>
                      if e = ENOENT then (None, w3)
                      else (case recurseErr of
                              Some re \<Rightarrow> (Some re, w3)
                            | None \<Rightarrow> (Some (PathError ''unlinkat'' base e), w3)))))"
| "remove_openings 0 d base uErr recurseErr w = (Inl (Some OutOfFuel), w)"
| "remove_openings (Suc n) d base uErr recurseErr w =
     (case openDirAt d base w of
        (Inl e, w1) \<Rightarrow>
          if e = ENOENT then (Inl None, w1)
          else if e = ENOTDIR \<or> e = ELOOP then (Inl (Some (PathError ''unlinkat'' base uErr)), w1)
          else (Inr (Some (PathError ''openfdat'' base e)), w1)
      | (Inr q, w1) \<Rightarrow>
          (case sys_readdir q w1 of
             (Inl e, w2) \<Rightarrow>
               if e = ENOENT then (Inl None, w2)
               else (Inl (Some (PathError ''readdirnames'' base e)), w2)
           | (Inr names, w2) \<Rightarrow>
               (case remove_batches n q base (chunks names) recurseErr w2 of
                  ((respSize, re), w3) \<Rightarrow>
                    if respSize < reqSize then (Inr re, w3)
                    else remove_openings n d base uErr re w3)))"
| "remove_batches n q base [] recurseErr w = ((0, recurseErr), w)"
| "remove_batches n q base (names # rest) recurseErr w =
     (case remove_names n q base names 0 recurseErr w of
        ((numErr, re), w1) \<Rightarrow>
          if numErr \<noteq> reqSize then ((length names, re), w1)
          else remove_batches n q base rest re w1)"
| "remove_names n q base [] numErr recurseErr w = ((numErr, recurseErr), w)"
| "remove_names n q base (name # names) numErr recurseErr w =
     (case removeAllFrom n q name w of
        (None, w1) \<Rightarrow> remove_names n q base names numErr recurseErr w1
      | (Some e, w1) \<Rightarrow>
          remove_names n q base names (numErr + 1)
            (case recurseErr of None \<Rightarrow> Some (prefix_err base e) | Some re \<Rightarrow> Some re) w1)"
  by pat_completeness auto
termination
  by (relation "measures
    [\<lambda>x. case x of Inl (Inl (n, _)) \<Rightarrow> n | Inl (Inr (n, _)) \<Rightarrow> n | Inr (Inl (n, _)) \<Rightarrow> n | Inr (Inr (n, _)) \<Rightarrow> n,
     \<lambda>x. case x of Inl (Inl _) \<Rightarrow> 0 | Inl (Inr _) \<Rightarrow> 0
       | Inr (Inl (_, _, _, cs, _)) \<Rightarrow> 1 + sum_list (map (\<lambda>c. 2 + length c) cs)
       | Inr (Inr (_, _, _, ns, _)) \<Rightarrow> 1 + length ns]") auto

definition fs_fuel :: "world \<Rightarrow> nat" where
  "fs_fuel w = 2 * length (w_fs w) + 3"

definition RemoveAll :: "string \<Rightarrow> world \<Rightarrow> error option \<times> world" where
  "RemoveAll path w =
     (if path = [] then (None, w)
      else if endsWithDot path then (Some (PathError ''RemoveAll'' path EINVAL), w)
      else
        (case Remove path w of
           (None, w1) \<Rightarrow> (None, w1)
         | (Some e, w1) \<Rightarrow>
             if IsNotExist e then (None, w1)
             else
               (let (parentDir, base) = splitPath path in
                case Open parentDir w1 of
                  (Inl e2, w2) \<Rightarrow> if IsNotExist e2 then (None, w2) else (Some e2, w2)
                | (Inr d, w2) \<Rightarrow>
                    (case removeAllFrom (fs_fuel w2) d base w2 of
                       (None, w3) \<Rightarrow> (None, w3)
                     | (Some e3, w3) \<Rightarrow> (Some (prefix_err parentDir e3), w3)))))"

section \<open>Walk\<close>

type_synonym walk_fn = "string \<Rightarrow> node option \<Rightarrow> error option \<Rightarrow> world \<Rightarrow> error option \<times> world"

definition readDirNames :: "string \<Rightarrow> world \<Rightarrow> string list result \<times> world" where
  "readDirNames dirname w =
     (case Open dirname w of
        (Inl e, w1) \<Rightarrow> (Inl e, w1)
      | (Inr q, w1) \<Rightarrow>
          (case path_err ''readdirent'' dirname (sys_readdir q w1) of
             (Inl e, w2) \<Rightarrow> (Inl e, w2)
           | (Inr names, w2) \<Rightarrow> (Inr (sort names), w2)))"

fun walk :: "nat \<Rightarrow> walk_fn \<Rightarrow> string \<Rightarrow> node \<Rightarrow> world \<Rightarrow> error option \<times> world"
  and walk_names :: "nat \<Rightarrow> walk_fn \<Rightarrow> string \<Rightarrow> string list \<Rightarrow> world \<Rightarrow> error option \<times> world" where
  "walk 0 fn path info w = (Some OutOfFuel, w)"
| "walk (Suc n) fn path info w =
     (if \<not> is_dir info then fn path (Some info) None w
      else
        (case readDirNames path w of
           (Inl e, w1) \<Rightarrow> fn path (Some info) (Some e) w1
         | (Inr names, w1) \<Rightarrow>
             (case fn path (Some info) None w1 of
                (Some e, w2) \<Rightarrow> (Some e, w2)
              | (None, w2) \<Rightarrow> walk_names n fn path names w2)))"
| "walk_names n fn path [] w = (None, w)"
| "walk_names n fn path (name # names) w =
     (let filename = Join [path, name] in
      case Lstat filename w of
        (Inl e, w1) \<Rightarrow>
          (case fn filename None (Some e) w1 of
             (Some e', w2) \<Rightarrow> if e' \<noteq> SkipDir then (Some e', w2) else walk_names n fn path names w2
           | (None, w2) \<Rightarrow> walk_names n fn path names w2)
      | (Inr info, w1) \<Rightarrow>
          (case walk n fn filename info w1 of
             (Some e, w2) \<Rightarrow>
               if \<not> is_dir info \<or> e \<noteq> SkipDir then (Some e, w2) else walk_names n fn path names w2
           | (None, w2) \<Rightarrow> walk_names n fn path names w2))"

definition Walk :: "nat \<Rightarrow> string \<Rightarrow> walk_fn \<Rightarrow> world \<Rightarrow> error option \<times> world" where
  "Walk fuel root fn w =
     (let (e, w') =
        (case Lstat root w of
           (Inl e, w1) \<Rightarrow> fn root None (Some e) w1
         | (Inr info, w1) \<Rightarrow> walk fuel fn root info w1)
      in (if e = Some SkipDir \<or> e = Some SkipAll then None else e, w'))"

section \<open>Everything built from system calls\<close>

text \<open>
  A relation that every system call keeps is kept by every function built from them.
\<close>

context removal_relation
begin

lemma R_last_tick: "R w (snd (x, snd (tick w)))"
  using R_tick [of w] by simp

lemma R_path_err: "R w (snd r) \<Longrightarrow> R w (snd (path_err op p r))"
  by (auto simp: path_err_def split: prod.splits sum.splits)

lemma R_Stat: "R w (snd (Stat p w))"
  unfolding Stat_def by (rule R_path_err [OF R_stat])

lemma R_Lstat: "R w (snd (Lstat p w))"
  unfolding Lstat_def by (rule R_path_err [OF R_stat])

lemma R_Open: "R w (snd (Open p w))"
  unfolding Open_def by (rule R_path_err [OF R_open])

lemma R_Remove: "R w (snd (Remove p w))"
  unfolding Remove_def by (intro R_shape R_unlink R_rmdir)

lemma R_ReadFile: "R w (snd (ReadFile p w))"
  unfolding ReadFile_def by (intro R_shape R_Open R_path_err R_read)

lemma R_ReadDir: "R w (snd (ReadDir p w))"
  unfolding ReadDir_def by (intro R_shape R_Open R_path_err R_readdir)

lemma R_readDirNames: "R w (snd (readDirNames p w))"
  unfolding readDirNames_def by (intro R_shape R_Open R_path_err R_readdir)

lemma R_remove_names:
  assumes "\<And>d b w. R w (snd (removeAllFrom n d b w))"
  shows "R w (snd (remove_names n d base ns k re w))"
proof (induction ns arbitrary: k re w)
  case (Cons name names)
  show ?case by (simp only: remove_names.simps) (intro R_shape assms Cons.IH)
qed (simp add: R_refl)

lemma R_remove_batches:
  assumes "\<And>d b w. R w (snd (removeAllFrom n d b w))"
  shows "R w (snd (remove_batches n d base cs re w))"
proof (induction cs arbitrary: re w)
  case (Cons c cs)
  show ?case by (simp only: remove_batches.simps) (intro R_shape R_pair R_remove_names assms Cons.IH)
qed (simp add: R_refl)

lemma R_removeAllFrom_openings:
  "(\<forall>d base w. R w (snd (removeAllFrom n d base w))) \<and>
   (\<forall>d base uErr re w. R w (snd (remove_openings n d base uErr re w)))"
proof (induction n)
  case (Suc n)
  then have fr: "R w (snd (removeAllFrom n d base w))"
    and op: "R w (snd (remove_openings n d base uErr re w))" for d base w uErr re by auto
  have "R w (snd (removeAllFrom (Suc n) d base w))" for d base w
    by (simp only: removeAllFrom.simps) (intro R_shape R_unlinkat R_removedirat op)
  moreover have "R w (snd (remove_openings (Suc n) d base uErr re w))" for d base uErr re w
    by (simp only: remove_openings.simps)
      (intro R_shape R_pair R_openDirAt R_readdir R_remove_batches fr op)
  ultimately show ?case by blast
qed (simp add: R_refl)

lemma R_removeAllFrom: "R w (snd (removeAllFrom n d base w))"
  using R_removeAllFrom_openings by blast

lemma R_remove_openings: "R w (snd (remove_openings n d base uErr re w))"
  using R_removeAllFrom_openings by blast

lemma R_RemoveAll: "R w (snd (RemoveAll p w))"
  unfolding RemoveAll_def Let_def
  by (intro R_shape R_Remove R_pair R_Open R_removeAllFrom)

lemma R_walk_names:
  assumes fn: "\<And>p i e w. R w (snd (fn p i e w))"
    and wk: "\<And>p i w. R w (snd (walk n fn p i w))"
  shows "R w (snd (walk_names n fn path names w))"
proof (induction names arbitrary: w)
  case (Cons name names)
  show ?case
    by (simp only: walk_names.simps Let_def) (intro R_shape fn wk R_Lstat Cons.IH)
qed (simp add: R_refl)

lemma R_walk:
  assumes fn: "\<And>p i e w. R w (snd (fn p i e w))"
  shows "R w (snd (walk n fn path info w))"
proof (induction n arbitrary: path info w)
  case (Suc n)
  show ?case
    by (simp only: walk.simps) (intro R_shape fn R_readDirNames R_walk_names Suc.IH)
qed (simp add: R_refl)

lemma R_Walk:
  assumes fn: "\<And>p i e w. R w (snd (fn p i e w))"
  shows "R w (snd (Walk n root fn w))"
proof -
  have "R w (snd (case Lstat root w of
           (Inl e, w1) \<Rightarrow> fn root None (Some e) w1
         | (Inr info, w1) \<Rightarrow> walk n fn root info w1))"
    by (intro R_shape fn R_walk R_Lstat)
  then show ?thesis by (auto simp: Walk_def split: prod.split)
qed

end

context sys_relation
begin

lemma R_OpenTrunc: "R w (snd (OpenTrunc p m w))"
  unfolding OpenTrunc_def by (rule R_path_err [OF R_creat])

lemma R_Create: "R w (snd (Create p w))"
  unfolding Create_def by (rule R_OpenTrunc)

lemma R_Mkdir: "R w (snd (Mkdir p m w))"
  unfolding Mkdir_def by (intro R_shape R_mkdir)

lemma R_Symlink: "R w (snd (Symlink a b w))"
  unfolding Symlink_def by (intro R_shape R_symlink)

lemma R_WriteFile: "R w (snd (WriteFile p bs m w))"
  unfolding WriteFile_def by (intro R_shape R_OpenTrunc R_write R_tick R_last_tick R_pair)

lemma R_io_Copy: "R w (snd (io_Copy d dq s sq w))"
  unfolding io_Copy_def by (intro R_shape R_read R_write)

lemma R_mkdir_last: "R w (snd (mkdir_last p m w))"
  unfolding mkdir_last_def by (intro R_shape R_Mkdir R_Lstat)

lemma R_MkdirAll: "R w (snd (MkdirAll p m w))"
proof (induction p m w rule: MkdirAll.induct)
  case (1 path m w)
  obtain s w1 where st: "Stat path w = (s, w1)" by fastforce
  have "R w1 (snd (case s of Inl e \<Rightarrow> if parent_path path \<noteq> [] then
            (case MkdirAll (parent_path path) m w1 of (Some e, w2) \<Rightarrow> (Some e, w2) | (None, w2) \<Rightarrow> mkdir_last path m w2)
          else mkdir_last path m w1
      | Inr n \<Rightarrow> if is_dir n then (None, w1) else (Some (PathError ''mkdir'' path ENOTDIR), w1)))"
  proof (cases s)
    case (Inl e)
    with "1.IH" [OF st [symmetric] Inl] show ?thesis
      by (cases "parent_path path = []") (auto intro!: R_shape R_mkdir_last)
  qed (auto intro: R_refl)
  with R_Stat [of w path] st show ?case
    by (subst MkdirAll.simps) (auto intro: R_trans split: sum.split)
qed

end

end
