(* ===== verification/OSSpec.thy ===== *)
theory OSSpec
  imports GoOS
begin

text \<open>
  What the functions of theory \<open>GoOS\<close> do to the file system, for path names below real
  directories: the directories \<open>MkdirAll\<close> makes, the subtree \<open>RemoveAll\<close> removes, what reading
  and writing a file by name gives. Facts about \<open>w_faults w = []\<close> describe a system in which
  no call is refused; the others hold for every schedule of refusals.
\<close>

section \<open>Calls that are not refused\<close>

lemma tick_quiet [simp]: "w_faults w = [] \<Longrightarrow> tick w = (None, w)"
  by (simp add: tick_def)

lemma at_path_quiet:
  "w_faults w = [] \<Longrightarrow>
   at_path w p fl k = (case resolve w p fl of Inl e \<Rightarrow> (Inl e, w) | Inr q \<Rightarrow> k w q)"
  by (simp add: at_path_def)

lemma at_fd_name:
  assumes "w_faults w = []" "dir_at (w_fs w) d" "name_ok x"
  shows "at_fd w d x k = k w (d @ [x])"
proof -
  have "namei 40 (w_fs w) d [x] False = Inr (d @ [x])"
    by (rule namei_names) (use assms in auto)
  moreover have "elems x = [x]" using assms(3) by (simp add: elems_no_slash name_ok_def pelem_def)
  ultimately show ?thesis using assms(1) by (simp add: at_fd_def del: namei.simps)
qed

text \<open>
  A real path: below it and above it there are no links and no files in the way. For \<open>dpath\<close>
  the path itself, if it exists, is a directory too.
\<close>

definition dpath :: "fs \<Rightarrow> path \<Rightarrow> bool" where
  "dpath f ps \<longleftrightarrow> list_all name_ok ps \<and> (\<forall>k. lookup f (take k ps) \<noteq> None \<longrightarrow> dir_at f (take k ps))"

definition fpath :: "fs \<Rightarrow> path \<Rightarrow> bool" where
  "fpath f ps \<longleftrightarrow> ps \<noteq> [] \<and> name_ok (last ps) \<and> dpath f (butlast ps)"

lemma dpath_names: "dpath f ps \<Longrightarrow> list_all name_ok ps"
  by (simp add: dpath_def)

lemma dpath_take: "dpath f ps \<Longrightarrow> dpath f (take k ps)"
  by (auto simp: dpath_def list_all_iff dest: in_set_takeD)

lemma dpath_snocD: "dpath f (ps @ [x]) \<Longrightarrow> dpath f ps"
  using dpath_take [of f "ps @ [x]" "length ps"] by simp

lemma dpath_self: "dpath f ps \<Longrightarrow> lookup f ps = Some n \<Longrightarrow> dir_at f ps"
  unfolding dpath_def by (metis option.discI order_refl take_all)

lemma dir_at_dpath: "wf_fs f \<Longrightarrow> dir_at f ps \<Longrightarrow> dpath f ps"
  using dir_at_take [of f ps] by (auto simp: dpath_def dir_at_def dest: wf_fs_names)

lemma dpath_fpath: "dpath f ps \<Longrightarrow> ps \<noteq> [] \<Longrightarrow> fpath f ps"
  using dpath_take [of f ps "length ps - 1"] dpath_names [of f ps]
  by (cases ps rule: rev_cases) (auto simp: fpath_def)

lemma present_fpath: "wf_fs f \<Longrightarrow> lookup f ps = Some n \<Longrightarrow> ps \<noteq> [] \<Longrightarrow> fpath f ps"
  using wf_fs_names [of f ps n] wf_fs_parent [of f ps n] dir_at_dpath [of f "butlast ps"]
  by (cases ps rule: rev_cases) (auto simp: fpath_def)

lemma fpath_names: "fpath f ps \<Longrightarrow> list_all name_ok ps"
  by (cases ps rule: rev_cases) (auto simp: fpath_def dpath_def)

lemma name_ok_elem: "name_ok e \<Longrightarrow> e \<noteq> [] \<and> slash \<notin> set e"
  by (simp add: name_ok_def pelem_def)

text \<open>A path whose parent is missing does not resolve; otherwise it denotes itself.\<close>

lemma resolve_fpath:
  assumes "wf_fs (w_fs w)" "fpath (w_fs w) ps" "follow \<Longrightarrow> not_link (w_fs w) ps"
  shows "resolve w (apath ps) follow =
    (if lookup (w_fs w) (butlast ps) = None then Inl ENOENT else Inr ps)"
proof (cases "lookup (w_fs w) (butlast ps)")
  case None
  let ?f = "w_fs w"
  have len: "length ps - 1 < length ps" using assms(2) by (simp add: fpath_def)
  have "dir_at ?f (take k ps)" if "lookup ?f (take k ps) \<noteq> None" for k
  proof (cases "k < length ps")
    case True
    then have "take k ps = take k (butlast ps)" by (simp add: butlast_conv_take)
    with that assms(2) show ?thesis by (auto simp: fpath_def dpath_def)
  next
    case False
    have "lookup ?f (butlast ps @ [last ps]) = None" by (rule wf_fs_absent [OF assms(1) None])
    with that False assms(2) show ?thesis by (simp add: fpath_def)
  qed
  then have "namei 40 ?f [] ps follow = Inl ENOENT"
    using fpath_names [OF assms(2)] len None
    by (intro namei_missing [of _ _ _ "length ps - 1"]) (auto simp: butlast_conv_take)
  with None show ?thesis using resolve_apath [OF fpath_names [OF assms(2)]] by simp
next
  case (Some n)
  then have "dir_at (w_fs w) (butlast ps)" using assms(2) by (auto simp: fpath_def intro: dpath_self)
  with resolve_real [OF assms(1) fpath_names [OF assms(2)] _ assms(3)] Some show ?thesis by simp
qed

lemma apath_ne [simp]: "apath ps \<noteq> []"
  by (simp add: render_def)

lemma resolve_root [simp]: "resolve w (apath []) follow = Inr []"
  using resolve_apath [of "[]" w follow] by (simp add: resolve_def render_def IsAbs_def)

lemma sys_stat_fs [simp]: "w_fs (snd (sys_stat fl p w)) = w_fs w"
proof -
  obtain r w' where t: "tick w = (r, w')" by fastforce
  with tick_evolves [OF t] show ?thesis by (auto simp: sys_stat_def at_path_def split: option.split sum.split)
qed

lemma Stat_fs [frame]: "w_fs (snd (Stat p w)) = w_fs w" "w_fs (snd (Lstat p w)) = w_fs w"
proof -
  have "w_fs (snd (path_err op p r)) = w_fs (snd r)" for op and r :: "(errno + node) \<times> world"
    by (auto simp: path_err_def split: prod.split sum.split)
  then show "w_fs (snd (Stat p w)) = w_fs w" "w_fs (snd (Lstat p w)) = w_fs w"
    by (simp_all add: Stat_def Lstat_def)
qed

text \<open>What a successful or failed lookup by name says, under any schedule.\<close>

lemma sys_stat_present:
  assumes "wf_fs (w_fs w)" "ps = [] \<or> fpath (w_fs w) ps" "follow \<Longrightarrow> not_link (w_fs w) ps"
    and "sys_stat follow (apath ps) w = (Inr n, w')"
  shows "lookup (w_fs w) ps = Some n"
proof -
  obtain r w1 where t: "tick w = (r, w1)" by fastforce
  with tick_evolves [OF t] have f: "w_fs w1 = w_fs w" by simp
  have "resolve w1 (apath ps) follow = Inr ps \<or> resolve w1 (apath ps) follow = Inl ENOENT"
    using resolve_fpath [of w1 ps follow] assms(1-3) f by (cases "ps = []") auto
  with assms(4) t f show ?thesis
    by (auto simp: sys_stat_def at_path_def split: option.splits)
qed

lemma sys_stat_quiet:
  assumes "wf_fs (w_fs w)" "ps = [] \<or> fpath (w_fs w) ps" "follow \<Longrightarrow> not_link (w_fs w) ps" "w_faults w = []"
  shows "sys_stat follow (apath ps) w =
    (case lookup (w_fs w) ps of None \<Rightarrow> Inl ENOENT | Some n \<Rightarrow> Inr n, w)"
proof (cases "ps = []")
  case False
  then have ps: "ps = butlast ps @ [last ps]" by simp
  have "lookup (w_fs w) (butlast ps) = None \<Longrightarrow> lookup (w_fs w) ps = None"
    using wf_fs_absent [OF assms(1), of "butlast ps" "[last ps]"] ps by simp
  with resolve_fpath [of w ps follow] assms False show ?thesis
    by (simp add: sys_stat_def at_path_quiet split: option.split)
qed (use assms(4) in \<open>simp add: sys_stat_def at_path_quiet\<close>)

section \<open>MkdirAll\<close>

lemma parent_path_apath:
  assumes "list_all name_ok (ps @ [x])"
  shows "parent_path (apath (ps @ [x])) = (if ps = [] then [] else apath ps)"
proof -
  have x: "slash \<notin> set x" "x \<noteq> []" using assms by (auto dest: name_ok_elem)
  define q where "q = (if ps = [] then [] else apath ps)"
  have p: "apath (ps @ [x]) = q @ slash # x" by (simp add: render_snoc q_def)
  have "last x \<noteq> slash" using x by (metis last_in_set)
  then have "strip_seps (q @ slash # x) (length (q @ slash # x)) = length (q @ slash # x)"
    using x by (intro strip_seps_id) auto
  with last_sep_snoc [OF x(1), of q] have "parent_path (apath (ps @ [x])) = q"
    by (simp add: parent_path_def p)
  then show ?thesis by (simp add: q_def)
qed

text \<open>
  \<open>made m ps f f'\<close>: in going from \<open>f\<close> to \<open>f'\<close> some missing directories on the way to \<open>ps\<close> were
  made, with mode \<open>m\<close>, and nothing else happened.
\<close>

definition made :: "perm \<Rightarrow> path \<Rightarrow> fs \<Rightarrow> fs \<Rightarrow> bool" where
  "made m ps f f' \<longleftrightarrow>
     (\<forall>q. lookup f' q = lookup f q \<or> (prefix q ps \<and> lookup f q = None \<and> lookup f' q = Some (DirN m)))"

lemma made_refl [simp]: "made m ps f f"
  by (simp add: made_def)

lemma made_snoc: "made m ps f f' \<Longrightarrow> made m (ps @ [x]) f f'"
  by (auto simp: made_def)

lemma made_store:
  assumes "made m ps f f'" "lookup f' q = None" "prefix q ps"
  shows "made m ps f (store q (DirN m) f')"
proof -
  have "q \<noteq> []" "lookup f q = None" using assms(1,2) by (auto simp: made_def dest: spec [of _ q])
  with assms(1,3) show ?thesis by (auto simp: made_def)
qed

lemma made_trans: "made m ps f f1 \<Longrightarrow> made m ps f1 f2 \<Longrightarrow> made m ps f f2"
  unfolding made_def by metis

lemma made_dpath: "dpath f ps \<Longrightarrow> made m ps' f f' \<Longrightarrow> dpath f' ps"
  unfolding dpath_def made_def dir_at_def by metis

lemma mkdir_last_ok:
  assumes "w_ok w" "list_all name_ok ps" "ps \<noteq> [] \<Longrightarrow> dir_at (w_fs w) (butlast ps)" "dpath (w_fs w) ps"
    and "mkdir_last (apath ps) m w = (r, w')"
  shows "(r = None \<longrightarrow> dir_at (w_fs w') ps) \<and> (w_faults w = [] \<longrightarrow> r = None) \<and>
    made (mkdir_mode (w_umask w) m) ps (w_fs w) (w_fs w')"
proof -
  obtain t w1 where t: "tick w = (t, w1)" by fastforce
  with tick_evolves [OF t] have f: "w_fs w1 = w_fs w" "w_umask w1 = w_umask w" by (auto dest: evolves_keeps)
  have wf: "wf_fs (w_fs w)" using assms(1) by (simp add: w_ok_def)
  have res: "resolve w1 (apath ps) False = Inr ps" using resolve_real [of w1 ps False] assms(2,3) wf f by simp
  have lst: "w_fs w2 = w_fs w1 \<and> (\<forall>n. s = Inr n \<longrightarrow> lookup (w_fs w) ps = Some n)"
    if "Lstat (apath ps) w1 = (s, w2)" for s w2
  proof -
    have "ps = [] \<or> fpath (w_fs w1) ps" using dpath_fpath assms(4) f by auto
    then have "lookup (w_fs w) ps = Some n" if "sys_stat False (apath ps) w1 = (Inr n, w')" for n w'
      using sys_stat_present [OF _ _ _ that] wf f by simp
    with \<open>Lstat (apath ps) w1 = (s, w2)\<close> Stat_fs(2) [of "apath ps" w1] show ?thesis
      by (auto simp: Lstat_def path_err_def split: prod.splits sum.splits)
  qed
  show ?thesis
  proof (cases "t = None \<and> lookup (w_fs w) ps = None")
    case True
    with t res f have "mkdir_last (apath ps) m w =
        (None, w1\<lparr>w_fs := store ps (DirN (mkdir_mode (w_umask w) m)) (w_fs w)\<rparr>)"
      by (simp add: mkdir_last_def Mkdir_def sys_mkdir_def at_path_def)
    moreover have "ps \<noteq> []" using True by auto
    ultimately show ?thesis using assms(5) True by (auto simp: dir_at_def intro: made_store)
  next
    case False
    then obtain e where "Mkdir (apath ps) m w = (Some e, w1)"
      using t res f by (cases t) (auto simp: Mkdir_def sys_mkdir_def at_path_def)
    then have r: "mkdir_last (apath ps) m w = (case Lstat (apath ps) w1 of
        (Inr n, w2) \<Rightarrow> if is_dir n then (None, w2) else (Some e, w2) | (Inl _, w2) \<Rightarrow> (Some e, w2))"
      by (simp add: mkdir_last_def)
    obtain s w2 where s: "Lstat (apath ps) w1 = (s, w2)" by fastforce
    have "w_faults w = [] \<Longrightarrow> s = Inr n" if "lookup (w_fs w) ps = Some n" for n
      using that s t f sys_stat_quiet [of w1 ps False] wf dpath_fpath [OF assms(4)]
      by (cases "ps = []") (auto simp: Lstat_def path_err_def)
    moreover have "w_faults w = [] \<Longrightarrow> lookup (w_fs w) ps \<noteq> None" using False t by auto
    ultimately show ?thesis
      using assms(5) r s lst [OF s] f dpath_self [OF assms(4)]
      by (cases s) (auto simp: dir_at_def split: if_splits)
  qed
qed

lemma evolves_ok: "evolves w w' \<Longrightarrow> w_ok w \<Longrightarrow> w_ok w'"
  by (simp add: evolves_def)

lemma Stat_dpath:
  assumes "w_ok w" "dpath (w_fs w) ps" "Stat (apath ps) w = (s, w')"
  shows "w_fs w' = w_fs w" "s = Inr n \<Longrightarrow> lookup (w_fs w) ps = Some n"
    "w_faults w = [] \<Longrightarrow> w' = w \<and> s = (case lookup (w_fs w) ps of None \<Rightarrow> Inl (PathError ''stat'' (apath ps) ENOENT) | Some n \<Rightarrow> Inr n)"
proof -
  have wf: "wf_fs (w_fs w)" using assms(1) by (simp add: w_ok_def)
  have fp: "ps = [] \<or> fpath (w_fs w) ps" using dpath_fpath [OF assms(2)] by auto
  have nl: "not_link (w_fs w) ps" using dpath_self [OF assms(2)] by (fastforce simp: not_link_def dir_at_def)
  show "w_fs w' = w_fs w" using Stat_fs(1) [of "apath ps" w] assms(3) by simp
  show "s = Inr n \<Longrightarrow> lookup (w_fs w) ps = Some n"
    using assms(3) sys_stat_present [OF wf fp nl, of True n]
    by (auto simp: Stat_def path_err_def split: prod.splits sum.splits)
  show "w_faults w = [] \<Longrightarrow> w' = w \<and> s = (case lookup (w_fs w) ps of None \<Rightarrow> Inl (PathError ''stat'' (apath ps) ENOENT) | Some n \<Rightarrow> Inr n)"
    using assms(3) sys_stat_quiet [OF wf fp nl, of True] by (auto simp: Stat_def path_err_def split: option.splits)
qed

lemma MkdirAll_ok:
  assumes "w_ok w" "dpath (w_fs w) ps" "MkdirAll (apath ps) m w = (r, w')"
  shows "(r = None \<longrightarrow> dir_at (w_fs w') ps) \<and> (w_faults w = [] \<longrightarrow> r = None) \<and>
    made (mkdir_mode (w_umask w) m) ps (w_fs w) (w_fs w')"
  using assms
proof (induction ps arbitrary: w r w' rule: rev_induct)
  case Nil
  obtain s w1 where st: "Stat (apath []) w = (s, w1)" by fastforce
  then have w1: "w_ok w1" "w_fs w1 = w_fs w" "w_umask w1 = w_umask w" "w_faults w = [] \<longrightarrow> w_faults w1 = []"
    using evo.R_Stat [of w "apath []"] Stat_dpath(1) [OF Nil.prems(1,2) st] Nil.prems(1)
    by (auto dest: evolves_ok evolves_keeps)
  have "parent_path (apath []) = []" by code_simp
  with st Nil.prems(3) have "s = Inr (DirN 0x1ED) \<and> w' = w1 \<and> r = None \<or> mkdir_last (apath []) m w1 = (r, w')"
    using Stat_dpath(2) [OF Nil.prems(1,2) st]
    by (subst (asm) MkdirAll.simps) (auto split: sum.splits if_splits)
  then show ?case
    using mkdir_last_ok [of w1 "[]" m r w'] w1 Nil.prems(2) by auto
next
  case (snoc x ps)
  let ?p = "apath (ps @ [x])"
  note dp = dpath_snocD [OF snoc.prems(2)] and names = dpath_names [OF snoc.prems(2)]
  obtain s w1 where st: "Stat ?p w = (s, w1)" by fastforce
  then have w1: "w_ok w1" "w_fs w1 = w_fs w" "w_umask w1 = w_umask w" "w_faults w = [] \<longrightarrow> w_faults w1 = []"
    using evo.R_Stat [of w ?p] Stat_dpath(1) [OF snoc.prems(1,2) st] snoc.prems(1)
    by (auto dest: evolves_ok evolves_keeps)
  show ?case
  proof (cases s)
    case (Inr n)
    then have "lookup (w_fs w) (ps @ [x]) = Some n" by (rule Stat_dpath(2) [OF snoc.prems(1,2) st])
    with dpath_self [OF snoc.prems(2)] Inr st snoc.prems(3) w1 show ?thesis
      by (subst (asm) MkdirAll.simps) (auto simp: dir_at_def)
  next
    case (Inl e)
    obtain r2 w2 where par: "(if ps = [] then (None, w1) else MkdirAll (apath ps) m w1) = (r2, w2)" by fastforce
    have w2: "(r2 = None \<longrightarrow> dir_at (w_fs w2) ps) \<and> (w_faults w = [] \<longrightarrow> r2 = None) \<and>
        made (mkdir_mode (w_umask w) m) ps (w_fs w) (w_fs w2)" "evolves w1 w2"
      using snoc.IH [of w1 r2 w2] evo.R_MkdirAll [of w1 "apath ps" m] par w1 dp by (auto split: if_splits)
    have eq: "(r, w') = (case r2 of Some e \<Rightarrow> (Some e, w2) | None \<Rightarrow> mkdir_last ?p m w2)"
      using snoc.prems(3) st Inl par parent_path_apath [OF names]
      by (subst (asm) MkdirAll.simps) (auto split: if_splits option.splits)
    show ?thesis
    proof (cases r2)
      case (Some e)
      with eq w2 show ?thesis by (auto dest: made_snoc)
    next
      case None
      have k: "w_ok w2" "w_umask w2 = w_umask w" "w_faults w = [] \<longrightarrow> w_faults w2 = []"
        using w2(2) w1 by (auto dest: evolves_ok evolves_keeps)
      have mk: "made (mkdir_mode (w_umask w) m) (ps @ [x]) (w_fs w) (w_fs w2)" using w2(1) by (simp add: made_snoc)
      then have "dpath (w_fs w2) (ps @ [x])" using made_dpath [OF snoc.prems(2)] by blast
      with mkdir_last_ok [OF k(1) names, of m r w'] None eq w2(1) k
      have "(r = None \<longrightarrow> dir_at (w_fs w') (ps @ [x])) \<and> (w_faults w = [] \<longrightarrow> r = None) \<and>
          made (mkdir_mode (w_umask w) m) (ps @ [x]) (w_fs w2) (w_fs w')" by auto
      with mk made_trans show ?thesis by blast
    qed
  qed
qed

text \<open>In a system that refuses nothing, exactly the missing directories are made.\<close>

lemma MkdirAll_quiet:
  assumes "w_ok w" "dpath (w_fs w) ps" "w_faults w = []" "MkdirAll (apath ps) m w = (r, w')"
  shows "r = None" "w_ok w'" "w_faults w' = []" "dir_at (w_fs w') ps"
    "lookup (w_fs w') q = (if prefix q ps \<and> lookup (w_fs w) q = None
        then Some (DirN (mkdir_mode (w_umask w) m)) else lookup (w_fs w) q)"
proof -
  note ok = MkdirAll_ok [OF assms(1,2,4)]
  show "r = None" using ok assms(3) by simp
  have ev: "evolves w w'" using evo.R_MkdirAll [of w "apath ps" m] assms(4) by simp
  then show w': "w_ok w'" "w_faults w' = []" using assms(1,3) by (auto dest: evolves_ok evolves_keeps)
  show d: "dir_at (w_fs w') ps" using ok assms(3) by simp
  have "lookup (w_fs w') q \<noteq> None" if "prefix q ps"
    using dir_at_take [OF _ d, of "length q"] that w'(1) by (auto simp: prefix_def w_ok_def dir_at_def)
  with ok show "lookup (w_fs w') q = (if prefix q ps \<and> lookup (w_fs w) q = None
        then Some (DirN (mkdir_mode (w_umask w) m)) else lookup (w_fs w) q)"
    unfolding made_def by (metis (no_types, lifting))
qed

section \<open>RemoveAll\<close>

text \<open>The number of nodes at and below a path; a cut removes them all and nothing else.\<close>

definition tsize :: "fs \<Rightarrow> path \<Rightarrow> nat" where
  "tsize f q = card {r \<in> fst ` set f. prefix q r}"

definition cut :: "path \<Rightarrow> fs \<Rightarrow> fs \<Rightarrow> bool" where
  "cut q f f' \<longleftrightarrow> (\<forall>p. lookup f' p = (if prefix q p then None else lookup f p))"

lemma in_keys: "r \<noteq> [] \<Longrightarrow> r \<in> fst ` set f \<longleftrightarrow> lookup f r \<noteq> None"
  by (auto simp: lookup_def map_of_eq_None_iff)

lemma below_keys: "q \<noteq> [] \<Longrightarrow> {r \<in> fst ` set f. prefix q r} = {r. lookup f r \<noteq> None \<and> prefix q r}"
proof (rule set_eqI)
  fix r
  assume "q \<noteq> []"
  then show "r \<in> {r \<in> fst ` set f. prefix q r} \<longleftrightarrow> r \<in> {r. lookup f r \<noteq> None \<and> prefix q r}"
    using in_keys [of r f] by (cases "r = []") simp_all
qed

lemma tsize_alt: "q \<noteq> [] \<Longrightarrow> tsize f q = card {r. lookup f r \<noteq> None \<and> prefix q r}"
  unfolding tsize_def by (subst below_keys) auto

lemma finite_below: "q \<noteq> [] \<Longrightarrow> finite {r. lookup f r \<noteq> None \<and> prefix q r}"
  by (subst below_keys [symmetric]) auto

lemma tsize_mono:
  assumes "q \<noteq> []" "\<And>r. prefix q r \<Longrightarrow> lookup f' r \<noteq> None \<Longrightarrow> lookup f r \<noteq> None"
  shows "tsize f' q \<le> tsize f q"
  unfolding tsize_alt [OF assms(1)] using assms(2) by (intro card_mono finite_below assms(1)) blast

lemma tsize_less_at:
  assumes "q \<noteq> []" "prefix q p" "lookup f p \<noteq> None" "lookup f' p = None"
    "\<And>r. prefix q r \<Longrightarrow> lookup f' r \<noteq> None \<Longrightarrow> lookup f r \<noteq> None"
  shows "tsize f' q < tsize f q"
proof -
  have "p \<in> {r. lookup f r \<noteq> None \<and> prefix q r} - {r. lookup f' r \<noteq> None \<and> prefix q r}"
    using assms(2-4) by auto
  moreover have "{r. lookup f' r \<noteq> None \<and> prefix q r} \<subseteq> {r. lookup f r \<noteq> None \<and> prefix q r}"
    using assms(5) by blast
  ultimately show ?thesis
    unfolding tsize_alt [OF assms(1)] by (intro psubset_card_mono finite_below assms(1)) blast
qed

lemma tsize_child:
  assumes "q \<noteq> []" "lookup f q \<noteq> None"
  shows "tsize f (q @ [x]) < tsize f q"
proof -
  have "q \<in> {r. lookup f r \<noteq> None \<and> prefix q r} - {r. lookup f r \<noteq> None \<and> prefix (q @ [x]) r}"
    using assms by auto
  then show ?thesis using assms
    by (subst (1 2) tsize_alt, simp, simp) (intro psubset_card_mono finite_below; auto simp: prefix_def)
qed

lemma tsize_fuel: "tsize (w_fs w) q \<le> length (w_fs w)"
proof -
  have "tsize (w_fs w) q \<le> card (fst ` set (w_fs w))" unfolding tsize_def by (intro card_mono) auto
  also have "\<dots> \<le> length (w_fs w)" by (metis card_length length_map list.set_map)
  finally show ?thesis .
qed

text \<open>
  What removing one name does; \<open>removes\<close> is the claim for \<open>removeAllFrom\<close> with fuel \<open>n\<close>: if the
  fuel covers the subtree then the subtree is cut, without error.
\<close>

definition removes :: "nat \<Rightarrow> bool" where
  "removes n \<longleftrightarrow> (\<forall>d x w. w_ok w \<longrightarrow> w_faults w = [] \<longrightarrow> dir_at (w_fs w) d \<longrightarrow> name_ok x \<longrightarrow>
     2 * tsize (w_fs w) (d @ [x]) + 1 \<le> n \<longrightarrow>
     (\<exists>w'. removeAllFrom n d x w = (None, w') \<and> cut (d @ [x]) (w_fs w) (w_fs w')))"

lemma prefix_snoc_same: "prefix (d @ [x]) p \<Longrightarrow> prefix (d @ [y]) p \<Longrightarrow> x = y"
  by (auto simp: prefix_def)

lemma remove_names_ok:
  assumes "removes n" "w_ok w" "w_faults w = []" "dir_at (w_fs w) q" "list_all name_ok ns"
    and "\<And>x. x \<in> set ns \<Longrightarrow> 2 * tsize (w_fs w) (q @ [x]) + 1 \<le> n"
  shows "\<exists>w'. remove_names n q base ns k re w = ((k, re), w') \<and>
    (\<forall>p. lookup (w_fs w') p = (if \<exists>x \<in> set ns. prefix (q @ [x]) p then None else lookup (w_fs w) p))"
  using assms(2-)
proof (induction ns arbitrary: w)
  case (Cons x ns)
  have x: "name_ok x" "2 * tsize (w_fs w) (q @ [x]) + 1 \<le> n" using Cons.prems(4,5) by auto
  obtain w1 where w1: "removeAllFrom n q x w = (None, w1)" "cut (q @ [x]) (w_fs w) (w_fs w1)"
    using assms(1) [unfolded removes_def, rule_format, OF Cons.prems(1-3) x] by blast
  have ev: "w_ok w1" "w_faults w1 = []"
    using evo.R_removeAllFrom [of w n q x] w1(1) Cons.prems by (auto dest: evolves_ok evolves_keeps)
  have "dir_at (w_fs w1) q" using w1(2) Cons.prems(3) by (auto simp: dir_at_def cut_def)
  moreover have "2 * tsize (w_fs w1) (q @ [y]) + 1 \<le> n" if "y \<in> set ns" for y
  proof -
    have "tsize (w_fs w1) (q @ [y]) \<le> tsize (w_fs w) (q @ [y])"
      by (rule tsize_mono) (use w1(2) in \<open>auto simp: cut_def split: if_splits\<close>)
    with Cons.prems(5) [of y] that show ?thesis by simp
  qed
  ultimately obtain w2 where "remove_names n q base ns k re w1 = ((k, re), w2)"
    "\<forall>p. lookup (w_fs w2) p = (if \<exists>x \<in> set ns. prefix (q @ [x]) p then None else lookup (w_fs w1) p)"
    using Cons.IH [of w1] ev Cons.prems(4) by auto
  with w1 show ?case by (auto simp: cut_def)
qed simp

definition empties :: "nat \<Rightarrow> bool" where
  "empties n \<longleftrightarrow> (\<forall>d x uErr re w. w_ok w \<longrightarrow> w_faults w = [] \<longrightarrow> dir_at (w_fs w) d \<longrightarrow> name_ok x \<longrightarrow>
     dir_at (w_fs w) (d @ [x]) \<longrightarrow> 2 * tsize (w_fs w) (d @ [x]) \<le> n \<longrightarrow>
     (\<exists>w'. remove_openings n d x uErr re w = (Inr re, w') \<and>
       (\<forall>p. lookup (w_fs w') p = (if strict_prefix (d @ [x]) p then None else lookup (w_fs w) p))))"

lemma chunks_head: "\<exists>cs. chunks ns = take reqSize ns # cs"
  by (subst chunks.simps) auto

lemma below_child:
  assumes "wf_fs f" "strict_prefix q p" "lookup f p \<noteq> None"
  shows "\<exists>x \<in> set (children f q). prefix (q @ [x]) p"
proof -
  obtain x r where p: "p = (q @ [x]) @ r" using assms(2) by (elim strict_prefixE') simp
  have "lookup f (q @ [x]) \<noteq> None"
  proof
    assume "lookup f (q @ [x]) = None"
    from wf_fs_absent [OF assms(1) this, of r] assms(3) p show False by simp
  qed
  then show ?thesis using p set_children [of f q] by auto
qed

lemma children_names: "wf_fs f \<Longrightarrow> list_all name_ok (children f q)"
  using wf_fs_names [of f] by (fastforce simp: set_children list_all_iff)

lemma strict_prefix_child: "prefix (q @ x # r) p \<Longrightarrow> strict_prefix q p"
  by (auto simp: strict_prefix_def prefix_def)

lemma strict_prefix_child2: "prefix (q @ [x, y]) p \<Longrightarrow> strict_prefix (q @ [x]) p"
  by (auto simp: strict_prefix_def prefix_def)

lemma not_below_parent [simp]: "\<not> strict_prefix (d @ [x]) d" "\<not> prefix (d @ [x, y]) d" "\<not> prefix (d @ [x, y]) (d @ [x])"
    "strict_prefix (d @ [x]) (d @ [x, y])"
  by (auto simp: strict_prefix_def dest: prefix_length_le)

lemma empties_step:
  assumes "removes n" "empties n"
  shows "empties (Suc n)"
  unfolding empties_def
proof (intro allI impI)
  fix d x uErr re w
  assume w: "w_ok w" "w_faults w = []" and d: "dir_at (w_fs w) d" "name_ok x" "dir_at (w_fs w) (d @ [x])"
    and fuel: "2 * tsize (w_fs w) (d @ [x]) \<le> Suc n"
  let ?q = "d @ [x]" and ?f = "w_fs w"
  define ns where "ns = children ?f ?q"
  define cs where "cs = take reqSize ns"
  have wf: "wf_fs ?f" using w(1) by (simp add: w_ok_def)
  obtain m where m: "lookup ?f ?q = Some (DirN m)" using d(3) by (auto simp: dir_at_def)
  have op: "openDirAt d x w = (Inr ?q, w)" "sys_readdir ?q w = (Inr ns, w)"
    using w m by (simp_all add: openDirAt_def sys_readdir_def ns_def at_fd_name [OF w(2) d(1,2)])
  have small: "tsize ?f (?q @ [y]) < tsize ?f ?q" for y using m by (intro tsize_child) auto
  have names: "list_all name_ok cs"
    using children_names [OF wf, of ?q] unfolding cs_def ns_def by (auto simp: list_all_iff dest: in_set_takeD)
  have "2 * tsize ?f (?q @ [y]) + 1 \<le> n" for y using small [of y] fuel by simp
  from remove_names_ok [OF assms(1) w d(3) names this]
  obtain w1 where w1: "remove_names n ?q x cs 0 re w = ((0, re), w1)"
    "\<And>p. lookup (w_fs w1) p = (if \<exists>y \<in> set cs. prefix (?q @ [y]) p then None else lookup ?f p)" by metis
  obtain rest where "chunks ns = cs # rest" using chunks_head [of ns] by (auto simp: cs_def)
  then have b: "remove_batches n ?q x (chunks ns) re w = ((length cs, re), w1)"
    using w1(1) by (simp add: reqSize_def)
  have inner: "strict_prefix ?q p \<Longrightarrow> lookup (w_fs w2) p = None" "\<not> strict_prefix ?q p \<Longrightarrow> lookup (w_fs w2) p = lookup ?f p"
    if "length cs < reqSize" "w2 = w1" for p w2
    using that w1(2) [of p] below_child [OF wf, of ?q p] strict_prefix_child2 [of d x _ p]
    by (cases "lookup ?f p"; auto simp: cs_def ns_def)+
  show "\<exists>w'. remove_openings (Suc n) d x uErr re w = (Inr re, w') \<and>
      (\<forall>p. lookup (w_fs w') p = (if strict_prefix ?q p then None else lookup ?f p))"
  proof (cases "length cs < reqSize")
    case True
    then show ?thesis using op b inner [OF True] by auto
  next
    case False
    then obtain y where y: "y \<in> set cs" by (cases cs) (auto simp: reqSize_def)
    have w1': "w_ok w1" "w_faults w1 = []"
      using evo.R_remove_names [of n w ?q x cs 0 re, OF evo.R_removeAllFrom] w w1(1)
      by (auto dest: evolves_ok evolves_keeps)
    have ds: "dir_at (w_fs w1) d" "dir_at (w_fs w1) ?q"
      using d w1(2) [of d] w1(2) [of ?q] by (auto simp: dir_at_def)
    have "lookup ?f (?q @ [y]) \<noteq> None" using y set_children [of ?f ?q] by (auto simp: cs_def ns_def dest: in_set_takeD)
    then have "tsize (w_fs w1) ?q < tsize ?f ?q"
      using y w1(2) by (intro tsize_less_at [of _ "?q @ [y]"]) (auto split: if_splits)
    then have "2 * tsize (w_fs w1) ?q \<le> n" using fuel by simp
    from assms(2) [unfolded empties_def, rule_format, OF w1' ds(1) d(2) ds(2) this, of uErr re]
    obtain w2 where "remove_openings n d x uErr re w1 = (Inr re, w2)"
      "\<forall>p. lookup (w_fs w2) p = (if strict_prefix ?q p then None else lookup (w_fs w1) p)" by blast
    with False op b w1(2) show ?thesis by (auto dest: strict_prefix_child2)
  qed
qed

lemma cut_missing: "wf_fs f \<Longrightarrow> lookup f q = None \<Longrightarrow> cut q f f"
  by (auto simp: cut_def prefix_def dest: wf_fs_absent)

lemma cut_erase:
  assumes "q \<noteq> []" "\<And>p. strict_prefix q p \<Longrightarrow> lookup f p = None"
  shows "cut q f (erase q f)"
  using assms by (auto simp: cut_def strict_prefix_def)

lemma removes_step:
  assumes "empties n"
  shows "removes (Suc n)"
  unfolding removes_def
proof (intro allI impI)
  fix d x w
  assume w: "w_ok w" "w_faults w = []" and d: "dir_at (w_fs w) d" "name_ok x"
    and fuel: "2 * tsize (w_fs w) (d @ [x]) + 1 \<le> Suc n"
  let ?q = "d @ [x]" and ?f = "w_fs w"
  have wf: "wf_fs ?f" using w(1) by (simp add: w_ok_def)
  note at = at_fd_name [OF w(2) d]
  show "\<exists>w'. removeAllFrom (Suc n) d x w = (None, w') \<and> cut ?q ?f (w_fs w')"
  proof (cases "lookup ?f ?q")
    case None
    then show ?thesis by (simp add: unlinkat_def at cut_missing [OF wf])
  next
    case (Some nd)
    show ?thesis
    proof (cases "is_dir nd")
      case False
      have "lookup ?f p = None" if "strict_prefix ?q p" for p
        using wf_fs_prefix [OF wf, of ?q] that Some False by (fastforce simp: strict_prefix_def prefix_def dir_at_def)
      with Some False show ?thesis by (auto simp: unlinkat_def at intro: cut_erase)
    next
      case True
      with Some have dq: "dir_at ?f ?q" by (auto simp: dir_at_def is_dir_conv)
      have "2 * tsize ?f ?q \<le> n" using fuel by simp
      from assms [unfolded empties_def, rule_format, OF w d dq this]
      obtain w1 where w1: "remove_openings n d x EISDIR None w = (Inr None, w1)"
        "\<And>p. lookup (w_fs w1) p = (if strict_prefix ?q p then None else lookup ?f p)" by metis
      have w1': "w_faults w1 = []" "w_ok w1"
        using evo.R_remove_openings [of w n d x EISDIR None] w w1(1) by (auto dest: evolves_ok evolves_keeps)
      have "dir_at (w_fs w1) d" using d(1) w1(2) [of d] by (simp add: dir_at_def)
      note at1 = at_fd_name [OF w1'(1) this d(2)]
      have "lookup (w_fs w1) ?q = Some nd" "children (w_fs w1) ?q = []"
        using w1(2) Some by (auto simp: children_empty)
      then have "removedirat d x w1 = (Inr (), w1\<lparr>w_fs := erase ?q (w_fs w1)\<rparr>)"
        using True by (simp add: removedirat_def at1)
      moreover have "cut ?q ?f (erase ?q (w_fs w1))" using w1(2) by (auto simp: cut_def strict_prefix_def)
      ultimately show ?thesis using Some True w1(1) by (simp add: unlinkat_def at)
    qed
  qed
qed

lemma removes_empties: "removes n \<and> empties n"
proof (induction n)
  case 0
  have "tsize f q > 0" if "q \<noteq> []" "dir_at f q" for f q
  proof -
    have "tsize f (q @ [[]]) < tsize f q" using that by (intro tsize_child) (auto simp: dir_at_def)
    then show ?thesis by simp
  qed
  then show ?case by (fastforce simp: removes_def empties_def)
qed (simp add: removes_step empties_step)

lemma endsWithDot_apath:
  assumes "list_all name_ok ps"
  shows "\<not> endsWithDot (apath ps)"
proof (cases ps rule: rev_cases)
  case Nil
  then show ?thesis by (simp add: endsWithDot_def render_def)
next
  case (snoc qs x)
  define q where "q = (if qs = [] then [] else apath qs)"
  have p: "apath ps = q @ slash # x" using snoc by (simp add: render_snoc q_def)
  obtain y z where x: "x = y @ [z]" using assms snoc by (cases x rule: rev_cases) (auto simp: name_ok_def pelem_def)
  have "z = dot \<Longrightarrow> y \<noteq> []" "slash \<notin> set y" using assms snoc x by (auto simp: name_ok_def pelem_def)
  then show ?thesis
    by (cases y rule: rev_cases) (auto simp: endsWithDot_def p x IsPathSeparator_def nth_append)
qed

lemma drop_lead_id: "\<not> (\<exists>s. p = slash # slash # s) \<Longrightarrow> drop_lead p = p"
  by (cases p rule: drop_lead.cases) auto

lemma last_apath: "list_all name_ok ps \<Longrightarrow> ps \<noteq> [] \<Longrightarrow> last (apath ps) \<noteq> slash"
  by (cases ps rule: rev_cases) (auto simp: render_snoc dest!: name_ok_elem last_in_set)

lemma splitPath_apath:
  assumes "list_all name_ok (ps @ [x])"
  shows "splitPath (apath (ps @ [x])) = (apath ps, x)"
proof -
  let ?p = "apath (ps @ [x])"
  define q where "q = (if ps = [] then [] else apath ps)"
  have p: "?p = q @ slash # x" by (simp add: render_snoc q_def)
  have x: "slash \<notin> set x" "x \<noteq> []" using assms by (auto dest: name_ok_elem)
  have "strip_seps ?p (length ?p) = length ?p"
    using last_apath [OF assms] by (intro strip_seps_id) auto
  moreover have "drop_lead ?p = ?p"
  proof (rule drop_lead_id, rule notI, elim exE)
    fix s assume "?p = slash # slash # s"
    moreover obtain e es where "ps @ [x] = e # es" by (cases "ps @ [x]") auto
    ultimately show False using assms
      by (cases e) (auto simp: render_def join_elems_Cons name_ok_def pelem_def split: if_splits)
  qed
  moreover have "last_sep ?p (length ?p - 1) = length q + 1"
  proof -
    obtain y z where y: "x = y @ [z]" using x(2) by (cases x rule: rev_cases) auto
    then have "?p = (q @ slash # y) @ [z]" "length ?p - 1 = length (q @ slash # y)" by (simp_all add: p del: append.simps) (simp_all add: p [unfolded y])
    then show ?thesis
      using last_sep_snoc [of y q] last_sep_append [OF order_refl, of "q @ slash # y" "[z]"] x(1) y by simp
  qed
  ultimately have "splitPath ?p = (if length q = 0 then take 1 ?p else take (length q) ?p, drop (length q + 1) ?p)"
    by (simp add: splitPath_def drop_trail_def Let_def max_def)
  then show ?thesis by (auto simp: p q_def render_def join_elems_snoc)
qed

lemma Remove_quiet:
  assumes "w_ok w" "w_faults w = []" "fpath (w_fs w) ps"
  shows "Remove (apath ps) w =
    (case lookup (w_fs w) ps of
       None \<Rightarrow> (Some (PathError ''remove'' (apath ps) ENOENT), w)
     | Some n \<Rightarrow>
         if is_dir n \<and> children (w_fs w) ps \<noteq> [] then (Some (PathError ''remove'' (apath ps) ENOTEMPTY), w)
         else (None, w\<lparr>w_fs := erase ps (w_fs w)\<rparr>))"
proof -
  have wf: "wf_fs (w_fs w)" using assms(1) by (simp add: w_ok_def)
  have ne: "ps \<noteq> []" using assms(3) by (simp add: fpath_def)
  have "lookup (w_fs w) (butlast ps @ [last ps]) = None" if "lookup (w_fs w) (butlast ps) = None"
    by (rule wf_fs_absent [OF wf that])
  then have "lookup (w_fs w) ps = None" if "lookup (w_fs w) (butlast ps) = None" using that ne by simp
  with ne assms(2) resolve_fpath [OF wf assms(3), of False] show ?thesis
    by (auto simp: Remove_def sys_unlink_def sys_rmdir_def at_path_quiet split: option.split)
qed

lemma Open_present:
  assumes "w_ok w" "w_faults w = []" "lookup (w_fs w) ps = Some n" "\<And>t. n \<noteq> LinkN t"
  shows "Open (apath ps) w = (Inr ps, w)"
proof -
  have wf: "wf_fs (w_fs w)" using assms(1) by (simp add: w_ok_def)
  with resolve_present [OF wf assms(3), of True] assms(2-4) show ?thesis
    by (auto simp: Open_def sys_open_def at_path_quiet path_err_def not_link_def)
qed

lemma RemoveAll_quiet:
  assumes "w_ok w" "w_faults w = []" "fpath (w_fs w) ps"
  obtains w' where "RemoveAll (apath ps) w = (None, w')" "cut ps (w_fs w) (w_fs w')"
    "w_ok w'" "w_faults w' = []" "evolves w w'"
proof -
  obtain qs x where ps: "ps = qs @ [x]" using assms(3) by (cases ps rule: rev_cases) (auto simp: fpath_def)
  note names = fpath_names [OF assms(3)] and rm = Remove_quiet [OF assms]
  have wf: "wf_fs (w_fs w)" using assms(1) by (simp add: w_ok_def)
  have nd: "\<not> endsWithDot (apath ps)" by (rule endsWithDot_apath [OF names])
  have "\<exists>w'. RemoveAll (apath ps) w = (None, w') \<and> cut ps (w_fs w) (w_fs w')"
  proof (cases "lookup (w_fs w) ps")
    case None
    with rm nd cut_missing [OF wf] show ?thesis by (auto simp: RemoveAll_def IsNotExist_def)
  next
    case (Some n)
    show ?thesis
    proof (cases "is_dir n \<and> children (w_fs w) ps \<noteq> []")
      case True
      have d: "dir_at (w_fs w) qs" using wf_fs_parent [OF wf Some] ps by simp
      have "2 * tsize (w_fs w) (qs @ [x]) + 1 \<le> fs_fuel w" using tsize_fuel [of w "qs @ [x]"] by (simp add: fs_fuel_def)
      then obtain w' where "removeAllFrom (fs_fuel w) qs x w = (None, w')" "cut (qs @ [x]) (w_fs w) (w_fs w')"
        using removes_empties [of "fs_fuel w"] assms(1,2) d names ps unfolding removes_def by fastforce
      moreover have "Open (apath qs) w = (Inr qs, w)" using Open_present [OF assms(1,2)] d by (auto simp: dir_at_def)
      moreover have "splitPath (apath ps) = (apath qs, x)" using splitPath_apath names ps by simp
      ultimately show ?thesis using rm nd Some True ps by (simp add: RemoveAll_def IsNotExist_def)
    next
      case False
      have "lookup (w_fs w) p = None" if p: "strict_prefix ps p" for p
      proof (rule ccontr)
        assume pr: "lookup (w_fs w) p \<noteq> None"
        from below_child [OF wf p pr] have "children (w_fs w) ps \<noteq> []" by auto
        moreover have "dir_at (w_fs w) ps" using wf_fs_prefix [OF wf, of ps] p pr by (auto simp: strict_prefix_def prefix_def)
        ultimately show False using False Some by (auto simp: dir_at_def)
      qed
      then have "cut ps (w_fs w) (erase ps (w_fs w))" using ps by (intro cut_erase) auto
      with rm nd Some False show ?thesis by (auto simp: RemoveAll_def)
    qed
  qed
  then obtain w' where w': "RemoveAll (apath ps) w = (None, w')" "cut ps (w_fs w) (w_fs w')" by blast
  moreover have "evolves w w'" using evo.R_RemoveAll [of w "apath ps"] w'(1) by simp
  ultimately show ?thesis using that assms(1,2) by (auto dest: evolves_ok evolves_keeps)
qed

subsection \<open>RemoveAll under refusals\<close>

text \<open>
  Whatever is refused, removal stays below its path: \<open>only q\<close> relates a well-formed world to one
  in which some nodes at or below \<open>q\<close> are gone and nothing else is different.
\<close>

definition only :: "path \<Rightarrow> world \<Rightarrow> world \<Rightarrow> bool" where
  "only q w w' \<longleftrightarrow> (w_ok w \<longrightarrow> w_ok w' \<and>
     (\<forall>p. lookup (w_fs w') p = lookup (w_fs w) p \<or> (prefix q p \<and> lookup (w_fs w') p = None)))"

interpretation only: world_preorder "only q" for q
proof
  show "only q w w" for w by (simp add: only_def)
  show "only q w1 w2 \<Longrightarrow> only q w2 w3 \<Longrightarrow> only q w1 w3" for w1 w2 w3
    unfolding only_def by metis
qed

lemma only_mono: "only (q @ r) w w' \<Longrightarrow> only q w w'"
  unfolding only_def by (meson append_prefixD)

lemma only_same: "evolves w w' \<Longrightarrow> w_fs w' = w_fs w \<Longrightarrow> only q w w'"
  by (auto simp: only_def evolves_def)

lemma only_erase: "evolves w (w\<lparr>w_fs := erase q (w_fs w)\<rparr>) \<Longrightarrow> only q w (w\<lparr>w_fs := erase q (w_fs w)\<rparr>)"
proof (cases "q = []")
  case True
  then show "evolves w (w\<lparr>w_fs := erase q (w_fs w)\<rparr>) \<Longrightarrow> only q w (w\<lparr>w_fs := erase q (w_fs w)\<rparr>)"
    by (auto simp: only_def evolves_def lookup_def erase_def delete_conv')
qed (auto simp: only_def evolves_def)

lemma at_fd_only:
  assumes "name_ok x" "\<And>w'. only q w' (snd (k w' (d @ [x])))"
  shows "only q w (snd (at_fd w d x k))"
proof -
  obtain r w' where t: "tick w = (r, w')" by fastforce
  have ev: "only q w w'" using tick_evolves [OF t] by (auto intro: only_same)
  have x: "elems x = [x]" "x \<noteq> []" "x \<noteq> ''.''" "x \<noteq> ''..''"
    using assms(1) by (auto simp: name_ok_def pelem_def elems_no_slash)
  then have "namei 40 (w_fs w') d (elems x) False = Inr (d @ [x]) \<or> (\<exists>e. namei 40 (w_fs w') d (elems x) False = Inl e)"
    by (auto split: option.split node.split)
  then show ?thesis
    using t ev only.R_trans [OF ev assms(2)] by (auto simp: at_fd_def split: option.split)
qed

lemma only_unlinkat: "name_ok x \<Longrightarrow> only (d @ [x]) w (snd (unlinkat d x w))"
  unfolding unlinkat_def
  by (rule at_fd_only) (auto split: option.split intro: only.R_refl only_erase erase_nondir_evolves)

lemma only_removedirat: "name_ok x \<Longrightarrow> only (d @ [x]) w (snd (removedirat d x w))"
  unfolding removedirat_def
  by (rule at_fd_only) (auto split: option.split simp: children_empty intro!: only.R_refl only_erase erase_evolves)

lemma only_openDirAt: "name_ok x \<Longrightarrow> only (d @ [x]) w (snd (openDirAt d x w))"
  unfolding openDirAt_def by (rule at_fd_only) (auto split: option.split node.split intro: only.R_refl)

lemma openDirAt_handle:
  assumes "openDirAt d x w = (Inr q, w')" "name_ok x"
  shows "q = d @ [x]"
proof -
  have "elems x = [x]" "x \<noteq> []" "x \<noteq> ''.''" "x \<noteq> ''..''"
    using assms(2) by (auto simp: name_ok_def pelem_def elems_no_slash)
  with assms(1) show ?thesis
    by (auto simp: openDirAt_def at_fd_def split: prod.splits option.splits sum.splits node.splits if_splits)
qed

lemma sys_readdir_names:
  assumes "sys_readdir q w = (r, w')"
  shows "only p w w'" "w_ok w \<Longrightarrow> r = Inr ns \<Longrightarrow> list_all name_ok ns"
proof -
  obtain t w1 where t: "tick w = (t, w1)" by fastforce
  have w': "w' = w1" using assms t by (auto simp: sys_readdir_def split: option.splits if_splits)
  with tick_evolves [OF t] show "only p w w'" by (auto intro: only_same)
  show "w_ok w \<Longrightarrow> r = Inr ns \<Longrightarrow> list_all name_ok ns"
    using assms t tick_evolves [OF t] children_names [of "w_fs w" q]
    by (auto simp: sys_readdir_def w_ok_def split: option.splits if_splits)
qed

lemma only_remove_names:
  assumes "\<And>x w. name_ok x \<Longrightarrow> only (d @ [x]) w (snd (removeAllFrom n d x w))" "list_all name_ok ns"
  shows "only d w (snd (remove_names n d base ns k re w))"
  using assms(2)
proof (induction ns arbitrary: k re w)
  case (Cons x ns)
  then have "only d w (snd (removeAllFrom n d x w))" for w using only_mono [OF assms(1)] by simp
  with Cons show ?case by (simp only: remove_names.simps) (intro only.R_shape; simp)
qed (simp add: only.R_refl)

lemma only_remove_batches:
  assumes "\<And>x w. name_ok x \<Longrightarrow> only (d @ [x]) w (snd (removeAllFrom n d x w))" "list_all (list_all name_ok) cs"
  shows "only d w (snd (remove_batches n d base cs re w))"
  using assms(2)
proof (induction cs arbitrary: re w)
  case (Cons c cs)
  have "only d w (snd (remove_names n d base c k re w))" for k re w
    using only_remove_names [OF assms(1)] Cons.prems by simp
  with Cons show ?case by (simp only: remove_batches.simps) (intro only.R_shape only.R_pair; simp)
qed (simp add: only.R_refl)

lemma chunks_all: "list_all P ns \<Longrightarrow> list_all (list_all P) (chunks ns)"
proof (induction ns rule: chunks.induct)
  case (1 ns)
  then show ?case
    by (subst chunks.simps) (auto simp: list_all_iff dest: in_set_takeD in_set_dropD)
qed

lemma only_removeAllFrom_openings:
  "(\<forall>d x w. name_ok x \<longrightarrow> only (d @ [x]) w (snd (removeAllFrom n d x w))) \<and>
   (\<forall>d x uErr re w. name_ok x \<longrightarrow> only (d @ [x]) w (snd (remove_openings n d x uErr re w)))"
proof (induction n)
  case (Suc n)
  then have fr: "name_ok x \<Longrightarrow> only (d @ [x]) w (snd (removeAllFrom n d x w))"
    and op: "name_ok x \<Longrightarrow> only (d @ [x]) w (snd (remove_openings n d x uErr re w))" for d x w uErr re by auto
  have "only (d @ [x]) w (snd (removeAllFrom (Suc n) d x w))" if "name_ok x" for d x w
    by (simp only: removeAllFrom.simps) (intro only.R_shape only_unlinkat only_removedirat op that)
  moreover have "only (d @ [x]) w (snd (remove_openings (Suc n) d x uErr re w))" if x: "name_ok x" for d x uErr re w
  proof -
    let ?q = "d @ [x]"
    let ?body = "\<lambda>w1. case sys_readdir ?q w1 of
             (Inl e, w2) \<Rightarrow>
               if e = ENOENT then (Inl None, w2)
               else (Inl (Some (PathError ''readdirnames'' x e)), w2)
           | (Inr names, w2) \<Rightarrow>
               (case remove_batches n ?q x (chunks names) re w2 of
                  ((respSize, re), w3) \<Rightarrow>
                    if respSize < reqSize then (Inr re, w3)
                    else remove_openings n d x uErr re w3)"
    have body: "only ?q w1 (snd (?body w1))" if ok: "w_ok w1" for w1
    proof -
      obtain r w2 where r: "sys_readdir ?q w1 = (r, w2)" by fastforce
      have "only ?q w2 (snd (case remove_batches n ?q x (chunks ns) re w2 of
          ((respSize, re), w3) \<Rightarrow> if respSize < reqSize then (Inr re, w3) else remove_openings n d x uErr re w3))"
        if "r = Inr ns" for ns
        using sys_readdir_names(2) [OF r ok that]
        by (intro only.R_shape only.R_pair only_remove_batches fr op x chunks_all) auto
      with only.R_trans [OF sys_readdir_names(1) [OF r]] sys_readdir_names(1) [OF r, of ?q] r show ?thesis
        by (cases r) auto
    qed
    obtain h w1 where h: "openDirAt d x w = (h, w1)" by fastforce
    have o1: "only ?q w w1" using only_openDirAt [OF x, of d w] h by simp
    show ?thesis
    proof (cases h)
      case (Inr q)
      then have "remove_openings (Suc n) d x uErr re w = ?body w1"
        using h openDirAt_handle [of d x w q w1] x by simp
      then show ?thesis using only.R_trans [OF o1] body o1 by (auto simp: only_def)
    qed (use h o1 in auto)
  qed
  ultimately show ?case by blast
qed (simp add: only.R_refl)

lemma at_path_only:
  assumes "fpath (w_fs w) ps" "w_ok w" "\<And>w'. only ps w' (snd (k w' ps))"
  shows "only ps w (snd (at_path w (apath ps) False k))"
proof -
  obtain r w' where t: "tick w = (r, w')" by fastforce
  have ev: "only ps w w'" using tick_evolves [OF t] by (auto intro: only_same)
  have "resolve w' (apath ps) False = Inl ENOENT \<or> resolve w' (apath ps) False = Inr ps"
    using resolve_fpath [of w' ps False] tick_evolves [OF t] assms(1,2) by (auto simp: w_ok_def)
  then show ?thesis using t ev only.R_trans [OF ev assms(3)] by (auto simp: at_path_def split: option.split)
qed

lemma only_fpath: "only ps w w' \<Longrightarrow> w_ok w \<Longrightarrow> fpath (w_fs w) ps \<Longrightarrow> fpath (w_fs w') ps"
proof -
  assume "only ps w w'" "w_ok w" "fpath (w_fs w) ps"
  then have "lookup (w_fs w') p = lookup (w_fs w) p" if "prefix p (butlast ps)" for p
  proof -
    have "length p < length ps"
      using prefix_length_le [OF that] \<open>fpath (w_fs w) ps\<close> by (cases ps rule: rev_cases) (auto simp: fpath_def)
    then have "\<not> prefix ps p" using prefix_length_le [of ps p] by auto
    then show ?thesis using \<open>only ps w w'\<close> \<open>w_ok w\<close> by (auto simp: only_def)
  qed
  then show ?thesis using \<open>fpath (w_fs w) ps\<close> by (simp add: fpath_def dpath_def dir_at_def take_is_prefix)
qed

lemma only_Remove:
  assumes "fpath (w_fs w) ps" "w_ok w"
  shows "only ps w (snd (Remove (apath ps) w))"
proof -
  have u: "only ps w (snd (sys_unlink (apath ps) w))"
    unfolding sys_unlink_def
    by (rule at_path_only [OF assms]) (auto split: option.split intro: only.R_refl only_erase erase_nondir_evolves)
  obtain r w1 where r: "sys_unlink (apath ps) w = (r, w1)" by fastforce
  have "w_ok w1" "fpath (w_fs w1) ps" using u r assms only_fpath [of ps w w1] by (auto simp: only_def)
  then have "only ps w1 (snd (sys_rmdir (apath ps) w1))"
    unfolding sys_rmdir_def
    by (intro at_path_only) (auto split: option.split simp: children_empty intro!: only.R_refl only_erase erase_evolves)
  with u r show ?thesis
    by (auto simp: Remove_def split: sum.split prod.split intro: only.R_trans)
qed

lemma RemoveAll_only:
  assumes "fpath (w_fs w) ps" "w_ok w"
  shows "only ps w (snd (RemoveAll (apath ps) w))"
proof -
  obtain qs x where ps: "ps = qs @ [x]" using assms(1) by (cases ps rule: rev_cases) (auto simp: fpath_def)
  have names: "list_all name_ok (qs @ [x])" using fpath_names [OF assms(1)] ps by simp
  obtain r w1 where r: "Remove (apath ps) w = (r, w1)" by fastforce
  then have o1: "only ps w w1" using only_Remove [OF assms] by simp
  then have ok: "w_ok w1" "fpath (w_fs w1) ps" using assms only_fpath by (auto simp: only_def)
  obtain h w2 where h: "Open (apath qs) w1 = (h, w2)" by fastforce
  have op: "only ps w1 w2 \<and> (\<forall>d. h = Inr d \<longrightarrow> d = qs)"
  proof -
    obtain t w1' where t: "tick w1 = (t, w1')" by fastforce
    have "resolve w1' (apath qs) True = Inr qs \<or> resolve w1' (apath qs) True = Inl ENOENT"
    proof (cases "qs = []")
      case False
      have d: "dpath (w_fs w1') qs" using ok ps tick_evolves [OF t] by (simp add: fpath_def)
      have "not_link (w_fs w1') qs" using dpath_self [OF d] by (fastforce simp: not_link_def dir_at_def)
      with resolve_fpath [OF _ dpath_fpath [OF d False], of True] ok tick_evolves [OF t] show ?thesis
        by (auto simp: w_ok_def)
    qed simp
    with h t tick_evolves [OF t] show ?thesis
      by (auto simp: Open_def sys_open_def at_path_def path_err_def intro: only_same split: option.splits)
  qed
  have fr: "only ps w2 (snd (removeAllFrom (fs_fuel w2) qs x w2))"
    using only_removeAllFrom_openings [of "fs_fuel w2"] names ps by auto
  have rest: "only ps w1 (snd (case Open (apath qs) w1 of
        (Inl e2, w2) \<Rightarrow> if IsNotExist e2 then (None, w2) else (Some e2, w2)
      | (Inr d, w2) \<Rightarrow>
          (case removeAllFrom (fs_fuel w2) d x w2 of
             (None, w3) \<Rightarrow> (None, w3)
           | (Some e3, w3) \<Rightarrow> (Some (prefix_err (apath qs) e3), w3))))"
    using op h fr by (cases h) (auto intro: only.R_trans split: prod.split option.split)
  show ?thesis
    using r o1 only.R_trans [OF o1 rest] splitPath_apath [OF names] ps
    by (auto simp: RemoveAll_def Let_def only.R_refl split: option.split)
qed

section \<open>Opening and creating by name\<close>

lemma Stat_present:
  assumes "w_ok w" "w_faults w = []" "lookup (w_fs w) ps = Some n" "\<And>t. n \<noteq> LinkN t"
  shows "Stat (apath ps) w = (Inr n, w)" "Lstat (apath ps) w = (Inr n, w)"
proof -
  have wf: "wf_fs (w_fs w)" using assms(1) by (simp add: w_ok_def)
  then have fp: "ps = [] \<or> fpath (w_fs w) ps" using present_fpath [OF wf assms(3)] by auto
  show "Stat (apath ps) w = (Inr n, w)" "Lstat (apath ps) w = (Inr n, w)"
    using sys_stat_quiet [OF wf fp, of True] sys_stat_quiet [OF wf fp, of False] assms(2-4)
    by (auto simp: Stat_def Lstat_def path_err_def not_link_def)
qed

lemma Create_quiet:
  assumes "w_ok w" "w_faults w = []" "list_all name_ok qs" "qs \<noteq> []" "dir_at (w_fs w) (butlast qs)"
    and "lookup (w_fs w) qs = None \<or> (\<exists>m b. lookup (w_fs w) qs = Some (FileN m b))"
  obtains m where "Create (apath qs) w = (Inr qs, w\<lparr>w_fs := store qs (FileN m []) (w_fs w)\<rparr>)"
proof -
  have wf: "wf_fs (w_fs w)" using assms(1) by (simp add: w_ok_def)
  have "resolve w (apath qs) True = Inr qs"
    using resolve_real [OF wf assms(3,5), of True] assms(4,6) by (auto simp: not_link_def)
  with assms(2,6) that show ?thesis
    by (auto simp: Create_def OpenTrunc_def sys_creat_def at_path_quiet path_err_def)
qed

lemma Join_apath: "list_all name_ok (ps @ [x]) \<Longrightarrow> Join [apath ps, x] = apath (ps @ [x])"
proof -
  assume n: "list_all name_ok (ps @ [x])"
  then have nn: "normal True ps" "normal True (ps @ [x])" and x: "name_ok x"
    using normal_names [of ps] normal_names [of "ps @ [x]"] by auto
  have "celems (Join [apath ps, x]) = ps @ [x]"
    using celems_Join_name [OF apath_ne x] celems_render [OF nn(1)] by simp
  then show ?thesis
    using Clean_celems [of "Join [apath ps, x]"] Clean_idem IsAbs_render [OF nn(1)]
    by (simp add: Join2 IsAbs_append)
qed

text \<open>Reading a real directory gives its entries in order.\<close>

lemma ReadDir_quiet:
  assumes "w_ok w" "w_faults w = []" "lookup (w_fs w) ps = Some (DirN m)"
  shows "ReadDir (apath ps) w = (Inr (sort (children (w_fs w) ps)), w)"
    "readDirNames (apath ps) w = (Inr (sort (children (w_fs w) ps)), w)"
  using Open_present [OF assms] assms(2,3) by (simp_all add: ReadDir_def readDirNames_def sys_readdir_def path_err_def)

section \<open>Evaluating the predicates\<close>

lemma dir_at_code [code]: "dir_at f p = (case lookup f p of Some n \<Rightarrow> is_dir n | None \<Rightarrow> False)"
  by (auto simp: dir_at_def is_dir_conv split: option.split)

lemma wf_fs_code [code]:
  "wf_fs f \<longleftrightarrow> distinct (map fst f) \<and>
     list_all (\<lambda>p. p = [] \<or> (list_all name_ok p \<and> dir_at f (butlast p))) (map fst f)"
proof -
  have k: "(\<exists>n. lookup f p = Some n) \<longleftrightarrow> p = [] \<or> p \<in> fst ` set f" for p
    using in_keys [of p f] by (cases "p = []") auto
  have "(\<forall>p n. lookup f p = Some n \<longrightarrow> P p) \<longleftrightarrow> (\<forall>p \<in> fst ` set f. P p)" if "P []" for P
    using that k by metis
  from this [of "\<lambda>p. list_all name_ok p \<and> (p \<noteq> [] \<longrightarrow> dir_at f (butlast p))"]
  show ?thesis unfolding wf_fs_def by (auto simp: list_all_iff)
qed

lemma dpath_code [code]:
  "dpath f ps \<longleftrightarrow> list_all name_ok ps \<and>
     list_all (\<lambda>k. lookup f (take k ps) = None \<or> dir_at f (take k ps)) [0..<Suc (length ps)]"
proof -
  have "(\<forall>k. P (take k ps)) \<longleftrightarrow> (\<forall>k \<in> set [0..<Suc (length ps)]. P (take k ps))" for P
  proof (intro iffI allI ballI)
    fix k assume "\<forall>k \<in> set [0..<Suc (length ps)]. P (take k ps)"
    then have "P (take (min k (length ps)) ps)" by (auto simp: min_def)
    then show "P (take k ps)" by (cases "k \<le> length ps") (auto simp: min_def)
  qed simp
  from this [of "\<lambda>q. lookup f q = None \<or> dir_at f q"] show ?thesis
    unfolding dpath_def list_all_iff imp_conv_disj not_not by (simp only:)
qed

section \<open>Properties\<close>

text \<open>
  C35. \<open>os.MkdirAll\<close> on a path below real directories. Whatever system calls are refused, it
  changes no existing node and makes only missing directories on the path, with the
  requested permissions less the umask; if it returns nil the path is a directory. If
  nothing is refused it returns nil.
\<close>

theorem MkdirAll_spec:
  assumes "w_ok w" "dpath (w_fs w) ps" "MkdirAll (apath ps) m w = (r, w')"
  shows "(\<forall>q. lookup (w_fs w') q = lookup (w_fs w) q \<or>
      (prefix q ps \<and> lookup (w_fs w) q = None \<and> lookup (w_fs w') q = Some (DirN (mkdir_mode (w_umask w) m)))) \<and>
    (r = None \<longrightarrow> dir_at (w_fs w') ps) \<and> (w_faults w = [] \<longrightarrow> r = None)"
  using MkdirAll_ok [OF assms] by (auto simp: made_def)

definition demo_world :: world where
  "demo_world = \<lparr>w_fs = [([''opt''], DirN 0x1ED), ([''opt'', ''a''], DirN 0x1ED),
       ([''opt'', ''a'', ''x''], FileN 0x1A4 ''hi''), ([''etc''], DirN 0x1ED)],
     w_cwd = [], w_umask = 0x12, w_euid = 0, w_env = [], w_stdin = [], w_out = [], w_cmds = [], w_faults = []\<rparr>"

theorem MkdirAll_spec_witness:
  "dir_at (w_fs (snd (MkdirAll ''/opt/b/c'' 0x1FF demo_world))) [''opt'', ''b'', ''c'']"
proof -
  have "w_ok demo_world" unfolding w_ok_def by code_simp
  moreover have "dpath (w_fs demo_world) [''opt'', ''b'', ''c'']" by code_simp
  moreover have "apath [''opt'', ''b'', ''c''] = ''/opt/b/c''" by code_simp
  moreover have "w_faults demo_world = []" by code_simp
  ultimately show ?thesis
    using MkdirAll_spec [of demo_world "[''opt'', ''b'', ''c'']" "0x1FF"] by (metis prod.collapse)
qed

text \<open>
  C33. \<open>os.RemoveAll\<close> when no call is refused: it returns nil, every node at and below the path
  is gone, and every other node is as before. The model's fuel, a little over twice the
  number of nodes, is enough for any tree, however many entries its directories have.
\<close>

theorem RemoveAll_spec:
  assumes "w_ok w" "w_faults w = []" "fpath (w_fs w) ps"
  shows "\<exists>w'. RemoveAll (apath ps) w = (None, w') \<and>
    (\<forall>p. lookup (w_fs w') p = (if prefix ps p then None else lookup (w_fs w) p))"
  using RemoveAll_quiet [OF assms] by (metis cut_def)

theorem RemoveAll_spec_witness:
  "lookup (w_fs (snd (RemoveAll ''/opt'' demo_world))) [''opt'', ''a'', ''x''] = None"
proof -
  have "w_ok demo_world" "fpath (w_fs demo_world) [''opt'']" "w_faults demo_world = []"
    unfolding w_ok_def fpath_def by code_simp+
  then obtain w' where "RemoveAll (apath [''opt'']) demo_world = (None, w')"
    "\<forall>p. lookup (w_fs w') p = (if prefix [''opt''] p then None else lookup (w_fs demo_world) p)"
    using RemoveAll_spec by blast
  then show ?thesis by (simp add: render_def)
qed

text \<open>
  C34. \<open>os.RemoveAll\<close> under any schedule of refused calls: no node outside the path's subtree is
  changed, and a node inside is either as before or gone.
\<close>

theorem RemoveAll_stays_below:
  assumes "w_ok w" "fpath (w_fs w) ps" "RemoveAll (apath ps) w = (r, w')"
  shows "w_ok w' \<and> (\<forall>p. lookup (w_fs w') p = lookup (w_fs w) p \<or> (prefix ps p \<and> lookup (w_fs w') p = None))"
  using RemoveAll_only [OF assms(2,1)] assms(1,3) by (simp add: only_def)

theorem RemoveAll_stays_below_witness:
  "lookup (w_fs (snd (RemoveAll ''/opt'' (demo_world\<lparr>w_faults := [None, Some (EIO, 0)]\<rparr>)))) [''etc''] = Some (DirN 0x1ED)"
proof -
  let ?w = "demo_world\<lparr>w_faults := [None, Some (EIO, 0)]\<rparr>"
  have "w_ok ?w" "fpath (w_fs ?w) [''opt'']" unfolding w_ok_def fpath_def by code_simp+
  from RemoveAll_stays_below [OF this prod.collapse [symmetric]]
  have "lookup (w_fs (snd (RemoveAll (apath [''opt'']) ?w))) [''etc''] = lookup (w_fs ?w) [''etc'']" by auto
  then show ?thesis by (simp add: render_def demo_world_def lookup_def)
qed

end
