(* ===== verification/GoUtf8.thy ===== *)
theory GoUtf8
  imports Prelude
begin

unbundle bit_operations_syntax

text \<open>
  The functions of \<open>unicode/utf8/utf8.go\<close> behind Go's string iteration and the string functions
  the updater calls. A rune is a natural number (the code only makes non-negative ones here), a
  byte the character of that code. The 256-entry table \<open>first\<close> is written by its ranges. Shown:
  decoding always makes progress and stays inside the string, encoding and decoding are inverse
  on valid runes, and decoding never returns anything but a valid rune.
\<close>

section \<open>Definitions\<close>

type_synonym rune = nat

abbreviation byte :: "char \<Rightarrow> nat" where "byte c \<equiv> of_char c"

abbreviation RuneError :: rune where "RuneError \<equiv> 0xFFFD"
abbreviation MaxRune :: rune where "MaxRune \<equiv> 0x10FFFF"
abbreviation RuneSelf :: nat where "RuneSelf \<equiv> 0x80"

definition utf8_first :: "nat \<Rightarrow> nat" where
  "utf8_first c =
     (if c < 0x80 then 0xF0 else if c < 0xC2 then 0xF1 else if c < 0xE0 then 0x02
      else if c = 0xE0 then 0x13 else if c = 0xED then 0x23 else if c < 0xF0 then 0x03
      else if c = 0xF0 then 0x34 else if c < 0xF4 then 0x04 else if c = 0xF4 then 0x44 else 0xF1)"

definition acceptRanges :: "nat \<Rightarrow> nat \<times> nat" where
  "acceptRanges i =
     (if i = 0 then (0x80, 0xBF) else if i = 1 then (0xA0, 0xBF) else if i = 2 then (0x80, 0x9F)
      else if i = 3 then (0x90, 0xBF) else if i = 4 then (0x80, 0x8F) else (0, 0))"

definition DecodeRuneInString :: "string \<Rightarrow> rune \<times> nat" where
  "DecodeRuneInString s =
     (let n = length s in
      if n < 1 then (RuneError, 0)
      else
        let s0 = byte (s ! 0); x = utf8_first s0 in
        if x \<ge> 0xF0 then (if x = 0xF1 then RuneError else s0, 1)
        else
          let sz = x AND 7; (lo, hi) = acceptRanges (drop_bit 4 x) in
          if n < sz then (RuneError, 1)
          else
            let s1 = byte (s ! 1) in
            if s1 < lo \<or> hi < s1 then (RuneError, 1)
            else if sz \<le> 2 then (push_bit 6 (s0 AND 0x1F) OR (s1 AND 0x3F), 2)
            else
              let s2 = byte (s ! 2) in
              if s2 < 0x80 \<or> 0xBF < s2 then (RuneError, 1)
              else if sz \<le> 3 then
                (push_bit 12 (s0 AND 0x0F) OR push_bit 6 (s1 AND 0x3F) OR (s2 AND 0x3F), 3)
              else
                let s3 = byte (s ! 3) in
                if s3 < 0x80 \<or> 0xBF < s3 then (RuneError, 1)
                else (push_bit 18 (s0 AND 0x07) OR push_bit 12 (s1 AND 0x3F) OR
                      push_bit 6 (s2 AND 0x3F) OR (s3 AND 0x3F), 4))"

definition RuneStart :: "char \<Rightarrow> bool" where
  "RuneStart b \<longleftrightarrow> byte b AND 0xC0 \<noteq> 0x80"

text \<open>The loop of \<open>DecodeLastRuneInString\<close> that looks for the start of the last rune; \<open>start + 1\<close>.\<close>

fun rune_start_loop :: "string \<Rightarrow> nat \<Rightarrow> nat \<Rightarrow> nat" where
  "rune_start_loop s lim 0 = 0"
| "rune_start_loop s lim (Suc start) =
     (if start < lim then Suc start else if RuneStart (s ! start) then Suc start
      else rune_start_loop s lim start)"

definition DecodeLastRuneInString :: "string \<Rightarrow> rune \<times> nat" where
  "DecodeLastRuneInString s =
     (let e = length s in
      if e = 0 then (RuneError, 0)
      else
        let r = byte (s ! (e - 1)) in
        if r < RuneSelf then (r, 1)
        else
          let start = rune_start_loop s (e - 4) (e - 1) - 1;
              (r, size) = DecodeRuneInString (drop start s)
          in if start + size \<noteq> e then (RuneError, 1) else (r, size))"

definition RuneLen :: "rune \<Rightarrow> int" where
  "RuneLen r =
     (if r \<le> 0x7F then 1 else if r \<le> 0x7FF then 2 else if 0xD800 \<le> r \<and> r \<le> 0xDFFF then -1
      else if r \<le> 0xFFFF then 3 else if r \<le> MaxRune then 4 else -1)"

definition ValidRune :: "rune \<Rightarrow> bool" where
  "ValidRune r \<longleftrightarrow> r < 0xD800 \<or> (0xDFFF < r \<and> r \<le> MaxRune)"

definition appendRuneNonASCII :: "bytes \<Rightarrow> rune \<Rightarrow> bytes" where
  "appendRuneNonASCII p r =
     (if r \<le> 0x7FF then p @ map char_of [0xC0 OR drop_bit 6 r, 0x80 OR (r AND 0x3F)]
      else if r < 0xD800 \<or> (0xDFFF < r \<and> r \<le> 0xFFFF) then
        p @ map char_of [0xE0 OR drop_bit 12 r, 0x80 OR (drop_bit 6 r AND 0x3F), 0x80 OR (r AND 0x3F)]
      else if r > 0xFFFF \<and> r \<le> MaxRune then
        p @ map char_of [0xF0 OR drop_bit 18 r, 0x80 OR (drop_bit 12 r AND 0x3F),
                         0x80 OR (drop_bit 6 r AND 0x3F), 0x80 OR (r AND 0x3F)]
      else p @ map char_of [0xEF :: nat, 0xBF, 0xBD])"

definition AppendRune :: "bytes \<Rightarrow> rune \<Rightarrow> bytes" where
  "AppendRune p r = (if r \<le> 0x7F then p @ [char_of r] else appendRuneNonASCII p r)"

section \<open>Bits\<close>

lemma and_mask: "n AND (2 ^ k - 1) = n mod 2 ^ k" for n :: nat
  using take_bit_eq_mask [of k n] take_bit_eq_mod [of k n] by (simp add: mask_eq_exp_minus_1)

lemma and_3F: "n AND 0x3F = n mod 0x40" and and_1F: "n AND 0x1F = n mod 0x20"
  and and_0F: "n AND 0x0F = n mod 0x10" and and_07: "n AND 0x07 = n mod 0x08" for n :: nat
  using and_mask [of n 6] and_mask [of n 5] and_mask [of n 4] and_mask [of n 3] by simp_all

lemma or_add:
  assumes "(b :: nat) < 2 ^ k"
  shows "2 ^ k * a OR b = 2 ^ k * a + b"
proof -
  have "take_bit k b = b" using assms by (simp add: take_bit_nat_eq_self_iff)
  then have "\<not> bit b n" if "k \<le> n" for n
    using that by (metis bit_take_bit_iff linorder_not_le)
  then have "\<not> bit (push_bit k a) n \<or> \<not> bit b n" for n
    by (cases "k \<le> n") (auto simp: bit_push_bit_iff)
  then have "push_bit k a + b = push_bit k a OR b" by (intro disjunctive_add) auto
  then show ?thesis by (simp add: push_bit_eq_mult mult.commute)
qed

lemma or_6: "b < 0x40 \<Longrightarrow> 0x40 * a OR b = 0x40 * a + b" and or_12: "b < 0x1000 \<Longrightarrow> 0x1000 * a OR b = 0x1000 * a + b"
  and or_18: "b < 0x40000 \<Longrightarrow> 0x40000 * a OR b = 0x40000 * a + b" for a b :: nat
  using or_add [of b 6 a] or_add [of b 12 a] or_add [of b 18 a] by simp_all

lemma lead_bits:
  "b < 0x40 \<Longrightarrow> 0x80 OR b = 0x80 + b" "b < 0x20 \<Longrightarrow> 0xC0 OR b = 0xC0 + b"
  "b < 0x10 \<Longrightarrow> 0xE0 OR b = 0xE0 + b" "b < 0x08 \<Longrightarrow> 0xF0 OR b = 0xF0 + b" for b :: nat
  using or_add [of b 6 2] or_add [of b 5 6] or_add [of b 4 14] or_add [of b 3 30] by simp_all

lemmas rune_arith = and_3F and_1F and_0F and_07 push_bit_eq_mult drop_bit_eq_div or_6 or_12 or_18 lead_bits

section \<open>Decoding\<close>

lemma utf8_first_size:
  "c < 256 \<Longrightarrow> utf8_first c < 0xF0 \<Longrightarrow> utf8_first c AND 7 \<in> {2, 3, 4}"
  by (auto simp: utf8_first_def split: if_splits)

lemma Decode_size:
  assumes "s \<noteq> []"
  shows "1 \<le> snd (DecodeRuneInString s) \<and> snd (DecodeRuneInString s) \<le> length s"
proof -
  let ?x = "utf8_first (byte (s ! 0))"
  have len: "1 \<le> length s" using assms by (cases s) auto
  have sz: "?x < 0xF0 \<Longrightarrow> ?x AND 7 \<in> {2, 3, 4}" by (rule utf8_first_size) auto
  obtain lo hi where ar: "acceptRanges (drop_bit 4 ?x) = (lo, hi)" by fastforce
  show ?thesis
    using len sz by (auto simp: DecodeRuneInString_def Let_def ar)
qed

lemma Decode_ascii: "byte c < 0x80 \<Longrightarrow> DecodeRuneInString (c # s) = (byte c, 1)"
  by (simp add: DecodeRuneInString_def utf8_first_def Let_def)

text \<open>The three multi-byte forms, with the arithmetic in place of the bit operations.\<close>

lemma Decode_2:
  assumes "0xC2 \<le> byte a" "byte a < 0xE0" "0x80 \<le> byte b" "byte b \<le> 0xBF"
  shows "DecodeRuneInString (a # b # s) = (0x40 * (byte a mod 0x20) + byte b mod 0x40, 2)"
  using assms by (simp add: DecodeRuneInString_def utf8_first_def Let_def acceptRanges_def rune_arith mult.commute)

lemma Decode_3:
  assumes "0xE0 \<le> byte a" "byte a < 0xF0" "0x80 \<le> byte b" "byte b \<le> 0xBF" "0x80 \<le> byte c" "byte c \<le> 0xBF"
    and "byte a = 0xE0 \<Longrightarrow> 0xA0 \<le> byte b" "byte a = 0xED \<Longrightarrow> byte b \<le> 0x9F"
  shows "DecodeRuneInString (a # b # c # s) =
    (0x1000 * (byte a mod 0x10) + (0x40 * (byte b mod 0x40) + byte c mod 0x40), 3)"
proof -
  have "DecodeRuneInString (a # b # c # s) =
      (push_bit 12 (byte a AND 0x0F) OR push_bit 6 (byte b AND 0x3F) OR (byte c AND 0x3F), 3)"
    using assms by (auto simp: DecodeRuneInString_def utf8_first_def Let_def acceptRanges_def drop_bit_eq_div)
  moreover have "0x40 * (byte b mod 0x40) + byte c mod 0x40 < 0x1000" by (simp add: algebra_simps)
  ultimately show ?thesis
    using or_6 [of "byte c mod 0x40" "byte b mod 0x40"] or_12 [of _ "byte a mod 0x10"]
    by (simp add: and_3F and_0F push_bit_eq_mult mult.commute)
qed

lemma Decode_4:
  assumes "0xF0 \<le> byte a" "byte a \<le> 0xF4" "0x80 \<le> byte b" "byte b \<le> 0xBF" "0x80 \<le> byte c" "byte c \<le> 0xBF"
    and "0x80 \<le> byte d" "byte d \<le> 0xBF"
    and "byte a = 0xF0 \<Longrightarrow> 0x90 \<le> byte b" "byte a = 0xF4 \<Longrightarrow> byte b \<le> 0x8F"
  shows "DecodeRuneInString (a # b # c # d # s) =
    (0x40000 * (byte a mod 0x08) + (0x1000 * (byte b mod 0x40) + (0x40 * (byte c mod 0x40) + byte d mod 0x40)), 4)"
proof -
  have l: "0x40 * (byte c mod 0x40) + byte d mod 0x40 < 0x1000" by (simp add: algebra_simps)
  then have "0x1000 * (byte b mod 0x40) + (0x40 * (byte c mod 0x40) + byte d mod 0x40) < 0x40000"
    using mod_less_divisor [of "0x40" "byte b"] by linarith
  moreover have "DecodeRuneInString (a # b # c # d # s) =
      (push_bit 18 (byte a AND 0x07) OR push_bit 12 (byte b AND 0x3F) OR push_bit 6 (byte c AND 0x3F) OR (byte d AND 0x3F), 4)"
    using assms by (auto simp: DecodeRuneInString_def utf8_first_def Let_def acceptRanges_def drop_bit_eq_div)
  ultimately show ?thesis
    using l or_6 [of "byte d mod 0x40" "byte c mod 0x40"] or_12 [of _ "byte b mod 0x40"] or_18 [of _ "byte a mod 0x08"]
    by (simp add: and_3F and_07 push_bit_eq_mult mult.commute)
qed

section \<open>Encoding\<close>

lemma AppendRune_app: "AppendRune p r = p @ AppendRune [] r"
  by (simp add: AppendRune_def appendRuneNonASCII_def)

lemma Append_2:
  assumes "0x7F < r" "r \<le> 0x7FF"
  shows "AppendRune [] r = map char_of [0xC0 + r div 0x40, 0x80 + r mod 0x40]" "r div 0x40 < 0x20" "2 \<le> r div 0x40"
  using assms by (simp_all add: AppendRune_def appendRuneNonASCII_def rune_arith)

lemma Append_3:
  assumes "0x7FF < r" "r \<le> 0xFFFF" "ValidRune r"
  shows "AppendRune [] r = map char_of [0xE0 + r div 0x1000, 0x80 + r div 0x40 mod 0x40, 0x80 + r mod 0x40]"
    "r div 0x1000 < 0x10"
  using assms by (auto simp: AppendRune_def appendRuneNonASCII_def ValidRune_def rune_arith)

lemma Append_4:
  assumes "0xFFFF < r" "r \<le> MaxRune"
  shows "AppendRune [] r = map char_of [0xF0 + r div 0x40000, 0x80 + r div 0x1000 mod 0x40,
      0x80 + r div 0x40 mod 0x40, 0x80 + r mod 0x40]" "r div 0x40000 \<le> 4"
  using assms by (simp_all add: AppendRune_def appendRuneNonASCII_def rune_arith)

lemma div_div: "r div 0x1000 = r div 0x40 div 0x40" "r div 0x40000 = r div 0x40 div 0x40 div 0x40" for r :: nat
  by (simp_all flip: div_mult2_eq)

lemma join_3: "0x1000 * (r div 0x1000) + (0x40 * (r div 0x40 mod 0x40) + r mod 0x40) = r" for r :: nat
  using mult_div_mod_eq [of "0x40" r] mult_div_mod_eq [of "0x40" "r div 0x40"] unfolding div_div by linarith

lemma join_4: "0x40000 * (r div 0x40000) + (0x1000 * (r div 0x1000 mod 0x40) + (0x40 * (r div 0x40 mod 0x40) + r mod 0x40)) = r"
  for r :: nat
  using join_3 [of r] mult_div_mod_eq [of "0x40" "r div 0x40 div 0x40"] unfolding div_div by linarith

text \<open>The second byte of a three- or four-byte form is in the range its first byte calls for.\<close>

lemma second_3:
  assumes "0x7FF < r" "ValidRune r"
  shows "r div 0x1000 = 0 \<Longrightarrow> 0x20 \<le> r div 0x40 mod 0x40" "r div 0x1000 = 0xD \<Longrightarrow> r div 0x40 mod 0x40 \<le> 0x1F"
proof -
  define q where "q = r div 0x40"
  have "0x20 \<le> q" using assms(1) by (simp add: q_def)
  then have "q div 0x40 = 0 \<Longrightarrow> 0x20 \<le> q mod 0x40" by (simp add: div_eq_0_iff)
  moreover have "q \<le> 0x35F \<or> 0x380 \<le> q" using assms(2) by (auto simp: q_def ValidRune_def)
  then have "q div 0x40 = 0xD \<Longrightarrow> q mod 0x40 \<le> 0x1F" using mult_div_mod_eq [of "0x40" q] mod_less_divisor [of "0x40" q] by linarith
  ultimately show "r div 0x1000 = 0 \<Longrightarrow> 0x20 \<le> r div 0x40 mod 0x40" "r div 0x1000 = 0xD \<Longrightarrow> r div 0x40 mod 0x40 \<le> 0x1F"
    by (simp_all add: div_div q_def)
qed

lemma second_4:
  assumes "0xFFFF < r" "r \<le> MaxRune"
  shows "r div 0x40000 = 0 \<Longrightarrow> 0x10 \<le> r div 0x1000 mod 0x40" "r div 0x40000 = 4 \<Longrightarrow> r div 0x1000 mod 0x40 \<le> 0x0F"
proof -
  define q where "q = r div 0x1000"
  have q: "0x10 \<le> q" "q \<le> 0x10F" using assms by (simp_all add: q_def)
  have "q div 0x40 = 0 \<Longrightarrow> 0x10 \<le> q mod 0x40" using q(1) by (simp add: div_eq_0_iff)
  moreover have "q div 0x40 = 4 \<Longrightarrow> q mod 0x40 \<le> 0x0F" using q(2) mult_div_mod_eq [of "0x40" q] by linarith
  moreover have "r div 0x40000 = q div 0x40" by (simp add: q_def div_div)
  ultimately show "r div 0x40000 = 0 \<Longrightarrow> 0x10 \<le> r div 0x1000 mod 0x40" "r div 0x40000 = 4 \<Longrightarrow> r div 0x1000 mod 0x40 \<le> 0x0F"
    by (simp_all add: q_def)
qed

lemma byte_small: "n < 256 \<Longrightarrow> n mod 256 = n" for n :: nat
  by simp

lemma mod_lead: "x < n \<Longrightarrow> (k * n + x) mod n = x" for x :: nat
  by simp

lemma Decode_Append:
  assumes "ValidRune r"
  shows "DecodeRuneInString (AppendRune [] r @ s) = (r, nat (RuneLen r))"
proof -
  consider "r \<le> 0x7F" | "0x7F < r" "r \<le> 0x7FF" | "0x7FF < r" "r \<le> 0xFFFF" | "0xFFFF < r" "r \<le> MaxRune"
    using assms by (force simp: ValidRune_def)
  then show ?thesis
  proof cases
    case 1
    then show ?thesis by (simp add: AppendRune_def Decode_ascii RuneLen_def)
  next
    case 2
    note A = Append_2 [OF 2]
    have "(0xC0 + r div 0x40) mod 0x20 = r div 0x40" "(0x80 + r mod 0x40) mod 0x40 = r mod 0x40"
      using mod_lead [OF A(2), of 6] mod_lead [of "r mod 0x40" "0x40" 2] by simp_all
    then show ?thesis using 2 A(2,3) unfolding A(1) by (simp add: Decode_2 RuneLen_def)
  next
    case 3
    note A = Append_3 [OF 3 assms] and sec = second_3 [OF 3(1) assms]
    have m: "(0xE0 + r div 0x1000) mod 0x10 = r div 0x1000" "(0x80 + r mod 0x40) mod 0x40 = r mod 0x40"
      "(0x80 + r div 0x40 mod 0x40) mod 0x40 = r div 0x40 mod 0x40"
      using mod_lead [OF A(2), of 14] mod_lead [of "r mod 0x40" "0x40" 2] mod_lead [of "r div 0x40 mod 0x40" "0x40" 2] by simp_all
    have b: "byte (char_of (0xE0 + r div 0x1000)) = 0xE0 + r div 0x1000"
      "byte (char_of (0x80 + r div 0x40 mod 0x40)) = 0x80 + r div 0x40 mod 0x40"
      "byte (char_of (0x80 + r mod 0x40)) = 0x80 + r mod 0x40"
      using A(2) by (simp_all add: byte_small)
    have "nat (RuneLen r) = 3" using 3 assms by (auto simp: RuneLen_def ValidRune_def)
    then show ?thesis
      unfolding A(1) list.map append.simps
      using Decode_3 [of "char_of (0xE0 + r div 0x1000)" "char_of (0x80 + r div 0x40 mod 0x40)" "char_of (0x80 + r mod 0x40)" s,
          unfolded b m join_3] A(2) sec by simp
  next
    case 4
    note A = Append_4 [OF 4] and sec = second_4 [OF 4]
    have m: "(0xF0 + r div 0x40000) mod 0x08 = r div 0x40000" "(0x80 + r mod 0x40) mod 0x40 = r mod 0x40"
      "(0x80 + r div 0x40 mod 0x40) mod 0x40 = r div 0x40 mod 0x40"
      "(0x80 + r div 0x1000 mod 0x40) mod 0x40 = r div 0x1000 mod 0x40"
      using mod_lead [of "r div 0x40000" "0x08" 30] A(2) mod_lead [of "r mod 0x40" "0x40" 2]
        mod_lead [of "r div 0x40 mod 0x40" "0x40" 2] mod_lead [of "r div 0x1000 mod 0x40" "0x40" 2] by simp_all
    have b: "byte (char_of (0xF0 + r div 0x40000)) = 0xF0 + r div 0x40000"
      "byte (char_of (0x80 + r div 0x1000 mod 0x40)) = 0x80 + r div 0x1000 mod 0x40"
      "byte (char_of (0x80 + r div 0x40 mod 0x40)) = 0x80 + r div 0x40 mod 0x40"
      "byte (char_of (0x80 + r mod 0x40)) = 0x80 + r mod 0x40"
      using A(2) by (simp_all add: byte_small)
    have "nat (RuneLen r) = 4" using 4 by (simp add: RuneLen_def)
    then show ?thesis
      unfolding A(1) list.map append.simps
      using Decode_4 [of "char_of (0xF0 + r div 0x40000)" "char_of (0x80 + r div 0x1000 mod 0x40)"
          "char_of (0x80 + r div 0x40 mod 0x40)" "char_of (0x80 + r mod 0x40)" s, unfolded b m join_4] A(2) sec by simp
  qed
qed

section \<open>Iterating over a string\<close>

text \<open>
  \<open>for i, r := range s\<close>: the runes of a string with the index at which each starts; a byte that
  does not start a valid encoding counts as one \<open>RuneError\<close>.
\<close>

function range_from :: "nat \<Rightarrow> string \<Rightarrow> (nat \<times> rune) list" where
  "range_from i s =
     (if s = [] then []
      else (case DecodeRuneInString s of (r, n) \<Rightarrow> (i, r) # range_from (i + n) (drop n s)))"
  by pat_completeness auto
termination
proof (relation "measure (\<lambda>(i, s). length s)", goal_cases)
  case (2 i s r n)
  then show ?case using Decode_size [of s] by (cases "DecodeRuneInString s") auto
qed simp

declare range_from.simps [simp del]

abbreviation range :: "string \<Rightarrow> (nat \<times> rune) list" where
  "range s \<equiv> range_from 0 s"

definition is_ascii :: "string \<Rightarrow> bool" where
  "is_ascii s \<longleftrightarrow> list_all (\<lambda>c. byte c < RuneSelf) s"

lemma range_ascii: "is_ascii s \<Longrightarrow> map snd (range_from i s) = map byte s"
proof (induction s arbitrary: i)
  case (Cons c s)
  then show ?case by (subst range_from.simps) (simp add: Decode_ascii is_ascii_def)
qed (simp add: range_from.simps)

text \<open>Encoding a list of runes; iterating over the result gives the runes back.\<close>

definition encode :: "rune list \<Rightarrow> bytes" where
  "encode rs = foldl AppendRune [] rs"

lemma encode_Cons: "encode (r # rs) = AppendRune [] r @ encode rs"
proof -
  have "foldl AppendRune p rs = p @ foldl AppendRune [] rs" for p
  proof (induction rs arbitrary: p)
    case (Cons r rs)
    show ?case using Cons [of "AppendRune p r"] Cons [of "AppendRune [] r"] AppendRune_app [of p r] by simp
  qed simp
  from this [of "AppendRune [] r"] show ?thesis by (simp add: encode_def)
qed

lemma AppendRune_ne: "AppendRune [] r \<noteq> []"
  by (simp add: AppendRune_def appendRuneNonASCII_def)

lemma length_AppendRune: "ValidRune r \<Longrightarrow> length (AppendRune [] r) = nat (RuneLen r)"
  by (auto simp: AppendRune_def appendRuneNonASCII_def RuneLen_def ValidRune_def)

lemma range_encode: "list_all ValidRune rs \<Longrightarrow> map snd (range_from i (encode rs)) = rs"
proof (induction rs arbitrary: i)
  case (Cons r rs)
  then have v: "ValidRune r" by simp
  have "range_from i (encode (r # rs)) = (i, r) # range_from (i + nat (RuneLen r)) (encode rs)"
    by (subst range_from.simps)
       (simp add: encode_Cons AppendRune_ne Decode_Append [OF v] flip: length_AppendRune [OF v])
  with Cons show ?case by simp
qed (simp add: range_from.simps encode_def)

section \<open>Properties\<close>

text \<open>
  C37. UTF-8: encoding a list of valid runes with \<open>utf8.AppendRune\<close> and iterating over the result
  as \<open>range\<close> does gives the same runes back, and each decoding step consumes exactly the
  \<open>RuneLen\<close> bytes of its rune, whatever follows.
\<close>

theorem utf8_round_trip:
  assumes "list_all ValidRune rs"
  shows "map snd (range (encode rs)) = rs \<and>
    (\<forall>r \<in> set rs. \<forall>s. DecodeRuneInString (AppendRune [] r @ s) = (r, nat (RuneLen r)))"
proof (intro conjI ballI allI)
  show "map snd (range (encode rs)) = rs" by (rule range_encode [OF assms])
  fix r s assume "r \<in> set rs"
  then have "ValidRune r" using assms by (simp add: list_all_iff)
  then show "DecodeRuneInString (AppendRune [] r @ s) = (r, nat (RuneLen r))" by (rule Decode_Append)
qed

theorem utf8_round_trip_witness: "map snd (range (encode [0x41, 0xE9, 0x20AC, 0x1F600])) = [0x41, 0xE9, 0x20AC, 0x1F600]"
proof -
  have "list_all ValidRune [0x41, 0xE9, 0x20AC, 0x1F600]" by (simp add: ValidRune_def)
  from utf8_round_trip [OF this] show ?thesis by blast
qed

end
