(* ===== verification/GoStrings.thy ===== *)
theory GoStrings
  imports GoUtf8
begin

text \<open>
  The functions of package \<open>strings\<close> that the updater calls (\<open>strings/strings.go\<close>,
  \<open>unicode/graphic.go\<close>). The case tables of package \<open>unicode\<close> are data the build generates;
  \<open>unicode.ToLower\<close> and \<open>unicode.SimpleFold\<close> are therefore arguments of the functions that use
  them for non-ASCII text. An index of \<open>-1\<close> is \<open>None\<close>.
\<close>

section \<open>Space\<close>

definition asciiSpace :: "char \<Rightarrow> bool" where
  "asciiSpace c \<longleftrightarrow> byte c \<in> {0x09, 0x0A, 0x0B, 0x0C, 0x0D, 0x20}"

text \<open>A range of the Unicode tables: lowest and highest member and the stride between members.\<close>

type_synonym range16 = "nat \<times> nat \<times> nat"

definition White_Space :: "range16 list" where
  "White_Space = [(0x0009, 0x000d, 1), (0x0020, 0x0085, 101), (0x00a0, 0x1680, 5600), (0x2000, 0x200a, 1),
     (0x2028, 0x2029, 1), (0x202f, 0x205f, 48), (0x3000, 0x3000, 1)]"

text \<open>The table is short, so \<open>is16\<close> takes its linear search.\<close>

fun is16 :: "range16 list \<Rightarrow> nat \<Rightarrow> bool" where
  "is16 [] r = False"
| "is16 ((lo, hi, stride) # rs) r =
     (if r < lo then False
      else if r \<le> hi then stride = 1 \<or> (r - lo) mod stride = 0
      else is16 rs r)"

definition IsSpace :: "rune \<Rightarrow> bool" where
  "IsSpace r =
     (if r \<le> 0xFF then r \<in> {0x09, 0x0A, 0x0B, 0x0C, 0x0D, 0x20, 0x85, 0xA0}
      else r \<le> 0x3000 \<and> is16 (drop 2 White_Space) r)"

section \<open>Trimming\<close>

definition indexFunc :: "string \<Rightarrow> (rune \<Rightarrow> bool) \<Rightarrow> bool \<Rightarrow> nat option" where
  "indexFunc s f truth = map_option fst (find (\<lambda>(i, r). f r = truth) (range s))"

lemma rune_start_loop_le: "rune_start_loop s lim k \<le> k"
  by (induction k) auto

lemma DecodeLast_size:
  assumes "s \<noteq> []"
  shows "1 \<le> snd (DecodeLastRuneInString s) \<and> snd (DecodeLastRuneInString s) \<le> length s"
proof -
  let ?st = "rune_start_loop s (length s - 4) (length s - 1) - 1"
  have st: "?st < length s"
    using rune_start_loop_le [of s "length s - 4" "length s - 1"] assms by (cases s) auto
  then have "drop ?st s \<noteq> []" by simp
  from Decode_size [OF this] assms show ?thesis
    by (auto simp: DecodeLastRuneInString_def Let_def split: prod.split)
qed

function last_index_from :: "string \<Rightarrow> (rune \<Rightarrow> bool) \<Rightarrow> bool \<Rightarrow> nat \<Rightarrow> nat option" where
  "last_index_from s f truth i =
     (if i = 0 \<or> i > length s then None
      else (case DecodeLastRuneInString (take i s) of
              (r, n) \<Rightarrow> if f r = truth then Some (i - n) else last_index_from s f truth (i - n)))"
  by pat_completeness auto
termination
proof (relation "measure (\<lambda>(s, f, t, i). i)", goal_cases)
  case (2 s f truth i r n)
  then have "take i s \<noteq> []" by auto
  from DecodeLast_size [OF this] 2 show ?case by (cases "DecodeLastRuneInString (take i s)") auto
qed simp

declare last_index_from.simps [simp del]

definition lastIndexFunc :: "string \<Rightarrow> (rune \<Rightarrow> bool) \<Rightarrow> bool \<Rightarrow> nat option" where
  "lastIndexFunc s f truth = last_index_from s f truth (length s)"

definition TrimLeftFunc :: "string \<Rightarrow> (rune \<Rightarrow> bool) \<Rightarrow> string" where
  "TrimLeftFunc s f = (case indexFunc s f False of None \<Rightarrow> [] | Some i \<Rightarrow> drop i s)"

definition TrimRightFunc :: "string \<Rightarrow> (rune \<Rightarrow> bool) \<Rightarrow> string" where
  "TrimRightFunc s f =
     (case lastIndexFunc s f False of
        None \<Rightarrow> []
      | Some i \<Rightarrow>
          if byte (s ! i) \<ge> RuneSelf then take (i + snd (DecodeRuneInString (drop i s))) s
          else take (i + 1) s)"

definition TrimFunc :: "string \<Rightarrow> (rune \<Rightarrow> bool) \<Rightarrow> string" where
  "TrimFunc s f = TrimRightFunc (TrimLeftFunc s f) f"

text \<open>
  The ASCII loops of \<open>TrimSpace\<close>: skip spaces until a non-ASCII byte (\<open>Inl\<close>, with what is left)
  or another byte or the end (\<open>Inr\<close>). The second loop runs from the end of the string.
\<close>

fun skip_space :: "string \<Rightarrow> string + string" where
  "skip_space [] = Inr []"
| "skip_space (c # s) =
     (if byte c \<ge> RuneSelf then Inl (c # s) else if asciiSpace c then skip_space s else Inr (c # s))"

definition TrimSpace :: "string \<Rightarrow> string" where
  "TrimSpace s =
     (case skip_space s of
        Inl rest \<Rightarrow> TrimFunc rest IsSpace
      | Inr rest \<Rightarrow>
          (case skip_space (rev rest) of
             Inl r \<Rightarrow> TrimRightFunc (rev r) IsSpace
           | Inr r \<Rightarrow> rev r))"

section \<open>Fields\<close>

text \<open>The loop of \<open>FieldsFunc\<close> over the runes: the start of the open field and the spans found.\<close>

fun field_spans :: "(rune \<Rightarrow> bool) \<Rightarrow> (nat \<times> rune) list \<Rightarrow> nat option \<Rightarrow> nat \<Rightarrow> (nat \<times> nat) list" where
  "field_spans f [] start n = (case start of None \<Rightarrow> [] | Some st \<Rightarrow> [(st, n)])"
| "field_spans f ((i, r) # rs) start n =
     (if f r then (case start of None \<Rightarrow> field_spans f rs None n | Some st \<Rightarrow> (st, i) # field_spans f rs None n)
      else field_spans f rs (case start of None \<Rightarrow> Some i | Some st \<Rightarrow> Some st) n)"

definition FieldsFunc :: "string \<Rightarrow> (rune \<Rightarrow> bool) \<Rightarrow> string list" where
  "FieldsFunc s f = map (\<lambda>(a, b). take (b - a) (drop a s)) (field_spans f (range s) None (length s))"

text \<open>The ASCII path: skip spaces, cut at the next one, and so on.\<close>

function ascii_fields :: "string \<Rightarrow> string list" where
  "ascii_fields s =
     (let t = dropWhile asciiSpace s in
      if t = [] then [] else takeWhile (\<lambda>c. \<not> asciiSpace c) t # ascii_fields (dropWhile (\<lambda>c. \<not> asciiSpace c) t))"
  by pat_completeness auto
termination
proof (relation "measure length", goal_cases)
  case (2 s t)
  from 2(2) obtain c u where t: "t = c # u" by (metis list.exhaust)
  with 2 have "\<not> asciiSpace c" using dropWhile_Cons_hd by metis
  with t have "length (dropWhile (\<lambda>c. \<not> asciiSpace c) t) < length t" by (simp add: length_dropWhile_le less_Suc_eq_le)
  also have "length t \<le> length s" using 2 by (simp add: length_dropWhile_le)
  finally show ?case by simp
qed simp

declare ascii_fields.simps [simp del]

definition Fields :: "string \<Rightarrow> string list" where
  "Fields s = (if \<not> is_ascii s then FieldsFunc s IsSpace else ascii_fields s)"

section \<open>Case\<close>

definition to_lower :: "char \<Rightarrow> char" where
  "to_lower c = (if CHR ''A'' \<le> c \<and> c \<le> CHR ''Z'' then char_of (byte c + 32) else c)"

text \<open>
  \<open>Map\<close>: up to the first rune that changes (or an invalid byte) the string is kept as it is,
  after it every rune is mapped and encoded.
\<close>

definition map_changes :: "(rune \<Rightarrow> rune) \<Rightarrow> string \<Rightarrow> nat \<times> rune \<Rightarrow> bool" where
  "map_changes mapping s ic =
     (case ic of (i, c) \<Rightarrow>
        \<not> (mapping c = c \<and> c \<noteq> RuneError) \<and>
        \<not> (c = RuneError \<and> snd (DecodeRuneInString (drop i s)) \<noteq> 1 \<and> mapping c = c))"

definition Map :: "(rune \<Rightarrow> rune) \<Rightarrow> string \<Rightarrow> string" where
  "Map mapping s =
     (case find (map_changes mapping s) (range s) of
        None \<Rightarrow> s
      | Some (i, c) \<Rightarrow>
          (let width = (if c = RuneError then snd (DecodeRuneInString (drop i s)) else nat (RuneLen c))
           in take i s @ AppendRune [] (mapping c) @
              encode (map (\<lambda>(_, c). mapping c) (range (drop (i + width) s)))))"

definition ToLower :: "(rune \<Rightarrow> rune) \<Rightarrow> string \<Rightarrow> string" where
  "ToLower uni_lower s = (if is_ascii s then map to_lower s else Map uni_lower s)"

definition HasSuffix :: "string \<Rightarrow> string \<Rightarrow> bool" where
  "HasSuffix s suf \<longleftrightarrow> length s \<ge> length suf \<and> drop (length s - length suf) s = suf"

definition HasPrefix :: "string \<Rightarrow> string \<Rightarrow> bool" where
  "HasPrefix s pre \<longleftrightarrow> length s \<ge> length pre \<and> take (length pre) s = pre"

text \<open>
  \<open>EqualFold\<close>. \<open>fold_eq\<close> compares two runes; its loop over the orbit of \<open>SimpleFold\<close> has at most
  one turn per rune, so the number of runes is fuel enough.
\<close>

fun fold_loop :: "(rune \<Rightarrow> rune) \<Rightarrow> nat \<Rightarrow> rune \<Rightarrow> rune \<Rightarrow> rune \<Rightarrow> rune" where
  "fold_loop simple_fold 0 sr tr r = r"
| "fold_loop simple_fold (Suc n) sr tr r =
     (if r \<noteq> sr \<and> r < tr then fold_loop simple_fold n sr tr (simple_fold r) else r)"

definition ascii_fold_eq :: "nat \<Rightarrow> nat \<Rightarrow> bool" where
  "ascii_fold_eq sr tr \<longleftrightarrow> 0x41 \<le> sr \<and> sr \<le> 0x5A \<and> tr = sr + 0x20"

definition fold_eq :: "(rune \<Rightarrow> rune) \<Rightarrow> rune \<Rightarrow> rune \<Rightarrow> bool" where
  "fold_eq simple_fold sr tr =
     (if tr = sr then True
      else
        let (sr, tr) = (if tr < sr then (tr, sr) else (sr, tr)) in
        if tr < RuneSelf then ascii_fold_eq sr tr
        else fold_loop simple_fold (MaxRune + 1) sr tr (simple_fold sr) = tr)"

function equal_fold_unicode :: "(rune \<Rightarrow> rune) \<Rightarrow> string \<Rightarrow> string \<Rightarrow> bool" where
  "equal_fold_unicode simple_fold s t =
     (if s = [] then t = []
      else if t = [] then False
      else
        (case DecodeRuneInString s of
           (sr, m) \<Rightarrow>
             (case DecodeRuneInString t of
                (tr, n) \<Rightarrow> fold_eq simple_fold sr tr \<and> equal_fold_unicode simple_fold (drop m s) (drop n t))))"
  by pat_completeness auto
termination
proof (relation "measure (\<lambda>(f, s, t). length s)", goal_cases)
  case (2 f s t sr m tr n)
  then show ?case using Decode_size [of s] by (cases "DecodeRuneInString s") auto
qed simp

declare equal_fold_unicode.simps [simp del]

fun EqualFold :: "(rune \<Rightarrow> rune) \<Rightarrow> string \<Rightarrow> string \<Rightarrow> bool" where
  "EqualFold simple_fold (a # s) (b # t) =
     (if byte a \<ge> RuneSelf \<or> byte b \<ge> RuneSelf then equal_fold_unicode simple_fold (a # s) (b # t)
      else if a = b \<or> ascii_fold_eq (min (byte a) (byte b)) (max (byte a) (byte b))
      then EqualFold simple_fold s t else False)"
| "EqualFold simple_fold [] [] = True"
| "EqualFold simple_fold _ _ = False"

text \<open>\<open>strings.Join\<close>.\<close>

fun join_with :: "string \<Rightarrow> string list \<Rightarrow> string" where
  "join_with sep [] = []"
| "join_with sep [e] = e"
| "join_with sep (e # es) = e @ sep @ join_with sep es"

section \<open>ASCII text\<close>

lemma skip_space_ascii: "is_ascii s \<Longrightarrow> skip_space s = Inr (dropWhile asciiSpace s)"
  by (induction s) (auto simp: is_ascii_def)

lemma is_ascii_dropWhile: "is_ascii s \<Longrightarrow> is_ascii (dropWhile P s)"
  by (auto simp: is_ascii_def list_all_iff dest: set_dropWhileD)

lemma TrimSpace_ascii:
  "is_ascii s \<Longrightarrow> TrimSpace s = rev (dropWhile asciiSpace (rev (dropWhile asciiSpace s)))"
  by (simp add: TrimSpace_def skip_space_ascii is_ascii_dropWhile) (simp add: skip_space_ascii is_ascii_def list_all_iff
      set_dropWhileD)

text \<open>A field is a non-empty string without spaces; joined by single spaces they are found again.\<close>

definition is_field :: "string \<Rightarrow> bool" where
  "is_field e \<longleftrightarrow> e \<noteq> [] \<and> is_ascii e \<and> (\<forall>c \<in> set e. \<not> asciiSpace c)"

lemma ascii_fields_step:
  "dropWhile asciiSpace s = t \<Longrightarrow> t \<noteq> [] \<Longrightarrow>
   ascii_fields s = takeWhile (\<lambda>c. \<not> asciiSpace c) t # ascii_fields (dropWhile (\<lambda>c. \<not> asciiSpace c) t)"
  by (subst ascii_fields.simps) (simp only: Let_def if_False)

lemma ascii_fields_none: "dropWhile asciiSpace s = [] \<Longrightarrow> ascii_fields s = []"
  by (subst ascii_fields.simps) (simp only: Let_def if_True simp_thms)

lemma ascii_fields_space: "asciiSpace c \<Longrightarrow> ascii_fields (c # s) = ascii_fields s"
  by (simp add: ascii_fields.simps [of "c # s"] ascii_fields.simps [of s])

lemma ascii_fields_word:
  assumes "is_field e" "s = [] \<or> asciiSpace (hd s)"
  shows "ascii_fields (e @ s) = e # ascii_fields s"
proof -
  obtain c u where e: "e = c # u" "\<not> asciiSpace c" using assms(1) by (cases e) (auto simp: is_field_def)
  have "takeWhile (\<lambda>c. \<not> asciiSpace c) (e @ s) = e" "dropWhile (\<lambda>c. \<not> asciiSpace c) (e @ s) = s"
    using assms by (cases s; force simp: is_field_def)+
  then show ?thesis using ascii_fields_step [of "e @ s" "e @ s"] e by simp
qed

lemma ascii_fields_parts: "e \<in> set (ascii_fields s) \<Longrightarrow> e \<noteq> [] \<and> (\<forall>c \<in> set e. \<not> asciiSpace c \<and> c \<in> set s)"
proof (induction s rule: ascii_fields.induct)
  case (1 s)
  define t where "t = dropWhile asciiSpace s"
  have sub: "set t \<subseteq> set s" by (auto simp: t_def dest: set_dropWhileD)
  have "t \<noteq> []" using "1.prems" ascii_fields_none [of s] by (auto simp: t_def simp del: dropWhile_eq_Nil_conv)
  then obtain c u where t: "t = c # u" by (cases t) auto
  then have c: "\<not> asciiSpace c" using dropWhile_Cons_hd t_def by metis
  have "e = takeWhile (\<lambda>c. \<not> asciiSpace c) t \<or> e \<in> set (ascii_fields (dropWhile (\<lambda>c. \<not> asciiSpace c) t))"
    using "1.prems" ascii_fields_step [OF t_def [symmetric] \<open>t \<noteq> []\<close>] by simp
  then show ?case
  proof
    assume "e = takeWhile (\<lambda>c. \<not> asciiSpace c) t"
    then show ?thesis using t c sub by (auto dest: set_takeWhileD)
  next
    assume "e \<in> set (ascii_fields (dropWhile (\<lambda>c. \<not> asciiSpace c) t))"
    from "1.IH" [OF t_def \<open>t \<noteq> []\<close> this] sub show ?thesis by (auto dest: set_dropWhileD)
  qed
qed

lemma Fields_ascii_parts: "is_ascii s \<Longrightarrow> e \<in> set (Fields s) \<Longrightarrow> is_field e"
  using ascii_fields_parts [of e s] by (auto simp: Fields_def is_field_def is_ascii_def list_all_iff)

lemma ascii_fields_join: "list_all is_field es \<Longrightarrow> ascii_fields (join_with '' '' es) = es"
proof (induction es)
  case Nil
  then show ?case by (simp add: ascii_fields_none)
next
  case (Cons e es)
  show ?case
  proof (cases es)
    case Nil
    then show ?thesis using ascii_fields_word [of e "[]"] Cons.prems by (simp add: ascii_fields_none)
  next
    case (Cons f fs)
    have sp: "asciiSpace (CHR '' '')" by (simp add: asciiSpace_def)
    from Cons have "join_with '' '' (e # es) = e @ CHR '' '' # join_with '' '' es" by simp
    then show ?thesis
      using ascii_fields_word [of e "CHR '' '' # join_with '' '' es"] ascii_fields_space [OF sp] Cons.IH Cons.prems sp by simp
  qed
qed

lemma is_ascii_join: "list_all is_field es \<Longrightarrow> is_ascii (join_with '' '' es)"
proof (induction es)
  case (Cons e es)
  then show ?case by (cases es) (auto simp: is_ascii_def is_field_def)
qed (simp add: is_ascii_def)

lemma Fields_join: "list_all is_field es \<Longrightarrow> Fields (join_with '' '' es) = es"
  by (simp add: Fields_def is_ascii_join ascii_fields_join)

section \<open>A trimmed string has a first field\<close>

lemma Decode_prefix:
  assumes "t \<noteq> []"
  shows "fst (DecodeRuneInString t) = fst (DecodeRuneInString (t @ u)) \<or> fst (DecodeRuneInString t) = RuneError"
proof -
  have len: "1 \<le> length t" using assms by (cases t) auto
  let ?x = "utf8_first (byte (t ! 0))"
  obtain lo hi where ar: "acceptRanges (drop_bit 4 ?x) = (lo, hi)" by fastforce
  have sz: "?x < 0xF0 \<Longrightarrow> ?x AND 7 \<in> {2, 3, 4}" by (rule utf8_first_size) auto
  have z: "(t @ u) ! 0 = t ! 0" using assms by (simp add: nth_append)
  show ?thesis
    using len sz by (auto simp: DecodeRuneInString_def Let_def z ar nth_append)
qed

lemma RuneError_no_space: "\<not> IsSpace RuneError"
  by (simp add: IsSpace_def)

lemma space_ascii: "byte c < RuneSelf \<Longrightarrow> IsSpace (byte c) = asciiSpace c"
  by (auto simp: IsSpace_def asciiSpace_def)

lemma prefix_first_rune:
  assumes "t \<noteq> []" "prefix t s" "\<not> IsSpace (fst (DecodeRuneInString s))"
  shows "\<not> IsSpace (fst (DecodeRuneInString t))"
proof -
  obtain u where "s = t @ u" using assms(2) by (auto simp: prefix_def)
  with Decode_prefix [OF assms(1), of u] assms(3) RuneError_no_space show ?thesis by metis
qed

lemma TrimRight_prefix: "prefix (TrimRightFunc s f) s"
  by (auto simp: TrimRightFunc_def take_is_prefix split: option.split)

lemma range_at: "(i, r) \<in> set (range_from k s) \<Longrightarrow> k \<le> i \<and> r = fst (DecodeRuneInString (drop (i - k) s)) \<and> i - k < length s"
proof (induction k s rule: range_from.induct)
  case (1 k s)
  then have ne: "s \<noteq> []" by (auto simp: range_from.simps)
  obtain r0 n where d: "DecodeRuneInString s = (r0, n)" by fastforce
  have n: "1 \<le> n" "n \<le> length s" using Decode_size [OF ne] d by auto
  from "1.prems" consider "i = k" "r = r0" | "(i, r) \<in> set (range_from (k + n) (drop n s))"
    using ne d by (subst (asm) range_from.simps) auto
  then show ?case
  proof cases
    case 1
    then show ?thesis using d ne by simp
  next
    case 2
    from "1.IH" [OF ne d [symmetric] 2] n show ?thesis by auto
  qed
qed

lemma TrimLeft_first:
  assumes "TrimLeftFunc s f \<noteq> []"
  shows "\<not> f (fst (DecodeRuneInString (TrimLeftFunc s f)))"
proof -
  obtain i r where ir: "find (\<lambda>(i, r). f r = False) (range s) = Some (i, r)"
    using assms by (auto simp: TrimLeftFunc_def indexFunc_def split: option.splits)
  then have "(i, r) \<in> set (range s)" "\<not> f r" by (auto simp: find_Some_iff in_set_conv_nth)
  moreover have "TrimLeftFunc s f = drop i s" using ir by (simp add: TrimLeftFunc_def indexFunc_def)
  ultimately show ?thesis using range_at [of i r 0 s] by simp
qed

lemma skip_space_stop:
  "skip_space s = Inr t \<Longrightarrow> suffix t s \<and> (t \<noteq> [] \<longrightarrow> byte (hd t) < RuneSelf \<and> \<not> asciiSpace (hd t))"
  "skip_space s = Inl t \<Longrightarrow> suffix t s \<and> t \<noteq> []"
  by (induction s) (auto simp: suffix_Cons split: if_splits)

lemma TrimSpace_first:
  assumes "TrimSpace s \<noteq> []"
  shows "\<not> IsSpace (fst (DecodeRuneInString (TrimSpace s)))"
proof (cases "skip_space s")
  case (Inl rest)
  then have eq: "TrimSpace s = TrimRightFunc (TrimLeftFunc rest IsSpace) IsSpace"
    by (simp add: TrimSpace_def TrimFunc_def)
  then have "TrimLeftFunc rest IsSpace \<noteq> []" using assms TrimRight_prefix by (metis prefix_bot.extremum_uniqueI)
  from TrimLeft_first [OF this] show ?thesis
    using prefix_first_rune [OF assms, of "TrimLeftFunc rest IsSpace"] TrimRight_prefix eq by simp
next
  case (Inr rest)
  have pre: "prefix (TrimSpace s) rest"
    using Inr skip_space_stop [of "rev rest"] TrimRight_prefix prefix_order.trans
    by (fastforce simp: TrimSpace_def suffix_to_prefix split: sum.split)
  then have "rest \<noteq> []" using assms by auto
  then obtain c u where r: "rest = c # u" by (cases rest) auto
  with skip_space_stop(1) [OF Inr] have "byte c < RuneSelf" "\<not> asciiSpace c" by auto
  then have "\<not> IsSpace (fst (DecodeRuneInString rest))" using r Decode_ascii [of c u] space_ascii by simp
  then show ?thesis by (rule prefix_first_rune [OF assms pre])
qed

lemma field_spans_open: "field_spans f rs (Some st) n \<noteq> []"
proof (induction rs)
  case (Cons x rs)
  then show ?case by (cases x) simp
qed simp

lemma Fields_ne:
  assumes "s \<noteq> []" "\<not> IsSpace (fst (DecodeRuneInString s))"
  shows "Fields s \<noteq> []"
proof (cases "is_ascii s")
  case True
  obtain c u where s: "s = c # u" using assms(1) by (cases s) auto
  then have "\<not> asciiSpace c" using True assms(2) Decode_ascii [of c u] space_ascii by (simp add: is_ascii_def)
  then show ?thesis using True s ascii_fields_step [of s s] by (simp add: Fields_def)
next
  case False
  obtain r n where d: "DecodeRuneInString s = (r, n)" by fastforce
  then have "range s = (0, r) # range_from n (drop n s)" using assms(1) by (subst range_from.simps) simp
  then show ?thesis using False assms(2) d field_spans_open by (simp add: Fields_def FieldsFunc_def)
qed

lemma Fields_TrimSpace: "TrimSpace s \<noteq> [] \<Longrightarrow> Fields (TrimSpace s) \<noteq> []"
  by (rule Fields_ne [OF _ TrimSpace_first])

section \<open>Splitting at a character\<close>

text \<open>\<open>strings.Split\<close> with a separator of one byte.\<close>

fun split_on :: "char \<Rightarrow> string \<Rightarrow> string list" where
  "split_on x [] = [[]]"
| "split_on x (c # cs) =
     (if c = x then [] # split_on x cs
      else (case split_on x cs of [] \<Rightarrow> [[c]] | l # ls \<Rightarrow> (c # l) # ls))"

lemma split_on_ne [simp]: "split_on x s \<noteq> []"
  by (induction s) (auto split: list.split)

lemma join_split: "join_with [x] (split_on x s) = s"
proof (induction s)
  case (Cons c s)
  obtain l ls where "split_on x s = l # ls" by (cases "split_on x s") auto
  with Cons show ?case by (cases ls) auto
qed simp

lemma split_on_parts: "l \<in> set (split_on x s) \<Longrightarrow> x \<notin> set l"
proof (induction s arbitrary: l)
  case (Cons c s)
  then show ?case by (cases "split_on x s") (auto split: if_splits)
qed simp

lemma split_on_one: "x \<notin> set l \<Longrightarrow> split_on x l = [l]"
  by (induction l) auto

lemma split_on_append: "x \<notin> set l \<Longrightarrow> split_on x (l @ x # s) = l # split_on x s"
  by (induction l) auto

lemma split_join: "ls \<noteq> [] \<Longrightarrow> \<forall>l \<in> set ls. x \<notin> set l \<Longrightarrow> split_on x (join_with [x] ls) = ls"
proof (induction ls)
  case (Cons l ls)
  then show ?case by (cases ls) (auto simp: split_on_one split_on_append)
qed simp

end
