(* ===== verification/Exec.thy ===== *)
theory Exec
  imports OSSpec GoStrings
begin

text \<open>
  External commands and the end of the process. What a command does is not part of the
  repository: it is the argument \<open>ex\<close>, which says for an argument vector and a file system how
  the command ends, what it prints and what it leaves in the file system. The vectors run are
  recorded in the world, so that theorems can speak about which commands run and in which
  order.
\<close>

section \<open>Commands\<close>

type_synonym commands = "string list \<Rightarrow> fs \<Rightarrow> error option \<times> string \<times> fs"

definition run_cmd :: "commands \<Rightarrow> string list \<Rightarrow> world \<Rightarrow> error option \<times> string \<times> world" where
  "run_cmd ex argv w =
     (case ex argv (w_fs w) of
        (e, out, f) \<Rightarrow> (e, out, w\<lparr>w_fs := f, w_cmds := w_cmds w @ [argv]\<rparr>))"

text \<open>\<open>cmd.Run()\<close> returns the error only, \<open>Output\<close> and \<open>CombinedOutput\<close> the text too.\<close>

definition cmd_Run :: "commands \<Rightarrow> string list \<Rightarrow> world \<Rightarrow> error option \<times> world" where
  "cmd_Run ex argv w = (case run_cmd ex argv w of (e, out, w') \<Rightarrow> (e, w'))"

definition cmd_Output :: "commands \<Rightarrow> string list \<Rightarrow> world \<Rightarrow> string result \<times> world" where
  "cmd_Output ex argv w =
     (case run_cmd ex argv w of (Some e, out, w') \<Rightarrow> (Inl e, w') | (None, out, w') \<Rightarrow> (Inr out, w'))"

definition cmd_Combined :: "commands \<Rightarrow> string list \<Rightarrow> world \<Rightarrow> (error option \<times> string) \<times> world" where
  "cmd_Combined ex argv w = (case run_cmd ex argv w of (e, out, w') \<Rightarrow> ((e, out), w'))"

text \<open>A command leaves a proper file system behind.\<close>

definition sane :: "commands \<Rightarrow> bool" where
  "sane ex \<longleftrightarrow> (\<forall>argv f. wf_fs f \<longrightarrow> wf_fs (snd (snd (ex argv f))))"

section \<open>How a function ends\<close>

text \<open>
  Besides returning, a function may end the process: \<open>log.Fatalf\<close> prints and calls \<open>os.Exit(1)\<close>,
  which runs no deferred function. \<open>Crash\<close> is a panic, or a loop of the model that ran out of
  fuel.
\<close>

datatype 'a outcome = Return 'a | Exit nat | Crash

definition Fatalf :: "string \<Rightarrow> string list \<Rightarrow> error option \<Rightarrow> world \<Rightarrow> 'a outcome \<times> world" where
  "Fatalf fmt args e w = (Exit 1, printf fmt args e w)"

section \<open>Worlds that commands may have changed\<close>

text \<open>
  The counterpart of \<open>evolves\<close> for code that also prints, reads its input, sets environment
  variables and runs commands: well-formedness is kept, identity, umask and working directory
  are fixed, and records only grow.
\<close>

definition progresses :: "world \<Rightarrow> world \<Rightarrow> bool" where
  "progresses w w' \<longleftrightarrow> (w_ok w \<longrightarrow> w_ok w') \<and> suffix (w_faults w') (w_faults w) \<and>
     w_cwd w' = w_cwd w \<and> w_umask w' = w_umask w \<and> w_euid w' = w_euid w \<and>
     prefix (w_out w) (w_out w') \<and> prefix (w_cmds w) (w_cmds w') \<and> suffix (w_stdin w') (w_stdin w)"

lemma progresses_trans: "progresses w1 w2 \<Longrightarrow> progresses w2 w3 \<Longrightarrow> progresses w1 w3"
  by (auto simp: progresses_def intro: suffix_order.trans prefix_order.trans)

lemma evolves_progresses: "evolves w w' \<Longrightarrow> progresses w w'"
proof -
  assume ev: "evolves w w'"
  then have "suffix (w_faults w') (w_faults w)" unfolding evolves_def by blast
  with evolves_ok [OF ev] evolves_keeps [OF ev] show ?thesis by (simp add: progresses_def)
qed

lemmas sys_evolves = evo.R_tick evo.R_stat evo.R_mkdir evo.R_unlink evo.R_rmdir evo.R_open evo.R_creat
  evo.R_symlink evo.R_readdir evo.R_read evo.R_write evo.R_fchmod evo.R_unlinkat evo.R_removedirat evo.R_openDirAt

interpretation prog: sys_relation progresses
proof
  show "progresses w w" for w by (simp add: progresses_def)
  show "progresses w1 w2 \<Longrightarrow> progresses w2 w3 \<Longrightarrow> progresses w1 w3" for w1 w2 w3 by (rule progresses_trans)
qed (rule sys_evolves [THEN evolves_progresses])+

lemma progresses_println: "progresses w (println s w)"
  by (simp add: progresses_def println_def w_ok_def)

lemma progresses_printf: "progresses w (printf fmt args e w)"
  by (simp add: progresses_def printf_def w_ok_def)

lemma progresses_run: "sane ex \<Longrightarrow> run_cmd ex argv w = (e, out, w') \<Longrightarrow> progresses w w'"
proof -
  assume s: "sane ex" and r: "run_cmd ex argv w = (e, out, w')"
  obtain e' out' f where x: "ex argv (w_fs w) = (e', out', f)" by (metis prod_cases3)
  have "wf_fs (snd (snd (ex argv (w_fs w))))" if "wf_fs (w_fs w)" using s that by (simp add: sane_def)
  with x have "wf_fs (w_fs w) \<Longrightarrow> wf_fs f" by simp
  with r x show ?thesis by (auto simp: run_cmd_def progresses_def w_ok_def)
qed

lemma progresses_cmds:
  assumes "sane ex"
  shows "progresses w (snd (cmd_Run ex argv w))" "progresses w (snd (cmd_Output ex argv w))"
    "progresses w (snd (cmd_Combined ex argv w))"
  using progresses_run [OF assms, of argv w]
  by (auto simp: cmd_Run_def cmd_Output_def cmd_Combined_def split: prod.split option.split)

section \<open>Relations kept by the whole program\<close>

text \<open>
  The interface of what the program does to the world: first system calls, messages and the
  environment, then also commands, processes it starts and input. A relation that is kept by each
  of these is kept by every procedure built from them. The rules below follow the shape of a
  definition from its first world on, so that a procedure's frame lemma is one application of them.
\<close>

locale message_relation = sys_relation +
  assumes R_println: "R w (println s w)"
    and R_printf: "R w (printf fmt args e w)"
    and R_setenv: "R w (w\<lparr>w_env := en\<rparr>)"
begin

lemma S_bind: "R w (snd r) \<Longrightarrow> (\<And>x w'. R w w' \<Longrightarrow> R w (snd (k x w'))) \<Longrightarrow> R w (snd (case r of (x, w') \<Rightarrow> k x w'))"
  by (cases r) auto

lemma S_bind3:
  "R w (snd (snd r)) \<Longrightarrow> (\<And>x y w'. R w w' \<Longrightarrow> R w (snd (k x y w'))) \<Longrightarrow> R w (snd (case r of (x, y, w') \<Rightarrow> k x y w'))"
  by (cases r) auto

lemma S_ret: "R w v \<Longrightarrow> R w (snd (x, v))"
  by simp

lemma S_let: "R w (snd (f x)) \<Longrightarrow> R w (snd (let y = x in f y))"
  by simp

lemma S_bool: "R w (snd a) \<Longrightarrow> R w (snd b) \<Longrightarrow> R w (snd (case c of True \<Rightarrow> a | False \<Rightarrow> b))"
  by (cases c) auto

lemma S_outcome:
  "(\<And>a. R w (snd (f a))) \<Longrightarrow> (\<And>n. R w (snd (g n))) \<Longrightarrow> R w (snd h) \<Longrightarrow>
    R w (snd (case s of Return a \<Rightarrow> f a | Exit n \<Rightarrow> g n | Crash \<Rightarrow> h))"
  by (cases s) auto

lemma S_list: "R w (snd f) \<Longrightarrow> (\<And>a as. R w (snd (g a as))) \<Longrightarrow> R w (snd (case s of [] \<Rightarrow> f | a # as \<Rightarrow> g a as))"
  by (cases s) auto

lemma S_println: "R w v \<Longrightarrow> R w (println s v)" by (rule R_trans [OF _ R_println])

lemma S_printf: "R w v \<Longrightarrow> R w (printf fmt args e v)" by (rule R_trans [OF _ R_printf])

lemma S_Fatalf: "R w v \<Longrightarrow> R w (snd (Fatalf fmt args e v))" by (simp add: Fatalf_def S_printf)

lemmas S_shape = S_bind S_ret S_let S_bool S_outcome S_list R_sum R_option R_if S_println S_printf S_Fatalf

lemmas S_os = R_Stat [THEN R_trans [rotated]] R_ReadFile [THEN R_trans [rotated]]
  R_WriteFile [THEN R_trans [rotated]] R_MkdirAll [THEN R_trans [rotated]] R_RemoveAll [THEN R_trans [rotated]]
  R_Remove [THEN R_trans [rotated]] R_Create [THEN R_trans [rotated]] R_OpenTrunc [THEN R_trans [rotated]]
  R_Symlink [THEN R_trans [rotated]] R_write [THEN R_trans [rotated]] R_ReadDir [THEN R_trans [rotated]]

end

locale program_relation = message_relation +
  fixes ex :: commands
  assumes R_run_cmd: "R w (snd (snd (run_cmd ex argv w)))"
    and R_started: "R w (w\<lparr>w_cmds := w_cmds w @ [argv]\<rparr>)"
    and R_input: "suffix rest (w_stdin w) \<Longrightarrow> R w (w\<lparr>w_stdin := rest\<rparr>)"
begin

lemma R_cmd: "R w (snd (cmd_Run ex argv w))" "R w (snd (cmd_Output ex argv w))" "R w (snd (cmd_Combined ex argv w))"
  using R_run_cmd [of w argv]
  by (auto simp: cmd_Run_def cmd_Output_def cmd_Combined_def split: prod.splits option.splits)

lemmas S_calls = R_cmd [THEN R_trans [rotated]] S_os

end

text \<open>Without commands and input, only the file system, the messages and the environment change.\<close>

definition calm :: "world \<Rightarrow> world \<Rightarrow> bool" where
  "calm w w' \<longleftrightarrow> w_cmds w' = w_cmds w \<and> w_stdin w' = w_stdin w"

lemma evolves_calm: "evolves w w' \<Longrightarrow> calm w w'"
  using evolves_keeps [of w w'] by (simp add: calm_def)

interpretation calm: message_relation calm
proof
  show "calm w w" for w by (simp add: calm_def)
  show "calm w1 w2 \<Longrightarrow> calm w2 w3 \<Longrightarrow> calm w1 w3" for w1 w2 w3 by (simp add: calm_def)
qed ((rule sys_evolves [THEN evolves_calm])+, simp_all add: calm_def println_def printf_def)

text \<open>With commands that leave a proper file system, the whole program makes progress.\<close>

interpretation act: program_relation "\<lambda>w w'. sane ex \<longrightarrow> progresses w w'" ex for ex
proof
  fix w :: world and rest :: "string list"
  assume "suffix rest (w_stdin w)"
  then show "sane ex \<longrightarrow> progresses w (w\<lparr>w_stdin := rest\<rparr>)" by (simp add: progresses_def w_ok_def)
next
  fix w argv
  show "sane ex \<longrightarrow> progresses w (snd (snd (run_cmd ex argv w)))"
    using progresses_run [of ex argv w] by (cases "run_cmd ex argv w") auto
qed (use prog.R_refl prog.R_trans in \<open>auto simp: prog.R_tick prog.R_stat prog.R_mkdir prog.R_unlink prog.R_rmdir prog.R_open
    prog.R_creat prog.R_symlink prog.R_readdir prog.R_read prog.R_write prog.R_fchmod prog.R_unlinkat prog.R_removedirat
    prog.R_openDirAt progresses_println progresses_printf\<close>, simp_all add: progresses_def w_ok_def)

end
