(* ===== verification/Transaction.thy ===== *)
theory Transaction
  imports Prelude
begin

text \<open>
  Model of \<open>src/internal/transaction/transaction.go\<close>. An action is a name with a \<open>Do\<close> and an
  \<open>Undo\<close> function, either of which may be nil; a transaction is the list of registered
  actions and the list of those executed so far. The functions run over an arbitrary state
  type, which the clients (file copy, GRUB, MOTD) instantiate with the world of the
  operating system. The second half is an abstract account of what a run does and the
  contract under which a failed run is invisible.
\<close>

section \<open>Data and operations\<close>

type_synonym 's effect = "'s \<Rightarrow> error option \<times> 's"

record 's action =
  Name :: string
  Do :: "'s effect option"
  Undo :: "'s effect option"

text \<open>The slices hold pointers, so a nil entry is possible and is checked for.\<close>

record 's txn =
  actions :: "'s action option list"
  executed :: "'s action option list"

definition New :: "'s txn" where
  "New = \<lparr>actions = [], executed = []\<rparr>"

definition Add :: "'s txn \<Rightarrow> 's action option \<Rightarrow> 's txn" where
  "Add t a = (case a of None \<Rightarrow> t | Some _ \<Rightarrow> t\<lparr>actions := actions t @ [a]\<rparr>)"

text \<open>
  The loop of \<open>Rollback\<close> counts an index down over \<open>executed\<close>; here it runs over the
  reversed list. It collects the errors in the order in which they occur.
\<close>

fun rollback_loop :: "'s action option list \<Rightarrow> (string \<times> error) list \<Rightarrow> 's \<Rightarrow> (string \<times> error) list \<times> 's" where
  "rollback_loop [] errs s = (errs, s)"
| "rollback_loop (None # as) errs s = rollback_loop as errs s"
| "rollback_loop (Some a # as) errs s =
     (case Undo a of
        None \<Rightarrow> rollback_loop as errs s
      | Some undo \<Rightarrow>
          (case undo s of
             (None, s') \<Rightarrow> rollback_loop as errs s'
           | (Some e, s') \<Rightarrow> rollback_loop as (errs @ [(Name a, e)]) s'))"

definition Rollback :: "'s txn \<Rightarrow> 's \<Rightarrow> error option \<times> 's txn \<times> 's" where
  "Rollback t s =
     (let (errs, s') = rollback_loop (rev (executed t)) [] s;
          t' = t\<lparr>executed := []\<rparr>
      in (if errs \<noteq> [] then Some (RollbackErrors errs) else None, t', s'))"

fun run_loop :: "'s action option list \<Rightarrow> 's txn \<Rightarrow> 's \<Rightarrow> error option \<times> 's txn \<times> 's" where
  "run_loop [] t s = (None, t, s)"
| "run_loop (None # as) t s = run_loop as t s"
| "run_loop (Some a # as) t s =
     (case Do a of
        None \<Rightarrow> run_loop as t s
      | Some do_it \<Rightarrow>
          (case do_it s of
             (Some e, s') \<Rightarrow>
               (let (_, t', s'') = Rollback t s'
                in (Some (Errorf ''action %q failed: %w'' [Name a] (Some e)), t', s''))
           | (None, s') \<Rightarrow> run_loop as (t\<lparr>executed := executed t @ [Some a]\<rparr>) s'))"

definition Run :: "'s txn \<Rightarrow> 's \<Rightarrow> error option \<times> 's txn \<times> 's" where
  "Run t s = (let t0 = t\<lparr>executed := []\<rparr> in run_loop (actions t0) t0 s)"

definition Cleanup :: "'s txn \<Rightarrow> 's txn" where
  "Cleanup t = t\<lparr>actions := [], executed := []\<rparr>"

section \<open>What a run does, abstractly\<close>

text \<open>
  Only actions that are there and have a \<open>Do\<close> take part: \<open>live\<close> lists them. \<open>forward\<close> runs
  the \<open>Do\<close>s until one fails and says which were done; \<open>unwind\<close> applies the \<open>Undo\<close>s of a list
  of actions, last action first, whatever they return.
\<close>

definition live :: "'s action option list \<Rightarrow> 's action list" where
  "live as = concat (map (\<lambda>x. case x of None \<Rightarrow> [] | Some a \<Rightarrow> if Do a = None then [] else [a]) as)"

fun forward :: "'s action list \<Rightarrow> 's \<Rightarrow> 's action list \<times> (string \<times> error) option \<times> 's" where
  "forward [] s = ([], None, s)"
| "forward (a # as) s =
     (case the (Do a) s of
        (Some e, s') \<Rightarrow> ([], Some (Name a, e), s')
      | (None, s') \<Rightarrow> (let (d, r, s'') = forward as s' in (a # d, r, s'')))"

definition undo_step :: "'s action \<Rightarrow> 's \<Rightarrow> 's" where
  "undo_step a s = (case Undo a of None \<Rightarrow> s | Some u \<Rightarrow> snd (u s))"

definition undo_errors :: "'s action \<Rightarrow> 's \<Rightarrow> (string \<times> error) list" where
  "undo_errors a s =
     (case Undo a of None \<Rightarrow> [] | Some u \<Rightarrow> (case fst (u s) of None \<Rightarrow> [] | Some e \<Rightarrow> [(Name a, e)]))"

fun unwind :: "'s action list \<Rightarrow> 's \<Rightarrow> 's" where
  "unwind [] s = s"
| "unwind (a # as) s = undo_step a (unwind as s)"

section \<open>Refinement of the run to its abstract account\<close>

lemma live_simps [simp]:
  "live [] = []"
  "live (None # as) = live as"
  "live (Some a # as) = (if Do a = None then live as else a # live as)"
  by (auto simp: live_def)

lemma live_append [simp]: "live (as @ bs) = live as @ live bs"
  by (simp add: live_def)

lemma unwind_append: "unwind (as @ bs) s = unwind as (unwind bs s)"
  by (induction as) auto

lemma snd_rollback_loop: "snd (rollback_loop (rev (map Some as)) errs s) = unwind as s"
proof (induction as arbitrary: errs s rule: rev_induct)
  case Nil
  then show ?case by simp
next
  case (snoc a as)
  then show ?case
    by (auto simp: undo_step_def unwind_append split: option.splits prod.splits)
qed

lemma Rollback_unwind:
  "executed t = map Some as \<Longrightarrow> snd (Rollback t s) = (t\<lparr>executed := []\<rparr>, unwind as s)"
  using snd_rollback_loop [of as "[]" s] by (auto simp: Rollback_def split: prod.splits)

lemma run_loop_forward:
  assumes "executed t = map Some done"
  shows "run_loop as t s =
    (case forward (live as) s of
       (d, None, s') \<Rightarrow> (None, t\<lparr>executed := map Some (done @ d)\<rparr>, s')
     | (d, Some (n, e), s') \<Rightarrow>
         (Some (Errorf ''action %q failed: %w'' [n] (Some e)), t\<lparr>executed := []\<rparr>,
          unwind (done @ d) s'))"
  using assms
proof (induction as t s arbitrary: "done" rule: run_loop.induct)
  case (1 t s)
  then have "t\<lparr>executed := map Some done\<rparr> = t" by simp
  then show ?case by simp
next
  case (2 as t s)
  then show ?case by simp
next
  case (3 a as t s)
  show ?case
  proof (cases "Do a")
    case None
    with 3 show ?thesis by simp
  next
    case (Some f)
    obtain r s' where fs: "f s = (r, s')" by fastforce
    show ?thesis
    proof (cases r)
      case None
      have "executed (t\<lparr>executed := executed t @ [Some a]\<rparr>) = map Some (done @ [a])"
        using "3.prems" by simp
      from "3.IH"(2) [OF Some fs [symmetric] None this] show ?thesis
        using Some fs None by (auto split: prod.splits option.splits)
    next
      case (Some e)
      with Rollback_unwind [OF "3.prems", of s'] \<open>Do a = Some f\<close> fs show ?thesis
        by (auto split: prod.splits)
    qed
  qed
qed

section \<open>Rollback, entry by entry\<close>

text \<open>
  \<open>present\<close> drops the nil entries; \<open>unwind_errors\<close> is the list of errors that undoing a list of
  actions meets, each \<open>Undo\<close> run in the state that the later actions' \<open>Undo\<close>s left.
\<close>

definition present :: "'s action option list \<Rightarrow> 's action list" where
  "present as = concat (map (\<lambda>x. case x of None \<Rightarrow> [] | Some a \<Rightarrow> [a]) as)"

fun unwind_errors :: "'s action list \<Rightarrow> 's \<Rightarrow> (string \<times> error) list" where
  "unwind_errors [] s = []"
| "unwind_errors (a # as) s = unwind_errors as s @ undo_errors a (unwind as s)"

lemma present_simps [simp]:
  "present [] = []" "present (None # as) = present as" "present (Some a # as) = a # present as"
  "present (as @ bs) = present as @ present bs" "present (map Some cs) = cs"
  by (auto simp: present_def comp_def)

lemma unwind_errors_append:
  "unwind_errors (as @ bs) s = unwind_errors bs s @ unwind_errors as (unwind bs s)"
  by (induction as) (auto simp: unwind_append)

lemma rollback_loop_unwind:
  "rollback_loop (rev as) errs s = (errs @ unwind_errors (present as) s, unwind (present as) s)"
proof (induction as arbitrary: errs s rule: rev_induct)
  case Nil
  then show ?case by simp
next
  case (snoc x as)
  then show ?case
    by (cases x)
       (auto simp: undo_step_def undo_errors_def unwind_append unwind_errors_append
             split: option.splits prod.splits)
qed

lemma forward_done_prefix: "forward as s = (d, r, s') \<Longrightarrow> \<exists>rest. as = d @ rest \<and> (r = None \<longleftrightarrow> rest = [])"
  by (induction as s arbitrary: d r s' rule: forward.induct)
     (auto split: prod.splits option.splits)

lemma Run_forward:
  "Run t s =
    (case forward (live (actions t)) s of
       (d, None, s') \<Rightarrow> (None, t\<lparr>executed := map Some d\<rparr>, s')
     | (d, Some (n, e), s') \<Rightarrow>
         (Some (Errorf ''action %q failed: %w'' [n] (Some e)), t\<lparr>executed := []\<rparr>, unwind d s'))"
  unfolding Run_def Let_def
  by (subst run_loop_forward [of _ "[]"]) (auto split: prod.split option.split)

section \<open>Atomicity\<close>

text \<open>
  The contract under which a failed run cannot be seen. \<open>same\<close> compares two states by
  what is observed of them; \<open>ready as s\<close> says that the actions \<open>as\<close> can be run from \<open>s\<close>: the first of them, if it
  succeeds, leaves the others ready and is taken back by its \<open>Undo\<close>, and if it fails it has
  left the observed state as it was.
\<close>

locale compensable =
  fixes same :: "'s \<Rightarrow> 's \<Rightarrow> bool" and ready :: "'s action list \<Rightarrow> 's \<Rightarrow> bool"
  assumes ready_Do: "ready (a # as) s \<Longrightarrow> \<exists>f. Do a = Some f"
    and ready_next: "ready (a # as) s \<Longrightarrow> Do a = Some f \<Longrightarrow> f s = (None, s') \<Longrightarrow> ready as s'"
    and Do_fails: "ready (a # as) s \<Longrightarrow> Do a = Some f \<Longrightarrow> f s = (Some e, s') \<Longrightarrow> same s s'"
    and Undo_Do: "ready (a # as) s \<Longrightarrow> Do a = Some f \<Longrightarrow> f s = (None, s') \<Longrightarrow> same s' s''
                    \<Longrightarrow> same s (undo_step a s'')"
begin

lemma unwind_forward:
  assumes "ready as s" "forward as s = (d, r, s')" "r \<noteq> None"
  shows "same s (unwind d s')"
  using assms
proof (induction as arbitrary: s d)
  case (Cons a as)
  from ready_Do [OF Cons.prems(1)] obtain f where f: "Do a = Some f" by blast
  obtain r1 s1 where fs: "f s = (r1, s1)" by fastforce
  show ?case
  proof (cases r1)
    case (Some e)
    with Do_fails [OF Cons.prems(1) f] Cons.prems(2) f fs show ?thesis by auto
  next
    case None
    then obtain d1 where d1: "forward as s1 = (d1, r, s')" "d = a # d1"
      using Cons.prems(2) f fs by (auto split: prod.splits)
    have "same s1 (unwind d1 s')"
      using ready_next [OF Cons.prems(1) f] fs None by (intro Cons.IH d1(1) Cons.prems(3)) simp
    then show ?thesis using Undo_Do [OF Cons.prems(1) f] fs None d1(2) by auto
  qed
qed simp

lemma Run_atomic:
  assumes "ready (live (actions t)) s" "Run t s = (Some e, t', s')"
  shows "same s s'"
proof -
  obtain d r s1 where fw: "forward (live (actions t)) s = (d, r, s1)" by (metis prod_cases3)
  with assms(2) have "r \<noteq> None" "s' = unwind d s1"
    by (auto simp: Run_forward split: option.splits prod.splits)
  with unwind_forward [OF assms(1) fw] show ?thesis by simp
qed

end

section \<open>Properties\<close>

text \<open>
  C1. \<open>Transaction.Run\<close> executes the \<open>Do\<close> of the registered actions in order of registration,
  skipping nil actions and nil \<open>Do\<close>s. If all succeed it returns nil and remembers exactly
  the actions executed. At the first failure it runs no further \<open>Do\<close>, applies the \<open>Undo\<close>s of
  exactly the actions already executed, last first (not that of the failing action), forgets
  them, and returns the wrapped error, whatever the \<open>Undo\<close>s return.
\<close>

theorem Run_refines_forward:
  "Run t s =
    (case forward (live (actions t)) s of
       (d, None, s') \<Rightarrow> (None, t\<lparr>executed := map Some d\<rparr>, s')
     | (d, Some (n, e), s') \<Rightarrow>
         (Some (Errorf ''action %q failed: %w'' [n] (Some e)), t\<lparr>executed := []\<rparr>, unwind d s'))"
  by (rule Run_forward)

text \<open>
  C11. \<open>Rollback\<close> applies the \<open>Undo\<close> of every executed action, last first, and does not stop at
  an error: the merged error lists every failing \<open>Undo\<close> in the order in which they ran, and is
  nil exactly when none failed. Afterwards nothing counts as executed, so that a second
  \<open>Rollback\<close> does nothing and returns nil.
\<close>

theorem Rollback_runs_all_undos:
  "Rollback t s =
     (let errs = unwind_errors (present (executed t)) s
      in (if errs = [] then None else Some (RollbackErrors errs), t\<lparr>executed := []\<rparr>,
          unwind (present (executed t)) s)) \<and>
   (case Rollback t s of (_, t', s') \<Rightarrow> Rollback t' s' = (None, t', s'))"
  by (simp add: Rollback_def Let_def rollback_loop_unwind)

end
