(* ===== verification/Fileops.thy ===== *)
theory Fileops
  imports OSSpec Transaction
begin

text \<open>
  Model of \<open>src/internal/fileops/fileops.go\<close>: copying a file or a directory tree, and the copy
  actions of a transaction. The first half are the definitions; the second half shows what a
  copy does to the file system and that the registered actions can be taken back.
\<close>

section \<open>Definitions\<close>

record FileMapping =
  Src :: string
  Dst :: string

record Config =
  FileMappings :: "FileMapping list"

definition CopyFile :: "string \<Rightarrow> string \<Rightarrow> world \<Rightarrow> error option \<times> world" where
  "CopyFile src0 dst0 w =
     (let src = Clean src0; dst = Clean dst0 in
      case Stat src w of
        (Inl e, w1) \<Rightarrow> (Some (Errorf ''stat src %s: %w'' [src] (Some e)), w1)
      | (Inr sfi, w1) \<Rightarrow>
          if is_dir sfi then (Some (Errorf ''source %s is a directory'' [src] None), w1)
          else
            (case MkdirAll (Dir dst) 0x1ED w1 of
               (Some e, w2) \<Rightarrow> (Some (Errorf ''mkdir dst dir %s: %w'' [Dir dst] (Some e)), w2)
             | (None, w2) \<Rightarrow>
                 (case Open src w2 of
                    (Inl e, w3) \<Rightarrow> (Some (Errorf ''open src %s: %w'' [src] (Some e)), w3)
                  | (Inr inp, w3) \<Rightarrow>
                      (case Create dst w3 of
                         (Inl e, w4) \<Rightarrow> (Some (Errorf ''create dst %s: %w'' [dst] (Some e)), w4)
                       | (Inr out, w4) \<Rightarrow>
                           (case io_Copy dst out src inp w4 of
                              (Some e, w5) \<Rightarrow> (Some (Errorf ''copy %s -> %s: %w'' [src, dst] (Some e)), w5)
                            | (None, w5) \<Rightarrow>
                                (case sys_fchmod out (perm_of sfi) w5 of
                                   (Some e, w6) \<Rightarrow>
                                     (Some (Errorf ''chmod %s: %w'' [dst] (Some (PathError ''chmod'' dst e))), w6)
                                 | (None, w6) \<Rightarrow> (None, w6)))))))"

text \<open>The function that \<open>CopyDir\<close> passes to \<open>filepath.Walk\<close>.\<close>

definition copy_visit :: "string \<Rightarrow> string \<Rightarrow> walk_fn" where
  "copy_visit src dst path info walkErr w =
     (case walkErr of
        Some e \<Rightarrow> (Some e, w)
      | None \<Rightarrow>
          (case Rel src path of
             Inl e \<Rightarrow> (Some e, w)
           | Inr rel \<Rightarrow>
               (let target = Join [dst, rel] in
                case info of
                  None \<Rightarrow> (Some NilDeref, w)
                | Some n \<Rightarrow>
                    if is_dir n then MkdirAll target (perm_of n) w else CopyFile path target w)))"

definition CopyDir :: "string \<Rightarrow> string \<Rightarrow> world \<Rightarrow> error option \<times> world" where
  "CopyDir src0 dst0 w =
     (let src = Clean src0; dst = Clean dst0 in
      case Stat src w of
        (Inl e, w1) \<Rightarrow> (Some (Errorf ''stat src %s: %w'' [src] (Some e)), w1)
      | (Inr sfi, w1) \<Rightarrow>
          if \<not> is_dir sfi then (Some (Errorf ''source %s is not a directory'' [src] None), w1)
          else
            (case Walk (fs_fuel w1) src (copy_visit src dst) w1 of
               (Some e, w2) \<Rightarrow> (Some (Errorf ''copydir %s -> %s: %w'' [src, dst] (Some e)), w2)
             | (None, w2) \<Rightarrow> (None, w2)))"

definition copy_Do :: "string \<Rightarrow> string \<Rightarrow> world effect" where
  "copy_Do s d w =
     (case Stat s w of
        (Inl e, w1) \<Rightarrow> (Some (Errorf ''stat source %s: %w'' [s] (Some e)), w1)
      | (Inr info, w1) \<Rightarrow>
          (case RemoveAll d w1 of
             (_, w2) \<Rightarrow> if is_dir info then CopyDir s d w2 else CopyFile s d w2))"

definition copy_Undo :: "string \<Rightarrow> world effect" where
  "copy_Undo d w =
     (case RemoveAll d w of
        (Some e, w1) \<Rightarrow> (Some (Errorf ''undo remove %s: %w'' [d] (Some e)), w1)
      | (None, w1) \<Rightarrow> (None, w1))"

definition copy_action :: "FileMapping \<Rightarrow> world action" where
  "copy_action m =
     (let src = Clean (Src m); dst = Clean (Dst m) in
      \<lparr>Name = ''copy '' @ src @ '' -> '' @ dst, Do = Some (copy_Do src dst), Undo = Some (copy_Undo dst)\<rparr>)"

text \<open>The transaction and the configuration are passed as pointers.\<close>

definition RegisterCopyActions ::
  "world txn option \<Rightarrow> Config option \<Rightarrow> error option \<times> world txn option" where
  "RegisterCopyActions txn cfg =
     (case (txn, cfg) of
        (Some t, Some c) \<Rightarrow>
          (None, Some (foldl (\<lambda>t m. Add t (Some (copy_action m))) t (FileMappings c)))
      | _ \<Rightarrow> (Some (Errorf ''nil txn or cfg'' [] None), txn))"

section \<open>Frames\<close>

context sys_relation
begin

lemma R_CopyFile: "R w (snd (CopyFile src dst w))"
  unfolding CopyFile_def Let_def
  by (intro R_shape R_Stat R_MkdirAll R_Open R_Create R_io_Copy R_fchmod)

lemma R_copy_visit: "R w (snd (copy_visit src dst p i e w))"
  unfolding copy_visit_def Let_def by (intro R_shape R_MkdirAll R_CopyFile)

lemma R_CopyDir: "R w (snd (CopyDir src dst w))"
  unfolding CopyDir_def Let_def by (intro R_shape R_Stat R_Walk R_copy_visit)

lemma R_copy_Do: "R w (snd (copy_Do s d w))"
  unfolding copy_Do_def by (intro R_shape R_Stat R_RemoveAll R_CopyDir R_CopyFile)

lemma R_copy_Undo: "R w (snd (copy_Undo d w))"
  unfolding copy_Undo_def by (intro R_shape R_RemoveAll)

end

section \<open>Copying a file\<close>

lemma Clean_apath: "list_all name_ok ps \<Longrightarrow> Clean (apath ps) = apath ps"
  by (simp add: Clean_render normal_names)

lemma Dir_apath: "list_all name_ok (ps @ [x]) \<Longrightarrow> Dir (apath (ps @ [x])) = apath ps"
  by (simp only: Dir_render normal_names)

text \<open>What the copy makes of the node at a path: \<open>graft um ps qs f f'\<close> says that \<open>f'\<close> is \<open>f\<close> with
  the subtree at \<open>qs\<close> replaced by a copy of the subtree at \<open>ps\<close>.\<close>

fun copy_node :: "perm \<Rightarrow> node \<Rightarrow> node" where
  "copy_node um (DirN m) = DirN (mkdir_mode um m)"
| "copy_node um n = n"

definition graft :: "perm \<Rightarrow> path \<Rightarrow> path \<Rightarrow> fs \<Rightarrow> fs \<Rightarrow> bool" where
  "graft um ps qs f f' \<longleftrightarrow>
     (\<forall>p. lookup f' p = (if prefix qs p then map_option (copy_node um) (lookup f (ps @ drop (length qs) p)) else lookup f p))"

text \<open>The file at \<open>qs\<close> is written, after its parents were made.\<close>

lemma CopyFile_ok:
  assumes "w_ok w" "w_faults w = []" "lookup (w_fs w) ps = Some (FileN m b)" "fpath (w_fs w) qs"
    and "lookup (w_fs w) qs = None \<or> (\<exists>m' b'. lookup (w_fs w) qs = Some (FileN m' b'))" "ps \<noteq> qs"
  obtains w' where "CopyFile (apath ps) (apath qs) w = (None, w')" "evolves w w'"
    "\<And>p. lookup (w_fs w') p =
       (if p = qs then Some (FileN m b)
        else if strict_prefix p qs \<and> lookup (w_fs w) p = None
        then Some (DirN (mkdir_mode (w_umask w) 0x1ED)) else lookup (w_fs w) p)"
proof -
  let ?f = "w_fs w"
  obtain qd x where qs: "qs = qd @ [x]" using assms(4) by (cases qs rule: rev_cases) (auto simp: fpath_def)
  have wf: "wf_fs ?f" using assms(1) by (simp add: w_ok_def)
  have nq: "list_all name_ok (qd @ [x])" using fpath_names [OF assms(4)] qs by simp
  have np: "list_all name_ok ps" by (rule wf_fs_names [OF wf assms(3)])
  have dq: "dpath ?f qd" using assms(4) qs by (simp add: fpath_def)
  have st: "Stat (apath ps) w = (Inr (FileN m b), w)" by (rule Stat_present [OF assms(1,2,3)]) auto
  obtain r w2 where mk: "MkdirAll (apath qd) 0x1ED w = (r, w2)" by fastforce
  note q2 = MkdirAll_quiet [OF assms(1) dq assms(2) mk]
  have um: "w_umask w2 = w_umask w" using evo.R_MkdirAll [of w "apath qd" "0x1ED"] mk by (auto dest: evolves_keeps)
  have ps2: "lookup (w_fs w2) ps = Some (FileN m b)" using q2(5) [of ps] assms(3) by simp
  have qs2: "lookup (w_fs w2) qs = lookup ?f qs" using q2(5) [of qs] by (auto simp: qs)
  have op: "Open (apath ps) w2 = (Inr ps, w2)" by (rule Open_present [OF q2(2,3) ps2]) simp
  obtain m' where cr: "Create (apath qs) w2 = (Inr qs, w2\<lparr>w_fs := store qs (FileN m' []) (w_fs w2)\<rparr>)"
    using Create_quiet [OF q2(2,3), of qs] q2(4) nq qs assms(5) qs2 by auto
  define w' where "w' = w2\<lparr>w_fs := store qs (FileN m b) (store qs (FileN m' b) (store qs (FileN m' []) (w_fs w2)))\<rparr>"
  have ne: "qs \<noteq> []" by (simp add: qs)
  have "CopyFile (apath ps) (apath qs) w = (None, w')"
    using st mk q2(1,3) op cr ps2 assms(6) ne nq
    by (simp add: CopyFile_def Clean_apath [OF np] Clean_apath [OF nq] qs Dir_apath Let_def io_Copy_def
        sys_read_def sys_write_def sys_fchmod_def w'_def)
  moreover have "evolves w w'" using evo.R_CopyFile [of w "apath ps" "apath qs"] calculation by simp
  moreover have "lookup (w_fs w') p =
       (if p = qs then Some (FileN m b)
        else if strict_prefix p qs \<and> lookup ?f p = None
        then Some (DirN (mkdir_mode (w_umask w) 0x1ED)) else lookup ?f p)" for p
    using q2(5) [of p] ne by (auto simp: w'_def qs strict_prefix_def)
  ultimately show ?thesis using that by blast
qed

section \<open>Copying a tree\<close>

text \<open>Two paths neither of which is on the way to the other; a subtree without links.\<close>

definition apart :: "path \<Rightarrow> path \<Rightarrow> bool" where
  "apart a b \<longleftrightarrow> \<not> prefix a b \<and> \<not> prefix b a"

definition plain :: "fs \<Rightarrow> path \<Rightarrow> bool" where
  "plain f p \<longleftrightarrow> (\<forall>s. not_link f (p @ s))"

lemma apart_below: "apart a b \<Longrightarrow> \<not> prefix (b @ r) (a @ s)"
  unfolding apart_def by (metis append_prefixD prefix_same_cases prefixI)

lemma apart_sym: "apart a b \<Longrightarrow> apart b a"
  by (auto simp: apart_def)

lemma plain_child: "plain f p \<Longrightarrow> plain f (p @ s)"
  by (simp add: plain_def)

lemma plain_node: "plain f p \<Longrightarrow> lookup f p = Some n \<Longrightarrow> n \<noteq> LinkN t"
  unfolding plain_def not_link_def by (metis append_Nil2)

lemma copy_visit_below:
  assumes "list_all name_ok (a @ r)" "list_all name_ok (b @ r)"
  shows "copy_visit (apath a) (apath b) (apath (a @ r)) (Some n) None w =
    (if is_dir n then MkdirAll (apath (b @ r)) (perm_of n) w else CopyFile (apath (a @ r)) (apath (b @ r)) w)"
  using Join_Rel_below [OF normal_names [OF assms(1)] normal_names [OF assms(2)]]
  by (auto simp: copy_visit_def)

text \<open>
  The claim for one call of \<open>walk\<close> below the roots \<open>a\<close> and \<open>b\<close>, with fuel for the subtree: it
  returns nil and has grafted the subtree.
\<close>

definition can_copy :: "path \<Rightarrow> path \<Rightarrow> path \<Rightarrow> world \<Rightarrow> bool" where
  "can_copy a b r w \<longleftrightarrow> w_ok w \<and> w_faults w = [] \<and> plain (w_fs w) (a @ r) \<and> lookup (w_fs w) (a @ r) \<noteq> None \<and>
     lookup (w_fs w) (b @ r) = None \<and> dir_at (w_fs w) (butlast (b @ r)) \<and>
     list_all name_ok (a @ r) \<and> list_all name_ok (b @ r)"

definition walk_copies :: "path \<Rightarrow> path \<Rightarrow> nat \<Rightarrow> bool" where
  "walk_copies a b n \<longleftrightarrow> (\<forall>r w. r \<noteq> [] \<longrightarrow> can_copy a b r w \<longrightarrow> tsize (w_fs w) (a @ r) \<le> n \<longrightarrow>
     (\<exists>w'. walk n (copy_visit (apath a) (apath b)) (apath (a @ r)) (the (lookup (w_fs w) (a @ r))) w = (None, w') \<and>
       evolves w w' \<and> graft (w_umask w) (a @ r) (b @ r) (w_fs w) (w_fs w')))"

lemma walk_names_copy:
  assumes ap: "apart a b" and wc: "walk_copies a b n"
    and "distinct ns" "w_ok w" "w_faults w = []" "plain (w_fs w) (a @ r)" "dir_at (w_fs w) (b @ r)"
    and "list_all name_ok (a @ r)" "list_all name_ok (b @ r)" "list_all name_ok ns"
    and "\<And>x. x \<in> set ns \<Longrightarrow> lookup (w_fs w) (a @ r @ [x]) \<noteq> None \<and> lookup (w_fs w) (b @ r @ [x]) = None \<and>
      tsize (w_fs w) (a @ r @ [x]) \<le> n"
  shows "\<exists>w'. walk_names n (copy_visit (apath a) (apath b)) (apath (a @ r)) ns w = (None, w') \<and> evolves w w' \<and>
    (\<forall>p. lookup (w_fs w') p = (if \<exists>x \<in> set ns. prefix (b @ r @ [x]) p
       then map_option (copy_node (w_umask w)) (lookup (w_fs w) (a @ drop (length b) p)) else lookup (w_fs w) p))"
  using assms(3-)
proof (induction ns arbitrary: w)
  case (Cons x ns)
  let ?f = "w_fs w" and ?rx = "r @ [x]" and ?fn = "copy_visit (apath a) (apath b)"
  have x: "lookup ?f (a @ ?rx) \<noteq> None" "lookup ?f (b @ ?rx) = None" "tsize ?f (a @ ?rx) \<le> n" "name_ok x"
    using Cons.prems(9) [of x] Cons.prems(8) by auto
  have nm: "list_all name_ok (a @ ?rx)" "list_all name_ok (b @ ?rx)" using Cons.prems(6,7) x(4) by auto
  have bl: "butlast (b @ ?rx) = b @ r" by (simp flip: append_assoc)
  have "can_copy a b ?rx w"
    using Cons.prems(2-5) x nm bl plain_child [of ?f "a @ r" "[x]"] by (simp add: can_copy_def)
  with wc x(3) obtain w1 where w1: "walk n ?fn (apath (a @ ?rx)) (the (lookup ?f (a @ ?rx))) w = (None, w1)"
    "evolves w w1" "graft (w_umask w) (a @ ?rx) (b @ ?rx) ?f (w_fs w1)"
    unfolding walk_copies_def by blast
  obtain nd where nd: "lookup ?f (a @ ?rx) = Some nd" using x(1) by auto
  have "plain ?f (a @ ?rx)" using plain_child [OF Cons.prems(4), of "[x]"] by simp
  then have ls: "Lstat (Join [apath (a @ r), x]) w = (Inr nd, w)"
    using Stat_present(2) [OF Cons.prems(2,3) nd] plain_node [OF _ nd] Join_apath [of "a @ r" x] nm(1) by simp
  have g: "lookup (w_fs w1) p = (if prefix (b @ ?rx) p then map_option (copy_node (w_umask w)) (lookup ?f (a @ drop (length b) p)) else lookup ?f p)" for p
    using w1(3) by (auto simp: graft_def prefix_def)
  have src: "lookup (w_fs w1) (a @ s) = lookup ?f (a @ s)" for s using g [of "a @ s"] apart_below [OF ap] by simp
  have ok1: "w_ok w1" "w_faults w1 = []" "w_umask w1 = w_umask w"
    using w1(2) Cons.prems(2,3) by (auto dest: evolves_ok evolves_keeps)
  have pl1: "plain (w_fs w1) (a @ r)" "dir_at (w_fs w1) (b @ r)"
    using Cons.prems(4,5) g [of "b @ r"] by (simp_all add: plain_def not_link_def src dir_at_def)
  have ch1: "lookup (w_fs w1) (a @ r @ [y]) \<noteq> None \<and> lookup (w_fs w1) (b @ r @ [y]) = None \<and>
      tsize (w_fs w1) (a @ r @ [y]) \<le> n" if y: "y \<in> set ns" for y
  proof -
    have "tsize (w_fs w1) (a @ r @ [y]) \<le> tsize ?f (a @ r @ [y])"
      by (rule tsize_mono) (auto simp: prefix_def src)
    with Cons.prems(9) [of y] Cons.prems(1) g [of "b @ r @ [y]"] src y show ?thesis by auto
  qed
  obtain w2 where w2: "walk_names n ?fn (apath (a @ r)) ns w1 = (None, w2)" "evolves w1 w2"
    "\<And>p. lookup (w_fs w2) p = (if \<exists>x \<in> set ns. prefix (b @ r @ [x]) p
       then map_option (copy_node (w_umask w)) (lookup (w_fs w1) (a @ drop (length b) p)) else lookup (w_fs w1) p)"
    using Cons.IH [OF _ ok1(1,2) pl1 Cons.prems(6,7) _ ch1] Cons.prems(1,8) ok1(3) by auto
  have "walk_names n ?fn (apath (a @ r)) (x # ns) w = (None, w2)"
    using ls w1(1) w2(1) nd Join_apath [of "a @ r" x] nm(1) by (simp add: Let_def)
  moreover have "lookup (w_fs w2) p = (if \<exists>y \<in> set (x # ns). prefix (b @ r @ [y]) p
       then map_option (copy_node (w_umask w)) (lookup ?f (a @ drop (length b) p)) else lookup ?f p)" for p
    using w2(3) [of p] g [of p] src by auto
  ultimately show ?case using evolves_trans [OF w1(2) w2(2)] by blast
qed simp

text \<open>A directory: after the target directory is made, the children are grafted one by one.\<close>

lemma walk_children_copy:
  assumes ap: "apart a b" and wc: "walk_copies a b n"
    and "w_ok w" "w_faults w = []" "plain (w_fs w) (a @ r)" "lookup (w_fs w) (a @ r) = Some (DirN m)"
    and "list_all name_ok (a @ r)" "list_all name_ok (b @ r)" "a @ r \<noteq> []"
    and "lookup (w_fs w) (b @ r) = None" "tsize (w_fs w) (a @ r) \<le> Suc n"
    and w2: "evolves w w2" "\<And>p. lookup (w_fs w2) p =
      (if prefix p (b @ r) \<and> lookup (w_fs w) p = None then Some (DirN d) else lookup (w_fs w) p)"
  shows "\<exists>w'. walk_names n (copy_visit (apath a) (apath b)) (apath (a @ r)) (sort (children (w_fs w) (a @ r))) w2 = (None, w') \<and>
    evolves w2 w' \<and>
    (\<forall>p. lookup (w_fs w') p =
       (if strict_prefix (b @ r) p then map_option (copy_node (w_umask w)) (lookup (w_fs w) (a @ drop (length b) p)) else lookup (w_fs w2) p))"
proof -
  let ?f = "w_fs w" and ?ns = "children (w_fs w) (a @ r)"
  have wf: "wf_fs ?f" using assms(3) by (simp add: w_ok_def)
  have src: "lookup (w_fs w2) (a @ s) = lookup ?f (a @ s)" for s
  proof -
    have "\<not> prefix (a @ s) (b @ r)" using apart_below [OF apart_sym [OF ap]] by simp
    then show ?thesis using w2(2) by simp
  qed
  have ok2: "w_ok w2" "w_faults w2 = []" "w_umask w2 = w_umask w"
    using w2(1) assms(3,4) by (auto dest: evolves_ok evolves_keeps)
  have d2: "dir_at (w_fs w2) (b @ r)" using w2(2) [of "b @ r"] assms(10) by (simp add: dir_at_def)
  have pl2: "plain (w_fs w2) (a @ r)" using assms(5) by (simp add: plain_def not_link_def src)
  have absent: "lookup ?f p = None" if "prefix (b @ r) p" for p
    using wf_fs_absent [OF wf assms(10)] that by (auto simp: prefix_def)
  have ch: "lookup (w_fs w2) (a @ r @ [x]) \<noteq> None \<and> lookup (w_fs w2) (b @ r @ [x]) = None \<and>
      tsize (w_fs w2) (a @ r @ [x]) \<le> n" if x: "x \<in> set (sort ?ns)" for x
  proof -
    have "tsize (w_fs w2) ((a @ r) @ [x]) \<le> tsize ?f ((a @ r) @ [x])"
      by (rule tsize_mono) (auto simp: prefix_def src)
    also have "\<dots> < tsize ?f (a @ r)" using assms(6,9) by (intro tsize_child) auto
    finally have "tsize (w_fs w2) (a @ r @ [x]) \<le> n" using assms(11) by simp
    moreover have "lookup (w_fs w2) (b @ r @ [x]) = None" using w2(2) [of "b @ r @ [x]"] absent by simp
    ultimately show ?thesis using x set_children [of ?f "a @ r"] src [of "r @ [x]"] by auto
  qed
  have "list_all name_ok (sort ?ns)" using children_names [OF wf] by (simp add: list_all_iff)
  from walk_names_copy [OF ap wc _ ok2(1,2) pl2 d2 assms(7,8) this ch] distinct_children [OF wf]
  obtain w' where w': "walk_names n (copy_visit (apath a) (apath b)) (apath (a @ r)) (sort ?ns) w2 = (None, w')" "evolves w2 w'"
    "\<And>p. lookup (w_fs w') p = (if \<exists>x \<in> set (sort ?ns). prefix (b @ r @ [x]) p
       then map_option (copy_node (w_umask w2)) (lookup (w_fs w2) (a @ drop (length b) p)) else lookup (w_fs w2) p)"
    by (metis distinct_sort)
  have "lookup (w_fs w') p =
       (if strict_prefix (b @ r) p then map_option (copy_node (w_umask w)) (lookup ?f (a @ drop (length b) p)) else lookup (w_fs w2) p)" for p
  proof (cases "strict_prefix (b @ r) p")
    case True
    then obtain x s where p: "p = b @ r @ x # s" by (elim strict_prefixE') simp
    have pre: "(\<exists>y \<in> set ?ns. prefix (b @ r @ [y]) p) \<longleftrightarrow> x \<in> set ?ns" by (auto simp: p)
    have "lookup ?f ((a @ r @ [x]) @ s) = None" if "x \<notin> set ?ns"
    proof -
      have "lookup ?f (a @ r @ [x]) = None" using that set_children [of ?f "a @ r"] by auto
      from wf_fs_absent [OF wf this] show ?thesis .
    qed
    moreover have "lookup (w_fs w2) p = None" using w2(2) [of p] absent [of p] True by (auto simp: p)
    ultimately show ?thesis using w'(3) [of p] True ok2(3) src [of "r @ x # s"] unfolding set_sort pre by (auto simp: p)
  next
    case False
    then have "\<not> (\<exists>x \<in> set (sort ?ns). prefix (b @ r @ [x]) p)"
      using strict_prefix_child [of "b @ r" _ "[]" p] by auto
    with False w'(3) [of p] show ?thesis by simp
  qed
  with w'(1,2) show ?thesis by blast
qed

lemma parents_there:
  assumes "wf_fs f" "dir_at f (butlast q)" "strict_prefix p q"
  shows "lookup f p \<noteq> None"
proof -
  have "q \<noteq> []" using assms(3) by auto
  then have "prefix p (butlast q)" using assms(3) by (metis append_butlast_last_id prefix_snocD)
  then have "p = take (length p) (butlast q)" by (auto simp: prefix_def)
  with dir_at_take [OF assms(1,2), of "length p"] show ?thesis by (auto simp: dir_at_def)
qed

lemma can_copy_MkdirAll:
  assumes "can_copy a b r w" "MkdirAll (apath (b @ r)) m w = (e, w2)" "b @ r \<noteq> []"
  shows "e = None" "evolves w w2"
    "lookup (w_fs w2) p = (if p = b @ r then Some (DirN (mkdir_mode (w_umask w) m)) else lookup (w_fs w) p)"
proof -
  have wf: "wf_fs (w_fs w)" and ok: "w_ok w" "w_faults w = []" and ab: "lookup (w_fs w) (b @ r) = None"
    and d: "dir_at (w_fs w) (butlast (b @ r))" and n: "list_all name_ok (b @ r)"
    using assms(1) by (auto simp: can_copy_def w_ok_def)
  have "dpath (w_fs w) (butlast (b @ r))" by (rule dir_at_dpath [OF wf d])
  then have dp: "dpath (w_fs w) (b @ r)"
    using ab n assms(3) unfolding dpath_def
    by (metis butlast_conv_take diff_less length_greater_0_conv less_one linorder_not_less take_all take_butlast
        less_Suc_eq_le length_butlast Suc_pred nat_le_linear)
  note q = MkdirAll_quiet [OF ok(1) dp ok(2) assms(2)]
  show "e = None" by (rule q(1))
  show "evolves w w2" using evo.R_MkdirAll [of w "apath (b @ r)" m] assms(2) by simp
  show "lookup (w_fs w2) p = (if p = b @ r then Some (DirN (mkdir_mode (w_umask w) m)) else lookup (w_fs w) p)"
    using q(5) [of p] ab parents_there [OF wf d, of p] by (cases "p = b @ r") (auto simp: strict_prefix_def)
qed

lemma walk_copies_step:
  assumes ap: "apart a b" and wc: "walk_copies a b n"
  shows "walk_copies a b (Suc n)"
  unfolding walk_copies_def
proof (intro allI impI)
  fix r w assume r: "r \<noteq> []" and cc: "can_copy a b r w" and fuel: "tsize (w_fs w) (a @ r) \<le> Suc n"
  let ?f = "w_fs w" and ?fn = "copy_visit (apath a) (apath b)"
  have ok: "w_ok w" "w_faults w = []" and wf: "wf_fs ?f" and pl: "plain ?f (a @ r)"
    and ab: "lookup ?f (b @ r) = None" and d: "dir_at ?f (butlast (b @ r))"
    and nm: "list_all name_ok (a @ r)" "list_all name_ok (b @ r)"
    using cc by (auto simp: can_copy_def w_ok_def)
  obtain nd where nd: "lookup ?f (a @ r) = Some nd" using cc by (auto simp: can_copy_def)
  note fn = copy_visit_below [OF nm, of nd]
  have absent: "lookup ?f p = None" if "prefix (b @ r) p" for p
    using wf_fs_absent [OF wf ab] that by (auto simp: prefix_def)
  show "\<exists>w'. walk (Suc n) ?fn (apath (a @ r)) (the (lookup ?f (a @ r))) w = (None, w') \<and> evolves w w' \<and>
      graft (w_umask w) (a @ r) (b @ r) ?f (w_fs w')"
  proof (cases nd)
    case (DirN m)
    obtain e w2 where mk: "MkdirAll (apath (b @ r)) m w = (e, w2)" by fastforce
    have "b @ r \<noteq> []" using r by simp
    note k = can_copy_MkdirAll [OF cc mk this]
    have w2: "lookup (w_fs w2) p = (if prefix p (b @ r) \<and> lookup ?f p = None then Some (DirN (mkdir_mode (w_umask w) m)) else lookup ?f p)" for p
      using k(3) [of p] ab parents_there [OF wf d, of p] by (cases "p = b @ r") (auto simp: strict_prefix_def)
    have "a @ r \<noteq> []" using r by simp
    from walk_children_copy [OF ap wc ok pl nd [unfolded DirN] nm this ab fuel k(2) w2]
    obtain w' where w': "walk_names n ?fn (apath (a @ r)) (sort (children ?f (a @ r))) w2 = (None, w')" "evolves w2 w'"
      "\<And>p. lookup (w_fs w') p = (if strict_prefix (b @ r) p then map_option (copy_node (w_umask w)) (lookup ?f (a @ drop (length b) p)) else lookup (w_fs w2) p)"
      by blast
    have "graft (w_umask w) (a @ r) (b @ r) ?f (w_fs w')"
      unfolding graft_def using w'(3) k(3) nd DirN by (auto simp: strict_prefix_def prefix_def)
    moreover have "walk (Suc n) ?fn (apath (a @ r)) nd w = (None, w')"
      using ReadDir_quiet(2) [OF ok nd [unfolded DirN]] fn mk k(1) w'(1) DirN by simp
    ultimately show ?thesis using evolves_trans [OF k(2) w'(2)] nd by auto
  next
    case (FileN m c)
    have fp: "fpath ?f (b @ r)"
      using dir_at_dpath [OF wf d] nm(2) r by (auto simp: fpath_def list_all_iff)
    have "a @ r \<noteq> b @ r" using apart_below [OF ap, of r r] by auto
    then obtain w' where w': "CopyFile (apath (a @ r)) (apath (b @ r)) w = (None, w')" "evolves w w'"
      "\<And>p. lookup (w_fs w') p = (if p = b @ r then Some (FileN m c)
        else if strict_prefix p (b @ r) \<and> lookup ?f p = None then Some (DirN (mkdir_mode (w_umask w) 0x1ED)) else lookup ?f p)"
      using CopyFile_ok [OF ok nd [unfolded FileN] fp] ab by metis
    have below: "s = [] \<or> lookup ?f (a @ r @ s) = None" for s
      using wf_fs_no_child [OF wf nd, of s] FileN by (cases "s = []") auto
    have eq: "lookup (w_fs w') p = (if p = b @ r then Some (FileN m c) else lookup ?f p)" for p
      using w'(3) [of p] parents_there [OF wf d, of p] by auto
    have "graft (w_umask w) (a @ r) (b @ r) ?f (w_fs w')"
      unfolding graft_def
    proof
      fix p show "lookup (w_fs w') p = (if prefix (b @ r) p then map_option (copy_node (w_umask w))
          (lookup ?f ((a @ r) @ drop (length (b @ r)) p)) else lookup ?f p)"
        using eq [of p] absent [of p] below [of "drop (length (b @ r)) p"] nd FileN by (cases "p = b @ r") (auto simp: prefix_def)
    qed
    with w'(1,2) fn nd FileN show ?thesis by auto
  next
    case (LinkN t)
    with plain_node [OF pl nd] show ?thesis by blast
  qed
qed

lemma walk_copies_all: "apart a b \<Longrightarrow> walk_copies a b n"
proof (induction n)
  case 0
  have "tsize (w_fs w) (a @ r) > 0" if "r \<noteq> []" "can_copy a b r w" for r w
    using tsize_child [of "a @ r" "w_fs w" "[]"] that by (auto simp: can_copy_def)
  then show ?case by (fastforce simp: walk_copies_def)
qed (simp add: walk_copies_step)

text \<open>The whole of \<open>CopyDir\<close>: the missing parents of the target are made with the mode of the source.\<close>

lemma CopyDir_ok:
  assumes "apart a b" "w_ok w" "w_faults w = []" "lookup (w_fs w) a = Some (DirN m)" "plain (w_fs w) a"
    and "dpath (w_fs w) b" "lookup (w_fs w) b = None"
  obtains w' where "CopyDir (apath a) (apath b) w = (None, w')" "evolves w w'"
    "\<And>p. lookup (w_fs w') p =
       (if prefix b p then map_option (copy_node (w_umask w)) (lookup (w_fs w) (a @ drop (length b) p))
        else if prefix p b \<and> lookup (w_fs w) p = None then Some (DirN (mkdir_mode (w_umask w) m))
        else lookup (w_fs w) p)"
proof -
  let ?f = "w_fs w" and ?fn = "copy_visit (apath a) (apath b)"
  have wf: "wf_fs ?f" using assms(2) by (simp add: w_ok_def)
  have nm: "list_all name_ok a" "list_all name_ok b" using wf_fs_names [OF wf assms(4)] assms(6) by (auto simp: dpath_def)
  have ne: "a \<noteq> []" using assms(1) by (auto simp: apart_def)
  obtain n where n: "fs_fuel w = Suc n" by (auto simp: fs_fuel_def)
  have fuel: "tsize ?f (a @ []) \<le> Suc n" using tsize_fuel [of w a] n by (simp add: fs_fuel_def)
  obtain e w2 where mk: "MkdirAll (apath b) m w = (e, w2)" by fastforce
  note q = MkdirAll_quiet [OF assms(2,6,3) mk]
  have ev: "evolves w w2" using evo.R_MkdirAll [of w "apath b" m] mk by simp
  have fn: "?fn (apath a) (Some (DirN m)) None w = (None, w2)"
    using copy_visit_below [of a "[]" b "DirN m" w] nm mk q(1) by simp
  obtain w' where w': "walk_names n ?fn (apath a) (sort (children ?f a)) w2 = (None, w')" "evolves w2 w'"
    "\<And>p. lookup (w_fs w') p = (if strict_prefix b p then map_option (copy_node (w_umask w)) (lookup ?f (a @ drop (length b) p)) else lookup (w_fs w2) p)"
    using walk_children_copy [OF assms(1) walk_copies_all [OF assms(1)] assms(2,3) _ _ _ _ _ _ fuel ev]
      assms(4,5,7) nm ne q(5) by (metis append_Nil2)
  have "walk (Suc n) ?fn (apath a) (DirN m) w = (None, w')"
    using ReadDir_quiet(2) [OF assms(2-4)] fn w'(1) by simp
  then have "CopyDir (apath a) (apath b) w = (None, w')"
    using Stat_present [OF assms(2-4)] n Clean_apath nm by (simp add: CopyDir_def Walk_def)
  moreover have "lookup (w_fs w') p =
       (if prefix b p then map_option (copy_node (w_umask w)) (lookup ?f (a @ drop (length b) p))
        else if prefix p b \<and> lookup ?f p = None then Some (DirN (mkdir_mode (w_umask w) m))
        else lookup ?f p)" for p
    using w'(3) [of p] q(5) [of p] assms(4,7) by (cases "p = b") (auto simp: strict_prefix_def)
  ultimately show ?thesis using that evolves_trans [OF ev w'(2)] by blast
qed

section \<open>The copy action\<close>

text \<open>
  \<open>Do\<close> replaces the destination: whatever was at or below it is gone, and a copy of the source
  is there; only missing parent directories of the destination are new otherwise.
\<close>

definition fits :: "fs \<Rightarrow> path \<Rightarrow> path \<Rightarrow> bool" where
  "fits f a b \<longleftrightarrow> apart a b \<and> plain f a \<and> fpath f b"

lemma Stat_missing:
  assumes "w_ok w" "w_faults w = []" "list_all name_ok ps" "dpath (w_fs w) (butlast ps)" "lookup (w_fs w) ps = None"
  shows "Stat (apath ps) w = (Inl (PathError ''stat'' (apath ps) ENOENT), w)"
proof -
  have "wf_fs (w_fs w)" using assms(1) by (simp add: w_ok_def)
  moreover have "ps \<noteq> []" using assms(5) by auto
  moreover from this assms(3,4) have "fpath (w_fs w) ps" by (simp add: fpath_def list_all_iff)
  ultimately show ?thesis
    using sys_stat_quiet [of w ps True] assms(2,5) by (simp add: Stat_def path_err_def not_link_def)
qed

lemma cut_lookup: "cut b f f' \<Longrightarrow> lookup f' p = (if prefix b p then None else lookup f p)"
  by (simp add: cut_def)

lemma cut_fpath: "cut b f f' \<Longrightarrow> fpath f b \<Longrightarrow> fpath f' b \<and> dpath f' b"
proof -
  assume c: "cut b f f'" and fp: "fpath f b"
  have "\<not> prefix b p" if "prefix p (butlast b)" for p
  proof -
    have "length p < length b" using prefix_length_le [OF that] fp by (cases b rule: rev_cases) (auto simp: fpath_def)
    then show ?thesis using prefix_length_le [of b p] by auto
  qed
  then have eq: "lookup f' p = lookup f p" if "prefix p (butlast b)" for p using c that by (simp add: cut_def)
  then have d: "dpath f' (butlast b)" using fp by (simp add: fpath_def dpath_def dir_at_def take_is_prefix)
  then have "fpath f' b" using fp by (simp add: fpath_def)
  moreover have "dpath f' b"
    unfolding dpath_def
  proof (intro conjI allI impI)
    fix k assume l: "lookup f' (take k b) \<noteq> None"
    show "dir_at f' (take k b)"
    proof (cases "k < length b")
      case True
      then have "take k b = take k (butlast b)" by (simp add: butlast_conv_take)
      with d l show ?thesis by (simp add: dpath_def)
    next
      case False
      with l c show ?thesis by (simp add: cut_def)
    qed
  qed (rule fpath_names [OF fp])
  ultimately show ?thesis by blast
qed

lemma copy_Do_ok:
  assumes "fits (w_fs w) a b" "w_ok w" "w_faults w = []" "lookup (w_fs w) a = Some n"
  obtains w' where "copy_Do (apath a) (apath b) w = (None, w')" "evolves w w'"
    "\<And>p. lookup (w_fs w') p =
       (if prefix b p then map_option (copy_node (w_umask w)) (lookup (w_fs w) (a @ drop (length b) p))
        else if prefix p b \<and> lookup (w_fs w) p = None
        then Some (DirN (mkdir_mode (w_umask w) (if is_dir n then perm_of n else 0x1ED)))
        else lookup (w_fs w) p)"
proof -
  have ap: "apart a b" and pl: "plain (w_fs w) a" and fp: "fpath (w_fs w) b" using assms(1) by (auto simp: fits_def)
  have wf: "wf_fs (w_fs w)" using assms(2) by (simp add: w_ok_def)
  have st: "Stat (apath a) w = (Inr n, w)" using Stat_present [OF assms(2-4)] plain_node [OF pl assms(4)] by blast
  obtain w2 where rm: "RemoveAll (apath b) w = (None, w2)" and c: "cut b (w_fs w) (w_fs w2)"
    and ok: "w_ok w2" "w_faults w2 = []" and ev: "evolves w w2"
    using RemoveAll_quiet [OF assms(2,3) fp] by metis
  have um: "w_umask w2 = w_umask w" using ev by (auto dest: evolves_keeps)
  have src: "lookup (w_fs w2) (a @ s) = lookup (w_fs w) (a @ s)" for s
    using cut_lookup [OF c] apart_below [OF ap, of "[]"] by simp
  have b2: "fpath (w_fs w2) b" "dpath (w_fs w2) b" using cut_fpath [OF c fp] by auto
  have lb: "lookup (w_fs w2) b = None" using cut_lookup [OF c, of b] by simp
  have la: "lookup (w_fs w2) a = Some n" using src [of "[]"] assms(4) by simp
  have out: "(if prefix b p then x else if prefix p b \<and> lookup (w_fs w2) p = None then y else lookup (w_fs w2) p) =
      (if prefix b p then x else if prefix p b \<and> lookup (w_fs w) p = None then y else lookup (w_fs w) p)" for p x y
    using cut_lookup [OF c, of p] by simp
  show ?thesis
  proof (cases n)
    case (DirN m)
    have "plain (w_fs w2) a" using pl by (simp add: plain_def not_link_def src)
    from CopyDir_ok [OF ap ok la [unfolded DirN] this b2(2) lb] obtain w' where
      w': "CopyDir (apath a) (apath b) w2 = (None, w')" "evolves w2 w'"
      "\<And>p. lookup (w_fs w') p =
       (if prefix b p then map_option (copy_node (w_umask w)) (lookup (w_fs w) (a @ drop (length b) p))
        else if prefix p b \<and> lookup (w_fs w2) p = None then Some (DirN (mkdir_mode (w_umask w) m))
        else lookup (w_fs w2) p)" by (metis um src)
    show ?thesis
      using st rm w'(1) evolves_trans [OF ev w'(2)] w'(3) DirN unfolding out
      by (intro that [of w']) (simp_all add: copy_Do_def)
  next
    case (FileN m c')
    have "a \<noteq> b" using ap by (auto simp: apart_def)
    from CopyFile_ok [OF ok la [unfolded FileN] b2(1) _ this] lb obtain w' where
      w': "CopyFile (apath a) (apath b) w2 = (None, w')" "evolves w2 w'"
      "\<And>p. lookup (w_fs w') p = (if p = b then Some (FileN m c')
        else if strict_prefix p b \<and> lookup (w_fs w2) p = None
        then Some (DirN (mkdir_mode (w_umask w) 0x1ED)) else lookup (w_fs w2) p)" by (metis um)
    have "lookup (w_fs w) (a @ s) = None" if "s \<noteq> []" for s
      using wf_fs_no_child [OF wf assms(4), of s] that FileN by simp
    then have "lookup (w_fs w') p =
       (if prefix b p then map_option (copy_node (w_umask w)) (lookup (w_fs w) (a @ drop (length b) p))
        else if prefix p b \<and> lookup (w_fs w2) p = None
        then Some (DirN (mkdir_mode (w_umask w) 0x1ED)) else lookup (w_fs w2) p)" for p
      using w'(3) [of p] cut_lookup [OF c, of p] assms(4) FileN
      by (cases "p = b") (auto simp: prefix_def strict_prefix_def)
    then show ?thesis
      using st rm w'(1) evolves_trans [OF ev w'(2)] FileN unfolding out
      by (intro that [of w']) (simp_all add: copy_Do_def)
  next
    case (LinkN t)
    with plain_node [OF pl assms(4)] show ?thesis by blast
  qed
qed

section \<open>Taking copies back\<close>

text \<open>
  Two worlds look the same if every path has the same node; the second must be usable where
  the first was. A list of copy actions is ready if their destinations are new names in
  existing directories, apart from each other and from all sources.
\<close>

definition same_files :: "world \<Rightarrow> world \<Rightarrow> bool" where
  "same_files w w' \<longleftrightarrow> evolves w w' \<and> (\<forall>p. lookup (w_fs w') p = lookup (w_fs w) p)"

definition new_name :: "fs \<Rightarrow> path \<Rightarrow> bool" where
  "new_name f b \<longleftrightarrow> b \<noteq> [] \<and> name_ok (last b) \<and> dir_at f (butlast b) \<and> lookup f b = None"

fun mapping_ok :: "fs \<Rightarrow> path \<times> path \<Rightarrow> bool" where
  "mapping_ok f (a, b) \<longleftrightarrow> plain f a \<and> list_all name_ok a \<and> a \<noteq> [] \<and> dpath f (butlast a) \<and> new_name f b"

definition mapping :: "path \<times> path \<Rightarrow> FileMapping" where
  "mapping ab = \<lparr>Src = apath (fst ab), Dst = apath (snd ab)\<rparr>"

definition independent :: "(path \<times> path) list \<Rightarrow> bool" where
  "independent ms \<longleftrightarrow> distinct ms \<and>
     (\<forall>m \<in> set ms. \<forall>m' \<in> set ms. apart (fst m) (snd m') \<and> (m \<noteq> m' \<longrightarrow> apart (snd m) (snd m')))"

definition copies_ready :: "world action list \<Rightarrow> world \<Rightarrow> bool" where
  "copies_ready as w \<longleftrightarrow> w_ok w \<and> w_faults w = [] \<and>
     (\<exists>ms. as = map (copy_action \<circ> mapping) ms \<and> list_all (mapping_ok (w_fs w)) ms \<and> independent ms)"

lemma independent_Cons:
  assumes "independent ((a, b) # ms)"
  shows "independent ms" "apart a b" "(c, d) \<in> set ms \<Longrightarrow> apart c b \<and> apart d b"
  using assms by (auto simp: independent_def)

lemma new_name_fpath: "wf_fs f \<Longrightarrow> new_name f b \<Longrightarrow> fpath f b"
  by (auto simp: new_name_def fpath_def intro: dir_at_dpath)

lemma new_name_names: "wf_fs f \<Longrightarrow> new_name f b \<Longrightarrow> list_all name_ok b"
  by (rule fpath_names [OF new_name_fpath])

lemma copy_action_apath:
  assumes "list_all name_ok a" "list_all name_ok b"
  shows "Do (copy_action (mapping (a, b))) = Some (copy_Do (apath a) (apath b))"
    "Undo (copy_action (mapping (a, b))) = Some (copy_Undo (apath b))"
  using Clean_apath [OF assms(1)] Clean_apath [OF assms(2)] by (simp_all add: copy_action_def mapping_def Let_def)

lemma mapping_ok_same:
  assumes "mapping_ok f (c, d)" "apart c b" "apart d b" "\<And>p. \<not> prefix b p \<Longrightarrow> lookup f' p = lookup f p"
  shows "mapping_ok f' (c, d)"
proof -
  have c: "lookup f' (c @ s) = lookup f (c @ s)" for s
    using apart_below [OF assms(2), of "[]" s] by (intro assms(4)) auto
  have up: "lookup f' p = lookup f p" if "prefix p q" "apart q b" for p q
    using that assms(4) [of p] prefix_order.trans [of b p q] by (auto simp: apart_def)
  have "lookup f' (take k (butlast c)) = lookup f (take k (butlast c))" for k
    using up [OF _ assms(2)] by (metis prefix_order.trans prefixeq_butlast take_is_prefix)
  moreover have "lookup f' (butlast d) = lookup f (butlast d)" "lookup f' d = lookup f d"
    using up [OF _ assms(3)] by (auto simp: prefixeq_butlast)
  ultimately show ?thesis using assms(1) by (simp add: plain_def not_link_def c new_name_def dpath_def dir_at_def)
qed

lemma copies_readyE:
  assumes "copies_ready (x # as) w"
  obtains a b where "Do x = Some (copy_Do (apath a) (apath b))" "Undo x = Some (copy_Undo (apath b))"
    "mapping_ok (w_fs w) (a, b)" "apart a b" "w_ok w" "w_faults w = []" "wf_fs (w_fs w)"
    "\<And>w'. w_ok w' \<Longrightarrow> w_faults w' = [] \<Longrightarrow>
      (\<And>p. \<not> prefix b p \<Longrightarrow> lookup (w_fs w') p = lookup (w_fs w) p) \<Longrightarrow> copies_ready as w'"
proof -
  from assms obtain ms where w: "w_ok w" "w_faults w = []"
    and ms: "x # as = map (copy_action \<circ> mapping) ms" "list_all (mapping_ok (w_fs w)) ms" "independent ms"
    unfolding copies_ready_def by (elim conjE exE) (rule that)
  obtain a b ms' where m: "ms = (a, b) # ms'" using ms(1) by (cases ms) auto
  note ind = independent_Cons [OF ms(3) [unfolded m]]
  have wf: "wf_fs (w_fs w)" using w(1) by (simp add: w_ok_def)
  have mo: "mapping_ok (w_fs w) (a, b)" using ms(2) m by simp
  then have n: "list_all name_ok a" "list_all name_ok b" using new_name_names [OF wf] by auto
  have "copies_ready as w'" if w': "w_ok w'" "w_faults w' = []"
    and same: "\<And>p. \<not> prefix b p \<Longrightarrow> lookup (w_fs w') p = lookup (w_fs w) p" for w'
  proof -
    have "mapping_ok (w_fs w') (c, d)" if cd: "(c, d) \<in> set ms'" for c d
      using mapping_ok_same [of "w_fs w" c d b "w_fs w'"] ind(3) [OF cd] ms(2) m cd same by (auto simp: list_all_iff)
    then have "list_all (mapping_ok (w_fs w')) ms'" by (auto simp: list_all_iff)
    moreover have "as = map (copy_action \<circ> mapping) ms'" using ms(1) m by simp
    ultimately show ?thesis using w' ind(1) by (auto simp: copies_ready_def)
  qed
  moreover have "x = copy_action (mapping (a, b))" using ms(1) m by simp
  ultimately show ?thesis using that copy_action_apath [OF n] mo w wf ind(2) by simp
qed

lemma copy_Undo_ok:
  assumes "w_ok w" "w_faults w = []" "fpath (w_fs w) b"
  obtains w' where "copy_Undo (apath b) w = (None, w')" "evolves w w'" "cut b (w_fs w) (w_fs w')"
  using RemoveAll_quiet [OF assms] by (metis (no_types, lifting) copy_Undo_def old.prod.case option.simps(4))

text \<open>A first copy, its failure, and its undoing.\<close>

lemma copy_Do_new:
  assumes "mapping_ok (w_fs w) (a, b)" "apart a b" "w_ok w" "w_faults w = []" "copy_Do (apath a) (apath b) w = (r, w')"
  shows "evolves w w'" "\<not> prefix b p \<Longrightarrow> lookup (w_fs w') p = lookup (w_fs w) p"
    "r \<noteq> None \<Longrightarrow> w' = w"
proof -
  have wf: "wf_fs (w_fs w)" using assms(3) by (simp add: w_ok_def)
  have nb: "new_name (w_fs w) b" and na: "list_all name_ok a" "dpath (w_fs w) (butlast a)" "plain (w_fs w) a"
    using assms(1) by auto
  have fit: "fits (w_fs w) a b" using assms(2) na(3) new_name_fpath [OF wf nb] by (simp add: fits_def)
  have d: "dir_at (w_fs w) (butlast b)" using nb by (simp add: new_name_def)
  show "evolves w w'" using evo.R_copy_Do [of w "apath a" "apath b"] assms(5) by simp
  have "(\<not> prefix b p \<longrightarrow> lookup (w_fs w') p = lookup (w_fs w) p) \<and> (r \<noteq> None \<longrightarrow> w' = w)"
  proof (cases "lookup (w_fs w) a")
    case None
    with Stat_missing [OF assms(3,4) na(1,2)] assms(5) show ?thesis by (auto simp: copy_Do_def)
  next
    case (Some n)
    obtain w1 where w1: "copy_Do (apath a) (apath b) w = (None, w1)" "evolves w w1"
      "\<And>q. lookup (w_fs w1) q =
       (if prefix b q then map_option (copy_node (w_umask w)) (lookup (w_fs w) (a @ drop (length b) q))
        else if prefix q b \<and> lookup (w_fs w) q = None
        then Some (DirN (mkdir_mode (w_umask w) (if is_dir n then perm_of n else 0x1ED)))
        else lookup (w_fs w) q)"
      by (rule copy_Do_ok [OF fit assms(3,4) Some]) (rule that)
    moreover have "\<not> prefix b p \<Longrightarrow> prefix p b \<Longrightarrow> lookup (w_fs w) p \<noteq> None"
      using parents_there [OF wf d, of p] by (auto simp: strict_prefix_def)
    ultimately show ?thesis using assms(5) w1(3) [of p] by (cases "prefix b p") auto
  qed
  then show "\<not> prefix b p \<Longrightarrow> lookup (w_fs w') p = lookup (w_fs w) p" "r \<noteq> None \<Longrightarrow> w' = w" by auto
qed

lemma copy_Undo_Do:
  assumes "mapping_ok (w_fs w) (a, b)" "apart a b" "w_ok w" "w_faults w = []"
    and "copy_Do (apath a) (apath b) w = (r, w')" "same_files w' w''"
  shows "same_files w (snd (copy_Undo (apath b) w''))"
proof -
  note do_new = copy_Do_new [OF assms(1-5)]
  have wf: "wf_fs (w_fs w)" using assms(3) by (simp add: w_ok_def)
  have nb: "new_name (w_fs w) b" using assms(1) by simp
  have "evolves w' w''" "\<And>p. lookup (w_fs w'') p = lookup (w_fs w') p"
    using assms(6) by (auto simp: same_files_def)
  then have ev: "evolves w w''" and eq: "\<And>p. \<not> prefix b p \<Longrightarrow> lookup (w_fs w'') p = lookup (w_fs w) p"
    using evolves_trans [OF do_new(1)] do_new(2) by auto
  have ok: "w_ok w''" "w_faults w'' = []" using ev assms(3,4) by (auto dest: evolves_ok evolves_keeps)
  have "\<not> prefix b (butlast b)" using nb prefix_length_le [of b "butlast b"] by (cases b) (auto simp: new_name_def)
  then have "dir_at (w_fs w'') (butlast b)" using nb eq by (simp add: new_name_def dir_at_def)
  then have "fpath (w_fs w'') b"
    using nb ok(1) by (auto simp: new_name_def fpath_def w_ok_def intro: dir_at_dpath)
  from copy_Undo_ok [OF ok this] obtain w3 where w3: "copy_Undo (apath b) w'' = (None, w3)" "evolves w'' w3"
    "cut b (w_fs w'') (w_fs w3)" by blast
  have "lookup (w_fs w3) p = lookup (w_fs w) p" for p
  proof (cases "prefix b p")
    case True
    then have "lookup (w_fs w) p = None"
      using wf_fs_absent [OF wf, of b] nb by (auto simp: new_name_def prefix_def)
    with True w3(3) show ?thesis by (simp add: cut_def)
  qed (use w3(3) eq in \<open>simp add: cut_def\<close>)
  with w3(1,2) evolves_trans [OF ev] show ?thesis by (simp add: same_files_def)
qed

interpretation copying: compensable same_files copies_ready
proof
  fix a as s f s' s'' e
  assume r: "copies_ready (a # as) s"
  from copies_readyE [OF r] obtain x y where x: "Do a = Some (copy_Do (apath x) (apath y))"
    "Undo a = Some (copy_Undo (apath y))" and m: "mapping_ok (w_fs s) (x, y)" "apart x y" "w_ok s" "w_faults s = []"
    and rest: "\<And>w'. w_ok w' \<Longrightarrow> w_faults w' = [] \<Longrightarrow>
      (\<And>p. \<not> prefix y p \<Longrightarrow> lookup (w_fs w') p = lookup (w_fs s) p) \<Longrightarrow> copies_ready as w'" by metis
  show "\<exists>f. Do a = Some f" using x by simp
  assume f: "Do a = Some f"
  show "f s = (None, s') \<Longrightarrow> copies_ready as s'"
    using copy_Do_new [OF m] f x m(3,4) by (intro rest) (auto dest: evolves_ok evolves_keeps)
  show "f s = (Some e, s') \<Longrightarrow> same_files s s'"
    using copy_Do_new(3) [OF m] f x by (auto simp: same_files_def)
  show "f s = (None, s') \<Longrightarrow> same_files s' s'' \<Longrightarrow> same_files s (undo_step a s'')"
    using copy_Undo_Do [OF m] f x by (auto simp: undo_step_def)
qed

section \<open>A transaction of copies\<close>

lemma live_copies: "live (map (Some \<circ> copy_action) ms) = map copy_action ms"
  by (induction ms) (auto simp: copy_action_def Let_def)

lemma Register_actions:
  assumes "RegisterCopyActions (Some t) (Some cfg) = (e, t')"
  shows "e = None \<and> (\<exists>u. t' = Some u \<and> actions u = actions t @ map (Some \<circ> copy_action) (FileMappings cfg) \<and>
    executed u = executed t)"
proof -
  have "actions (foldl (\<lambda>t m. Add t (Some (copy_action m))) t ms) = actions t @ map (Some \<circ> copy_action) ms \<and>
      executed (foldl (\<lambda>t m. Add t (Some (copy_action m))) t ms) = executed t" for ms
    by (induction ms arbitrary: t) (auto simp: Add_def)
  with assms show ?thesis by (auto simp: RegisterCopyActions_def)
qed

text \<open>The first of several copies leaves the others possible and their sources alone.\<close>

lemma copies_step:
  assumes "w_ok w" "w_faults w = []" "list_all (mapping_ok (w_fs w)) ((a, b) # ms)" "independent ((a, b) # ms)"
    and "copy_Do (apath a) (apath b) w = (None, w1)"
  shows "w_ok w1" "w_faults w1 = []" "w_umask w1 = w_umask w" "list_all (mapping_ok (w_fs w1)) ms"
    "m \<in> set ms \<Longrightarrow> lookup (w_fs w1) (fst m @ s) = lookup (w_fs w) (fst m @ s)"
proof -
  note ind = independent_Cons [OF assms(4)]
  have mo: "mapping_ok (w_fs w) (a, b)" using assms(3) by simp
  note k = copy_Do_new [OF mo ind(2) assms(1,2,5)]
  show "w_ok w1" "w_faults w1 = []" "w_umask w1 = w_umask w"
    using k(1) assms(1,2) by (auto dest: evolves_ok evolves_keeps)
  show "m \<in> set ms \<Longrightarrow> lookup (w_fs w1) (fst m @ s) = lookup (w_fs w) (fst m @ s)"
    using ind(3) [of "fst m" "snd m"] apart_below [of "fst m" b "[]" s] by (intro k(2)) auto
  have "mapping_ok (w_fs w1) (c, d)" if cd: "(c, d) \<in> set ms" for c d
  proof (rule mapping_ok_same [OF _ _ _ k(2)])
    show "mapping_ok (w_fs w) (c, d)"
      using assms(3) cd by (auto simp: list_all_iff simp del: mapping_ok.simps)
  qed (use ind(3) [OF cd] in auto)
  then show "list_all (mapping_ok (w_fs w1)) ms" by (auto simp: list_all_iff)
qed

lemma Do_mapping:
  assumes "wf_fs f" "mapping_ok f (a, b)"
  shows "Do (copy_action (mapping (a, b))) = Some (copy_Do (apath a) (apath b))"
  using copy_action_apath(1) [of a b] assms new_name_names by simp

lemma forward_missing:
  assumes "w_ok w" "w_faults w = []" "list_all (mapping_ok (w_fs w)) ms" "independent ms"
    and "m \<in> set ms" "lookup (w_fs w) (fst m) = None"
  shows "\<exists>d e w'. forward (map (copy_action \<circ> mapping) ms) w = (d, Some e, w')"
  using assms
proof (induction ms arbitrary: w)
  case (Cons ab ms)
  obtain a b where ab: "ab = (a, b)" by (cases ab)
  have wf: "wf_fs (w_fs w)" using Cons.prems(1) by (simp add: w_ok_def)
  have mo: "mapping_ok (w_fs w) (a, b)" using Cons.prems(3) ab by simp
  note d = Do_mapping [OF wf mo]
  obtain r w1 where r: "copy_Do (apath a) (apath b) w = (r, w1)" by fastforce
  show ?case
  proof (cases r)
    case None
    note st = copies_step [OF Cons.prems(1-4) [unfolded ab] r [unfolded None]]
    have "lookup (w_fs w) a \<noteq> None"
      using Stat_missing [OF Cons.prems(1,2), of a] mo r None by (cases "lookup (w_fs w) a") (auto simp: copy_Do_def)
    then have m: "m \<in> set ms" using Cons.prems(5,6) ab by auto
    then have "lookup (w_fs w1) (fst m) = None" using st(5) [of m "[]"] Cons.prems(6) by simp
    from Cons.IH [OF st(1,2,4) independent_Cons(1) [OF Cons.prems(4) [unfolded ab]] m this]
    show ?thesis using d r None ab by auto
  qed (use d r ab in auto)
qed simp

lemma forward_copies:
  assumes "w_ok w" "w_faults w = []" "list_all (mapping_ok (w_fs w)) ms" "independent ms"
    and "\<And>m. m \<in> set ms \<Longrightarrow> lookup (w_fs w) (fst m) \<noteq> None"
  shows "\<exists>w'. forward (map (copy_action \<circ> mapping) ms) w = (map (copy_action \<circ> mapping) ms, None, w') \<and>
    (\<forall>a b s. (a, b) \<in> set ms \<longrightarrow> lookup (w_fs w') (b @ s) = map_option (copy_node (w_umask w)) (lookup (w_fs w) (a @ s))) \<and>
    (\<forall>p. (\<forall>(a, b) \<in> set ms. \<not> prefix b p) \<longrightarrow> lookup (w_fs w') p = lookup (w_fs w) p)"
  using assms
proof (induction ms arbitrary: w)
  case (Cons m ms)
  obtain a b where m: "m = (a, b)" by (cases m)
  note ind = independent_Cons [OF Cons.prems(4) [unfolded m]]
  have wf: "wf_fs (w_fs w)" using Cons.prems(1) by (simp add: w_ok_def)
  have mo: "mapping_ok (w_fs w) (a, b)" using Cons.prems(3) m by simp
  obtain n where n: "lookup (w_fs w) a = Some n" using Cons.prems(5) [of m] m by auto
  have fit: "fits (w_fs w) a b" using mo ind(2) new_name_fpath [OF wf] by (simp add: fits_def)
  obtain w1 where w1: "copy_Do (apath a) (apath b) w = (None, w1)" "evolves w w1"
    "\<And>q. lookup (w_fs w1) q =
       (if prefix b q then map_option (copy_node (w_umask w)) (lookup (w_fs w) (a @ drop (length b) q))
        else if prefix q b \<and> lookup (w_fs w) q = None
        then Some (DirN (mkdir_mode (w_umask w) (if is_dir n then perm_of n else 0x1ED)))
        else lookup (w_fs w) q)"
    by (rule copy_Do_ok [OF fit Cons.prems(1,2) n]) (rule that)
  note same = copy_Do_new(2) [OF mo ind(2) Cons.prems(1,2) w1(1)]
  note st = copies_step [OF Cons.prems(1-4) [unfolded m] w1(1)]
  have srcs: "lookup (w_fs w1) (fst m) \<noteq> None" if "m \<in> set ms" for m
    using st(5) [OF that, of "[]"] Cons.prems(5) [of m] that by simp
  obtain w2 where w2: "forward (map (copy_action \<circ> mapping) ms) w1 = (map (copy_action \<circ> mapping) ms, None, w2)"
    "\<And>c d s. (c, d) \<in> set ms \<Longrightarrow> lookup (w_fs w2) (d @ s) = map_option (copy_node (w_umask w1)) (lookup (w_fs w1) (c @ s))"
    "\<And>p. (\<forall>(c, d) \<in> set ms. \<not> prefix d p) \<Longrightarrow> lookup (w_fs w2) p = lookup (w_fs w1) p"
    using Cons.IH [OF st(1,2,4) ind(1) srcs] by blast
  have keep: "lookup (w_fs w2) (b @ s) = lookup (w_fs w1) (b @ s)" for s
  proof (rule w2(3), clarify)
    fix c d assume "(c, d) \<in> set ms" "prefix d (b @ s)"
    with ind(3) [of c d] apart_below [of b d "[]" s] show False by (auto simp: apart_def)
  qed
  have "forward (map (copy_action \<circ> mapping) (m # ms)) w = (map (copy_action \<circ> mapping) (m # ms), None, w2)"
    using w1(1) w2(1) m Do_mapping [OF wf mo] by simp
  moreover have "lookup (w_fs w2) (d @ s) = map_option (copy_node (w_umask w)) (lookup (w_fs w) (c @ s))"
    if "(c, d) \<in> set (m # ms)" for c d s
    using that m keep [of s] w1(3) [of "b @ s"] w2(2) [of c d s] st(5) [of "(c, d)" s] st(3) by auto
  moreover have "lookup (w_fs w2) p = lookup (w_fs w) p" if "\<forall>(c, d) \<in> set (m # ms). \<not> prefix d p" for p
    using that w2(3) [of p] same [of p] m by auto
  ultimately show ?case by blast
qed simp

section \<open>Properties\<close>




definition demo_copies :: "(path \<times> path) list" where
  "demo_copies = [([''opt'', ''a''], [''etc'', ''a'']), ([''opt'', ''gone''], [''etc'', ''b''])]"

lemma demo_plain: "plain (w_fs demo_world) p"
  by (auto simp: plain_def not_link_def demo_world_def lookup_def)

lemma demo_ready: "w_ok demo_world" "w_faults demo_world = []" "list_all (mapping_ok (w_fs demo_world)) demo_copies"
  "independent demo_copies"
proof -
  show "w_ok demo_world" "w_faults demo_world = []" "independent demo_copies"
    unfolding w_ok_def independent_def apart_def by code_simp+
  have "dpath (w_fs demo_world) [''opt'']" "new_name (w_fs demo_world) [''etc'', ''a'']"
    "new_name (w_fs demo_world) [''etc'', ''b'']" "list_all name_ok [''opt'', ''a'']" "list_all name_ok [''opt'', ''gone'']"
    unfolding new_name_def by code_simp+
  then show "list_all (mapping_ok (w_fs demo_world)) demo_copies" by (simp add: demo_copies_def demo_plain)
qed

definition demo_txn :: "(path \<times> path) list \<Rightarrow> world txn" where
  "demo_txn ms = foldl (\<lambda>t m. Add t (Some (copy_action m))) New (map mapping ms)"

lemma demo_txn: "RegisterCopyActions (Some New) (Some \<lparr>FileMappings = map mapping ms\<rparr>) = (None, Some (demo_txn ms))"
  by (simp add: RegisterCopyActions_def demo_txn_def)




end
