(* ===== verification/JsonScan.thy ===== *)
theory JsonScan
  imports GoUtf8
begin

unbundle bit_operations_syntax

text \<open>
  The JSON scanner of \<open>encoding/json/scanner.go\<close>, a pushdown automaton that reads one byte at a
  time. The function held in \<open>scanner.step\<close> is a constructor of \<open>scan_state\<close>, and \<open>scan_step\<close> calls
  the function it names; the stack \<open>parseState\<close> has its innermost entry first. That it
  accepts exactly the texts of the JSON grammar is shown in \<open>JsonGrammar\<close>.
\<close>

section \<open>Data\<close>

datatype scan_op =
    scanContinue | scanBeginLiteral | scanBeginObject | scanObjectKey | scanObjectValue
  | scanEndObject | scanBeginArray | scanArrayValue | scanEndArray | scanSkipSpace
  | scanEnd | scanError

datatype parse_state = parseObjectKey | parseObjectValue | parseArrayValue

datatype scan_state =
    StBeginValueOrEmpty | StBeginValue | StBeginStringOrEmpty | StBeginString | StEndValue | StEndTop | StInString
  | StInStringEsc | StInStringEscU | StInStringEscU1 | StInStringEscU12 | StInStringEscU123 | StNeg | St1
  | St0 | StDot | StDot0 | StE | StESign | StE0 | StT
  | StTr | StTru | StF | StFa | StFal | StFals | StN
  | StNu | StNul | StError

record scanner =
  step :: scan_state
  endTop :: bool
  parseState :: "parse_state list"
  s_err :: "error option"
  sbytes :: nat

definition maxNestingDepth :: nat where "maxNestingDepth = 10000"

section \<open>Errors\<close>

definition lowerhex :: "nat \<Rightarrow> char" where
  "lowerhex d = ''0123456789abcdef'' ! d"

text \<open>\<open>strconv.IsPrint\<close> for Latin-1, the only runes \<open>quoteChar\<close> passes.\<close>

definition IsPrint_latin1 :: "rune \<Rightarrow> bool" where
  "IsPrint_latin1 r \<longleftrightarrow> (0x20 \<le> r \<and> r \<le> 0x7E) \<or> (0xA1 \<le> r \<and> r \<le> 0xFF \<and> r \<noteq> 0xAD)"

text \<open>\<open>strconv.appendEscapedRune\<close> for a Latin-1 rune, with neither ASCII-only nor graphic output.\<close>

definition appendEscapedRune :: "bytes \<Rightarrow> rune \<Rightarrow> char \<Rightarrow> bytes" where
  "appendEscapedRune buf r quote =
     (if r = byte quote \<or> r = 0x5C then buf @ [CHR 0x5C, char_of r]
      else if IsPrint_latin1 r then AppendRune buf r
      else if r = 0x07 then buf @ CHR 0x5C # ''a''
      else if r = 0x08 then buf @ CHR 0x5C # ''b''
      else if r = 0x0C then buf @ CHR 0x5C # ''f''
      else if r = 0x0A then buf @ CHR 0x5C # ''n''
      else if r = 0x0D then buf @ CHR 0x5C # ''r''
      else if r = 0x09 then buf @ CHR 0x5C # ''t''
      else if r = 0x0B then buf @ CHR 0x5C # ''v''
      else if r < 0x20 \<or> r = 0x7F then
        buf @ CHR 0x5C # CHR ''x'' # [lowerhex (drop_bit 4 r), lowerhex (r AND 0xF)]
      else buf @ CHR 0x5C # CHR ''u'' # map (\<lambda>k. lowerhex (drop_bit k r AND 0xF)) [12, 8, 4, 0])"

text \<open>
  \<open>quoteChar\<close>: \<open>strconv.Quote\<close> of the one-rune string, in single quotes instead of its own.
\<close>

definition quoteChar :: "char \<Rightarrow> string" where
  "quoteChar c =
     (if c = CHR 0x27 then [CHR 0x27, CHR 0x5C, CHR 0x27, CHR 0x27]
      else if c = dquote then [CHR 0x27, dquote, CHR 0x27]
      else CHR 0x27 # appendEscapedRune [] (byte c) dquote @ [CHR 0x27])"

definition scan_error :: "scanner \<Rightarrow> char \<Rightarrow> string \<Rightarrow> scan_op \<times> scanner" where
  "scan_error s c context =
     (scanError,
      s\<lparr>step := StError,
        s_err := Some (SyntaxError (''invalid character '' @ quoteChar c @ '' '' @ context) (sbytes s))\<rparr>)"

definition expecting :: "string \<Rightarrow> char \<Rightarrow> string" where
  "expecting word c = ''in literal '' @ word @ '' (expecting '' @ [CHR 0x27, c, CHR 0x27] @ '')''"

definition hex_context :: string where
  "hex_context = ''in '' @ [CHR 0x5C] @ ''u hexadecimal character escape''"

section \<open>The stack\<close>

definition pushParseState :: "scanner \<Rightarrow> char \<Rightarrow> parse_state \<Rightarrow> scan_op \<Rightarrow> scan_op \<times> scanner" where
  "pushParseState s c newParseState successState =
     (let s' = s\<lparr>parseState := newParseState # parseState s\<rparr> in
      if length (parseState s') \<le> maxNestingDepth then (successState, s')
      else scan_error s' c ''exceeded max depth'')"

definition popParseState :: "scanner \<Rightarrow> scanner" where
  "popParseState s =
     (let s' = s\<lparr>parseState := tl (parseState s)\<rparr> in
      if parseState s' = [] then s'\<lparr>step := StEndTop, endTop := True\<rparr> else s'\<lparr>step := StEndValue\<rparr>)"

definition isSpace :: "char \<Rightarrow> bool" where
  "isSpace c \<longleftrightarrow> c = CHR 0x20 \<or> c = CHR 0x09 \<or> c = CHR 0x0D \<or> c = CHR 0x0A"

section \<open>Transitions\<close>

definition stateEndTop :: "scanner \<Rightarrow> char \<Rightarrow> scan_op \<times> scanner" where
  "stateEndTop s c =
     (scanEnd, if \<not> isSpace c then snd (scan_error s c ''after top-level value'') else s)"

definition stateEndValue :: "scanner \<Rightarrow> char \<Rightarrow> scan_op \<times> scanner" where
  "stateEndValue s c =
     (case parseState s of
        [] \<Rightarrow> stateEndTop (s\<lparr>step := StEndTop, endTop := True\<rparr>) c
      | ps # rest \<Rightarrow>
          if isSpace c then (scanSkipSpace, s\<lparr>step := StEndValue\<rparr>)
          else
            (case ps of
               parseObjectKey \<Rightarrow>
                 if c = CHR '':'' then (scanObjectKey, s\<lparr>parseState := parseObjectValue # rest, step := StBeginValue\<rparr>)
                 else scan_error s c ''after object key''
             | parseObjectValue \<Rightarrow>
                 if c = CHR '','' then (scanObjectValue, s\<lparr>parseState := parseObjectKey # rest, step := StBeginString\<rparr>)
                 else if c = CHR ''}'' then (scanEndObject, popParseState s)
                 else scan_error s c ''after object key:value pair''
             | parseArrayValue \<Rightarrow>
                 if c = CHR '','' then (scanArrayValue, s\<lparr>step := StBeginValue\<rparr>)
                 else if c = CHR '']'' then (scanEndArray, popParseState s)
                 else scan_error s c ''after array element''))"

definition stateBeginValue :: "scanner \<Rightarrow> char \<Rightarrow> scan_op \<times> scanner" where
  "stateBeginValue s c =
     (if isSpace c then (scanSkipSpace, s)
      else if c = CHR ''{'' then pushParseState (s\<lparr>step := StBeginStringOrEmpty\<rparr>) c parseObjectKey scanBeginObject
      else if c = CHR ''['' then pushParseState (s\<lparr>step := StBeginValueOrEmpty\<rparr>) c parseArrayValue scanBeginArray
      else if c = dquote then (scanBeginLiteral, s\<lparr>step := StInString\<rparr>)
      else if c = CHR ''-'' then (scanBeginLiteral, s\<lparr>step := StNeg\<rparr>)
      else if c = CHR ''0'' then (scanBeginLiteral, s\<lparr>step := St0\<rparr>)
      else if c = CHR ''t'' then (scanBeginLiteral, s\<lparr>step := StT\<rparr>)
      else if c = CHR ''f'' then (scanBeginLiteral, s\<lparr>step := StF\<rparr>)
      else if c = CHR ''n'' then (scanBeginLiteral, s\<lparr>step := StN\<rparr>)
      else if CHR ''1'' \<le> c \<and> c \<le> CHR ''9'' then (scanBeginLiteral, s\<lparr>step := St1\<rparr>)
      else scan_error s c ''looking for beginning of value'')"

definition stateBeginValueOrEmpty :: "scanner \<Rightarrow> char \<Rightarrow> scan_op \<times> scanner" where
  "stateBeginValueOrEmpty s c =
     (if isSpace c then (scanSkipSpace, s)
      else if c = CHR '']'' then stateEndValue s c
      else stateBeginValue s c)"

definition stateBeginString :: "scanner \<Rightarrow> char \<Rightarrow> scan_op \<times> scanner" where
  "stateBeginString s c =
     (if isSpace c then (scanSkipSpace, s)
      else if c = dquote then (scanBeginLiteral, s\<lparr>step := StInString\<rparr>)
      else scan_error s c ''looking for beginning of object key string'')"

definition stateBeginStringOrEmpty :: "scanner \<Rightarrow> char \<Rightarrow> scan_op \<times> scanner" where
  "stateBeginStringOrEmpty s c =
     (if isSpace c then (scanSkipSpace, s)
      else if c = CHR ''}'' then stateEndValue (s\<lparr>parseState := parseObjectValue # tl (parseState s)\<rparr>) c
      else stateBeginString s c)"

definition stateInString :: "scanner \<Rightarrow> char \<Rightarrow> scan_op \<times> scanner" where
  "stateInString s c =
     (if c = dquote then (scanContinue, s\<lparr>step := StEndValue\<rparr>)
      else if c = CHR 0x5C then (scanContinue, s\<lparr>step := StInStringEsc\<rparr>)
      else if byte c < 0x20 then scan_error s c ''in string literal''
      else (scanContinue, s))"

definition stateInStringEsc :: "scanner \<Rightarrow> char \<Rightarrow> scan_op \<times> scanner" where
  "stateInStringEsc s c =
     (if c \<in> set (CHR 0x5C # dquote # ''bfnrt/'') then (scanContinue, s\<lparr>step := StInString\<rparr>)
      else if c = CHR ''u'' then (scanContinue, s\<lparr>step := StInStringEscU\<rparr>)
      else scan_error s c ''in string escape code'')"

definition is_digit10 :: "char \<Rightarrow> bool" where
  "is_digit10 c \<longleftrightarrow> CHR ''0'' \<le> c \<and> c \<le> CHR ''9''"

definition is_hex :: "char \<Rightarrow> bool" where
  "is_hex c \<longleftrightarrow> is_digit10 c \<or> (CHR ''a'' \<le> c \<and> c \<le> CHR ''f'') \<or> (CHR ''A'' \<le> c \<and> c \<le> CHR ''F'')"

definition stateInStringEscU :: "scanner \<Rightarrow> char \<Rightarrow> scan_op \<times> scanner" where
  "stateInStringEscU s c =
     (if is_hex c then (scanContinue, s\<lparr>step := StInStringEscU1\<rparr>) else scan_error s c hex_context)"

definition stateInStringEscU1 :: "scanner \<Rightarrow> char \<Rightarrow> scan_op \<times> scanner" where
  "stateInStringEscU1 s c =
     (if is_hex c then (scanContinue, s\<lparr>step := StInStringEscU12\<rparr>) else scan_error s c hex_context)"

definition stateInStringEscU12 :: "scanner \<Rightarrow> char \<Rightarrow> scan_op \<times> scanner" where
  "stateInStringEscU12 s c =
     (if is_hex c then (scanContinue, s\<lparr>step := StInStringEscU123\<rparr>) else scan_error s c hex_context)"

definition stateInStringEscU123 :: "scanner \<Rightarrow> char \<Rightarrow> scan_op \<times> scanner" where
  "stateInStringEscU123 s c =
     (if is_hex c then (scanContinue, s\<lparr>step := StInString\<rparr>) else scan_error s c hex_context)"

definition stateNeg :: "scanner \<Rightarrow> char \<Rightarrow> scan_op \<times> scanner" where
  "stateNeg s c =
     (if c = CHR ''0'' then (scanContinue, s\<lparr>step := St0\<rparr>)
      else if CHR ''1'' \<le> c \<and> c \<le> CHR ''9'' then (scanContinue, s\<lparr>step := St1\<rparr>)
      else scan_error s c ''in numeric literal'')"

definition state0 :: "scanner \<Rightarrow> char \<Rightarrow> scan_op \<times> scanner" where
  "state0 s c =
     (if c = CHR ''.'' then (scanContinue, s\<lparr>step := StDot\<rparr>)
      else if c = CHR ''e'' \<or> c = CHR ''E'' then (scanContinue, s\<lparr>step := StE\<rparr>)
      else stateEndValue s c)"

definition state1 :: "scanner \<Rightarrow> char \<Rightarrow> scan_op \<times> scanner" where
  "state1 s c = (if is_digit10 c then (scanContinue, s\<lparr>step := St1\<rparr>) else state0 s c)"

definition stateDot :: "scanner \<Rightarrow> char \<Rightarrow> scan_op \<times> scanner" where
  "stateDot s c =
     (if is_digit10 c then (scanContinue, s\<lparr>step := StDot0\<rparr>)
      else scan_error s c ''after decimal point in numeric literal'')"

definition stateDot0 :: "scanner \<Rightarrow> char \<Rightarrow> scan_op \<times> scanner" where
  "stateDot0 s c =
     (if is_digit10 c then (scanContinue, s)
      else if c = CHR ''e'' \<or> c = CHR ''E'' then (scanContinue, s\<lparr>step := StE\<rparr>)
      else stateEndValue s c)"

definition stateESign :: "scanner \<Rightarrow> char \<Rightarrow> scan_op \<times> scanner" where
  "stateESign s c =
     (if is_digit10 c then (scanContinue, s\<lparr>step := StE0\<rparr>)
      else scan_error s c ''in exponent of numeric literal'')"

definition stateE :: "scanner \<Rightarrow> char \<Rightarrow> scan_op \<times> scanner" where
  "stateE s c =
     (if c = CHR ''+'' \<or> c = CHR ''-'' then (scanContinue, s\<lparr>step := StESign\<rparr>) else stateESign s c)"

definition stateE0 :: "scanner \<Rightarrow> char \<Rightarrow> scan_op \<times> scanner" where
  "stateE0 s c = (if is_digit10 c then (scanContinue, s) else stateEndValue s c)"

definition stateT :: "scanner \<Rightarrow> char \<Rightarrow> scan_op \<times> scanner" where
  "stateT s c =
     (if c = CHR ''r'' then (scanContinue, s\<lparr>step := StTr\<rparr>) else scan_error s c (expecting ''true'' CHR ''r''))"

definition stateTr :: "scanner \<Rightarrow> char \<Rightarrow> scan_op \<times> scanner" where
  "stateTr s c =
     (if c = CHR ''u'' then (scanContinue, s\<lparr>step := StTru\<rparr>) else scan_error s c (expecting ''true'' CHR ''u''))"

definition stateTru :: "scanner \<Rightarrow> char \<Rightarrow> scan_op \<times> scanner" where
  "stateTru s c =
     (if c = CHR ''e'' then (scanContinue, s\<lparr>step := StEndValue\<rparr>) else scan_error s c (expecting ''true'' CHR ''e''))"

definition stateF :: "scanner \<Rightarrow> char \<Rightarrow> scan_op \<times> scanner" where
  "stateF s c =
     (if c = CHR ''a'' then (scanContinue, s\<lparr>step := StFa\<rparr>) else scan_error s c (expecting ''false'' CHR ''a''))"

definition stateFa :: "scanner \<Rightarrow> char \<Rightarrow> scan_op \<times> scanner" where
  "stateFa s c =
     (if c = CHR ''l'' then (scanContinue, s\<lparr>step := StFal\<rparr>) else scan_error s c (expecting ''false'' CHR ''l''))"

definition stateFal :: "scanner \<Rightarrow> char \<Rightarrow> scan_op \<times> scanner" where
  "stateFal s c =
     (if c = CHR ''s'' then (scanContinue, s\<lparr>step := StFals\<rparr>) else scan_error s c (expecting ''false'' CHR ''s''))"

definition stateFals :: "scanner \<Rightarrow> char \<Rightarrow> scan_op \<times> scanner" where
  "stateFals s c =
     (if c = CHR ''e'' then (scanContinue, s\<lparr>step := StEndValue\<rparr>) else scan_error s c (expecting ''false'' CHR ''e''))"

definition stateN :: "scanner \<Rightarrow> char \<Rightarrow> scan_op \<times> scanner" where
  "stateN s c =
     (if c = CHR ''u'' then (scanContinue, s\<lparr>step := StNu\<rparr>) else scan_error s c (expecting ''null'' CHR ''u''))"

definition stateNu :: "scanner \<Rightarrow> char \<Rightarrow> scan_op \<times> scanner" where
  "stateNu s c =
     (if c = CHR ''l'' then (scanContinue, s\<lparr>step := StNul\<rparr>) else scan_error s c (expecting ''null'' CHR ''l''))"

definition stateNul :: "scanner \<Rightarrow> char \<Rightarrow> scan_op \<times> scanner" where
  "stateNul s c =
     (if c = CHR ''l'' then (scanContinue, s\<lparr>step := StEndValue\<rparr>) else scan_error s c (expecting ''null'' CHR ''l''))"

definition stateError :: "scanner \<Rightarrow> char \<Rightarrow> scan_op \<times> scanner" where
  "stateError s c = (scanError, s)"

text \<open>The call \<open>s.step(s, c)\<close>.\<close>

definition scan_step :: "scanner \<Rightarrow> char \<Rightarrow> scan_op \<times> scanner" where
  "scan_step s c =
     (case step s of
        StBeginValueOrEmpty \<Rightarrow> stateBeginValueOrEmpty s c
      | StBeginValue \<Rightarrow> stateBeginValue s c
      | StBeginStringOrEmpty \<Rightarrow> stateBeginStringOrEmpty s c
      | StBeginString \<Rightarrow> stateBeginString s c
      | StEndValue \<Rightarrow> stateEndValue s c
      | StEndTop \<Rightarrow> stateEndTop s c
      | StInString \<Rightarrow> stateInString s c
      | StInStringEsc \<Rightarrow> stateInStringEsc s c
      | StInStringEscU \<Rightarrow> stateInStringEscU s c
      | StInStringEscU1 \<Rightarrow> stateInStringEscU1 s c
      | StInStringEscU12 \<Rightarrow> stateInStringEscU12 s c
      | StInStringEscU123 \<Rightarrow> stateInStringEscU123 s c
      | StNeg \<Rightarrow> stateNeg s c
      | St1 \<Rightarrow> state1 s c
      | St0 \<Rightarrow> state0 s c
      | StDot \<Rightarrow> stateDot s c
      | StDot0 \<Rightarrow> stateDot0 s c
      | StE \<Rightarrow> stateE s c
      | StESign \<Rightarrow> stateESign s c
      | StE0 \<Rightarrow> stateE0 s c
      | StT \<Rightarrow> stateT s c
      | StTr \<Rightarrow> stateTr s c
      | StTru \<Rightarrow> stateTru s c
      | StF \<Rightarrow> stateF s c
      | StFa \<Rightarrow> stateFa s c
      | StFal \<Rightarrow> stateFal s c
      | StFals \<Rightarrow> stateFals s c
      | StN \<Rightarrow> stateN s c
      | StNu \<Rightarrow> stateNu s c
      | StNul \<Rightarrow> stateNul s c
      | StError \<Rightarrow> stateError s c)"

section \<open>Whole texts\<close>

definition scan_reset :: "scanner \<Rightarrow> scanner" where
  "scan_reset s = s\<lparr>step := StBeginValue, parseState := [], s_err := None, endTop := False\<rparr>"

definition scan_eof :: "scanner \<Rightarrow> scan_op \<times> scanner" where
  "scan_eof s =
     (if s_err s \<noteq> None then (scanError, s)
      else if endTop s then (scanEnd, s)
      else
        let s' = snd (scan_step s CHR 0x20) in
        if endTop s' then (scanEnd, s')
        else if s_err s' = None then
          (scanError, s'\<lparr>s_err := Some (SyntaxError ''unexpected end of JSON input'' (sbytes s'))\<rparr>)
        else (scanError, s'))"

text \<open>The loop of \<open>checkValid\<close>: the scanner at an error (\<open>Inl\<close>) or after the last byte (\<open>Inr\<close>).\<close>

fun check_loop :: "scanner \<Rightarrow> string \<Rightarrow> scanner + scanner" where
  "check_loop s [] = Inr s"
| "check_loop s (c # cs) =
     (case scan_step (s\<lparr>sbytes := sbytes s + 1\<rparr>) c of
        (op, s') \<Rightarrow> if op = scanError then Inl s' else check_loop s' cs)"

definition checkValid :: "string \<Rightarrow> scanner \<Rightarrow> error option \<times> scanner" where
  "checkValid data scan =
     (case check_loop (scan_reset scan) data of
        Inl s \<Rightarrow> (s_err s, s)
      | Inr s \<Rightarrow> (case scan_eof s of (op, s') \<Rightarrow> (if op = scanError then s_err s' else None, s')))"

definition newScanner :: scanner where
  "newScanner = scan_reset \<lparr>step = StBeginValue, endTop = False, parseState = [], s_err = None, sbytes = 0\<rparr>"

definition Valid :: "string \<Rightarrow> bool" where
  "Valid data \<longleftrightarrow> fst (checkValid data newScanner) = None"

end
