(* ===== verification/JsonDecode.thy ===== *)
theory JsonDecode
  imports JsonScan
begin

unbundle bit_operations_syntax

text \<open>
  Decoding of \<open>encoding/json/decode.go\<close> (with \<open>fold.go\<close>), for the kinds of Go values the updater
  decodes into: strings, slices and structs, none of which has methods or contains a pointer, so
  that \<open>indirect\<close> returns its argument. \<open>reflect\<close> is replaced by a description of the type and a
  value of that shape; a call that stores through a \<open>reflect.Value\<close> returns the new value. A slice
  keeps the elements behind its length, since the decoder uses them again when it grows the slice
  within its capacity. A panic is the value \<open>Panic\<close>; the recursion carries fuel, and a text of
  \<open>n\<close> bytes needs no more than \<open>2 * n + 4\<close>. \<open>unicode.SimpleFold\<close> is an argument.
\<close>

section \<open>Types and values\<close>

text \<open>A struct type has its string form, its name and its fields with their JSON names.\<close>

datatype gotype =
    TString
  | TSlice gotype
  | TStruct string string "(string \<times> gotype) list"

text \<open>A slice: whether it is nil, its elements, and the elements left behind its length.\<close>

datatype goval =
    VString string
  | VSlice bool "goval list" "goval list"
  | VStruct "goval list"

fun type_string :: "gotype \<Rightarrow> string" where
  "type_string TString = ''string''"
| "type_string (TSlice t) = ''[]'' @ type_string t"
| "type_string (TStruct str name fs) = str"

fun zero_value :: "gotype \<Rightarrow> goval" where
  "zero_value TString = VString []"
| "zero_value (TSlice t) = VSlice True [] []"
| "zero_value (TStruct str name fs) = VStruct (map (\<lambda>(n, t). zero_value t) fs)"

datatype jfault = Panic | NoFuel

section \<open>String literals\<close>

definition hex_val :: "char \<Rightarrow> nat option" where
  "hex_val c =
     (if CHR ''0'' \<le> c \<and> c \<le> CHR ''9'' then Some (byte c - 0x30)
      else if CHR ''a'' \<le> c \<and> c \<le> CHR ''f'' then Some (byte c - 0x61 + 10)
      else if CHR ''A'' \<le> c \<and> c \<le> CHR ''F'' then Some (byte c - 0x41 + 10)
      else None)"

fun hex_loop :: "string \<Rightarrow> rune \<Rightarrow> rune option" where
  "hex_loop [] r = Some r"
| "hex_loop (c # cs) r = (case hex_val c of None \<Rightarrow> None | Some d \<Rightarrow> hex_loop cs (r * 16 + d))"

text \<open>\<open>getu4\<close>: the result \<open>-1\<close> is \<open>None\<close>.\<close>

definition getu4 :: "string \<Rightarrow> rune option" where
  "getu4 s =
     (if length s < 6 \<or> s ! 0 \<noteq> CHR 0x5C \<or> s ! 1 \<noteq> CHR ''u'' then None
      else hex_loop (take 4 (drop 2 s)) 0)"

definition IsSurrogate :: "rune \<Rightarrow> bool" where
  "IsSurrogate r \<longleftrightarrow> 0xD800 \<le> r \<and> r < 0xE000"

definition utf16_DecodeRune :: "rune \<Rightarrow> rune \<Rightarrow> rune" where
  "utf16_DecodeRune r1 r2 =
     (if 0xD800 \<le> r1 \<and> r1 < 0xDC00 \<and> 0xDC00 \<le> r2 \<and> r2 < 0xE000
      then (push_bit 10 (r1 - 0xD800) OR (r2 - 0xDC00)) + 0x10000
      else RuneError)"

text \<open>The bytes \<open>utf8.EncodeRune\<close> stores.\<close>

definition EncodeRune :: "rune \<Rightarrow> bytes" where
  "EncodeRune r =
     (if r \<le> 0x7F then [char_of r]
      else if r \<le> 0x7FF then map char_of [0xC0 OR drop_bit 6 r, 0x80 OR (r AND 0x3F)]
      else if r < 0xD800 \<or> (0xDFFF < r \<and> r \<le> 0xFFFF) then
        map char_of [0xE0 OR drop_bit 12 r, 0x80 OR (drop_bit 6 r AND 0x3F), 0x80 OR (r AND 0x3F)]
      else if r > 0xFFFF \<and> r \<le> MaxRune then
        map char_of [0xF0 OR drop_bit 18 r, 0x80 OR (drop_bit 12 r AND 0x3F),
                     0x80 OR (drop_bit 6 r AND 0x3F), 0x80 OR (r AND 0x3F)]
      else map char_of [0xEF :: nat, 0xBF, 0xBD])"

lemma Decode_rest: "(r, k) = DecodeRuneInString (c # cs) \<Longrightarrow> Suc (length cs) - k < Suc (length cs)"
  using Decode_size [of "c # cs"] by (cases "DecodeRuneInString (c # cs)") auto

text \<open>The first loop of \<open>unquoteBytes\<close>: how many bytes need no unquoting.\<close>

function plain_bytes :: "string \<Rightarrow> nat" where
  "plain_bytes [] = 0"
| "plain_bytes (c # cs) =
     (if c = CHR 0x5C \<or> c = dquote \<or> byte c < 0x20 then 0
      else if byte c < RuneSelf then Suc (plain_bytes cs)
      else
        let (rr, sz) = DecodeRuneInString (c # cs) in
        if rr = RuneError \<and> sz = 1 then 0 else sz + plain_bytes (drop sz (c # cs)))"
  by pat_completeness auto
termination
  by (relation "measure length") (auto dest: Decode_rest)

text \<open>The second loop: from the bytes still to read, with the bytes written so far.\<close>

definition simple_escape :: "char \<Rightarrow> char option" where
  "simple_escape c =
     (if c \<in> {dquote, CHR 0x5C, CHR ''/'', CHR 0x27} then Some c
      else if c = CHR ''b'' then Some (CHR 0x08)
      else if c = CHR ''f'' then Some (CHR 0x0C)
      else if c = CHR ''n'' then Some (CHR 0x0A)
      else if c = CHR ''r'' then Some (CHR 0x0D)
      else if c = CHR ''t'' then Some (CHR 0x09)
      else None)"

function unquote_loop :: "string \<Rightarrow> bytes \<Rightarrow> bytes option" where
  "unquote_loop [] b = Some b"
| "unquote_loop (c # cs) b =
     (if c = CHR 0x5C then
        (case cs of
           [] \<Rightarrow> None
         | d # ds \<Rightarrow>
             (case simple_escape d of
                Some x \<Rightarrow> unquote_loop ds (b @ [x])
              | None \<Rightarrow>
                  if d = CHR ''u'' then
                    (case getu4 (c # cs) of
                       None \<Rightarrow> None
                     | Some rr \<Rightarrow>
                         let s' = drop 6 (c # cs) in
                         if IsSurrogate rr then
                           (let dec = (case getu4 s' of None \<Rightarrow> RuneError | Some rr1 \<Rightarrow> utf16_DecodeRune rr rr1)
                            in if dec \<noteq> RuneError then unquote_loop (drop 6 s') (b @ EncodeRune dec)
                               else unquote_loop s' (b @ EncodeRune RuneError))
                         else unquote_loop s' (b @ EncodeRune rr))
                  else None))
      else if c = dquote \<or> byte c < 0x20 then None
      else if byte c < RuneSelf then unquote_loop cs (b @ [c])
      else
        let (rr, sz) = DecodeRuneInString (c # cs) in
        unquote_loop (drop sz (c # cs)) (b @ EncodeRune rr))"
  by pat_completeness auto
termination
  by (relation "measure (\<lambda>(s, b). length s)") (auto dest: Decode_rest)

definition unquoteBytes :: "string \<Rightarrow> bytes option" where
  "unquoteBytes s =
     (if length s < 2 \<or> s ! 0 \<noteq> dquote \<or> s ! (length s - 1) \<noteq> dquote then None
      else
        let s = drop 1 (take (length s - 1) s); r = plain_bytes s in
        if r = length s then Some s else unquote_loop (drop r s) (take r s))"

section \<open>Field names\<close>

text \<open>
  The loop of \<open>foldRune\<close> goes up an orbit of \<open>SimpleFold\<close>, so the number of runes is fuel enough.
\<close>

fun foldRune :: "(rune \<Rightarrow> rune) \<Rightarrow> nat \<Rightarrow> rune \<Rightarrow> rune" where
  "foldRune simple_fold 0 r = r"
| "foldRune simple_fold (Suc n) r =
     (let r2 = simple_fold r in if r2 \<le> r then r2 else foldRune simple_fold n r2)"

function appendFoldedName :: "(rune \<Rightarrow> rune) \<Rightarrow> bytes \<Rightarrow> string \<Rightarrow> bytes" where
  "appendFoldedName simple_fold out [] = out"
| "appendFoldedName simple_fold out (c # cs) =
     (if byte c < RuneSelf then
        appendFoldedName simple_fold
          (out @ [if CHR ''a'' \<le> c \<and> c \<le> CHR ''z'' then char_of (byte c - 32) else c]) cs
      else
        let (r, n) = DecodeRuneInString (c # cs) in
        appendFoldedName simple_fold (AppendRune out (foldRune simple_fold (MaxRune + 1) r)) (drop n (c # cs)))"
  by pat_completeness auto
termination
  by (relation "measure (\<lambda>(f, b, s). length s)") (auto dest: Decode_rest)

definition foldName :: "(rune \<Rightarrow> rune) \<Rightarrow> string \<Rightarrow> bytes" where
  "foldName simple_fold inp = appendFoldedName simple_fold [] inp"

text \<open>
  The field for a key: \<open>byExactName\<close>, then \<open>byFoldedName\<close>, in which the first field with a given
  folded name has precedence. The index of the field is returned.
\<close>

fun index_of :: "('a \<Rightarrow> bool) \<Rightarrow> 'a list \<Rightarrow> nat option" where
  "index_of P [] = None"
| "index_of P (x # xs) = (if P x then Some 0 else map_option Suc (index_of P xs))"

definition field_index :: "(rune \<Rightarrow> rune) \<Rightarrow> (string \<times> gotype) list \<Rightarrow> string \<Rightarrow> nat option" where
  "field_index simple_fold flds key =
     (case index_of (\<lambda>(n, t). n = key) flds of
        Some i \<Rightarrow> Some i
      | None \<Rightarrow> index_of (\<lambda>(n, t). foldName simple_fold n = foldName simple_fold key) flds)"

section \<open>The decoder's state\<close>

text \<open>The error context is the name of the struct type, if any, and the stack of field names.\<close>

record decodeState =
  data :: string
  off :: nat
  opcode :: scan_op
  scan :: scanner
  errorContext :: "(string option \<times> string list) option"
  savedError :: "error option"

definition readIndex :: "decodeState \<Rightarrow> nat" where
  "readIndex d = off d - 1"

fun join_dots :: "string list \<Rightarrow> string" where
  "join_dots [] = []"
| "join_dots [x] = x"
| "join_dots (x # y # ys) = x @ dot # join_dots (y # ys)"

fun addErrorContext :: "decodeState \<Rightarrow> error \<Rightarrow> error" where
  "addErrorContext d (UnmarshalTypeError val t ofs st fld) =
     (case errorContext d of
        None \<Rightarrow> UnmarshalTypeError val t ofs st fld
      | Some (str, stack) \<Rightarrow>
          if str \<noteq> None \<or> stack \<noteq> [] then
            (case str of
               None \<Rightarrow> NilDeref
             | Some name \<Rightarrow>
                 UnmarshalTypeError val t ofs name (join_dots (if fld \<noteq> [] then stack @ [fld] else stack)))
          else UnmarshalTypeError val t ofs st fld)"
| "addErrorContext d e = e"

definition saveError :: "decodeState \<Rightarrow> error \<Rightarrow> decodeState" where
  "saveError d e = (if savedError d = None then d\<lparr>savedError := Some (addErrorContext d e)\<rparr> else d)"

text \<open>Loops over the bytes from the read offset on: the scanner, the opcode and the new offset.\<close>

fun skip_loop :: "scanner \<Rightarrow> string \<Rightarrow> nat \<Rightarrow> nat \<Rightarrow> (scanner \<times> scan_op \<times> nat) option" where
  "skip_loop s [] i depth = None"
| "skip_loop s (c # cs) i depth =
     (case scan_step s c of
        (op, s') \<Rightarrow>
          if length (parseState s') < depth then Some (s', op, i + 1) else skip_loop s' cs (i + 1) depth)"

definition skip :: "decodeState \<Rightarrow> jfault + decodeState" where
  "skip d =
     (case skip_loop (scan d) (drop (off d) (data d)) (off d) (length (parseState (scan d))) of
        None \<Rightarrow> Inl Panic
      | Some (s, op, i) \<Rightarrow> Inr (d\<lparr>scan := s, opcode := op, off := i\<rparr>))"

definition scanNext :: "decodeState \<Rightarrow> decodeState" where
  "scanNext d =
     (if off d < length (data d) then
        (case scan_step (scan d) (data d ! off d) of (op, s) \<Rightarrow> d\<lparr>scan := s, opcode := op, off := off d + 1\<rparr>)
      else (case scan_eof (scan d) of (op, s) \<Rightarrow> d\<lparr>scan := s, opcode := op, off := length (data d) + 1\<rparr>))"

fun while_loop :: "scanner \<Rightarrow> string \<Rightarrow> nat \<Rightarrow> scan_op \<Rightarrow> scanner \<times> (scan_op \<times> nat) option" where
  "while_loop s [] i op = (s, None)"
| "while_loop s (c # cs) i op =
     (case scan_step s c of
        (newOp, s') \<Rightarrow> if newOp \<noteq> op then (s', Some (newOp, i + 1)) else while_loop s' cs (i + 1) op)"

definition scanWhile :: "decodeState \<Rightarrow> scan_op \<Rightarrow> decodeState" where
  "scanWhile d op =
     (case while_loop (scan d) (drop (off d) (data d)) (off d) op of
        (s, Some (newOp, i)) \<Rightarrow> d\<lparr>scan := s, opcode := newOp, off := i\<rparr>
      | (s, None) \<Rightarrow>
          (case scan_eof s of (eop, s') \<Rightarrow> d\<lparr>scan := s', opcode := eop, off := length (data d) + 1\<rparr>))"

text \<open>How far \<open>rescanLiteral\<close> moves inside a string; an escape at the very end counts two.\<close>

fun string_len :: "string \<Rightarrow> nat" where
  "string_len [] = 0"
| "string_len (c # cs) =
     (if c = CHR 0x5C then (case cs of [] \<Rightarrow> 2 | _ # ds \<Rightarrow> 2 + string_len ds)
      else if c = dquote then 1
      else 1 + string_len cs)"

definition number_char :: "char \<Rightarrow> bool" where
  "number_char c \<longleftrightarrow> c \<in> set ''0123456789.eE+-''"

definition literal_len :: "char \<Rightarrow> string \<Rightarrow> nat" where
  "literal_len c rest =
     (if c = dquote then string_len rest
      else if c \<in> set ''0123456789-'' then length (takeWhile number_char rest)
      else if c = CHR ''t'' then 3
      else if c = CHR ''f'' then 4
      else if c = CHR ''n'' then 3
      else 0)"

definition rescanLiteral :: "decodeState \<Rightarrow> jfault + decodeState" where
  "rescanLiteral d =
     (if off d = 0 \<or> off d > length (data d) then Inl Panic
      else
        let i = off d + literal_len (data d ! (off d - 1)) (drop (off d) (data d)) in
        Inr (if i < length (data d)
             then (case stateEndValue (scan d) (data d ! i) of (op, s) \<Rightarrow> d\<lparr>scan := s, opcode := op, off := i + 1\<rparr>)
             else d\<lparr>opcode := scanEnd, off := i + 1\<rparr>))"

text \<open>\<open>d.data[start:d.readIndex()]\<close>.\<close>

definition item_from :: "decodeState \<Rightarrow> nat \<Rightarrow> jfault + string" where
  "item_from d start =
     (if start \<le> readIndex d \<and> readIndex d \<le> length (data d)
      then Inr (take (readIndex d - start) (drop start (data d))) else Inl Panic)"

section \<open>Storing a literal\<close>

definition type_error :: "decodeState \<Rightarrow> string \<Rightarrow> gotype \<Rightarrow> nat \<Rightarrow> decodeState" where
  "type_error d val t ofs = saveError d (UnmarshalTypeError val (type_string t) ofs [] [])"

definition literalStore :: "decodeState \<Rightarrow> string \<Rightarrow> gotype \<Rightarrow> goval \<Rightarrow> jfault + (decodeState \<times> goval)" where
  "literalStore d item t v =
     (case item of
        [] \<Rightarrow>
          Inr (saveError d (Errorf ''json: invalid use of ,string struct tag, trying to unmarshal %q into %v''
                 [[], type_string t] None), v)
      | c # _ \<Rightarrow>
          if c = CHR ''n'' then Inr (d, case t of TSlice _ \<Rightarrow> VSlice True [] [] | _ \<Rightarrow> v)
          else if c = CHR ''t'' \<or> c = CHR ''f'' then Inr (type_error d ''bool'' t (readIndex d), v)
          else if c = dquote then
            (case unquoteBytes item of
               None \<Rightarrow> Inl Panic
             | Some s \<Rightarrow> (case t of TString \<Rightarrow> Inr (d, VString s) | _ \<Rightarrow> Inr (type_error d ''string'' t (readIndex d), v)))
          else if c \<noteq> CHR ''-'' \<and> (c < CHR ''0'' \<or> c > CHR ''9'') then Inl Panic
          else Inr (type_error d ''number'' t (readIndex d), v))"

section \<open>Values\<close>

text \<open>The element of a slice at index \<open>i\<close>, which is at most its length; and the slice after a store.\<close>

definition slice_elem :: "gotype \<Rightarrow> goval list \<Rightarrow> goval list \<Rightarrow> nat \<Rightarrow> goval" where
  "slice_elem t live stale i =
     (if i < length live then live ! i else case stale of [] \<Rightarrow> zero_value t | x # _ \<Rightarrow> x)"

definition slice_store :: "goval list \<Rightarrow> goval list \<Rightarrow> nat \<Rightarrow> goval \<Rightarrow> goval list \<times> goval list" where
  "slice_store live stale i x = (if i < length live then (live[i := x], stale) else (live @ [x], tl stale))"

text \<open>What \<open>array\<close> does after its loop: cut the slice to \<open>i\<close> elements, or make a fresh empty one.\<close>

definition slice_finish :: "goval list \<Rightarrow> goval list \<Rightarrow> nat \<Rightarrow> goval" where
  "slice_finish live stale i =
     (if i = 0 then VSlice False [] [] else VSlice False (take i live) (drop i live @ stale))"

definition skip_space_op :: "decodeState \<Rightarrow> decodeState" where
  "skip_space_op d = (if opcode d = scanSkipSpace then scanWhile d scanSkipSpace else d)"

definition enter_field :: "decodeState \<Rightarrow> string \<Rightarrow> string \<Rightarrow> decodeState" where
  "enter_field d tname fname =
     d\<lparr>errorContext := Some (Some tname, (case errorContext d of None \<Rightarrow> [] | Some (_, st) \<Rightarrow> st) @ [fname])\<rparr>"

definition leave_field :: "decodeState \<Rightarrow> string option \<times> string list \<Rightarrow> decodeState" where
  "leave_field d orig =
     (case errorContext d of
        None \<Rightarrow> d
      | Some (_, st) \<Rightarrow> d\<lparr>errorContext := Some (fst orig, take (length (snd orig)) st)\<rparr>)"

text \<open>The key of an object member: its literal is read and unquoted.\<close>

definition read_key :: "decodeState \<Rightarrow> jfault + (decodeState \<times> string)" where
  "read_key d =
     (let start = readIndex d in
      case rescanLiteral d of
        Inl e \<Rightarrow> Inl e
      | Inr d1 \<Rightarrow>
          (case item_from d1 start of
             Inl e \<Rightarrow> Inl e
           | Inr item \<Rightarrow> (case unquoteBytes item of None \<Rightarrow> Inl Panic | Some key \<Rightarrow> Inr (d1, key))))"

text \<open>
  The loops of \<open>array\<close> and \<open>object\<close>, over the function that decodes a value inside.
\<close>

type_synonym decoder = "decodeState \<Rightarrow> (gotype \<times> goval) option \<Rightarrow> jfault + (decodeState \<times> goval option)"

fun array_loop :: "decoder \<Rightarrow> nat \<Rightarrow> decodeState \<Rightarrow> gotype \<Rightarrow> goval list \<Rightarrow> goval list \<Rightarrow> nat
    \<Rightarrow> jfault + (decodeState \<times> goval)" where
  "array_loop val 0 d et live stale i = Inl NoFuel"
| "array_loop val (Suc n) d et live stale i =
     (let d1 = scanWhile d scanSkipSpace in
      if opcode d1 = scanEndArray then Inr (d1, slice_finish live stale i)
      else
        (case val d1 (Some (et, slice_elem et live stale i)) of
           Inl e \<Rightarrow> Inl e
         | Inr (d2, None) \<Rightarrow> Inl Panic
         | Inr (d2, Some x) \<Rightarrow>
             (let (live, stale) = slice_store live stale i x; d3 = skip_space_op d2 in
              if opcode d3 = scanEndArray then Inr (d3, slice_finish live stale (i + 1))
              else if opcode d3 \<noteq> scanArrayValue then Inl Panic
              else array_loop val n d3 et live stale (i + 1))))"

definition decode_array :: "decoder \<Rightarrow> nat \<Rightarrow> decodeState \<Rightarrow> gotype \<Rightarrow> goval \<Rightarrow> jfault + (decodeState \<times> goval)" where
  "decode_array val n d t x =
     (case (t, x) of
        (TSlice et, VSlice isnil live stale) \<Rightarrow> array_loop val n d et live stale 0
      | _ \<Rightarrow> (case skip (type_error d ''array'' t (off d)) of Inl e \<Rightarrow> Inl e | Inr d1 \<Rightarrow> Inr (d1, x)))"

fun object_loop :: "(rune \<Rightarrow> rune) \<Rightarrow> decoder \<Rightarrow> nat \<Rightarrow> decodeState \<Rightarrow> string \<Rightarrow> (string \<times> gotype) list \<Rightarrow> goval list
    \<Rightarrow> string option \<times> string list \<Rightarrow> jfault + (decodeState \<times> goval)" where
  "object_loop sf val 0 d tname flds vs orig = Inl NoFuel"
| "object_loop sf val (Suc n) d tname flds vs orig =
     (let d1 = scanWhile d scanSkipSpace in
      if opcode d1 = scanEndObject then Inr (d1, VStruct vs)
      else if opcode d1 \<noteq> scanBeginLiteral then Inl Panic
      else
        (case read_key d1 of
           Inl e \<Rightarrow> Inl e
         | Inr (d2, key) \<Rightarrow>
             (let f = field_index sf flds key;
                  d3 = (case f of None \<Rightarrow> d2 | Some i \<Rightarrow> enter_field d2 tname (fst (flds ! i)));
                  d4 = skip_space_op d3
              in
              if opcode d4 \<noteq> scanObjectKey then Inl Panic
              else
                (case val (scanWhile d4 scanSkipSpace) (map_option (\<lambda>i. (snd (flds ! i), vs ! i)) f) of
                   Inl e \<Rightarrow> Inl e
                 | Inr (d5, x) \<Rightarrow>
                     (let vs1 = (case (f, x) of (Some i, Some y) \<Rightarrow> vs[i := y] | _ \<Rightarrow> vs);
                          d6 = leave_field (skip_space_op d5) orig
                      in
                      if opcode d6 = scanEndObject then Inr (d6, VStruct vs1)
                      else if opcode d6 \<noteq> scanObjectValue then Inl Panic
                      else object_loop sf val n d6 tname flds vs1 orig)))))"

definition decode_object :: "(rune \<Rightarrow> rune) \<Rightarrow> decoder \<Rightarrow> nat \<Rightarrow> decodeState \<Rightarrow> gotype \<Rightarrow> goval
    \<Rightarrow> jfault + (decodeState \<times> goval)" where
  "decode_object sf val n d t x =
     (case (t, x) of
        (TStruct str name flds, VStruct vs) \<Rightarrow>
          object_loop sf val n d name flds vs (case errorContext d of None \<Rightarrow> (None, []) | Some c \<Rightarrow> c)
      | _ \<Rightarrow> (case skip (type_error d ''object'' t (off d)) of Inl e \<Rightarrow> Inl e | Inr d1 \<Rightarrow> Inr (d1, x)))"

text \<open>The literal case of \<open>value\<close>; an invalid target discards the literal.\<close>

definition decode_literal :: decoder where
  "decode_literal d v =
     (let start = readIndex d in
      case rescanLiteral d of
        Inl e \<Rightarrow> Inl e
      | Inr d1 \<Rightarrow>
          (case v of
             None \<Rightarrow> Inr (d1, None)
           | Some (t, x) \<Rightarrow>
               (case item_from d1 start of
                  Inl e \<Rightarrow> Inl e
                | Inr item \<Rightarrow>
                    (case literalStore d1 item t x of Inl e \<Rightarrow> Inl e | Inr (d2, x2) \<Rightarrow> Inr (d2, Some x2)))))"

text \<open>The composite cases: decode with \<open>dec\<close>, or skip if the target is invalid; then read one byte.\<close>

definition decode_composite :: "(gotype \<Rightarrow> goval \<Rightarrow> jfault + (decodeState \<times> goval)) \<Rightarrow> decoder" where
  "decode_composite dec d v =
     (case v of
        Some (t, x) \<Rightarrow> (case dec t x of Inl e \<Rightarrow> Inl e | Inr (d1, x1) \<Rightarrow> Inr (scanNext d1, Some x1))
      | None \<Rightarrow> (case skip d of Inl e \<Rightarrow> Inl e | Inr d1 \<Rightarrow> Inr (scanNext d1, None)))"

primrec decode_value :: "(rune \<Rightarrow> rune) \<Rightarrow> nat \<Rightarrow> decoder" where
  "decode_value sf 0 d v = Inl NoFuel"
| "decode_value sf (Suc n) d v =
     (if opcode d = scanBeginArray then decode_composite (decode_array (decode_value sf n) n d) d v
      else if opcode d = scanBeginObject then decode_composite (decode_object sf (decode_value sf n) n d) d v
      else if opcode d = scanBeginLiteral then decode_literal d v
      else Inl Panic)"

definition decode_init :: "string \<Rightarrow> scanner \<Rightarrow> decodeState" where
  "decode_init dat s =
     \<lparr>data = dat, off = 0, opcode = scanContinue, scan = s, errorContext = None, savedError = None\<rparr>"

text \<open>\<open>d.unmarshal\<close> for a non-nil pointer to a value of type \<open>t\<close>.\<close>

definition unmarshal :: "(rune \<Rightarrow> rune) \<Rightarrow> decodeState \<Rightarrow> gotype \<Rightarrow> goval \<Rightarrow> jfault + (error option \<times> goval)" where
  "unmarshal sf d t v =
     (case decode_value sf (2 * length (data d) + 4) (scanWhile (d\<lparr>scan := scan_reset (scan d)\<rparr>) scanSkipSpace) (Some (t, v)) of
        Inl e \<Rightarrow> Inl e
      | Inr (d1, x) \<Rightarrow> Inr (savedError d1, case x of None \<Rightarrow> v | Some y \<Rightarrow> y))"

definition Unmarshal :: "(rune \<Rightarrow> rune) \<Rightarrow> string \<Rightarrow> gotype \<Rightarrow> goval \<Rightarrow> jfault + (error option \<times> goval)" where
  "Unmarshal sf dat t v =
     (case checkValid dat newScanner of
        (Some e, s) \<Rightarrow> Inr (Some e, v)
      | (None, s) \<Rightarrow> unmarshal sf (decode_init dat s) t v)"

end
