(* ===== verification/JsonGrammar.thy ===== *)
theory JsonGrammar
  imports JsonScan
begin

text \<open>
  The JSON grammar of RFC 8259, with a bound on nesting, and the proof that the scanner accepts
  exactly its texts. The scanner is first reduced to the automaton behind it: a state and a
  stack, without the record of errors and of bytes read.
\<close>

section \<open>The automaton behind the scanner\<close>

type_synonym config = "scan_state \<times> parse_state list"

definition at_config :: "config \<Rightarrow> scanner" where
  "at_config q = \<lparr>step = fst q, endTop = (fst q = StEndTop), parseState = snd q, s_err = None, sbytes = 0\<rparr>"

definition scan_config :: "scanner \<Rightarrow> config" where
  "scan_config s = (step s, parseState s)"

definition on_course :: "scanner \<Rightarrow> bool" where
  "on_course s \<longleftrightarrow> s_err s = None \<and> endTop s = (step s = StEndTop) \<and> step s \<noteq> StError"

definition failing :: "scan_op \<times> scanner \<Rightarrow> bool" where
  "failing r \<longleftrightarrow> fst r = scanError \<or> step (snd r) = StError"

definition astep :: "config \<Rightarrow> char \<Rightarrow> (scan_op \<times> config) option" where
  "astep q c =
     (let r = scan_step (at_config q) c in if failing r then None else Some (fst r, scan_config (snd r)))"

text \<open>A run over a text, in which the stack never gets shorter than \<open>k\<close>.\<close>

fun brun :: "nat \<Rightarrow> config \<Rightarrow> string \<Rightarrow> config option" where
  "brun k q [] = Some q"
| "brun k q (c # cs) =
     (case astep q c of None \<Rightarrow> None | Some (op, q') \<Rightarrow> if length (snd q') < k then None else brun k q' cs)"

abbreviation arun :: "config \<Rightarrow> string \<Rightarrow> config option" where
  "arun \<equiv> brun 0"

lemma brun_append: "brun k q (xs @ ys) = (case brun k q xs of None \<Rightarrow> None | Some q' \<Rightarrow> brun k q' ys)"
  by (induction xs arbitrary: q) (auto split: option.split)

lemma brun_mono: "brun k q cs = Some q' \<Longrightarrow> j \<le> k \<Longrightarrow> brun j q cs = Some q'"
  by (induction cs arbitrary: q) (auto split: option.splits if_splits)

lemmas state_defs = stateBeginValueOrEmpty_def stateBeginValue_def stateBeginStringOrEmpty_def stateBeginString_def
  stateEndValue_def stateEndTop_def stateInString_def stateInStringEsc_def stateInStringEscU_def
  stateInStringEscU1_def stateInStringEscU12_def stateInStringEscU123_def stateNeg_def state1_def state0_def
  stateDot_def stateDot0_def stateE_def stateESign_def stateE0_def stateT_def stateTr_def stateTru_def stateF_def
  stateFa_def stateFal_def stateFals_def stateN_def stateNu_def stateNul_def stateError_def
  pushParseState_def popParseState_def scan_error_def Let_def

text \<open>A scanner on course does what its configuration does.\<close>

definition same :: "scanner \<Rightarrow> scanner \<Rightarrow> bool" where
  "same s1 s2 \<longleftrightarrow> step s1 = step s2 \<and> parseState s1 = parseState s2 \<and> endTop s1 = endTop s2 \<and>
     (s_err s1 = None) = (s_err s2 = None)"

definition both :: "scan_op \<times> scanner \<Rightarrow> scan_op \<times> scanner \<Rightarrow> bool" where
  "both r1 r2 \<longleftrightarrow> fst r1 = fst r2 \<and> same (snd r1) (snd r2)"

lemma both_EndValue:
  assumes "same s1 s2"
  shows "both (stateEndValue s1 c) (stateEndValue s2 c)"
proof (cases "parseState s2")
  case Nil
  then show ?thesis using assms
    by (simp add: both_def same_def stateEndValue_def stateEndTop_def scan_error_def)
next
  case (Cons x xs)
  then show ?thesis using assms
    by (cases x) (simp_all add: both_def same_def stateEndValue_def popParseState_def scan_error_def Let_def)
qed

lemma both_BeginValue: "same s1 s2 \<Longrightarrow> both (stateBeginValue s1 c) (stateBeginValue s2 c)"
  by (simp add: both_def same_def stateBeginValue_def pushParseState_def scan_error_def Let_def)

lemma both_state0: "same s1 s2 \<Longrightarrow> both (state0 s1 c) (state0 s2 c)"
  using both_EndValue [of s1 s2 c] by (simp add: state0_def) (simp add: both_def same_def)

lemma both_BeginString:
  "same s1 s2 \<Longrightarrow> both (stateBeginString s1 c) (stateBeginString s2 c)"
  by (simp add: both_def same_def stateBeginString_def scan_error_def)

lemma both_step:
  assumes "same s1 s2"
  shows "both (scan_step s1 c) (scan_step s2 c)"
proof -
  have t: "same (s1\<lparr>parseState := x # tl (parseState s1)\<rparr>) (s2\<lparr>parseState := x # tl (parseState s2)\<rparr>)" for x
    using assms by (simp add: same_def)
  have st: "step s1 = step s2" "parseState s1 = parseState s2" using assms by (simp_all add: same_def)
  note sub = both_EndValue [OF assms] both_BeginValue [OF assms] both_state0 [OF assms] both_BeginString [OF assms]
    both_EndValue [OF t]
  show ?thesis
  proof (cases "step s2")
    case StBeginValueOrEmpty
    then show ?thesis using sub assms by (simp add: scan_step_def st stateBeginValueOrEmpty_def) (simp add: both_def)
  next
    case StBeginStringOrEmpty
    then show ?thesis using sub assms by (simp add: scan_step_def st stateBeginStringOrEmpty_def) (simp add: both_def)
  next
    case St1
    then show ?thesis using sub assms by (simp add: scan_step_def st state1_def) (simp add: both_def same_def)
  next
    case StDot0
    then show ?thesis using sub assms by (simp add: scan_step_def st stateDot0_def) (simp add: both_def same_def)
  next
    case StE0
    then show ?thesis using sub assms by (simp add: scan_step_def st stateE0_def) (simp add: both_def same_def)
  qed (use sub assms in \<open>simp_all add: scan_step_def st\<close>,
       simp_all add: both_def same_def state_defs)
qed

lemma on_course_same: "on_course s \<Longrightarrow> same s (at_config (scan_config s))"
  by (simp add: on_course_def same_def at_config_def scan_config_def)

lemma course_EndValue:
  assumes "on_course s" "\<not> endTop s" "\<not> failing (stateEndValue s c)"
  shows "on_course (snd (stateEndValue s c))"
proof (cases "parseState s")
  case Nil
  then show ?thesis using assms
    by (cases "isSpace c") (simp_all add: stateEndValue_def stateEndTop_def scan_error_def on_course_def failing_def)
next
  case (Cons x xs)
  then show ?thesis using assms
    by (cases x) (simp_all add: stateEndValue_def popParseState_def scan_error_def on_course_def failing_def Let_def
        split: if_splits)
qed

lemma course_step:
  assumes "on_course s" "\<not> failing (scan_step s c)"
  shows "on_course (snd (scan_step s c))"
proof -
  have c1: "on_course (s\<lparr>parseState := x\<rparr>) = on_course s" for x by (simp add: on_course_def)
  have e: "\<not> endTop s" if "step s \<noteq> StEndTop" using assms that by (simp add: on_course_def)
  show ?thesis
  proof (cases "step s")
    case StBeginStringOrEmpty
    then show ?thesis using assms e course_EndValue [of "s\<lparr>parseState := parseObjectValue # tl (parseState s)\<rparr>" c]
      by (auto simp: scan_step_def stateBeginStringOrEmpty_def stateBeginString_def scan_error_def failing_def
          on_course_def split: if_splits)
  next
    case StBeginValueOrEmpty
    then show ?thesis using assms e course_EndValue [of s c]
      by (auto simp: scan_step_def stateBeginValueOrEmpty_def stateBeginValue_def scan_error_def failing_def
          pushParseState_def Let_def on_course_def split: if_splits)
  next
    case St1
    then show ?thesis using assms e course_EndValue [of s c]
      by (auto simp: scan_step_def state1_def state0_def on_course_def split: if_splits)
  next
    case St0
    then show ?thesis using assms e course_EndValue [of s c]
      by (auto simp: scan_step_def state0_def on_course_def split: if_splits)
  next
    case StDot0
    then show ?thesis using assms e course_EndValue [of s c]
      by (auto simp: scan_step_def stateDot0_def on_course_def split: if_splits)
  next
    case StE0
    then show ?thesis using assms e course_EndValue [of s c]
      by (auto simp: scan_step_def stateE0_def on_course_def split: if_splits)
  next
    case StEndValue
    then show ?thesis using assms e course_EndValue [of s c] by (simp add: scan_step_def)
  qed (use assms in \<open>auto simp: scan_step_def state_defs on_course_def failing_def split: if_splits\<close>)
qed

text \<open>The step of a scanner on course, in terms of its configuration.\<close>

lemma scan_step_astep:
  assumes "on_course s"
  shows "case astep (scan_config s) c of
      None \<Rightarrow> failing (scan_step s c)
    | Some (op, q) \<Rightarrow> \<exists>s'. scan_step s c = (op, s') \<and> scan_config s' = q \<and> on_course s'"
proof -
  obtain op s' where r: "scan_step s c = (op, s')" by (cases "scan_step s c")
  obtain op2 s2 where r2: "scan_step (at_config (scan_config s)) c = (op2, s2)"
    by (cases "scan_step (at_config (scan_config s)) c")
  have "both (op, s') (op2, s2)" using both_step [OF on_course_same [OF assms], of c] r r2 by simp
  then have eq: "op = op2" "scan_config s' = scan_config s2" "failing (op, s') = failing (op2, s2)"
    by (simp_all add: both_def same_def scan_config_def failing_def)
  have "on_course s'" if "\<not> failing (op, s')" using course_step [OF assms, of c] r that by simp
  with eq r show ?thesis by (simp add: astep_def r2 Let_def)
qed

section \<open>Its transitions\<close>

definition popped :: "parse_state list \<Rightarrow> config" where
  "popped ps = (if ps = [] then (StEndTop, []) else (StEndValue, ps))"

lemmas astep_unfold = astep_def failing_def at_config_def scan_config_def scan_step_def state_defs popped_def

definition end_step :: "parse_state list \<Rightarrow> char \<Rightarrow> (scan_op \<times> config) option" where
  "end_step ps c =
     (case ps of
        [] \<Rightarrow> if isSpace c then Some (scanEnd, StEndTop, []) else None
      | x # rest \<Rightarrow>
          if isSpace c then Some (scanSkipSpace, StEndValue, ps)
          else
            (case x of
               parseObjectKey \<Rightarrow> if c = CHR '':'' then Some (scanObjectKey, StBeginValue, parseObjectValue # rest) else None
             | parseObjectValue \<Rightarrow>
                 if c = CHR '','' then Some (scanObjectValue, StBeginString, parseObjectKey # rest)
                 else if c = CHR ''}'' then Some (scanEndObject, popped rest) else None
             | parseArrayValue \<Rightarrow>
                 if c = CHR '','' then Some (scanArrayValue, StBeginValue, ps)
                 else if c = CHR '']'' then Some (scanEndArray, popped rest) else None))"

lemma end_value_step:
  assumes "fst q \<noteq> StEndTop"
  shows "(let r = stateEndValue (at_config q) c in if failing r then None else Some (fst r, scan_config (snd r))) =
    end_step (snd q) c"
proof (cases "snd q")
  case Nil
  then show ?thesis
    by (simp add: end_step_def stateEndValue_def stateEndTop_def scan_error_def failing_def at_config_def scan_config_def)
next
  case (Cons x xs)
  then show ?thesis using assms
    by (cases x) (simp_all add: end_step_def stateEndValue_def popParseState_def scan_error_def failing_def at_config_def
        scan_config_def popped_def Let_def)
qed

lemma astep_EndValue [simp]: "astep (StEndValue, ps) c = end_step ps c"
  using end_value_step [of "(StEndValue, ps)" c] by (simp add: astep_def scan_step_def at_config_def)

lemma astep_EndTop [simp]: "astep (StEndTop, ps) c = (if isSpace c then Some (scanEnd, StEndTop, ps) else None)"
  by (simp add: astep_unfold)

definition deepen :: "parse_state list \<Rightarrow> scan_op \<Rightarrow> scan_state \<Rightarrow> (scan_op \<times> config) option" where
  "deepen ps op st = (if length ps \<le> maxNestingDepth then Some (op, st, ps) else None)"

lemma astep_BeginValue [simp]:
  "astep (StBeginValue, ps) c =
     (if isSpace c then Some (scanSkipSpace, StBeginValue, ps)
      else if c = CHR ''{'' then deepen (parseObjectKey # ps) scanBeginObject StBeginStringOrEmpty
      else if c = CHR ''['' then deepen (parseArrayValue # ps) scanBeginArray StBeginValueOrEmpty
      else if c = dquote then Some (scanBeginLiteral, StInString, ps)
      else if c = CHR ''-'' then Some (scanBeginLiteral, StNeg, ps)
      else if c = CHR ''0'' then Some (scanBeginLiteral, St0, ps)
      else if c = CHR ''t'' then Some (scanBeginLiteral, StT, ps)
      else if c = CHR ''f'' then Some (scanBeginLiteral, StF, ps)
      else if c = CHR ''n'' then Some (scanBeginLiteral, StN, ps)
      else if CHR ''1'' \<le> c \<and> c \<le> CHR ''9'' then Some (scanBeginLiteral, St1, ps)
      else None)"
  by (simp add: astep_def failing_def at_config_def scan_config_def scan_step_def stateBeginValue_def pushParseState_def
      scan_error_def deepen_def Let_def)

lemma astep_BeginString [simp]:
  "astep (StBeginString, ps) c =
     (if isSpace c then Some (scanSkipSpace, StBeginString, ps)
      else if c = dquote then Some (scanBeginLiteral, StInString, ps) else None)"
  by (simp add: astep_unfold)

lemma astep_string [simp]:
  "astep (StInString, ps) c =
     (if c = dquote then Some (scanContinue, StEndValue, ps)
      else if c = CHR 0x5C then Some (scanContinue, StInStringEsc, ps)
      else if byte c < 0x20 then None else Some (scanContinue, StInString, ps))"
  "astep (StInStringEsc, ps) c =
     (if c \<in> set (CHR 0x5C # dquote # ''bfnrt/'') then Some (scanContinue, StInString, ps)
      else if c = CHR ''u'' then Some (scanContinue, StInStringEscU, ps) else None)"
  "astep (StInStringEscU, ps) c = (if is_hex c then Some (scanContinue, StInStringEscU1, ps) else None)"
  "astep (StInStringEscU1, ps) c = (if is_hex c then Some (scanContinue, StInStringEscU12, ps) else None)"
  "astep (StInStringEscU12, ps) c = (if is_hex c then Some (scanContinue, StInStringEscU123, ps) else None)"
  "astep (StInStringEscU123, ps) c = (if is_hex c then Some (scanContinue, StInString, ps) else None)"
  by (simp_all add: astep_unfold)

lemma astep_words [simp]:
  "astep (StT, ps) c = (if c = CHR ''r'' then Some (scanContinue, StTr, ps) else None)"
  "astep (StTr, ps) c = (if c = CHR ''u'' then Some (scanContinue, StTru, ps) else None)"
  "astep (StTru, ps) c = (if c = CHR ''e'' then Some (scanContinue, StEndValue, ps) else None)"
  "astep (StF, ps) c = (if c = CHR ''a'' then Some (scanContinue, StFa, ps) else None)"
  "astep (StFa, ps) c = (if c = CHR ''l'' then Some (scanContinue, StFal, ps) else None)"
  "astep (StFal, ps) c = (if c = CHR ''s'' then Some (scanContinue, StFals, ps) else None)"
  "astep (StFals, ps) c = (if c = CHR ''e'' then Some (scanContinue, StEndValue, ps) else None)"
  "astep (StN, ps) c = (if c = CHR ''u'' then Some (scanContinue, StNu, ps) else None)"
  "astep (StNu, ps) c = (if c = CHR ''l'' then Some (scanContinue, StNul, ps) else None)"
  "astep (StNul, ps) c = (if c = CHR ''l'' then Some (scanContinue, StEndValue, ps) else None)"
  by (simp_all add: astep_unfold)

lemma astep_number [simp]:
  "astep (StNeg, ps) c =
     (if c = CHR ''0'' then Some (scanContinue, St0, ps)
      else if CHR ''1'' \<le> c \<and> c \<le> CHR ''9'' then Some (scanContinue, St1, ps) else None)"
  "astep (StDot, ps) c = (if is_digit10 c then Some (scanContinue, StDot0, ps) else None)"
  "astep (StE, ps) c =
     (if c = CHR ''+'' \<or> c = CHR ''-'' then Some (scanContinue, StESign, ps)
      else if is_digit10 c then Some (scanContinue, StE0, ps) else None)"
  "astep (StESign, ps) c = (if is_digit10 c then Some (scanContinue, StE0, ps) else None)"
  by (simp_all add: astep_unfold)

lemma astep_number_end [simp]:
  "astep (St0, ps) c =
     (if c = CHR ''.'' then Some (scanContinue, StDot, ps)
      else if c = CHR ''e'' \<or> c = CHR ''E'' then Some (scanContinue, StE, ps) else end_step ps c)"
  "astep (St1, ps) c =
     (if is_digit10 c then Some (scanContinue, St1, ps)
      else if c = CHR ''.'' then Some (scanContinue, StDot, ps)
      else if c = CHR ''e'' \<or> c = CHR ''E'' then Some (scanContinue, StE, ps) else end_step ps c)"
  "astep (StDot0, ps) c =
     (if is_digit10 c then Some (scanContinue, StDot0, ps)
      else if c = CHR ''e'' \<or> c = CHR ''E'' then Some (scanContinue, StE, ps) else end_step ps c)"
  "astep (StE0, ps) c = (if is_digit10 c then Some (scanContinue, StE0, ps) else end_step ps c)"
  using end_value_step [of "(St0, ps)" c] end_value_step [of "(St1, ps)" c]
    end_value_step [of "(StDot0, ps)" c] end_value_step [of "(StE0, ps)" c]
  by (simp_all add: astep_def scan_step_def at_config_def state1_def state0_def stateDot0_def stateE0_def failing_def
      scan_config_def)

lemma astep_BeginValueOrEmpty [simp]:
  "astep (StBeginValueOrEmpty, ps) c =
     (if isSpace c then Some (scanSkipSpace, StBeginValueOrEmpty, ps)
      else if c = CHR '']'' then end_step ps c else astep (StBeginValue, ps) c)"
proof (cases "c = CHR '']''")
  case True
  then show ?thesis using end_value_step [of "(StBeginValueOrEmpty, ps)" c]
    by (simp add: astep_def scan_step_def at_config_def stateBeginValueOrEmpty_def isSpace_def)
next
  case False
  then show ?thesis
    by (simp add: astep_def scan_step_def at_config_def stateBeginValueOrEmpty_def failing_def scan_config_def
        stateBeginValue_def pushParseState_def scan_error_def deepen_def Let_def)
qed

lemma astep_BeginStringOrEmpty [simp]:
  "astep (StBeginStringOrEmpty, ps) c =
     (if isSpace c then Some (scanSkipSpace, StBeginStringOrEmpty, ps)
      else if c = CHR ''}'' then end_step (parseObjectValue # tl ps) c else astep (StBeginString, ps) c)"
proof (cases "c = CHR ''}''")
  case True
  then show ?thesis using end_value_step [of "(StBeginStringOrEmpty, parseObjectValue # tl ps)" c]
    by (simp add: astep_def scan_step_def at_config_def stateBeginStringOrEmpty_def isSpace_def)
next
  case False
  then show ?thesis
    by (simp add: astep_def scan_step_def at_config_def stateBeginStringOrEmpty_def failing_def scan_config_def
        stateBeginString_def scan_error_def Let_def)
qed

lemma astep_Error [simp]: "astep (StError, ps) c = None"
  by (simp add: astep_unfold)

section \<open>The grammar\<close>

definition jspaces :: "string \<Rightarrow> bool" where
  "jspaces s \<longleftrightarrow> list_all isSpace s"

inductive jchars :: "string \<Rightarrow> bool" where
  jc_end: "jchars []"
| jc_plain: "jchars s \<Longrightarrow> c \<noteq> dquote \<Longrightarrow> c \<noteq> CHR 0x5C \<Longrightarrow> \<not> byte c < 0x20 \<Longrightarrow> jchars (c # s)"
| jc_escape: "jchars s \<Longrightarrow> c \<in> set (CHR 0x5C # dquote # ''bfnrt/'') \<Longrightarrow> jchars (CHR 0x5C # c # s)"
| jc_unicode: "jchars s \<Longrightarrow> is_hex h1 \<Longrightarrow> is_hex h2 \<Longrightarrow> is_hex h3 \<Longrightarrow> is_hex h4 \<Longrightarrow>
    jchars (CHR 0x5C # CHR ''u'' # h1 # h2 # h3 # h4 # s)"

definition jstring :: "string \<Rightarrow> bool" where
  "jstring s \<longleftrightarrow> (\<exists>b. jchars b \<and> s = dquote # b @ [dquote])"

definition jdigits :: "string \<Rightarrow> bool" where
  "jdigits s \<longleftrightarrow> s \<noteq> [] \<and> list_all is_digit10 s"

definition jint :: "string \<Rightarrow> bool" where
  "jint s \<longleftrightarrow> s = ''0'' \<or> (\<exists>c ds. s = c # ds \<and> CHR ''1'' \<le> c \<and> c \<le> CHR ''9'' \<and> list_all is_digit10 ds)"

definition jexp :: "string \<Rightarrow> bool" where
  "jexp s \<longleftrightarrow> s = [] \<or> (\<exists>e sg ds. (e = CHR ''e'' \<or> e = CHR ''E'') \<and> (sg = [] \<or> sg = ''+'' \<or> sg = ''-'') \<and> jdigits ds \<and>
     s = e # sg @ ds)"

definition jfrac :: "string \<Rightarrow> bool" where
  "jfrac s \<longleftrightarrow> s = [] \<or> (\<exists>ds. s = CHR ''.'' # ds \<and> jdigits ds)"

definition jnumber :: "string \<Rightarrow> bool" where
  "jnumber s \<longleftrightarrow> (\<exists>m i f e. (m = [] \<or> m = ''-'') \<and> jint i \<and> jfrac f \<and> jexp e \<and> s = m @ i @ f @ e)"

definition jliteral :: "string \<Rightarrow> bool" where
  "jliteral s \<longleftrightarrow> s = ''true'' \<or> s = ''false'' \<or> s = ''null'' \<or> jstring s \<or> jnumber s"

text \<open>Values, elements of an array and members of an object, nested at most \<open>n\<close> deep.\<close>

inductive jvalue :: "nat \<Rightarrow> string \<Rightarrow> bool" and jelems :: "nat \<Rightarrow> string \<Rightarrow> bool" and jmembers :: "nat \<Rightarrow> string \<Rightarrow> bool" where
  jv_literal: "jliteral v \<Longrightarrow> jvalue n v"
| jv_empty_array: "jspaces a \<Longrightarrow> jvalue (Suc n) (CHR ''['' # a @ '']'')"
| jv_array: "jelems n e \<Longrightarrow> jvalue (Suc n) (CHR ''['' # e @ '']'')"
| jv_empty_object: "jspaces a \<Longrightarrow> jvalue (Suc n) (CHR ''{'' # a @ ''}'')"
| jv_object: "jmembers n m \<Longrightarrow> jvalue (Suc n) (CHR ''{'' # m @ ''}'')"
| je_one: "jspaces a \<Longrightarrow> jvalue n v \<Longrightarrow> jspaces b \<Longrightarrow> jelems n (a @ v @ b)"
| je_more: "jspaces a \<Longrightarrow> jvalue n v \<Longrightarrow> jspaces b \<Longrightarrow> jelems n e \<Longrightarrow> jelems n (a @ v @ b @ CHR '','' # e)"
| jm_one: "jspaces a \<Longrightarrow> jstring k \<Longrightarrow> jspaces b \<Longrightarrow> jspaces c \<Longrightarrow> jvalue n v \<Longrightarrow> jspaces d \<Longrightarrow>
    jmembers n (a @ k @ b @ CHR '':'' # c @ v @ d)"
| jm_more: "jspaces a \<Longrightarrow> jstring k \<Longrightarrow> jspaces b \<Longrightarrow> jspaces c \<Longrightarrow> jvalue n v \<Longrightarrow> jspaces d \<Longrightarrow> jmembers n m \<Longrightarrow>
    jmembers n (a @ k @ b @ CHR '':'' # c @ v @ d @ CHR '','' # m)"

definition json_text :: "string \<Rightarrow> bool" where
  "json_text s \<longleftrightarrow> (\<exists>a v b. jspaces a \<and> jvalue maxNestingDepth v \<and> jspaces b \<and> s = a @ v @ b)"

section \<open>The automaton runs through every text of the grammar\<close>

definition closed :: "scan_state \<Rightarrow> parse_state list \<Rightarrow> bool" where
  "closed st ps \<longleftrightarrow> st \<in> {StEndValue, St0, St1, StDot0, StE0} \<or> (st = StEndTop \<and> ps = [])"

lemma run_spaces:
  "jspaces a \<Longrightarrow> k \<le> length ps \<Longrightarrow> st \<in> {StBeginValue, StBeginValueOrEmpty, StBeginString, StBeginStringOrEmpty} \<Longrightarrow>
    brun k (st, ps) a = Some (st, ps)"
  by (induction a) (auto simp: jspaces_def)

lemma run_digits:
  "list_all is_digit10 ds \<Longrightarrow> k \<le> length ps \<Longrightarrow> st \<in> {St1, StDot0, StE0} \<Longrightarrow> brun k (st, ps) ds = Some (st, ps)"
  by (induction ds) auto

lemma run_chars: "jchars b \<Longrightarrow> k \<le> length ps \<Longrightarrow> brun k (StInString, ps) b = Some (StInString, ps)"
  by (induction b rule: jchars.induct) auto

lemma run_string:
  "jstring v \<Longrightarrow> k \<le> length ps \<Longrightarrow> st \<in> {StBeginValue, StBeginString} \<Longrightarrow> brun k (st, ps) v = Some (StEndValue, ps)"
  by (auto simp: jstring_def brun_append run_chars isSpace_def)

lemma run_jdigits:
  assumes "jdigits ds" "k \<le> length ps" "(st, st') \<in> {(StDot, StDot0), (StE, StE0), (StESign, StE0)}"
  shows "brun k (st, ps) ds = Some (st', ps)"
proof -
  obtain c cs where ds: "ds = c # cs" "is_digit10 c" "list_all is_digit10 cs"
    using assms(1) by (cases ds) (auto simp: jdigits_def)
  then have "c \<noteq> CHR ''+''" "c \<noteq> CHR ''-''" by (auto simp: is_digit10_def)
  with ds assms(2,3) run_digits [OF ds(3) assms(2), of st'] show ?thesis by auto
qed

lemma run_exp:
  assumes "jexp e" "k \<le> length ps" "st \<in> {St0, St1, StDot0}"
  shows "\<exists>st'. brun k (st, ps) e = Some (st', ps) \<and> closed st' ps"
proof (cases "e = []")
  case True
  then show ?thesis using assms(3) by (auto simp: closed_def)
next
  case False
  then obtain x sg ds where e: "e = x # sg @ ds" "x = CHR ''e'' \<or> x = CHR ''E''"
    "sg = [] \<or> sg = ''+'' \<or> sg = ''-''" "jdigits ds"
    using assms(1) by (auto simp: jexp_def)
  have "\<not> is_digit10 x" using e(2) by (auto simp: is_digit10_def)
  then have "brun k (st, ps) e = brun k (StE, ps) (sg @ ds)" using e(1,2) assms(2,3) by auto
  also have "\<dots> = Some (StE0, ps)"
    using e(3) run_jdigits [OF e(4) assms(2), of StE StE0] run_jdigits [OF e(4) assms(2), of StESign StE0] assms(2) by auto
  finally show ?thesis by (simp add: closed_def)
qed

lemma run_frac:
  assumes "jfrac f" "k \<le> length ps" "st \<in> {St0, St1}"
  shows "\<exists>st' \<in> {St0, St1, StDot0}. brun k (st, ps) f = Some (st', ps)"
proof (cases "f = []")
  case False
  then obtain ds where f: "f = CHR ''.'' # ds" "jdigits ds" using assms(1) by (auto simp: jfrac_def)
  have "\<not> is_digit10 CHR ''.''" by (simp add: is_digit10_def)
  with f assms(2,3) run_jdigits [OF f(2) assms(2), of StDot StDot0] show ?thesis by auto
qed (use assms(3) in auto)

lemma digit19: "CHR ''1'' \<le> c \<Longrightarrow> c \<le> CHR ''9'' \<Longrightarrow>
    \<not> isSpace c \<and> c \<notin> set ''{[-0tfn]}'' \<and> c \<noteq> dquote \<and> is_digit10 c"
  by (auto simp: isSpace_def is_digit10_def intro: order.trans [of "CHR ''0''" "CHR ''1''"])

lemma run_int:
  assumes "jint i" "k \<le> length ps" "st \<in> {StBeginValue, StNeg}"
  shows "\<exists>st' \<in> {St0, St1}. brun k (st, ps) i = Some (st', ps)"
proof (cases "i = ''0''")
  case True
  then show ?thesis using assms(2,3) by (auto simp: isSpace_def)
next
  case False
  then obtain c ds where i: "i = c # ds" "CHR ''1'' \<le> c" "c \<le> CHR ''9''" "list_all is_digit10 ds"
    using assms(1) by (auto simp: jint_def)
  have "brun k (St1, ps) ds = Some (St1, ps)" using run_digits [OF i(4) assms(2)] by blast
  with i assms(2,3) digit19 [OF i(2,3)] show ?thesis by auto
qed

lemma run_number:
  assumes "jnumber v" "k \<le> length ps"
  shows "\<exists>st. brun k (StBeginValue, ps) v = Some (st, ps) \<and> closed st ps"
proof -
  obtain m i f e where v: "m = [] \<or> m = ''-''" "jint i" "jfrac f" "jexp e" "v = m @ i @ f @ e"
    using assms(1) by (auto simp: jnumber_def)
  obtain st0 where st0: "brun k (StBeginValue, ps) m = Some (st0, ps)" "st0 \<in> {StBeginValue, StNeg}"
    using v(1) assms(2) by (auto simp: isSpace_def)
  obtain st1 where st1: "brun k (st0, ps) i = Some (st1, ps)" "st1 \<in> {St0, St1}" using run_int [OF v(2) assms(2) st0(2)] by blast
  obtain st2 where st2: "brun k (st1, ps) f = Some (st2, ps)" "st2 \<in> {St0, St1, StDot0}"
    using run_frac [OF v(3) assms(2) st1(2)] by blast
  show ?thesis using run_exp [OF v(4) assms(2) st2(2)] st0 st1 st2 v(5) by (simp add: brun_append)
qed

lemma run_literal:
  assumes "jliteral v" "k \<le> length ps"
  shows "\<exists>st. brun k (StBeginValue, ps) v = Some (st, ps) \<and> closed st ps"
  using assms(1) unfolding jliteral_def
proof (elim disjE)
  assume "jstring v"
  then show ?thesis using run_string [of v k ps StBeginValue] assms(2) by (simp add: closed_def)
qed (use run_number [of v k ps] assms(2) in \<open>simp_all add: isSpace_def closed_def\<close>)

text \<open>After a complete value, a byte that is no part of a number is read as at its end.\<close>

lemma closed_step: "closed st ps \<Longrightarrow> isSpace c \<or> c \<in> set '',:]}'' \<Longrightarrow> astep (st, ps) c = end_step ps c"
proof -
  assume c: "closed st ps" and d: "isSpace c \<or> c \<in> set '',:]}''"
  have "\<not> is_digit10 c \<and> c \<noteq> CHR ''.'' \<and> c \<noteq> CHR ''e'' \<and> c \<noteq> CHR ''E''"
    using d by (auto simp: isSpace_def is_digit10_def)
  moreover have "end_step [] c = astep (StEndTop, []) c" by (simp add: end_step_def)
  ultimately show ?thesis using c by (auto simp: closed_def simp del: astep_EndTop)
qed

lemma run_closed_spaces:
  assumes "closed st ps" "jspaces b" "ps \<noteq> []" "k \<le> length ps"
  shows "\<exists>st'. brun k (st, ps) b = Some (st', ps) \<and> closed st' ps"
proof (cases b)
  case Nil
  then show ?thesis using assms(1) by simp
next
  case (Cons x xs)
  have sp: "end_step ps y = Some (scanSkipSpace, StEndValue, ps)" if "isSpace y" for y
    using that assms(3) by (cases ps) (auto simp: end_step_def)
  have "brun k (StEndValue, ps) ys = Some (StEndValue, ps)" if "jspaces ys" for ys
    using that assms(4) by (induction ys) (auto simp: jspaces_def sp)
  then show ?thesis using Cons assms(2,4) sp closed_step [OF assms(1), of x] by (simp add: jspaces_def brun_append closed_def)
qed

lemma jvalue_first:
  assumes "jvalue n v"
  shows "v \<noteq> [] \<and> hd v \<noteq> CHR '']'' \<and> \<not> isSpace (hd v)"
proof -
  have num: "v \<noteq> [] \<and> hd v \<noteq> CHR '']'' \<and> \<not> isSpace (hd v)" if "jnumber v"
    using that digit19 [of "hd v"] by (auto simp: jnumber_def jint_def isSpace_def)
  from assms show ?thesis
    by (cases rule: jvalue.cases) (use num in \<open>auto simp: jliteral_def jstring_def isSpace_def\<close>)
qed

text \<open>A value cannot be taken for the closing bracket of an empty array.\<close>

lemma run_or_empty:
  assumes "v \<noteq> []" "hd v \<noteq> CHR '']''" "\<not> isSpace (hd v)"
  shows "brun k (StBeginValueOrEmpty, ps) v = brun k (StBeginValue, ps) v"
  using assms by (cases v) simp_all

lemma run_key:
  assumes "jstring s" "k \<le> length ps" "st \<in> {StBeginString, StBeginStringOrEmpty}"
  shows "brun k (st, ps) s = Some (StEndValue, ps)"
proof -
  have "brun k (StBeginStringOrEmpty, ps) s = brun k (StBeginString, ps) s" using assms(1) by (auto simp: jstring_def isSpace_def)
  then show ?thesis using assms(3) run_string [OF assms(1,2), of StBeginString] by auto
qed

definition runs_value :: "nat \<Rightarrow> string \<Rightarrow> bool" where
  "runs_value n v \<longleftrightarrow> (\<forall>ps. n + length ps \<le> maxNestingDepth \<longrightarrow>
     (\<exists>st. brun (length ps) (StBeginValue, ps) v = Some (st, ps) \<and> closed st ps))"

definition runs_elems :: "nat \<Rightarrow> string \<Rightarrow> bool" where
  "runs_elems n e \<longleftrightarrow> (\<forall>ps st. n + length ps + 1 \<le> maxNestingDepth \<longrightarrow> st \<in> {StBeginValue, StBeginValueOrEmpty} \<longrightarrow>
     (\<exists>st'. brun (length ps + 1) (st, parseArrayValue # ps) e = Some (st', parseArrayValue # ps) \<and>
        closed st' (parseArrayValue # ps)))"

definition runs_members :: "nat \<Rightarrow> string \<Rightarrow> bool" where
  "runs_members n m \<longleftrightarrow> (\<forall>ps st. n + length ps + 1 \<le> maxNestingDepth \<longrightarrow> st \<in> {StBeginString, StBeginStringOrEmpty} \<longrightarrow>
     (\<exists>st'. brun (length ps + 1) (st, parseObjectKey # ps) m = Some (st', parseObjectValue # ps) \<and>
        closed st' (parseObjectValue # ps)))"

lemma runs_valueD:
  assumes "runs_value n v" "n + length ps + 1 \<le> maxNestingDepth" "jspaces b"
  obtains st where "brun (length ps + 1) (StBeginValue, x # ps) (v @ b) = Some (st, x # ps)" "closed st (x # ps)"
proof -
  have "n + length (x # ps) \<le> maxNestingDepth" using assms(2) by simp
  with assms(1) obtain st where "brun (length (x # ps)) (StBeginValue, x # ps) v = Some (st, x # ps)" "closed st (x # ps)"
    unfolding runs_value_def by blast
  with run_closed_spaces [OF this(2) assms(3), of "length ps + 1"] that show ?thesis by (auto simp: brun_append)
qed

lemma runs_element:
  assumes "jspaces a" "jvalue n v" "runs_value n v" "jspaces b" "n + length ps + 1 \<le> maxNestingDepth"
    and "st \<in> {StBeginValue, StBeginValueOrEmpty}"
  shows "\<exists>st'. brun (length ps + 1) (st, parseArrayValue # ps) (a @ v @ b) = Some (st', parseArrayValue # ps) \<and>
    closed st' (parseArrayValue # ps)"
proof -
  let ?ps = "parseArrayValue # ps"
  have a: "brun (length ps + 1) (st, ?ps) a = Some (st, ?ps)" using run_spaces [OF assms(1), of _ ?ps st] assms(6) by auto
  have "v @ b \<noteq> []" "hd (v @ b) = hd v" using jvalue_first [OF assms(2)] by (auto simp: hd_append)
  then have v: "brun (length ps + 1) (st, ?ps) (v @ b) = brun (length ps + 1) (StBeginValue, ?ps) (v @ b)"
    using assms(6) run_or_empty [of "v @ b" _ ?ps] jvalue_first [OF assms(2)] by auto
  obtain st' where "brun (length ps + 1) (StBeginValue, ?ps) (v @ b) = Some (st', ?ps)" "closed st' ?ps"
    by (rule runs_valueD [OF assms(3,5,4)])
  with a v show ?thesis by (subst brun_append) simp
qed

lemma runs_member:
  assumes "jspaces a" "jstring s" "jspaces b" "jspaces c" "runs_value n v" "jspaces d" "n + length ps + 1 \<le> maxNestingDepth"
    and "st \<in> {StBeginString, StBeginStringOrEmpty}"
  shows "\<exists>st'. brun (length ps + 1) (st, parseObjectKey # ps) (a @ s @ b @ CHR '':'' # c @ v @ d) = Some (st', parseObjectValue # ps) \<and>
    closed st' (parseObjectValue # ps)"
proof -
  let ?ps = "parseObjectKey # ps" and ?qs = "parseObjectValue # ps" and ?k = "length ps + 1"
  have a: "brun ?k (st, ?ps) a = Some (st, ?ps)" using run_spaces [OF assms(1), of ?k ?ps st] assms(8) by auto
  have s: "brun ?k (st, ?ps) s = Some (StEndValue, ?ps)" using run_key [OF assms(2) _ assms(8), of ?k ?ps] by simp
  obtain st1 where b: "brun ?k (StEndValue, ?ps) b = Some (st1, ?ps)" "closed st1 ?ps"
    using run_closed_spaces [of StEndValue ?ps b ?k] assms(3) by (auto simp: closed_def)
  then have colon: "astep (st1, ?ps) CHR '':'' = Some (scanObjectKey, StBeginValue, ?qs)"
    using closed_step [OF b(2), of "CHR '':''"] by (simp add: end_step_def isSpace_def)
  have c: "brun ?k (StBeginValue, ?qs) c = Some (StBeginValue, ?qs)" using run_spaces [OF assms(4), of ?k ?qs StBeginValue] by simp
  obtain st' where "brun ?k (StBeginValue, ?qs) (v @ d) = Some (st', ?qs)" "closed st' ?qs"
    by (rule runs_valueD [OF assms(5,7,6)])
  with a s b colon c show ?thesis by (simp add: brun_append)
qed

text \<open>The separator and the closing bracket after the elements or members.\<close>

lemma closed_comma: "closed st (parseArrayValue # ps) \<Longrightarrow> astep (st, parseArrayValue # ps) CHR '','' = Some (scanArrayValue, StBeginValue, parseArrayValue # ps)"
  "closed st (parseObjectValue # ps) \<Longrightarrow> astep (st, parseObjectValue # ps) CHR '','' = Some (scanObjectValue, StBeginString, parseObjectKey # ps)"
  using closed_step [of st _ "CHR '',''"] by (simp_all add: end_step_def isSpace_def)

lemma closed_bracket: "closed st (parseArrayValue # ps) \<Longrightarrow> astep (st, parseArrayValue # ps) CHR '']'' = Some (scanEndArray, popped ps)"
  "closed st (parseObjectValue # ps) \<Longrightarrow> astep (st, parseObjectValue # ps) CHR ''}'' = Some (scanEndObject, popped ps)"
  using closed_step [of st _ "CHR '']''"] closed_step [of st _ "CHR ''}''"] by (simp_all add: end_step_def isSpace_def)

lemma popped_stack: "\<exists>st. popped ps = (st, ps) \<and> closed st ps"
  by (auto simp: popped_def closed_def)

lemma grammar_runs:
  "jvalue n v \<Longrightarrow> runs_value n v"
  "jelems n e \<Longrightarrow> runs_elems n e"
  "jmembers n m \<Longrightarrow> runs_members n m"
proof (induction rule: jvalue_jelems_jmembers.inducts)
  case (jv_literal v n)
  then show ?case using run_literal by (simp add: runs_value_def)
next
  case (jv_empty_array a n)
  have "brun (length ps) (StBeginValueOrEmpty, parseArrayValue # ps) a = Some (StBeginValueOrEmpty, parseArrayValue # ps)" for ps
    using run_spaces [OF jv_empty_array, of "length ps" "parseArrayValue # ps"] by auto
  then show ?case
    by (auto simp: runs_value_def isSpace_def deepen_def brun_append end_step_def closed_def popped_def)
next
  case (jv_array n e)
  show ?case unfolding runs_value_def
  proof (intro allI impI)
    fix ps :: "parse_state list"
    assume l: "Suc n + length ps \<le> maxNestingDepth"
    then obtain st where st: "brun (length ps + 1) (StBeginValueOrEmpty, parseArrayValue # ps) e = Some (st, parseArrayValue # ps)"
      "closed st (parseArrayValue # ps)"
      using jv_array.IH unfolding runs_elems_def by fastforce
    obtain st' where "popped ps = (st', ps)" "closed st' ps" using popped_stack by blast
    with st l closed_bracket(1) [OF st(2)] brun_mono [OF st(1), of "length ps"]
    show "\<exists>st. brun (length ps) (StBeginValue, ps) (CHR ''['' # e @ '']'') = Some (st, ps) \<and> closed st ps"
      by (auto simp: isSpace_def deepen_def brun_append)
  qed
next
  case (jv_empty_object a n)
  have "brun (length ps) (StBeginStringOrEmpty, parseObjectKey # ps) a = Some (StBeginStringOrEmpty, parseObjectKey # ps)" for ps
    using run_spaces [OF jv_empty_object, of "length ps" "parseObjectKey # ps"] by auto
  then show ?case
    by (auto simp: runs_value_def isSpace_def deepen_def brun_append end_step_def closed_def popped_def)
next
  case (jv_object n m)
  show ?case unfolding runs_value_def
  proof (intro allI impI)
    fix ps :: "parse_state list"
    assume l: "Suc n + length ps \<le> maxNestingDepth"
    then obtain st where st: "brun (length ps + 1) (StBeginStringOrEmpty, parseObjectKey # ps) m = Some (st, parseObjectValue # ps)"
      "closed st (parseObjectValue # ps)"
      using jv_object.IH unfolding runs_members_def by fastforce
    obtain st' where "popped ps = (st', ps)" "closed st' ps" using popped_stack by blast
    with st l closed_bracket(2) [OF st(2)] brun_mono [OF st(1), of "length ps"]
    show "\<exists>st. brun (length ps) (StBeginValue, ps) (CHR ''{'' # m @ ''}'') = Some (st, ps) \<and> closed st ps"
      by (auto simp: isSpace_def deepen_def brun_append)
  qed
next
  case (je_one a n v b)
  then show ?case using runs_element [of a n v b] by (simp add: runs_elems_def)
next
  case (je_more a n v b e)
  show ?case unfolding runs_elems_def
  proof (intro allI impI)
    fix ps :: "parse_state list" and st
    assume l: "n + length ps + 1 \<le> maxNestingDepth" "st \<in> {StBeginValue, StBeginValueOrEmpty}"
    then obtain st' where "brun (length ps + 1) (st, parseArrayValue # ps) (a @ v @ b) = Some (st', parseArrayValue # ps)"
      "closed st' (parseArrayValue # ps)"
      using runs_element [of a n v b ps st] je_more by blast
    with closed_comma(1) [OF this(2)] je_more.IH(2) l
    show "\<exists>st'. brun (length ps + 1) (st, parseArrayValue # ps) (a @ v @ b @ CHR '','' # e) = Some (st', parseArrayValue # ps) \<and>
      closed st' (parseArrayValue # ps)"
      unfolding append_assoc [symmetric] by (subst brun_append) (auto simp: runs_elems_def)
  qed
next
  case (jm_one a s b c n v d)
  then show ?case using runs_member [of a s b c n v d] by (simp add: runs_members_def)
next
  case (jm_more a s b c n v d m)
  show ?case unfolding runs_members_def
  proof (intro allI impI)
    fix ps :: "parse_state list" and st
    assume l: "n + length ps + 1 \<le> maxNestingDepth" "st \<in> {StBeginString, StBeginStringOrEmpty}"
    let ?x = "a @ s @ b @ CHR '':'' # c @ v @ d"
    obtain st' where "brun (length ps + 1) (st, parseObjectKey # ps) ?x = Some (st', parseObjectValue # ps)"
      "closed st' (parseObjectValue # ps)"
      using runs_member [of a s b c n v d ps st] jm_more l by blast
    with closed_comma(2) [OF this(2)] jm_more.IH(2) l
    have "\<exists>st'. brun (length ps + 1) (st, parseObjectKey # ps) (?x @ CHR '','' # m) = Some (st', parseObjectValue # ps) \<and>
      closed st' (parseObjectValue # ps)"
      by (subst brun_append) (auto simp: runs_members_def)
    then show "\<exists>st'. brun (length ps + 1) (st, parseObjectKey # ps) (a @ s @ b @ CHR '':'' # c @ v @ d @ CHR '','' # m) =
        Some (st', parseObjectValue # ps) \<and> closed st' (parseObjectValue # ps)"
      by simp
  qed
qed

section \<open>Every accepted text is in the grammar\<close>

definition accepting :: "config \<Rightarrow> bool" where
  "accepting q \<longleftrightarrow> snd q = [] \<and> closed (fst q) []"

definition stops :: "scan_state \<Rightarrow> parse_state list \<Rightarrow> string \<Rightarrow> bool" where
  "stops st ps rest \<longleftrightarrow> rest = [] \<or> astep (st, ps) (hd rest) = end_step ps (hd rest)"

text \<open>A value has been read and the run goes on to accept the rest.\<close>

definition goes_on :: "parse_state list \<Rightarrow> string \<Rightarrow> config \<Rightarrow> bool" where
  "goes_on ps rest q \<longleftrightarrow> (\<exists>st. arun (st, ps) rest = Some q \<and> closed st ps \<and> stops st ps rest)"

lemma arun_Cons: "arun p (c # cs) = Some q \<longleftrightarrow> (\<exists>op p'. astep p c = Some (op, p') \<and> arun p' cs = Some q)"
  by (auto split: option.splits)

lemma goes_on_EndValue: "arun (StEndValue, ps) rest = Some q \<Longrightarrow> goes_on ps rest q"
  by (auto simp: goes_on_def closed_def stops_def)

lemma sound_chars:
  assumes "arun (StInString, ps) cs = Some q" "accepting q"
  shows "\<exists>b rest. cs = b @ dquote # rest \<and> jchars b \<and> arun (StEndValue, ps) rest = Some q"
  using assms
proof (induction "length cs" arbitrary: cs rule: less_induct)
  case less
  have open_state: "arun (st, ps) xs = Some q \<Longrightarrow> \<not> closed st [] \<Longrightarrow> \<exists>y ys. xs = y # ys" for st xs
    using less.prems(2) by (cases xs) (auto simp: accepting_def)
  obtain c cs1 where cs: "cs = c # cs1" using open_state [OF less.prems(1)] by (auto simp: closed_def)
  consider "c = dquote" | "c = CHR 0x5C" | "c \<noteq> dquote" "c \<noteq> CHR 0x5C" "\<not> byte c < 0x20" "arun (StInString, ps) cs1 = Some q"
    using less.prems(1) by (auto simp: cs arun_Cons split: if_splits simp del: brun.simps)
  then show ?case
  proof cases
    case 1
    then have "cs = [] @ dquote # cs1 \<and> jchars [] \<and> arun (StEndValue, ps) cs1 = Some q"
      using less.prems(1) cs jc_end by simp
    then show ?thesis by - (rule exI)+
  next
    case 3
    obtain b rest where "cs1 = b @ dquote # rest" "jchars b" "arun (StEndValue, ps) rest = Some q"
      using less.hyps [of cs1] 3(4) less.prems(2) cs by auto
    then have "cs = (c # b) @ dquote # rest \<and> jchars (c # b) \<and> arun (StEndValue, ps) rest = Some q"
      using cs 3 jc_plain by simp
    then show ?thesis by - (rule exI)+
  next
    case 2
    then have r1: "arun (StInStringEsc, ps) cs1 = Some q" using less.prems(1) cs by simp
    obtain d cs2 where cs1: "cs1 = d # cs2" using open_state [OF r1] by (auto simp: closed_def)
    show ?thesis
    proof (cases "d \<in> set (CHR 0x5C # dquote # ''bfnrt/'')")
      case True
      then have "arun (StInString, ps) cs2 = Some q" using r1 cs1 by auto
      then obtain b rest where "cs2 = b @ dquote # rest" "jchars b" "arun (StEndValue, ps) rest = Some q"
        using less.hyps [of cs2] less.prems(2) cs cs1 by auto
      then have "cs = (CHR 0x5C # d # b) @ dquote # rest \<and> jchars (CHR 0x5C # d # b) \<and> arun (StEndValue, ps) rest = Some q"
        using cs cs1 2 jc_escape [OF _ True] by simp
      then show ?thesis by - (rule exI)+
    next
      case False
      then have r2: "d = CHR ''u''" "arun (StInStringEscU, ps) cs2 = Some q" using r1 cs1 by (auto split: if_splits)
      obtain h1 cs3 where h1: "cs2 = h1 # cs3" using open_state [OF r2(2)] by (auto simp: closed_def)
      then have r3: "is_hex h1" "arun (StInStringEscU1, ps) cs3 = Some q" using r2 by (auto split: if_splits)
      obtain h2 cs4 where h2: "cs3 = h2 # cs4" using open_state [OF r3(2)] by (auto simp: closed_def)
      then have r4: "is_hex h2" "arun (StInStringEscU12, ps) cs4 = Some q" using r3 by (auto split: if_splits)
      obtain h3 cs5 where h3: "cs4 = h3 # cs5" using open_state [OF r4(2)] by (auto simp: closed_def)
      then have r5: "is_hex h3" "arun (StInStringEscU123, ps) cs5 = Some q" using r4 by (auto split: if_splits)
      obtain h4 cs6 where h4: "cs5 = h4 # cs6" using open_state [OF r5(2)] by (auto simp: closed_def)
      then have r6: "is_hex h4" "arun (StInString, ps) cs6 = Some q" using r5 by (auto split: if_splits)
      obtain b rest where "cs6 = b @ dquote # rest" "jchars b" "arun (StEndValue, ps) rest = Some q"
        using less.hyps [of cs6] less.prems(2) r6(2) cs cs1 h1 h2 h3 h4 by auto
      then have "cs = (CHR 0x5C # CHR ''u'' # h1 # h2 # h3 # h4 # b) @ dquote # rest \<and>
        jchars (CHR 0x5C # CHR ''u'' # h1 # h2 # h3 # h4 # b) \<and> arun (StEndValue, ps) rest = Some q"
        using cs cs1 2 r2(1) h1 h2 h3 h4 jc_unicode r3(1) r4(1) r5(1) r6(1) by simp
      then show ?thesis by - (rule exI)+
    qed
  qed
qed

lemma sound_string:
  assumes "arun (StInString, ps) cs = Some q" "accepting q"
  shows "\<exists>k rest. dquote # cs = k @ rest \<and> jstring k \<and> arun (StEndValue, ps) rest = Some q"
proof -
  obtain b rest where "cs = b @ dquote # rest" "jchars b" "arun (StEndValue, ps) rest = Some q"
    using sound_chars [OF assms] by blast
  then show ?thesis by (intro exI [of _ "dquote # b @ [dquote]"] exI [of _ rest]) (auto simp: jstring_def)
qed

text \<open>Numbers, from their end to their beginning.\<close>

lemma drop_digits:
  assumes "arun (st, ps) cs = Some q" "st \<in> {St1, StDot0, StE0}"
  obtains ds rest where "cs = ds @ rest" "list_all is_digit10 ds" "arun (st, ps) rest = Some q"
    "rest = [] \<or> \<not> is_digit10 (hd rest)"
proof -
  let ?ds = "takeWhile is_digit10 cs" and ?rest = "dropWhile is_digit10 cs"
  have "list_all is_digit10 ?ds" by (auto simp: list_all_iff dest: set_takeWhileD)
  moreover have "arun (st, ps) (?ds @ ?rest) = arun (st, ps) ?rest"
    unfolding brun_append using run_digits [OF calculation _ assms(2), of 0] by simp
  moreover have "?rest = [] \<or> \<not> is_digit10 (hd ?rest)" using hd_dropWhile by blast
  ultimately show ?thesis using assms(1) by (intro that [of ?ds ?rest]) simp_all
qed

lemma sound_digits:
  assumes "arun (st, ps) cs = Some q" "accepting q" "(st, st') \<in> {(StDot, StDot0), (StE, StE0), (StESign, StE0)}"
    and "st = StE \<Longrightarrow> cs \<noteq> [] \<and> hd cs \<noteq> CHR ''+'' \<and> hd cs \<noteq> CHR ''-''"
  obtains ds rest where "cs = ds @ rest" "jdigits ds" "arun (st', ps) rest = Some q" "rest = [] \<or> \<not> is_digit10 (hd rest)"
proof -
  have "cs \<noteq> []" using assms(1-3) by (auto simp: accepting_def closed_def)
  then obtain c cs1 where cs: "cs = c # cs1" "is_digit10 c" "arun (st', ps) cs1 = Some q"
    using assms(1,3,4) by (cases cs) (auto split: if_splits)
  obtain ds rest where "cs1 = ds @ rest" "list_all is_digit10 ds" "arun (st', ps) rest = Some q"
    "rest = [] \<or> \<not> is_digit10 (hd rest)"
    by (rule drop_digits [OF cs(3)]) (use assms(3) in auto)
  with cs show ?thesis by (intro that [of "c # ds" rest]) (auto simp: jdigits_def)
qed

lemma sound_exp:
  assumes "arun (st, ps) cs = Some q" "accepting q" "st \<in> {St0, St1, StDot0}"
    and "cs = [] \<or> st = StDot0 \<or> hd cs \<noteq> CHR ''.''" "cs = [] \<or> st = St0 \<or> \<not> is_digit10 (hd cs)"
  shows "\<exists>e rest. cs = e @ rest \<and> jexp e \<and> goes_on ps rest q"
proof (cases "cs \<noteq> [] \<and> (hd cs = CHR ''e'' \<or> hd cs = CHR ''E'')")
  case False
  then have "stops st ps cs" using assms(3-5) by (auto simp: stops_def)
  then show ?thesis using assms(1,3) by (intro exI [of _ "[]"] exI [of _ cs]) (auto simp: jexp_def goes_on_def closed_def)
next
  case True
  then obtain x cs1 where cs: "cs = x # cs1" "x = CHR ''e'' \<or> x = CHR ''E''" by (cases cs) auto
  have "\<not> is_digit10 x" using cs(2) by (auto simp: is_digit10_def)
  then have r: "arun (StE, ps) cs1 = Some q" using assms(1,3) cs by auto
  have "cs1 \<noteq> []" using r assms(2) by (auto simp: accepting_def closed_def)
  have "\<exists>sg ds rest. (sg = [] \<or> sg = ''+'' \<or> sg = ''-'') \<and> jdigits ds \<and> cs1 = sg @ ds @ rest \<and>
    arun (StE0, ps) rest = Some q \<and> (rest = [] \<or> \<not> is_digit10 (hd rest))"
  proof (cases "hd cs1 = CHR ''+'' \<or> hd cs1 = CHR ''-''")
    case True
    then obtain y cs2 where cs1: "cs1 = y # cs2" "y = CHR ''+'' \<or> y = CHR ''-''" using \<open>cs1 \<noteq> []\<close> by (cases cs1) auto
    then have r2: "arun (StESign, ps) cs2 = Some q" using r by auto
    obtain ds rest where "cs2 = ds @ rest" "jdigits ds" "arun (StE0, ps) rest = Some q" "rest = [] \<or> \<not> is_digit10 (hd rest)"
      by (rule sound_digits [OF r2 assms(2), of StE0]) auto
    then have "([y] = [] \<or> [y] = ''+'' \<or> [y] = ''-'') \<and> jdigits ds \<and> cs1 = [y] @ ds @ rest \<and>
      arun (StE0, ps) rest = Some q \<and> (rest = [] \<or> \<not> is_digit10 (hd rest))" using cs1 by simp
    then show ?thesis by - (rule exI)+
  next
    case False
    obtain ds rest where "cs1 = ds @ rest" "jdigits ds" "arun (StE0, ps) rest = Some q" "rest = [] \<or> \<not> is_digit10 (hd rest)"
      by (rule sound_digits [OF r assms(2), of StE0]) (use False \<open>cs1 \<noteq> []\<close> in auto)
    then have "([] = [] \<or> [] = ''+'' \<or> [] = ''-'') \<and> jdigits ds \<and> cs1 = [] @ ds @ rest \<and>
      arun (StE0, ps) rest = Some q \<and> (rest = [] \<or> \<not> is_digit10 (hd rest))" by simp
    then show ?thesis by - (rule exI)+
  qed
  then obtain sg ds rest where *: "sg = [] \<or> sg = ''+'' \<or> sg = ''-''" "jdigits ds" "cs1 = sg @ ds @ rest"
    "arun (StE0, ps) rest = Some q" "rest = [] \<or> \<not> is_digit10 (hd rest)" by - (elim exE conjE, rule that, assumption+)
  have "(x = CHR ''e'' \<or> x = CHR ''E'') \<and> (sg = [] \<or> sg = ''+'' \<or> sg = ''-'') \<and> jdigits ds \<and> x # sg @ ds = x # sg @ ds"
    using cs(2) *(1,2) by (intro conjI refl)
  then have "jexp (x # sg @ ds)" unfolding jexp_def by - (rule disjI2, (rule exI)+)
  moreover have "goes_on ps rest q" using *(4,5) by (auto simp: goes_on_def closed_def stops_def)
  ultimately have "cs = (x # sg @ ds) @ rest \<and> jexp (x # sg @ ds) \<and> goes_on ps rest q" using cs(1) *(3) by simp
  then show ?thesis by - (rule exI)+
qed

lemma sound_frac:
  assumes "arun (st, ps) cs = Some q" "accepting q" "st \<in> {St0, St1}" "cs = [] \<or> st = St0 \<or> \<not> is_digit10 (hd cs)"
  shows "\<exists>f e rest. cs = f @ e @ rest \<and> jfrac f \<and> jexp e \<and> goes_on ps rest q"
proof (cases "cs \<noteq> [] \<and> hd cs = CHR ''.''")
  case False
  then obtain e rest where "cs = e @ rest" "jexp e" "goes_on ps rest q"
    using sound_exp [OF assms(1,2)] assms(3,4) by auto
  then have "cs = [] @ e @ rest \<and> jfrac []" by (simp add: jfrac_def)
  then show ?thesis using \<open>jexp e\<close> \<open>goes_on ps rest q\<close> by blast
next
  case True
  then obtain cs1 where cs: "cs = CHR ''.'' # cs1" by (cases cs) auto
  then have r: "arun (StDot, ps) cs1 = Some q" using assms(1,3) by (auto simp: is_digit10_def)
  obtain ds rest where d: "cs1 = ds @ rest" "jdigits ds" "arun (StDot0, ps) rest = Some q" "rest = [] \<or> \<not> is_digit10 (hd rest)"
    by (rule sound_digits [OF r assms(2), of StDot0]) auto
  obtain e rest' where "rest = e @ rest'" "jexp e" "goes_on ps rest' q"
    using sound_exp [OF d(3) assms(2)] d(4) by auto
  moreover from this have "cs = (CHR ''.'' # ds) @ e @ rest' \<and> jfrac (CHR ''.'' # ds)" using cs d(1,2) by (simp add: jfrac_def)
  ultimately show ?thesis by blast
qed

lemma sound_int:
  assumes "arun (st, ps) (c # cs) = Some q" "accepting q" "st \<in> {StBeginValue, StNeg}"
    and "c = CHR ''0'' \<or> CHR ''1'' \<le> c \<and> c \<le> CHR ''9''"
  shows "\<exists>i f e rest. c # cs = i @ f @ e @ rest \<and> jint i \<and> jfrac f \<and> jexp e \<and> goes_on ps rest q"
proof (cases "c = CHR ''0''")
  case True
  then have "arun (St0, ps) cs = Some q" using assms(1,3) by (auto simp: isSpace_def)
  then obtain f e rest where "cs = f @ e @ rest" "jfrac f" "jexp e" "goes_on ps rest q"
    using sound_frac [of St0 ps cs q] assms(2) by auto
  moreover from this have "c # cs = ''0'' @ f @ e @ rest \<and> jint ''0''" using True by (simp add: jint_def)
  ultimately show ?thesis by blast
next
  case False
  then have c: "CHR ''1'' \<le> c" "c \<le> CHR ''9''" using assms(4) by auto
  then have r: "arun (St1, ps) cs = Some q" using assms(1,3) digit19 [OF c] by auto
  obtain ds rest where d: "cs = ds @ rest" "list_all is_digit10 ds" "arun (St1, ps) rest = Some q"
    "rest = [] \<or> \<not> is_digit10 (hd rest)"
    by (rule drop_digits [OF r]) auto
  then obtain f e rest' where "rest = f @ e @ rest'" "jfrac f" "jexp e" "goes_on ps rest' q"
    using sound_frac [OF d(3) assms(2)] by auto
  moreover from this have "c # cs = (c # ds) @ f @ e @ rest' \<and> jint (c # ds)" using c d(1,2) by (simp add: jint_def)
  ultimately show ?thesis by blast
qed

lemma sound_number:
  assumes "arun (StBeginValue, ps) (c # cs) = Some q" "accepting q"
    and "c = CHR ''-'' \<or> c = CHR ''0'' \<or> CHR ''1'' \<le> c \<and> c \<le> CHR ''9''"
  shows "\<exists>v rest. c # cs = v @ rest \<and> jnumber v \<and> goes_on ps rest q"
proof -
  have "\<exists>m i f e rest. (m = [] \<or> m = ''-'') \<and> c # cs = m @ i @ f @ e @ rest \<and> jint i \<and> jfrac f \<and> jexp e \<and> goes_on ps rest q"
  proof (cases "c = CHR ''-''")
    case False
    then obtain i f e rest where "c # cs = [] @ i @ f @ e @ rest" "jint i" "jfrac f" "jexp e" "goes_on ps rest q"
      using sound_int [OF assms(1,2)] assms(3) by auto
    then show ?thesis by blast
  next
    case True
    then have r: "arun (StNeg, ps) cs = Some q" using assms(1) by (simp add: isSpace_def)
    have "cs \<noteq> []" using r assms(2) by (auto simp: accepting_def closed_def)
    then obtain d ds where cs: "cs = d # ds" by (cases cs) auto
    have "d = CHR ''0'' \<or> CHR ''1'' \<le> d \<and> d \<le> CHR ''9''" using r cs by (auto split: if_splits)
    from sound_int [OF r [unfolded cs] assms(2) _ this] True
    obtain i f e rest where "c # cs = ''-'' @ i @ f @ e @ rest" "jint i" "jfrac f" "jexp e" "goes_on ps rest q"
      unfolding cs by auto
    then show ?thesis by blast
  qed
  then obtain m i f e rest where *: "m = [] \<or> m = ''-''" "c # cs = m @ i @ f @ e @ rest" "jint i" "jfrac f" "jexp e"
    "goes_on ps rest q" by blast
  then have "jnumber (m @ i @ f @ e)" unfolding jnumber_def by blast
  then show ?thesis using *(2,6) by (intro exI [of _ "m @ i @ f @ e"] exI [of _ rest]) simp
qed

text \<open>Between tokens.\<close>

lemma drop_spaces:
  assumes "arun (st, ps) cs = Some q" "st \<in> {StBeginValue, StBeginValueOrEmpty, StBeginString, StBeginStringOrEmpty}"
    and "accepting q"
  obtains a c rest where "cs = a @ c # rest" "jspaces a" "\<not> isSpace c" "arun (st, ps) (c # rest) = Some q"
proof -
  let ?a = "takeWhile isSpace cs" and ?r = "dropWhile isSpace cs"
  have a: "jspaces ?a" by (auto simp: jspaces_def list_all_iff dest: set_takeWhileD)
  have "arun (st, ps) (?a @ ?r) = arun (st, ps) ?r" unfolding brun_append using run_spaces [OF a _ assms(2), of 0] by simp
  then have r: "arun (st, ps) ?r = Some q" using assms(1) by simp
  have "arun (st, ps) [] \<noteq> Some q" using assms(2,3) by (auto simp: accepting_def closed_def)
  with r have "?r \<noteq> []" by metis
  then obtain c rest where "?r = c # rest" by (cases ?r) auto
  moreover have "\<not> isSpace c" using hd_dropWhile [of isSpace cs] \<open>?r \<noteq> []\<close> \<open>?r = c # rest\<close> by simp
  moreover have "cs = ?a @ c # rest" using \<open>?r = c # rest\<close> takeWhile_dropWhile_id [of isSpace cs] by simp
  ultimately show ?thesis using a r by (intro that [of ?a c rest]) simp_all
qed

lemma drop_end_spaces:
  assumes "arun (StEndValue, ps) cs = Some q" "ps \<noteq> []" "accepting q"
  obtains b c rest op p where "cs = b @ c # rest" "jspaces b" "\<not> isSpace c" "end_step ps c = Some (op, p)" "arun p rest = Some q"
proof -
  have "\<exists>b c rest op p. cs = b @ c # rest \<and> jspaces b \<and> \<not> isSpace c \<and> end_step ps c = Some (op, p) \<and> arun p rest = Some q"
    using assms(1)
  proof (induction cs)
    case Nil
    then show ?case using assms(2,3) by (auto simp: accepting_def)
  next
    case (Cons x xs)
    then obtain op p where x: "end_step ps x = Some (op, p)" "arun p xs = Some q"
      by (auto simp: arun_Cons simp del: brun.simps)
    show ?case
    proof (cases "isSpace x")
      case True
      then have "p = (StEndValue, ps)" using x(1) assms(2) by (cases ps) (auto simp: end_step_def)
      then obtain b c rest op p where "xs = b @ c # rest \<and> jspaces b \<and> \<not> isSpace c \<and> end_step ps c = Some (op, p) \<and> arun p rest = Some q"
        using Cons.IH x(2) by auto
      then have "x # xs = (x # b) @ c # rest \<and> jspaces (x # b) \<and> \<not> isSpace c \<and> end_step ps c = Some (op, p) \<and> arun p rest = Some q"
        using True by (simp add: jspaces_def)
      then show ?thesis by - (rule exI)+
    next
      case False
      then have "x # xs = [] @ x # xs \<and> jspaces [] \<and> \<not> isSpace x \<and> end_step ps x = Some (op, p) \<and> arun p xs = Some q"
        using x by (simp add: jspaces_def)
      then show ?thesis by - (rule exI)+
    qed
  qed
  then show ?thesis by - (elim exE conjE, rule that, assumption+)
qed

lemma drop_value_end:
  assumes "goes_on ps cs q" "ps \<noteq> []" "accepting q"
  obtains b c rest op p where "cs = b @ c # rest" "jspaces b" "\<not> isSpace c" "end_step ps c = Some (op, p)" "arun p rest = Some q"
proof -
  obtain st where st: "arun (st, ps) cs = Some q" "stops st ps cs" using assms(1) by (auto simp: goes_on_def)
  then have "cs \<noteq> []" using assms(2,3) by (auto simp: accepting_def)
  with st have "arun (StEndValue, ps) cs = Some q" by (cases cs) (auto simp: stops_def)
  then show ?thesis by (rule drop_end_spaces [OF _ assms(2,3)]) (rule that)
qed

definition sound_value :: "string \<Rightarrow> bool" where
  "sound_value cs \<longleftrightarrow> (\<forall>ps q. arun (StBeginValue, ps) cs = Some q \<longrightarrow> accepting q \<longrightarrow> length ps \<le> maxNestingDepth \<longrightarrow>
     (\<exists>a v rest. cs = a @ v @ rest \<and> jspaces a \<and> jvalue (maxNestingDepth - length ps) v \<and> goes_on ps rest q))"

lemma sound_valueE:
  assumes "sound_value cs" "arun (StBeginValue, x # ps) cs = Some q" "accepting q" "length ps < maxNestingDepth"
  obtains a v rest where "cs = a @ v @ rest" "jspaces a" "jvalue (maxNestingDepth - length ps - 1) v" "goes_on (x # ps) rest q"
proof -
  have "length (x # ps) \<le> maxNestingDepth" "maxNestingDepth - length (x # ps) = maxNestingDepth - length ps - 1"
    using assms(4) by simp_all
  with assms(1-3) show ?thesis unfolding sound_value_def using that by metis
qed

lemma sound_elems:
  assumes "\<And>xs. length xs \<le> n \<Longrightarrow> sound_value xs" "length cs \<le> n"
    and "arun (StBeginValue, parseArrayValue # ps) cs = Some q" "accepting q" "length ps < maxNestingDepth"
  shows "\<exists>e rest. cs = e @ CHR '']'' # rest \<and> jelems (maxNestingDepth - length ps - 1) e \<and> arun (popped ps) rest = Some q"
  using assms(2,3)
proof (induction "length cs" arbitrary: cs rule: less_induct)
  case less
  let ?n = "maxNestingDepth - length ps - 1"
  obtain a v rest where v: "cs = a @ v @ rest" "jspaces a" "jvalue ?n v" "goes_on (parseArrayValue # ps) rest q"
    by (rule sound_valueE [OF assms(1) [OF less.prems(1)] less.prems(2) assms(4,5)])
  obtain b c rest' op p where b: "rest = b @ c # rest'" "jspaces b" "\<not> isSpace c"
    "end_step (parseArrayValue # ps) c = Some (op, p)" "arun p rest' = Some q"
    by (rule drop_value_end [OF v(4) _ assms(4)]) auto
  consider "c = CHR '','' \<and> p = (StBeginValue, parseArrayValue # ps)" | "c = CHR '']'' \<and> p = popped ps"
    using b(3,4) by (auto simp: end_step_def split: if_splits)
  then show ?case
  proof cases
    case 1
    then obtain e rest'' where "rest' = e @ CHR '']'' # rest''" "jelems ?n e" "arun (popped ps) rest'' = Some q"
      using less.hyps [of rest'] less.prems(1) v(1) b(1,5) by auto
    then have "cs = (a @ v @ b @ CHR '','' # e) @ CHR '']'' # rest'' \<and> jelems ?n (a @ v @ b @ CHR '','' # e) \<and>
      arun (popped ps) rest'' = Some q"
      using v b 1 by (simp add: je_more)
    then show ?thesis by - (rule exI)+
  next
    case 2
    then have "cs = (a @ v @ b) @ CHR '']'' # rest' \<and> jelems ?n (a @ v @ b) \<and> arun (popped ps) rest' = Some q"
      using v b by (simp add: je_one)
    then show ?thesis by - (rule exI)+
  qed
qed

lemma sound_members:
  assumes "\<And>xs. length xs \<le> n \<Longrightarrow> sound_value xs" "length cs \<le> n"
    and "arun (StBeginString, parseObjectKey # ps) cs = Some q" "accepting q" "length ps < maxNestingDepth"
  shows "\<exists>m rest. cs = m @ CHR ''}'' # rest \<and> jmembers (maxNestingDepth - length ps - 1) m \<and> arun (popped ps) rest = Some q"
  using assms(2,3)
proof (induction "length cs" arbitrary: cs rule: less_induct)
  case less
  let ?n = "maxNestingDepth - length ps - 1"
  obtain a k0 rest where a: "cs = a @ k0 # rest" "jspaces a" "\<not> isSpace k0" "arun (StBeginString, parseObjectKey # ps) (k0 # rest) = Some q"
    by (rule drop_spaces [OF less.prems(2) _ assms(4)]) auto
  then have "k0 = dquote" "arun (StInString, parseObjectKey # ps) rest = Some q" by (auto split: if_splits)
  from sound_string [OF this(2) assms(4)] this(1) obtain k rest1 where k: "k0 # rest = k @ rest1" "jstring k" "arun (StEndValue, parseObjectKey # ps) rest1 = Some q"
    by blast
  obtain b x rest2 op p where b: "rest1 = b @ x # rest2" "jspaces b" "\<not> isSpace x"
    "end_step (parseObjectKey # ps) x = Some (op, p)" "arun p rest2 = Some q"
    by (rule drop_end_spaces [OF k(3) _ assms(4)]) auto
  then have x: "x = CHR '':''" "arun (StBeginValue, parseObjectValue # ps) rest2 = Some q"
    by (auto simp: end_step_def split: if_splits)
  have "length cs = length a + length (k @ rest1)" using a(1) k(1) by (metis length_append)
  then have len: "length rest2 \<le> n" using less.prems(1) b(1) by simp
  obtain c v rest3 where v: "rest2 = c @ v @ rest3" "jspaces c" "jvalue ?n v" "goes_on (parseObjectValue # ps) rest3 q"
    by (rule sound_valueE [OF assms(1) [OF len] x(2) assms(4,5)])
  obtain d y rest4 op p where d: "rest3 = d @ y # rest4" "jspaces d" "\<not> isSpace y"
    "end_step (parseObjectValue # ps) y = Some (op, p)" "arun p rest4 = Some q"
    by (rule drop_value_end [OF v(4) _ assms(4)]) auto
  have cs: "cs = a @ k @ b @ CHR '':'' # c @ v @ d @ y # rest4" using a(1) k(1) b(1) x(1) v(1) d(1) by simp
  consider "y = CHR '','' \<and> p = (StBeginString, parseObjectKey # ps)" | "y = CHR ''}'' \<and> p = popped ps"
    using d(3,4) by (auto simp: end_step_def split: if_splits)
  then show ?case
  proof cases
    case 1
    then obtain m rest5 where "rest4 = m @ CHR ''}'' # rest5" "jmembers ?n m" "arun (popped ps) rest5 = Some q"
      using less.hyps [of rest4] less.prems(1) cs d(5) by auto
    then have "cs = (a @ k @ b @ CHR '':'' # c @ v @ d @ CHR '','' # m) @ CHR ''}'' # rest5 \<and>
      jmembers ?n (a @ k @ b @ CHR '':'' # c @ v @ d @ CHR '','' # m) \<and> arun (popped ps) rest5 = Some q"
      using cs 1 a(2) k(2) b(2) v(2,3) d(2) by (simp add: jm_more)
    then show ?thesis by - (rule exI)+
  next
    case 2
    then have "cs = (a @ k @ b @ CHR '':'' # c @ v @ d) @ CHR ''}'' # rest4 \<and>
      jmembers ?n (a @ k @ b @ CHR '':'' # c @ v @ d) \<and> arun (popped ps) rest4 = Some q"
      using cs a(2) k(2) b(2) v(2,3) d(2,5) by (simp add: jm_one)
    then show ?thesis by - (rule exI)+
  qed
qed

lemma goes_on_popped: "arun (popped ps) rest = Some q \<Longrightarrow> goes_on ps rest q"
  unfolding goes_on_def
proof -
  assume r: "arun (popped ps) rest = Some q"
  show "\<exists>st. arun (st, ps) rest = Some q \<and> closed st ps \<and> stops st ps rest"
  proof (cases "ps = []")
    case True
    then have "stops StEndTop ps rest" by (simp add: stops_def end_step_def)
    with r True show ?thesis by (intro exI [of _ StEndTop]) (simp add: popped_def closed_def)
  next
    case False
    with r show ?thesis by (intro exI [of _ StEndValue]) (simp add: popped_def closed_def stops_def)
  qed
qed

lemma sound_word:
  assumes "arun (StBeginValue, ps) (c # cs) = Some q" "accepting q" "c \<in> set ''tfn''"
  shows "\<exists>v rest. c # cs = v @ rest \<and> jliteral v \<and> goes_on ps rest q"
proof -
  have more: "arun (st, ps) xs = Some q \<Longrightarrow> \<not> closed st [] \<Longrightarrow> \<exists>y ys. xs = y # ys" for st xs
    using assms(2) by (cases xs) (auto simp: accepting_def)
  have "\<exists>v rest. c # cs = v @ rest \<and> v \<in> {''true'', ''false'', ''null''} \<and> arun (StEndValue, ps) rest = Some q"
  proof -
    consider "c = CHR ''t''" | "c = CHR ''f''" | "c = CHR ''n''" using assms(3) by auto
    then show ?thesis
    proof cases
      case 1
      then have "arun (StT, ps) cs = Some q" using assms(1) by (simp add: isSpace_def)
      then obtain x xs where x: "cs = x # xs" "x = CHR ''r''" "arun (StTr, ps) xs = Some q"
        using more [of StT cs] by (auto simp: closed_def split: if_splits)
      then obtain y ys where y: "xs = y # ys" "y = CHR ''u''" "arun (StTru, ps) ys = Some q"
        using more [of StTr xs] by (auto simp: closed_def split: if_splits)
      then obtain z zs where "ys = z # zs" "z = CHR ''e''" "arun (StEndValue, ps) zs = Some q"
        using more [of StTru ys] by (auto simp: closed_def split: if_splits)
      with 1 x y have "c # cs = ''true'' @ zs \<and> ''true'' \<in> {''true'', ''false'', ''null''} \<and> arun (StEndValue, ps) zs = Some q" by simp
      then show ?thesis by - (rule exI)+
    next
      case 2
      then have "arun (StF, ps) cs = Some q" using assms(1) by (simp add: isSpace_def)
      then obtain x xs where x: "cs = x # xs" "x = CHR ''a''" "arun (StFa, ps) xs = Some q"
        using more [of StF cs] by (auto simp: closed_def split: if_splits)
      then obtain y ys where y: "xs = y # ys" "y = CHR ''l''" "arun (StFal, ps) ys = Some q"
        using more [of StFa xs] by (auto simp: closed_def split: if_splits)
      then obtain u us where u: "ys = u # us" "u = CHR ''s''" "arun (StFals, ps) us = Some q"
        using more [of StFal ys] by (auto simp: closed_def split: if_splits)
      then obtain z zs where "us = z # zs" "z = CHR ''e''" "arun (StEndValue, ps) zs = Some q"
        using more [of StFals us] by (auto simp: closed_def split: if_splits)
      with 2 x y u have "c # cs = ''false'' @ zs \<and> ''false'' \<in> {''true'', ''false'', ''null''} \<and> arun (StEndValue, ps) zs = Some q" by simp
      then show ?thesis by - (rule exI)+
    next
      case 3
      then have "arun (StN, ps) cs = Some q" using assms(1) by (simp add: isSpace_def)
      then obtain x xs where x: "cs = x # xs" "x = CHR ''u''" "arun (StNu, ps) xs = Some q"
        using more [of StN cs] by (auto simp: closed_def split: if_splits)
      then obtain y ys where y: "xs = y # ys" "y = CHR ''l''" "arun (StNul, ps) ys = Some q"
        using more [of StNu xs] by (auto simp: closed_def split: if_splits)
      then obtain z zs where "ys = z # zs" "z = CHR ''l''" "arun (StEndValue, ps) zs = Some q"
        using more [of StNul ys] by (auto simp: closed_def split: if_splits)
      with 3 x y have "c # cs = ''null'' @ zs \<and> ''null'' \<in> {''true'', ''false'', ''null''} \<and> arun (StEndValue, ps) zs = Some q" by simp
      then show ?thesis by - (rule exI)+
    qed
  qed
  then obtain v rest where "c # cs = v @ rest" "v \<in> {''true'', ''false'', ''null''}" "arun (StEndValue, ps) rest = Some q"
    by - (elim exE conjE, rule that, assumption+)
  then have "c # cs = v @ rest \<and> jliteral v \<and> goes_on ps rest q" by (auto simp: jliteral_def goes_on_EndValue)
  then show ?thesis by - (rule exI)+
qed

lemma deepen_Some: "deepen ps op st = Some x \<longleftrightarrow> x = (op, st, ps) \<and> length ps \<le> maxNestingDepth"
  by (auto simp: deepen_def)

lemma sound_array:
  assumes "\<And>xs. length xs \<le> n \<Longrightarrow> sound_value xs" "length cs \<le> n"
    and "arun (StBeginValueOrEmpty, parseArrayValue # ps) cs = Some q" "accepting q" "length ps < maxNestingDepth"
  shows "\<exists>v rest. CHR ''['' # cs = v @ rest \<and> jvalue (maxNestingDepth - length ps) v \<and> goes_on ps rest q"
proof -
  obtain m where m: "maxNestingDepth - length ps = Suc m" "m = maxNestingDepth - length ps - 1" using assms(5) by (metis Suc_diff_Suc diff_Suc_eq_diff_pred diff_commute)
  obtain a c rest where a: "cs = a @ c # rest" "jspaces a" "\<not> isSpace c"
    "arun (StBeginValueOrEmpty, parseArrayValue # ps) (c # rest) = Some q"
    by (rule drop_spaces [OF assms(3) _ assms(4)]) auto
  show ?thesis
  proof (cases "c = CHR '']''")
    case True
    then have "arun (popped ps) rest = Some q" using a(3,4) by (simp add: end_step_def isSpace_def)
    then have "CHR ''['' # cs = (CHR ''['' # a @ '']'') @ rest \<and> jvalue (maxNestingDepth - length ps) (CHR ''['' # a @ '']'') \<and> goes_on ps rest q"
      using a(1) True jv_empty_array [OF a(2)] m(1) goes_on_popped by simp
    then show ?thesis by - (rule exI)+
  next
    case False
    then have "arun (StBeginValue, parseArrayValue # ps) (c # rest) = Some q" using a(3,4) by simp
    then have run: "arun (StBeginValue, parseArrayValue # ps) cs = Some q"
      using a(1) run_spaces [OF a(2), of 0 _ StBeginValue] by (simp add: brun_append)
    have "\<exists>e rest. cs = e @ CHR '']'' # rest \<and> jelems (maxNestingDepth - length ps - 1) e \<and> arun (popped ps) rest = Some q"
      by (rule sound_elems [OF _ assms(2) run assms(4,5)]) (rule assms(1))
    then obtain e rest' where
      "cs = e @ CHR '']'' # rest'" "jelems m e" "arun (popped ps) rest' = Some q" unfolding m(2) [symmetric]
      by - (elim exE conjE, rule that, assumption+)
    then have "CHR ''['' # cs = (CHR ''['' # e @ '']'') @ rest' \<and> jvalue (maxNestingDepth - length ps) (CHR ''['' # e @ '']'') \<and> goes_on ps rest' q"
      using jv_array m(1) goes_on_popped by simp
    then show ?thesis by - (rule exI)+
  qed
qed

lemma sound_object:
  assumes "\<And>xs. length xs \<le> n \<Longrightarrow> sound_value xs" "length cs \<le> n"
    and "arun (StBeginStringOrEmpty, parseObjectKey # ps) cs = Some q" "accepting q" "length ps < maxNestingDepth"
  shows "\<exists>v rest. CHR ''{'' # cs = v @ rest \<and> jvalue (maxNestingDepth - length ps) v \<and> goes_on ps rest q"
proof -
  obtain m where m: "maxNestingDepth - length ps = Suc m" "m = maxNestingDepth - length ps - 1" using assms(5) by (metis Suc_diff_Suc diff_Suc_eq_diff_pred diff_commute)
  obtain a c rest where a: "cs = a @ c # rest" "jspaces a" "\<not> isSpace c"
    "arun (StBeginStringOrEmpty, parseObjectKey # ps) (c # rest) = Some q"
    by (rule drop_spaces [OF assms(3) _ assms(4)]) auto
  show ?thesis
  proof (cases "c = CHR ''}''")
    case True
    then have "arun (popped ps) rest = Some q" using a(3,4) by (simp add: end_step_def isSpace_def)
    then have "CHR ''{'' # cs = (CHR ''{'' # a @ ''}'') @ rest \<and> jvalue (maxNestingDepth - length ps) (CHR ''{'' # a @ ''}'') \<and> goes_on ps rest q"
      using a(1) True jv_empty_object [OF a(2)] m(1) goes_on_popped by simp
    then show ?thesis by - (rule exI)+
  next
    case False
    then have "arun (StBeginString, parseObjectKey # ps) (c # rest) = Some q" using a(3,4) by simp
    then have run: "arun (StBeginString, parseObjectKey # ps) cs = Some q"
      using a(1) run_spaces [OF a(2), of 0 _ StBeginString] by (simp add: brun_append)
    have "\<exists>e rest. cs = e @ CHR ''}'' # rest \<and> jmembers (maxNestingDepth - length ps - 1) e \<and> arun (popped ps) rest = Some q"
      by (rule sound_members [OF _ assms(2) run assms(4,5)]) (rule assms(1))
    then obtain e rest' where
      "cs = e @ CHR ''}'' # rest'" "jmembers m e" "arun (popped ps) rest' = Some q" unfolding m(2) [symmetric]
      by - (elim exE conjE, rule that, assumption+)
    then have "CHR ''{'' # cs = (CHR ''{'' # e @ ''}'') @ rest' \<and> jvalue (maxNestingDepth - length ps) (CHR ''{'' # e @ ''}'') \<and> goes_on ps rest' q"
      using jv_object m(1) goes_on_popped by simp
    then show ?thesis by - (rule exI)+
  qed
qed

lemma sound_value_step:
  assumes "\<And>xs. length xs \<le> n \<Longrightarrow> sound_value xs" "length cs \<le> Suc n"
  shows "sound_value cs"
  unfolding sound_value_def
proof (intro allI impI)
  fix ps q
  assume run: "arun (StBeginValue, ps) cs = Some q" and acc: "accepting q" and depth: "length ps \<le> maxNestingDepth"
  obtain a c rest where a: "cs = a @ c # rest" "jspaces a" "\<not> isSpace c" "arun (StBeginValue, ps) (c # rest) = Some q"
    by (rule drop_spaces [OF run _ acc]) auto
  have len: "length rest \<le> n" using assms(2) a(1) by simp
  let ?n = "maxNestingDepth - length ps"
  have lit: "\<exists>v rest'. c # rest = v @ rest' \<and> jvalue ?n v \<and> goes_on ps rest' q"
    if "\<exists>v rest'. c # rest = v @ rest' \<and> jliteral v \<and> goes_on ps rest' q"
    using that jv_literal by metis
  have "\<exists>v rest'. c # rest = v @ rest' \<and> jvalue ?n v \<and> goes_on ps rest' q"
  proof -
    consider "c = CHR ''{''" | "c = CHR ''[''" | "c = dquote" | "c \<in> set ''tfn''"
      | "c = CHR ''-'' \<or> c = CHR ''0'' \<or> CHR ''1'' \<le> c \<and> c \<le> CHR ''9''"
      using a(3,4) by (simp split: if_splits)
    then show ?thesis
    proof cases
      case 1
      then have o: "arun (StBeginStringOrEmpty, parseObjectKey # ps) rest = Some q" "length ps < maxNestingDepth"
        using a(3,4) by (auto simp: arun_Cons deepen_Some simp del: brun.simps)
      show ?thesis unfolding 1 by (rule sound_object [OF _ len o(1) acc o(2)]) (rule assms(1))
    next
      case 2
      then have o: "arun (StBeginValueOrEmpty, parseArrayValue # ps) rest = Some q" "length ps < maxNestingDepth"
        using a(3,4) by (auto simp: arun_Cons deepen_Some simp del: brun.simps)
      show ?thesis unfolding 2 by (rule sound_array [OF _ len o(1) acc o(2)]) (rule assms(1))
    next
      case 3
      then have "arun (StInString, ps) rest = Some q" using a(4) by (simp add: isSpace_def)
      from sound_string [OF this acc] 3 show ?thesis
        by (intro lit) (metis jliteral_def goes_on_EndValue)
    next
      case 4
      from sound_word [OF a(4) acc this] show ?thesis by (rule lit)
    next
      case 5
      from sound_number [OF a(4) acc this] show ?thesis by (intro lit) (metis jliteral_def)
    qed
  qed
  then obtain v rest' where "c # rest = v @ rest'" "jvalue ?n v" "goes_on ps rest' q"
    by - (elim exE conjE, rule that, assumption+)
  then have "cs = a @ v @ rest' \<and> jspaces a \<and> jvalue ?n v \<and> goes_on ps rest' q" using a(1,2) by simp
  then show "\<exists>a v rest. cs = a @ v @ rest \<and> jspaces a \<and> jvalue ?n v \<and> goes_on ps rest q" by - (rule exI)+
qed

lemma sound_all: "length cs \<le> n \<Longrightarrow> sound_value cs"
proof (induction n arbitrary: cs)
  case 0
  then show ?case by (auto simp: sound_value_def accepting_def closed_def)
next
  case (Suc n)
  show ?case by (rule sound_value_step [OF _ Suc.prems]) (rule Suc.IH)
qed

lemma run_top_spaces: "arun (StEndTop, []) b = Some q \<longleftrightarrow> jspaces b \<and> q = (StEndTop, [])"
  by (induction b) (auto simp: jspaces_def)

lemma goes_on_top: "goes_on [] b q \<longleftrightarrow> jspaces b \<and> (if b = [] then \<exists>st. q = (st, []) \<and> closed st [] else q = (StEndTop, []))"
proof (cases b)
  case Nil
  then show ?thesis by (auto simp: goes_on_def stops_def jspaces_def)
next
  case (Cons x xs)
  have "goes_on [] b q \<longleftrightarrow> (\<exists>op p. end_step [] x = Some (op, p) \<and> arun p xs = Some q)"
  proof
    assume "goes_on [] b q"
    then obtain st where "arun (st, []) b = Some q" "stops st [] b" by (auto simp: goes_on_def)
    then show "\<exists>op p. end_step [] x = Some (op, p) \<and> arun p xs = Some q"
      unfolding Cons arun_Cons stops_def by auto
  next
    assume "\<exists>op p. end_step [] x = Some (op, p) \<and> arun p xs = Some q"
    then have "arun (StEndValue, []) b = Some q" unfolding Cons arun_Cons by simp
    then show "goes_on [] b q" by (rule goes_on_EndValue)
  qed
  then show ?thesis using Cons by (auto simp: end_step_def jspaces_def run_top_spaces split: if_splits)
qed

text \<open>The automaton accepts exactly the grammar.\<close>

lemma accepts_iff: "(\<exists>q. arun (StBeginValue, []) s = Some q \<and> accepting q) \<longleftrightarrow> json_text s"
proof
  assume "\<exists>q. arun (StBeginValue, []) s = Some q \<and> accepting q"
  then obtain q where q: "arun (StBeginValue, []) s = Some q" "accepting q" by blast
  from sound_all [OF order_refl, of s, unfolded sound_value_def, rule_format, OF q] obtain a v b where
    "s = a @ v @ b" "jspaces a" "jvalue maxNestingDepth v" "goes_on [] b q" by auto
  then have "jspaces a \<and> jvalue maxNestingDepth v \<and> jspaces b \<and> s = a @ v @ b" by (simp add: goes_on_top)
  then show "json_text s" unfolding json_text_def by - (rule exI)+
next
  assume "json_text s"
  then obtain a v b where s: "jspaces a" "jvalue maxNestingDepth v" "jspaces b" "s = a @ v @ b"
    unfolding json_text_def by - (elim exE conjE, rule that, assumption+)
  have a: "arun (StBeginValue, []) a = Some (StBeginValue, [])" using run_spaces [OF s(1), of 0 "[]" StBeginValue] by simp
  obtain st where st: "arun (StBeginValue, []) v = Some (st, [])" "closed st []"
    using grammar_runs(1) [OF s(2), unfolded runs_value_def, rule_format, of "[]"] by auto
  have "\<exists>q. arun (st, []) b = Some q \<and> accepting q"
  proof (cases b)
    case Nil
    then show ?thesis using st(2) by (simp add: accepting_def)
  next
    case (Cons x xs)
    then have sp: "isSpace x" "jspaces xs" using s(3) by (simp_all add: jspaces_def)
    then have "astep (st, []) x = Some (scanEnd, StEndTop, [])" using closed_step [OF st(2), of x] by (simp add: end_step_def)
    moreover have "arun (StEndTop, []) xs = Some (StEndTop, [])" using sp(2) run_top_spaces by blast
    ultimately show ?thesis using Cons by (simp add: accepting_def closed_def)
  qed
  then show "\<exists>q. arun (StBeginValue, []) s = Some q \<and> accepting q" using s(4) a st(1) by (simp add: brun_append)
qed

section \<open>The scanner accepts exactly the grammar\<close>

lemma fail_EndValue:
  assumes "on_course s" "failing (stateEndValue s c)"
  shows "step (snd (stateEndValue s c)) = StError \<and> s_err (snd (stateEndValue s c)) \<noteq> None \<and>
    (isSpace c \<longrightarrow> \<not> endTop (snd (stateEndValue s c)))"
proof (cases "parseState s")
  case Nil
  then show ?thesis using assms
    by (cases "isSpace c") (simp_all add: stateEndValue_def stateEndTop_def scan_error_def on_course_def failing_def)
next
  case (Cons x xs)
  then show ?thesis using assms
    by (cases x) (simp_all add: stateEndValue_def popParseState_def scan_error_def on_course_def failing_def Let_def
        split: if_splits)
qed

lemma fail_step:
  assumes "on_course s" "failing (scan_step s c)"
  shows "step (snd (scan_step s c)) = StError \<and> s_err (snd (scan_step s c)) \<noteq> None \<and>
    (isSpace c \<longrightarrow> \<not> endTop (snd (scan_step s c)))"
proof -
  have c1: "on_course (s\<lparr>parseState := x\<rparr>)" for x using assms(1) by (simp add: on_course_def)
  note ev = fail_EndValue [OF assms(1), of c] fail_EndValue [OF c1, of "parseObjectValue # tl (parseState s)" c]
  show ?thesis
  proof (cases "step s")
    case StBeginStringOrEmpty
    then show ?thesis using assms ev
      by (auto simp: scan_step_def stateBeginStringOrEmpty_def stateBeginString_def scan_error_def failing_def
          on_course_def split: if_splits)
  next
    case StBeginValueOrEmpty
    then show ?thesis using assms ev
      by (auto simp: scan_step_def stateBeginValueOrEmpty_def stateBeginValue_def scan_error_def failing_def
          pushParseState_def Let_def on_course_def split: if_splits)
  next
    case St1
    then show ?thesis using assms ev
      by (auto simp: scan_step_def state1_def state0_def on_course_def failing_def split: if_splits)
  next
    case St0
    then show ?thesis using assms ev
      by (auto simp: scan_step_def state0_def on_course_def failing_def split: if_splits)
  next
    case StDot0
    then show ?thesis using assms ev
      by (auto simp: scan_step_def stateDot0_def on_course_def failing_def split: if_splits)
  next
    case StE0
    then show ?thesis using assms ev
      by (auto simp: scan_step_def stateE0_def on_course_def failing_def split: if_splits)
  next
    case StEndValue
    then show ?thesis using assms ev by (simp add: scan_step_def)
  qed (use assms in \<open>auto simp: scan_step_def state_defs on_course_def failing_def split: if_splits\<close>)
qed

lemma check_loop_error: "step s = StError \<Longrightarrow> s_err s \<noteq> None \<Longrightarrow> \<exists>s'. (check_loop s cs = Inl s' \<or> check_loop s cs = Inr s') \<and> s_err s' \<noteq> None"
  by (cases cs) (auto simp: scan_step_def stateError_def)

lemma check_loop_arun:
  assumes "on_course s"
  shows "case arun (scan_config s) cs of
      None \<Rightarrow> \<exists>s'. (check_loop s cs = Inl s' \<or> check_loop s cs = Inr s') \<and> s_err s' \<noteq> None
    | Some q \<Rightarrow> \<exists>s'. check_loop s cs = Inr s' \<and> scan_config s' = q \<and> on_course s'"
  using assms
proof (induction cs arbitrary: s)
  case (Cons c cs)
  let ?s = "s\<lparr>sbytes := sbytes s + 1\<rparr>"
  have on: "on_course ?s" "scan_config ?s = scan_config s" using Cons.prems by (simp_all add: on_course_def scan_config_def)
  obtain op s' where r: "scan_step ?s c = (op, s')" by (cases "scan_step ?s c")
  show ?case
  proof (cases "astep (scan_config s) c")
    case None
    then have "failing (op, s')" using scan_step_astep [OF on(1), of c] on(2) r by simp
    then have "step s' = StError" "s_err s' \<noteq> None" using fail_step [OF on(1), of c] r by auto
    then show ?thesis using None r check_loop_error [of s' cs] by auto
  next
    case (Some x)
    then obtain op' q where x: "astep (scan_config s) c = Some (op', q)" by (cases x) auto
    then have s': "op = op'" "scan_config s' = q" "on_course s'" using scan_step_astep [OF on(1), of c] on(2) r by auto
    have "op \<noteq> scanError" using x s'(1) by (auto simp: astep_def failing_def Let_def split: if_splits)
    then have "check_loop s (c # cs) = check_loop s' cs" "arun (scan_config s) (c # cs) = arun (scan_config s') cs"
      using x r s' by simp_all
    then show ?thesis using Cons.IH [OF s'(3)] by (simp only:)
  qed
qed (simp add: on_course_def)

lemma astep_space_top: "(\<exists>op ps'. astep (st, ps) CHR 0x20 = Some (op, StEndTop, ps')) \<longleftrightarrow> ps = [] \<and> closed st ps \<or> st = StEndTop"
proof -
  have sp: "isSpace CHR 0x20" "\<not> is_digit10 CHR 0x20" "\<not> is_hex CHR 0x20" by (simp_all add: isSpace_def is_digit10_def is_hex_def)
  have "(\<exists>op ps'. end_step ps CHR 0x20 = Some (op, StEndTop, ps')) \<longleftrightarrow> ps = []" using sp by (cases ps) (auto simp: end_step_def)
  then show ?thesis using sp by (cases st) (auto simp: closed_def)
qed

lemma eof_accepts:
  assumes "on_course s" "step s = StEndTop \<Longrightarrow> parseState s = []"
  shows "fst (scan_eof s) = (if accepting (scan_config s) then scanEnd else scanError) \<and>
    (\<not> accepting (scan_config s) \<longrightarrow> s_err (snd (scan_eof s)) \<noteq> None)"
proof (cases "step s = StEndTop")
  case True
  then show ?thesis using assms by (simp add: scan_eof_def on_course_def accepting_def scan_config_def closed_def)
next
  case False
  let ?c = "CHR 0x20 :: char"
  obtain op s' where r: "scan_step s ?c = (op, s')" by (cases "scan_step s ?c")
  have acc: "accepting (scan_config s) \<longleftrightarrow> (\<exists>op ps'. astep (scan_config s) ?c = Some (op, StEndTop, ps'))"
    using False by (auto simp: accepting_def scan_config_def astep_space_top)
  have "endTop s' \<longleftrightarrow> accepting (scan_config s)"
  proof (cases "astep (scan_config s) ?c")
    case None
    then have "failing (op, s')" using scan_step_astep [OF assms(1), of ?c] r by simp
    then have "\<not> endTop s'" using fail_step [OF assms(1), of ?c] r by (simp add: isSpace_def)
    then show ?thesis using acc None by simp
  next
    case (Some x)
    then obtain op' q where x: "astep (scan_config s) ?c = Some (op', q)" by (cases x) auto
    then have "scan_config s' = q" "on_course s'" using scan_step_astep [OF assms(1), of ?c] r by auto
    then show ?thesis using acc x by (auto simp: scan_config_def on_course_def)
  qed
  then show ?thesis using assms(1) False r by (auto simp: scan_eof_def on_course_def Let_def)
qed

text \<open>The end state is reached with an empty stack only.\<close>

lemma end_top_stack:
  assumes "astep (st, ps) c = Some (op, StEndTop, ps')" "st = StEndTop \<Longrightarrow> ps = []"
  shows "ps' = []"
proof -
  have e: "end_step qs c = Some (op, StEndTop, ps') \<Longrightarrow> ps' = []" for qs
    by (cases qs) (auto simp: end_step_def popped_def split: parse_state.splits if_splits)
  show ?thesis using assms e by (cases st) (auto simp: deepen_def split: if_splits)
qed

lemma arun_end_top: "arun (st, ps) cs = Some (StEndTop, ps') \<Longrightarrow> (st = StEndTop \<Longrightarrow> ps = []) \<Longrightarrow> ps' = []"
proof (induction cs arbitrary: st ps)
  case (Cons c cs)
  then obtain op st1 ps1 where "astep (st, ps) c = Some (op, st1, ps1)" "arun (st1, ps1) cs = Some (StEndTop, ps')"
    by (auto simp: arun_Cons simp del: brun.simps)
  with Cons.IH end_top_stack Cons.prems(2) show ?case by metis
qed simp

text \<open>Every error of the scanner is a syntax error.\<close>

definition syntactic :: "error option \<Rightarrow> bool" where
  "syntactic e \<longleftrightarrow> (case e of None \<Rightarrow> True | Some (SyntaxError m k) \<Rightarrow> True | _ \<Rightarrow> False)"

lemma syntactic_error [simp]: "syntactic (s_err (snd (scan_error s c m)))"
  by (simp add: scan_error_def syntactic_def)

lemma syntactic_EndValue: "syntactic (s_err s) \<Longrightarrow> syntactic (s_err (snd (stateEndValue s c)))"
  by (simp add: stateEndValue_def stateEndTop_def popParseState_def Let_def split: list.split parse_state.split)

lemma syntactic_BeginValue: "syntactic (s_err s) \<Longrightarrow> syntactic (s_err (snd (stateBeginValue s c)))"
  by (simp add: stateBeginValue_def pushParseState_def Let_def)

lemma syntactic_step:
  assumes "syntactic (s_err s)"
  shows "syntactic (s_err (snd (scan_step s c)))"
  using assms syntactic_EndValue [of s c] syntactic_BeginValue [of s c]
    syntactic_EndValue [of "s\<lparr>parseState := parseObjectValue # tl (parseState s)\<rparr>" c]
  by (cases "step s")
    (simp_all add: scan_step_def stateBeginValueOrEmpty_def stateBeginStringOrEmpty_def stateBeginString_def
      stateEndTop_def stateInString_def stateInStringEsc_def stateInStringEscU_def stateInStringEscU1_def
      stateInStringEscU12_def stateInStringEscU123_def stateNeg_def state1_def state0_def stateDot_def stateDot0_def
      stateE_def stateESign_def stateE0_def stateT_def stateTr_def stateTru_def stateF_def stateFa_def stateFal_def
      stateFals_def stateN_def stateNu_def stateNul_def stateError_def, auto)

lemma syntactic_loop:
  "syntactic (s_err s) \<Longrightarrow> (case check_loop s cs of Inl s' \<Rightarrow> syntactic (s_err s') | Inr s' \<Rightarrow> syntactic (s_err s'))"
proof (induction cs arbitrary: s)
  case (Cons c cs)
  obtain op s' where r: "scan_step (s\<lparr>sbytes := sbytes s + 1\<rparr>) c = (op, s')"
    by (cases "scan_step (s\<lparr>sbytes := sbytes s + 1\<rparr>) c")
  have "syntactic (s_err s')" using syntactic_step [of "s\<lparr>sbytes := sbytes s + 1\<rparr>" c] Cons.prems r by simp
  then show ?case using Cons.IH [of s'] r by simp
qed simp

lemma syntactic_checkValid: "syntactic (fst (checkValid dat s0))"
proof -
  have l: "case check_loop (scan_reset s0) dat of Inl s' \<Rightarrow> syntactic (s_err s') | Inr s' \<Rightarrow> syntactic (s_err s')"
    by (rule syntactic_loop) (simp add: scan_reset_def syntactic_def)
  have e: "syntactic (s_err s) \<Longrightarrow> syntactic (s_err (snd (scan_eof s)))" for s
    using syntactic_step [of s "CHR 0x20"] by (simp add: scan_eof_def Let_def) (simp add: syntactic_def)
  show ?thesis
  proof (cases "check_loop (scan_reset s0) dat")
    case (Inl s)
    then show ?thesis using l by (simp add: checkValid_def)
  next
    case (Inr s)
    then have "syntactic (s_err (snd (scan_eof s)))" using l e by simp
    then show ?thesis using Inr by (cases "scan_eof s") (auto simp: checkValid_def syntactic_def)
  qed
qed

lemma checkValid_iff: "fst (checkValid dat s0) = None \<longleftrightarrow> json_text dat"
proof -
  let ?s = "scan_reset s0"
  have on: "on_course ?s" "scan_config ?s = (StBeginValue, [])" by (simp_all add: scan_reset_def on_course_def scan_config_def)
  show ?thesis
  proof (cases "arun (StBeginValue, []) dat")
    case None
    then obtain s' where "check_loop ?s dat = Inl s' \<or> check_loop ?s dat = Inr s'" "s_err s' \<noteq> None"
      using check_loop_arun [OF on(1), of dat] on(2) by auto
    then have "fst (checkValid dat s0) \<noteq> None" by (auto simp: checkValid_def scan_eof_def)
    then show ?thesis using accepts_iff [of dat] None by simp
  next
    case (Some q)
    then obtain s' where s': "check_loop ?s dat = Inr s'" "scan_config s' = q" "on_course s'"
      using check_loop_arun [OF on(1), of dat] on(2) by auto
    have "parseState s' = []" if "step s' = StEndTop"
      using arun_end_top [of StBeginValue "[]" dat] Some s'(2) that by (auto simp: scan_config_def)
    from eof_accepts [OF s'(3) this] have e: "fst (scan_eof s') = (if accepting q then scanEnd else scanError)"
      "\<not> accepting q \<longrightarrow> s_err (snd (scan_eof s')) \<noteq> None" using s'(2) by simp_all
    have "fst (checkValid dat s0) = None \<longleftrightarrow> accepting q"
      using s'(1) e by (cases "scan_eof s'") (auto simp: checkValid_def)
    then show ?thesis using accepts_iff [of dat] Some by simp
  qed
qed

text \<open>
  C16. \<open>json.Valid\<close> accepts a text if and only if it belongs to the JSON grammar with arrays and
  objects nested at most 10000 deep; the scanner's verdict does not depend on what it scanned
  before.
\<close>

theorem Valid_iff_json_text:
  "(Valid dat \<longleftrightarrow> json_text dat) \<and> (fst (checkValid dat s) = None \<longleftrightarrow> json_text dat)"
  by (simp add: Valid_def checkValid_iff)

end
