(* ===== verification/JsonTotal.thy ===== *)
theory JsonTotal
  imports JsonDecode JsonGrammar
begin

text \<open>
  \<open>Unmarshal\<close> on any input: it ends without a panic and the value it leaves has the type of the
  target. The decoder scans the text a second time, taking literals at a bound; the proof follows
  the grammar, with the decoder's scanner in step with the automaton of theory \<open>JsonGrammar\<close>.
\<close>

section \<open>Typed values and error contexts\<close>

primrec has_type :: "gotype \<Rightarrow> goval \<Rightarrow> bool" where
  "has_type TString = (\<lambda>v. case v of VString _ \<Rightarrow> True | _ \<Rightarrow> False)"
| "has_type (TSlice t) =
     (\<lambda>v. case v of VSlice n xs ys \<Rightarrow> list_all (has_type t) xs \<and> list_all (has_type t) ys | _ \<Rightarrow> False)"
| "has_type (TStruct s n fs) =
     (\<lambda>v. case v of VStruct vs \<Rightarrow> list_all2 (\<lambda>p x. snd p x) (map (map_prod id has_type) fs) vs | _ \<Rightarrow> False)"

lemma has_type_VStruct [simp]:
  "has_type (TStruct s n fs) (VStruct vs) \<longleftrightarrow> length vs = length fs \<and> (\<forall>i < length fs. has_type (snd (fs ! i)) (vs ! i))"
  by (auto simp: list_all2_conv_all_nth)

lemma has_type_zero: "has_type t (zero_value t)"
proof (induction t)
  case (TStruct s n fs)
  have "has_type (snd (fs ! i)) (zero_value (snd (fs ! i)))" if "i < length fs" for i
  proof (rule TStruct [of "fs ! i"])
    show "fs ! i \<in> set fs" using that by simp
    show "snd (fs ! i) \<in> Basic_BNFs.snds (fs ! i)" by (simp add: prod_set_simps snds.intros snds.simps)
  qed
  then show ?case by (simp add: case_prod_beta del: has_type.simps(3))
qed simp_all

section \<open>String literals are unquoted\<close>

lemma accept_range: "utf8_first b < 0xF0 \<Longrightarrow> 0x80 \<le> fst (acceptRanges (drop_bit 4 (utf8_first b)))"
  by (auto simp: utf8_first_def acceptRanges_def drop_bit_eq_div split: if_splits)

text \<open>The bytes taken for one rune that does not begin with an ASCII byte hold no ASCII byte.\<close>

lemma Decode_high:
  assumes "0x80 \<le> byte c" "i < snd (DecodeRuneInString (c # cs))"
  shows "0x80 \<le> byte ((c # cs) ! i)"
proof -
  let ?x = "utf8_first (byte c)"
  obtain lo hi where ar: "acceptRanges (drop_bit 4 ?x) = (lo, hi)" by fastforce
  then have lo: "?x < 0xF0 \<Longrightarrow> 0x80 \<le> lo" using accept_range [of "byte c"] by simp
  consider "i = 0" | "i = 1" | "i = 2" | "i = 3" | "4 \<le> i" by linarith
  then show ?thesis
    using assms lo by cases (auto simp: DecodeRuneInString_def Let_def ar split: if_splits)
qed

lemma jchars_tail: "jchars (c # s) \<Longrightarrow> c \<noteq> CHR 0x5C \<Longrightarrow> jchars s"
  by (erule jchars.cases) auto

lemma jchars_drop: "jchars s \<Longrightarrow> (\<And>i. i < k \<Longrightarrow> i < length s \<Longrightarrow> s ! i \<noteq> CHR 0x5C) \<Longrightarrow> jchars (drop k s)"
proof (induction k arbitrary: s)
  case (Suc k)
  show ?case
  proof (cases s)
    case (Cons c cs)
    have "c \<noteq> CHR 0x5C" using Suc.prems(2) [of 0] Cons by simp
    then have "jchars cs" using Suc.prems(1) Cons jchars_tail by blast
    moreover have "cs ! i \<noteq> CHR 0x5C" if "i < k" "i < length cs" for i using Suc.prems(2) [of "Suc i"] that Cons by simp
    ultimately show ?thesis using Suc.IH Cons by simp
  qed (use Suc.prems in simp)
qed simp

lemma jchars_drop_rune:
  assumes "jchars (c # cs)" "0x80 \<le> byte c"
  shows "jchars (drop (snd (DecodeRuneInString (c # cs))) (c # cs))"
proof (rule jchars_drop [OF assms(1)])
  fix i assume "i < snd (DecodeRuneInString (c # cs))"
  from Decode_high [OF assms(2) this] show "(c # cs) ! i \<noteq> CHR 0x5C" by auto
qed

lemma jchars_drop_plain: "jchars s \<Longrightarrow> jchars (drop (plain_bytes s) s)"
proof (induction s rule: plain_bytes.induct)
  case (2 c cs)
  show ?case
  proof (cases "c = CHR 0x5C \<or> c = dquote \<or> byte c < 0x20")
    case False
    show ?thesis
    proof (cases "byte c < RuneSelf")
      case True
      then show ?thesis using False 2 jchars_tail by simp
    next
      case high: False
      obtain rr sz where d: "DecodeRuneInString (c # cs) = (rr, sz)" by fastforce
      have j: "jchars (drop sz (c # cs))" using jchars_drop_rune [OF 2(3)] high d by simp
      show ?thesis
      proof (cases "rr = RuneError \<and> sz = 1")
        case True
        then show ?thesis using 2(3) False high d by simp
      next
        case noerr: False
        then have "jchars (drop (plain_bytes (drop sz (c # cs))) (drop sz (c # cs)))"
          using 2(2) [OF False high d [symmetric]] j by simp
        moreover have "plain_bytes (c # cs) = sz + plain_bytes (drop sz (c # cs))" using False high d noerr by simp
        ultimately show ?thesis by (simp add: add.commute)
      qed
    qed
  qed (use 2(3) in auto)
qed simp

lemma hex_loop_hex: "list_all is_hex s \<Longrightarrow> hex_loop s r \<noteq> None"
  by (induction s arbitrary: r) (auto simp: is_hex_def is_digit10_def hex_val_def)

lemma getu4_unicode:
  assumes "is_hex h1" "is_hex h2" "is_hex h3" "is_hex h4"
  shows "\<exists>r. getu4 (CHR 0x5C # CHR ''u'' # h1 # h2 # h3 # h4 # s) = Some r"
  using hex_loop_hex [of "[h1, h2, h3, h4]" 0] assms by (auto simp: getu4_def)

inductive_cases jchars_backslash: "jchars (CHR 0x5C # s)"

lemma getu4_head: "getu4 s = Some r \<Longrightarrow> \<exists>t. s = CHR 0x5C # CHR ''u'' # t"
proof -
  assume g: "getu4 s = Some r"
  then have "6 \<le> length s" by (auto simp: getu4_def split: if_splits)
  then obtain a b t where "s = a # b # t" by (cases s; cases "tl s") auto
  with g show ?thesis by (auto simp: getu4_def split: if_splits)
qed

lemma jchars_unicode_tail: "jchars s \<Longrightarrow> getu4 s = Some r \<Longrightarrow> jchars (drop 6 s)"
  by (drule getu4_head) (auto elim: jchars_backslash)

lemma simple_escape_json: "c \<in> set (CHR 0x5C # dquote # ''bfnrt/'') \<Longrightarrow> \<exists>x. simple_escape c = Some x"
  by (auto simp: simple_escape_def)

lemma unquote_loop_total: "jchars s \<Longrightarrow> \<exists>t. unquote_loop s b = Some t"
proof (induction "length s" arbitrary: s b rule: less_induct)
  case less
  show ?case
  proof (cases s)
    case (Cons c cs)
    show ?thesis
    proof (cases "c = CHR 0x5C")
      case True
      from less.prems [unfolded Cons True] show ?thesis
      proof (cases rule: jchars_backslash [consumes 1])
        case (1 ds d)
        obtain x where "simple_escape d = Some x" using simple_escape_json [of d] 1(3) by auto
        then show ?thesis using less.hyps [of ds "b @ [x]"] 1 Cons True by simp
      next
        case 3: (2 t h1 h2 h3 h4)
        obtain rr where u: "getu4 s = Some rr" using getu4_unicode 3 Cons True by blast
        have n: "simple_escape CHR ''u'' = None" by (simp add: simple_escape_def)
        have t: "unquote_loop t b' \<noteq> None" for b' using less.hyps [of t b'] 3 Cons by auto
        have t6: "unquote_loop (drop 6 t) b' \<noteq> None" if "getu4 t = Some r" for r b'
          using less.hyps [of "drop 6 t" b'] jchars_unicode_tail [OF _ that] 3 Cons by auto
        have "unquote_loop s b \<noteq> None"
          using t t6 u n 3 Cons True by (auto simp: Let_def split: option.split)
        then show ?thesis by simp
      qed
    next
      case False
      have c: "\<not> (c = dquote \<or> byte c < 0x20)" using less.prems False Cons by (auto elim: jchars.cases)
      show ?thesis
      proof (cases "byte c < RuneSelf")
        case True
        then show ?thesis using c False Cons less.hyps [of cs "b @ [c]"] less.prems jchars_tail by simp
      next
        case high: False
        obtain rr sz where d: "DecodeRuneInString (c # cs) = (rr, sz)" by fastforce
        have "jchars (drop sz (c # cs))" using jchars_drop_rune [of c cs] less.prems high d Cons by simp
        moreover have "1 \<le> sz" using Decode_size [of "c # cs"] d by simp
        ultimately obtain t where "unquote_loop (drop sz (c # cs)) (b @ EncodeRune rr) = Some t"
          using less.hyps [of "drop sz (c # cs)"] Cons by auto
        then show ?thesis using c False Cons high d by simp
      qed
    qed
  qed simp
qed

lemma unquote_total:
  assumes "jstring v"
  shows "\<exists>t. unquoteBytes v = Some t"
proof -
  obtain b where v: "jchars b" "v = dquote # b @ [dquote]" using assms by (auto simp: jstring_def)
  have "\<exists>t. unquote_loop (drop (plain_bytes b) b) (take (plain_bytes b) b) = Some t"
    by (rule unquote_loop_total [OF jchars_drop_plain [OF v(1)]])
  then show ?thesis using v(2) by (simp add: unquoteBytes_def Let_def nth_append)
qed

section \<open>The decoder in step with the automaton\<close>

text \<open>
  \<open>in_step d pre rest q\<close>: the decoder has read \<open>pre\<close>, has \<open>rest\<close> before it, and its scanner is in
  configuration \<open>q\<close>. \<open>ctx\<close> reads the error context, a nil context like an empty one; it is
  proper when field names come only with a struct.
\<close>

definition in_step :: "decodeState \<Rightarrow> string \<Rightarrow> string \<Rightarrow> config \<Rightarrow> bool" where
  "in_step d pre rest q \<longleftrightarrow>
     data d = pre @ rest \<and> off d = length pre \<and> on_course (scan d) \<and> scan_config (scan d) = q"

definition ctx :: "decodeState \<Rightarrow> string option \<times> string list" where
  "ctx d = (case errorContext d of None \<Rightarrow> (None, []) | Some c \<Rightarrow> c)"

definition proper :: "decodeState \<Rightarrow> bool" where
  "proper d \<longleftrightarrow> (fst (ctx d) = None \<longrightarrow> snd (ctx d) = []) \<and> savedError d \<noteq> Some NilDeref"

definition keeps :: "decodeState \<Rightarrow> decodeState \<Rightarrow> bool" where
  "keeps d d' \<longleftrightarrow> data d' = data d \<and> ctx d' = ctx d \<and> (proper d \<longrightarrow> proper d')"

lemma keeps_refl: "keeps d d" by (simp add: keeps_def)

lemma keeps_trans: "keeps d1 d2 \<Longrightarrow> keeps d2 d3 \<Longrightarrow> keeps d1 d3" by (simp add: keeps_def)

lemma keeps_scan: "keeps d (d\<lparr>scan := s, opcode := op, off := i\<rparr>)" "keeps d (d\<lparr>opcode := op, off := i\<rparr>)"
  by (simp_all add: keeps_def ctx_def proper_def)

lemma keeps_saveError:
  assumes "e \<noteq> NilDeref"
  shows "keeps d (saveError d e)" "in_step (saveError d e) pre rest q = in_step d pre rest q" "opcode (saveError d e) = opcode d"
    "off (saveError d e) = off d"
proof -
  have "addErrorContext d e \<noteq> NilDeref" if "proper d"
    using assms that by (cases e) (auto simp: proper_def ctx_def split: option.splits)
  then show "keeps d (saveError d e)" by (auto simp: saveError_def keeps_def ctx_def proper_def)
qed (simp_all add: saveError_def in_step_def)

lemma keeps_type_error:
  "keeps d (type_error d val t ofs)" "in_step (type_error d val t ofs) pre rest q = in_step d pre rest q"
  "opcode (type_error d val t ofs) = opcode d" "off (type_error d val t ofs) = off d"
  unfolding type_error_def by (rule keeps_saveError; simp)+

definition skips_spaces :: "config \<Rightarrow> bool" where
  "skips_spaces q \<longleftrightarrow> (\<forall>c. isSpace c \<longrightarrow> astep q c = Some (scanSkipSpace, q))"

lemma skips_spaces_states:
  "st \<in> {StBeginValue, StBeginValueOrEmpty, StBeginString, StBeginStringOrEmpty} \<Longrightarrow> skips_spaces (st, ps)"
  "skips_spaces (StEndValue, x # ps)"
  by (auto simp: skips_spaces_def end_step_def)

lemma step_course:
  assumes "on_course s" "astep (scan_config s) c = Some (op, q)"
  obtains s' where "scan_step s c = (op, s')" "scan_config s' = q" "on_course s'"
  using scan_step_astep [OF assms(1), of c] assms(2) by auto

lemma while_loop_spaces:
  assumes "jspaces a" "on_course s" "scan_config s = q" "skips_spaces q" "astep q c = Some (op, q')" "op \<noteq> scanSkipSpace"
  shows "\<exists>s'. while_loop s (a @ c # rest) i scanSkipSpace = (s', Some (op, i + length a + 1)) \<and>
    scan_config s' = q' \<and> on_course s'"
  using assms
proof (induction a arbitrary: s i)
  case Nil
  obtain s' where "scan_step s c = (op, s')" "scan_config s' = q'" "on_course s'"
    by (rule step_course [of s c op q']) (use Nil in auto)
  then show ?case using Nil by simp
next
  case (Cons x xs)
  have "astep (scan_config s) x = Some (scanSkipSpace, q)" using Cons.prems(1,3,4) by (simp add: jspaces_def skips_spaces_def)
  then obtain s' where s': "scan_step s x = (scanSkipSpace, s')" "scan_config s' = q" "on_course s'"
    by (rule step_course [OF Cons.prems(2)])
  have "jspaces xs" using Cons.prems(1) by (simp add: jspaces_def)
  from Cons.IH [OF this s'(3,2) Cons.prems(4-6), of "i + 1"] s'(1) show ?case by auto
qed

lemma scanWhile_spaces:
  assumes "in_step d pre (a @ c # rest) q" "jspaces a" "skips_spaces q" "astep q c = Some (op, q')" "op \<noteq> scanSkipSpace"
  shows "in_step (scanWhile d scanSkipSpace) (pre @ a @ [c]) rest q' \<and> opcode (scanWhile d scanSkipSpace) = op \<and>
    keeps d (scanWhile d scanSkipSpace)"
proof -
  have d: "data d = pre @ a @ c # rest" "off d = length pre" "on_course (scan d)" "scan_config (scan d) = q"
    using assms(1) by (auto simp: in_step_def)
  obtain s' where "while_loop (scan d) (a @ c # rest) (length pre) scanSkipSpace = (s', Some (op, length pre + length a + 1))"
    "scan_config s' = q'" "on_course s'"
    using while_loop_spaces [OF assms(2) d(3,4) assms(3-5)] by blast
  then show ?thesis using d by (simp add: scanWhile_def in_step_def keeps_scan)
qed

lemma scanNext_step:
  assumes "in_step d pre (c # rest) q" "astep q c = Some (op, q')"
  shows "in_step (scanNext d) (pre @ [c]) rest q' \<and> opcode (scanNext d) = op \<and> keeps d (scanNext d)"
proof -
  have d: "data d = pre @ c # rest" "off d = length pre" "on_course (scan d)" "scan_config (scan d) = q"
    using assms(1) by (auto simp: in_step_def)
  obtain s' where "scan_step (scan d) c = (op, s')" "scan_config s' = q'" "on_course s'"
    by (rule step_course [OF d(3), of c op q']) (use d(4) assms(2) in auto)
  then show ?thesis using d by (simp add: scanNext_def in_step_def keeps_scan)
qed

lemma skip_loop_run:
  assumes "on_course s" "scan_config s = q" "brun k q e = Some q1" "astep q1 c = Some (op, q2)" "length (snd q2) < k"
  shows "\<exists>s'. skip_loop s (e @ c # rest) i k = Some (s', op, i + length e + 1) \<and> scan_config s' = q2 \<and> on_course s'"
  using assms(1-3)
proof (induction e arbitrary: s q i)
  case Nil
  then obtain s' where "scan_step s c = (op, s')" "scan_config s' = q2" "on_course s'"
    using assms(4) by (metis brun.simps(1) option.inject step_course)
  then show ?case using assms(5) by (auto simp: scan_config_def)
next
  case (Cons x xs)
  then obtain op' q' where x: "astep q x = Some (op', q')" "\<not> length (snd q') < k" "brun k q' xs = Some q1"
    by (auto split: option.splits if_splits)
  then obtain s' where s': "scan_step s x = (op', s')" "scan_config s' = q'" "on_course s'"
    using Cons.prems(1,2) by (metis step_course)
  then show ?case using x Cons.IH [OF s'(3,2) x(3), of "i + 1"] by (auto simp: scan_config_def)
qed

lemma skip_run:
  assumes "in_step d pre (e @ c # rest) q" "brun (length (snd q)) q e = Some q1" "astep q1 c = Some (op, q2)"
    and "length (snd q2) < length (snd q)"
  shows "\<exists>d'. skip d = Inr d' \<and> in_step d' (pre @ e @ [c]) rest q2 \<and> keeps d d'"
proof -
  have d: "data d = pre @ e @ c # rest" "off d = length pre" "on_course (scan d)" "scan_config (scan d) = q"
    using assms(1) by (auto simp: in_step_def)
  then have k: "length (parseState (scan d)) = length (snd q)" by (auto simp: scan_config_def)
  obtain s' where "skip_loop (scan d) (e @ c # rest) (length pre) (length (snd q)) = Some (s', op, length pre + length e + 1)"
    "scan_config s' = q2" "on_course s'"
    using skip_loop_run [OF d(3,4) assms(2-4)] by blast
  then show ?thesis using d k by (simp add: skip_def in_step_def keeps_scan)
qed

section \<open>Literals\<close>

definition followed :: "parse_state list \<Rightarrow> string \<Rightarrow> bool" where
  "followed ps rest \<longleftrightarrow> (case rest of [] \<Rightarrow> ps = [] | c # _ \<Rightarrow> (isSpace c \<or> c \<in> set '',:]}'') \<and> end_step ps c \<noteq> None)"

text \<open>The decoder after a value: it has read one byte ahead, if there is one.\<close>

definition ahead :: "decodeState \<Rightarrow> string \<Rightarrow> string \<Rightarrow> parse_state list \<Rightarrow> bool" where
  "ahead d pre rest ps \<longleftrightarrow>
     (case rest of [] \<Rightarrow> True | c # rest' \<Rightarrow> \<exists>op q. end_step ps c = Some (op, q) \<and> opcode d = op \<and> in_step d (pre @ [c]) rest' q)"

lemma end_value_course:
  assumes "on_course s" "scan_config s = (st, ps)" "st \<noteq> StEndTop" "end_step ps c = Some (op, q)"
  shows "\<exists>s'. stateEndValue s c = (op, s') \<and> scan_config s' = q \<and> on_course s'"
proof -
  obtain op1 s1 where r1: "stateEndValue s c = (op1, s1)" by (cases "stateEndValue s c")
  obtain op2 s2 where r2: "stateEndValue (at_config (st, ps)) c = (op2, s2)" by (cases "stateEndValue (at_config (st, ps)) c")
  have "both (op1, s1) (op2, s2)" using both_EndValue [OF on_course_same [OF assms(1)], of c] assms(2) r1 r2 by simp
  then have eq: "op1 = op2" "scan_config s1 = scan_config s2" "failing (op1, s1) = failing (op2, s2)"
    by (auto simp: both_def same_def scan_config_def failing_def)
  have "\<not> failing (op2, s2) \<and> op2 = op \<and> scan_config s2 = q"
    using end_value_step [of "(st, ps)" c] assms(3,4) r2 by (auto simp: Let_def split: if_splits)
  moreover have "\<not> endTop s" using assms(1-3) by (auto simp: on_course_def scan_config_def)
  ultimately show ?thesis using course_EndValue [OF assms(1), of c] r1 eq by auto
qed

lemma string_len_chars: "jchars b \<Longrightarrow> string_len (b @ dquote # rest) = length b + 1"
proof (induction b rule: jchars.induct)
  case (jc_unicode s h1 h2 h3 h4)
  have "h \<noteq> CHR 0x5C \<and> h \<noteq> dquote" if "is_hex h" for h using that by (auto simp: is_hex_def is_digit10_def)
  then show ?case using jc_unicode by simp
qed auto

lemma byte_eq: "byte c = byte d \<Longrightarrow> c = (d :: char)" by simp
lemma digit_chars: "is_digit10 c \<longleftrightarrow> c \<in> set ''0123456789''"
proof
  assume "is_digit10 c"
  then have "0x30 \<le> byte c" "byte c \<le> 0x39" by (simp_all add: is_digit10_def less_eq_char_def)
  then have "byte c = 0x30 \<or> byte c = 0x31 \<or> byte c = 0x32 \<or> byte c = 0x33 \<or> byte c = 0x34 \<or> byte c = 0x35 \<or>
    byte c = 0x36 \<or> byte c = 0x37 \<or> byte c = 0x38 \<or> byte c = 0x39" by presburger
  then have "byte c \<in> byte ` set ''0123456789''" by simp
  then show "c \<in> set ''0123456789''" by (rule imageE) (drule byte_eq, simp only:)
next
  assume "c \<in> set ''0123456789''"
  then show "is_digit10 c" by (auto simp: is_digit10_def)
qed

lemma number_char_follow: "isSpace c \<or> c \<in> set '',:]}'' \<Longrightarrow> \<not> number_char c"
  unfolding isSpace_def by (simp, elim disjE) (simp_all add: number_char_def)

lemma number_char_digit: "is_digit10 c \<Longrightarrow> number_char c"
  unfolding digit_chars by (simp, elim disjE) (simp_all add: number_char_def)

lemma number_char_digits: "list_all is_digit10 ds \<Longrightarrow> list_all number_char ds"
  using number_char_digit by (simp add: list_all_iff)

lemma number_char_frac: "jfrac f \<Longrightarrow> list_all number_char f"
  unfolding jfrac_def jdigits_def using number_char_digits by (elim disjE exE conjE) (simp_all add: number_char_def)

lemma number_char_exp: "jexp e \<Longrightarrow> list_all number_char e"
  unfolding jexp_def jdigits_def using number_char_digits by (elim disjE exE conjE) (simp_all add: number_char_def)

lemma jint_chars: "jint i \<Longrightarrow> \<exists>c ds. i = c # ds \<and> is_digit10 c \<and> list_all number_char ds"
  unfolding jint_def using number_char_digits digit19 by (elim disjE exE conjE) (simp_all add: is_digit10_def)

lemma number_chars:
  assumes "jnumber v"
  shows "\<exists>c v'. v = c # v' \<and> (is_digit10 c \<or> c = CHR ''-'') \<and> list_all number_char v'"
proof -
  obtain m i f e where v: "m = [] \<or> m = ''-''" "jint i" "jfrac f" "jexp e" "v = m @ i @ f @ e"
    using assms unfolding jnumber_def by - (elim exE conjE, rule that, assumption+)
  obtain c ds where i: "i = c # ds" "is_digit10 c" "list_all number_char ds" using jint_chars [OF v(2)] by blast
  have n: "list_all number_char (f @ e)" using number_char_frac [OF v(3)] number_char_exp [OF v(4)] by simp
  show ?thesis
  proof (cases "m = []")
    case True
    then have "v = c # ds @ f @ e \<and> (is_digit10 c \<or> c = CHR ''-'') \<and> list_all number_char (ds @ f @ e)" using v(5) i n by simp
    then show ?thesis by - (rule exI)+
  next
    case False
    moreover have "number_char c" using number_char_digits [of "[c]"] i(2) by simp
    ultimately have "v = CHR ''-'' # c # ds @ f @ e \<and> (is_digit10 CHR ''-'' \<or> CHR ''-'' = CHR ''-'') \<and>
      list_all number_char (c # ds @ f @ e)" using v(1,5) i n by simp
    then show ?thesis by - (rule exI)+
  qed
qed

text \<open>A literal is as long as \<open>rescanLiteral\<close> takes it to be.\<close>

lemma literal_len_ok:
  assumes "jliteral v" "rest = [] \<or> isSpace (hd rest) \<or> hd rest \<in> set '',:]}''"
  shows "\<exists>c v'. v = c # v' \<and> literal_len c (v' @ rest) = length v'"
  using assms(1) unfolding jliteral_def
proof (elim disjE)
  assume "jstring v"
  then obtain b where b: "jchars b" "v = dquote # b @ [dquote]" by (auto simp: jstring_def)
  have "string_len ((b @ [dquote]) @ rest) = length (b @ [dquote])" using string_len_chars [OF b(1), of rest] by simp
  then show ?thesis using b(2) by (simp add: literal_len_def)
next
  assume "jnumber v"
  then obtain c v' where v: "v = c # v'" "is_digit10 c \<or> c = CHR ''-''" "list_all number_char v'" using number_chars by blast
  have "takeWhile number_char rest = []" using assms(2) number_char_follow [of "hd rest"] by (cases rest) auto
  moreover have "takeWhile number_char (v' @ rest) = v' @ takeWhile number_char rest"
    by (rule takeWhile_append2) (use v(3) in \<open>auto simp: list_all_iff\<close>)
  ultimately have "length (takeWhile number_char (v' @ rest)) = length v'" by simp
  moreover have "c \<noteq> dquote" "c \<in> set ''0123456789-''" using v(2) by (auto simp: digit_chars)
  ultimately have "literal_len c (v' @ rest) = length v'" by (simp add: literal_len_def)
  then show ?thesis using v(1) by blast
qed (simp_all add: literal_len_def)

lemma rescan_literal:
  assumes "jliteral v" "v = c0 # v'" "followed ps rest" "in_step d (pre @ [c0]) (v' @ rest) (st, ps)" "st \<noteq> StEndTop"
  shows "\<exists>d'. rescanLiteral d = Inr d' \<and> ahead d' (pre @ v) rest ps \<and> keeps d d' \<and> readIndex d' = length pre + length v \<and>
    data d' = pre @ v @ rest"
proof -
  have fl: "rest = [] \<or> isSpace (hd rest) \<or> hd rest \<in> set '',:]}''" using assms(3) by (cases rest) (auto simp: followed_def)
  have len: "literal_len c0 (v' @ rest) = length v'" using literal_len_ok [OF assms(1) fl] assms(2) by auto
  have d: "data d = pre @ c0 # v' @ rest" "off d = length pre + 1" "on_course (scan d)" "scan_config (scan d) = (st, ps)"
    using assms(4) by (auto simp: in_step_def)
  let ?i = "length pre + 1 + length v'"
  have at: "data d ! (off d - 1) = c0" "drop (off d) (data d) = v' @ rest" using d(1,2) by (simp_all add: nth_append)
  show ?thesis
  proof (cases rest)
    case Nil
    then show ?thesis using d at len assms(2)
      by (auto simp: rescanLiteral_def ahead_def keeps_scan readIndex_def Let_def)
  next
    case (Cons c rest')
    then obtain op q where e: "end_step ps c = Some (op, q)" using assms(3) by (auto simp: followed_def)
    obtain s' where s': "stateEndValue (scan d) c = (op, s')" "scan_config s' = q" "on_course s'"
      using end_value_course [OF d(3,4) assms(5) e] by blast
    have "data d ! ?i = c" using d(1) Cons by (simp add: nth_append)
    then have "rescanLiteral d = Inr (d\<lparr>scan := s', opcode := op, off := ?i + 1\<rparr>)"
      using d at len s'(1) Cons by (simp add: rescanLiteral_def Let_def)
    then show ?thesis using d assms(2) Cons e s' by (simp add: ahead_def in_step_def keeps_scan readIndex_def)
  qed
qed

definition same_place :: "decodeState \<Rightarrow> decodeState \<Rightarrow> bool" where
  "same_place d d' \<longleftrightarrow> data d' = data d \<and> off d' = off d \<and> opcode d' = opcode d \<and> scan d' = scan d"

lemma same_place_saveError: "same_place d (saveError d e)"
  by (simp add: same_place_def saveError_def)

lemma same_place_ahead: "same_place d d' \<Longrightarrow> ahead d' pre rest ps = ahead d pre rest ps"
  by (simp add: same_place_def ahead_def in_step_def split: list.split)

lemma store_literal:
  assumes "jliteral v" "has_type t x"
  shows "\<exists>d' x'. literalStore d v t x = Inr (d', x') \<and> has_type t x' \<and> keeps d d' \<and> same_place d d'"
  using assms(1) unfolding jliteral_def
proof (elim disjE)
  assume j: "jstring v"
  then obtain str where u: "unquoteBytes v = Some str" using unquote_total by blast
  have v: "\<exists>v'. v = dquote # v'" using j by (auto simp: jstring_def)
  show ?thesis
  proof (cases t)
    case TString
    then show ?thesis using v u by (auto simp: literalStore_def keeps_refl same_place_def)
  qed (use v u assms(2) in \<open>auto simp: literalStore_def type_error_def keeps_saveError same_place_saveError\<close>)
next
  assume "jnumber v"
  then obtain c v' where v: "v = c # v'" "is_digit10 c \<or> c = CHR ''-''" using number_chars by blast
  then have "c \<noteq> CHR ''n''" "c \<noteq> CHR ''t''" "c \<noteq> CHR ''f''" "c \<noteq> dquote" by (auto simp: digit_chars)
  with v assms(2) show ?thesis
    by (auto simp: literalStore_def type_error_def keeps_saveError same_place_saveError is_digit10_def)
next
  assume "v = ''null''"
  then show ?thesis using assms(2) by (cases t) (auto simp: literalStore_def keeps_refl same_place_def)
qed (use assms(2) in \<open>auto simp: literalStore_def type_error_def keeps_saveError same_place_saveError\<close>)

section \<open>Values\<close>

definition target_ok :: "(gotype \<times> goval) option \<Rightarrow> bool" where
  "target_ok tv \<longleftrightarrow> (case tv of None \<Rightarrow> True | Some (t, x) \<Rightarrow> has_type t x)"

definition result_ok :: "(gotype \<times> goval) option \<Rightarrow> goval option \<Rightarrow> bool" where
  "result_ok tv r \<longleftrightarrow> (case tv of None \<Rightarrow> r = None | Some (t, x) \<Rightarrow> (\<exists>y. r = Some y \<and> has_type t y))"

text \<open>What decoding a value \<open>v\<close> comes to, wherever it stands.\<close>

definition decodes :: "(rune \<Rightarrow> rune) \<Rightarrow> nat \<Rightarrow> string \<Rightarrow> bool" where
  "decodes sf n v \<longleftrightarrow> (\<forall>fuel d pre rest ps c0 v' op q tv.
     v = c0 # v' \<longrightarrow> n + length ps \<le> maxNestingDepth \<longrightarrow> followed ps rest \<longrightarrow> length v \<le> fuel \<longrightarrow>
     astep (StBeginValue, ps) c0 = Some (op, q) \<longrightarrow> opcode d = op \<longrightarrow> in_step d (pre @ [c0]) (v' @ rest) q \<longrightarrow> target_ok tv \<longrightarrow>
     (\<exists>d' r. decode_value sf fuel d tv = Inr (d', r) \<and> ahead d' (pre @ v) rest ps \<and> keeps d d' \<and> result_ok tv r))"

lemma literal_begins:
  assumes "jliteral v" "v = c0 # v'" "astep (StBeginValue, ps) c0 = Some (op, q)"
  shows "op = scanBeginLiteral \<and> fst q \<noteq> StEndTop \<and> snd q = ps"
proof -
  have "c0 = CHR ''t'' \<or> c0 = CHR ''f'' \<or> c0 = CHR ''n'' \<or> c0 = dquote \<or> is_digit10 c0 \<or> c0 = CHR ''-''"
    using assms(1,2) number_chars [of v] by (auto simp: jliteral_def jstring_def)
  then have "c0 \<noteq> CHR ''{''" "c0 \<noteq> CHR ''[''" "\<not> isSpace c0" by (auto simp: digit_chars isSpace_def)
  then show ?thesis using assms(3) by (auto split: if_splits)
qed

lemma decodes_literal: "jliteral v \<Longrightarrow> decodes sf n v"
  unfolding decodes_def
proof (intro allI impI)
  fix fuel d pre rest ps c0 v' op q tv
  assume *: "jliteral v" "v = c0 # v'" "followed ps rest" "length v \<le> fuel" "astep (StBeginValue, ps) c0 = Some (op, q)"
    "opcode d = op" "in_step d (pre @ [c0]) (v' @ rest) q" "target_ok tv"
  obtain f where f: "fuel = Suc f" using *(2,4) by (cases fuel) auto
  have b: "op = scanBeginLiteral" "fst q \<noteq> StEndTop" "q = (fst q, ps)"
    using literal_begins [OF *(1,2,5)] by (auto simp: prod_eq_iff)
  obtain d1 where d1: "rescanLiteral d = Inr d1" "ahead d1 (pre @ v) rest ps" "keeps d d1" "readIndex d1 = length pre + length v"
    "data d1 = pre @ v @ rest"
    using rescan_literal [OF *(1,2,3) _ b(2)] *(7) b(3) by metis
  have start: "readIndex d = length pre" using *(7) by (simp add: in_step_def readIndex_def)
  have item: "item_from d1 (length pre) = Inr v" using d1(4,5) by (simp add: item_from_def)
  have dv: "decode_value sf fuel d tv = decode_literal d tv" using f b(1) *(6) by simp
  show "\<exists>d' r. decode_value sf fuel d tv = Inr (d', r) \<and> ahead d' (pre @ v) rest ps \<and> keeps d d' \<and> result_ok tv r"
  proof (cases tv)
    case None
    then show ?thesis using dv d1 by (auto simp: decode_literal_def result_ok_def)
  next
    case (Some tx)
    then obtain t x where tx: "tv = Some (t, x)" "has_type t x" using *(8) by (cases tx) (auto simp: target_ok_def)
    obtain d2 x2 where "literalStore d1 v t x = Inr (d2, x2)" "has_type t x2" "keeps d1 d2" "same_place d1 d2"
      using store_literal [OF *(1) tx(2)] by blast
    then show ?thesis using dv d1 start item tx keeps_trans [OF d1(3)]
      by (auto simp: decode_literal_def result_ok_def same_place_ahead)
  qed
qed

lemma skip_to:
  assumes "ahead d pre (b @ x # rest) (p # ps)" "jspaces b" "end_step (p # ps) x = Some (op, q)" "op \<noteq> scanSkipSpace"
  shows "in_step (skip_space_op d) (pre @ b @ [x]) rest q \<and> opcode (skip_space_op d) = op \<and> keeps d (skip_space_op d)"
proof (cases b)
  case Nil
  then show ?thesis using assms by (auto simp: ahead_def skip_space_op_def keeps_refl)
next
  case (Cons y b')
  then have y: "isSpace y" "jspaces b'" using assms(2) by (simp_all add: jspaces_def)
  then have "end_step (p # ps) y = Some (scanSkipSpace, StEndValue, p # ps)" by (simp add: end_step_def)
  then have d: "opcode d = scanSkipSpace" "in_step d (pre @ [y]) (b' @ x # rest) (StEndValue, p # ps)"
    using assms(1) Cons by (auto simp: ahead_def)
  from scanWhile_spaces [OF d(2) y(2) skips_spaces_states(2) _ assms(4), of q] assms(3) d(1) Cons
  show ?thesis by (simp add: skip_space_op_def)
qed

lemma followedI:
  assumes "jspaces b" "x \<in> set '',:]}''" "end_step (p # ps) x \<noteq> None"
  shows "followed (p # ps) (b @ x # rest)"
  using assms by (cases b) (auto simp: followed_def jspaces_def end_step_def)

lemma decodesE:
  assumes "decodes sf n v" "jvalue n v" "n + length ps \<le> maxNestingDepth" "followed ps rest" "length v \<le> fuel"
    and "in_step d (pre @ [hd v]) (tl v @ rest) q" "astep (StBeginValue, ps) (hd v) = Some (opcode d, q)" "target_ok tv"
  obtains d' r where "decode_value sf fuel d tv = Inr (d', r)" "ahead d' (pre @ v) rest ps" "keeps d d'" "result_ok tv r"
proof -
  have "v = hd v # tl v" using jvalue_first [OF assms(2)] by simp
  from assms(1) [unfolded decodes_def, rule_format, OF this assms(3-5,7) refl assms(6,8)] that show ?thesis by blast
qed

text \<open>Reading up to the first byte of a value, in an array or after the colon of a member.\<close>

lemma value_begins:
  assumes "jvalue n v" "n + length ps \<le> maxNestingDepth"
  shows "\<exists>op q. astep (StBeginValue, ps) (hd v) = Some (op, q) \<and> op \<noteq> scanSkipSpace \<and> op \<notin> {scanEndArray, scanEndObject}"
proof -
  obtain st where r: "brun (length ps) (StBeginValue, ps) v = Some (st, ps)"
    using grammar_runs(1) [OF assms(1)] assms(2) unfolding runs_value_def by blast
  obtain c cs where v: "v = c # cs" "\<not> isSpace c" using jvalue_first [OF assms(1)] by (cases v) auto
  obtain op q where q: "astep (StBeginValue, ps) c = Some (op, q)"
    using r v(1) by (cases "astep (StBeginValue, ps) c") (simp_all del: astep_BeginValue, auto)
  then have "op \<in> {scanBeginObject, scanBeginArray, scanBeginLiteral}" using v(2) by (auto simp: deepen_def split: if_splits)
  then show ?thesis using q v(1) by (intro exI [of _ op] exI [of _ q]) (simp del: astep_BeginValue, auto)
qed

lemma scan_to_value:
  assumes "in_step d pre (a @ v @ rest) (st, ps)" "jspaces a" "jvalue n v" "n + length ps \<le> maxNestingDepth"
    and "st \<in> {StBeginValue, StBeginValueOrEmpty}"
  shows "\<exists>q. in_step (scanWhile d scanSkipSpace) ((pre @ a) @ [hd v]) (tl v @ rest) q \<and> keeps d (scanWhile d scanSkipSpace) \<and>
    astep (StBeginValue, ps) (hd v) = Some (opcode (scanWhile d scanSkipSpace), q) \<and>
    opcode (scanWhile d scanSkipSpace) \<notin> {scanEndArray, scanEndObject}"
proof -
  have v: "v = hd v # tl v" "hd v \<noteq> CHR '']''" "\<not> isSpace (hd v)" using jvalue_first [OF assms(3)] by simp_all
  obtain op q where q: "astep (StBeginValue, ps) (hd v) = Some (op, q)" "op \<noteq> scanSkipSpace" "op \<notin> {scanEndArray, scanEndObject}"
    using value_begins [OF assms(3,4)] by blast
  have s: "astep (st, ps) (hd v) = Some (op, q)" using q(1) assms(5) v(2,3) by auto
  have i: "in_step d pre (a @ hd v # (tl v @ rest)) (st, ps)" using assms(1) v(1) by (metis append_Cons)
  have "skips_spaces (st, ps)" using skips_spaces_states(1) assms(5) by blast
  from scanWhile_spaces [OF i assms(2) this s q(2)] q show ?thesis
    by (intro exI [of _ q]) (simp del: astep_BeginValue)
qed

lemma array_element:
  assumes "decodes sf n v" "jvalue n v" "jspaces a" "jspaces b" "st \<in> {StBeginValue, StBeginValueOrEmpty}"
    and "in_step d pre (a @ v @ b @ x # rest) (st, parseArrayValue # ps)" "n + length ps + 1 \<le> maxNestingDepth"
    and "length v \<le> fuel" "x = CHR '','' \<or> x = CHR '']''" "has_type et (slice_elem et xs ys i)"
  shows "\<exists>d' y xs' ys'. slice_store xs ys i y = (xs', ys') \<and> has_type et y \<and> keeps d d' \<and>
    in_step d' (pre @ a @ v @ b @ [x]) rest (if x = CHR '']'' then popped ps else (StBeginValue, parseArrayValue # ps)) \<and>
    array_loop (decode_value sf fuel) (Suc m) d et xs ys i =
      (if x = CHR '']'' then Inr (d', slice_finish xs' ys' (i + 1)) else array_loop (decode_value sf fuel) m d' et xs' ys' (i + 1))"
proof -
  let ?ps = "parseArrayValue # ps" and ?d1 = "scanWhile d scanSkipSpace"
  have len: "n + length ?ps \<le> maxNestingDepth" using assms(7) by simp
  have e: "end_step ?ps x = Some (if x = CHR '']'' then scanEndArray else scanArrayValue,
      if x = CHR '']'' then popped ps else (StBeginValue, ?ps))"
    using assms(9) by (auto simp: end_step_def isSpace_def)
  obtain q where q: "in_step ?d1 ((pre @ a) @ [hd v]) (tl v @ b @ x # rest) q" "keeps d ?d1"
    "astep (StBeginValue, ?ps) (hd v) = Some (opcode ?d1, q)" "opcode ?d1 \<notin> {scanEndArray, scanEndObject}"
    using scan_to_value [OF assms(6,3,2) len assms(5)] by blast
  have "followed ?ps (b @ x # rest)" by (rule followedI) (use assms(4,9) e in auto)
  moreover have t: "target_ok (Some (et, slice_elem et xs ys i))" using assms(10) by (simp add: target_ok_def)
  ultimately obtain d2 r where d2: "decode_value sf fuel ?d1 (Some (et, slice_elem et xs ys i)) = Inr (d2, r)"
    "ahead d2 ((pre @ a) @ v) (b @ x # rest) ?ps" "keeps ?d1 d2" "result_ok (Some (et, slice_elem et xs ys i)) r"
    using decodesE [OF assms(1,2) len _ assms(8) q(1,3)] by metis
  obtain y where y: "r = Some y" "has_type et y" using d2(4) by (auto simp: result_ok_def)
  let ?d3 = "skip_space_op d2"
  have d3: "in_step ?d3 (((pre @ a) @ v) @ b @ [x]) rest (if x = CHR '']'' then popped ps else (StBeginValue, ?ps))"
    "opcode ?d3 = (if x = CHR '']'' then scanEndArray else scanArrayValue)" "keeps d2 ?d3"
    using skip_to [OF d2(2) assms(4) e] by auto
  obtain xs' ys' where sl: "slice_store xs ys i y = (xs', ys')" by fastforce
  have "keeps d ?d3" using q(2) d2(3) d3(3) keeps_trans by blast
  moreover have "array_loop (decode_value sf fuel) (Suc m) d et xs ys i =
      (if x = CHR '']'' then Inr (?d3, slice_finish xs' ys' (i + 1)) else array_loop (decode_value sf fuel) m ?d3 et xs' ys' (i + 1))"
    using q(4) d2(1) y(1) sl d3(2) assms(9) by (auto simp: Let_def)
  moreover have "in_step ?d3 (pre @ a @ v @ b @ [x]) rest (if x = CHR '']'' then popped ps else (StBeginValue, ?ps))"
    using d3(1) by (simp only: append_assoc)
  ultimately show ?thesis using sl y(2) by blast
qed

text \<open>The slice stays typed, and the index within its length.\<close>

definition slice_ok :: "gotype \<Rightarrow> goval list \<Rightarrow> goval list \<Rightarrow> nat \<Rightarrow> bool" where
  "slice_ok t xs ys i \<longleftrightarrow> list_all (has_type t) xs \<and> list_all (has_type t) ys \<and> i \<le> length xs"

lemma slice_elem_ok: "slice_ok t xs ys i \<Longrightarrow> has_type t (slice_elem t xs ys i)"
  by (auto simp: slice_ok_def slice_elem_def has_type_zero list_all_length split: list.split)

lemma slice_store_ok:
  "slice_ok t xs ys i \<Longrightarrow> has_type t y \<Longrightarrow> slice_store xs ys i y = (xs', ys') \<Longrightarrow> slice_ok t xs' ys' (i + 1)"
  by (cases ys) (auto simp: slice_ok_def slice_store_def list_all_length nth_list_update nth_append split: if_splits)

lemma slice_finish_ok: "slice_ok t xs ys i \<Longrightarrow> has_type (TSlice t) (slice_finish xs ys i)"
  by (auto simp: slice_ok_def slice_finish_def list_all_iff dest: in_set_takeD in_set_dropD)

definition array_decodes :: "(rune \<Rightarrow> rune) \<Rightarrow> nat \<Rightarrow> string \<Rightarrow> bool" where
  "array_decodes sf n e \<longleftrightarrow> (\<forall>m fuel d pre rest ps st et xs ys i.
     n + length ps + 1 \<le> maxNestingDepth \<longrightarrow> st \<in> {StBeginValue, StBeginValueOrEmpty} \<longrightarrow>
     in_step d pre (e @ CHR '']'' # rest) (st, parseArrayValue # ps) \<longrightarrow> length e < m \<longrightarrow> length e \<le> fuel \<longrightarrow> slice_ok et xs ys i \<longrightarrow>
     (\<exists>d' y. array_loop (decode_value sf fuel) m d et xs ys i = Inr (d', y) \<and> has_type (TSlice et) y \<and>
        in_step d' (pre @ e @ '']'') rest (popped ps) \<and> keeps d d'))"

lemma array_decodes_one:
  assumes "decodes sf n v" "jvalue n v" "jspaces a" "jspaces b"
  shows "array_decodes sf n (a @ v @ b)"
  unfolding array_decodes_def
proof (intro allI impI)
  fix m fuel d pre rest ps st et xs ys i
  assume *: "n + length ps + 1 \<le> maxNestingDepth" "st \<in> {StBeginValue, StBeginValueOrEmpty}"
    "in_step d pre ((a @ v @ b) @ CHR '']'' # rest) (st, parseArrayValue # ps)" "length (a @ v @ b) < m" "length (a @ v @ b) \<le> fuel"
    "slice_ok et xs ys i"
  obtain m' where m: "m = Suc m'" using *(4) by (cases m) auto
  have i: "in_step d pre (a @ v @ b @ CHR '']'' # rest) (st, parseArrayValue # ps)" using *(3) by simp
  have f: "length v \<le> fuel" using *(5) by simp
  obtain d' y xs' ys' where "slice_store xs ys i y = (xs', ys')" "has_type et y" "keeps d d'"
    "in_step d' (pre @ a @ v @ b @ '']'') rest (popped ps)"
    "array_loop (decode_value sf fuel) (Suc m') d et xs ys i = Inr (d', slice_finish xs' ys' (i + 1))"
    using array_element [OF assms(1-4) *(2) i *(1) f _ slice_elem_ok [OF *(6)], of m'] by (auto simp del: array_loop.simps)
  with slice_finish_ok [OF slice_store_ok [OF *(6)]] m
  show "\<exists>d' y. array_loop (decode_value sf fuel) m d et xs ys i = Inr (d', y) \<and> has_type (TSlice et) y \<and>
    in_step d' (pre @ (a @ v @ b) @ '']'') rest (popped ps) \<and> keeps d d'"
    by (auto simp del: array_loop.simps)
qed

lemma array_decodes_more:
  assumes "decodes sf n v" "jvalue n v" "jspaces a" "jspaces b" "array_decodes sf n e"
  shows "array_decodes sf n (a @ v @ b @ CHR '','' # e)"
  unfolding array_decodes_def
proof (intro allI impI)
  fix m fuel d pre rest ps st et xs ys i
  let ?e = "a @ v @ b @ CHR '','' # e"
  assume *: "n + length ps + 1 \<le> maxNestingDepth" "st \<in> {StBeginValue, StBeginValueOrEmpty}"
    "in_step d pre (?e @ CHR '']'' # rest) (st, parseArrayValue # ps)" "length ?e < m" "length ?e \<le> fuel" "slice_ok et xs ys i"
  obtain m' where m: "m = Suc m'" using *(4) by (cases m) auto
  have i: "in_step d pre (a @ v @ b @ CHR '','' # e @ CHR '']'' # rest) (st, parseArrayValue # ps)" using *(3) by simp
  have f: "length v \<le> fuel" using *(5) by simp
  obtain d1 y xs' ys' where d1: "slice_store xs ys i y = (xs', ys')" "has_type et y" "keeps d d1"
    "in_step d1 (pre @ a @ v @ b @ '','') (e @ CHR '']'' # rest) (StBeginValue, parseArrayValue # ps)"
    "array_loop (decode_value sf fuel) (Suc m') d et xs ys i = array_loop (decode_value sf fuel) m' d1 et xs' ys' (i + 1)"
    using array_element [OF assms(1-4) *(2) i *(1) f _ slice_elem_ok [OF *(6)], of m'] by (auto simp del: array_loop.simps)
  have l: "length e < m'" "length e \<le> fuel" using *(4,5) m by auto
  obtain d2 z where "array_loop (decode_value sf fuel) m' d1 et xs' ys' (i + 1) = Inr (d2, z)" "has_type (TSlice et) z"
    "in_step d2 ((pre @ a @ v @ b @ '','') @ e @ '']'') rest (popped ps)" "keeps d1 d2"
    using assms(5) [unfolded array_decodes_def, rule_format, OF *(1) _ d1(4) l slice_store_ok [OF *(6) d1(2,1)]] by auto
  with d1(3,5) m keeps_trans
  show "\<exists>d' y. array_loop (decode_value sf fuel) m d et xs ys i = Inr (d', y) \<and> has_type (TSlice et) y \<and>
    in_step d' (pre @ ?e @ '']'') rest (popped ps) \<and> keeps d d'"
    by (intro exI [of _ d2] exI [of _ z]) (auto simp del: array_loop.simps has_type.simps)
qed

section \<open>Objects\<close>

lemma read_key_ok:
  assumes "jstring k" "in_step d (pre @ [dquote]) (tl k @ rest) (StInString, p # ps)" "followed (p # ps) rest"
  shows "\<exists>d' key. read_key d = Inr (d', key) \<and> ahead d' (pre @ k) rest (p # ps) \<and> keeps d d'"
proof -
  have k: "jliteral k" "k = dquote # tl k" using assms(1) by (auto simp: jliteral_def jstring_def)
  obtain d1 where d1: "rescanLiteral d = Inr d1" "ahead d1 (pre @ k) rest (p # ps)" "keeps d d1"
    "readIndex d1 = length pre + length k" "data d1 = pre @ k @ rest"
    using rescan_literal [OF k assms(3,2)] by auto
  have "readIndex d = length pre" using assms(2) by (simp add: in_step_def readIndex_def)
  moreover have "item_from d1 (length pre) = Inr k" using d1(4,5) by (simp add: item_from_def)
  moreover obtain key where "unquoteBytes k = Some key" using unquote_total [OF assms(1)] by blast
  ultimately show ?thesis using d1 by (simp add: read_key_def)
qed

definition fields_ok :: "(string \<times> gotype) list \<Rightarrow> goval list \<Rightarrow> bool" where
  "fields_ok fs vs \<longleftrightarrow> length vs = length fs \<and> (\<forall>i < length fs. has_type (snd (fs ! i)) (vs ! i))"

lemma index_of_less: "index_of P xs = Some i \<Longrightarrow> i < length xs"
  by (induction xs arbitrary: i) (auto split: if_splits)

lemma field_index_less: "field_index sf fs key = Some i \<Longrightarrow> i < length fs"
  by (auto simp: field_index_def split: option.splits dest: index_of_less)

lemma enter_place: "same_place d (enter_field d t f)" by (simp add: same_place_def enter_field_def)

lemma enter_ctx: "ctx (enter_field d t f) = (Some t, snd (ctx d) @ [f])"
  by (auto simp: ctx_def enter_field_def split: option.split)

lemma enter_proper: "proper d \<Longrightarrow> proper (enter_field d t f)"
  by (simp add: proper_def enter_ctx) (simp add: enter_field_def)

lemma leave_place: "same_place d (leave_field d orig)"
  by (auto simp: same_place_def leave_field_def split: option.split)

lemma leave_saved [simp]: "savedError (leave_field d orig) = savedError d"
  by (auto simp: leave_field_def split: option.split)

lemma leave_ctx:
  assumes "ctx d = orig \<or> ctx d = (Some t, snd orig @ [f])"
  shows "ctx (leave_field d orig) = orig"
  using assms by (cases orig) (auto simp: ctx_def leave_field_def split: option.splits)

lemma same_place_in_step: "same_place d d' \<Longrightarrow> in_step d' pre rest q = in_step d pre rest q"
  by (simp add: same_place_def in_step_def)

text \<open>One member: its key, the field it selects, and its value, up to the byte after the value.\<close>

lemma member_key:
  assumes "jspaces a" "jstring k" "jspaces b" "st \<in> {StBeginString, StBeginStringOrEmpty}"
    and "in_step d pre (a @ k @ b @ CHR '':'' # rest) (st, parseObjectKey # ps)"
  defines "d1 \<equiv> scanWhile d scanSkipSpace"
  shows "opcode d1 = scanBeginLiteral \<and> (\<exists>d2 key. read_key d1 = Inr (d2, key) \<and> keeps d d2 \<and>
    ahead d2 (pre @ a @ k) (b @ CHR '':'' # rest) (parseObjectKey # ps))"
proof -
  let ?ps = "parseObjectKey # ps"
  have k: "k @ b @ CHR '':'' # rest = dquote # (tl k @ b @ CHR '':'' # rest)" using assms(2) by (auto simp: jstring_def)
  have s: "astep (st, ?ps) dquote = Some (scanBeginLiteral, StInString, ?ps)" using assms(4) by (auto simp: isSpace_def)
  have sk: "skips_spaces (st, ?ps)" using skips_spaces_states(1) assms(4) by blast
  have d1: "in_step d1 ((pre @ a) @ [dquote]) (tl k @ b @ CHR '':'' # rest) (StInString, ?ps)" "opcode d1 = scanBeginLiteral" "keeps d d1"
    using scanWhile_spaces [OF assms(5) [unfolded k] assms(1) sk s] by (simp_all add: d1_def)
  have "followed ?ps (b @ CHR '':'' # rest)" by (rule followedI [OF assms(3)]) (simp_all add: end_step_def isSpace_def)
  from read_key_ok [OF assms(2) d1(1) this] d1(2,3) keeps_trans [OF d1(3)] show ?thesis by auto
qed

lemma object_member:
  assumes "decodes sf n v" "jvalue n v" "jspaces a" "jstring k" "jspaces b" "jspaces c" "jspaces e"
    and "st \<in> {StBeginString, StBeginStringOrEmpty}"
    and "in_step d pre (a @ k @ b @ CHR '':'' # c @ v @ e @ x # rest) (st, parseObjectKey # ps)" "n + length ps + 1 \<le> maxNestingDepth"
    and "length v \<le> fuel" "x = CHR '','' \<or> x = CHR ''}''" "fields_ok fs vs" "orig = ctx d"
  shows "\<exists>d' vs'. fields_ok fs vs' \<and> keeps d d' \<and>
    in_step d' (pre @ a @ k @ b @ CHR '':'' # c @ v @ e @ [x]) rest (if x = CHR ''}'' then popped ps else (StBeginString, parseObjectKey # ps)) \<and>
    object_loop sf (decode_value sf fuel) (Suc m) d tn fs vs orig =
      (if x = CHR ''}'' then Inr (d', VStruct vs') else object_loop sf (decode_value sf fuel) m d' tn fs vs' orig)"
proof -
  let ?ks = "parseObjectKey # ps" and ?ps = "parseObjectValue # ps" and ?d1 = "scanWhile d scanSkipSpace"
  have len: "n + length ?ps \<le> maxNestingDepth" using assms(10) by simp
  obtain d2 key where d2: "opcode ?d1 = scanBeginLiteral" "read_key ?d1 = Inr (d2, key)" "keeps d d2"
    "ahead d2 (pre @ a @ k) (b @ CHR '':'' # c @ v @ e @ x # rest) ?ks"
    using member_key [OF assms(3,4,5,8,9)] by blast
  let ?f = "field_index sf fs key"
  define d3 where "d3 = (case ?f of None \<Rightarrow> d2 | Some i \<Rightarrow> enter_field d2 tn (fst (fs ! i)))"
  define tv where "tv = map_option (\<lambda>i. (snd (fs ! i), vs ! i)) ?f"
  have d3: "same_place d2 d3" "proper d2 \<longrightarrow> proper d3" "ctx d3 = orig \<or> (\<exists>f. ctx d3 = (Some tn, snd orig @ [f]))"
    using d2(3) assms(14) enter_place [of d2] enter_proper [of d2] enter_ctx [of d2]
    by (auto simp: d3_def same_place_def keeps_def split: option.split)
  have colon: "end_step ?ks CHR '':'' = Some (scanObjectKey, StBeginValue, ?ps)" by (simp add: end_step_def isSpace_def)
  let ?d4 = "skip_space_op d3"
  have d4: "in_step ?d4 ((pre @ a @ k) @ b @ [CHR '':'']) (c @ v @ e @ x # rest) (StBeginValue, ?ps)" "opcode ?d4 = scanObjectKey" "keeps d3 ?d4"
    using skip_to [of d3 "pre @ a @ k" b "CHR '':''" _ parseObjectKey ps, OF _ assms(5) colon] d2(4) same_place_ahead [OF d3(1)] by auto
  let ?d5 = "scanWhile ?d4 scanSkipSpace" and ?pre = "((pre @ a @ k) @ b @ [CHR '':'']) @ c"
  obtain q where q: "in_step ?d5 (?pre @ [hd v]) (tl v @ e @ x # rest) q" "keeps ?d4 ?d5"
    "astep (StBeginValue, ?ps) (hd v) = Some (opcode ?d5, q)"
    using scan_to_value [OF d4(1) assms(6,2) len] by blast
  have en: "end_step ?ps x = Some (if x = CHR ''}'' then scanEndObject else scanObjectValue,
      if x = CHR ''}'' then popped ps else (StBeginString, ?ks))"
    using assms(12) by (auto simp: end_step_def isSpace_def)
  have fo: "followed ?ps (e @ x # rest)" by (rule followedI) (use assms(7,12) en in auto)
  have tv: "target_ok tv" using assms(13) field_index_less [of sf fs key]
    by (auto simp: tv_def target_ok_def fields_ok_def split: option.split)
  obtain d6 r where d6: "decode_value sf fuel ?d5 tv = Inr (d6, r)" "ahead d6 (?pre @ v) (e @ x # rest) ?ps" "keeps ?d5 d6" "result_ok tv r"
    using decodesE [OF assms(1,2) len fo assms(11) q(1,3) tv] by metis
  let ?d7 = "skip_space_op d6" and ?q = "if x = CHR ''}'' then popped ps else (StBeginString, ?ks)"
  have d7: "in_step ?d7 ((?pre @ v) @ e @ [x]) rest ?q" "opcode ?d7 = (if x = CHR ''}'' then scanEndObject else scanObjectValue)" "keeps d6 ?d7"
    using skip_to [OF d6(2) assms(7) en] by auto
  let ?d8 = "leave_field ?d7 orig"
  define vs' where "vs' = (case ?f of None \<Rightarrow> vs | Some i \<Rightarrow> (case r of None \<Rightarrow> vs | Some y \<Rightarrow> vs[i := y]))"
  have k37: "keeps d3 ?d7" using d4(3) q(2) d6(3) d7(3) keeps_trans by blast
  have c8: "ctx ?d8 = orig" using d3(3) k37 leave_ctx [of ?d7 orig] by (auto simp: keeps_def)
  have "keeps d ?d8"
  proof -
    have "proper ?d8" if "proper d"
      using that d2(3) d3(2) k37 c8 assms(14) by (auto simp: keeps_def proper_def)
    moreover have "data ?d8 = data d" using d2(3) d3(1) k37 leave_place [of ?d7 orig] by (simp add: keeps_def same_place_def)
    ultimately show ?thesis using c8 assms(14) by (simp add: keeps_def)
  qed
  moreover have "fields_ok fs vs'" using assms(13) d6(4) field_index_less [of sf fs key]
    by (auto simp: vs'_def tv_def result_ok_def fields_ok_def nth_list_update split: option.splits)
  moreover have "in_step ?d8 (pre @ a @ k @ b @ CHR '':'' # c @ v @ e @ [x]) rest ?q"
    using d7(1) same_place_in_step [OF leave_place] by simp
  moreover have "opcode ?d8 = opcode ?d7" using leave_place by (simp add: same_place_def)
  then have "object_loop sf (decode_value sf fuel) (Suc m) d tn fs vs orig =
      (if x = CHR ''}'' then Inr (?d8, VStruct vs') else object_loop sf (decode_value sf fuel) m ?d8 tn fs vs' orig)"
    using d2(1,2) d4(2) d6(1) d7(2) assms(12)
    by (auto simp: Let_def d3_def [symmetric] tv_def [symmetric] vs'_def [symmetric])
  ultimately show ?thesis by blast
qed

definition object_decodes :: "(rune \<Rightarrow> rune) \<Rightarrow> nat \<Rightarrow> string \<Rightarrow> bool" where
  "object_decodes sf n e \<longleftrightarrow> (\<forall>m fuel d pre rest ps st tn fs vs.
     n + length ps + 1 \<le> maxNestingDepth \<longrightarrow> st \<in> {StBeginString, StBeginStringOrEmpty} \<longrightarrow>
     in_step d pre (e @ CHR ''}'' # rest) (st, parseObjectKey # ps) \<longrightarrow> length e < m \<longrightarrow> length e \<le> fuel \<longrightarrow> fields_ok fs vs \<longrightarrow>
     (\<exists>d' vs'. object_loop sf (decode_value sf fuel) m d tn fs vs (ctx d) = Inr (d', VStruct vs') \<and> fields_ok fs vs' \<and>
        in_step d' (pre @ e @ ''}'') rest (popped ps) \<and> keeps d d'))"

lemma object_decodes_one:
  assumes "decodes sf n v" "jvalue n v" "jspaces a" "jstring k" "jspaces b" "jspaces c" "jspaces e"
  shows "object_decodes sf n (a @ k @ b @ CHR '':'' # c @ v @ e)"
  unfolding object_decodes_def
proof (intro allI impI)
  fix m fuel d pre rest ps st tn fs vs
  let ?e = "a @ k @ b @ CHR '':'' # c @ v @ e"
  assume *: "n + length ps + 1 \<le> maxNestingDepth" "st \<in> {StBeginString, StBeginStringOrEmpty}"
    "in_step d pre (?e @ CHR ''}'' # rest) (st, parseObjectKey # ps)" "length ?e < m" "length ?e \<le> fuel" "fields_ok fs vs"
  obtain m' where m: "m = Suc m'" using *(4) by (cases m) auto
  have i: "in_step d pre (a @ k @ b @ CHR '':'' # c @ v @ e @ CHR ''}'' # rest) (st, parseObjectKey # ps)" using *(3) by simp
  have f: "length v \<le> fuel" using *(5) by simp
  show "\<exists>d' vs'. object_loop sf (decode_value sf fuel) m d tn fs vs (ctx d) = Inr (d', VStruct vs') \<and> fields_ok fs vs' \<and>
    in_step d' (pre @ ?e @ ''}'') rest (popped ps) \<and> keeps d d'"
    using object_member [OF assms *(2) i *(1) f _ *(6) refl, of m' tn] m by (auto simp del: object_loop.simps)
qed

lemma object_decodes_more:
  assumes "decodes sf n v" "jvalue n v" "jspaces a" "jstring k" "jspaces b" "jspaces c" "jspaces e" "object_decodes sf n ms"
  shows "object_decodes sf n (a @ k @ b @ CHR '':'' # c @ v @ e @ CHR '','' # ms)"
  unfolding object_decodes_def
proof (intro allI impI)
  fix m fuel d pre rest ps st tn fs vs
  let ?e = "a @ k @ b @ CHR '':'' # c @ v @ e @ CHR '','' # ms"
  assume *: "n + length ps + 1 \<le> maxNestingDepth" "st \<in> {StBeginString, StBeginStringOrEmpty}"
    "in_step d pre (?e @ CHR ''}'' # rest) (st, parseObjectKey # ps)" "length ?e < m" "length ?e \<le> fuel" "fields_ok fs vs"
  obtain m' where m: "m = Suc m'" using *(4) by (cases m) auto
  have i: "in_step d pre (a @ k @ b @ CHR '':'' # c @ v @ e @ CHR '','' # ms @ CHR ''}'' # rest) (st, parseObjectKey # ps)" using *(3) by simp
  have f: "length v \<le> fuel" using *(5) by simp
  obtain d1 vs1 where d1: "fields_ok fs vs1" "keeps d d1"
    "in_step d1 (pre @ a @ k @ b @ CHR '':'' # c @ v @ e @ '','') (ms @ CHR ''}'' # rest) (StBeginString, parseObjectKey # ps)"
    "object_loop sf (decode_value sf fuel) (Suc m') d tn fs vs (ctx d) = object_loop sf (decode_value sf fuel) m' d1 tn fs vs1 (ctx d)"
    using object_member [OF assms(1-7) *(2) i *(1) f _ *(6) refl, of m' tn] by (auto simp del: object_loop.simps)
  have l: "length ms < m'" "length ms \<le> fuel" "ctx d1 = ctx d" using *(4,5) m d1(2) by (auto simp: keeps_def)
  obtain d2 vs2 where "object_loop sf (decode_value sf fuel) m' d1 tn fs vs1 (ctx d) = Inr (d2, VStruct vs2)" "fields_ok fs vs2"
    "in_step d2 ((pre @ a @ k @ b @ CHR '':'' # c @ v @ e @ '','') @ ms @ ''}'') rest (popped ps)" "keeps d1 d2"
    using assms(8) [unfolded object_decodes_def, rule_format, OF *(1) _ d1(3) l(1,2) d1(1), of tn] l(3) by auto
  with d1(2,4) m keeps_trans
  show "\<exists>d' vs'. object_loop sf (decode_value sf fuel) m d tn fs vs (ctx d) = Inr (d', VStruct vs') \<and> fields_ok fs vs' \<and>
    in_step d' (pre @ ?e @ ''}'') rest (popped ps) \<and> keeps d d'"
    by (intro exI [of _ d2] exI [of _ vs2]) (auto simp del: object_loop.simps)
qed

section \<open>Arrays and objects as values\<close>

definition closes :: "config \<Rightarrow> string \<Rightarrow> char \<Rightarrow> parse_state list \<Rightarrow> bool" where
  "closes q body cl ps \<longleftrightarrow> length (snd q) = length ps + 1 \<and>
     (\<exists>q1 op. brun (length ps + 1) q body = Some q1 \<and> astep q1 cl = Some (op, popped ps))"

lemma skip_closes:
  assumes "closes q body cl ps" "in_step d pre (body @ cl # rest) q"
  shows "\<exists>d'. skip d = Inr d' \<and> in_step d' (pre @ body @ [cl]) rest (popped ps) \<and> keeps d d'"
proof -
  obtain q1 op where q1: "brun (length (snd q)) q body = Some q1" "astep q1 cl = Some (op, popped ps)"
    using assms(1) by (auto simp: closes_def)
  have "length (snd (popped ps)) < length (snd q)" using assms(1) by (auto simp: closes_def popped_def)
  from skip_run [OF assms(2) q1 this] show ?thesis by blast
qed

lemma scanNext_after:
  assumes "in_step d pre rest (popped ps)" "followed ps rest"
  shows "ahead (scanNext d) pre rest ps \<and> keeps d (scanNext d)"
proof (cases rest)
  case Nil
  then show ?thesis by (auto simp: ahead_def scanNext_def keeps_scan split: prod.split)
next
  case (Cons c rest')
  obtain st where st: "popped ps = (st, ps)" "closed st ps" using popped_stack by blast
  obtain op q where e: "end_step ps c = Some (op, q)" using assms(2) Cons by (auto simp: followed_def)
  have "astep (popped ps) c = Some (op, q)"
    using closed_step [OF st(2), of c] assms(2) Cons e by (simp add: followed_def st(1))
  from scanNext_step [OF assms(1) [unfolded Cons] this] e Cons show ?thesis by (auto simp: ahead_def)
qed

lemma composite_ok:
  assumes "in_step d (pre @ [b0]) (body @ cl # rest) q" "closes q body cl ps" "followed ps rest" "target_ok tv"
    and "\<And>t x. has_type t x \<Longrightarrow> \<exists>d1 y. dec t x = Inr (d1, y) \<and> has_type t y \<and> keeps d d1 \<and>
      in_step d1 ((pre @ [b0]) @ body @ [cl]) rest (popped ps)"
  shows "\<exists>d' r. decode_composite dec d tv = Inr (d', r) \<and> ahead d' (pre @ b0 # body @ [cl]) rest ps \<and> keeps d d' \<and> result_ok tv r"
proof (cases tv)
  case None
  obtain d1 where d1: "skip d = Inr d1" "in_step d1 ((pre @ [b0]) @ body @ [cl]) rest (popped ps)" "keeps d d1"
    using skip_closes [OF assms(2,1)] by blast
  with scanNext_after [OF d1(2) assms(3)] keeps_trans [OF d1(3)] None show ?thesis
    by (auto simp: decode_composite_def result_ok_def)
next
  case (Some tx)
  then obtain t x where tx: "tv = Some (t, x)" "has_type t x" using assms(4) by (cases tx) (auto simp: target_ok_def)
  obtain d1 y where d1: "dec t x = Inr (d1, y)" "has_type t y" "keeps d d1" "in_step d1 ((pre @ [b0]) @ body @ [cl]) rest (popped ps)"
    using assms(5) [OF tx(2)] by blast
  with scanNext_after [OF d1(4) assms(3)] keeps_trans [OF d1(3)] tx show ?thesis
    by (auto simp: decode_composite_def result_ok_def)
qed

text \<open>The target of another type: the error is kept and the value skipped.\<close>

lemma mismatch_ok:
  assumes "closes q body cl ps" "in_step d pre (body @ cl # rest) q" "has_type t x"
  shows "\<exists>d1 y. (case skip (type_error d w t (off d)) of Inl e \<Rightarrow> Inl e | Inr d1 \<Rightarrow> Inr (d1, x)) = Inr (d1, y) \<and> has_type t y \<and>
    keeps d d1 \<and> in_step d1 (pre @ body @ [cl]) rest (popped ps)"
proof -
  have "in_step (type_error d w t (off d)) pre (body @ cl # rest) q" using assms(2) by (simp add: keeps_type_error)
  from skip_closes [OF assms(1) this] obtain d1 where "skip (type_error d w t (off d)) = Inr d1"
    "in_step d1 (pre @ body @ [cl]) rest (popped ps)" "keeps (type_error d w t (off d)) d1" by blast
  then show ?thesis using keeps_trans [OF keeps_type_error(1)] assms(3) by auto
qed

lemma array_ok:
  assumes "in_step d pre (body @ CHR '']'' # rest) (StBeginValueOrEmpty, parseArrayValue # ps)" "length body < f"
    and "closes (StBeginValueOrEmpty, parseArrayValue # ps) body CHR '']'' ps" "n + length ps + 1 \<le> maxNestingDepth"
    and "array_decodes sf n body \<or> jspaces body" "has_type t x"
  shows "\<exists>d1 y. decode_array (decode_value sf f) f d t x = Inr (d1, y) \<and> has_type t y \<and> keeps d d1 \<and>
    in_step d1 (pre @ body @ '']'') rest (popped ps)"
proof (cases "\<exists>et b xs ys. t = TSlice et \<and> x = VSlice b xs ys")
  case False
  then have "decode_array (decode_value sf f) f d t x =
    (case skip (type_error d ''array'' t (off d)) of Inl e \<Rightarrow> Inl e | Inr d1 \<Rightarrow> Inr (d1, x))"
    by (cases t; cases x) (auto simp: decode_array_def)
  then show ?thesis using mismatch_ok [OF assms(3,1,6)] by simp
next
  case True
  then obtain et b xs ys where tx: "t = TSlice et" "x = VSlice b xs ys" by blast
  have dec: "decode_array (decode_value sf f) f d t x = array_loop (decode_value sf f) f d et xs ys 0"
    using tx by (simp add: decode_array_def)
  show ?thesis
  proof (cases "jspaces body")
    case True
    have e: "astep (StBeginValueOrEmpty, parseArrayValue # ps) CHR '']'' = Some (scanEndArray, popped ps)"
      by (simp add: end_step_def isSpace_def)
    obtain f' where f: "f = Suc f'" using assms(2) by (cases f) auto
    from scanWhile_spaces [OF assms(1) True skips_spaces_states(1) e] f tx dec show ?thesis
      by (auto simp: slice_finish_def Let_def)
  next
    case False
    then have a: "array_decodes sf n body" using assms(5) by blast
    have "slice_ok et xs ys 0" using assms(6) tx by (simp add: slice_ok_def)
    then show ?thesis using a [unfolded array_decodes_def, rule_format, OF assms(4) _ assms(1,2), of f et xs ys 0] assms(2) tx dec
      by auto
  qed
qed

lemma object_ok:
  assumes "in_step d pre (body @ CHR ''}'' # rest) (StBeginStringOrEmpty, parseObjectKey # ps)" "length body < f"
    and "closes (StBeginStringOrEmpty, parseObjectKey # ps) body CHR ''}'' ps" "n + length ps + 1 \<le> maxNestingDepth"
    and "object_decodes sf n body \<or> jspaces body" "has_type t x"
  shows "\<exists>d1 y. decode_object sf (decode_value sf f) f d t x = Inr (d1, y) \<and> has_type t y \<and> keeps d d1 \<and>
    in_step d1 (pre @ body @ ''}'') rest (popped ps)"
proof (cases "\<exists>str nm fs vs. t = TStruct str nm fs \<and> x = VStruct vs")
  case False
  then have "decode_object sf (decode_value sf f) f d t x =
    (case skip (type_error d ''object'' t (off d)) of Inl e \<Rightarrow> Inl e | Inr d1 \<Rightarrow> Inr (d1, x))"
    by (cases t; cases x) (auto simp: decode_object_def)
  then show ?thesis using mismatch_ok [OF assms(3,1,6)] by simp
next
  case True
  then obtain str nm fs vs where tx: "t = TStruct str nm fs" "x = VStruct vs" by blast
  have dec: "decode_object sf (decode_value sf f) f d t x = object_loop sf (decode_value sf f) f d nm fs vs (ctx d)"
    using tx by (simp add: decode_object_def ctx_def)
  have fo: "fields_ok fs vs" using assms(6) tx by (simp add: fields_ok_def del: has_type.simps)
  show ?thesis
  proof (cases "jspaces body")
    case True
    have e: "astep (StBeginStringOrEmpty, parseObjectKey # ps) CHR ''}'' = Some (scanEndObject, popped ps)"
      by (simp add: end_step_def isSpace_def)
    obtain f' where f: "f = Suc f'" using assms(2) by (cases f) auto
    from scanWhile_spaces [OF assms(1) True skips_spaces_states(1) e] f tx dec assms(6) show ?thesis
      by (auto simp: Let_def)
  next
    case False
    then have a: "object_decodes sf n body" using assms(5) by blast
    then obtain d' vs' where "object_loop sf (decode_value sf f) f d nm fs vs (ctx d) = Inr (d', VStruct vs')" "fields_ok fs vs'"
      "in_step d' (pre @ body @ ''}'') rest (popped ps)" "keeps d d'"
      using a [unfolded object_decodes_def, rule_format, OF assms(4) _ assms(1,2) _ fo, of f nm] assms(2) by auto
    then show ?thesis using tx dec by (simp add: fields_ok_def del: has_type.simps)
  qed
qed

lemma closes_array:
  assumes "jelems n e \<or> jspaces e" "n + length ps + 1 \<le> maxNestingDepth"
  shows "closes (StBeginValueOrEmpty, parseArrayValue # ps) e CHR '']'' ps"
  using assms(1)
proof
  assume "jelems n e"
  then obtain st where "brun (length ps + 1) (StBeginValueOrEmpty, parseArrayValue # ps) e = Some (st, parseArrayValue # ps)"
    "closed st (parseArrayValue # ps)"
    using grammar_runs(2) assms(2) unfolding runs_elems_def by blast
  then show ?thesis using closed_bracket(1) by (auto simp: closes_def)
next
  assume "jspaces e"
  then have "brun (length ps + 1) (StBeginValueOrEmpty, parseArrayValue # ps) e = Some (StBeginValueOrEmpty, parseArrayValue # ps)"
    using run_spaces [of e "length ps + 1" "parseArrayValue # ps" StBeginValueOrEmpty] by simp
  then show ?thesis by (simp add: closes_def end_step_def isSpace_def)
qed

lemma closes_object:
  assumes "jmembers n e \<or> jspaces e" "n + length ps + 1 \<le> maxNestingDepth"
  shows "closes (StBeginStringOrEmpty, parseObjectKey # ps) e CHR ''}'' ps"
  using assms(1)
proof
  assume "jmembers n e"
  then obtain st where "brun (length ps + 1) (StBeginStringOrEmpty, parseObjectKey # ps) e = Some (st, parseObjectValue # ps)"
    "closed st (parseObjectValue # ps)"
    using grammar_runs(3) assms(2) unfolding runs_members_def by blast
  then show ?thesis using closed_bracket(2) by (auto simp: closes_def)
next
  assume "jspaces e"
  then have "brun (length ps + 1) (StBeginStringOrEmpty, parseObjectKey # ps) e = Some (StBeginStringOrEmpty, parseObjectKey # ps)"
    using run_spaces [of e "length ps + 1" "parseObjectKey # ps" StBeginStringOrEmpty] by simp
  then show ?thesis by (simp add: closes_def end_step_def isSpace_def)
qed

lemma decodes_array:
  assumes "jelems n e \<and> array_decodes sf n e \<or> jspaces e"
  shows "decodes sf (Suc n) (CHR ''['' # e @ '']'')"
  unfolding decodes_def
proof (intro allI impI)
  fix fuel d pre rest ps c0 v' op q tv
  assume *: "CHR ''['' # e @ '']'' = c0 # v'" "Suc n + length ps \<le> maxNestingDepth" "followed ps rest"
    "length (CHR ''['' # e @ '']'') \<le> fuel" "astep (StBeginValue, ps) c0 = Some (op, q)" "opcode d = op"
    "in_step d (pre @ [c0]) (v' @ rest) q" "target_ok tv"
  have v: "c0 = CHR ''[''" "v' = e @ '']''" using *(1) by auto
  have q: "op = scanBeginArray" "q = (StBeginValueOrEmpty, parseArrayValue # ps)" using *(5) v(1) by (auto simp: isSpace_def deepen_Some)
  obtain f where f: "fuel = Suc f" "length e < f" using *(4) by (cases fuel) auto
  have i: "in_step d (pre @ [CHR ''['']) (e @ CHR '']'' # rest) (StBeginValueOrEmpty, parseArrayValue # ps)" using *(7) v q(2) by simp
  have l: "n + length ps + 1 \<le> maxNestingDepth" using *(2) by simp
  have cl: "closes (StBeginValueOrEmpty, parseArrayValue # ps) e CHR '']'' ps" by (rule closes_array [OF _ l]) (use assms in blast)
  have "decode_value sf fuel d tv = decode_composite (decode_array (decode_value sf f) f d) d tv" using f(1) q(1) *(6) by simp
  moreover have "\<exists>d' r. decode_composite (decode_array (decode_value sf f) f d) d tv = Inr (d', r) \<and>
    ahead d' (pre @ CHR ''['' # e @ '']'') rest ps \<and> keeps d d' \<and> result_ok tv r"
    by (rule composite_ok [OF i cl *(3,8)], rule array_ok [OF i f(2) cl l]) (use assms in auto)
  ultimately show "\<exists>d' r. decode_value sf fuel d tv = Inr (d', r) \<and> ahead d' (pre @ CHR ''['' # e @ '']'') rest ps \<and>
    keeps d d' \<and> result_ok tv r" by (simp only:)
qed

lemma decodes_object:
  assumes "jmembers n e \<and> object_decodes sf n e \<or> jspaces e"
  shows "decodes sf (Suc n) (CHR ''{'' # e @ ''}'')"
  unfolding decodes_def
proof (intro allI impI)
  fix fuel d pre rest ps c0 v' op q tv
  assume *: "CHR ''{'' # e @ ''}'' = c0 # v'" "Suc n + length ps \<le> maxNestingDepth" "followed ps rest"
    "length (CHR ''{'' # e @ ''}'') \<le> fuel" "astep (StBeginValue, ps) c0 = Some (op, q)" "opcode d = op"
    "in_step d (pre @ [c0]) (v' @ rest) q" "target_ok tv"
  have v: "c0 = CHR ''{''" "v' = e @ ''}''" using *(1) by auto
  have q: "op = scanBeginObject" "q = (StBeginStringOrEmpty, parseObjectKey # ps)" using *(5) v(1) by (auto simp: isSpace_def deepen_Some)
  obtain f where f: "fuel = Suc f" "length e < f" using *(4) by (cases fuel) auto
  have i: "in_step d (pre @ [CHR ''{'']) (e @ CHR ''}'' # rest) (StBeginStringOrEmpty, parseObjectKey # ps)" using *(7) v q(2) by simp
  have l: "n + length ps + 1 \<le> maxNestingDepth" using *(2) by simp
  have cl: "closes (StBeginStringOrEmpty, parseObjectKey # ps) e CHR ''}'' ps" by (rule closes_object [OF _ l]) (use assms in blast)
  have "decode_value sf fuel d tv = decode_composite (decode_object sf (decode_value sf f) f d) d tv" using f(1) q(1) *(6) by simp
  moreover have "\<exists>d' r. decode_composite (decode_object sf (decode_value sf f) f d) d tv = Inr (d', r) \<and>
    ahead d' (pre @ CHR ''{'' # e @ ''}'') rest ps \<and> keeps d d' \<and> result_ok tv r"
    by (rule composite_ok [OF i cl *(3,8)], rule object_ok [OF i f(2) cl l]) (use assms in auto)
  ultimately show "\<exists>d' r. decode_value sf fuel d tv = Inr (d', r) \<and> ahead d' (pre @ CHR ''{'' # e @ ''}'') rest ps \<and>
    keeps d d' \<and> result_ok tv r" by (simp only:)
qed

lemma grammar_decodes:
  "jvalue n v \<Longrightarrow> jvalue n v \<and> decodes sf n v"
  "jelems n e \<Longrightarrow> jelems n e \<and> array_decodes sf n e"
  "jmembers n m \<Longrightarrow> jmembers n m \<and> object_decodes sf n m"
proof (induction rule: jvalue_jelems_jmembers.inducts)
  case (jv_literal v n)
  then show ?case using decodes_literal jvalue_jelems_jmembers.jv_literal by blast
next
  case (jv_empty_array a n)
  then show ?case using decodes_array jvalue_jelems_jmembers.jv_empty_array by blast
next
  case (jv_array n e)
  then show ?case using decodes_array jvalue_jelems_jmembers.jv_array by blast
next
  case (jv_empty_object a n)
  then show ?case using decodes_object jvalue_jelems_jmembers.jv_empty_object by blast
next
  case (jv_object n m)
  then show ?case using decodes_object jvalue_jelems_jmembers.jv_object by blast
next
  case (je_one a n v b)
  then show ?case using array_decodes_one jvalue_jelems_jmembers.je_one by blast
next
  case (je_more a n v b e)
  then show ?case using array_decodes_more jvalue_jelems_jmembers.je_more by blast
next
  case (jm_one a k b c n v d)
  then show ?case using object_decodes_one jvalue_jelems_jmembers.jm_one by blast
next
  case (jm_more a k b c n v d m)
  then show ?case using object_decodes_more jvalue_jelems_jmembers.jm_more by blast
qed

section \<open>Unmarshal\<close>

lemma unmarshal_total:
  assumes "json_text dat" "has_type t x"
  shows "\<exists>e y. unmarshal sf (decode_init dat s) t x = Inr (e, y) \<and> has_type t y \<and> e \<noteq> Some NilDeref"
proof -
  obtain a v b where dat: "jspaces a" "jvalue maxNestingDepth v" "jspaces b" "dat = a @ v @ b"
    using assms(1) unfolding json_text_def by - (elim exE conjE, rule that, assumption+)
  let ?d = "(decode_init dat s)\<lparr>scan := scan_reset s\<rparr>" and ?n = "2 * length dat + 4"
  let ?d1 = "scanWhile ?d scanSkipSpace"
  have d: "in_step ?d [] (a @ v @ b) (StBeginValue, [])"
    using dat(4) by (simp add: in_step_def decode_init_def scan_reset_def on_course_def scan_config_def)
  obtain q where q: "in_step ?d1 (([] @ a) @ [hd v]) (tl v @ b) q" "keeps ?d ?d1" "astep (StBeginValue, []) (hd v) = Some (opcode ?d1, q)"
    using scan_to_value [OF d dat(1,2)] by auto
  have fo: "followed [] b" using dat(3) by (cases b) (auto simp: followed_def jspaces_def end_step_def)
  have tv: "target_ok (Some (t, x))" using assms(2) by (simp add: target_ok_def)
  have len: "maxNestingDepth + length ([] :: parse_state list) \<le> maxNestingDepth" "length v \<le> ?n" using dat(4) by simp_all
  obtain d2 r where d2: "decode_value sf ?n ?d1 (Some (t, x)) = Inr (d2, r)" "keeps ?d1 d2" "result_ok (Some (t, x)) r"
    using decodesE [OF conjunct2 [OF grammar_decodes(1) [OF dat(2)]] dat(2) len(1) fo len(2) q(1,3) tv] by metis
  have "proper ?d" by (simp add: proper_def ctx_def decode_init_def)
  then have "savedError d2 \<noteq> Some NilDeref" using q(2) d2(2) by (simp add: keeps_def proper_def)
  then show ?thesis using d2 by (auto simp: unmarshal_def decode_init_def result_ok_def)
qed

lemma Unmarshal_ok:
  assumes "has_type t x"
  shows "\<exists>e y. Unmarshal sf dat t x = Inr (e, y) \<and> has_type t y \<and> e \<noteq> Some NilDeref \<and>
    (\<not> json_text dat \<longrightarrow> (\<exists>m k. e = Some (SyntaxError m k)) \<and> y = x)"
proof (cases "json_text dat")
  case True
  then obtain s where "checkValid dat newScanner = (None, s)" using checkValid_iff [of dat newScanner] by (metis prod.collapse)
  then show ?thesis using unmarshal_total [OF True assms, of sf s] True by (auto simp: Unmarshal_def)
next
  case False
  obtain r s where c: "checkValid dat newScanner = (r, s)" by fastforce
  then obtain e where e: "r = Some e" using False checkValid_iff [of dat newScanner] by (cases r) auto
  then obtain m k where "e = SyntaxError m k"
    using syntactic_checkValid [of dat newScanner] c by (cases e) (auto simp: syntactic_def)
  then show ?thesis using c e assms False by (auto simp: Unmarshal_def)
qed

text \<open>
  C17. \<open>json.Unmarshal\<close> into a value of strings, slices and structs ends on every input, without a
  panic: the recursion bound of the model is never reached, no literal, bracket or separator is
  ever other than the decoder expects, and the error context is never used without a struct. What
  it leaves has the type of the target, and on a text outside the grammar it returns a syntax
  error and leaves the target as it was.
\<close>

theorem Unmarshal_total:
  assumes "has_type t x"
  shows "\<exists>e y. Unmarshal sf dat t x = Inr (e, y) \<and> has_type t y \<and> e \<noteq> Some NilDeref \<and>
    (\<not> json_text dat \<longrightarrow> (\<exists>m k. e = Some (SyntaxError m k)) \<and> y = x)"
  by (rule Unmarshal_ok [OF assms])

theorem Unmarshal_total_witness: "\<exists>e y. Unmarshal id ''{'' TString (VString ''a'') = Inr (e, y) \<and> has_type TString y"
  using Unmarshal_total [of TString "VString ''a''" id "''{''"] by auto

end
