(* ===== verification/Env.thy ===== *)
theory Env
  imports Exec Fileops JsonTotal
begin

text \<open>
  Model of \<open>src/internal/env/env.go\<close> and of \<open>LoadConfig\<close> in \<open>src/internal/fileops/fileops.go\<close>:
  the checks and prompts at the start of an update and the configuration files. The decoder of
  theory \<open>JsonDecode\<close> works on type descriptions; those of the program's own structs are here,
  with the conversion of a decoded value to the record. \<open>uni_lower\<close> and \<open>sf\<close> stand for
  \<open>unicode.ToLower\<close> and \<open>unicode.SimpleFold\<close>.
\<close>

section \<open>Types of the configuration\<close>

record VersionMapping =
  VSrc :: string
  VDst :: string

record VersionConfig =
  Version :: "VersionMapping list"

definition pair_fields :: "(string \<times> gotype) list" where
  "pair_fields = [(''src'', TString), (''dst'', TString)]"

definition FileMapping_type :: gotype where
  "FileMapping_type = TStruct ''fileops.FileMapping'' ''FileMapping'' pair_fields"

definition Config_type :: gotype where
  "Config_type = TStruct ''fileops.Config'' ''Config'' [(''file_mappings'', TSlice FileMapping_type)]"

definition VersionMapping_type :: gotype where
  "VersionMapping_type = TStruct ''env.VersionMapping'' ''VersionMapping'' pair_fields"

definition VersionConfig_type :: gotype where
  "VersionConfig_type = TStruct ''env.VersionConfig'' ''VersionConfig'' [(''version'', TSlice VersionMapping_type)]"

definition Mimo_type :: gotype where
  "Mimo_type = TStruct (''struct { MIMO string '' @ [CHR 0x60] @ ''json:'' @ [dquote] @ ''MIMO'' @ [dquote, CHR 0x60] @ '' }'') []
     [(''MIMO'', TString)]"

text \<open>Reading a decoded value as a value of the struct type.\<close>

fun str_of :: "goval \<Rightarrow> string" where
  "str_of (VString s) = s"
| "str_of _ = []"

fun elems_of :: "goval \<Rightarrow> goval list" where
  "elems_of (VSlice _ xs _) = xs"
| "elems_of _ = []"

fun field_of :: "nat \<Rightarrow> goval \<Rightarrow> goval" where
  "field_of i (VStruct vs) = vs ! i"
| "field_of i v = v"

definition config_of :: "goval \<Rightarrow> Config" where
  "config_of v =
     \<lparr>FileMappings = map (\<lambda>m. \<lparr>Src = str_of (field_of 0 m), Dst = str_of (field_of 1 m)\<rparr>) (elems_of (field_of 0 v))\<rparr>"

definition version_of :: "goval \<Rightarrow> VersionConfig" where
  "version_of v =
     \<lparr>Version = map (\<lambda>m. \<lparr>VSrc = str_of (field_of 0 m), VDst = str_of (field_of 1 m)\<rparr>) (elems_of (field_of 0 v))\<rparr>"

definition LoadConfig :: "(rune \<Rightarrow> rune) \<Rightarrow> string \<Rightarrow> world \<Rightarrow> Config result outcome \<times> world" where
  "LoadConfig sf path w =
     (case ReadFile path w of
        (Inl e, w1) \<Rightarrow> (Return (Inl e), w1)
      | (Inr dat, w1) \<Rightarrow>
          (case Unmarshal sf dat Config_type (zero_value Config_type) of
             Inl _ \<Rightarrow> (Crash, w1)
           | Inr (Some e, v) \<Rightarrow> (Return (Inl e), w1)
           | Inr (None, v) \<Rightarrow> (Return (Inr (config_of v)), w1)))"

section \<open>Process and environment\<close>

definition defaultMimoRoot :: string where "defaultMimoRoot = ''/usr/local/mimo''"
definition profilePath :: string where "profilePath = ''/etc/profile.d/mimo_root.sh''"
definition defaultVersion :: string where "defaultVersion = ''v0.0.0''"

definition MustBeRoot :: "world \<Rightarrow> unit outcome \<times> world" where
  "MustBeRoot w = (if w_euid w \<noteq> 0 then Fatalf ''ERROR: must run as root'' [] None w else (Return (), w))"

text \<open>
  \<open>bufio.NewReader(os.Stdin).ReadString\<close>: reads are made until one brings the delimiter; what that
  read brought behind the delimiter stays in the reader's buffer, which is dropped with the reader.
\<close>

fun read_line :: "string list \<Rightarrow> string \<Rightarrow> string option \<times> string list" where
  "read_line [] acc = (None, [])"
| "read_line (c # cs) acc =
     (if c = [] then (None, cs)
      else if nl \<in> set c then (Some (acc @ takeWhile (\<lambda>x. x \<noteq> nl) c @ [nl]), cs)
      else read_line cs (acc @ c))"

definition ConfirmPrompt :: "(rune \<Rightarrow> rune) \<Rightarrow> string \<Rightarrow> world \<Rightarrow> bool \<times> world" where
  "ConfirmPrompt uni_lower msg w =
     (let w1 = println msg w in
      case read_line (w_stdin w1) [] of
        (None, rest) \<Rightarrow> (False, w1\<lparr>w_stdin := rest\<rparr>)
      | (Some line, rest) \<Rightarrow> (ToLower uni_lower (TrimSpace line) = ''y'', w1\<lparr>w_stdin := rest\<rparr>))"

definition Getenv :: "string \<Rightarrow> world \<Rightarrow> string" where
  "Getenv key w = (case map_of (w_env w) key of None \<Rightarrow> [] | Some v \<Rightarrow> v)"

definition Setenv :: "string \<Rightarrow> string \<Rightarrow> world \<Rightarrow> error option \<times> world" where
  "Setenv key val w =
     (if key = [] then (Some (Errno EINVAL), w)
      else if list_ex (\<lambda>c. c = CHR ''='' \<or> c = CHR 0x00) key then (Some (Errno EINVAL), w)
      else if list_ex (\<lambda>c. c = CHR 0x00) val then (Some (Errno EINVAL), w)
      else (None, w\<lparr>w_env := AList.update key val (w_env w)\<rparr>))"

definition EnsureMimoRoot :: "world \<Rightarrow> string outcome \<times> world" where
  "EnsureMimoRoot w =
     (let mimoRoot = Getenv ''MIMO_ROOT'' w in
      if mimoRoot = [] then
        (let mimoRoot = defaultMimoRoot in
         case Setenv ''MIMO_ROOT'' mimoRoot w of
           (Some e, w1) \<Rightarrow> Fatalf ''ERROR: failed to set MIMO_ROOT: %v'' [] (Some e) w1
         | (None, w1) \<Rightarrow>
             (let w2 = printf ''INFO: MIMO_ROOT set to %s'' [mimoRoot] None w1;
                  content = ''export MIMO_ROOT='' @ mimoRoot @ [nl]
              in
              case WriteFile (Clean profilePath) content 0x1A4 w2 of
                (Some e, w3) \<Rightarrow>
                  (Return mimoRoot, printf ''WARN: failed to persist MIMO_ROOT (will continue): %v'' [] (Some e) w3)
              | (None, w3) \<Rightarrow> (Return mimoRoot, println ''INFO: MIMO_ROOT persisted'' w3)))
      else (Return mimoRoot, w))"

section \<open>Configuration files\<close>

definition LoadFileOpsConfig :: "(rune \<Rightarrow> rune) \<Rightarrow> string \<Rightarrow> world \<Rightarrow> Config outcome \<times> world" where
  "LoadFileOpsConfig sf path w =
     (let cleanPath = Clean path in
      case ReadFile cleanPath w of
        (Inl e, w1) \<Rightarrow> Fatalf ''ERROR: failed to read %s: %v'' [cleanPath] (Some e) w1
      | (Inr dat, w1) \<Rightarrow>
          (case Unmarshal sf dat Config_type (zero_value Config_type) of
             Inl _ \<Rightarrow> (Crash, w1)
           | Inr (Some e, v) \<Rightarrow> Fatalf ''ERROR: failed to parse %s: %v'' [cleanPath] (Some e) w1
           | Inr (None, v) \<Rightarrow> (Return (config_of v), w1)))"

definition LoadVersionConfig :: "(rune \<Rightarrow> rune) \<Rightarrow> string \<Rightarrow> world \<Rightarrow> VersionConfig outcome \<times> world" where
  "LoadVersionConfig sf path w =
     (let cleanPath = Clean path in
      case ReadFile cleanPath w of
        (Inl e, w1) \<Rightarrow> Fatalf ''ERROR: failed to read %s: %v'' [cleanPath] (Some e) w1
      | (Inr dat, w1) \<Rightarrow>
          (case Unmarshal sf dat VersionConfig_type (zero_value VersionConfig_type) of
             Inl _ \<Rightarrow> (Crash, w1)
           | Inr (Some e, v) \<Rightarrow> Fatalf ''ERROR: failed to parse %s: %v'' [cleanPath] (Some e) w1
           | Inr (None, v) \<Rightarrow>
               if length (Version (version_of v)) < 2 then
                 Fatalf ''ERROR: version config malformed: need src and dst entries'' [] None w1
               else (Return (version_of v), w1)))"

definition ReadMimoVersion :: "(rune \<Rightarrow> rune) \<Rightarrow> string \<Rightarrow> world \<Rightarrow> string outcome \<times> world" where
  "ReadMimoVersion sf path w =
     (case ReadFile (Clean path) w of
        (Inl e, w1) \<Rightarrow> (Return defaultVersion, w1)
      | (Inr dat, w1) \<Rightarrow>
          (case Unmarshal sf dat Mimo_type (zero_value Mimo_type) of
             Inl _ \<Rightarrow> (Crash, w1)
           | Inr (Some e, v) \<Rightarrow> (Return defaultVersion, w1)
           | Inr (None, v) \<Rightarrow>
               (let mimo = str_of (field_of 0 v) in
                if mimo = [] then (Return defaultVersion, w1) else (Return mimo, w1))))"

end
