(* ===== verification/GoStrconv.thy ===== *)
theory GoStrconv
  imports GoStrings
begin

text \<open>
  Integers and text, from \<open>strconv/atoi.go\<close> and \<open>strconv/itoa.go\<close> on a 64-bit machine. A
  \<open>uint64\<close> is a natural number with the wrap-around written out, an \<open>int64\<close> an integer in range.
  The digits that \<open>formatBits\<close> takes two at a time from \<open>smallsString\<close> are computed.
\<close>

section \<open>Parsing\<close>

datatype num_err = ErrSyntax | ErrRange

definition lower :: "nat \<Rightarrow> nat" where
  "lower c = (if 0x41 \<le> c \<and> c \<le> 0x5A then c + 0x20 else c)"

abbreviation maxUint64 :: nat where "maxUint64 \<equiv> 2 ^ 64 - 1"

text \<open>The digit loop of \<open>ParseUint\<close>, for an explicit base.\<close>

fun parse_uint_loop :: "nat \<Rightarrow> nat \<Rightarrow> string \<Rightarrow> nat \<Rightarrow> (num_err + nat)" where
  "parse_uint_loop base maxVal [] n = Inr n"
| "parse_uint_loop base maxVal (c # s) n =
     (let b = byte c;
          d = (if 0x30 \<le> b \<and> b \<le> 0x39 then Some (b - 0x30)
               else if 0x61 \<le> lower b \<and> lower b \<le> 0x7A then Some (lower b - 0x61 + 10) else None)
      in case d of
           None \<Rightarrow> Inl ErrSyntax
         | Some d \<Rightarrow>
             if d \<ge> base then Inl ErrSyntax
             else if n \<ge> maxUint64 div base + 1 then Inl ErrRange
             else
               (let m = (n * base) mod 2 ^ 64; n1 = (m + d) mod 2 ^ 64 in
                if n1 < m \<or> n1 > maxVal then Inl ErrRange else parse_uint_loop base maxVal s n1))"

definition ParseUint :: "string \<Rightarrow> nat \<Rightarrow> nat \<Rightarrow> (num_err + nat)" where
  "ParseUint s base bitSize = (if s = [] then Inl ErrSyntax else parse_uint_loop base (2 ^ bitSize - 1) s 0)"

text \<open>On a range error \<open>ParseUint\<close> returns its maximal value, which is then out of range here too.\<close>

definition ParseInt :: "string \<Rightarrow> nat \<Rightarrow> nat \<Rightarrow> (num_err + int)" where
  "ParseInt s base bitSize =
     (if s = [] then Inl ErrSyntax
      else
        let neg = (s ! 0 = CHR ''-'');
            t = (if s ! 0 = CHR ''+'' \<or> neg then drop 1 s else s);
            cutoff = 2 ^ (bitSize - 1)
        in case ParseUint t base bitSize of
             Inl ErrSyntax \<Rightarrow> Inl ErrSyntax
           | Inl ErrRange \<Rightarrow> Inl ErrRange
           | Inr un \<Rightarrow>
               if \<not> neg \<and> un \<ge> cutoff then Inl ErrRange
               else if neg \<and> un > cutoff then Inl ErrRange
               else Inr (if neg then - int un else int un))"

fun atoi_loop :: "string \<Rightarrow> int \<Rightarrow> int option" where
  "atoi_loop [] n = Some n"
| "atoi_loop (c # s) n =
     (let ch = (byte c + 256 - 0x30) mod 256 in
      if ch > 9 then None else atoi_loop s (n * 10 + int ch))"

definition num_error :: "string \<Rightarrow> num_err \<Rightarrow> error" where
  "num_error s e =
     Errorf ''strconv.Atoi: parsing %q: %v''
       [s, case e of ErrSyntax \<Rightarrow> ''invalid syntax'' | ErrRange \<Rightarrow> ''value out of range''] None"

definition Atoi :: "string \<Rightarrow> int result" where
  "Atoi s =
     (if 0 < length s \<and> length s < 19 then
        let signed = (s ! 0 = CHR ''-'' \<or> s ! 0 = CHR ''+'');
            t = (if signed then drop 1 s else s)
        in if signed \<and> length t < 1 then Inl (num_error s ErrSyntax)
           else (case atoi_loop t 0 of
                   None \<Rightarrow> Inl (num_error s ErrSyntax)
                 | Some n \<Rightarrow> Inr (if s ! 0 = CHR ''-'' then - n else n))
      else
        (case ParseInt s 10 64 of Inl e \<Rightarrow> Inl (num_error s e) | Inr i \<Rightarrow> Inr i))"

section \<open>Printing\<close>

definition digit :: "nat \<Rightarrow> char" where
  "digit d = char_of (0x30 + d :: nat)"

text \<open>The base-10 loop of \<open>formatBits\<close>: the text is built from its end, two digits a turn.\<close>

function format_loop :: "nat \<Rightarrow> string \<Rightarrow> string" where
  "format_loop us a =
     (if us \<ge> 100 then
        (let r = us mod 100 in format_loop (us div 100) (digit (r div 10) # digit (r mod 10) # a))
      else if us \<ge> 10 then digit (us div 10) # digit (us mod 10) # a
      else digit us # a)"
  by pat_completeness auto
termination by (relation "measure fst") auto

declare format_loop.simps [simp del]

text \<open>For a negative \<open>int64\<close> the bits are negated modulo \<open>2 ^ 64\<close>, which is its absolute value.\<close>

definition formatBits :: "nat \<Rightarrow> bool \<Rightarrow> string" where
  "formatBits u neg =
     (let u = (if neg then (2 ^ 64 - u) mod 2 ^ 64 else u); s = format_loop u []
      in if neg then CHR ''-'' # s else s)"

definition small :: "nat \<Rightarrow> string" where
  "small i = (if i < 10 then [digit i] else [digit (i div 10), digit (i mod 10)])"

definition Itoa :: "int \<Rightarrow> string" where
  "Itoa i =
     (if 0 \<le> i \<and> i < 100 then small (nat i)
      else formatBits (nat (i mod 2 ^ 64)) (i < 0))"

section \<open>Decimal digits\<close>

text \<open>Plain decimal notation, as the reference for both directions.\<close>

fun dec_val :: "string \<Rightarrow> nat \<Rightarrow> nat" where
  "dec_val [] n = n"
| "dec_val (c # s) n = dec_val s (10 * n + (byte c - 0x30))"

definition is_digit :: "char \<Rightarrow> bool" where
  "is_digit c \<longleftrightarrow> 0x30 \<le> byte c \<and> byte c \<le> 0x39"

lemma byte_digit [simp]: "d < 10 \<Longrightarrow> byte (digit d) = 0x30 + d"
  by (simp add: digit_def)

lemma is_digit_digit [simp]: "d < 10 \<Longrightarrow> is_digit (digit d)"
  by (simp add: is_digit_def)

lemma dec_val_append: "dec_val (s @ t) n = dec_val t (dec_val s n)"
  by (induction s arbitrary: n) auto

lemma dec_val_ge: "n \<le> dec_val s n"
proof (induction s arbitrary: n)
  case (Cons c s)
  have "n \<le> 10 * n + (byte c - 0x30)" by simp
  also have "\<dots> \<le> dec_val s (10 * n + (byte c - 0x30))" by (rule Cons)
  finally show ?case by simp
qed simp

lemma dec_val_pos: "0 < n \<Longrightarrow> 10 ^ length s * n \<le> dec_val s n"
proof (induction s arbitrary: n)
  case (Cons c s)
  have "10 ^ length (c # s) * n \<le> 10 ^ length s * (10 * n + (byte c - 0x30))" by (simp add: algebra_simps)
  also have "\<dots> \<le> dec_val s (10 * n + (byte c - 0x30))" using Cons by simp
  finally show ?case by simp
qed simp

text \<open>Printing gives digits, with the right value and no leading zero.\<close>

definition decimal :: "nat \<Rightarrow> string \<Rightarrow> bool" where
  "decimal n s \<longleftrightarrow> list_all is_digit s \<and> s \<noteq> [] \<and> dec_val s 0 = n \<and> (n > 0 \<longrightarrow> byte (hd s) > 0x30)"

lemma decimal_small: "n < 10 \<Longrightarrow> decimal n [digit n]" "10 \<le> n \<Longrightarrow> n < 100 \<Longrightarrow> decimal n [digit (n div 10), digit (n mod 10)]"
  by (auto simp: decimal_def)

lemma decimal_step:
  assumes "decimal (n div 100) s" "100 \<le> n"
  shows "decimal n (s @ [digit (n mod 100 div 10), digit (n mod 100 mod 10)])"
proof -
  have d: "n mod 100 div 10 < 10" by (simp add: less_mult_imp_div_less)
  have "10 * (10 * x + y) + z = 100 * x + (10 * y + z)" for x y z :: nat by simp
  then have "10 * (10 * (n div 100) + n mod 100 div 10) + n mod 100 mod 10 = n" by (simp only: mult_div_mod_eq)
  with assms d show ?thesis by (auto simp: decimal_def dec_val_append)
qed

lemma format_loop_digits: "\<exists>s. format_loop us a = s @ a \<and> decimal us s"
proof (induction us a rule: format_loop.induct)
  case (1 us a)
  show ?case
  proof (cases "us \<ge> 100")
    case True
    from "1.IH" [OF True refl] obtain s where "decimal (us div 100) s"
      "format_loop (us div 100) (digit (us mod 100 div 10) # digit (us mod 100 mod 10) # a) =
         s @ digit (us mod 100 div 10) # digit (us mod 100 mod 10) # a" by metis
    with decimal_step [OF this(1) True] show ?thesis
      by (subst format_loop.simps) (use True in \<open>auto simp only: Let_def if_True append.simps append_assoc intro!: exI\<close>)
  next
    case False
    have "format_loop us a = (if us \<ge> 10 then [digit (us div 10), digit (us mod 10)] else [digit us]) @ a"
      using False by (subst format_loop.simps) simp
    then show ?thesis using False decimal_small [of us] by (cases "us \<ge> 10") auto
  qed
qed

lemma Itoa_decimal:
  assumes "- (2 ^ 63) \<le> i" "i < 2 ^ 63"
  shows "\<exists>s. decimal (nat \<bar>i\<bar>) s \<and> Itoa i = (if i < 0 then CHR ''-'' # s else s)"
proof (cases "0 \<le> i \<and> i < 100")
  case True
  then show ?thesis using decimal_small [of "nat i"] by (auto simp: Itoa_def small_def)
next
  case False
  obtain s where s: "format_loop (nat \<bar>i\<bar>) [] = s" "decimal (nat \<bar>i\<bar>) s" using format_loop_digits [of "nat \<bar>i\<bar>" "[]"] by auto
  have "(2 ^ 64 - nat (i mod 2 ^ 64)) mod 2 ^ 64 = nat \<bar>i\<bar>" if "i < 0"
  proof -
    have "(i + 2 ^ 64) mod 2 ^ 64 = i + 2 ^ 64" using that assms(1) by (intro mod_pos_pos_trivial) auto
    then have "i mod 2 ^ 64 = i + 2 ^ 64" by simp
    then show ?thesis using that assms by (simp add: nat_add_distrib nat_diff_distrib)
  qed
  moreover have "nat (i mod 2 ^ 64) = nat \<bar>i\<bar>" if "0 \<le> i" using that assms(2) by simp
  ultimately show ?thesis using False s by (auto simp: Itoa_def formatBits_def Let_def)
qed

section \<open>Reading decimals\<close>

lemma atoi_loop_digits: "list_all is_digit s \<Longrightarrow> atoi_loop s (int n) = Some (int (dec_val s n))"
proof (induction s arbitrary: n)
  case (Cons c s)
  then have c: "0x30 \<le> byte c" "byte c \<le> 0x39" by (auto simp: is_digit_def)
  then have ch: "(byte c + 256 - 0x30) mod 256 = byte c - 0x30" by (simp add: mod_if)
  have "int n * 10 + int (byte c - 0x30) = int (10 * n + (byte c - 0x30))" by simp
  with Cons c ch show ?case by (simp add: Let_def del: of_nat_diff)
qed simp

lemma parse_digits:
  "list_all is_digit s \<Longrightarrow> dec_val s n < 2 ^ 64 \<Longrightarrow> parse_uint_loop 10 maxUint64 s n = Inr (dec_val s n)"
proof (induction s arbitrary: n)
  case (Cons c s)
  define d where "d = byte c - 0x30"
  have c: "0x30 \<le> byte c" "byte c \<le> 0x39" using Cons.prems(1) by (auto simp: is_digit_def)
  then have d: "d < 10" by (simp add: d_def)
  have lt: "10 * n + d < 2 ^ 64"
    using dec_val_ge [of "10 * n + d" s] Cons.prems(2) by (simp add: d_def)
  then have n: "\<not> maxUint64 div 10 + 1 \<le> n" by simp
  have "(n * 10) mod 2 ^ 64 = 10 * n" "(10 * n + d) mod 2 ^ 64 = 10 * n + d" using lt by simp_all
  then show ?case
    using Cons lt n c d by (simp add: Let_def d_def [symmetric] mult.commute [of n 10])
qed simp

lemma digit_no_sign: "list_all is_digit s \<Longrightarrow> s \<noteq> [] \<Longrightarrow> s ! 0 \<noteq> CHR ''-'' \<and> s ! 0 \<noteq> CHR ''+''"
  by (cases s) (auto simp: is_digit_def)

lemma Atoi_decimal:
  assumes "decimal n s" "n < 2 ^ 63 \<or> (neg \<and> n = 2 ^ 63)"
  shows "Atoi (if neg then CHR ''-'' # s else s) = Inr (if neg then - int n else int n)"
proof -
  have s: "list_all is_digit s" "s \<noteq> []" "dec_val s 0 = n" using assms(1) by (auto simp: decimal_def)
  let ?t = "if neg then CHR ''-'' # s else s"
  have t: "drop 1 (CHR ''-'' # s) = s" by simp
  show ?thesis
  proof (cases "length ?t < 19")
    case True
    have "atoi_loop s 0 = Some (int n)" using atoi_loop_digits [OF s(1), of 0] s(3) by simp
    then show ?thesis using True s(2) digit_no_sign [OF s(1,2)]
      by (cases neg) (auto simp: Atoi_def Let_def Suc_le_eq)
  next
    case False
    have "ParseUint s 10 64 = Inr n"
      using parse_digits [OF s(1), of 0] s(2,3) assms(2) by (auto simp: ParseUint_def)
    then have "ParseInt ?t 10 64 = Inr (if neg then - int n else int n)"
      using s(2) digit_no_sign [OF s(1,2)] assms(2) by (auto simp: ParseInt_def Let_def)
    with False show ?thesis by (auto simp: Atoi_def)
  qed
qed

section \<open>Properties\<close>

text \<open>
  \<open>strconv.Atoi\<close> reads back what \<open>strconv.Itoa\<close> prints, for every \<open>int64\<close> including the
  smallest, through both the short path for up to eighteen characters and the general path
  with its overflow checks; the text never has a leading zero.
\<close>

theorem Atoi_Itoa:
  assumes "- (2 ^ 63) \<le> i" "i < 2 ^ 63"
  shows "Atoi (Itoa i) = Inr i \<and> (i > 0 \<longrightarrow> hd (Itoa i) \<noteq> CHR ''0'')"
proof -
  obtain s where s: "decimal (nat \<bar>i\<bar>) s" "Itoa i = (if i < 0 then CHR ''-'' # s else s)"
    using Itoa_decimal [OF assms] by blast
  have "nat \<bar>i\<bar> < 2 ^ 63 \<or> (i < 0 \<and> nat \<bar>i\<bar> = 2 ^ 63)" using assms by (auto simp: nat_less_iff)
  from Atoi_decimal [OF s(1) this] s show ?thesis by (auto simp: decimal_def)
qed

theorem Atoi_Itoa_witness: "Atoi (Itoa (- 9223372036854775808)) = Inr (- 9223372036854775808)"
  using Atoi_Itoa [of "- (2 ^ 63)"] by simp

end
