(* ===== verification/Spdk.thy ===== *)
theory Spdk
  imports Env GoStrconv
begin

text \<open>
  Model of \<open>src/internal/spdk/spdk.go\<close>: saving the configuration of the running storage target
  and stopping it, and starting it again. The package variable \<open>spdkOrigCmd\<close> is passed and
  returned. Starting a process in the background is the argument \<open>st\<close>, which gives the process id
  or the reason why \<open>Start\<close> fails; what the started process does afterwards is not modelled.
\<close>

section \<open>Definitions\<close>

definition spdkSock :: string where "spdkSock = ''/var/tmp/spdk.sock''"
definition spdkConfigPath :: string where "spdkConfigPath = ''/tmp/spdk_full_config.json''"
definition spdkBinPath :: string where "spdkBinPath = ''build/bin/spdk_tgt''"

definition SPDKSock :: string where "SPDKSock = spdkSock"

type_synonym starter = "string list \<Rightarrow> fs \<Rightarrow> error + int"

definition cmd_Start :: "starter \<Rightarrow> string list \<Rightarrow> world \<Rightarrow> int result \<times> world" where
  "cmd_Start st argv w = (st argv (w_fs w), w\<lparr>w_cmds := w_cmds w @ [argv]\<rparr>)"

text \<open>The loop of \<open>stripConfigArg\<close> over \<open>parts[i:]\<close>.\<close>

fun strip_loop :: "string list \<Rightarrow> string list" where
  "strip_loop [] = []"
| "strip_loop (p # ps) =
     (if p = ''-c'' \<and> ps \<noteq> [] then strip_loop (tl ps) else p # strip_loop ps)"

definition stripConfigArg :: "string list \<Rightarrow> string" where
  "stripConfigArg parts =
     (let newParts = strip_loop (drop 1 parts) in if newParts = [] then [] else join_with '' '' newParts)"

definition restart_command :: "string \<Rightarrow> string \<Rightarrow> string" where
  "restart_command mimoRoot spdkOrigCmd =
     (let rest = stripConfigArg (Fields spdkOrigCmd);
          newCmd = mimoRoot @ ''/'' @ spdkBinPath @ '' -c '' @ Clean spdkConfigPath
      in if rest \<noteq> [] then newCmd @ '' '' @ rest else newCmd)"

definition RestartSpdkWithSavedConfig :: "starter \<Rightarrow> string \<Rightarrow> world \<Rightarrow> error option outcome \<times> world" where
  "RestartSpdkWithSavedConfig st spdkOrigCmd w =
     (if spdkOrigCmd = [] then
        (Return None, println ''INFO: No original MIMO command captured; restart skipped.'' w)
      else
        (case EnsureMimoRoot w of
           (Exit c, w1) \<Rightarrow> (Exit c, w1)
         | (Crash, w1) \<Rightarrow> (Crash, w1)
         | (Return mimoRoot, w1) \<Rightarrow>
             (let w2 = println ''INFO: Restarting MIMO service...'' w1 in
              case cmd_Start st [''bash'', ''-c'', restart_command mimoRoot spdkOrigCmd] w2 of
                (Inl e, w3) \<Rightarrow> (Return (Some (Errorf ''failed to restart MIMO: %w'' [] (Some e))), w3)
              | (Inr pid, w3) \<Rightarrow> (Return None, printf ''INFO: MIMO restart initiated (pid=%d)'' [Itoa pid] None w3))))"

text \<open>
  \<open>SaveSpdkConfigAndGetCommand\<close>, in three parts: find the process, remember its command line,
  save its configuration and kill it.
\<close>

definition find_pid :: "commands \<Rightarrow> world \<Rightarrow> int result outcome \<times> world" where
  "find_pid ex w =
     (case cmd_Output ex [''lsof'', ''-t'', spdkSock] w of
        (Inl e, w1) \<Rightarrow> (Return (Inl (Errorf ''failed to check MIMO socket: %w'' [] (Some e))), w1)
      | (Inr out, w1) \<Rightarrow>
          (let pidStr = TrimSpace out in
           if pidStr = [] then (Return (Inl (Errorf ''no MIMO process found on socket'' [] None)), w1)
           else
             (case Fields pidStr of
                [] \<Rightarrow> (Crash, w1)
              | p # _ \<Rightarrow>
                  (case Atoi p of
                     Inl e \<Rightarrow> (Return (Inl (Errorf ''failed to parse MIMO pid: %w'' [] (Some e))), w1)
                   | Inr pid \<Rightarrow>
                       (Return (Inr pid), printf ''INFO: MIMO process detected (pid=%d)'' [Itoa pid] None w1)))))"

definition save_and_kill :: "commands \<Rightarrow> int \<Rightarrow> string \<Rightarrow> world \<Rightarrow> error option \<times> world" where
  "save_and_kill ex pid mimoRoot w =
     (let rpcPath = Clean (Join [mimoRoot, ''scripts'', ''rpc.py'']) in
      case Stat rpcPath w of
        (Inl e, w1) \<Rightarrow> (Some (Errorf ''required helper not found: %w'' [] (Some e)), w1)
      | (Inr _, w1) \<Rightarrow>
          (let cmdLine = rpcPath @ '' save_config -i 2 > '' @ Clean spdkConfigPath in
           case cmd_Run ex [''bash'', ''-c'', cmdLine] w1 of
             (Some e, w2) \<Rightarrow> (Some (Errorf ''failed to save MIMO configuration: %w'' [] (Some e)), w2)
           | (None, w2) \<Rightarrow>
               (let w3 = println ''INFO: stopping MIMO process'' (println ''INFO: configuration saved'' w2) in
                case cmd_Run ex [''kill'', ''-9'', Itoa pid] w3 of
                  (Some e, w4) \<Rightarrow> (Some (Errorf ''failed to stop MIMO process: %w'' [] (Some e)), w4)
                | (None, w4) \<Rightarrow> (None, println ''INFO: MIMO process stopped'' w4))))"

definition SaveSpdkConfigAndGetCommand :: "commands \<Rightarrow> string \<Rightarrow> world \<Rightarrow> error option outcome \<times> string \<times> world" where
  "SaveSpdkConfigAndGetCommand ex spdkOrigCmd w =
     (case find_pid ex w of
        (Exit c, w1) \<Rightarrow> (Exit c, spdkOrigCmd, w1)
      | (Crash, w1) \<Rightarrow> (Crash, spdkOrigCmd, w1)
      | (Return (Inl e), w1) \<Rightarrow> (Return (Some e), spdkOrigCmd, w1)
      | (Return (Inr pid), w1) \<Rightarrow>
          (case cmd_Output ex [''ps'', ''-p'', Itoa pid, ''-o'', ''args=''] w1 of
             (Inl e, w2) \<Rightarrow>
               (Return (Some (Errorf ''failed to obtain MIMO process info: %w'' [] (Some e))), spdkOrigCmd, w2)
           | (Inr psOut, w2) \<Rightarrow>
               (let orig = TrimSpace psOut in
                case EnsureMimoRoot w2 of
                  (Exit c, w3) \<Rightarrow> (Exit c, orig, w3)
                | (Crash, w3) \<Rightarrow> (Crash, orig, w3)
                | (Return mimoRoot, w3) \<Rightarrow>
                    (case save_and_kill ex pid mimoRoot w3 of (e, w4) \<Rightarrow> (Return e, orig, w4)))))"

section \<open>The command line of the restarted process\<close>

text \<open>A command line as options \<open>-c\<close> with their file, and other words.\<close>

datatype arg = Config_arg string | Word_arg string

fun arg_words :: "arg \<Rightarrow> string list" where
  "arg_words (Config_arg f) = [''-c'', f]"
| "arg_words (Word_arg a) = [a]"

fun other_words :: "arg list \<Rightarrow> string list" where
  "other_words [] = []"
| "other_words (Config_arg f # as) = other_words as"
| "other_words (Word_arg a # as) = a # other_words as"

lemma strip_loop_args: "Word_arg ''-c'' \<notin> set as \<Longrightarrow> strip_loop (concat (map arg_words as)) = other_words as"
  by (induction as rule: other_words.induct) auto

lemma other_words_in: "a \<in> set (other_words as) \<Longrightarrow> a \<in> set (concat (map arg_words as))"
  by (induction as rule: other_words.induct) auto

lemma join_Cons: "es \<noteq> [] \<Longrightarrow> join_with sep (e # es) = e @ sep @ join_with sep es"
  by (cases es) auto

lemma join_fields_ne: "list_all is_field es \<Longrightarrow> es \<noteq> [] \<Longrightarrow> join_with '' '' es \<noteq> []"
  by (cases es; cases "tl es = []") (auto simp: is_field_def join_Cons)

lemma config_word: "is_field (Clean spdkConfigPath)" "is_field ''-c''"
  by (unfold is_field_def) code_simp+

lemma bin_word: "is_field root \<Longrightarrow> is_field (root @ ''/'' @ spdkBinPath)"
proof -
  have "is_field (''/'' @ spdkBinPath)" unfolding is_field_def by code_simp
  then show "is_field root \<Longrightarrow> ?thesis" by (auto simp: is_field_def is_ascii_def)
qed

text \<open>
  C28. Restarting with the saved configuration: when the captured command line is a program
  followed by options \<open>-c file\<close> and other words, the new command line is the installed program
  with \<open>-c\<close> and the saved configuration, followed by the other words in their order; the old
  configuration options are gone.
\<close>

theorem restart_command_words:
  assumes "is_ascii orig" "is_field root" "Fields orig = prog # concat (map arg_words as)" "Word_arg ''-c'' \<notin> set as"
  shows "Fields (restart_command root orig) = [root @ ''/'' @ spdkBinPath, ''-c'', Clean spdkConfigPath] @ other_words as \<and>
    ''-c'' \<notin> set (other_words as)"
proof -
  let ?pre = "[root @ ''/'' @ spdkBinPath, ''-c'', Clean spdkConfigPath]"
  have f: "list_all is_field (other_words as)"
    using Fields_ascii_parts [OF assms(1)] other_words_in assms(3) by (fastforce simp: list_all_iff)
  have "restart_command root orig = join_with '' '' (?pre @ other_words as)"
    using join_fields_ne [OF f] strip_loop_args [OF assms(4)] assms(3)
    by (cases "other_words as = []") (simp_all add: restart_command_def stripConfigArg_def Let_def join_Cons)
  moreover have "list_all is_field (?pre @ other_words as)" using f config_word bin_word [OF assms(2)] by simp
  moreover have "''-c'' \<notin> set (other_words as)" using assms(4) by (induction as rule: other_words.induct) auto
  ultimately show ?thesis using Fields_join by metis
qed

theorem restart_command_words_witness:
  "Fields (restart_command ''/usr/local/mimo'' ''/opt/spdk_tgt -m 0x3 -c /etc/old.json -S'') =
    [''/usr/local/mimo/build/bin/spdk_tgt'', ''-c'', ''/tmp/spdk_full_config.json'', ''-m'', ''0x3'', ''-S'']"
proof -
  let ?as = "[Word_arg ''-m'', Word_arg ''0x3'', Config_arg ''/etc/old.json'', Word_arg ''-S'']"
  have "is_ascii ''/opt/spdk_tgt -m 0x3 -c /etc/old.json -S''" "is_field ''/usr/local/mimo''"
    "Fields ''/opt/spdk_tgt -m 0x3 -c /etc/old.json -S'' = ''/opt/spdk_tgt'' # concat (map arg_words ?as)"
    "Clean spdkConfigPath = ''/tmp/spdk_full_config.json''"
    unfolding is_field_def by code_simp+
  with restart_command_words [of "''/opt/spdk_tgt -m 0x3 -c /etc/old.json -S''" "''/usr/local/mimo''" "''/opt/spdk_tgt''" ?as]
  show ?thesis by (simp add: spdkBinPath_def)
qed

end
