(* ===== verification/Services.thy ===== *)
theory Services
  imports Exec Fileops
begin

text \<open>
  Models of \<open>src/internal/systemd/systemd.go\<close> and \<open>src/internal/system/system.go\<close>: enabling the
  services that were installed, and switching cloud-init off. The set of service names is a Go
  map; the order in which a loop visits it is not fixed, and is the argument \<open>ord\<close>.
\<close>

section \<open>Definitions\<close>

text \<open>The first loop of \<open>EnableServices\<close>: the names of the installed service files.\<close>

fun service_names :: "(rune \<Rightarrow> rune) \<Rightarrow> FileMapping list \<Rightarrow> string list \<Rightarrow> world \<Rightarrow> string list \<times> world" where
  "service_names uni_lower [] services w = (services, w)"
| "service_names uni_lower (m # ms) services w =
     (let dst = Clean (Dst m) in
      if HasSuffix (ToLower uni_lower dst) ''.service'' then
        (case Stat dst w of
           (Inr _, w1) \<Rightarrow> service_names uni_lower ms (List.insert (Base dst) services) w1
         | (Inl _, w1) \<Rightarrow> service_names uni_lower ms services w1)
      else service_names uni_lower ms services w)"

fun enable_loop :: "commands \<Rightarrow> string list \<Rightarrow> world \<Rightarrow> world" where
  "enable_loop ex [] w = w"
| "enable_loop ex (s # ss) w =
     (let w1 = (case cmd_Run ex [''systemctl'', ''enable'', s] w of
                  (Some e, w1) \<Rightarrow> printf ''WARN: enable %s failed'' [s] None w1
                | (None, w1) \<Rightarrow> w1);
          w2 = (case cmd_Run ex [''systemctl'', ''start'', ''--no-block'', s] w1 of
                  (Some e, w2) \<Rightarrow> printf ''WARN: start (non-blocking) %s failed'' [s] None w2
                | (None, w2) \<Rightarrow> w2)
      in enable_loop ex ss w2)"

definition EnableServices :: "commands \<Rightarrow> (rune \<Rightarrow> rune) \<Rightarrow> (string list \<Rightarrow> string list) \<Rightarrow> Config option \<Rightarrow> world
    \<Rightarrow> error option \<times> world" where
  "EnableServices ex uni_lower ord cfg w =
     (case cfg of
        None \<Rightarrow> (None, w)
      | Some c \<Rightarrow>
          (case service_names uni_lower (FileMappings c) [] w of
             (services, w1) \<Rightarrow>
               if services = [] then (None, w1)
               else
                 (case cmd_Run ex [''systemctl'', ''daemon-reload''] w1 of
                    (Some e, w2) \<Rightarrow> (Some (Errorf ''daemon-reload failed: %w'' [] (Some e)), w2)
                  | (None, w2) \<Rightarrow> (None, enable_loop ex (ord services) w2))))"

definition cloud_services :: "string list" where
  "cloud_services = [''cloud-init'', ''cloud-final'', ''cloud-config'', ''cloud-init-local'']"

fun stop_loop :: "commands \<Rightarrow> string list \<Rightarrow> world \<Rightarrow> world" where
  "stop_loop ex [] w = w"
| "stop_loop ex (s # ss) w =
     stop_loop ex ss
       (snd (cmd_Run ex [''systemctl'', ''disable'', s] (snd (cmd_Run ex [''systemctl'', ''stop'', s] w))))"

text \<open>The result of \<open>WriteString\<close> is ignored.\<close>

definition DisableCloudInit :: "commands \<Rightarrow> world \<Rightarrow> error option \<times> world" where
  "DisableCloudInit ex w =
     (let w1 = stop_loop ex cloud_services w; dir = ''/etc/cloud'' in
      case MkdirAll dir 0x1ED w1 of
        (Some e, w2) \<Rightarrow> (Some (Errorf ''create %s: %w'' [dir] (Some e)), w2)
      | (None, w2) \<Rightarrow>
          (let marker = Join [dir, ''cloud-init.disabled''] in
           case Create marker w2 of
             (Inl e, w3) \<Rightarrow> (Some (Errorf ''create marker %s: %w'' [marker] (Some e)), w3)
           | (Inr f, w3) \<Rightarrow> (None, snd (sys_write f (''disabled'' @ [nl]) w3))))"

end
