(* ===== verification/Sha256.thy ===== *)
theory Sha256
  imports Prelude
begin

unbundle bit_operations_syntax

text \<open>
  SHA-256 as package \<open>crypto/sha256\<close> computes it
  (\<open>crypto/internal/fips140/sha256/sha256.go\<close> and \<open>sha256block.go\<close>): a digest that buffers
  partial blocks, the block function in its generic Go form, and the padding. Words are 32 or 64
  bits wide and wrap. Shown: writing in pieces is writing at once, and the checksum is the
  iterated compression of the padded message, so that the final buffer is always empty.
\<close>

section \<open>Words\<close>

type_synonym w32 = "32 word"
type_synonym hstate = "w32 \<times> w32 \<times> w32 \<times> w32 \<times> w32 \<times> w32 \<times> w32 \<times> w32"

definition byte_word :: "char \<Rightarrow> 'a::len word" where
  "byte_word c = word_of_int (of_char c)"

definition word_byte :: "'a::len word \<Rightarrow> char" where
  "word_byte w = char_of (uint w)"

text \<open>\<open>bits.RotateLeft32(x, -k)\<close> for \<open>0 < k < 32\<close>.\<close>

definition rotr :: "nat \<Rightarrow> w32 \<Rightarrow> w32" where
  "rotr k x = push_bit (32 - k) x OR drop_bit k x"

definition BEUint32 :: "bytes \<Rightarrow> w32" where
  "BEUint32 p = push_bit 24 (byte_word (p ! 0)) OR push_bit 16 (byte_word (p ! 1)) OR
     push_bit 8 (byte_word (p ! 2)) OR byte_word (p ! 3)"

definition BEPutUint32 :: "w32 \<Rightarrow> bytes" where
  "BEPutUint32 v = map word_byte [drop_bit 24 v, drop_bit 16 v, drop_bit 8 v, v]"

definition BEPutUint64 :: "64 word \<Rightarrow> bytes" where
  "BEPutUint64 v = map (\<lambda>k. word_byte (drop_bit k v)) [56, 48, 40, 32, 24, 16, 8, 0]"

section \<open>The block function\<close>

definition K256 :: "w32 list" where
  "K256 =
     0x428a2f98 # 0x71374491 # 0xb5c0fbcf # 0xe9b5dba5 # 0x3956c25b # 0x59f111f1 # 0x923f82a4 # 0xab1c5ed5 #
     0xd807aa98 # 0x12835b01 # 0x243185be # 0x550c7dc3 # 0x72be5d74 # 0x80deb1fe # 0x9bdc06a7 # 0xc19bf174 #
     0xe49b69c1 # 0xefbe4786 # 0x0fc19dc6 # 0x240ca1cc # 0x2de92c6f # 0x4a7484aa # 0x5cb0a9dc # 0x76f988da #
     0x983e5152 # 0xa831c66d # 0xb00327c8 # 0xbf597fc7 # 0xc6e00bf3 # 0xd5a79147 # 0x06ca6351 # 0x14292967 #
     0x27b70a85 # 0x2e1b2138 # 0x4d2c6dfc # 0x53380d13 # 0x650a7354 # 0x766a0abb # 0x81c2c92e # 0x92722c85 #
     0xa2bfe8a1 # 0xa81a664b # 0xc24b8b70 # 0xc76c51a3 # 0xd192e819 # 0xd6990624 # 0xf40e3585 # 0x106aa070 #
     0x19a4c116 # 0x1e376c08 # 0x2748774c # 0x34b0bcb5 # 0x391c0cb3 # 0x4ed8aa4a # 0x5b9cca4f # 0x682e6ff3 #
     0x748f82ee # 0x78a5636f # 0x84c87814 # 0x8cc70208 # 0x90befffa # 0xa4506ceb # 0xbef9a3f7 # 0xc67178f2 # []"

text \<open>The message schedule: sixteen words from the block, then 48 computed ones.\<close>

definition schedule_word :: "w32 list \<Rightarrow> nat \<Rightarrow> w32" where
  "schedule_word w i =
     (let v1 = w ! (i - 2); t1 = rotr 17 v1 XOR rotr 19 v1 XOR drop_bit 10 v1;
          v2 = w ! (i - 15); t2 = rotr 7 v2 XOR rotr 18 v2 XOR drop_bit 3 v2
      in t1 + w ! (i - 7) + t2 + w ! (i - 16))"

definition schedule :: "bytes \<Rightarrow> w32 list" where
  "schedule p =
     foldl (\<lambda>w i. w @ [schedule_word w i]) (map (\<lambda>i. BEUint32 (drop (4 * i) p)) [0..<16]) [16..<64]"

definition sha_round :: "w32 list \<Rightarrow> hstate \<Rightarrow> nat \<Rightarrow> hstate" where
  "sha_round w st i =
     (case st of (a, b, c, d, e, f, g, h) \<Rightarrow>
        let t1 = h + (rotr 6 e XOR rotr 11 e XOR rotr 25 e) + ((e AND f) XOR (NOT e AND g)) + K256 ! i + w ! i;
            t2 = (rotr 2 a XOR rotr 13 a XOR rotr 22 a) + ((a AND b) XOR (a AND c) XOR (b AND c))
        in (t1 + t2, a, b, c, d + t1, e, f, g))"

definition compress :: "hstate \<Rightarrow> bytes \<Rightarrow> hstate" where
  "compress st p =
     (case (st, foldl (sha_round (schedule p)) st [0..<64]) of
        ((h0, h1, h2, h3, h4, h5, h6, h7), (a, b, c, d, e, f, g, h)) \<Rightarrow>
          (h0 + a, h1 + b, h2 + c, h3 + d, h4 + e, h5 + f, h6 + g, h7 + h))"

function blockGeneric :: "hstate \<Rightarrow> bytes \<Rightarrow> hstate" where
  "blockGeneric st p = (if length p \<ge> 64 then blockGeneric (compress st (take 64 p)) (drop 64 p) else st)"
  by pat_completeness auto
termination by (relation "measure (\<lambda>(st, p). length p)") auto

declare blockGeneric.simps [simp del]

section \<open>The digest\<close>

record Digest =
  dh :: hstate
  dx :: bytes
  nx :: nat
  dlen :: "64 word"

definition init256 :: hstate where
  "init256 = (0x6A09E667, 0xBB67AE85, 0x3C6EF372, 0xA54FF53A, 0x510E527F, 0x9B05688C, 0x1F83D9AB, 0x5BE0CD19)"

definition digest_New :: Digest where
  "digest_New = \<lparr>dh = init256, dx = replicate 64 (CHR 0x00), nx = 0, dlen = 0\<rparr>"

definition maxAsmSize :: nat where "maxAsmSize = 64 * 1024"

text \<open>The loop of \<open>Write\<close> over whole blocks, in portions of at most \<open>maxAsmSize\<close>.\<close>

function write_blocks :: "hstate \<Rightarrow> bytes \<Rightarrow> nat \<Rightarrow> hstate \<times> bytes" where
  "write_blocks st p n =
     (if n > maxAsmSize then write_blocks (blockGeneric st (take maxAsmSize p)) (drop maxAsmSize p) (n - maxAsmSize)
      else (blockGeneric st (take n p), drop n p))"
  by pat_completeness auto
termination by (relation "measure (\<lambda>(st, p, n). n)") (auto simp: maxAsmSize_def)

declare write_blocks.simps [simp del]

text \<open>The part of \<open>Write\<close> that fills a started block: the digest and what is left of the input.\<close>

definition write_buffered :: "Digest \<Rightarrow> bytes \<Rightarrow> Digest \<times> bytes" where
  "write_buffered d p =
     (if nx d > 0 then
        let n = min (64 - nx d) (length p);
            x = take (nx d) (dx d) @ take n p @ drop (nx d + n) (dx d)
        in (if nx d + n = 64 then d\<lparr>dx := x, dh := blockGeneric (dh d) x, nx := 0\<rparr>
            else d\<lparr>dx := x, nx := nx d + n\<rparr>,
            drop n p)
      else (d, p))"

definition Write :: "Digest \<Rightarrow> bytes \<Rightarrow> Digest" where
  "Write d p =
     (let d1 = d\<lparr>dlen := dlen d + of_nat (length p)\<rparr>;
          (d2, p2) = write_buffered d1 p;
          (d3, p3) =
            (if length p2 \<ge> 64 then
               let (h, rest) = write_blocks (dh d2) p2 (length p2 - length p2 mod 64) in (d2\<lparr>dh := h\<rparr>, rest)
             else (d2, p2))
      in if p3 \<noteq> [] then d3\<lparr>dx := p3 @ drop (length p3) (dx d3), nx := length p3\<rparr> else d3)"

text \<open>The padding, and the checksum; \<open>None\<close> is the panic for a non-empty buffer.\<close>

definition padlen :: "64 word \<Rightarrow> bytes" where
  "padlen len =
     (let t = (if unat (len mod 64) < 56 then 56 - unat (len mod 64) else 64 + 56 - unat (len mod 64))
      in CHR 0x80 # replicate (t - 1) (CHR 0x00) @ BEPutUint64 (push_bit 3 len))"

definition checkSum :: "Digest \<Rightarrow> bytes option" where
  "checkSum d =
     (let d' = Write d (padlen (dlen d)) in
      if nx d' \<noteq> 0 then None
      else (case dh d' of (h0, h1, h2, h3, h4, h5, h6, h7) \<Rightarrow>
              Some (concat (map BEPutUint32 [h0, h1, h2, h3, h4, h5, h6, h7]))))"

definition Sum256 :: "bytes \<Rightarrow> bytes option" where
  "Sum256 data = checkSum (Write digest_New data)"

section \<open>What a digest stands for\<close>

lemma block_short: "length p < 64 \<Longrightarrow> blockGeneric st p = st"
  by (subst blockGeneric.simps) simp

lemma block_long: "64 \<le> length p \<Longrightarrow> blockGeneric st p = blockGeneric (compress st (take 64 p)) (drop 64 p)"
  by (subst blockGeneric.simps) simp

lemma block_append: "length p mod 64 = 0 \<Longrightarrow> blockGeneric st (p @ q) = blockGeneric (blockGeneric st p) q"
proof (induction st p rule: blockGeneric.induct)
  case (1 st p)
  show ?case
  proof (cases "length p \<ge> 64")
    case True
    then have "length (drop 64 p) mod 64 = 0" using 1(2) by (simp add: le_mod_geq)
    with 1(1) True have "blockGeneric (compress st (take 64 p)) (drop 64 p @ q) =
        blockGeneric (blockGeneric (compress st (take 64 p)) (drop 64 p)) q" by simp
    with True show ?thesis using block_long [of "p @ q" st] block_long [of p st] by simp
  next
    case False
    with 1(2) have "p = []" by auto
    then show ?thesis by (simp add: block_short)
  qed
qed

lemma write_blocks_eq:
  "n mod 64 = 0 \<Longrightarrow> n \<le> length p \<Longrightarrow> write_blocks st p n = (blockGeneric st (take n p), drop n p)"
proof (induction st p n rule: write_blocks.induct)
  case (1 st p n)
  show ?case
  proof (cases "n > maxAsmSize")
    case True
    have m: "maxAsmSize mod 64 = 0" by (simp add: maxAsmSize_def)
    have le: "maxAsmSize \<le> length p" using 1 True by simp
    have "(n - maxAsmSize) mod 64 = 0" using 1(2) True m by (metis dvd_diff_nat mod_0_imp_dvd dvd_imp_mod_0)
    with 1 True have "write_blocks st p n =
        (blockGeneric (blockGeneric st (take maxAsmSize p)) (take (n - maxAsmSize) (drop maxAsmSize p)), drop n p)"
      by (subst write_blocks.simps) simp
    also have "blockGeneric (blockGeneric st (take maxAsmSize p)) (take (n - maxAsmSize) (drop maxAsmSize p)) =
        blockGeneric st (take maxAsmSize p @ take (n - maxAsmSize) (drop maxAsmSize p))"
      using m le by (subst block_append) (simp_all add: min_def)
    also have "take maxAsmSize p @ take (n - maxAsmSize) (drop maxAsmSize p) = take n p"
      using True by (simp flip: take_add)
    finally show ?thesis .
  qed (subst write_blocks.simps, simp)
qed

text \<open>
  A digest stands for the message \<open>m\<close> written so far: whole blocks \<open>b\<close> have gone through the block
  function, the rest is in the buffer.
\<close>

definition buffered :: "Digest \<Rightarrow> bytes \<Rightarrow> bool" where
  "buffered d m \<longleftrightarrow> (\<exists>b r. m = b @ r \<and> length b mod 64 = 0 \<and> length r < 64 \<and>
     dh d = blockGeneric init256 b \<and> nx d = length r \<and> take (length r) (dx d) = r \<and> length (dx d) = 64)"

definition digests :: "Digest \<Rightarrow> bytes \<Rightarrow> bool" where
  "digests d m \<longleftrightarrow> buffered d m \<and> dlen d = of_nat (length m)"

lemma buffered_New: "buffered digest_New []"
  by (simp add: buffered_def digest_New_def block_short)

lemma buffered_len [simp]: "buffered (d\<lparr>dlen := n\<rparr>) m = buffered d m"
  by (simp add: buffered_def)

lemma write_buffered_ok:
  assumes "buffered d m" "write_buffered d p = (d2, p2)"
  shows "\<exists>k \<le> length p. p2 = drop k p \<and> buffered d2 (m @ take k p) \<and> (p2 \<noteq> [] \<longrightarrow> nx d2 = 0) \<and> dlen d2 = dlen d"
proof -
  obtain b r where br: "m = b @ r" "length b mod 64 = 0" "length r < 64" "dh d = blockGeneric init256 b"
    "nx d = length r" "take (length r) (dx d) = r" "length (dx d) = 64" using assms(1) by (auto simp: buffered_def)
  define n where "n = min (64 - length r) (length p)"
  define x where "x = r @ take n p @ drop (length r + n) (dx d)"
  have n: "n \<le> length p" "length r + n \<le> 64" using br(3) by (auto simp: n_def)
  have x: "length x = 64" "take (length r + n) x = r @ take n p" using n br(7) by (auto simp: x_def)
  consider "r = []" | "r \<noteq> []" "length r + n = 64" | "r \<noteq> []" "length r + n < 64" using n(2) by linarith
  then show ?thesis
  proof cases
    case 1
    then have "d2 = d" "p2 = p" using assms(2) br(5) by (auto simp: write_buffered_def)
    with assms(1) br(5) 1 show ?thesis by (intro exI [of _ 0]) simp
  next
    case 2
    then have "r @ take n p = x" using x by simp
    then have m': "m @ take n p = (b @ x) @ []" using br(1) by simp
    have d2: "d2 = d\<lparr>dx := x, dh := blockGeneric (dh d) x, nx := 0\<rparr>" "p2 = drop n p"
      using assms(2) 2 br(5,6) by (auto simp: write_buffered_def Let_def n_def [symmetric] x_def)
    have "buffered d2 (m @ take n p)" unfolding buffered_def
      using m' br(2,4) x d2 by (intro exI [of _ "b @ x"] exI [of _ "[]"]) (simp add: block_append mod_simps)
    with n d2 show ?thesis by auto
  next
    case 3
    then have np: "n = length p" using n_def by linarith
    have d2: "d2 = d\<lparr>dx := x, nx := length r + n\<rparr>" "p2 = drop n p"
      using assms(2) 3 br(5,6) by (auto simp: write_buffered_def Let_def n_def [symmetric] x_def)
    have "buffered d2 (m @ take n p)" unfolding buffered_def
      using br 3 x d2 np by (intro exI [of _ b] exI [of _ "r @ take n p"]) simp
    with n np d2 show ?thesis by auto
  qed
qed

lemma buffered_empty: "buffered d m \<Longrightarrow> nx d = 0 \<Longrightarrow> length m mod 64 = 0 \<and> dh d = blockGeneric init256 m \<and> length (dx d) = 64"
  by (auto simp: buffered_def)

lemma buffered_whole:
  assumes "buffered d m" "length m mod 64 = 0"
  shows "nx d = 0 \<and> dh d = blockGeneric init256 m"
proof -
  obtain b r where br: "m = b @ r" "length b mod 64 = 0" "length r < 64" "dh d = blockGeneric init256 b" "nx d = length r"
    using assms(1) by (auto simp: buffered_def)
  have "length r mod 64 = 0" using mod_add_left_eq [of "length b" 64 "length r"] assms(2) br(1,2) by simp
  with br show ?thesis by simp
qed

lemma Write_digests:
  assumes "digests d m"
  shows "digests (Write d p) (m @ p)"
proof -
  let ?d1 = "d\<lparr>dlen := dlen d + of_nat (length p)\<rparr>"
  obtain d2 p2 where w: "write_buffered ?d1 p = (d2, p2)" by fastforce
  obtain k where k: "k \<le> length p" "p2 = drop k p" "buffered d2 (m @ take k p)" "p2 \<noteq> [] \<longrightarrow> nx d2 = 0"
    "dlen d2 = dlen d + of_nat (length p)"
    using write_buffered_ok [OF _ w, of m] assms by (auto simp: digests_def)
  have len: "dlen d2 = of_nat (length (m @ p))" using k(5) assms by (simp add: digests_def)
  show ?thesis
  proof (cases "p2 = []")
    case True
    then have "Write d p = d2" using w by (simp add: Write_def Let_def)
    with True k len show ?thesis by (simp add: digests_def)
  next
    case False
    note e = buffered_empty [OF k(3)]
    define t where "t = (if length p2 \<ge> 64 then length p2 - length p2 mod 64 else 0)"
    define q where "q = drop t p2"
    define b where "b = (m @ take k p) @ take t p2"
    have t: "t mod 64 = 0" "t \<le> length p2" "length q < 64"
      by (auto simp: t_def q_def minus_mod_eq_mult_div)
    have wr: "Write d p = (let h = blockGeneric (dh d2) (take t p2) in
        if q \<noteq> [] then d2\<lparr>dh := h, dx := q @ drop (length q) (dx d2), nx := length q\<rparr> else d2\<lparr>dh := h\<rparr>)"
      using w write_blocks_eq [OF t(1,2), of "dh d2"] by (auto simp: Write_def Let_def t_def q_def block_short)
    have "m @ p = (m @ take k p) @ p2" using k(2) by simp
    also have "\<dots> = b @ q" by (simp add: b_def q_def)
    finally have mp: "m @ p = b @ q" .
    have b: "length b mod 64 = 0" "blockGeneric (dh d2) (take t p2) = blockGeneric init256 b"
      using e False k(4) t(1,2) block_append [of "m @ take k p" init256 "take t p2"] dvd_add [of 64 "length (m @ take k p)" t]
      unfolding b_def by (auto simp: ac_simps)
    have "buffered (Write d p) (m @ p)" unfolding buffered_def
      using b mp t(3) e False k(4) wr by (intro exI [of _ b] exI [of _ q]) (auto simp: Let_def)
    with len wr show ?thesis by (simp add: digests_def Let_def)
  qed
qed

section \<open>The checksum\<close>

text \<open>
  The reference: the message padded with a one bit, zero bits and its length in bits to whole
  blocks, and the block function folded over the blocks.
\<close>

definition pad :: "bytes \<Rightarrow> bytes" where
  "pad m = m @ CHR 0x80 # replicate ((119 - length m mod 64) mod 64) (CHR 0x00) @ BEPutUint64 (of_nat (8 * length m))"

fun fold_blocks :: "nat \<Rightarrow> bytes \<Rightarrow> hstate \<Rightarrow> hstate" where
  "fold_blocks 0 p st = st"
| "fold_blocks (Suc n) p st = fold_blocks n (drop 64 p) (compress st (take 64 p))"

definition bytes_of :: "hstate \<Rightarrow> bytes" where
  "bytes_of st = (case st of (h0, h1, h2, h3, h4, h5, h6, h7) \<Rightarrow>
     concat (map BEPutUint32 [h0, h1, h2, h3, h4, h5, h6, h7]))"

lemma block_fold: "length p = 64 * n \<Longrightarrow> blockGeneric st p = fold_blocks n p st"
proof (induction n arbitrary: p st)
  case (Suc n)
  then show ?case using block_long [of p st] by simp
qed (simp add: block_short)

lemma length_BE [simp]: "length (BEPutUint32 v) = 4" "length (BEPutUint64 x) = 8"
  by (simp_all add: BEPutUint32_def BEPutUint64_def)

lemma length_bytes_of: "length (bytes_of st) = 32"
  by (simp add: bytes_of_def split: prod.split)

lemma len_mod: "unat ((of_nat n :: 64 word) mod 64) = n mod 64"
proof -
  have "unat ((of_nat n :: 64 word) mod 64) = (n mod 2 ^ 64) mod 64" by (simp add: unat_mod unat_of_nat)
  also have "\<dots> = n mod 64" by (rule mod_mod_cancel) simp
  finally show ?thesis .
qed

lemma pad_zeros:
  "r < 56 \<Longrightarrow> (119 - r) mod 64 = 55 - r" "56 \<le> r \<Longrightarrow> r < 64 \<Longrightarrow> (119 - r) mod 64 = 119 - r" for r :: nat
proof -
  assume "r < 56"
  then have "119 - r = (55 - r) + 64" "55 - r < 64" by auto
  then show "(119 - r) mod 64 = 55 - r" by (metis mod_add_self2 mod_less)
qed simp

lemma padlen_pad: "m @ padlen (of_nat (length m)) = pad m"
proof -
  have l: "push_bit 3 (of_nat (length m)) = (of_nat (8 * length m) :: 64 word)"
    by (simp add: push_bit_eq_mult mult.commute)
  have r: "length m mod 64 < 64" by simp
  show ?thesis
    unfolding padlen_def pad_def len_mod Let_def l
    using pad_zeros(1) [of "length m mod 64"] pad_zeros(2) [OF _ r] by (cases "length m mod 64 < 56") simp_all
qed

lemma length_pad: "length (pad m) mod 64 = 0"
proof -
  let ?r = "length m mod 64"
  have r: "?r < 64" by simp
  have "(?r + ((119 - ?r) mod 64 + 9)) mod 64 = 0"
    using pad_zeros(1) [of ?r] pad_zeros(2) [OF _ r] r by (cases "?r < 56") simp_all
  then have "(length m + ((119 - ?r) mod 64 + 9)) mod 64 = 0"
    using mod_add_left_eq [of "length m" 64 "(119 - ?r) mod 64 + 9"] by simp
  then show ?thesis by (simp add: pad_def add.commute add.left_commute)
qed

lemma Write_pieces: "foldl Write digest_New ps = d \<Longrightarrow> digests d (concat ps)"
proof (induction ps arbitrary: d rule: rev_induct)
  case Nil
  then have "d = digest_New" by simp
  then show ?case using buffered_New by (simp add: digests_def digest_New_def)
next
  case (snoc p ps)
  then show ?case using Write_digests by force
qed

section \<open>Property\<close>

lemma checkSum_total: "digests d m \<Longrightarrow> checkSum d = Some (bytes_of (fold_blocks (length (pad m) div 64) (pad m) init256))"
proof -
  assume that: "digests d m"
  have "dlen d = of_nat (length m)" using that by (simp add: digests_def)
  then have "digests (Write d (padlen (dlen d))) (pad m)" using Write_digests [OF that, of "padlen (dlen d)"] padlen_pad [of m] by simp
  then have w: "nx (Write d (padlen (dlen d))) = 0" "dh (Write d (padlen (dlen d))) = blockGeneric init256 (pad m)"
    using buffered_whole [OF _ length_pad, of "Write d (padlen (dlen d))" m] unfolding digests_def by auto
  have "length (pad m) = 64 * (length (pad m) div 64)" using length_pad [of m] by auto
  from block_fold [OF this] w show ?thesis unfolding checkSum_def Let_def bytes_of_def
    by (simp split: prod.split)
qed

lemma Sum256_total: "Sum256 m = Some (bytes_of (fold_blocks (length (pad m) div 64) (pad m) init256))"
  using checkSum_total [OF Write_pieces [of "[m]", OF refl]] by (simp add: Sum256_def)

text \<open>
  C29. \<open>crypto/sha256\<close>: however a message is cut into pieces for \<open>Write\<close> (with a buffered rest
  between them and block runs of at most 64 KiB), the checksum never panics and is the 32 bytes
  of the compression function folded over the 64-byte blocks of the padded message; \<open>Sum256\<close> is
  the case of one piece.
\<close>

theorem Sum256_correct:
  "checkSum (foldl Write digest_New ps) =
     Some (bytes_of (fold_blocks (length (pad (concat ps)) div 64) (pad (concat ps)) init256)) \<and>
   Sum256 (concat ps) = checkSum (foldl Write digest_New ps) \<and>
   (\<exists>s. Sum256 (concat ps) = Some s \<and> length s = 32)"
proof -
  have "Sum256 (concat ps) = checkSum (foldl Write digest_New [concat ps])" by (simp add: Sum256_def)
  with checkSum_total [OF Write_pieces [of ps, OF refl]] checkSum_total [OF Write_pieces [of "[concat ps]", OF refl]]
  show ?thesis by (auto simp: length_bytes_of)
qed

end
