(* ===== verification/Decompress.thy ===== *)
theory Decompress
  imports Exec Sha256
begin

unbundle bit_operations_syntax

text \<open>
  Model of \<open>src/internal/decompress/decompress.go\<close>: unpacking the embedded archive and checking
  its hash. What the archive readers deliver is an \<open>archive\<close>: the error of \<open>gzip.NewReader\<close>, or the
  entries of \<open>tar.Reader.Next\<close> in order followed by the end of the archive or an error. An entry
  comes with the bytes that reading it gives and the error that cuts them off, if any.
\<close>

section \<open>Archives\<close>

record Header =
  hName :: string
  hLinkname :: string
  hTypeflag :: char
  hMode :: int

record entry =
  e_hdr :: Header
  e_data :: bytes
  e_err :: "error option"

type_synonym archive = "error + (entry list \<times> error option)"

definition TypeReg :: char where "TypeReg = CHR ''0''"
definition TypeSymlink :: char where "TypeSymlink = CHR ''2''"
definition TypeDir :: char where "TypeDir = CHR ''5''"

text \<open>
  \<open>os.FileMode(hdr.Mode)\<close> and \<open>syscallMode\<close>: the low 32 bits of the mode, of which the nine
  permission bits and the \<open>os.ModeSetuid\<close>, \<open>ModeSetgid\<close> and \<open>ModeSticky\<close> bits reach the system.
\<close>

definition syscallMode :: "int \<Rightarrow> perm" where
  "syscallMode m =
     word_of_int (m AND 0x1FF) OR (if bit m 23 then 0x800 else 0) OR (if bit m 22 then 0x400 else 0) OR
     (if bit m 20 then 0x200 else 0)"

text \<open>\<open>io.Copy\<close> from a reader into an open file.\<close>

definition copy_data :: "string \<Rightarrow> path \<Rightarrow> bytes \<times> error option \<Rightarrow> world \<Rightarrow> error option \<times> world" where
  "copy_data name q src w =
     (case src of (bs, rerr) \<Rightarrow>
        (if bs = [] then (rerr, w)
         else
           (case sys_write q bs w of
              (Some e, w1) \<Rightarrow> (Some (PathError ''write'' name e), w1)
            | (None, w1) \<Rightarrow> (rerr, w1))))"

section \<open>Extraction\<close>

text \<open>The body of the loop for one entry: an error, or whether the entry was skipped.\<close>

definition extract_entry :: "string \<Rightarrow> entry \<Rightarrow> world \<Rightarrow> bool result \<times> world" where
  "extract_entry dest en w =
     (let hdr = e_hdr en; targetPath = Join [dest, hName hdr] in
      if hTypeflag hdr = TypeDir then
        (case MkdirAll targetPath 0x1ED w of
           (Some e, w1) \<Rightarrow> (Inl (Errorf ''failed to create directory: %v'' [] (Some e)), w1)
         | (None, w1) \<Rightarrow> (Inr False, w1))
      else if hTypeflag hdr = TypeReg then
        (case MkdirAll (Dir targetPath) 0x1ED w of
           (Some e, w1) \<Rightarrow> (Inl (Errorf ''failed to create parent directory: %v'' [] (Some e)), w1)
         | (None, w1) \<Rightarrow>
             (case OpenTrunc targetPath (syscallMode (hMode hdr)) w1 of
                (Inl e, w2) \<Rightarrow> (Inl (Errorf ''failed to create file: %v'' [] (Some e)), w2)
              | (Inr f, w2) \<Rightarrow>
                  (case copy_data targetPath f (e_data en, e_err en) w2 of
                     (Some e, w3) \<Rightarrow> (Inl (Errorf ''failed to write file: %v'' [] (Some e)), w3)
                   | (None, w3) \<Rightarrow> (Inr False, w3))))
      else if hTypeflag hdr = TypeSymlink then
        (let linkTarget = Join [dest, hLinkname hdr] in
         case MkdirAll (Dir targetPath) 0x1ED w of
           (Some e, w1) \<Rightarrow> (Inl (Errorf ''failed to create directory for symlink: %v'' [] (Some e)), w1)
         | (None, w1) \<Rightarrow>
             (case Remove targetPath w1 of
                (_, w2) \<Rightarrow>
                  (case Symlink linkTarget targetPath w2 of
                     (Some e, w3) \<Rightarrow> (Inl (Errorf ''failed to create symlink: %v'' [] (Some e)), w3)
                   | (None, w3) \<Rightarrow> (Inr False, w3))))
      else (Inr True, w))"

fun extract_loop :: "string \<Rightarrow> entry list \<Rightarrow> error option \<Rightarrow> nat \<Rightarrow> world \<Rightarrow> nat result \<times> world" where
  "extract_loop dest [] fin skipped w =
     (case fin of
        None \<Rightarrow> (Inr skipped, w)
      | Some e \<Rightarrow> (Inl (Errorf ''failed to read archive: %v'' [] (Some e)), w))"
| "extract_loop dest (en # ens) fin skipped w =
     (case extract_entry dest en w of
        (Inl e, w1) \<Rightarrow> (Inl e, w1)
      | (Inr skip, w1) \<Rightarrow> extract_loop dest ens fin (if skip then skipped + 1 else skipped) w1)"

definition ExtractResources :: "archive \<Rightarrow> string \<Rightarrow> world \<Rightarrow> error option \<times> world" where
  "ExtractResources ar dest0 w =
     (let dest = Clean dest0; w0 = println ''INFO: extracting resources; this may take some time...'' w in
      case ar of
        Inl e \<Rightarrow> (Some (Errorf ''failed to create gzip reader: %v'' [] (Some e)), w0)
      | Inr (ens, fin) \<Rightarrow>
          (case extract_loop dest ens fin 0 w0 of
             (Inl e, w1) \<Rightarrow> (Some e, w1)
           | (Inr skipped, w1) \<Rightarrow>
               (None,
                println ''INFO: extraction completed''
                  (if skipped > 0 then println ''WARN: some archive entries were skipped'' w1 else w1))))"

section \<open>The hash\<close>

definition hex_digit :: "nat \<Rightarrow> char" where
  "hex_digit d = ''0123456789abcdef'' ! d"

text \<open>\<open>fmt.Sprintf("%x", bs)\<close>.\<close>

definition hex_string :: "bytes \<Rightarrow> string" where
  "hex_string bs = concat (map (\<lambda>c. [hex_digit (byte c div 16), hex_digit (byte c mod 16)]) bs)"

text \<open>\<open>bytes.TrimSpace\<close>; it differs from the function of \<open>strings\<close> in the last fallback only.\<close>

definition bytes_TrimSpace :: "bytes \<Rightarrow> bytes" where
  "bytes_TrimSpace s =
     (case skip_space s of
        Inl rest \<Rightarrow> TrimFunc rest IsSpace
      | Inr rest \<Rightarrow>
          (case skip_space (rev rest) of
             Inl r \<Rightarrow> TrimFunc (rev r) IsSpace
           | Inr r \<Rightarrow> rev r))"

definition VerifyHash :: "(rune \<Rightarrow> rune) \<Rightarrow> bytes \<Rightarrow> bytes \<Rightarrow> world \<Rightarrow> bool outcome \<times> world" where
  "VerifyHash sf embeddedResources embeddedHash w =
     (case Sum256 embeddedResources of
        None \<Rightarrow> (Crash, w)
      | Some digest \<Rightarrow>
          (let calculated = hex_string digest; expected = bytes_TrimSpace embeddedHash in
           if \<not> EqualFold sf calculated expected then
             (Return False, println ''ERROR: resources verification failed'' w)
           else (Return True, println ''INFO: resources verified'' w)))"

section \<open>What the hash check accepts\<close>

lemma ascii_case: "byte a < RuneSelf \<Longrightarrow> byte b < RuneSelf \<Longrightarrow>
    (a = b \<or> ascii_fold_eq (min (byte a) (byte b)) (max (byte a) (byte b))) \<longleftrightarrow> to_lower a = to_lower b"
proof -
  assume a: "byte a < RuneSelf" "byte b < RuneSelf"
  have l: "byte (to_lower c) = (if 65 \<le> byte c \<and> byte c \<le> 90 then byte c + 32 else byte c)" if "byte c < RuneSelf" for c
    using that by (auto simp: to_lower_def less_eq_char_def)
  have "to_lower a = to_lower b \<longleftrightarrow> byte (to_lower a) = byte (to_lower b)" by simp
  also have "\<dots> \<longleftrightarrow> byte a = byte b \<or> ascii_fold_eq (min (byte a) (byte b)) (max (byte a) (byte b))"
    unfolding l [OF a(1)] l [OF a(2)] ascii_fold_eq_def by (auto simp: min_def max_def)
  finally show ?thesis by simp
qed

lemma EqualFold_ascii: "is_ascii s \<Longrightarrow> is_ascii t \<Longrightarrow> EqualFold sf s t \<longleftrightarrow> map to_lower s = map to_lower t"
proof (induction sf s t rule: EqualFold.induct)
  case (1 sf a s b t)
  then have b: "byte a < RuneSelf" "byte b < RuneSelf" "is_ascii s" "is_ascii t" by (simp_all add: is_ascii_def)
  show ?case
  proof (cases "to_lower a = to_lower b")
    case True
    then have "a = b \<or> ascii_fold_eq (min (byte a) (byte b)) (max (byte a) (byte b))" using ascii_case b by blast
    moreover have "\<not> (byte a \<ge> RuneSelf \<or> byte b \<ge> RuneSelf)" using b by simp
    ultimately show ?thesis using 1(1) b True by (simp del: de_Morgan_disj)
  next
    case False
    then have "\<not> (a = b \<or> ascii_fold_eq (min (byte a) (byte b)) (max (byte a) (byte b)))" using ascii_case b by blast
    then show ?thesis using False b by auto
  qed
qed auto

text \<open>Without the white space around it.\<close>

definition strip_space :: "string \<Rightarrow> string" where
  "strip_space s = rev (dropWhile asciiSpace (rev (dropWhile asciiSpace s)))"

lemma bytes_TrimSpace_ascii: "is_ascii s \<Longrightarrow> bytes_TrimSpace s = strip_space s"
  by (simp add: bytes_TrimSpace_def skip_space_ascii is_ascii_dropWhile strip_space_def)
     (simp add: skip_space_ascii is_ascii_def list_all_iff set_dropWhileD)

lemma is_ascii_strip: "is_ascii s \<Longrightarrow> is_ascii (strip_space s)"
  by (auto simp: strip_space_def is_ascii_def list_all_iff dest!: set_dropWhileD)

lemma hex_digit_ok: "d < 16 \<Longrightarrow> byte (hex_digit d) < RuneSelf \<and> to_lower (hex_digit d) = hex_digit d \<and> \<not> asciiSpace (hex_digit d)"
proof -
  have "\<forall>d \<in> {..<16}. byte (hex_digit d) < RuneSelf \<and> to_lower (hex_digit d) = hex_digit d \<and> \<not> asciiSpace (hex_digit d)"
    by code_simp
  then show "d < 16 \<Longrightarrow> ?thesis" by blast
qed

lemma hex_string_ok:
  "is_ascii (hex_string bs)" "map to_lower (hex_string bs) = hex_string bs" "c \<in> set (hex_string bs) \<Longrightarrow> \<not> asciiSpace c"
proof -
  have "byte c div 16 < 16" "byte c mod 16 < 16" for c :: char by (simp_all add: less_mult_imp_div_less)
  note d = this [THEN hex_digit_ok]
  show "is_ascii (hex_string bs)" "map to_lower (hex_string bs) = hex_string bs" "c \<in> set (hex_string bs) \<Longrightarrow> \<not> asciiSpace c"
    using d by (auto simp: hex_string_def is_ascii_def list_all_iff map_concat comp_def)
qed


lemma strip_noop: "(\<And>c. c \<in> set s \<Longrightarrow> \<not> asciiSpace c) \<Longrightarrow> strip_space s = s"
proof -
  assume a: "\<And>c. c \<in> set s \<Longrightarrow> \<not> asciiSpace c"
  then have "dropWhile asciiSpace s = s" "dropWhile asciiSpace (rev s) = rev s"
    by (metis dropWhile_eq_self_iff hd_in_set, metis dropWhile_eq_self_iff hd_in_set set_rev)
  then show ?thesis by (simp add: strip_space_def)
qed

lemma VerifyHash_iff:
  assumes "is_ascii h"
  shows "\<exists>d ok v. Sum256 res = Some d \<and> VerifyHash sf res h w = (Return ok, v) \<and> (ok \<longleftrightarrow> map to_lower (strip_space h) = hex_string d)"
proof -
  obtain d where "Sum256 res = Some d" using Sum256_total by blast
  moreover have "EqualFold sf (hex_string d) (bytes_TrimSpace h) \<longleftrightarrow> map to_lower (strip_space h) = hex_string d"
    using EqualFold_ascii [of "hex_string d" "strip_space h" sf] hex_string_ok(1,2) [of d] is_ascii_strip assms
    by (auto simp: bytes_TrimSpace_ascii)
  ultimately show ?thesis by (auto simp: VerifyHash_def Let_def)
qed

lemma strip_newline: "(\<And>c. c \<in> set s \<Longrightarrow> \<not> asciiSpace c) \<Longrightarrow> s \<noteq> [] \<Longrightarrow> strip_space (s @ [nl]) = s"
proof -
  assume a: "\<And>c. c \<in> set s \<Longrightarrow> \<not> asciiSpace c" and "s \<noteq> []"
  then have "dropWhile asciiSpace (s @ [nl]) = s @ [nl]" by (cases s) auto
  moreover have "asciiSpace nl" by code_simp
  ultimately show ?thesis using a strip_noop [of s] by (simp add: strip_space_def dropWhile_append3)
qed

text \<open>
  C18. The hash check returns for every archive and every ASCII hash file, and accepts exactly when
  the file, without the white space around it and without regard to letter case, is the
  hexadecimal SHA-256 digest of the archive.
\<close>

theorem VerifyHash_spec:
  assumes "is_ascii h"
  shows "\<exists>digest ok w'. Sum256 res = Some digest \<and> length digest = 32 \<and> VerifyHash sf res h w = (Return ok, w') \<and>
    (ok \<longleftrightarrow> map to_lower (strip_space h) = hex_string digest)"
  using VerifyHash_iff [OF assms, of res sf w] Sum256_total [of res] by (auto simp: length_bytes_of)

theorem VerifyHash_spec_witness:
  "fst (VerifyHash id ''archive'' (hex_string (the (Sum256 ''archive'')) @ [nl]) demo_world) = Return True"
proof -
  let ?h = "hex_string (the (Sum256 ''archive''))"
  have "is_ascii (?h @ [nl])" using hex_string_ok(1) by (simp add: is_ascii_def)
  from VerifyHash_spec [OF this, of "''archive''" id demo_world] obtain d ok w' where
    d: "Sum256 ''archive'' = Some d" "length d = 32" "VerifyHash id ''archive'' (?h @ [nl]) demo_world = (Return ok, w')"
    "ok \<longleftrightarrow> map to_lower (strip_space (?h @ [nl])) = hex_string d" by blast
  then have "?h \<noteq> []" by (cases d) (auto simp: hex_string_def)
  then have "strip_space (?h @ [nl]) = ?h" using strip_newline [of ?h] hex_string_ok(3) by blast
  then show ?thesis using d hex_string_ok(2) by simp
qed

end
