(* ===== verification/Grub.thy ===== *)
theory Grub
  imports Exec Transaction
begin

text \<open>
  Model of \<open>src/internal/grub/grub.go\<close>: the two transaction actions that set the kernel command
  line in \<open>/etc/default/grub\<close> and install a message script for the initramfs. The regular
  expression \<open>(?m)^GRUB_CMDLINE_LINUX_DEFAULT=.*$\<close> matches a whole line that starts with the
  variable; replacing all its matches replaces those lines.
\<close>

section \<open>Editing the command line\<close>

definition grub_var :: string where "grub_var = ''GRUB_CMDLINE_LINUX_DEFAULT=''"

definition newLine :: string where
  "newLine = grub_var @ dquote # ''quiet loglevel=0 systemd.show_status=0'' @ [dquote]"

definition grub_match :: "string \<Rightarrow> bool" where
  "grub_match data \<longleftrightarrow> list_ex (\<lambda>l. HasPrefix l grub_var) (split_on nl data)"

definition grub_replace :: "string \<Rightarrow> string" where
  "grub_replace data = join_with [nl] (map (\<lambda>l. if HasPrefix l grub_var then newLine else l) (split_on nl data))"

definition grub_edit :: "string \<Rightarrow> string" where
  "grub_edit data =
     (if grub_match data then grub_replace data
      else
        let data = (if \<not> HasSuffix data [nl] then data @ [nl] else data)
        in data @ newLine @ [nl])"

section \<open>The actions\<close>

definition grubFile :: string where "grubFile = Clean ''/etc/default/grub''"
definition initPath :: string where "initPath = Clean ''/etc/initramfs-tools/scripts/init-top/mimo-msg''"

definition initContent :: string where
  "initContent =
     ''#!/bin/sh'' @ [nl] @ ''echo '' @ [dquote] @ ''>>> Initializing MIMO Live Server (initramfs) <<<'' @ [dquote] @
     '' > /dev/console'' @ [nl]"

definition grub_Do :: "commands \<Rightarrow> bytes \<Rightarrow> world effect" where
  "grub_Do ex origGrub w =
     (case WriteFile grubFile (grub_edit origGrub) 0x1A4 w of
        (Some e, w1) \<Rightarrow> (Some (Errorf ''write grub file: %w'' [] (Some e)), w1)
      | (None, w1) \<Rightarrow>
          (case cmd_Combined ex [''update-grub''] w1 of
             ((Some e, out), w2) \<Rightarrow> (Some (Errorf ''update-grub failed: %v: %s'' [TrimSpace out] (Some e)), w2)
           | ((None, out), w2) \<Rightarrow> (None, println ''INFO: grub updated'' w2)))"

definition grub_Undo :: "commands \<Rightarrow> bytes \<Rightarrow> world effect" where
  "grub_Undo ex origGrub w =
     (if length origGrub > 0 then
        (case WriteFile grubFile origGrub 0x1A4 w of
           (Some e, w1) \<Rightarrow> (Some (Errorf ''restore grub file: %w'' [] (Some e)), w1)
         | (None, w1) \<Rightarrow> (None, snd (cmd_Run ex [''update-grub''] w1)))
      else (None, w))"

definition init_Do :: "commands \<Rightarrow> world effect" where
  "init_Do ex w =
     (case MkdirAll (Dir initPath) 0x1ED w of
        (Some e, w1) \<Rightarrow> (Some (Errorf ''mkdir init path: %w'' [] (Some e)), w1)
      | (None, w1) \<Rightarrow>
          (case WriteFile initPath initContent 0x1ED w1 of
             (Some e, w2) \<Rightarrow> (Some (Errorf ''write init script: %w'' [] (Some e)), w2)
           | (None, w2) \<Rightarrow>
               (case cmd_Combined ex [''update-initramfs'', ''-u''] w2 of
                  ((Some e, out), w3) \<Rightarrow>
                    (Some (Errorf ''update-initramfs failed: %v: %s'' [TrimSpace out] (Some e)), w3)
                | ((None, out), w3) \<Rightarrow> (None, println ''INFO: initramfs script installed'' w3))))"

definition init_Undo :: "commands \<Rightarrow> bytes \<Rightarrow> world effect" where
  "init_Undo ex origInit w =
     (case (if length origInit > 0 then
              (case WriteFile initPath origInit 0x1ED w of
                 (Some e, w1) \<Rightarrow> (Some (Errorf ''restore init script: %w'' [] (Some e)), w1)
               | (None, w1) \<Rightarrow> (None, w1))
            else (None, snd (Remove initPath w))) of
        (Some e, w1) \<Rightarrow> (Some e, w1)
      | (None, w1) \<Rightarrow> (None, snd (cmd_Run ex [''update-initramfs'', ''-u''] w1)))"

text \<open>The original contents, read when the actions are registered; a failed read gives none.\<close>

definition read_orig :: "string \<Rightarrow> world \<Rightarrow> bytes \<times> world" where
  "read_orig p w = (case ReadFile p w of (Inl e, w') \<Rightarrow> ([], w') | (Inr b, w') \<Rightarrow> (b, w'))"

definition RegisterGrubAndInitActions ::
  "commands \<Rightarrow> world txn option \<Rightarrow> world \<Rightarrow> error option \<times> world txn option \<times> world" where
  "RegisterGrubAndInitActions ex txn w =
     (case txn of
        None \<Rightarrow> (Some (Errorf ''nil transaction'' [] None), None, w)
      | Some t \<Rightarrow>
          (case read_orig grubFile w of
             (origGrub, w1) \<Rightarrow>
               (let t1 = Add t (Some \<lparr>Name = ''modify grub cmdline'', Do = Some (grub_Do ex origGrub),
                                      Undo = Some (grub_Undo ex origGrub)\<rparr>) in
                case read_orig initPath w1 of
                  (origInit, w2) \<Rightarrow>
                    (None, Some (Add t1 (Some \<lparr>Name = ''add initramfs mimo-msg'', Do = Some (init_Do ex),
                                               Undo = Some (init_Undo ex origInit)\<rparr>)), w2))))"

section \<open>What the edit does\<close>

lemma HasPrefix_newLine: "HasPrefix newLine grub_var"
  by (simp add: newLine_def HasPrefix_def)

lemma newLine_no_nl: "nl \<notin> set newLine"
  by (simp add: newLine_def grub_var_def)

lemma split_replace: "split_on nl (grub_replace d) = map (\<lambda>l. if HasPrefix l grub_var then newLine else l) (split_on nl d)"
  unfolding grub_replace_def by (rule split_join) (use split_on_parts newLine_no_nl in auto)

lemma split_on_snoc: "split_on x (s @ [x]) = split_on x s @ [[]]"
proof (induction s)
  case (Cons c s)
  then show ?case by (cases "split_on x s") auto
qed simp

lemma split_on_line: "x \<notin> set l \<Longrightarrow> split_on x (s @ x # l @ [x]) = split_on x s @ [l, []]"
proof (induction s)
  case Nil
  then show ?case by (simp add: split_on_append)
next
  case (Cons c s)
  then show ?case by (cases "split_on x s") auto
qed

text \<open>The lines after the edit: the old ones with the variable's lines replaced, or with one added.\<close>

lemma grub_edit_lines:
  "\<exists>pre. split_on nl (grub_edit d) =
     (if grub_match d then map (\<lambda>l. if HasPrefix l grub_var then newLine else l) (split_on nl d)
      else pre @ [newLine, []]) \<and> (pre = split_on nl d \<or> pre @ [[]] = split_on nl d)"
proof (cases "grub_match d")
  case True
  then show ?thesis by (auto simp: grub_edit_def split_replace)
next
  case False
  show ?thesis
  proof (cases "HasSuffix d [nl]")
    case True
    then obtain e where d: "d = e @ [nl]"
      by (cases d rule: rev_cases) (auto simp: HasSuffix_def)
    then have "split_on nl (grub_edit d) = split_on nl e @ [newLine, []]"
      using False True split_on_line [OF newLine_no_nl, of e] by (simp add: grub_edit_def)
    with False d show ?thesis by (auto simp: split_on_snoc)
  next
    case noSuf: False
    then have "split_on nl (grub_edit d) = split_on nl d @ [newLine, []]"
      using False split_on_line [OF newLine_no_nl, of d] by (simp add: grub_edit_def)
    with False show ?thesis by auto
  qed
qed

lemma grub_edit_fixed: "grub_match (grub_edit d) \<and> grub_replace (grub_edit d) = grub_edit d"
proof -
  let ?g = "\<lambda>l. if HasPrefix l grub_var then newLine else l"
  obtain pre where pre: "split_on nl (grub_edit d) = (if grub_match d then map ?g (split_on nl d) else pre @ [newLine, []])"
    "pre = split_on nl d \<or> pre @ [[]] = split_on nl d" using grub_edit_lines by blast
  have np: "\<not> HasPrefix l grub_var" if "\<not> grub_match d" "l \<in> set pre" for l
    using that pre(2) by (metis Un_iff grub_match_def list_ex_iff set_append)
  have m: "grub_match (grub_edit d)"
    using pre(1) HasPrefix_newLine by (auto simp: grub_match_def [of "grub_edit d"] list_ex_iff grub_match_def [of d])
  have e: "\<not> HasPrefix [] grub_var" by (simp add: HasPrefix_def grub_var_def)
  have "map ?g (split_on nl (grub_edit d)) = split_on nl (grub_edit d)"
    unfolding pre(1) using np e HasPrefix_newLine by (auto intro!: map_idI)
  then have "grub_replace (grub_edit d) = join_with [nl] (split_on nl (grub_edit d))" by (simp add: grub_replace_def)
  with m show ?thesis by (simp add: join_split)
qed

section \<open>Do and Undo on the file\<close>

lemma WriteFile_quiet:
  assumes "w_ok w" "w_faults w = []" "list_all name_ok ps" "ps \<noteq> []" "dir_at (w_fs w) (butlast ps)"
    and "lookup (w_fs w) ps = None \<or> (\<exists>m b. lookup (w_fs w) ps = Some (FileN m b))"
  obtains m w' where "WriteFile (apath ps) bs md w = (None, w')" "w_ok w'" "w_faults w' = []"
    "\<And>q. lookup (w_fs w') q = (if q = ps then Some (FileN m bs) else lookup (w_fs w) q)"
    "m = (case lookup (w_fs w) ps of Some n \<Rightarrow> perm_of n | None \<Rightarrow> md AND NOT (w_umask w))"
    "w_cmds w' = w_cmds w" "w_umask w' = w_umask w"
proof -
  have wf: "wf_fs (w_fs w)" using assms(1) by (simp add: w_ok_def)
  define m where "m = (case lookup (w_fs w) ps of Some n \<Rightarrow> perm_of n | None \<Rightarrow> md AND NOT (w_umask w))"
  have "resolve w (apath ps) True = Inr ps"
    using resolve_real [OF wf assms(3,5), of True] assms(4,6) by (auto simp: not_link_def)
  then have "OpenTrunc (apath ps) md w = (Inr ps, w\<lparr>w_fs := store ps (FileN m []) (w_fs w)\<rparr>)"
    using assms(2,6) by (auto simp: OpenTrunc_def sys_creat_def at_path_quiet path_err_def m_def)
  then have wr: "WriteFile (apath ps) bs md w =
      (None, w\<lparr>w_fs := store ps (FileN m bs) (store ps (FileN m []) (w_fs w))\<rparr>)"
    using assms(2,4) by (simp add: WriteFile_def sys_write_def)
  have "w_ok (snd (WriteFile (apath ps) bs md w))"
    using evo.R_WriteFile [of w "apath ps" bs md] assms(1) by (auto dest: evolves_ok)
  with wr show ?thesis using assms(2,4) by (intro that [OF wr _ _ _ m_def]) auto
qed

lemma ReadFile_quiet:
  assumes "w_ok w" "w_faults w = []" "lookup (w_fs w) ps = Some (FileN m b)"
  shows "ReadFile (apath ps) w = (Inr b, w)"
  using Open_present [OF assms] assms(2,3) by (simp add: ReadFile_def sys_read_def path_err_def)

definition grub_path :: path where "grub_path = [''etc'', ''default'', ''grub'']"

lemma grubFile_path: "grubFile = apath grub_path" "list_all name_ok grub_path"
  unfolding grubFile_def grub_path_def by code_simp+

text \<open>
  The commands of this action may do anything except touch \<open>/etc/default\<close> and its file.
\<close>

definition leaves_grub :: "commands \<Rightarrow> bool" where
  "leaves_grub ex \<longleftrightarrow> (\<forall>f k. lookup (snd (snd (ex [''update-grub''] f))) (take k grub_path) = lookup f (take k grub_path))"

lemma leaves_grub_at: "leaves_grub ex \<Longrightarrow> ex [''update-grub''] f = (e, out, f') \<Longrightarrow> prefix p grub_path \<Longrightarrow> lookup f' p = lookup f p"
proof -
  assume l: "leaves_grub ex" and x: "ex [''update-grub''] f = (e, out, f')" and p: "prefix p grub_path"
  then obtain r where "grub_path = p @ r" by (auto simp: prefix_def)
  then have "p = take (length p) grub_path" by (metis append_eq_conv_conj)
  with l x show ?thesis unfolding leaves_grub_def by (metis snd_conv)
qed

lemma grub_write:
  assumes "w_ok w" "w_faults w = []" "dir_at (w_fs w) (butlast grub_path)"
    and "lookup (w_fs w) grub_path = None \<or> (\<exists>m b. lookup (w_fs w) grub_path = Some (FileN m b))"
  obtains w' where "WriteFile grubFile bs 0x1A4 w = (None, w')" "w_ok w'" "w_faults w' = []"
    "lookup (w_fs w') grub_path = Some (FileN (case lookup (w_fs w) grub_path of Some n \<Rightarrow> perm_of n | None \<Rightarrow> 0x1A4 AND NOT (w_umask w)) bs)"
    "dir_at (w_fs w') (butlast grub_path)"
proof -
  have ne: "grub_path \<noteq> []" by (simp add: grub_path_def)
  have "butlast grub_path \<noteq> grub_path" by (simp add: grub_path_def)
  then show ?thesis
    using WriteFile_quiet [OF assms(1,2) grubFile_path(2) ne assms(3,4), of bs "0x1A4"] that assms(3)
    unfolding grubFile_path(1) dir_at_def by metis
qed

lemma after_update_grub:
  assumes "sane ex" "leaves_grub ex" "run_cmd ex [''update-grub''] w = (e, out, w')" "w_ok w" "w_faults w = []"
  shows "w_ok w'" "w_faults w' = []" "lookup (w_fs w') grub_path = lookup (w_fs w) grub_path"
    "dir_at (w_fs w') (butlast grub_path) = dir_at (w_fs w) (butlast grub_path)"
proof -
  have pr: "progresses w w'" by (rule progresses_run [OF assms(1,3)])
  then show "w_ok w'" "w_faults w' = []" using assms(4,5) by (auto simp: progresses_def)
  obtain f where f: "ex [''update-grub''] (w_fs w) = (e, out, f)" "w_fs w' = f"
    using assms(3) by (auto simp: run_cmd_def split: prod.splits)
  show "lookup (w_fs w') grub_path = lookup (w_fs w) grub_path"
    "dir_at (w_fs w') (butlast grub_path) = dir_at (w_fs w) (butlast grub_path)"
    using leaves_grub_at [OF assms(2) f(1)] f(2) by (simp_all add: dir_at_def prefixeq_butlast)
qed

lemma grub_Do_effect:
  assumes "sane ex" "leaves_grub ex" "w_ok w" "w_faults w = []" "dir_at (w_fs w) (butlast grub_path)"
    and "lookup (w_fs w) grub_path = None \<or> (\<exists>m b. lookup (w_fs w) grub_path = Some (FileN m b))"
    and "grub_Do ex orig w = (r, w')"
  shows "w_ok w'" "w_faults w' = []" "dir_at (w_fs w') (butlast grub_path)"
    "lookup (w_fs w') grub_path = Some (FileN (case lookup (w_fs w) grub_path of Some n \<Rightarrow> perm_of n | None \<Rightarrow> 0x1A4 AND NOT (w_umask w)) (grub_edit orig))"
proof -
  obtain w1 where w1: "WriteFile grubFile (grub_edit orig) 0x1A4 w = (None, w1)" "w_ok w1" "w_faults w1 = []"
    "lookup (w_fs w1) grub_path = Some (FileN (case lookup (w_fs w) grub_path of Some n \<Rightarrow> perm_of n | None \<Rightarrow> 0x1A4 AND NOT (w_umask w)) (grub_edit orig))"
    "dir_at (w_fs w1) (butlast grub_path)" by (rule grub_write [OF assms(3-6)])
  obtain e out w2 where r2: "run_cmd ex [''update-grub''] w1 = (e, out, w2)" by (metis prod_cases3)
  note a = after_update_grub [OF assms(1,2) r2 w1(2,3)]
  have "w_fs w' = w_fs w2" "w_ok w' = w_ok w2" "w_faults w' = w_faults w2"
    using assms(7) w1(1) r2 by (auto simp: grub_Do_def cmd_Combined_def println_def w_ok_def split: option.splits)
  with a w1 show "w_ok w'" "w_faults w' = []" "dir_at (w_fs w') (butlast grub_path)"
    "lookup (w_fs w') grub_path = Some (FileN (case lookup (w_fs w) grub_path of Some n \<Rightarrow> perm_of n | None \<Rightarrow> 0x1A4 AND NOT (w_umask w)) (grub_edit orig))"
    by simp_all
qed

section \<open>Properties\<close>

text \<open>
  C12. The edit of \<open>/etc/default/grub\<close>. If some lines set \<open>GRUB_CMDLINE_LINUX_DEFAULT\<close>, exactly
  these are replaced by the new line and every other line is kept, in order; otherwise the new
  line is appended as the last line, the text before it kept and ended by a newline. Editing
  an edited file changes nothing.
\<close>

theorem grub_edit_spec:
  "(if grub_match d then split_on nl (grub_edit d) = map (\<lambda>l. if HasPrefix l grub_var then newLine else l) (split_on nl d)
    else \<exists>pre. grub_edit d = pre @ newLine @ [nl] \<and> HasSuffix pre [nl] \<and> (pre = d \<or> pre = d @ [nl])) \<and>
   grub_edit (grub_edit d) = grub_edit d"
proof -
  have "grub_edit (grub_edit d) = grub_edit d" using grub_edit_fixed [of d] by (simp add: grub_edit_def [of "grub_edit d"])
  moreover have "HasSuffix (d @ [nl]) [nl]" by (simp add: HasSuffix_def)
  ultimately show ?thesis
    by (auto simp: split_replace grub_edit_def [of d] Let_def)
qed


text \<open>
  C14. If \<open>/etc/default/grub\<close> did not exist before, \<open>Undo\<close> does not restore that: after \<open>Do\<close> and
  \<open>Undo\<close> the file is there, with the new line only.
\<close>

theorem grub_undo_keeps_new_file:
  assumes "sane ex" "leaves_grub ex" "w_ok w" "w_faults w = []"
    and "lookup (w_fs w) grub_path = None" "dir_at (w_fs w) (butlast grub_path)"
    and "grub_Do ex [] w = (r, w1)" "grub_Undo ex [] w1 = (r2, w2)"
  shows "\<exists>m. lookup (w_fs w2) grub_path = Some (FileN m (nl # newLine @ [nl]))"
proof -
  have "\<not> grub_match []" by (simp add: grub_match_def HasPrefix_def grub_var_def)
  then have "grub_edit [] = nl # newLine @ [nl]" by (simp add: grub_edit_def HasSuffix_def)
  with grub_Do_effect(4) [OF assms(1-4,6) _ assms(7)] assms(5,8) show ?thesis by (auto simp: grub_Undo_def)
qed

definition quiet_ex :: commands where
  "quiet_ex argv f = (None, [], f)"

definition grub_world :: "fs \<Rightarrow> world" where
  "grub_world f = demo_world\<lparr>w_fs := ([''etc''], DirN 0x1ED) # ([''etc'', ''default''], DirN 0x1ED) # f\<rparr>"

lemma quiet_ex_ok: "sane quiet_ex" "leaves_grub quiet_ex"
  by (simp_all add: sane_def leaves_grub_def quiet_ex_def)


theorem grub_undo_keeps_new_file_witness:
  "lookup (w_fs (snd (grub_Undo quiet_ex [] (snd (grub_Do quiet_ex [] (grub_world [])))))) grub_path \<noteq> None"
proof -
  have "w_ok (grub_world [])" "w_faults (grub_world []) = []" "lookup (w_fs (grub_world [])) grub_path = None"
    "dir_at (w_fs (grub_world [])) (butlast grub_path)"
    unfolding w_ok_def by code_simp+
  from grub_undo_keeps_new_file [OF quiet_ex_ok this prod.collapse [symmetric] prod.collapse [symmetric]] show ?thesis by auto
qed

end
