(* ===== verification/Motd.thy ===== *)
theory Motd
  imports OSSpec Transaction
begin

text \<open>
  Model of \<open>src/internal/motd/motd.go\<close>: the action that moves the scripts of
  \<open>/etc/update-motd.d\<close> to a backup directory, its undoing, and \<open>DisableMotd\<close>.
\<close>

section \<open>Definitions\<close>

definition motdDir :: string where "motdDir = ''/etc/update-motd.d''"
definition motdBakRoot :: string where "motdBakRoot = ''/var/lib/mimo/motd-backup''"

definition copyFile :: "string \<Rightarrow> string \<Rightarrow> world \<Rightarrow> error option \<times> world" where
  "copyFile src dst w =
     (case Open src w of
        (Inl e, w1) \<Rightarrow> (Some e, w1)
      | (Inr inp, w1) \<Rightarrow>
          (case MkdirAll (Dir dst) 0x1ED w1 of
             (Some e, w2) \<Rightarrow> (Some e, w2)
           | (None, w2) \<Rightarrow>
               (case Create dst w2 of
                  (Inl e, w3) \<Rightarrow> (Some e, w3)
                | (Inr out, w3) \<Rightarrow> io_Copy dst out src inp w3)))"

text \<open>\<open>os.ReadDir\<close> whose error is tolerated if the directory does not exist: then there are no entries.\<close>

definition entries_of :: "string \<Rightarrow> string \<Rightarrow> world \<Rightarrow> string list result \<times> world" where
  "entries_of fmt dir w =
     (case ReadDir dir w of
        (Inl e, w1) \<Rightarrow> if \<not> IsNotExist e then (Inl (Errorf fmt [] (Some e)), w1) else (Inr [], w1)
      | (Inr ns, w1) \<Rightarrow> (Inr ns, w1))"

fun backup_loop :: "string list \<Rightarrow> world \<Rightarrow> error option \<times> world" where
  "backup_loop [] w = (None, w)"
| "backup_loop (n # ns) w =
     (let src = Join [motdDir, n]; dst = Join [motdBakRoot, n] in
      case copyFile src dst w of
        (Some e, w1) \<Rightarrow> (Some e, w1)
      | (None, w1) \<Rightarrow>
          (case Remove src w1 of (Some e, w2) \<Rightarrow> (Some e, w2) | (None, w2) \<Rightarrow> backup_loop ns w2))"

definition motd_Do :: "world effect" where
  "motd_Do w =
     (case MkdirAll motdBakRoot 0x1ED w of
        (Some e, w1) \<Rightarrow> (Some (Errorf ''mkdir backup: %w'' [] (Some e)), w1)
      | (None, w1) \<Rightarrow>
          (case entries_of ''read motd dir: %w'' motdDir w1 of
             (Inl e, w2) \<Rightarrow> (Some e, w2)
           | (Inr ns, w2) \<Rightarrow> backup_loop ns w2))"

fun restore_loop :: "string list \<Rightarrow> world \<Rightarrow> error option \<times> world" where
  "restore_loop [] w = (None, w)"
| "restore_loop (n # ns) w =
     (let src = Join [motdBakRoot, n]; dst = Join [motdDir, n] in
      case MkdirAll motdDir 0x1ED w of
        (Some e, w1) \<Rightarrow> (Some e, w1)
      | (None, w1) \<Rightarrow>
          (case copyFile src dst w1 of (Some e, w2) \<Rightarrow> (Some e, w2) | (None, w2) \<Rightarrow> restore_loop ns w2))"

definition motd_Undo :: "world effect" where
  "motd_Undo w =
     (case entries_of ''read backup: %w'' motdBakRoot w of
        (Inl e, w1) \<Rightarrow> (Some e, w1)
      | (Inr ns, w1) \<Rightarrow> restore_loop ns w1)"

definition motd_action :: "world action" where
  "motd_action = \<lparr>Name = ''motd backup and disable'', Do = Some motd_Do, Undo = Some motd_Undo\<rparr>"

definition RegisterMOTDActions :: "world txn option \<Rightarrow> error option \<times> world txn option" where
  "RegisterMOTDActions txn =
     (case txn of
        None \<Rightarrow> (Some (Errorf ''nil transaction'' [] None), None)
      | Some t \<Rightarrow> (None, Some (Add t (Some motd_action))))"

fun disable_loop :: "string list \<Rightarrow> world \<Rightarrow> error option \<times> world" where
  "disable_loop [] w = (None, w)"
| "disable_loop (n # ns) w =
     (let p = Join [motdDir, n] in
      case RemoveAll p w of
        (Some e, w1) \<Rightarrow> (Some (Errorf ''remove %s: %w'' [p] (Some e)), w1)
      | (None, w1) \<Rightarrow> disable_loop ns w1)"

definition DisableMotd :: "world \<Rightarrow> error option \<times> world" where
  "DisableMotd w =
     (case entries_of ''read motd dir: %w'' motdDir w of
        (Inl e, w1) \<Rightarrow> (Some e, w1)
      | (Inr ns, w1) \<Rightarrow> disable_loop ns w1)"

section \<open>Frames\<close>

context sys_relation
begin

lemma R_copyFile: "R w (snd (copyFile src dst w))"
  unfolding copyFile_def by (intro R_shape R_Open R_MkdirAll R_Create R_io_Copy)

lemma R_entries_of: "R w (snd (entries_of fmt dir w))"
  unfolding entries_of_def by (intro R_shape R_ReadDir)

lemma R_backup_loop: "R w (snd (backup_loop ns w))"
proof (induction ns arbitrary: w)
  case (Cons n ns)
  show ?case by (simp only: backup_loop.simps Let_def) (intro R_shape R_copyFile R_Remove Cons.IH)
qed (simp add: R_refl)

lemma R_restore_loop: "R w (snd (restore_loop ns w))"
proof (induction ns arbitrary: w)
  case (Cons n ns)
  show ?case by (simp only: restore_loop.simps Let_def) (intro R_shape R_copyFile R_MkdirAll Cons.IH)
qed (simp add: R_refl)

lemma R_disable_loop: "R w (snd (disable_loop ns w))"
proof (induction ns arbitrary: w)
  case (Cons n ns)
  show ?case by (simp only: disable_loop.simps Let_def) (intro R_shape R_RemoveAll Cons.IH)
qed (simp add: R_refl)

lemma R_motd_Do: "R w (snd (motd_Do w))"
  unfolding motd_Do_def by (intro R_shape R_MkdirAll R_entries_of R_backup_loop)

lemma R_motd_Undo: "R w (snd (motd_Undo w))"
  unfolding motd_Undo_def by (intro R_shape R_entries_of R_restore_loop)

lemma R_DisableMotd: "R w (snd (DisableMotd w))"
  unfolding DisableMotd_def by (intro R_shape R_entries_of R_disable_loop)

end

section \<open>Copying one script\<close>

text \<open>When source and target are plain files and the target's directory is there.\<close>

lemma copyFile_quiet:
  assumes "w_ok w" "w_faults w = []" "lookup (w_fs w) ps = Some (FileN m b)"
    and "list_all name_ok (qd @ [x])" "dir_at (w_fs w) qd" "ps \<noteq> qd @ [x]"
    and "lookup (w_fs w) (qd @ [x]) = None \<or> (\<exists>m b. lookup (w_fs w) (qd @ [x]) = Some (FileN m b))"
  obtains w' m' where "copyFile (apath ps) (apath (qd @ [x])) w = (None, w')" "w_ok w'" "w_faults w' = []"
    "\<And>q. lookup (w_fs w') q = (if q = qd @ [x] then Some (FileN m' b) else lookup (w_fs w) q)"
proof -
  let ?qs = "qd @ [x]"
  have wf: "wf_fs (w_fs w)" using assms(1) by (simp add: w_ok_def)
  have op: "Open (apath ps) w = (Inr ps, w)" by (rule Open_present [OF assms(1-3)]) simp
  have dq: "Dir (apath ?qs) = apath qd" using Dir_render [OF normal_names [OF assms(4)]] .
  obtain m0 where m0: "lookup (w_fs w) qd = Some (DirN m0)" using assms(5) by (auto simp: dir_at_def)
  have mk: "MkdirAll (apath qd) 0x1ED w = (None, w)"
    using Stat_present(1) [OF assms(1,2) m0] by (subst MkdirAll.simps) simp
  obtain m' where cr: "Create (apath ?qs) w = (Inr ?qs, w\<lparr>w_fs := store ?qs (FileN m' []) (w_fs w)\<rparr>)"
    using Create_quiet [OF assms(1,2), of ?qs] assms(4,5,7) by auto
  have eq: "copyFile (apath ps) (apath ?qs) w = (None, w\<lparr>w_fs := store ?qs (FileN m' b) (store ?qs (FileN m' []) (w_fs w))\<rparr>)"
    using op dq mk cr assms(2,3,6) by (simp add: copyFile_def io_Copy_def sys_read_def sys_write_def)
  have "evolves w (snd (copyFile (apath ps) (apath ?qs) w))" by (rule evo.R_copyFile)
  then have "w_ok (snd (copyFile (apath ps) (apath ?qs) w))" using assms(1) by (rule evolves_ok)
  with eq show ?thesis using assms(2) by (intro that [OF eq]) auto
qed

section \<open>Moving scripts to the backup and back\<close>

definition motd_path :: path where "motd_path = [''etc'', ''update-motd.d'']"
definition bak_path :: path where "bak_path = [''var'', ''lib'', ''mimo'', ''motd-backup'']"

lemma motd_paths:
  "motdDir = apath motd_path" "motdBakRoot = apath bak_path" "list_all name_ok motd_path" "list_all name_ok bak_path"
  unfolding motd_path_def bak_path_def by code_simp+

lemma motd_bak_apart [simp]: "motd_path @ r \<noteq> bak_path @ s" "bak_path @ s \<noteq> motd_path @ r"
    "motd_path \<noteq> bak_path @ s" "bak_path \<noteq> motd_path @ r" "motd_path \<noteq> bak_path" "bak_path \<noteq> motd_path"
  by (simp_all add: motd_path_def bak_path_def)

text \<open>The contents of the plain file at a path.\<close>

definition content :: "fs \<Rightarrow> path \<Rightarrow> bytes option" where
  "content f p = (case lookup f p of Some (FileN m b) \<Rightarrow> Some b | _ \<Rightarrow> None)"

definition free_or_file :: "fs \<Rightarrow> path \<Rightarrow> bool" where
  "free_or_file f p \<longleftrightarrow> lookup f p = None \<or> content f p \<noteq> None"

lemma content_Some: "content f p = Some b \<longleftrightarrow> (\<exists>m. lookup f p = Some (FileN m b))"
  by (auto simp: content_def split: option.splits node.splits)

lemma free_or_file_alt: "free_or_file f p \<longleftrightarrow> lookup f p = None \<or> (\<exists>m b. lookup f p = Some (FileN m b))"
  by (auto simp: free_or_file_def content_def split: option.splits node.splits)

text \<open>
  \<open>copied a b ns f f'\<close> says that the files \<open>b/n\<close> for \<open>n\<close> in \<open>ns\<close> now hold
  what \<open>a/n\<close> holds, and nothing else changed.
\<close>

definition copied :: "path \<Rightarrow> path \<Rightarrow> string set \<Rightarrow> fs \<Rightarrow> fs \<Rightarrow> bool" where
  "copied a b ns f f' \<longleftrightarrow>
     (\<forall>n \<in> ns. content f' (b @ [n]) = content f (a @ [n])) \<and>
     (\<forall>q. (\<forall>n \<in> ns. q \<noteq> b @ [n]) \<longrightarrow> lookup f' q = lookup f q)"

lemma restore_loop_ok:
  assumes "distinct ns" "list_all name_ok ns" "w_ok w" "w_faults w = []"
    and "dir_at (w_fs w) motd_path" "\<And>n. n \<in> set ns \<Longrightarrow> content (w_fs w) (bak_path @ [n]) \<noteq> None \<and> free_or_file (w_fs w) (motd_path @ [n])"
  shows "\<exists>w'. restore_loop ns w = (None, w') \<and> copied bak_path motd_path (set ns) (w_fs w) (w_fs w')"
  using assms
proof (induction ns arbitrary: w)
  case Nil
  then show ?case by (simp add: copied_def)
next
  case (Cons n ns)
  have n: "list_all name_ok (motd_path @ [n])" "list_all name_ok (bak_path @ [n])"
    using Cons.prems(2) motd_paths by auto
  obtain m b where mb: "lookup (w_fs w) (bak_path @ [n]) = Some (FileN m b)"
    using Cons.prems(6) [of n] by (auto simp: content_Some)
  have ff: "lookup (w_fs w) (motd_path @ [n]) = None \<or> (\<exists>m b. lookup (w_fs w) (motd_path @ [n]) = Some (FileN m b))"
    using Cons.prems(6) [of n] by (auto simp: free_or_file_alt)
  obtain m0 where m0: "lookup (w_fs w) motd_path = Some (DirN m0)" using Cons.prems(5) by (auto simp: dir_at_def)
  have mk: "MkdirAll (apath motd_path) 0x1ED w = (None, w)"
    using Stat_present(1) [OF Cons.prems(3,4) m0] by (subst MkdirAll.simps) simp
  obtain w1 m' where w1: "copyFile (apath (bak_path @ [n])) (apath (motd_path @ [n])) w = (None, w1)" "w_ok w1" "w_faults w1 = []"
    "\<And>q. lookup (w_fs w1) q = (if q = motd_path @ [n] then Some (FileN m' b) else lookup (w_fs w) q)"
    by (rule copyFile_quiet [OF Cons.prems(3,4) mb n(1) Cons.prems(5) motd_bak_apart(2) ff]) (rule that)
  have "dir_at (w_fs w1) motd_path" using Cons.prems(5) w1(4) [of motd_path] by (simp add: dir_at_def)
  moreover have "content (w_fs w1) (bak_path @ [k]) \<noteq> None \<and> free_or_file (w_fs w1) (motd_path @ [k])" if "k \<in> set ns" for k
    using Cons.prems(1,6) that w1(4) by (auto simp: content_def free_or_file_def)
  ultimately obtain w2 where w2: "restore_loop ns w1 = (None, w2)" "copied bak_path motd_path (set ns) (w_fs w1) (w_fs w2)"
    using Cons.IH [of w1] Cons.prems(1,2) w1(2,3) by auto
  have "restore_loop (n # ns) w = (None, w2)"
    using mk w1(1) w2(1) Join_apath [OF n(1)] Join_apath [OF n(2)] by (simp add: Let_def motd_paths(1,2))
  moreover have "lookup (w_fs w2) (motd_path @ [n]) = Some (FileN m' b)"
    using w2(2) [unfolded copied_def, THEN conjunct2, rule_format, of "motd_path @ [n]"] w1(4) Cons.prems(1) by auto
  then have "copied bak_path motd_path (set (n # ns)) (w_fs w) (w_fs w2)"
    using w2(2) w1(4) mb by (auto simp: copied_def content_def)
  ultimately show ?case by blast
qed

text \<open>The backup loop copies and removes.\<close>

lemma backup_loop_ok:
  assumes "distinct ns" "list_all name_ok ns" "w_ok w" "w_faults w = []"
    and "dir_at (w_fs w) bak_path" "\<And>n. n \<in> set ns \<Longrightarrow> content (w_fs w) (motd_path @ [n]) \<noteq> None \<and> free_or_file (w_fs w) (bak_path @ [n])"
  shows "\<exists>w'. backup_loop ns w = (None, w') \<and>
    (\<forall>n \<in> set ns. content (w_fs w') (bak_path @ [n]) = content (w_fs w) (motd_path @ [n]) \<and> lookup (w_fs w') (motd_path @ [n]) = None) \<and>
    (\<forall>q. (\<forall>n \<in> set ns. q \<noteq> bak_path @ [n] \<and> q \<noteq> motd_path @ [n]) \<longrightarrow> lookup (w_fs w') q = lookup (w_fs w) q)"
  using assms
proof (induction ns arbitrary: w)
  case (Cons n ns)
  have n: "list_all name_ok (motd_path @ [n])" "list_all name_ok (bak_path @ [n])"
    using Cons.prems(2) motd_paths by auto
  obtain m b where mb: "lookup (w_fs w) (motd_path @ [n]) = Some (FileN m b)"
    using Cons.prems(6) [of n] by (auto simp: content_Some)
  have ff: "lookup (w_fs w) (bak_path @ [n]) = None \<or> (\<exists>m b. lookup (w_fs w) (bak_path @ [n]) = Some (FileN m b))"
    using Cons.prems(6) [of n] by (auto simp: free_or_file_alt)
  obtain w1 m' where w1: "copyFile (apath (motd_path @ [n])) (apath (bak_path @ [n])) w = (None, w1)" "w_ok w1" "w_faults w1 = []"
    "\<And>q. lookup (w_fs w1) q = (if q = bak_path @ [n] then Some (FileN m' b) else lookup (w_fs w) q)"
    by (rule copyFile_quiet [OF Cons.prems(3,4) mb n(2) Cons.prems(5) motd_bak_apart(1) ff]) (rule that)
  define w2 where "w2 = w1\<lparr>w_fs := erase (motd_path @ [n]) (w_fs w1)\<rparr>"
  have src: "lookup (w_fs w1) (motd_path @ [n]) = Some (FileN m b)" using w1(4) mb by simp
  have "fpath (w_fs w1) (motd_path @ [n])" using present_fpath [OF _ src] w1(2) by (simp add: w_ok_def)
  then have rm: "Remove (apath (motd_path @ [n])) w1 = (None, w2)"
    using Remove_quiet [OF w1(2,3)] src by (simp add: w2_def)
  have ok2: "w_ok w2" "w_faults w2 = []"
    using evo.R_Remove [of w1 "apath (motd_path @ [n])"] rm w1(2,3) by (auto dest: evolves_ok evolves_keeps)
  have l2: "lookup (w_fs w2) q = (if q = motd_path @ [n] then None else if q = bak_path @ [n] then Some (FileN m' b) else lookup (w_fs w) q)" for q
    using w1(4) [of q] by (simp add: w2_def)
  have "dir_at (w_fs w2) bak_path" using Cons.prems(5) l2 [of bak_path] motd_bak_apart(2) [of "[]" "[n]"] by (simp add: dir_at_def)
  moreover have "content (w_fs w2) (motd_path @ [k]) \<noteq> None \<and> free_or_file (w_fs w2) (bak_path @ [k])" if "k \<in> set ns" for k
    using Cons.prems(1,6) that l2 by (auto simp: content_def free_or_file_def)
  ultimately obtain w3 where w3: "backup_loop ns w2 = (None, w3)"
    "\<forall>n \<in> set ns. content (w_fs w3) (bak_path @ [n]) = content (w_fs w2) (motd_path @ [n]) \<and> lookup (w_fs w3) (motd_path @ [n]) = None"
    "\<forall>q. (\<forall>n \<in> set ns. q \<noteq> bak_path @ [n] \<and> q \<noteq> motd_path @ [n]) \<longrightarrow> lookup (w_fs w3) q = lookup (w_fs w2) q"
    using Cons.IH [of w2] Cons.prems(1,2) ok2 by auto
  have "backup_loop (n # ns) w = (None, w3)"
    using w1(1) rm w3(1) Join_apath [OF n(1)] Join_apath [OF n(2)] by (simp add: Let_def motd_paths(1,2))
  moreover have "content (w_fs w3) (bak_path @ [k]) = content (w_fs w) (motd_path @ [k]) \<and> lookup (w_fs w3) (motd_path @ [k]) = None"
    if "k \<in> set (n # ns)" for k
  proof (cases "k = n")
    case True
    have "lookup (w_fs w3) (bak_path @ [n]) = lookup (w_fs w2) (bak_path @ [n])"
      "lookup (w_fs w3) (motd_path @ [n]) = lookup (w_fs w2) (motd_path @ [n])"
      using w3(3) Cons.prems(1) by auto
    with True l2 mb show ?thesis by (simp add: content_def)
  next
    case False
    with that have k: "k \<in> set ns" by simp
    have "content (w_fs w2) (motd_path @ [k]) = content (w_fs w) (motd_path @ [k])" using False l2 by (simp add: content_def)
    with w3(2) k show ?thesis by simp
  qed
  moreover have "lookup (w_fs w3) q = lookup (w_fs w) q" if "\<forall>k \<in> set (n # ns). q \<noteq> bak_path @ [k] \<and> q \<noteq> motd_path @ [k]" for q
    using that w3(3) l2 by auto
  ultimately show ?case by blast
qed simp

lemma entries_quiet:
  assumes "w_ok w" "w_faults w = []" "dir_at (w_fs w) ps"
  shows "entries_of fmt (apath ps) w = (Inr (sort (children (w_fs w) ps)), w)"
  using ReadDir_quiet(1) [OF assms(1,2)] assms(3) by (auto simp: entries_of_def dir_at_def)

text \<open>What \<open>Do\<close> and \<open>Undo\<close> achieve when no call is refused.\<close>

lemma motd_Do_ok:
  assumes "w_ok w" "w_faults w = []" "dir_at (w_fs w) motd_path" "dpath (w_fs w) bak_path"
    and "\<And>n. free_or_file (w_fs w) (motd_path @ [n])" "\<And>n. lookup (w_fs w) (bak_path @ [n]) = None"
  obtains w1 where "motd_Do w = (None, w1)" "w_ok w1" "w_faults w1 = []" "dir_at (w_fs w1) motd_path" "dir_at (w_fs w1) bak_path"
    "\<And>n. lookup (w_fs w1) (motd_path @ [n]) = None"
    "\<And>n. content (w_fs w1) (bak_path @ [n]) = content (w_fs w) (motd_path @ [n])"
    "\<And>n. free_or_file (w_fs w1) (bak_path @ [n])"
proof -
  let ?f = "w_fs w"
  obtain e w0 where mk: "MkdirAll (apath bak_path) 0x1ED w = (e, w0)" by fastforce
  note q = MkdirAll_quiet [OF assms(1,4,2) mk]
  have same: "lookup (w_fs w0) (motd_path @ s) = lookup ?f (motd_path @ s)" for s
    using q(5) [of "motd_path @ s"] assms(3) by (auto simp: prefix_def motd_path_def bak_path_def)
  have bak0: "lookup (w_fs w0) (bak_path @ [n]) = None" for n
    using q(5) [of "bak_path @ [n]"] assms(6) by (auto dest: prefix_length_le)
  have d0: "dir_at (w_fs w0) motd_path" using assms(3) same [of "[]"] by (simp add: dir_at_def)
  have wf0: "wf_fs (w_fs w0)" using q(2) by (simp add: w_ok_def)
  define ns where "ns = sort (children (w_fs w0) motd_path)"
  have ns: "distinct ns" "list_all name_ok ns" "set ns = {n. lookup ?f (motd_path @ [n]) \<noteq> None}"
    using distinct_children [OF wf0] children_names [OF wf0, of motd_path] set_children [of "w_fs w0" motd_path] same
    by (auto simp: ns_def list_all_iff)
  have "content (w_fs w0) (motd_path @ [n]) \<noteq> None \<and> free_or_file (w_fs w0) (bak_path @ [n])" if "n \<in> set ns" for n
    using that ns(3) assms(5) [of n] same bak0 by (auto simp: free_or_file_def content_def)
  from backup_loop_ok [OF ns(1,2) q(2,3,4) this] obtain w1 where bl: "backup_loop ns w0 = (None, w1)"
    "\<forall>n \<in> set ns. content (w_fs w1) (bak_path @ [n]) = content (w_fs w0) (motd_path @ [n]) \<and> lookup (w_fs w1) (motd_path @ [n]) = None"
    "\<forall>q. (\<forall>n \<in> set ns. q \<noteq> bak_path @ [n] \<and> q \<noteq> motd_path @ [n]) \<longrightarrow> lookup (w_fs w1) q = lookup (w_fs w0) q" by blast
  have eq: "motd_Do w = (None, w1)"
    using mk q(1) entries_quiet [OF q(2,3) d0] bl(1) by (simp add: motd_Do_def motd_paths ns_def)
  have ok1: "w_ok w1" "w_faults w1 = []"
    using evo.R_motd_Do [of w] assms(1,2) eq by (auto dest: evolves_ok evolves_keeps)
  have gone: "lookup (w_fs w1) (motd_path @ [n]) = None" for n
    using bl(2) bl(3) [rule_format, of "motd_path @ [n]"] same [of "[n]"] ns(3) by (cases "n \<in> set ns") auto
  have bak1: "lookup (w_fs w1) (bak_path @ [n]) = None" if "n \<notin> set ns" for n
    using that bl(3) [rule_format, of "bak_path @ [n]"] bak0 by auto
  have kept: "content (w_fs w1) (bak_path @ [n]) = content ?f (motd_path @ [n])" for n
    using bl(2) same [of "[n]"] bak1 [of n] ns(3) by (cases "n \<in> set ns") (auto simp: content_def)
  have "content (w_fs w1) (bak_path @ [n]) \<noteq> None" if "n \<in> set ns" for n
    using that kept [of n] ns(3) assms(5) [of n] by (auto simp: free_or_file_def content_def)
  then have "free_or_file (w_fs w1) (bak_path @ [n])" for n using bak1 [of n] by (auto simp: free_or_file_def)
  moreover have "\<forall>n \<in> set ns. bak_path \<noteq> bak_path @ [n] \<and> bak_path \<noteq> motd_path @ [n]"
    "\<forall>n \<in> set ns. motd_path \<noteq> bak_path @ [n] \<and> motd_path \<noteq> motd_path @ [n]" by simp_all
  then have "lookup (w_fs w1) bak_path = lookup (w_fs w0) bak_path" "lookup (w_fs w1) motd_path = lookup (w_fs w0) motd_path"
    using bl(3) by blast+
  then have "dir_at (w_fs w1) motd_path" "dir_at (w_fs w1) bak_path" using q(4) d0 by (simp_all add: dir_at_def)
  ultimately show ?thesis using that eq ok1 gone kept by blast
qed

lemma motd_Undo_ok:
  assumes "w_ok w" "w_faults w = []" "dir_at (w_fs w) motd_path" "dir_at (w_fs w) bak_path"
    and "\<And>n. lookup (w_fs w) (motd_path @ [n]) = None" "\<And>n. free_or_file (w_fs w) (bak_path @ [n])"
  obtains w' where "motd_Undo w = (None, w')"
    "\<And>n. content (w_fs w') (motd_path @ [n]) = content (w_fs w) (bak_path @ [n])"
proof -
  have wf: "wf_fs (w_fs w)" using assms(1) by (simp add: w_ok_def)
  define ks where "ks = sort (children (w_fs w) bak_path)"
  have ks: "distinct ks" "list_all name_ok ks" "set ks = {n. lookup (w_fs w) (bak_path @ [n]) \<noteq> None}"
    using distinct_children [OF wf] children_names [OF wf, of bak_path] set_children [of "w_fs w" bak_path]
    by (auto simp: ks_def list_all_iff)
  have "content (w_fs w) (bak_path @ [n]) \<noteq> None \<and> free_or_file (w_fs w) (motd_path @ [n])" if "n \<in> set ks" for n
    using that ks(3) assms(5,6) [of n] by (auto simp: free_or_file_def)
  from restore_loop_ok [OF ks(1,2) assms(1-3) this] obtain w' where
    rl: "restore_loop ks w = (None, w')" "copied bak_path motd_path (set ks) (w_fs w) (w_fs w')" by blast
  have "content (w_fs w') (motd_path @ [n]) = content (w_fs w) (bak_path @ [n])" for n
  proof (cases "n \<in> set ks")
    case True
    then show ?thesis using rl(2) by (simp add: copied_def)
  next
    case False
    then have "lookup (w_fs w') (motd_path @ [n]) = None"
      using rl(2) [unfolded copied_def, THEN conjunct2, rule_format, of "motd_path @ [n]"] assms(5) by auto
    then show ?thesis using False ks(3) by (simp add: content_def)
  qed
  moreover have "motd_Undo w = (None, w')"
    using entries_quiet [OF assms(1,2,4)] rl(1) by (simp add: motd_Undo_def motd_paths ks_def)
  ultimately show ?thesis using that by blast
qed

section \<open>Properties\<close>


definition motd_world :: world where
  "motd_world = demo_world\<lparr>w_fs := [([''etc''], DirN 0x1ED), ([''etc'', ''update-motd.d''], DirN 0x1ED),
     ([''etc'', ''update-motd.d'', ''00-header''], FileN 0x1ED ''echo hi''), ([''var''], DirN 0x1ED)]\<rparr>"


end
