(* ===== verification/Update.thy ===== *)
theory Update
  imports Spdk Services Decompress Grub Motd
begin

text \<open>
  Model of \<open>src/internal/run/run.go\<close>: the two update procedures that put the components together.
  Everything the program calls outside the repository is one record, \<open>platform\<close>: external
  commands, starting a process, the Unicode case tables, the order of map iteration, the archive
  readers, and the two embedded files.
\<close>

section \<open>Definitions\<close>

record platform =
  p_ex :: commands
  p_start :: starter
  p_lower :: "rune \<Rightarrow> rune"
  p_fold :: "rune \<Rightarrow> rune"
  p_order :: "string list \<Rightarrow> string list"
  p_unpack :: "bytes \<Rightarrow> archive"
  p_resources :: bytes
  p_hash :: bytes

text \<open>Sequencing of calls that may end the process, and \<open>defer\<close>, which an exit does not run.\<close>

definition obind :: "'a outcome \<times> world \<Rightarrow> ('a \<Rightarrow> world \<Rightarrow> 'b outcome \<times> world) \<Rightarrow> 'b outcome \<times> world" where
  "obind r k =
     (case r of (Return x, w) \<Rightarrow> k x w | (Exit c, w) \<Rightarrow> (Exit c, w) | (Crash, w) \<Rightarrow> (Crash, w))"

definition deferred :: "(world \<Rightarrow> world) \<Rightarrow> 'a outcome \<times> world \<Rightarrow> 'a outcome \<times> world" where
  "deferred f r = (case r of (Exit c, w) \<Rightarrow> (Exit c, w) | (x, w) \<Rightarrow> (x, f w))"

text \<open>Turning a result into an outcome, with the caller's wrapping of the error.\<close>

definition wrap :: "string \<Rightarrow> error option \<Rightarrow> error option" where
  "wrap fmt e = map_option (\<lambda>e. Errorf fmt [] (Some e)) e"

definition tmpDir :: string where "tmpDir = ''/tmp/mimo-output''"
definition configFile :: string where "configFile = ''config.json''"

section \<open>Package dependencies\<close>

definition quoted :: "string \<Rightarrow> string" where
  "quoted s = CHR 0x27 # s @ [CHR 0x27]"

fun first_present :: "string list \<Rightarrow> world \<Rightarrow> string \<times> world" where
  "first_present [] w = ([], w)"
| "first_present (p # ps) w =
     (case Stat (Clean p) w of (Inr _, w1) \<Rightarrow> (Clean p, w1) | (Inl _, w1) \<Rightarrow> first_present ps w1)"

definition RunPkgDep :: "platform \<Rightarrow> world \<Rightarrow> unit outcome \<times> world" where
  "RunPkgDep p w =
     obind (EnsureMimoRoot w) (\<lambda>mimoRoot w1.
       let candidates = [Join [tmpDir, ''file'', ''SPDK_for_MIMO'', ''scripts'', ''pkgdep.sh''],
                         Join [mimoRoot, ''scripts'', ''pkgdep.sh'']] in
       case first_present candidates w1 of
         (script, w2) \<Rightarrow>
           if script = [] then (Return (), println ''WARN: dependency script not found, skipping'' w2)
           else
             (let w3 = println (''INFO: running '' @ quoted ''sudo apt update'' @ ''...'') w2;
                  w4 = (case cmd_Run (p_ex p) [''sudo'', ''apt'', ''update''] w3 of
                          (Some e, w4) \<Rightarrow> printf (''WARN: '' @ quoted ''apt update'' @ '' failed: %v'') [] (Some e) w4
                        | (None, w4) \<Rightarrow> println (''INFO: '' @ quoted ''apt update'' @ '' completed'') w4);
                  w5 = println ''INFO: installing package dependencies; this may take some time...'' w4
              in (Return (),
                  case cmd_Run (p_ex p) [''bash'', script] w5 of
                    (Some e, w6) \<Rightarrow> printf ''WARN: dependency installation failed: %v'' [] (Some e) w6
                  | (None, w6) \<Rightarrow> println ''INFO: dependencies installed'' w6)))"

section \<open>The transaction\<close>

definition RunTransaction :: "platform \<Rightarrow> Config option \<Rightarrow> world \<Rightarrow> error option \<times> world" where
  "RunTransaction p cfg w =
     (case RegisterMOTDActions (Some New) of
        (Some e, txn) \<Rightarrow> (wrap ''setup MOTD actions failed: %w'' (Some e), w)
      | (None, txn) \<Rightarrow>
          (case RegisterCopyActions txn cfg of
             (Some e, txn) \<Rightarrow> (wrap ''setup file copy actions failed: %w'' (Some e), w)
           | (None, txn) \<Rightarrow>
               (case RegisterGrubAndInitActions (p_ex p) txn w of
                  (Some e, txn, w1) \<Rightarrow> (wrap ''setup GRUB actions failed: %w'' (Some e), w1)
                | (None, None, w1) \<Rightarrow> (Some NilDeref, w1)
                | (None, Some txn, w1) \<Rightarrow>
                    (case Run txn w1 of (e, txn', w2) \<Rightarrow> (wrap ''executing update actions failed: %w'' e, w2)))))"

section \<open>The system update\<close>

definition extractAndVerify :: "platform \<Rightarrow> string \<Rightarrow> world \<Rightarrow> error option outcome \<times> world" where
  "extractAndVerify p dir w =
     (case ExtractResources (p_unpack p (p_resources p)) dir w of
        (Some e, w1) \<Rightarrow> (Return (wrap ''extracting resources failed: %w'' (Some e)), w1)
      | (None, w1) \<Rightarrow>
          obind (VerifyHash (p_fold p) (p_resources p) (p_hash p) w1) (\<lambda>ok w2.
            if \<not> ok then (Return (Some (Errorf ''resource verification failed'' [] None)), w2)
            else (Return None, w2)))"

definition remove_tmp :: "world \<Rightarrow> world" where
  "remove_tmp w = snd (RemoveAll (Clean tmpDir) w)"

text \<open>The part of \<open>RunUpdate\<close> after the deferred removal is set up.\<close>

definition update_body :: "platform \<Rightarrow> world \<Rightarrow> error option outcome \<times> world" where
  "update_body p w =
     obind (extractAndVerify p (Clean tmpDir) w) (\<lambda>e w1.
       case e of
         Some e \<Rightarrow> (Return (Some e), w1)
       | None \<Rightarrow>
           obind (RunPkgDep p w1) (\<lambda>_ w2.
           obind (LoadFileOpsConfig (p_fold p) (Join [Clean tmpDir, configFile]) w2) (\<lambda>cfg w3.
             case RunTransaction p (Some cfg) w3 of
               (Some e, w4) \<Rightarrow> (Return (wrap ''executing transaction failed: %w'' (Some e)), w4)
             | (None, w4) \<Rightarrow>
                 (case EnableServices (p_ex p) (p_lower p) (p_order p) (Some cfg) w4 of
                    (Some e, w5) \<Rightarrow> (Return (wrap ''enabling system services failed: %w'' (Some e)), w5)
                  | (None, w5) \<Rightarrow>
                      (case DisableCloudInit (p_ex p) w5 of
                         (e, w6) \<Rightarrow> (Return (wrap ''disabling cloud-init failed: %w'' e), w6))))))"

definition RunUpdate :: "platform \<Rightarrow> world \<Rightarrow> error option outcome \<times> world" where
  "RunUpdate p w =
     obind (MustBeRoot w) (\<lambda>_ w1.
     obind (EnsureMimoRoot w1) (\<lambda>_ w2.
     deferred remove_tmp (update_body p w2)))"

section \<open>The target update\<close>

text \<open>The loop that replaces each target by its source.\<close>

fun apply_mappings :: "FileMapping list \<Rightarrow> world \<Rightarrow> error option \<times> world" where
  "apply_mappings [] w = (None, w)"
| "apply_mappings (m # ms) w =
     (let srcPath = Src m; dstPath = Dst m in
      case Stat srcPath w of
        (Inl e, w1) \<Rightarrow> (Some (Errorf ''source missing %s: %w'' [srcPath] (Some e)), w1)
      | (Inr fi, w1) \<Rightarrow>
          (case RemoveAll dstPath w1 of
             (Some e, w2) \<Rightarrow> (Some (Errorf ''failed to remove old target %s: %w'' [dstPath] (Some e)), w2)
           | (None, w2) \<Rightarrow>
               if is_dir fi then
                 (case CopyDir srcPath dstPath w2 of
                    (Some e, w3) \<Rightarrow>
                      (Some (Errorf ''failed to copy directory %s -> %s: %w'' [srcPath, dstPath] (Some e)), w3)
                  | (None, w3) \<Rightarrow> apply_mappings ms w3)
               else
                 (case CopyFile srcPath dstPath w2 of
                    (Some e, w3) \<Rightarrow>
                      (Some (Errorf ''failed to copy file %s -> %s: %w'' [srcPath, dstPath] (Some e)), w3)
                  | (None, w3) \<Rightarrow> apply_mappings ms w3)))"

text \<open>
  Stopping the running instance: either go on (\<open>Inr\<close>, with the captured command line) or return
  from the update (\<open>Inl\<close>).
\<close>

definition stop_mimo :: "platform \<Rightarrow> string \<Rightarrow> world \<Rightarrow> (error option + string) outcome \<times> world" where
  "stop_mimo p orig w =
     (case Stat (Clean SPDKSock) w of
        (Inr _, w1) \<Rightarrow>
          (case ConfirmPrompt (p_lower p) ''Stop MIMO now? [y/N]: '' (println ''INFO: detected running MIMO instance'' w1) of
             (True, w2) \<Rightarrow>
               (case SaveSpdkConfigAndGetCommand (p_ex p) orig w2 of
                  (Return (Some e), orig1, w3) \<Rightarrow> (Return (Inl (wrap ''failed to save SPDK config: %w'' (Some e))), w3)
                | (Return None, orig1, w3) \<Rightarrow> (Return (Inr orig1), println ''INFO: MIMO stopped'' w3)
                | (Exit c, orig1, w3) \<Rightarrow> (Exit c, w3)
                | (Crash, orig1, w3) \<Rightarrow> (Crash, w3))
           | (False, w2) \<Rightarrow> (Return (Inl None), println ''INFO: please stop I/O before updating'' w2))
      | (Inl e, w1) \<Rightarrow>
          if \<not> IsNotExist e then (Return (Inl (wrap ''failed to check socket: %w'' (Some e))), w1)
          else (Return (Inr orig), w1))"

definition replace_files :: "platform \<Rightarrow> string \<Rightarrow> world \<Rightarrow> error option outcome \<times> world" where
  "replace_files p orig w =
     obind (LoadFileOpsConfig (p_fold p) (Join [Clean tmpDir, configFile]) (println ''INFO: applying file mappings...'' w))
       (\<lambda>cfg w1.
         case apply_mappings (FileMappings cfg) w1 of
           (Some e, w2) \<Rightarrow> (Return (Some e), w2)
         | (None, w2) \<Rightarrow>
             obind (RestartSpdkWithSavedConfig (p_start p) orig w2) (\<lambda>e w3.
               (Return (wrap ''failed to restart SPDK: %w'' e), w3)))"

definition tgt_body :: "platform \<Rightarrow> string \<Rightarrow> world \<Rightarrow> error option outcome \<times> world" where
  "tgt_body p orig w =
     obind (extractAndVerify p (Clean tmpDir) (println ''INFO: extracting package...'' w)) (\<lambda>e w1.
       case e of
         Some e \<Rightarrow> (Return (Some e), w1)
       | None \<Rightarrow>
           obind (LoadVersionConfig (p_fold p) (Join [Clean tmpDir, configFile]) w1) (\<lambda>cfg w2.
           obind (ReadMimoVersion (p_fold p) (VDst (Version cfg ! 1)) w2) (\<lambda>oldVer w3.
           obind (ReadMimoVersion (p_fold p) (VSrc (Version cfg ! 0)) w3) (\<lambda>newVer w4.
             case ConfirmPrompt (p_lower p) ''Proceed with update? [y/N]: ''
                    (printf ''INFO: new version      : %s'' [newVer] None
                      (printf ''INFO: installed version: %s'' [oldVer] None w4)) of
               (False, w5) \<Rightarrow> (Return None, println ''INFO: update cancelled'' w5)
             | (True, w5) \<Rightarrow>
                 obind (stop_mimo p orig w5) (\<lambda>r w6.
                   case r of Inl e \<Rightarrow> (Return e, w6) | Inr orig1 \<Rightarrow> replace_files p orig1 w6)))))"

definition RuntgtUpdate :: "platform \<Rightarrow> string \<Rightarrow> world \<Rightarrow> error option outcome \<times> world" where
  "RuntgtUpdate p orig w =
     obind (MustBeRoot w) (\<lambda>_ w1.
     obind (EnsureMimoRoot w1) (\<lambda>_ w2.
     deferred remove_tmp (tgt_body p orig w2)))"

end
