(* ===== verification/Cli.thy ===== *)
theory Cli
  imports Update
begin

text \<open>
  Models of \<open>src/cmd/root.go\<close>, \<open>src/cmd/update.go\<close>, \<open>src/rpclient/rpc/bdev.go\<close> and \<open>src/main.go\<close>: the
  command tree and the functions it runs. The libraries behind it are not part of the
  repository: cobra and pflag (parsing of the command line, which hands a function its flag
  values and arguments), the RPC client and the block-device service. What the program asks of
  the service is a value of \<open>request\<close>; the answer is an argument.
\<close>

section \<open>Commands and flags\<close>

record flag =
  fName :: string
  fShorthand :: string
  fUsage :: string
  fDefValue :: string

text \<open>\<open>cArgs\<close> is the number of \<open>cobra.ExactArgs\<close>, \<open>cRequired\<close> the flags marked as required.\<close>

record command =
  cName :: string
  cAliases :: "string list"
  cShort :: string
  cLong :: string
  cArgs :: "nat option"
  cFlags :: "flag list"
  cRequired :: "string list"

definition RootCmd :: command where
  "RootCmd =
     \<lparr>cName = ''mimo'', cAliases = [], cShort = ''MIMO Storage CLI'',
      cLong = ''MIMO Storage '' @ [CHR 0xE6, CHR 0x98, CHR 0xAF, CHR 0xE4, CHR 0xB8, CHR 0x80, CHR 0xE4,
        CHR 0xB8, CHR 0xAA, CHR 0xE7, CHR 0x94, CHR 0xA8, CHR 0xE4, CHR 0xBA, CHR 0x8E, CHR 0xE7, CHR 0xAE,
        CHR 0xA1, CHR 0xE7, CHR 0x90, CHR 0x86, CHR 0xE9, CHR 0xAB, CHR 0x98, CHR 0xE6, CHR 0x80, CHR 0xA7,
        CHR 0xE8, CHR 0x83, CHR 0xBD, CHR 0xE5, CHR 0xAD, CHR 0x98, CHR 0xE5, CHR 0x82, CHR 0xA8, CHR 0xE7,
        CHR 0xB3, CHR 0xBB, CHR 0xE7, CHR 0xBB, CHR 0x9F, CHR 0xE7, CHR 0x9A, CHR 0x84, CHR 0xE5, CHR 0x91,
        CHR 0xBD, CHR 0xE4, CHR 0xBB, CHR 0xA4, CHR 0xE8, CHR 0xA1, CHR 0x8C, CHR 0xE5, CHR 0xB7, CHR 0xA5,
        CHR 0xE5, CHR 0x85, CHR 0xB7, CHR 0xE3, CHR 0x80, CHR 0x82],
      cArgs = None,
      cFlags = [\<lparr>fName = ''socket'', fShorthand = [], fUsage = ''RPC socket address (default: /var/tmp/mimo.sock)'', fDefValue = []\<rparr>],
      cRequired = []\<rparr>"

definition completionCmd :: command where
  "completionCmd =
     \<lparr>cName = ''completion'', cAliases = [], cShort = ''Generate shell completion scripts'',
      cLong = ''Generate the autocompletion script for bash, zsh, fish, or powershell.'',
      cArgs = Some 1,
      cFlags = [],
      cRequired = []\<rparr>"

definition updateCmd :: command where
  "updateCmd =
     \<lparr>cName = ''update'', cAliases = [], cShort = ''MIMO system updater'',
      cLong = [CHR 0xE6, CHR 0x89, CHR 0xA7, CHR 0xE8, CHR 0xA1, CHR 0x8C, CHR 0xE7, CHR 0xB3, CHR 0xBB,
        CHR 0xE7, CHR 0xBB, CHR 0x9F, CHR 0xE8, CHR 0xB5, CHR 0x84, CHR 0xE6, CHR 0xBA, CHR 0x90, CHR 0xE6,
        CHR 0x88, CHR 0x96, CHR 0xE7, CHR 0x9B, CHR 0xAE, CHR 0xE6, CHR 0xA0, CHR 0x87, CHR 0xE6, CHR 0x9B,
        CHR 0xB4, CHR 0xE6, CHR 0x96, CHR 0xB0, CHR 0xEF, CHR 0xBC, CHR 0x8C, CHR 0xE5, CHR 0x8F, CHR 0xAF,
        CHR 0xE9, CHR 0x80, CHR 0x89, CHR 0xE6, CHR 0x8B, CHR 0xA9] @ '' --sys '' @ [CHR 0xE6, CHR 0x88,
        CHR 0x96] @ '' --target'',
      cArgs = None,
      cFlags = [\<lparr>fName = ''sys'', fShorthand = [], fUsage = [CHR 0xE6, CHR 0x89, CHR 0xA7, CHR 0xE8, CHR 0xA1, CHR 0x8C, CHR 0xE7, CHR 0xB3, CHR 0xBB,
        CHR 0xE7, CHR 0xBB, CHR 0x9F, CHR 0xE6, CHR 0x9B, CHR 0xB4, CHR 0xE6, CHR 0x96, CHR 0xB0], fDefValue = ''false''\<rparr>,
        \<lparr>fName = ''target'', fShorthand = [], fUsage = [CHR 0xE6, CHR 0x89, CHR 0xA7, CHR 0xE8, CHR 0xA1, CHR 0x8C] @ ''target'' @ [CHR 0xE6, CHR 0x9B,
        CHR 0xB4, CHR 0xE6, CHR 0x96, CHR 0xB0], fDefValue = ''false''\<rparr>],
      cRequired = []\<rparr>"

definition bdevGetBdevsCmd :: command where
  "bdevGetBdevsCmd =
     \<lparr>cName = ''bdev_get_bdevs'', cAliases = [], cShort = ''List or query SPDK block devices.'',
      cLong = ''If no parameters are given, all block devices are listed.'' @ [CHR 0x0A] @ ''If a name is given,
        only that bdev is returned.'' @ [CHR 0x0A] @ ''With a nonzero timeout,
        waits until the bdev appears or the timeout expires.'',
      cArgs = None,
      cFlags = [\<lparr>fName = ''bdev'', fShorthand = ''b'', fUsage = ''bdev name (optional)'', fDefValue = []\<rparr>,
        \<lparr>fName = ''timeout'', fShorthand = ''t'', fUsage = ''timeout in seconds (optional, default: 0)'', fDefValue = ''0''\<rparr>],
      cRequired = []\<rparr>"

definition bdevNvmeAttachControllerCmd :: command where
  "bdevNvmeAttachControllerCmd =
     \<lparr>cName = ''bdev_nvme_attach_controller'', cAliases = [], cShort = ''Attach a local PCIe NVMe controller.'',
      cLong = ''Attach a local PCIe NVMe controller to the system using its PCIe address.'',
      cArgs = None,
      cFlags = [\<lparr>fName = ''name'', fShorthand = ''b'', fUsage = ''Name of the NVMe controller (required)'', fDefValue = []\<rparr>,
        \<lparr>fName = ''trtype'', fShorthand = ''t'', fUsage = ''Transport type: e.g., rdma, pcie (required)'', fDefValue = []\<rparr>,
        \<lparr>fName = ''traddr'', fShorthand = ''a'', fUsage = ''Transport address: e.g., an ip address or BDF (required)'', fDefValue = []\<rparr>],
      cRequired = [''name'', ''trtype'', ''traddr'']\<rparr>"

definition bdevMallocCreateCmd :: command where
  "bdevMallocCreateCmd =
     \<lparr>cName = ''bdev_malloc_create'', cAliases = [], cShort = ''Create a malloc bdev'',
      cLong = ''Create a malloc bdev with specified total size (MB) and block size (bytes).'',
      cArgs = None,
      cFlags = [\<lparr>fName = ''bdev'', fShorthand = ''b'', fUsage = ''Name of the malloc bdev (optional)'', fDefValue = []\<rparr>,
        \<lparr>fName = ''uuid'', fShorthand = ''u'', fUsage = ''UUID of the malloc bdev (optional)'', fDefValue = []\<rparr>,
        \<lparr>fName = ''size'', fShorthand = ''s'', fUsage = ''Total size of malloc bdev in MB (required)'', fDefValue = ''0''\<rparr>,
        \<lparr>fName = ''block'', fShorthand = ''z'', fUsage = ''Block size in bytes (required)'', fDefValue = ''0''\<rparr>],
      cRequired = [''size'', ''block'']\<rparr>"

definition bdevRaidCreateCmd :: command where
  "bdevRaidCreateCmd =
     \<lparr>cName = ''bdev_raid_create'', cAliases = [], cShort = ''Create a RAID bdev'',
      cLong = ''Construct a new RAID bdev from base bdevs with specified RAID level and optional strip size.'',
      cArgs = None,
      cFlags = [\<lparr>fName = ''name'', fShorthand = ''n'', fUsage = ''RAID bdev name (required)'', fDefValue = []\<rparr>,
        \<lparr>fName = ''raid-level'', fShorthand = ''r'', fUsage = ''RAID level: raid0, raid1, raid10 (or 10), concat (required)'', fDefValue = []\<rparr>,
        \<lparr>fName = ''base-bdevs'', fShorthand = ''b'', fUsage = ''Base bdevs, whitespace separated list in quotes (required)'', fDefValue = []\<rparr>,
        \<lparr>fName = ''strip-size-kb'', fShorthand = ''z'', fUsage = ''Strip size in KB (optional)'', fDefValue = ''0''\<rparr>,
        \<lparr>fName = ''uuid'', fShorthand = [], fUsage = ''UUID for this RAID bdev (optional)'', fDefValue = []\<rparr>,
        \<lparr>fName = ''superblock'', fShorthand = ''s'', fUsage = ''Store RAID info in superblock on each base bdev (default: false)'', fDefValue = ''false''\<rparr>],
      cRequired = [''name'', ''raid-level'', ''base-bdevs'']\<rparr>"

definition bdevNvmeDetachControllerCmd :: command where
  "bdevNvmeDetachControllerCmd =
     \<lparr>cName = ''bdev_nvme_detach_controller'', cAliases = [], cShort = ''Detach an NVMe controller and delete any associated bdevs'',
      cLong = ''Detach an NVMe controller and delete any associated bdevs.'',
      cArgs = Some 1,
      cFlags = [\<lparr>fName = ''trtype'', fShorthand = ''t'', fUsage = ''NVMe-oF target trtype: e.g., rdma, pcie'', fDefValue = []\<rparr>,
        \<lparr>fName = ''traddr'', fShorthand = ''a'', fUsage = ''NVMe-oF target address: e.g., an ip address or BDF'', fDefValue = []\<rparr>],
      cRequired = []\<rparr>"

definition bdevMallocDeleteCmd :: command where
  "bdevMallocDeleteCmd =
     \<lparr>cName = ''bdev_malloc_delete'', cAliases = [], cShort = ''Delete a malloc bdev'',
      cLong = ''Delete a malloc bdev.'',
      cArgs = Some 1,
      cFlags = [],
      cRequired = []\<rparr>"

definition bdevRaidDeleteCmd :: command where
  "bdevRaidDeleteCmd =
     \<lparr>cName = ''bdev_raid_delete'', cAliases = [], cShort = ''Delete existing RAID bdev'',
      cLong = ''Delete existing RAID bdev.'',
      cArgs = Some 1,
      cFlags = [],
      cRequired = []\<rparr>"

definition bdevRaidAddBaseBdevCmd :: command where
  "bdevRaidAddBaseBdevCmd =
     \<lparr>cName = ''bdev_raid_add_base_bdev'', cAliases = [], cShort = ''Add base bdev to existing RAID bdev'',
      cLong = ''Add base bdev to existing RAID bdev.'',
      cArgs = Some 2,
      cFlags = [],
      cRequired = []\<rparr>"

definition bdevRaidRemoveBaseBdevCmd :: command where
  "bdevRaidRemoveBaseBdevCmd =
     \<lparr>cName = ''bdev_raid_remove_base_bdev'', cAliases = [], cShort = ''Remove base bdev from existing RAID bdev'',
      cLong = ''Remove base bdev from existing RAID bdev.'',
      cArgs = Some 1,
      cFlags = [],
      cRequired = []\<rparr>"

definition bdevWipeSuperblockCmd :: command where
  "bdevWipeSuperblockCmd =
     \<lparr>cName = ''bdev_wipe_superblock'', cAliases = [], cShort = ''Wipe superblock area of a bdev'',
      cLong = ''Wipe superblock area (first N bytes) of a bdev. Default size is 1MB.'',
      cArgs = Some 1,
      cFlags = [\<lparr>fName = ''size'', fShorthand = ''s'', fUsage = ''Size in bytes to wipe (default: 1MB)'', fDefValue = ''0''\<rparr>],
      cRequired = []\<rparr>"

text \<open>The children that the \<open>init\<close> functions add to the root command.\<close>

definition rpc_commands :: "command list" where
  "rpc_commands =
     [bdevGetBdevsCmd, bdevNvmeAttachControllerCmd, bdevNvmeDetachControllerCmd, bdevMallocCreateCmd,
      bdevMallocDeleteCmd, bdevRaidCreateCmd, bdevRaidDeleteCmd, bdevRaidAddBaseBdevCmd,
      bdevRaidRemoveBaseBdevCmd, bdevWipeSuperblockCmd]"

definition root_children :: "command list" where
  "root_children = [completionCmd, updateCmd] @ rpc_commands"

section \<open>The root command\<close>

fun isRegisteredCommand :: "command list \<Rightarrow> string list \<Rightarrow> bool" where
  "isRegisteredCommand commands [] = True"
| "isRegisteredCommand commands (a # args) =
     list_ex (\<lambda>c. cName c = a \<or> list_ex (\<lambda>alias. alias = a) (cAliases c)) commands"

text \<open>
  \<open>PersistentPreRunE\<close> of the command that is run, with its own children and arguments. The RPC
  client is an argument: whether it can be set up for the address set before, if any. The
  result is the error and the address in use.
\<close>

definition skip_rpc :: "string list" where
  "skip_rpc = [''completion'', ''help'', ''update'']"

definition PersistentPreRunE :: "(string option \<Rightarrow> error option) \<Rightarrow> string \<Rightarrow> command \<Rightarrow> command list \<Rightarrow> string list
    \<Rightarrow> string option \<Rightarrow> error option \<times> string option" where
  "PersistentPreRunE GetClient socketAddr cmd subs args addr =
     (if cName cmd \<in> set skip_rpc then (None, addr)
      else
        let addr = (if socketAddr \<noteq> [] then Some socketAddr else addr) in
        if isRegisteredCommand subs args then (GetClient addr, addr) else (None, addr))"

section \<open>Help\<close>

text \<open>\<open>%-15s\<close> pads to fifteen runes.\<close>

definition pad15 :: "string \<Rightarrow> string" where
  "pad15 s = s @ replicate (15 - length (range s)) (CHR 0x20)"

definition flag_line :: "flag \<Rightarrow> string" where
  "flag_line f =
     (let shorthand = (if fShorthand f \<noteq> [] then ''-'' @ fShorthand f @ '', '' else []);
          dflt = (if fDefValue f \<noteq> [] then '' (default '' @ fDefValue f @ '')'' else [])
      in ''  '' @ shorthand @ ''--'' @ fName f @ '' '' @ fUsage f @ dflt)"

definition printFlags :: "flag list \<Rightarrow> string \<Rightarrow> world \<Rightarrow> world" where
  "printFlags flags title w =
     (if flags \<noteq> [] then foldl (\<lambda>w f. println (flag_line f) w) (println (title @ '':'') (println [] w)) flags
      else w)"

definition printHelp :: "command \<Rightarrow> command list \<Rightarrow> world \<Rightarrow> world" where
  "printHelp cmd subs w =
     (let w1 = println [] (println (''  '' @ cName cmd @ '' [command]'') (println ''Usage:'' (println [] (println (cLong cmd) w))));
          w2 = (if subs \<noteq> []
                then foldl (\<lambda>w c. println (''  '' @ pad15 (cName c) @ '' '' @ cShort c) w) (println ''Available Commands:'' w1) subs
                else w1)
      in printFlags (cFlags cmd) ''Flags'' w2)"

section \<open>Completion and update\<close>

datatype shell = Bash | Zsh | Fish bool | PowerShell

text \<open>The generators belong to cobra; \<open>gen\<close> writes the script for a shell. \<open>None\<close> is a panic.\<close>

definition completion_RunE :: "(shell \<Rightarrow> world \<Rightarrow> error option \<times> world) \<Rightarrow> string list \<Rightarrow> world \<Rightarrow> (error option \<times> world) option" where
  "completion_RunE gen args w =
     (case args of
        [] \<Rightarrow> None
      | a # _ \<Rightarrow>
          Some (if a = ''bash'' then gen Bash w
                else if a = ''zsh'' then gen Zsh w
                else if a = ''fish'' then gen (Fish True) w
                else if a = ''powershell'' then gen PowerShell w
                else (Some (Errorf ''unsupported shell type: %s'' [a] None), w)))"

definition update_RunE :: "platform \<Rightarrow> bool \<Rightarrow> bool \<Rightarrow> world \<Rightarrow> error option outcome \<times> world" where
  "update_RunE p sysFlag tgtFlag w =
     (if \<not> sysFlag \<and> \<not> tgtFlag then
        (Return (Some (Errorf ''specify one of the options: --sys or --target'' [] None)), w)
      else if sysFlag then RunUpdate p w
      else if tgtFlag then RuntgtUpdate p [] w
      else (Return None, w))"

text \<open>\<open>Execute\<close> and \<open>main\<close>, from what running the root command gives.\<close>

definition Execute :: "error option outcome \<times> world \<Rightarrow> unit outcome \<times> world" where
  "Execute r = obind r (\<lambda>e w.
     case e of Some e \<Rightarrow> (Exit 1, printf ''Error:'' [] (Some e) w) | None \<Rightarrow> (Return (), w))"

section \<open>Block devices\<close>

text \<open>A \<open>float64\<close> is its bit pattern, an \<open>int\<close> has 64 bits.\<close>

type_synonym float64 = "64 word"

datatype request =
    GetBdevs string int
  | AttachNvmeController string string string
  | CreateMallocBdev string string float64 int
  | CreateRaidBdev string string "string list" int string bool
  | DetachNvmeController string string string
  | DeleteMallocBdev string
  | DeleteRaidBdev string
  | AddRaidBaseBdev string string
  | RemoveRaidBaseBdev string
  | WipeSuperblock string int

type_synonym 'r service = "string \<Rightarrow> request \<Rightarrow> error + 'r"

definition wrap64 :: "int \<Rightarrow> int" where
  "wrap64 i = (i + 2 ^ 63) mod 2 ^ 64 - 2 ^ 63"

definition printResult :: "('r \<Rightarrow> error + string) \<Rightarrow> 'r \<Rightarrow> world \<Rightarrow> error option \<times> world" where
  "printResult MarshalIndent result w =
     (case MarshalIndent result of Inl e \<Rightarrow> (Some e, w) | Inr dat \<Rightarrow> (None, println dat w))"

text \<open>The service is made for the value of the \<open>socket\<close> flag; the call and the printing of its result.\<close>

definition call_service :: "'r service \<Rightarrow> ('r \<Rightarrow> error + string) \<Rightarrow> string \<Rightarrow> request \<Rightarrow> world \<Rightarrow> error option \<times> world" where
  "call_service svc MarshalIndent socketAddr req w =
     (case svc socketAddr req of Inl e \<Rightarrow> (Some e, w) | Inr result \<Rightarrow> printResult MarshalIndent result w)"

definition bdevGetBdevs_req :: "string \<Rightarrow> int \<Rightarrow> string list \<Rightarrow> request option" where
  "bdevGetBdevs_req bdevName timeout args = Some (GetBdevs bdevName (wrap64 (timeout * 1000)))"

definition bdevNvmeAttachController_req :: "string \<Rightarrow> string \<Rightarrow> string \<Rightarrow> string list \<Rightarrow> request option" where
  "bdevNvmeAttachController_req name trtype traddr args = Some (AttachNvmeController name trtype traddr)"

definition bdevMallocCreate_req :: "string \<Rightarrow> string \<Rightarrow> float64 \<Rightarrow> int \<Rightarrow> string list \<Rightarrow> request option" where
  "bdevMallocCreate_req bdevName uuid totalSize blockSize args =
     Some (CreateMallocBdev bdevName uuid totalSize blockSize)"

definition bdevRaidCreate_req :: "string \<Rightarrow> string \<Rightarrow> string \<Rightarrow> int \<Rightarrow> string \<Rightarrow> bool \<Rightarrow> string list \<Rightarrow> request option" where
  "bdevRaidCreate_req name raidLevel baseBdevs stripSizeKB uuid superblock args =
     (let baseList = Fields baseBdevs in
      Some (CreateRaidBdev name raidLevel baseList stripSizeKB uuid superblock))"

text \<open>An index past the arguments is a panic, \<open>None\<close>.\<close>

definition arg :: "string list \<Rightarrow> nat \<Rightarrow> string option" where
  "arg args i = (if i < length args then Some (args ! i) else None)"

definition bdevNvmeDetachController_req :: "string \<Rightarrow> string \<Rightarrow> string list \<Rightarrow> request option" where
  "bdevNvmeDetachController_req trtype traddr args =
     map_option (\<lambda>name. DetachNvmeController name trtype traddr) (arg args 0)"

definition bdevMallocDelete_req :: "string list \<Rightarrow> request option" where
  "bdevMallocDelete_req args = map_option DeleteMallocBdev (arg args 0)"

definition bdevRaidDelete_req :: "string list \<Rightarrow> request option" where
  "bdevRaidDelete_req args = map_option DeleteRaidBdev (arg args 0)"

definition bdevRaidAddBaseBdev_req :: "string list \<Rightarrow> request option" where
  "bdevRaidAddBaseBdev_req args =
     (case (arg args 0, arg args 1) of (Some a, Some b) \<Rightarrow> Some (AddRaidBaseBdev a b) | _ \<Rightarrow> None)"

definition bdevRaidRemoveBaseBdev_req :: "string list \<Rightarrow> request option" where
  "bdevRaidRemoveBaseBdev_req args = map_option RemoveRaidBaseBdev (arg args 0)"

definition bdevWipeSuperblock_req :: "int \<Rightarrow> string list \<Rightarrow> request option" where
  "bdevWipeSuperblock_req sz args = map_option (\<lambda>a. WipeSuperblock a sz) (arg args 0)"

text \<open>\<open>RunE\<close> of a block-device command: make the request, call the service, print.\<close>

definition rpc_RunE :: "'r service \<Rightarrow> ('r \<Rightarrow> error + string) \<Rightarrow> string \<Rightarrow> request option \<Rightarrow> world
    \<Rightarrow> error option outcome \<times> world" where
  "rpc_RunE svc MarshalIndent socketAddr req w =
     (case req of
        None \<Rightarrow> (Crash, w)
      | Some r \<Rightarrow> (case call_service svc MarshalIndent socketAddr r w of (e, w1) \<Rightarrow> (Return e, w1)))"

section \<open>Properties\<close>

text \<open>What pflag and cobra demand of a command when it is set up; a violation panics there.\<close>

definition well_declared :: "command \<Rightarrow> bool" where
  "well_declared c \<longleftrightarrow>
     distinct (map fName (cFlags c)) \<and> distinct (filter (\<lambda>s. s \<noteq> []) (map fShorthand (cFlags c))) \<and>
     list_all (\<lambda>s. length s \<le> 1) (map fShorthand (cFlags c)) \<and>
     list_all (\<lambda>r. r \<in> set (map fName (cFlags c))) (cRequired c)"

text \<open>
  The command tree is well declared: no two children of the root share a name, within a
  command no two flags share a name or a one-letter shorthand, and every required flag exists.
\<close>

theorem commands_well_declared:
  "distinct (map cName root_children) \<and> list_all well_declared (RootCmd # root_children)"
  by code_simp

text \<open>
  Before a block-device command runs, the RPC client is set up if and only if the command is
  called without positional arguments: such a command has no children, so that
  \<open>isRegisteredCommand\<close> looks its first argument up in an empty list. The address flag is taken
  over in both cases.
\<close>

theorem rpc_client_setup:
  assumes "c \<in> set rpc_commands"
  shows "PersistentPreRunE GetClient socketAddr c [] args addr =
    (let addr' = (if socketAddr \<noteq> [] then Some socketAddr else addr) in
     (if args = [] then GetClient addr' else None, addr'))"
proof -
  have "list_all (\<lambda>c. cName c \<notin> set skip_rpc) rpc_commands" by code_simp
  with assms have "cName c \<notin> set skip_rpc" by (auto simp: list_all_iff)
  then show ?thesis by (cases args) (simp_all add: PersistentPreRunE_def Let_def)
qed

theorem rpc_client_setup_witness:
  "PersistentPreRunE (\<lambda>_. Some OutOfFuel) [] bdevMallocDeleteCmd [] [''Malloc0''] None = (None, None)"
proof -
  have "bdevMallocDeleteCmd \<in> set rpc_commands" by (simp add: rpc_commands_def)
  from rpc_client_setup [OF this, of "\<lambda>_. Some OutOfFuel" "[]" "[''Malloc0'']" None] show ?thesis by simp
qed

lemma wrap64_id: "- (2 ^ 63) \<le> i \<Longrightarrow> i < 2 ^ 63 \<Longrightarrow> wrap64 i = i"
  by (simp add: wrap64_def)



end
