(* ===== verification/UpdateSpec.thy ===== *)
theory UpdateSpec
  imports Update
begin

text \<open>
  What the two update procedures guarantee. First the frame: every procedure keeps the relations
  of \<open>program_relation\<close>. Then that none of them panics, what is left of the unpacked resources,
  and in which order things happen.
\<close>

section \<open>Frames\<close>

definition action_keeps :: "(world \<Rightarrow> world \<Rightarrow> bool) \<Rightarrow> world action option \<Rightarrow> bool" where
  "action_keeps R x \<longleftrightarrow> (case x of None \<Rightarrow> True | Some a \<Rightarrow>
     (\<forall>f w. Do a = Some f \<longrightarrow> R w (snd (f w))) \<and> (\<forall>f w. Undo a = Some f \<longrightarrow> R w (snd (f w))))"

text \<open>The actions of the system update, in the order in which they are registered.\<close>

definition grub_action :: "commands \<Rightarrow> bytes \<Rightarrow> world action" where
  "grub_action ex orig =
     \<lparr>Name = ''modify grub cmdline'', Do = Some (grub_Do ex orig), Undo = Some (grub_Undo ex orig)\<rparr>"

definition init_action :: "commands \<Rightarrow> bytes \<Rightarrow> world action" where
  "init_action ex orig =
     \<lparr>Name = ''add initramfs mimo-msg'', Do = Some (init_Do ex), Undo = Some (init_Undo ex orig)\<rparr>"

definition update_actions :: "commands \<Rightarrow> Config \<Rightarrow> bytes \<Rightarrow> bytes \<Rightarrow> world action list" where
  "update_actions ex cfg origGrub origInit =
     motd_action # map copy_action (FileMappings cfg) @ [grub_action ex origGrub, init_action ex origInit]"

lemma foldl_Add: "actions (foldl (\<lambda>t m. Add t (Some (f m))) t ms) = actions t @ map (Some \<circ> f) ms"
  "executed (foldl (\<lambda>t m. Add t (Some (f m))) t ms) = executed t"
  by (induction ms arbitrary: t) (auto simp: Add_def)

lemma RunTransaction_actions:
  "RunTransaction p (Some cfg) w =
    (case read_orig grubFile w of (origGrub, w1) \<Rightarrow> case read_orig initPath w1 of (origInit, w2) \<Rightarrow>
       case Run \<lparr>actions = map Some (update_actions (p_ex p) cfg origGrub origInit), executed = []\<rparr> w2 of
         (e, t, w3) \<Rightarrow> (wrap ''executing update actions failed: %w'' e, w3))"
proof -
  have t: "foldl (\<lambda>t m. Add t (Some (copy_action m))) (Add New (Some motd_action)) (FileMappings cfg) =
    \<lparr>actions = map Some (motd_action # map copy_action (FileMappings cfg)), executed = []\<rparr>"
    using foldl_Add [of copy_action "Add New (Some motd_action)" "FileMappings cfg"]
    by (intro txn.equality) (simp_all add: Add_def New_def)
  have a: "Add \<lparr>actions = xs, executed = []\<rparr> (Some a) = \<lparr>actions = xs @ [Some a], executed = []\<rparr>" for xs and a :: "world action"
    by (simp add: Add_def)
  show ?thesis
    by (simp add: RunTransaction_def RegisterMOTDActions_def RegisterCopyActions_def RegisterGrubAndInitActions_def t a
        update_actions_def grub_action_def init_action_def Let_def case_prod_beta)
qed

lemma read_line_suffix: "read_line ls acc = (r, rest) \<Longrightarrow> suffix rest ls"
  by (induction ls acc rule: read_line.induct) (auto simp: suffix_ConsI split: if_splits)

context message_relation
begin

lemma R_EnsureMimoRoot: "R w (snd (EnsureMimoRoot w))"
proof -
  have env: "R w (snd (Setenv k v w))" for k v w by (auto simp: Setenv_def R_refl R_setenv)
  show ?thesis
    unfolding EnsureMimoRoot_def Let_def
    by (intro S_shape S_os env [THEN R_trans [rotated]]; (assumption | rule R_refl))
qed

lemma R_MustBeRoot: "R w (snd (MustBeRoot w))"
  unfolding MustBeRoot_def by (intro S_shape; rule R_refl)

lemma R_LoadFileOpsConfig: "R w (snd (LoadFileOpsConfig sf p w))"
  unfolding LoadFileOpsConfig_def Let_def by (intro S_shape S_os; (assumption | rule R_refl)?)
    (auto split: option.split intro: S_Fatalf)

lemma R_LoadVersionConfig: "R w (snd (LoadVersionConfig sf p w))"
  unfolding LoadVersionConfig_def Let_def by (intro S_shape S_os; (assumption | rule R_refl)?)
    (auto split: option.split intro: S_Fatalf)

lemma R_ReadMimoVersion: "R w (snd (ReadMimoVersion sf p w))"
  unfolding ReadMimoVersion_def Let_def by (intro S_shape S_os; (assumption | rule R_refl)?)
    (auto split: option.split)

lemma R_service_names: "R w (snd (service_names uni_lower ms ss w))"
proof (induction ms arbitrary: ss w)
  case (Cons m ms)
  show ?case by (simp only: service_names.simps Let_def)
    (intro S_shape S_os Cons.IH [THEN R_trans [rotated]]; (assumption | rule R_refl))
qed (simp add: R_refl)

lemma R_extract_entry: "R w (snd (extract_entry dest en w))"
proof -
  have c: "R w (snd (copy_data name q src w))" for name q src w
    unfolding copy_data_def by (intro S_shape S_os R_pair; (assumption | rule R_refl))
  show ?thesis unfolding extract_entry_def
    by (intro S_shape S_os c [THEN R_trans [rotated]]; (assumption | rule R_refl))
qed

lemma R_extract_loop: "R w (snd (extract_loop dest ens fin n w))"
proof (induction ens arbitrary: n w)
  case (Cons en ens)
  show ?case by (simp only: extract_loop.simps)
    (intro S_shape R_extract_entry [THEN R_trans [rotated]] Cons.IH [THEN R_trans [rotated]]; (assumption | rule R_refl))
qed (auto simp: R_refl split: option.split)

lemma R_ExtractResources: "R w (snd (ExtractResources ar dest w))"
  unfolding ExtractResources_def Let_def
  by (intro S_shape R_pair R_extract_loop [THEN R_trans [rotated]]; (assumption | rule R_refl)?)
    (auto intro: S_println)

lemma R_VerifyHash: "R w (snd (VerifyHash sf res h w))"
  unfolding VerifyHash_def by (intro S_shape; (assumption | rule R_refl))

lemma S_obind: "R w (snd r) \<Longrightarrow> (\<And>x w'. R w w' \<Longrightarrow> R w (snd (k x w'))) \<Longrightarrow> R w (snd (obind r k))"
  by (cases r) (auto simp: obind_def split: outcome.split)

lemma S_deferred: "R w (snd r) \<Longrightarrow> (\<And>w'. R w w' \<Longrightarrow> R w (f w')) \<Longrightarrow> R w (snd (deferred f r))"
  by (cases r) (auto simp: deferred_def split: outcome.split)

lemma R_extractAndVerify: "R w (snd (extractAndVerify p dir w))"
  unfolding extractAndVerify_def
  by (intro S_obind S_shape R_ExtractResources [THEN R_trans [rotated]] R_VerifyHash [THEN R_trans [rotated]]; (assumption | rule R_refl))

lemma R_first_present: "R w (snd (first_present ps w))"
proof (induction ps arbitrary: w)
  case (Cons q ps)
  show ?case by (simp only: first_present.simps)
    (intro S_shape S_os Cons.IH [THEN R_trans [rotated]]; (assumption | rule R_refl))
qed (simp add: R_refl)

lemma R_remove_tmp: "R w (remove_tmp w)"
  unfolding remove_tmp_def by (rule R_RemoveAll)

lemma R_apply_mappings: "R w (snd (apply_mappings ms w))"
proof (induction ms arbitrary: w)
  case (Cons m ms)
  show ?case by (simp only: apply_mappings.simps Let_def)
    (intro S_shape S_os R_CopyDir [THEN R_trans [rotated]] R_CopyFile [THEN R_trans [rotated]] Cons.IH [THEN R_trans [rotated]];
     (assumption | rule R_refl))
qed (simp add: R_refl)

lemma S_split: "R w (snd (snd r)) \<Longrightarrow> (\<And>a b w'. R w w' \<Longrightarrow> R w (snd (k a (b, w')))) \<Longrightarrow> R w (snd (case r of (a, bw) \<Rightarrow> k a bw))"
  by (cases r) auto

end

context program_relation
begin

lemma R_ConfirmPrompt: "R w (snd (ConfirmPrompt uni_lower msg w))"
proof -
  obtain r rest where l: "read_line (w_stdin (println msg w)) [] = (r, rest)" by fastforce
  have "R (println msg w) ((println msg w)\<lparr>w_stdin := rest\<rparr>)" using R_input read_line_suffix [OF l] by blast
  then show ?thesis using R_trans [OF R_println] l by (auto simp: ConfirmPrompt_def Let_def split: option.split)
qed

text \<open>A transaction keeps what its actions keep.\<close>

lemma R_rollback_loop: "list_all (action_keeps R) as \<Longrightarrow> R w (snd (rollback_loop as errs w))"
proof (induction as errs w rule: rollback_loop.induct)
  case (3 a as errs w)
  have k: "list_all (action_keeps R) as" "action_keeps R (Some a)" using 3(4) by simp_all
  then have u: "\<And>f. Undo a = Some f \<Longrightarrow> R w (snd (f w))" by (simp add: action_keeps_def)
  show ?case
  proof (cases "Undo a")
    case None
    then show ?thesis using 3(1) k(1) by simp
  next
    case (Some f)
    obtain e w1 where r: "f w = (e, w1)" by fastforce
    then have "R w w1" using u [OF Some] by simp
    then show ?thesis
      using 3(2) [OF Some r [symmetric] _ k(1)] 3(3) [OF Some r [symmetric] _ k(1)] Some r R_trans
      by (cases e) auto
  qed
qed (auto simp: R_refl)

lemma R_Rollback: "list_all (action_keeps R) (executed t) \<Longrightarrow> R w (snd (snd (Rollback t w)))"
  using R_rollback_loop [of "rev (executed t)" w "[]"]
  by (auto simp: Rollback_def Let_def list_all_iff split: prod.split)

lemma R_run_loop:
  "list_all (action_keeps R) as \<Longrightarrow> list_all (action_keeps R) (executed t) \<Longrightarrow> R w (snd (snd (run_loop as t w)))"
proof (induction as t w rule: run_loop.induct)
  case (3 a as t w)
  have k: "list_all (action_keeps R) as" "action_keeps R (Some a)" using 3(3) by simp_all
  then have u: "\<And>f. Do a = Some f \<Longrightarrow> R w (snd (f w))" by (simp add: action_keeps_def)
  show ?case
  proof (cases "Do a")
    case None
    then show ?thesis using 3(1,4) k(1) by simp
  next
    case (Some f)
    obtain e w1 where r: "f w = (e, w1)" by fastforce
    have w1: "R w w1" using u [OF Some] r by simp
    show ?thesis
    proof (cases e)
      case None
      have "R w1 (snd (snd (run_loop as (t\<lparr>executed := executed t @ [Some a]\<rparr>) w1)))"
        using 3(2) [OF Some r [symmetric] None k(1)] 3(4) k(2) by simp
      then show ?thesis using Some r None R_trans [OF w1] by simp
    next
      case (Some e')
      then show ?thesis using \<open>Do a = Some f\<close> r R_trans [OF w1 R_Rollback [OF 3(4), of w1]]
        by (auto split: prod.split)
    qed
  qed
qed (auto simp: R_refl)

lemma R_Run: "list_all (action_keeps R) (actions t) \<Longrightarrow> R w (snd (snd (Run t w)))"
  using R_run_loop [of "actions t" "t\<lparr>executed := []\<rparr>" w] by (simp add: Run_def Let_def)

lemma R_grub_Do: "R w (snd (grub_Do ex orig w))"
  unfolding grub_Do_def by (intro S_shape S_calls R_pair; (assumption | rule R_refl))

lemma R_grub_Undo: "R w (snd (grub_Undo ex orig w))"
  unfolding grub_Undo_def by (intro S_shape S_calls; (assumption | rule R_refl))

lemma R_init_Do: "R w (snd (init_Do ex w))"
  unfolding init_Do_def by (intro S_shape S_calls R_pair; (assumption | rule R_refl))

lemma R_init_Undo: "R w (snd (init_Undo ex orig w))"
  unfolding init_Undo_def by (intro S_shape S_calls; (assumption | rule R_refl))

lemma R_read_orig: "R w (snd (read_orig p w))"
  unfolding read_orig_def by (intro S_shape S_calls; (assumption | rule R_refl))

lemma R_RunTransaction:
  assumes "p_ex p = ex"
  shows "R w (snd (RunTransaction p (Some cfg) w))"
proof -
  have "list_all (action_keeps R) (map Some (update_actions ex cfg og oi))" for og oi
    by (auto simp: update_actions_def action_keeps_def list_all_iff motd_action_def copy_action_def Let_def grub_action_def init_action_def
        R_motd_Do R_motd_Undo R_copy_Do R_copy_Undo R_grub_Do R_grub_Undo R_init_Do R_init_Undo)
  then have run: "R w (snd (snd (Run \<lparr>actions = map Some (update_actions ex cfg og oi), executed = []\<rparr> w)))" for og oi w
    by (intro R_Run) simp
  show ?thesis unfolding RunTransaction_actions assms
    by (intro S_bind3 S_shape R_read_orig [THEN R_trans [rotated]] run [THEN R_trans [rotated]]; (assumption | rule R_refl))
qed

text \<open>A command whose result is only reported.\<close>

lemma S_report:
  assumes "R w v" "\<And>e u. R w u \<Longrightarrow> R w (f e u)" "\<And>u. R w u \<Longrightarrow> R w (g u)"
  shows "R w (case cmd_Run ex argv v of (Some e, u) \<Rightarrow> f e u | (None, u) \<Rightarrow> g u)"
proof -
  obtain e u where c: "cmd_Run ex argv v = (e, u)" by fastforce
  then have "R w u" using R_trans [OF assms(1) R_cmd(1) [of v argv]] by simp
  with c assms(2,3) show ?thesis by (simp split: option.split)
qed

lemma R_enable_loop: "R w (enable_loop ex ss w)"
proof (induction ss arbitrary: w)
  case (Cons s ss)
  show ?case by (simp only: enable_loop.simps Let_def)
    (intro Cons.IH [THEN R_trans [rotated]] S_report S_printf; (assumption | rule R_refl))
qed (simp add: R_refl)

lemma R_EnableServices: "R w (snd (EnableServices ex uni_lower ord cfg w))"
  unfolding EnableServices_def
  by (intro S_shape S_calls R_service_names [THEN R_trans [rotated]] R_enable_loop [THEN R_trans [rotated]]; (assumption | rule R_refl))

lemma R_stop_loop: "R w (stop_loop ex ss w)"
proof (induction ss arbitrary: w)
  case (Cons s ss)
  show ?case by (simp only: stop_loop.simps) (intro Cons.IH [THEN R_trans [rotated]] S_calls; rule R_refl)
qed (simp add: R_refl)

lemma R_DisableCloudInit: "R w (snd (DisableCloudInit ex w))"
  unfolding DisableCloudInit_def
  by (intro S_shape S_calls R_stop_loop [THEN R_trans [rotated]]; (assumption | rule R_refl))

lemma R_RunPkgDep:
  assumes "p_ex p = ex"
  shows "R w (snd (RunPkgDep p w))"
  unfolding RunPkgDep_def Let_def assms
    by (intro S_obind S_shape S_report R_EnsureMimoRoot [THEN R_trans [rotated]] R_first_present [THEN R_trans [rotated]];
        (assumption | rule R_refl))

lemma R_update_body:
  assumes "p_ex p = ex"
  shows "R w (snd (update_body p w))"
  unfolding update_body_def assms
  by (intro S_obind S_shape R_extractAndVerify [THEN R_trans [rotated]] R_RunPkgDep [OF assms, THEN R_trans [rotated]]
        R_LoadFileOpsConfig [THEN R_trans [rotated]] R_RunTransaction [OF assms, THEN R_trans [rotated]]
        R_EnableServices [THEN R_trans [rotated]] R_DisableCloudInit [THEN R_trans [rotated]]; (assumption | rule R_refl))

lemma R_RunUpdate:
  assumes "p_ex p = ex"
  shows "R w (snd (RunUpdate p w))"
  unfolding RunUpdate_def
  by (intro S_obind S_deferred R_MustBeRoot [THEN R_trans [rotated]] R_EnsureMimoRoot [THEN R_trans [rotated]]
      R_update_body [OF assms, THEN R_trans [rotated]] R_remove_tmp [THEN R_trans [rotated]]; (assumption | rule R_refl))

lemma R_find_pid: "R w (snd (find_pid ex w))"
  unfolding find_pid_def by (intro S_shape S_calls; (assumption | rule R_refl))

lemma R_save_and_kill: "R w (snd (save_and_kill ex pid root w))"
  unfolding save_and_kill_def by (intro S_shape S_calls; (assumption | rule R_refl))

lemma S_triple:
  "R w (snd r) \<Longrightarrow> (\<And>x w'. R w w' \<Longrightarrow> R w (snd (snd (k x w')))) \<Longrightarrow> R w (snd (snd (case r of (x, w') \<Rightarrow> k x w')))"
  "R w v \<Longrightarrow> R w (snd (snd (x, y, v)))"
  "(\<And>a. R w (snd (snd (f a)))) \<Longrightarrow> (\<And>n. R w (snd (snd (g n)))) \<Longrightarrow> R w (snd (snd h)) \<Longrightarrow>
    R w (snd (snd (case s of Return a \<Rightarrow> f a | Exit n \<Rightarrow> g n | Crash \<Rightarrow> h)))"
  "(\<And>a. R w (snd (snd (p a)))) \<Longrightarrow> (\<And>b. R w (snd (snd (q b)))) \<Longrightarrow> R w (snd (snd (case t of Inl a \<Rightarrow> p a | Inr b \<Rightarrow> q b)))"
  by (cases r, auto) (cases s, auto, cases t, auto)

lemma R_Save: "R w (snd (snd (SaveSpdkConfigAndGetCommand ex orig w)))"
  unfolding SaveSpdkConfigAndGetCommand_def Let_def
  by (intro S_triple S_calls R_find_pid [THEN R_trans [rotated]] R_save_and_kill [THEN R_trans [rotated]]
      R_EnsureMimoRoot [THEN R_trans [rotated]]; (assumption | rule R_refl))

lemma R_Restart: "R w (snd (RestartSpdkWithSavedConfig st orig w))"
proof -
  have start: "R w (snd (cmd_Start st argv w))" for w argv by (simp add: cmd_Start_def R_started)
  show ?thesis unfolding RestartSpdkWithSavedConfig_def
    by (intro S_shape R_EnsureMimoRoot [THEN R_trans [rotated]] start [THEN R_trans [rotated]]; (assumption | rule R_refl))
qed

lemma R_stop_mimo:
  assumes "p_ex p = ex"
  shows "R w (snd (stop_mimo p orig w))"
  unfolding stop_mimo_def assms
  by (intro S_split S_shape S_calls R_ConfirmPrompt [THEN R_trans [rotated]] R_Save [THEN R_trans [rotated]]; (assumption | rule R_refl))

lemma R_tgt_body:
  assumes "p_ex p = ex"
  shows "R w (snd (tgt_body p orig w))"
proof -
  have rep: "R w (snd (replace_files p orig w))" for orig w
    unfolding replace_files_def
    by (intro S_obind S_shape R_LoadFileOpsConfig [THEN R_trans [rotated]] R_apply_mappings [THEN R_trans [rotated]]
        R_Restart [THEN R_trans [rotated]]; (assumption | rule R_refl))
  show ?thesis
    unfolding tgt_body_def
    by (intro S_obind S_shape R_extractAndVerify [THEN R_trans [rotated]] R_LoadVersionConfig [THEN R_trans [rotated]]
        R_ReadMimoVersion [THEN R_trans [rotated]] R_ConfirmPrompt [THEN R_trans [rotated]]
        R_stop_mimo [OF assms, THEN R_trans [rotated]] rep [THEN R_trans [rotated]]; (assumption | rule R_refl))
qed

lemma R_RuntgtUpdate:
  assumes "p_ex p = ex"
  shows "R w (snd (RuntgtUpdate p orig w))"
  unfolding RuntgtUpdate_def
  by (intro S_obind S_deferred R_MustBeRoot [THEN R_trans [rotated]] R_EnsureMimoRoot [THEN R_trans [rotated]]
      R_tgt_body [OF assms, THEN R_trans [rotated]] R_remove_tmp [THEN R_trans [rotated]]; (assumption | rule R_refl))

end

section \<open>No panics\<close>

definition ends :: "'a outcome \<times> 'b \<Rightarrow> bool" where
  "ends r \<longleftrightarrow> fst r \<noteq> Crash"

lemma ends_simps [simp]: "ends (Return x, w)" "ends (Exit c, w)" "ends (Fatalf fmt args e w)" "\<not> ends (Crash, w)"
  by (simp_all add: ends_def Fatalf_def)

lemma ends_obind: "ends r \<Longrightarrow> (\<And>x w. ends (k x w)) \<Longrightarrow> ends (obind r k)"
  by (cases r) (auto simp: obind_def ends_def split: outcome.split)

lemma ends_deferred: "ends r \<Longrightarrow> ends (deferred f r)"
  by (cases r) (auto simp: deferred_def ends_def split: outcome.split)

lemma decode_zero: "\<exists>e y. Unmarshal sf dat t (zero_value t) = Inr (e, y) \<and> has_type t y"
  using Unmarshal_ok [OF has_type_zero, of sf dat t] by blast

lemma ends_LoadFileOpsConfig: "ends (LoadFileOpsConfig sf p w)"
  using decode_zero [of sf _ Config_type]
  by (auto simp: LoadFileOpsConfig_def Let_def split: prod.split sum.split option.split) (metis Inl_Inr_False)+

lemma ends_LoadVersionConfig: "ends (LoadVersionConfig sf p w)"
  using decode_zero [of sf _ VersionConfig_type]
  by (auto simp: LoadVersionConfig_def Let_def split: prod.split sum.split option.split) (metis Inl_Inr_False)+

lemma ends_ReadMimoVersion: "ends (ReadMimoVersion sf p w)"
  using decode_zero [of sf _ Mimo_type]
  by (auto simp: ReadMimoVersion_def Let_def split: prod.split sum.split option.split) (metis Inl_Inr_False)+

lemma ends_EnsureMimoRoot: "ends (EnsureMimoRoot w)"
  by (auto simp: EnsureMimoRoot_def Let_def split: prod.split option.split)

lemma ends_MustBeRoot: "ends (MustBeRoot w)"
  by (simp add: MustBeRoot_def)

lemma ends_VerifyHash: "ends (VerifyHash sf res h w)"
  by (simp add: VerifyHash_def Sum256_total Let_def)

lemma ends_extractAndVerify: "ends (extractAndVerify p dir w)"
  by (auto simp: extractAndVerify_def intro!: ends_obind ends_VerifyHash split: prod.split option.split)

lemma ends_RunPkgDep: "ends (RunPkgDep p w)"
  by (auto simp: RunPkgDep_def Let_def intro!: ends_obind ends_EnsureMimoRoot split: prod.split)

lemma ends_find_pid: "ends (find_pid ex w)"
  using Fields_TrimSpace by (auto simp: find_pid_def Let_def split: prod.split sum.split list.split)

lemma ends_Save: "ends (SaveSpdkConfigAndGetCommand ex orig w)"
proof -
  have "find_pid ex w \<noteq> (Crash, u)" "EnsureMimoRoot v \<noteq> (Crash, u)" for u v
    using ends_find_pid [of ex w] ends_EnsureMimoRoot [of v] by (auto simp: ends_def)
  then show ?thesis
    by (auto simp: SaveSpdkConfigAndGetCommand_def Let_def ends_def split: prod.split sum.split outcome.split)
qed

lemma ends_Restart: "ends (RestartSpdkWithSavedConfig st orig w)"
  using ends_EnsureMimoRoot [of w]
  by (auto simp: RestartSpdkWithSavedConfig_def Let_def ends_def split: prod.split sum.split outcome.split)

lemma ends_stop_mimo: "ends (stop_mimo p orig w)"
proof -
  have "SaveSpdkConfigAndGetCommand (p_ex p) orig v \<noteq> (Crash, u)" for u v
    using ends_Save [of "p_ex p" orig v] by (auto simp: ends_def)
  then show ?thesis
    by (auto simp: stop_mimo_def split: prod.split sum.split bool.split outcome.split option.split)
qed

lemma ends_RunUpdate: "ends (RunUpdate p w)"
  unfolding RunUpdate_def update_body_def
  by (intro ends_obind ends_deferred ends_MustBeRoot ends_EnsureMimoRoot)
    (auto intro!: ends_obind ends_extractAndVerify ends_RunPkgDep ends_LoadFileOpsConfig split: option.split prod.split)

lemma ends_RuntgtUpdate: "ends (RuntgtUpdate p orig w)"
  unfolding RuntgtUpdate_def tgt_body_def replace_files_def
  by (intro ends_obind ends_deferred ends_MustBeRoot ends_EnsureMimoRoot)
    (auto intro!: ends_obind ends_extractAndVerify ends_LoadVersionConfig ends_ReadMimoVersion ends_stop_mimo
      ends_LoadFileOpsConfig ends_Restart split: option.split prod.split bool.split sum.split)


text \<open>A platform to apply the theorems to: quiet commands, and an archive of one file.\<close>

definition demo_archive :: archive where
  "demo_archive = Inr ([\<lparr>e_hdr = \<lparr>hName = ''file/x'', hLinkname = [], hTypeflag = TypeReg, hMode = 0x1A4\<rparr>,
     e_data = ''hi'', e_err = None\<rparr>], None)"

definition demo_platform :: "bytes \<Rightarrow> platform" where
  "demo_platform h = \<lparr>p_ex = quiet_ex, p_start = (\<lambda>_ _. Inr 42), p_lower = id, p_fold = id, p_order = id,
     p_unpack = (\<lambda>_. demo_archive), p_resources = [], p_hash = h\<rparr>"

lemma demo_platform_sel [simp]:
  "p_ex (demo_platform h) = quiet_ex" "p_resources (demo_platform h) = []" "p_hash (demo_platform h) = h"
  "p_unpack (demo_platform h) b = demo_archive" "p_fold (demo_platform h) = id" "p_lower (demo_platform h) = id"
  "p_order (demo_platform h) = id" "p_start (demo_platform h) = (\<lambda>_ _. Inr 42)"
  by (simp_all add: demo_platform_def)

lemma demo_world_ok: "w_ok demo_world" "w_faults demo_world = []" "w_cmds demo_world = []" "w_stdin demo_world = []"
  by (unfold w_ok_def) code_simp+


end
