(* ===== verification/UpdateTrace.thy ===== *)
theory UpdateTrace
  imports UpdateSpec
begin

text \<open>
  Which commands the two updates run, and in which order. The world records every argument vector,
  so that a trace is what is appended to \<open>w_cmds\<close>. A call that runs no command and reads no input
  is calm; the frame of \<open>UpdateSpec\<close> gives that for all file operations.
\<close>

section \<open>Traces of single commands\<close>

named_theorems trace

context message_relation
begin

lemma R_file_actions: "R w (snd (motd_Do w))" "R w (snd (copy_Do src dst w))"
  by (rule R_motd_Do R_copy_Do)+

end

lemma calm_dest: "calm w (snd r) \<Longrightarrow> r = (x, w') \<Longrightarrow> w_cmds w' = w_cmds w \<and> w_stdin w' = w_stdin w"
  by (simp add: calm_def)

lemmas calm_trace [trace] =
  calm.R_Stat [THEN calm_dest] calm.R_ReadFile [THEN calm_dest] calm.R_WriteFile [THEN calm_dest]
  calm.R_MkdirAll [THEN calm_dest] calm.R_RemoveAll [THEN calm_dest] calm.R_Create [THEN calm_dest]
  calm.R_Remove [THEN calm_dest] calm.R_MustBeRoot [THEN calm_dest] calm.R_EnsureMimoRoot [THEN calm_dest]
  calm.R_extractAndVerify [THEN calm_dest] calm.R_first_present [THEN calm_dest]
  calm.R_LoadFileOpsConfig [THEN calm_dest] calm.R_LoadVersionConfig [THEN calm_dest]
  calm.R_ReadMimoVersion [THEN calm_dest] calm.R_service_names [THEN calm_dest]
  calm.R_apply_mappings [THEN calm_dest] calm.R_file_actions [THEN calm_dest]

lemma calm_worlds [simp]:
  "w_cmds (println s w) = w_cmds w" "w_stdin (println s w) = w_stdin w"
  "w_cmds (printf fmt args e w) = w_cmds w" "w_stdin (printf fmt args e w) = w_stdin w"
  "w_cmds (remove_tmp w) = w_cmds w" "w_stdin (remove_tmp w) = w_stdin w"
  using calm.R_println [of w s] calm.R_printf [of w fmt args e] calm.R_remove_tmp [of w] by (simp_all add: calm_def)

lemma cmd_trace [trace]:
  "cmd_Run ex argv w = (r1, w') \<Longrightarrow> w_cmds w' = w_cmds w @ [argv] \<and> w_stdin w' = w_stdin w"
  "cmd_Output ex argv w = (r2, w') \<Longrightarrow> w_cmds w' = w_cmds w @ [argv] \<and> w_stdin w' = w_stdin w"
  "cmd_Combined ex argv w = (r3, w') \<Longrightarrow> w_cmds w' = w_cmds w @ [argv] \<and> w_stdin w' = w_stdin w"
  "cmd_Start st argv w = (r4, w') \<Longrightarrow> w_cmds w' = w_cmds w @ [argv] \<and> w_stdin w' = w_stdin w"
  by (auto simp: cmd_Run_def cmd_Output_def cmd_Combined_def cmd_Start_def run_cmd_def split: prod.splits option.splits)

lemma cmd_Run_done: "cmd_Run ex argv w = (None, w') \<Longrightarrow> fst (ex argv (w_fs w)) = None"
  by (auto simp: cmd_Run_def run_cmd_def split: prod.splits)

lemma obind_cases:
  assumes "obind r k = (out, w')"
  obtains (ret) x w1 where "r = (Return x, w1)" "k x w1 = (out, w')"
  | (exit) c where "r = (Exit c, w')" "out = Exit c"
  | (crash) "r = (Crash, w')" "out = Crash"
  using assms by (cases r) (auto simp: obind_def split: outcome.splits)

lemma obind_Return: "obind (Return x, w) k = k x w"
  by (simp add: obind_def)

lemma deferred_trace:
  assumes "deferred remove_tmp r = (out, w')"
  obtains w1 where "r = (out, w1)" "w_cmds w' = w_cmds w1" "w_stdin w' = w_stdin w1" "w' = w1 \<or> w' = remove_tmp w1"
  using assms by (cases r) (auto simp: deferred_def split: outcome.splits)

section \<open>Verification of the archive\<close>

text \<open>The hash in the program is the hash of the archive in the program.\<close>

definition verified :: "platform \<Rightarrow> bool" where
  "verified p \<longleftrightarrow> (case Sum256 (p_resources p) of None \<Rightarrow> False
     | Some digest \<Rightarrow> EqualFold (p_fold p) (hex_string digest) (bytes_TrimSpace (p_hash p)))"

lemma extractAndVerify_result:
  obtains e w1 where "extractAndVerify p d w = (Return e, w1)" "e = None \<longrightarrow> verified p"
proof -
  obtain digest where d: "Sum256 (p_resources p) = Some digest" using Sum256_total by blast
  obtain e1 v where x: "ExtractResources (p_unpack p (p_resources p)) d w = (e1, v)" by fastforce
  have "\<exists>e w1. extractAndVerify p d w = (Return e, w1) \<and> (e = None \<longrightarrow> verified p)"
    using d x by (cases e1) (auto simp: extractAndVerify_def VerifyHash_def verified_def wrap_def Let_def obind_def)
  then show ?thesis using that by blast
qed

text \<open>The part both updates begin with.\<close>

lemma update_start:
  assumes "obind (MustBeRoot w) (\<lambda>_ w1. obind (EnsureMimoRoot w1) (\<lambda>_ w2. deferred remove_tmp (body w2))) = (out, w')"
  obtains (exit) c where "out = Exit c" "w_cmds w' = w_cmds w" "w_stdin w' = w_stdin w"
  | (go) w2 w3 where "w_cmds w2 = w_cmds w" "w_stdin w2 = w_stdin w" "body w2 = (out, w3)"
      "w_cmds w' = w_cmds w3" "w_stdin w' = w_stdin w3"
  using assms
proof (cases rule: obind_cases)
  case ret
  note r = ret
  from r(2) show ?thesis
  proof (cases rule: obind_cases)
    case ret
    then show ?thesis using r(1) go by (auto elim!: deferred_trace dest!: trace)
  next
    case exit
    then show ?thesis using r(1) that(1) by (auto dest!: trace)
  next
    case crash
    then show ?thesis using ends_EnsureMimoRoot by (metis ends_simps(4))
  qed
next
  case exit
  then show ?thesis using that(1) by (auto dest!: trace)
next
  case crash
  then show ?thesis using ends_MustBeRoot by (metis ends_simps(4))
qed

lemma unverified_bodies:
  assumes "\<not> verified p"
  shows "\<exists>e w'. update_body p w = (Return (Some e), w') \<and> w_cmds w' = w_cmds w \<and> w_stdin w' = w_stdin w"
    "\<exists>e w'. tgt_body p orig w = (Return (Some e), w') \<and> w_cmds w' = w_cmds w \<and> w_stdin w' = w_stdin w"
proof -
  have "\<exists>e w'. extractAndVerify p d v = (Return (Some e), w') \<and> w_cmds w' = w_cmds v \<and> w_stdin w' = w_stdin v" for d v
    using assms extractAndVerify_result [of p d v] by (metis not_Some_eq trace(10))
  note this [of "Clean tmpDir" w] this [of "Clean tmpDir" "println ''INFO: extracting package...'' w"]
  then show "\<exists>e w'. update_body p w = (Return (Some e), w') \<and> w_cmds w' = w_cmds w \<and> w_stdin w' = w_stdin w"
    "\<exists>e w'. tgt_body p orig w = (Return (Some e), w') \<and> w_cmds w' = w_cmds w \<and> w_stdin w' = w_stdin w"
    by (auto simp: update_body_def tgt_body_def obind_def)
qed

text \<open>
  C4. When the SHA-256 of the embedded archive is not the embedded hash, neither update succeeds:
  it exits or returns an error, and no external command has been run and no question asked.
\<close>

theorem unverified_resources_refused:
  assumes "\<not> verified p" "(out, w') \<in> {RunUpdate p w, RuntgtUpdate p orig w}"
  shows "((\<exists>c. out = Exit c) \<or> (\<exists>e. out = Return (Some e))) \<and> w_cmds w' = w_cmds w \<and> w_stdin w' = w_stdin w"
proof -
  have "RunUpdate p w = (out, w') \<or> RuntgtUpdate p orig w = (out, w')" using assms(2) by auto
  then show ?thesis
    unfolding RunUpdate_def RuntgtUpdate_def using unverified_bodies [OF assms(1)]
    by (elim disjE update_start) (metis prod.inject)+
qed

section \<open>The unpacked resources\<close>

definition tmp_path :: path where
  "tmp_path = [''tmp'', ''mimo-output'']"

lemma tmp_path: "Clean tmpDir = apath tmp_path" "list_all name_ok tmp_path"
  by code_simp+

lemma deferred_Return: "deferred f r = (Return e, w') \<Longrightarrow> \<exists>w3. r = (Return e, w3) \<and> w' = f w3"
  by (cases r) (auto simp: deferred_def split: outcome.splits)

lemma R_bodies:
  assumes "sane (p_ex p)"
  shows "progresses w (snd (update_body p w))" "progresses w (snd (tgt_body p orig w))"
  using act.R_update_body [of p "p_ex p" w] act.R_tgt_body [of p "p_ex p" w orig] assms by simp_all

lemma body_before_removal:
  assumes "(Return e, w') \<in> {RunUpdate p w, RuntgtUpdate p orig w}" "sane (p_ex p)"
  obtains w3 where "w' = remove_tmp w3" "progresses w w3"
proof -
  obtain body where r: "obind (MustBeRoot w) (\<lambda>_ w1. obind (EnsureMimoRoot w1) (\<lambda>_ w2. deferred remove_tmp (body w2))) = (Return e, w')"
    and b: "\<And>v. progresses v (snd (body v))"
    using assms(1) R_bodies [OF assms(2)] unfolding RunUpdate_def RuntgtUpdate_def by (metis insertE singletonD)
  from r show thesis
  proof (cases rule: obind_cases)
    case (ret x w1)
    note m = ret(1)
    from ret(2) show thesis
    proof (cases rule: obind_cases)
      case (ret y w2)
      obtain w3 where d: "body w2 = (Return e, w3)" "w' = remove_tmp w3" using deferred_Return [OF ret(2)] by blast
      have "progresses w w1" "progresses w1 w2" using act.R_MustBeRoot [of "p_ex p" w] act.R_EnsureMimoRoot [of "p_ex p" w1] assms(2) m ret(1) by simp_all
      moreover have "progresses w2 w3" using b [of w2] d(1) by simp
      ultimately show thesis using that d(2) progresses_trans by metis
    qed auto
  qed auto
qed

lemma removal_keeps_dir:
  assumes "dir_at (w_fs (remove_tmp w)) [d]" "name_ok d"
  shows "dpath (w_fs w) [d]"
proof -
  have "shrinks w (remove_tmp w)" unfolding remove_tmp_def by (rule shr.R_RemoveAll)
  then have "lookup (w_fs (remove_tmp w)) [d] = None \<or> lookup (w_fs (remove_tmp w)) [d] = lookup (w_fs w) [d]"
    by (simp only: shrinks_def)
  then have "dir_at (w_fs w) [d]" using assms(1) by (auto simp: dir_at_def)
  then show ?thesis using assms(2) by (auto simp: dpath_def dir_at_def take_Cons split: nat.splits)
qed


section \<open>The commands of the target update\<close>

definition lsof_cmd :: "string list" where
  "lsof_cmd = [''lsof'', ''-t'', spdkSock]"

definition ps_cmd :: "int \<Rightarrow> string list" where
  "ps_cmd pid = [''ps'', ''-p'', Itoa pid, ''-o'', ''args='']"

definition save_cmd :: "string \<Rightarrow> string list" where
  "save_cmd root = [''bash'', ''-c'', Clean (Join [root, ''scripts'', ''rpc.py'']) @ '' save_config -i 2 > '' @ Clean spdkConfigPath]"

definition kill_cmd :: "int \<Rightarrow> string list" where
  "kill_cmd pid = [''kill'', ''-9'', Itoa pid]"

definition restart_cmd :: "string \<Rightarrow> string \<Rightarrow> string list" where
  "restart_cmd root line = [''bash'', ''-c'', restart_command root line]"

text \<open>The answer to a question, and the input that is left after it.\<close>

definition reply :: "(rune \<Rightarrow> rune) \<Rightarrow> string list \<Rightarrow> bool \<times> string list" where
  "reply uni_lower ls =
     (case read_line ls [] of
        (None, rest) \<Rightarrow> (False, rest)
      | (Some line, rest) \<Rightarrow> (ToLower uni_lower (TrimSpace line) = ''y'', rest))"

lemma ConfirmPrompt_reply [trace]:
  "ConfirmPrompt l msg w = (b, w') \<Longrightarrow> w_cmds w' = w_cmds w \<and> w_stdin w' = snd (reply l (w_stdin w)) \<and> b = fst (reply l (w_stdin w))"
  by (auto simp: ConfirmPrompt_def reply_def Let_def split: prod.splits option.splits)

lemma find_pid_trace [trace]:
  "find_pid ex w = (r, w') \<Longrightarrow> w_cmds w' = w_cmds w @ [lsof_cmd] \<and> w_stdin w' = w_stdin w"
  by (auto simp: find_pid_def lsof_cmd_def Let_def split: prod.splits sum.splits list.splits if_splits dest!: trace)

text \<open>The process is killed only after the command that saves its configuration has succeeded.\<close>

definition saved_first :: "commands \<Rightarrow> int \<Rightarrow> string \<Rightarrow> string list list \<Rightarrow> bool" where
  "saved_first ex pid root cs \<longleftrightarrow> (kill_cmd pid \<in> set cs \<longrightarrow> (\<exists>f. fst (ex (save_cmd root) f) = None))"

lemma save_and_kill_trace:
  assumes "save_and_kill ex pid root w = (e, w')"
  obtains cs where "w_cmds w' = w_cmds w @ cs" "prefix cs [save_cmd root, kill_cmd pid]"
    "e = None \<longrightarrow> cs = [save_cmd root, kill_cmd pid]" "saved_first ex pid root cs"
proof -
  obtain r w1 where st: "Stat (Clean (Join [root, ''scripts'', ''rpc.py''])) w = (r, w1)" by fastforce
  obtain e2 w2 where sv: "cmd_Run ex (save_cmd root) w1 = (e2, w2)" by fastforce
  obtain e3 w3 where kl: "cmd_Run ex (kill_cmd pid) (println ''INFO: stopping MIMO process'' (println ''INFO: configuration saved'' w2)) = (e3, w3)"
    by fastforce
  have c: "w_cmds w1 = w_cmds w" "w_cmds w2 = w_cmds w @ [save_cmd root]" "w_cmds w3 = w_cmds w @ [save_cmd root, kill_cmd pid]"
    using trace(1) [OF st] cmd_trace(1) [OF sv] cmd_trace(1) [OF kl] by simp_all
  have neq: "kill_cmd pid \<noteq> save_cmd root" by (simp add: kill_cmd_def save_cmd_def)
  show thesis
  proof (cases r)
    case (Inl a)
    then show thesis using assms st c by (intro that [of "[]"]) (auto simp: save_and_kill_def saved_first_def)
  next
    case (Inr b)
    note body = assms [unfolded save_and_kill_def Let_def st Inr save_cmd_def [symmetric] kill_cmd_def [symmetric], simplified, simplified sv]
    show thesis
    proof (cases e2)
      case (Some a)
      then show thesis using body c neq by (intro that [of "[save_cmd root]"]) (auto simp: saved_first_def)
    next
      case None
      have "w_cmds w' = w_cmds w @ [save_cmd root, kill_cmd pid]"
        using body [unfolded None] kl c by (cases e3) auto
      then show thesis using cmd_Run_done [OF sv [unfolded None]] by (intro that) (auto simp: saved_first_def)
    qed
  qed
qed

definition stop_session :: "int \<Rightarrow> string \<Rightarrow> string list list" where
  "stop_session pid root = [lsof_cmd, ps_cmd pid, save_cmd root, kill_cmd pid]"

lemma session_cmds_distinct:
  "kill_cmd pid \<noteq> lsof_cmd" "kill_cmd pid \<noteq> ps_cmd pid'" "kill_cmd pid \<noteq> restart_cmd root line"
  by (simp_all add: kill_cmd_def lsof_cmd_def ps_cmd_def restart_cmd_def)

text \<open>What stopping the instance may run: a beginning of the session, all of it on success.\<close>

definition stops :: "commands \<Rightarrow> world \<Rightarrow> world \<Rightarrow> bool \<Rightarrow> bool" where
  "stops ex w w' full \<longleftrightarrow> (\<exists>cs pid root. w_cmds w' = w_cmds w @ cs \<and> prefix cs (stop_session pid root) \<and>
     saved_first ex pid root cs \<and> (full \<longrightarrow> cs = stop_session pid root))"

lemma stopsI:
  "w_cmds w' = w_cmds w @ cs \<Longrightarrow> prefix cs (stop_session pid root) \<Longrightarrow> saved_first ex pid root cs \<Longrightarrow>
    (full \<Longrightarrow> cs = stop_session pid root) \<Longrightarrow> stops ex w w' full"
  unfolding stops_def by blast

lemma Save_trace:
  assumes "SaveSpdkConfigAndGetCommand ex orig w = (r, orig', w')"
  shows "stops ex w w' (r = Return None)"
proof -
  obtain a w1 where fp: "find_pid ex w = (a, w1)" by fastforce
  then have c1: "w_cmds w1 = w_cmds w @ [lsof_cmd]" using find_pid_trace by blast
  have early: "stops ex w u full" if "w_cmds u = w_cmds w @ cs" "cs = [lsof_cmd] \<or> (\<exists>pid. cs = [lsof_cmd, ps_cmd pid])" "\<not> full" for u cs full
    using that session_cmds_distinct by (elim disjE exE) (auto simp: stop_session_def saved_first_def intro!: stopsI)
  show ?thesis
  proof (cases "\<exists>pid. a = Return (Inr pid)")
    case False
    then have "w' = w1" "r \<noteq> Return None"
      using assms fp by (auto simp: SaveSpdkConfigAndGetCommand_def split: outcome.splits sum.splits)
    then show ?thesis using early c1 by metis
  next
    case True
    then obtain pid where a: "a = Return (Inr pid)" ..
    obtain b w2 where ps: "cmd_Output ex (ps_cmd pid) w1 = (b, w2)" by fastforce
    then have c2: "w_cmds w2 = w_cmds w @ [lsof_cmd, ps_cmd pid]" using cmd_trace(2) c1 by fastforce
    note body = assms [unfolded SaveSpdkConfigAndGetCommand_def fp a ps_cmd_def [symmetric], simplified, simplified ps]
    show ?thesis
    proof (cases b)
      case (Inl e)
      then have "w' = w2" "r \<noteq> Return None" using body by auto
      then show ?thesis using early c2 by metis
    next
      case (Inr out)
      obtain o3 w3 where en: "EnsureMimoRoot w2 = (o3, w3)" by fastforce
      have c3: "w_cmds w3 = w_cmds w @ [lsof_cmd, ps_cmd pid]" using calm.R_EnsureMimoRoot [THEN calm_dest, OF en] c2 by simp
      show ?thesis
      proof (cases "\<exists>root. o3 = Return root")
        case False
        then have "w' = w3" "r \<noteq> Return None" using body Inr en by (auto simp: Let_def split: outcome.splits)
        then show ?thesis using early c3 by metis
      next
        case True
        then obtain root where o3: "o3 = Return root" ..
        obtain e w4 where sk: "save_and_kill ex pid root w3 = (e, w4)" by fastforce
        then have rw: "r = Return e" "w' = w4" using body Inr en o3 by (auto simp: Let_def)
        from sk obtain cs where cs: "w_cmds w4 = w_cmds w3 @ cs" "prefix cs [save_cmd root, kill_cmd pid]"
          "e = None \<longrightarrow> cs = [save_cmd root, kill_cmd pid]" "saved_first ex pid root cs"
          by (rule save_and_kill_trace)
        then show ?thesis using c3 rw session_cmds_distinct
          by (intro stopsI [of _ _ "lsof_cmd # ps_cmd pid # cs" pid root]) (auto simp: stop_session_def saved_first_def)
      qed
    qed
  qed
qed

text \<open>Consent: the archive is verified and every question that was asked was answered with yes.\<close>

lemma stop_mimo_trace:
  assumes "stop_mimo p orig w = (r, w')"
  shows "w_cmds w' = w_cmds w \<and> (\<forall>o'. r = Return (Inr o') \<longrightarrow> o' = orig) \<or>
    stops (p_ex p) w w' (\<exists>o'. r = Return (Inr o')) \<and> fst (reply (p_lower p) (w_stdin w))"
proof -
  obtain a w1 where st: "Stat (Clean SPDKSock) w = (a, w1)" by fastforce
  have c: "w_cmds w1 = w_cmds w" "w_stdin w1 = w_stdin w" using trace(1) [OF st] by simp_all
  show ?thesis
  proof (cases a)
    case (Inl e)
    then show ?thesis using assms st c by (auto simp: stop_mimo_def split: if_splits)
  next
    case (Inr fi)
    obtain b w2 where cp: "ConfirmPrompt (p_lower p) ''Stop MIMO now? [y/N]: '' (println ''INFO: detected running MIMO instance'' w1) = (b, w2)"
      by fastforce
    have c2: "w_cmds w2 = w_cmds w" "b = fst (reply (p_lower p) (w_stdin w))"
      using ConfirmPrompt_reply [OF cp] c by simp_all
    show ?thesis
    proof (cases b)
      case False
      then show ?thesis using assms st Inr cp c2 by (auto simp: stop_mimo_def)
    next
      case True
      obtain r3 o3 w3 where sv: "SaveSpdkConfigAndGetCommand (p_ex p) orig w2 = (r3, o3, w3)" by (metis prod_cases3)
      have "w_cmds w' = w_cmds w3" "(\<exists>o'. r = Return (Inr o')) \<longrightarrow> r3 = Return None"
        using assms st Inr cp True sv by (auto simp: stop_mimo_def split: outcome.splits option.splits)
      then have "stops (p_ex p) w w' (\<exists>o'. r = Return (Inr o'))"
        using Save_trace [OF sv] c2(1) unfolding stops_def by metis
      then show ?thesis using c2 True by simp
    qed
  qed
qed

lemma Restart_trace:
  assumes "RestartSpdkWithSavedConfig st orig w = (r, w')"
  shows "w_cmds w' = w_cmds w \<or> orig \<noteq> [] \<and> (\<exists>root. w_cmds w' = w_cmds w @ [restart_cmd root orig])"
  using assms
  by (auto simp: RestartSpdkWithSavedConfig_def restart_cmd_def Let_def split: if_splits prod.splits outcome.splits sum.splits
      dest!: trace)

lemma replace_files_trace:
  assumes "replace_files p orig w = (r, w')"
  shows "w_cmds w' = w_cmds w \<or> orig \<noteq> [] \<and> (\<exists>root. w_cmds w' = w_cmds w @ [restart_cmd root orig])"
  using assms unfolding replace_files_def
proof (cases rule: obind_cases)
  case (ret cfg w1)
  obtain e w2 where am: "apply_mappings (FileMappings cfg) w1 = (e, w2)" by fastforce
  have c: "w_cmds w2 = w_cmds w" using ret(1) am by (auto dest!: trace)
  show ?thesis
  proof (cases e)
    case (Some e')
    then show ?thesis using ret(2) am c by simp
  next
    case None
    then have "obind (RestartSpdkWithSavedConfig (p_start p) orig w2) (\<lambda>e w3. (Return (wrap ''failed to restart SPDK: %w'' e), w3)) = (r, w')"
      using ret(2) am by simp
    then obtain r' where rs: "RestartSpdkWithSavedConfig (p_start p) orig w2 = (r', w')"
      by (cases rule: obind_cases) auto
    from Restart_trace [OF rs] show ?thesis using c by simp
  qed
qed (auto dest!: trace)

text \<open>Everything after the last question.\<close>

lemma stop_and_replace:
  assumes "obind (stop_mimo p [] w) (\<lambda>r w6. case r of Inl e \<Rightarrow> (Return e, w6) | Inr orig1 \<Rightarrow> replace_files p orig1 w6) = (out, w')"
  shows "\<exists>cs pid root root' line. w_cmds w' = w_cmds w @ cs \<and> prefix cs (stop_session pid root @ [restart_cmd root' line]) \<and>
    saved_first (p_ex p) pid root cs \<and> (cs \<noteq> [] \<longrightarrow> fst (reply (p_lower p) (w_stdin w)))"
proof -
  obtain r w1 where sm: "stop_mimo p [] w = (r, w1)" by fastforce
  have rest: "w_cmds w' = w_cmds w1 \<or> (\<exists>o' root. r = Return (Inr o') \<and> o' \<noteq> [] \<and> w_cmds w' = w_cmds w1 @ [restart_cmd root o'])"
    using assms unfolding sm by (cases rule: obind_cases) (auto split: sum.splits dest: replace_files_trace)
  from stop_mimo_trace [OF sm] show ?thesis
  proof (elim disjE conjE)
    assume "w_cmds w1 = w_cmds w" "\<forall>o'. r = Return (Inr o') \<longrightarrow> o' = []"
    then show ?thesis using rest by (intro exI [of _ "[]"]) (auto simp: saved_first_def)
  next
    assume y: "fst (reply (p_lower p) (w_stdin w))" and "stops (p_ex p) w w1 (\<exists>o'. r = Return (Inr o'))"
    then obtain cs pid root where cs: "w_cmds w1 = w_cmds w @ cs" "prefix cs (stop_session pid root)" "saved_first (p_ex p) pid root cs"
      "(\<exists>o'. r = Return (Inr o')) \<longrightarrow> cs = stop_session pid root" by (auto simp: stops_def)
    from rest show ?thesis
    proof (elim disjE exE conjE)
      assume "w_cmds w' = w_cmds w1"
      then show ?thesis using y cs(1-3) by (metis prefix_prefix)
    next
      fix o' root'
      assume "r = Return (Inr o')" "w_cmds w' = w_cmds w1 @ [restart_cmd root' o']"
      then have "w_cmds w' = w_cmds w @ stop_session pid root @ [restart_cmd root' o']" "cs = stop_session pid root" using cs by auto
      moreover have "saved_first (p_ex p) pid root (stop_session pid root @ [restart_cmd root' o'])"
        using cs(3) calculation(2) session_cmds_distinct(3) by (simp add: saved_first_def)
      ultimately show ?thesis using y by blast
    qed
  qed
qed

definition consent :: "platform \<Rightarrow> string list \<Rightarrow> bool" where
  "consent p ls \<longleftrightarrow> verified p \<and> (case reply (p_lower p) ls of (first, rest) \<Rightarrow> first \<and> fst (reply (p_lower p) rest))"

lemma tgt_body_trace:
  assumes "tgt_body p [] w = (out, w')"
  shows "\<exists>cs pid root root' line. w_cmds w' = w_cmds w @ cs \<and>
    prefix cs [lsof_cmd, ps_cmd pid, save_cmd root, kill_cmd pid, restart_cmd root' line] \<and>
    saved_first (p_ex p) pid root cs \<and> (cs \<noteq> [] \<longrightarrow> consent p (w_stdin w))"
proof -
  have stop: ?thesis if "w_cmds w' = w_cmds w"
    using that by (intro exI [of _ "[]"]) (simp add: saved_first_def)
  obtain e w1 where ev: "extractAndVerify p (Clean tmpDir) (println ''INFO: extracting package...'' w) = (Return e, w1)" "e = None \<longrightarrow> verified p"
    by (rule extractAndVerify_result)
  have c1: "w_cmds w1 = w_cmds w" "w_stdin w1 = w_stdin w" using calm.R_extractAndVerify [THEN calm_dest, OF ev(1)] by simp_all
  note body = assms [unfolded tgt_body_def ev(1)]
  show ?thesis
  proof (cases e)
    case (Some e')
    then show ?thesis using body c1 stop by (simp add: obind_def)
  next
    case None
    have ok: "verified p" using ev(2) None by simp
    from body [unfolded obind_Return None option.case] show ?thesis
    proof (cases rule: obind_cases)
      case (ret cfg w2)
      note l = ret
      from l(2) show ?thesis
      proof (cases rule: obind_cases)
        case (ret oldVer w3)
        note m = ret
        from m(2) show ?thesis
        proof (cases rule: obind_cases)
          case (ret newVer w4)
          have c4: "w_cmds w4 = w_cmds w" "w_stdin w4 = w_stdin w" using l(1) m(1) ret(1) c1 by (auto dest!: trace)
          obtain b w5 where cp: "ConfirmPrompt (p_lower p) ''Proceed with update? [y/N]: ''
              (printf ''INFO: new version      : %s'' [newVer] None (printf ''INFO: installed version: %s'' [oldVer] None w4)) = (b, w5)"
            by fastforce
          have c5: "w_cmds w5 = w_cmds w" "w_stdin w5 = snd (reply (p_lower p) (w_stdin w))" "b = fst (reply (p_lower p) (w_stdin w))"
            using ConfirmPrompt_reply [OF cp] c4 by simp_all
          show ?thesis
          proof (cases b)
            case False
            then show ?thesis using ret(2) cp c5 stop by auto
          next
            case True
            then have "obind (stop_mimo p [] w5) (\<lambda>r w6. case r of Inl e \<Rightarrow> (Return e, w6) | Inr orig1 \<Rightarrow> replace_files p orig1 w6) = (out, w')"
              using ret(2) cp by simp
            from stop_and_replace [OF this] show ?thesis using c5 True ok
              by (simp add: stop_session_def consent_def case_prod_beta)
          qed
        qed (use l(1) m(1) c1 stop in \<open>auto dest!: trace\<close>)
      qed (use l(1) c1 stop in \<open>auto dest!: trace\<close>)
    qed (use c1 stop in \<open>auto dest!: trace\<close>)
  qed
qed



theorem unverified_resources_refused_witness:
  "\<not> verified (demo_platform []) \<and> w_cmds (snd (RunUpdate (demo_platform []) demo_world)) = []"
proof -
  have e: "bytes_TrimSpace [] = []" by code_simp
  obtain c cs where "Sum256 [] = Some (c # cs)" 
    using Sum256_total [of "[]"] length_bytes_of by (metis length_0_conv neq_Nil_conv zero_neq_numeral)
  then have n: "\<not> verified (demo_platform [])" by (simp add: verified_def hex_string_def e)
  moreover have "(fst (RunUpdate (demo_platform []) demo_world), snd (RunUpdate (demo_platform []) demo_world))
      \<in> {RunUpdate (demo_platform []) demo_world, RuntgtUpdate (demo_platform []) [] demo_world}" by simp
  ultimately show ?thesis using unverified_resources_refused demo_world_ok(3) by metis
qed

section \<open>The commands of the system update\<close>

definition pkgdep_cmds :: "string list list set" where
  "pkgdep_cmds = insert [] ((\<lambda>script. [[''sudo'', ''apt'', ''update''], [''bash'', script]]) ` UNIV)"

definition enable_cmds :: "string \<Rightarrow> string list list" where
  "enable_cmds s = [[''systemctl'', ''enable'', s], [''systemctl'', ''start'', ''--no-block'', s]]"

definition cloud_cmds :: "string \<Rightarrow> string list list" where
  "cloud_cmds s = [[''systemctl'', ''stop'', s], [''systemctl'', ''disable'', s]]"

definition service_cmds :: "string list \<Rightarrow> string list list" where
  "service_cmds ss = [''systemctl'', ''daemon-reload''] # concat (map enable_cmds ss)"

lemma RunPkgDep_trace:
  assumes "RunPkgDep p w = (r, w')"
  shows "\<exists>cs \<in> pkgdep_cmds. w_cmds w' = w_cmds w @ cs"
  using assms unfolding RunPkgDep_def
proof (cases rule: obind_cases)
  case (ret root w1)
  obtain script w2 where fp: "first_present [Join [tmpDir, ''file'', ''SPDK_for_MIMO'', ''scripts'', ''pkgdep.sh''],
      Join [root, ''scripts'', ''pkgdep.sh'']] w1 = (script, w2)" by fastforce
  have c: "w_cmds w2 = w_cmds w"
    using calm.R_EnsureMimoRoot [THEN calm_dest, OF ret(1)] calm.R_first_present [THEN calm_dest, OF fp] by simp
  show ?thesis
  proof (cases "script = []")
    case True
    then show ?thesis using ret(2) fp c by (auto simp: pkgdep_cmds_def Let_def simp del: first_present.simps)
  next
    case False
    have cr: "w_cmds (case cmd_Run ex argv v of (Some e, u) \<Rightarrow> printf f [] (Some e) u | (None, u) \<Rightarrow> println g u) = w_cmds v @ [argv]"
      for ex argv v f g using cmd_trace(1) [OF prod.collapse [symmetric], of ex argv v] by (auto split: prod.split option.split)
    from False show ?thesis using ret(2) fp c
      by (auto simp: pkgdep_cmds_def Let_def cr simp del: first_present.simps)
  qed
qed (auto simp: pkgdep_cmds_def dest!: trace)

lemma enable_loop_trace: "w_cmds (enable_loop ex ss w) = w_cmds w @ concat (map enable_cmds ss)"
proof (induction ss arbitrary: w)
  case (Cons s ss)
  obtain e1 w1 where a: "cmd_Run ex [''systemctl'', ''enable'', s] w = (e1, w1)" by fastforce
  let ?v = "if e1 = None then w1 else printf ''WARN: enable %s failed'' [s] None w1"
  obtain e2 w2 where b: "cmd_Run ex [''systemctl'', ''start'', ''--no-block'', s] ?v = (e2, w2)" by fastforce
  have "enable_loop ex (s # ss) w = enable_loop ex ss (if e2 = None then w2 else printf ''WARN: start (non-blocking) %s failed'' [s] None w2)"
    using a b by (cases e1; cases e2) simp_all
  then show ?case using Cons.IH cmd_trace(1) [OF a] cmd_trace(1) [OF b] by (simp add: enable_cmds_def)
qed simp

lemma stop_loop_trace: "w_cmds (stop_loop ex ss w) = w_cmds w @ concat (map cloud_cmds ss)"
proof (induction ss arbitrary: w)
  case (Cons s ss)
  have c: "w_cmds (snd (cmd_Run ex argv v)) = w_cmds v @ [argv]" for argv v using cmd_trace(1) [OF prod.collapse [symmetric]] by blast
  show ?case by (simp add: Cons.IH c cloud_cmds_def)
qed simp

lemma DisableCloudInit_trace:
  "DisableCloudInit ex w = (r, w') \<Longrightarrow> w_cmds w' = w_cmds w @ concat (map cloud_cmds cloud_services)"
  using calm.R_write by (fastforce simp: DisableCloudInit_def Let_def stop_loop_trace calm_def split: prod.splits option.splits sum.splits dest!: trace)

text \<open>The services found are the installed unit files among the mappings, each once.\<close>

definition unit_names :: "(rune \<Rightarrow> rune) \<Rightarrow> FileMapping list \<Rightarrow> string set" where
  "unit_names uni_lower ms = {Base (Clean (Dst m)) | m. m \<in> set ms \<and> HasSuffix (ToLower uni_lower (Clean (Dst m))) ''.service''}"

lemma service_names_set:
  "service_names l ms ss w = (ss', w') \<Longrightarrow> distinct ss \<Longrightarrow> distinct ss' \<and> set ss' \<subseteq> set ss \<union> unit_names l ms"
proof (induction ms arbitrary: ss w)
  case (Cons m ms)
  obtain r w1 where st: "Stat (Clean (Dst m)) w = (r, w1)" by fastforce
  have sub: "unit_names l ms \<subseteq> unit_names l (m # ms)" by (auto simp: unit_names_def)
  show ?case
  proof (cases "HasSuffix (ToLower l (Clean (Dst m))) ''.service'' \<and> (\<exists>fi. r = Inr fi)")
    case True
    then have "service_names l ms (List.insert (Base (Clean (Dst m))) ss) w1 = (ss', w')" using Cons.prems(1) st by (auto simp: Let_def)
    moreover have "Base (Clean (Dst m)) \<in> unit_names l (m # ms)" using True by (auto simp: unit_names_def)
    ultimately show ?thesis using Cons.IH [of "List.insert (Base (Clean (Dst m))) ss" w1] Cons.prems(2) sub by auto
  next
    case False
    then have "\<exists>v. service_names l ms ss v = (ss', w')" using Cons.prems(1) st by (auto simp: Let_def split: if_splits sum.splits)
    then show ?thesis using Cons.IH Cons.prems(2) sub by blast
  qed
qed simp

lemma EnableServices_trace:
  assumes "EnableServices ex l ord (Some cfg) w = (None, w')"
  obtains ss where "w_cmds w' = w_cmds w @ (if ss = [] then [] else service_cmds (ord ss))" "distinct ss"
    "set ss \<subseteq> unit_names l (FileMappings cfg)"
proof -
  obtain ss w1 where sn: "service_names l (FileMappings cfg) [] w = (ss, w1)" by fastforce
  have c: "w_cmds w1 = w_cmds w" using calm.R_service_names [THEN calm_dest, OF sn] by simp
  show thesis
  proof (rule that [of ss])
    show "distinct ss" "set ss \<subseteq> unit_names l (FileMappings cfg)" using service_names_set [OF sn] by simp_all
    show "w_cmds w' = w_cmds w @ (if ss = [] then [] else service_cmds (ord ss))"
    proof (cases "ss = []")
      case False
      obtain e w2 where dr: "cmd_Run ex [''systemctl'', ''daemon-reload''] w1 = (e, w2)" by fastforce
      then have "w' = enable_loop ex (ord ss) w2" using assms sn False by (cases e) (auto simp: EnableServices_def)
      then show ?thesis using cmd_trace(1) [OF dr] c False by (simp add: enable_loop_trace service_cmds_def)
    qed (use assms sn c in \<open>simp add: EnableServices_def\<close>)
  qed
qed

text \<open>A transaction that succeeds runs the commands of its actions in order.\<close>

definition action_cmds :: "world action \<Rightarrow> string list list \<Rightarrow> bool" where
  "action_cmds a cs \<longleftrightarrow> Do a \<noteq> None \<and> (\<forall>w w'. the (Do a) w = (None, w') \<longrightarrow> w_cmds w' = w_cmds w @ cs)"

lemma forward_trace:
  "list_all2 action_cmds as css \<Longrightarrow> forward as w = (d, None, w') \<Longrightarrow> w_cmds w' = w_cmds w @ concat css"
proof (induction as css arbitrary: w d rule: list_all2_induct)
  case (Cons a as cs css)
  obtain e w1 where a: "the (Do a) w = (e, w1)" by fastforce
  with Cons.prems have e: "e = None" by (cases e) auto
  obtain d' r' w2 where f: "forward as w1 = (d', r', w2)" by (metis prod_cases3)
  then have r: "r' = None" "w2 = w'" using Cons.prems a e by auto
  have "w_cmds w1 = w_cmds w @ cs" using Cons.hyps(1) a e by (auto simp: action_cmds_def)
  then show ?case using Cons.IH [OF f [unfolded r]] by simp
qed simp

lemma update_action_cmds:
  "list_all2 action_cmds (update_actions ex cfg og oi)
     ([] # map (\<lambda>_. []) (FileMappings cfg) @ [[[''update-grub'']], [[''update-initramfs'', ''-u'']]])"
proof -
  have "action_cmds motd_action []" "action_cmds (copy_action m) []" for m
    using calm.R_file_actions by (auto simp: action_cmds_def motd_action_def copy_action_def Let_def dest!: calm_dest)
  moreover have "action_cmds (grub_action ex og) [[''update-grub'']]"
    by (auto simp: action_cmds_def grub_action_def grub_Do_def split: prod.splits option.splits dest!: trace)
  moreover have "action_cmds (init_action ex oi) [[''update-initramfs'', ''-u'']]"
    by (auto simp: action_cmds_def init_action_def init_Do_def split: prod.splits option.splits dest!: trace)
  ultimately show ?thesis by (auto simp: update_actions_def list_all2_append list_all2_map1 list_all2_map2 intro: list_all2_refl)
qed

lemma live_all: "list_all2 action_cmds as css \<Longrightarrow> live (map Some as) = as"
  by (induction as css rule: list_all2_induct) (auto simp: action_cmds_def)

lemma RunTransaction_trace:
  assumes "RunTransaction p (Some cfg) w = (None, w')"
  shows "w_cmds w' = w_cmds w @ [[''update-grub''], [''update-initramfs'', ''-u'']]"
proof -
  obtain og w1 where g: "read_orig grubFile w = (og, w1)" by fastforce
  obtain oi w2 where i: "read_orig initPath w1 = (oi, w2)" by fastforce
  have c: "w_cmds w2 = w_cmds w"
    using g i by (auto simp: read_orig_def split: prod.splits sum.splits dest!: trace)
  let ?as = "update_actions (p_ex p) cfg og oi"
  obtain d r w3 where f: "forward ?as w2 = (d, r, w3)" by (metis prod_cases3)
  have "r = None \<and> w' = w3"
    using assms f by (cases r) (auto simp: RunTransaction_actions g i Run_forward live_all [OF update_action_cmds] wrap_def)
  then show ?thesis using forward_trace [OF update_action_cmds, of "p_ex p" cfg og oi w2] f c by simp
qed

text \<open>The steps after the configuration is loaded.\<close>

definition finish :: "platform \<Rightarrow> Config \<Rightarrow> world \<Rightarrow> error option outcome \<times> world" where
  "finish p cfg w3 =
    (case RunTransaction p (Some cfg) w3 of
       (Some e, w4) \<Rightarrow> (Return (wrap ''executing transaction failed: %w'' (Some e)), w4)
     | (None, w4) \<Rightarrow>
         (case EnableServices (p_ex p) (p_lower p) (p_order p) (Some cfg) w4 of
            (Some e, w5) \<Rightarrow> (Return (wrap ''enabling system services failed: %w'' (Some e)), w5)
          | (None, w5) \<Rightarrow>
              (case DisableCloudInit (p_ex p) w5 of
                 (e, w6) \<Rightarrow> (Return (wrap ''disabling cloud-init failed: %w'' e), w6))))"

lemma finish_trace:
  assumes "finish p cfg w = (Return None, w')"
  obtains ss where "distinct ss" "set ss \<subseteq> unit_names (p_lower p) (FileMappings cfg)"
    "w_cmds w' = w_cmds w @ [[''update-grub''], [''update-initramfs'', ''-u'']] @
      (if ss = [] then [] else service_cmds (p_order p ss)) @ concat (map cloud_cmds cloud_services)"
proof -
  obtain e1 v1 where t: "RunTransaction p (Some cfg) w = (e1, v1)" by fastforce
  then have e1: "e1 = None" using assms by (cases e1) (auto simp: finish_def wrap_def)
  obtain e2 v2 where s: "EnableServices (p_ex p) (p_lower p) (p_order p) (Some cfg) v1 = (e2, v2)" by fastforce
  then have e2: "e2 = None" using assms t e1 by (cases e2) (auto simp: finish_def wrap_def)
  obtain e3 v3 where d: "DisableCloudInit (p_ex p) v2 = (e3, v3)" by fastforce
  then have "v3 = w'" using assms t e1 s e2 by (auto simp: finish_def)
  with DisableCloudInit_trace [OF d] have c: "w_cmds w' = w_cmds v2 @ concat (map cloud_cmds cloud_services)" by simp
  from s [unfolded e2] obtain ss where "w_cmds v2 = w_cmds v1 @ (if ss = [] then [] else service_cmds (p_order p ss))" "distinct ss"
    "set ss \<subseteq> unit_names (p_lower p) (FileMappings cfg)" by (rule EnableServices_trace)
  then show thesis using c RunTransaction_trace [OF t [unfolded e1]] by (intro that [of ss]) simp_all
qed

lemma install_trace:
  assumes "obind (RunPkgDep p w) (\<lambda>_ w2. obind (LoadFileOpsConfig sf q w2) (finish p)) = (Return None, w')"
  shows "\<exists>deps ss cfg u u'. LoadFileOpsConfig sf q u = (Return cfg, u') \<and>
    deps \<in> pkgdep_cmds \<and> distinct ss \<and> set ss \<subseteq> unit_names (p_lower p) (FileMappings cfg) \<and>
    w_cmds w' = w_cmds w @ deps @ [[''update-grub''], [''update-initramfs'', ''-u'']] @
      (if ss = [] then [] else service_cmds (p_order p ss)) @ concat (map cloud_cmds cloud_services)"
  using assms
proof (cases rule: obind_cases)
  case (ret u w1)
  obtain deps where d: "deps \<in> pkgdep_cmds" "w_cmds w1 = w_cmds w @ deps" using RunPkgDep_trace [OF ret(1)] by blast
  from ret(2) show ?thesis
  proof (cases rule: obind_cases)
    case (ret cfg w2)
    have "w_cmds w2 = w_cmds w1" using calm.R_LoadFileOpsConfig [THEN calm_dest, OF ret(1)] by simp
    moreover from ret(2) obtain ss where "distinct ss" "set ss \<subseteq> unit_names (p_lower p) (FileMappings cfg)"
      "w_cmds w' = w_cmds w2 @ [[''update-grub''], [''update-initramfs'', ''-u'']] @
        (if ss = [] then [] else service_cmds (p_order p ss)) @ concat (map cloud_cmds cloud_services)" by (rule finish_trace)
    ultimately have "LoadFileOpsConfig sf q w1 = (Return cfg, w2) \<and> deps \<in> pkgdep_cmds \<and> distinct ss \<and>
      set ss \<subseteq> unit_names (p_lower p) (FileMappings cfg) \<and>
      w_cmds w' = w_cmds w @ deps @ [[''update-grub''], [''update-initramfs'', ''-u'']] @
        (if ss = [] then [] else service_cmds (p_order p ss)) @ concat (map cloud_cmds cloud_services)" using d ret(1) by simp
    then show ?thesis by - (rule exI)+
  qed auto
qed auto


text \<open>
  A run that succeeds, to apply the theorem to: the archive holds an empty configuration, the hash
  is the archive's own, the commands are quiet. The worlds are evaluated step by step.
\<close>

definition upd_archive :: archive where
  "upd_archive = Inr ([\<lparr>e_hdr = \<lparr>hName = ''config.json'', hLinkname = [], hTypeflag = TypeReg, hMode = 0x1A4\<rparr>,
     e_data = ''{}'', e_err = None\<rparr>], None)"

definition upd_platform :: "bytes \<Rightarrow> platform" where
  "upd_platform h = (demo_platform h)\<lparr>p_unpack := \<lambda>_. upd_archive\<rparr>"

definition upd_world :: world where
  "upd_world = demo_world\<lparr>w_fs := [([''tmp''], DirN 0x1FF), ([''etc''], DirN 0x1ED),
     ([''etc'', ''update-motd.d''], DirN 0x1ED), ([''etc'', ''default''], DirN 0x1ED)], w_env := [(''MIMO_ROOT'', ''/m'')]\<rparr>"

definition "upd1 = println ''INFO: resources verified'' (snd (ExtractResources upd_archive (Clean tmpDir) upd_world))"
definition "upd2 = snd (RunPkgDep (upd_platform []) upd1)"
definition "upd3 = snd (LoadFileOpsConfig id (Join [Clean tmpDir, configFile]) upd2)"
definition "upd4 = snd (read_orig initPath (snd (read_orig grubFile upd3)))"
definition "upd5 = snd (motd_Do upd4)"
definition "upd6 = snd (grub_Do quiet_ex [] upd5)"
definition "upd7 = snd (init_Do quiet_ex upd6)"

lemma upd_start: "MustBeRoot upd_world = (Return (), upd_world)" "fst (EnsureMimoRoot upd_world) = Return ''/m''"
  "fst (ExtractResources upd_archive (Clean tmpDir) upd_world) = None"
  by (simp add: MustBeRoot_def upd_world_def demo_world_def) code_simp+
lemma upd_deps: "fst (RunPkgDep (upd_platform []) upd1) = Return ()" by code_simp
lemma upd_config: "fst (LoadFileOpsConfig id (Join [Clean tmpDir, configFile]) upd2) = Return \<lparr>FileMappings = []\<rparr>" by code_simp
lemma upd_orig: "fst (read_orig grubFile upd3) = []" "fst (read_orig initPath (snd (read_orig grubFile upd3))) = []" by code_simp+
lemma upd_motd: "fst (motd_Do upd4) = None" by code_simp
lemma upd_grub: "fst (grub_Do quiet_ex [] upd5) = None" by code_simp
lemma upd_init: "fst (init_Do quiet_ex upd6) = None" by code_simp
lemma upd_cloud: "fst (DisableCloudInit quiet_ex upd7) = None" by code_simp

lemma env_upd: "EnsureMimoRoot upd_world = (Return ''/m'', upd_world)"
  by (simp add: EnsureMimoRoot_def upd_world_def Getenv_def Let_def)

lemma pair_fst: "fst r = a \<Longrightarrow> r = (a, snd r)"
  by (cases r) simp

lemma upd_finish: "fst (finish (upd_platform h) \<lparr>FileMappings = []\<rparr> upd3) = Return None"
proof -
  have ex: "p_ex (upd_platform h) = quiet_ex" by (simp add: upd_platform_def)
  have "forward (update_actions quiet_ex \<lparr>FileMappings = []\<rparr> [] []) upd4 =
      (update_actions quiet_ex \<lparr>FileMappings = []\<rparr> [] [], None, upd7)"
    using pair_fst [OF upd_motd, folded upd5_def] pair_fst [OF upd_grub, folded upd6_def] pair_fst [OF upd_init, folded upd7_def]
    by (simp add: update_actions_def motd_action_def grub_action_def init_action_def)
  then have "RunTransaction (upd_platform h) (Some \<lparr>FileMappings = []\<rparr>) upd3 = (None, upd7)"
    using upd_orig live_all [OF update_action_cmds, of quiet_ex "\<lparr>FileMappings = []\<rparr>" "[]" "[]"]
    by (auto simp: RunTransaction_actions Run_forward ex upd4_def wrap_def case_prod_beta)
  then show ?thesis
    using upd_cloud by (simp add: finish_def EnableServices_def ex wrap_def case_prod_beta)
qed

lemma verify_own_hash:
  assumes "Sum256 (p_resources p) = Some d" "p_hash p = hex_string d" "ExtractResources (p_unpack p (p_resources p)) dir w = (None, w1)"
  shows "extractAndVerify p dir w = (Return None, println ''INFO: resources verified'' w1)"
proof -
  have "bytes_TrimSpace (hex_string d) = hex_string d"
    using bytes_TrimSpace_ascii hex_string_ok(1) strip_noop hex_string_ok(3) by metis
  then have "EqualFold (p_fold p) (hex_string d) (bytes_TrimSpace (hex_string d))" using EqualFold_ascii hex_string_ok(1) by metis
  then show ?thesis using assms by (simp add: extractAndVerify_def VerifyHash_def obind_def)
qed

lemma own_hash: "Sum256 [] = Some (the (Sum256 []))"
  using Sum256_total [of "[]"] by simp

lemma upd_verify:
  "extractAndVerify (upd_platform (hex_string (the (Sum256 [])))) (Clean tmpDir) upd_world = (Return None, upd1)"
  unfolding upd1_def
  by (rule verify_own_hash) (use own_hash pair_fst [OF upd_start(3)] in \<open>simp_all add: upd_platform_def\<close>)

lemma upd_succeeds: "\<exists>w'. RunUpdate (upd_platform (hex_string (the (Sum256 [])))) upd_world = (Return None, w')"
proof -
  let ?p = "upd_platform (hex_string (the (Sum256 [])))"
  have sel: "p_ex (upd_platform h) = quiet_ex" "p_fold (upd_platform h) = id" for h by (simp_all add: upd_platform_def)
  have p: "RunPkgDep ?p w = RunPkgDep (upd_platform []) w" "p_fold ?p = id" for w
    unfolding RunPkgDep_def sel by (rule refl)+
  have "update_body ?p upd_world = obind (RunPkgDep ?p upd1) (\<lambda>_ w2. obind (LoadFileOpsConfig (p_fold ?p) (Join [Clean tmpDir, configFile]) w2) (finish ?p))"
    unfolding update_body_def upd_verify finish_def [abs_def] obind_Return by simp
  also have "\<dots> = finish ?p \<lparr>FileMappings = []\<rparr> upd3"
    using pair_fst [OF upd_deps, folded upd2_def] pair_fst [OF upd_config, folded upd3_def] by (simp add: p obind_Return)
  also have "\<dots> = (Return None, snd (finish ?p \<lparr>FileMappings = []\<rparr> upd3))" by (rule pair_fst [OF upd_finish])
  finally show ?thesis by (simp add: RunUpdate_def upd_start env_upd obind_Return deferred_def)
qed


lemma refused_run:
  "\<exists>e. RunUpdate (upd_platform []) upd_world =
    (Return (Some e), remove_tmp (println ''ERROR: resources verification failed'' (snd (ExtractResources upd_archive (Clean tmpDir) upd_world))))"
proof -
  obtain c cs where d: "Sum256 [] = Some (c # cs)"
    using Sum256_total [of "[]"] length_bytes_of by (metis length_0_conv neq_Nil_conv zero_neq_numeral)
  have e: "bytes_TrimSpace [] = []" by code_simp
  obtain w1 where w1: "ExtractResources upd_archive (Clean tmpDir) upd_world = (None, w1)" using upd_start(3) by (metis prod.collapse)
  have "update_body (upd_platform []) upd_world =
      (Return (Some (Errorf ''resource verification failed'' [] None)), println ''ERROR: resources verification failed'' w1)"
    using w1 d by (simp add: update_body_def extractAndVerify_def upd_platform_def VerifyHash_def obind_def e hex_string_def)
  then show ?thesis by (simp add: RunUpdate_def upd_start env_upd obind_Return deferred_def w1)
qed


section \<open>Two limits of the procedures\<close>



definition bare_platform :: platform where
  "bare_platform = demo_platform (hex_string (the (Sum256 [])))"

definition "bare1 = println ''INFO: resources verified'' (snd (ExtractResources demo_archive (Clean tmpDir) upd_world))"

lemma bare_steps: "fst (ExtractResources demo_archive (Clean tmpDir) upd_world) = None"
  "fst (RunPkgDep (demo_platform []) bare1) = Return ()"
  "case LoadFileOpsConfig id (Join [Clean tmpDir, configFile]) (snd (RunPkgDep (demo_platform []) bare1)) of
     (out, w) \<Rightarrow> out = Exit 1 \<and> lookup (w_fs w) (tmp_path @ [''file'', ''x'']) = Some (FileN 0x1A4 ''hi'')"
  by code_simp+

text \<open>
  A fatal error ends the process without the deferred removal: with an archive that holds no
  configuration, the system update exits with status 1 and what it unpacked stays in \<open>/tmp\<close>.
\<close>

theorem fatal_exit_keeps_resources:
  "\<exists>w'. RunUpdate bare_platform upd_world = (Exit 1, w') \<and> lookup (w_fs w') (tmp_path @ [''file'', ''x'']) = Some (FileN 0x1A4 ''hi'')"
proof -
  let ?p = bare_platform
  have ev: "extractAndVerify ?p (Clean tmpDir) upd_world = (Return None, bare1)"
    unfolding bare1_def
    by (rule verify_own_hash) (use own_hash pair_fst [OF bare_steps(1)] in \<open>simp_all add: bare_platform_def\<close>)
  have sel: "p_ex ?p = quiet_ex" "p_ex (demo_platform []) = quiet_ex" "p_fold ?p = id" by (simp_all add: bare_platform_def)
  have pk: "RunPkgDep ?p w = RunPkgDep (demo_platform []) w" for w unfolding RunPkgDep_def sel by (rule refl)
  obtain w2 where w2: "RunPkgDep (demo_platform []) bare1 = (Return (), w2)" using pair_fst [OF bare_steps(2)] by blast
  obtain w3 where w3: "LoadFileOpsConfig id (Join [Clean tmpDir, configFile]) w2 = (Exit 1, w3)"
    "lookup (w_fs w3) (tmp_path @ [''file'', ''x'']) = Some (FileN 0x1A4 ''hi'')" using bare_steps(3) w2 by auto
  have "update_body ?p upd_world = (Exit 1, w3)"
    unfolding update_body_def ev obind_Return option.case pk w2 sel w3(1) by (simp add: obind_def)
  then show ?thesis using w3(2) by (simp add: RunUpdate_def upd_start env_upd obind_Return deferred_def)
qed

end
