(* ===== verification/TarFormat.thy ===== *)
theory TarFormat
  imports GoStrconv
begin

unbundle bit_operations_syntax

text \<open>
  Models of \<open>archive/tar/strconv.go\<close> and \<open>archive/tar/format.go\<close>: the fields of a header block, the
  numbers in them and the checksum. A \<open>parser\<close> remembers that it has seen an error; here every
  function returns that flag with its value. An \<open>int64\<close> is an \<open>int\<close>, with the conversions written
  out.
\<close>

section \<open>Errors\<close>

definition ErrHeader :: error where "ErrHeader = SentinelError ''archive/tar: invalid tar header''"
definition ErrFieldTooLong :: error where "ErrFieldTooLong = SentinelError ''archive/tar: header field too long''"
definition ErrInsecurePath :: error where "ErrInsecurePath = SentinelError ''archive/tar: insecure file path''"
definition errMissData :: error where "errMissData = SentinelError ''archive/tar: sparse file references non-existent data''"
definition errUnrefData :: error where "errUnrefData = SentinelError ''archive/tar: sparse file contains unreferenced data''"

section \<open>Strings and numbers\<close>

abbreviation (input) NUL :: char where "NUL \<equiv> CHR 0x00"

definition hasNUL :: "string \<Rightarrow> bool" where
  "hasNUL s \<longleftrightarrow> NUL \<in> set s"

text \<open>Ranging over the runes finds one outside ASCII exactly where there is such a byte.\<close>

definition isASCII :: "string \<Rightarrow> bool" where
  "isASCII s \<longleftrightarrow> list_all (\<lambda>c. byte c < 0x80 \<and> c \<noteq> NUL) s"

definition parseString :: "bytes \<Rightarrow> string" where
  "parseString b = takeWhile (\<lambda>c. c \<noteq> NUL) b"

text \<open>The conversion of a \<open>uint64\<close> to an \<open>int64\<close>.\<close>

definition to_int64 :: "nat \<Rightarrow> int" where
  "to_int64 u = (if u < 2 ^ 63 then int u else int u - 2 ^ 64)"

definition octal_pad :: "char \<Rightarrow> bool" where
  "octal_pad c \<longleftrightarrow> c = CHR '' '' \<or> c = NUL"

definition parseOctal :: "bytes \<Rightarrow> int \<times> bool" where
  "parseOctal b0 =
     (let b = rev (dropWhile octal_pad (rev (dropWhile octal_pad b0))) in
      if b = [] then (0, False)
      else (case ParseUint (parseString b) 8 64 of
              Inr x \<Rightarrow> (to_int64 x, False)
            | Inl ErrSyntax \<Rightarrow> (0, True)
            | Inl ErrRange \<Rightarrow> (to_int64 maxUint64, True)))"

definition byte8 :: "char \<Rightarrow> 8 word" where
  "byte8 c = word_of_nat (byte c)"

fun binary_loop :: "8 word \<Rightarrow> bool \<Rightarrow> bytes \<Rightarrow> 64 word \<Rightarrow> 64 word option" where
  "binary_loop mask1 first [] x = Some x"
| "binary_loop mask1 first (c0 # cs) x =
     (let c1 = byte8 c0 XOR mask1; c = (if first then c1 AND 0x7F else c1) in
      if drop_bit 56 x > 0 then None else binary_loop mask1 False cs (push_bit 8 x OR ucast c))"

definition parseNumeric :: "bytes \<Rightarrow> int \<times> bool" where
  "parseNumeric b =
     (if length b > 0 \<and> byte8 (b ! 0) AND 0x80 \<noteq> 0 then
        let mask1 = (if byte8 (b ! 0) AND 0x40 \<noteq> 0 then 0xFF else 0) in
        case binary_loop mask1 True b 0 of
          None \<Rightarrow> (0, True)
        | Some x \<Rightarrow>
            if drop_bit 63 x > 0 then (0, True)
            else if mask1 = 0xFF then (- uint x - 1, False)
            else (uint x, False)
      else parseOctal b)"

section \<open>Writing fields\<close>

definition trim_slashes :: "string \<Rightarrow> string" where
  "trim_slashes s = rev (dropWhile (\<lambda>c. c = slash) (rev s))"

definition formatString :: "bytes \<Rightarrow> string \<Rightarrow> bytes \<times> bool" where
  "formatString b s =
     (let b1 = take (length b) s @ drop (length s) b;
          b2 = (if length s < length b then b1[length s := NUL] else b1);
          b3 = (if length s > length b \<and> b2 ! (length b - 1) = slash
                then b2[length (trim_slashes (take (length b - 1) s)) := NUL] else b2)
      in (b3, length s > length b))"

definition fitsInBase256 :: "nat \<Rightarrow> int \<Rightarrow> bool" where
  "fitsInBase256 n x \<longleftrightarrow> n \<ge> 9 \<or> (x \<ge> - (2 ^ (8 * (n - 1))) \<and> x < 2 ^ (8 * (n - 1)))"

definition fitsInOctal :: "nat \<Rightarrow> int \<Rightarrow> bool" where
  "fitsInOctal n x \<longleftrightarrow> x \<ge> 0 \<and> (n \<ge> 22 \<or> x < 2 ^ (3 * (n - 1)))"

text \<open>\<open>strconv.FormatInt(x, 8)\<close> for a number that is not negative: the loop for powers of two.\<close>

function octal_loop :: "nat \<Rightarrow> string \<Rightarrow> string" where
  "octal_loop u a = (if u \<ge> 8 then octal_loop (drop_bit 3 u) (digit (u AND 7) # a) else digit u # a)"
  by pat_completeness auto
termination by (relation "measure fst") (auto simp: drop_bit_eq_div)

declare octal_loop.simps [simp del]

definition formatOctal :: "bytes \<Rightarrow> int \<Rightarrow> bytes \<times> bool" where
  "formatOctal b x0 =
     (let bad = \<not> fitsInOctal (length b) x0; x = (if bad then 0 else x0);
          s0 = octal_loop (nat x) [];
          s = (if length b > length s0 + 1 then replicate (length b - length s0 - 1) (CHR ''0'') @ s0 else s0)
      in case formatString b s of (b', e) \<Rightarrow> (b', bad \<or> e))"

text \<open>The loop that fills the field from its end, with the last eight bits of \<open>x\<close> in each turn.\<close>

fun binary_bytes :: "nat \<Rightarrow> int \<Rightarrow> bytes \<Rightarrow> bytes" where
  "binary_bytes 0 x a = a"
| "binary_bytes (Suc n) x a = binary_bytes n (drop_bit 8 x) (char_of (x mod 256) # a)"

definition formatNumeric :: "bytes \<Rightarrow> int \<Rightarrow> bytes \<times> bool" where
  "formatNumeric b x =
     (if fitsInOctal (length b) x then formatOctal b x
      else if fitsInBase256 (length b) x then
        (let b' = binary_bytes (length b) x [] in (b'[0 := char_of (byte (b' ! 0) OR 0x80)], False))
      else (fst (formatOctal b 0), True))"

section \<open>Header blocks\<close>

type_synonym Format = "8 word"

definition FormatUnknown :: Format where "FormatUnknown = 0"
definition formatV7 :: Format where "formatV7 = 1"
definition FormatUSTAR :: Format where "FormatUSTAR = 2"
definition FormatPAX :: Format where "FormatPAX = 4"
definition FormatGNU :: Format where "FormatGNU = 8"
definition formatSTAR :: Format where "formatSTAR = 16"

definition fmt_has :: "Format \<Rightarrow> Format \<Rightarrow> bool" where
  "fmt_has f f2 \<longleftrightarrow> f AND f2 \<noteq> 0"

definition magicGNU :: string where "magicGNU = ''ustar ''"
definition versionGNU :: string where "versionGNU = [CHR '' '', NUL]"
definition magicUSTAR :: string where "magicUSTAR = ''ustar'' @ [NUL]"
definition versionUSTAR :: string where "versionUSTAR = ''00''"
definition trailerSTAR :: string where "trailerSTAR = ''tar'' @ [NUL]"

definition blockSize :: nat where "blockSize = 512"

text \<open>A field of a block: \<open>h[i:][:n]\<close>.\<close>

definition fld :: "nat \<Rightarrow> nat \<Rightarrow> bytes \<Rightarrow> bytes" where
  "fld i n h = take n (drop i h)"

text \<open>Writing a field of a block.\<close>

definition set_fld :: "nat \<Rightarrow> bytes \<Rightarrow> bytes \<Rightarrow> bytes" where
  "set_fld i b h = take i h @ b @ drop (i + length b) h"

definition v7_name :: "bytes \<Rightarrow> bytes" where "v7_name = fld 0 100"
definition v7_mode :: "bytes \<Rightarrow> bytes" where "v7_mode = fld 100 8"
definition v7_uid :: "bytes \<Rightarrow> bytes" where "v7_uid = fld 108 8"
definition v7_gid :: "bytes \<Rightarrow> bytes" where "v7_gid = fld 116 8"
definition v7_size :: "bytes \<Rightarrow> bytes" where "v7_size = fld 124 12"
definition v7_modTime :: "bytes \<Rightarrow> bytes" where "v7_modTime = fld 136 12"
definition v7_chksum :: "bytes \<Rightarrow> bytes" where "v7_chksum = fld 148 8"
definition v7_typeFlag :: "bytes \<Rightarrow> bytes" where "v7_typeFlag = fld 156 1"
definition v7_linkName :: "bytes \<Rightarrow> bytes" where "v7_linkName = fld 157 100"
definition ustar_magic :: "bytes \<Rightarrow> bytes" where "ustar_magic = fld 257 6"
definition ustar_version :: "bytes \<Rightarrow> bytes" where "ustar_version = fld 263 2"
definition ustar_userName :: "bytes \<Rightarrow> bytes" where "ustar_userName = fld 265 32"
definition ustar_groupName :: "bytes \<Rightarrow> bytes" where "ustar_groupName = fld 297 32"
definition ustar_devMajor :: "bytes \<Rightarrow> bytes" where "ustar_devMajor = fld 329 8"
definition ustar_devMinor :: "bytes \<Rightarrow> bytes" where "ustar_devMinor = fld 337 8"
definition ustar_prefix :: "bytes \<Rightarrow> bytes" where "ustar_prefix = fld 345 155"
definition gnu_accessTime :: "bytes \<Rightarrow> bytes" where "gnu_accessTime = fld 345 12"
definition gnu_changeTime :: "bytes \<Rightarrow> bytes" where "gnu_changeTime = fld 357 12"
definition gnu_sparse :: "bytes \<Rightarrow> bytes" where "gnu_sparse = fld 386 97"
definition gnu_realSize :: "bytes \<Rightarrow> bytes" where "gnu_realSize = fld 483 12"
definition star_prefix :: "bytes \<Rightarrow> bytes" where "star_prefix = fld 345 131"
definition star_accessTime :: "bytes \<Rightarrow> bytes" where "star_accessTime = fld 476 12"
definition star_changeTime :: "bytes \<Rightarrow> bytes" where "star_changeTime = fld 488 12"
definition star_trailer :: "bytes \<Rightarrow> bytes" where "star_trailer = fld 508 4"

text \<open>\<open>int64(int8(c))\<close>.\<close>

definition int8 :: "char \<Rightarrow> int" where
  "int8 c = (if byte c < 128 then int (byte c) else int (byte c) - 256)"

fun checksum_loop :: "nat \<Rightarrow> bytes \<Rightarrow> int \<Rightarrow> int \<Rightarrow> int \<times> int" where
  "checksum_loop i [] u s = (u, s)"
| "checksum_loop i (c0 # b) u s =
     (let c = (if 148 \<le> i \<and> i < 156 then CHR '' '' else c0)
      in checksum_loop (i + 1) b (u + int (byte c)) (s + int8 c))"

definition computeChecksum :: "bytes \<Rightarrow> int \<times> int" where
  "computeChecksum b = checksum_loop 0 b 0 0"

definition getFormat :: "bytes \<Rightarrow> Format" where
  "getFormat b =
     (case parseOctal (v7_chksum b) of (v, err) \<Rightarrow>
      case computeChecksum b of (chksum1, chksum2) \<Rightarrow>
        if err \<or> (v \<noteq> chksum1 \<and> v \<noteq> chksum2) then FormatUnknown
        else if ustar_magic b = magicUSTAR \<and> star_trailer b = trailerSTAR then formatSTAR
        else if ustar_magic b = magicUSTAR then FormatUSTAR OR FormatPAX
        else if ustar_magic b = magicGNU \<and> ustar_version b = versionGNU then FormatGNU
        else formatV7)"

definition setFormat :: "Format \<Rightarrow> bytes \<Rightarrow> bytes option" where
  "setFormat format b =
     (let magic =
        (if fmt_has format formatV7 then Some b
         else if fmt_has format FormatGNU then Some (set_fld 263 versionGNU (set_fld 257 magicGNU b))
         else if fmt_has format formatSTAR then
           Some (set_fld 508 trailerSTAR (set_fld 263 versionUSTAR (set_fld 257 magicUSTAR b)))
         else if fmt_has format (FormatUSTAR OR FormatPAX) then
           Some (set_fld 263 versionUSTAR (set_fld 257 magicUSTAR b))
         else None)
      in case magic of
           None \<Rightarrow> None
         | Some b1 \<Rightarrow>
             (let chksum = fst (computeChecksum b1);
                  field = fst (formatOctal (take 7 (v7_chksum b1)) chksum)
              in Some (set_fld 148 (field @ '' '') b1)))"

section \<open>Numbers written and read back\<close>

definition odigit :: "char \<Rightarrow> bool" where
  "odigit c \<longleftrightarrow> 0x30 \<le> byte c \<and> byte c \<le> 0x37"

fun oct_val :: "string \<Rightarrow> nat \<Rightarrow> nat" where
  "oct_val [] n = n"
| "oct_val (c # s) n = oct_val s (8 * n + (byte c - 0x30))"

lemma oct_val_append: "oct_val (s @ t) n = oct_val t (oct_val s n)"
  by (induction s arbitrary: n) auto

lemma oct_val_ge: "n \<le> oct_val s n"
proof (induction s arbitrary: n)
  case (Cons c s)
  have "n \<le> 8 * n + (byte c - 0x30)" by simp
  also have "\<dots> \<le> oct_val s (8 * n + (byte c - 0x30))" by (rule Cons)
  finally show ?case by simp
qed simp

lemma parse_octal: "list_all odigit s \<Longrightarrow> oct_val s n < 2 ^ 64 \<Longrightarrow> parse_uint_loop 8 maxUint64 s n = Inr (oct_val s n)"
proof (induction s arbitrary: n)
  case (Cons c s)
  define d where "d = byte c - 0x30"
  have c: "0x30 \<le> byte c" "byte c \<le> 0x37" using Cons.prems(1) by (auto simp: odigit_def)
  then have d: "d < 8" by (simp add: d_def)
  have lt: "8 * n + d < 2 ^ 64"
    using oct_val_ge [of "8 * n + d" s] Cons.prems(2) by (simp add: d_def)
  then have n: "\<not> maxUint64 div 8 + 1 \<le> n" by simp
  have "parse_uint_loop 8 maxUint64 s (8 * n + d) = Inr (oct_val s (8 * n + d))"
    using Cons.IH [of "8 * n + d"] Cons.prems by (simp add: d_def)
  with n lt c d show ?case by (simp add: Let_def d_def mult.commute)
qed simp

definition octal :: "nat \<Rightarrow> string \<Rightarrow> bool" where
  "octal u s \<longleftrightarrow> list_all odigit s \<and> s \<noteq> [] \<and> oct_val s 0 = u \<and> (\<forall>m \<ge> 1. u < 8 ^ m \<longrightarrow> length s \<le> m)"

lemma odigit_digit: "d < 8 \<Longrightarrow> odigit (digit d)"
  by (simp add: odigit_def)

lemma octal_snoc:
  assumes "octal (u div 8) s" "8 \<le> u"
  shows "octal u (s @ [digit (u mod 8)])"
proof -
  have "length s + 1 \<le> m" if m: "1 \<le> m" "u < 8 ^ m" for m
  proof (cases "m = 1")
    case False
    then obtain k where k: "m = Suc k" "1 \<le> k" using m(1) by (cases m) auto
    then have "u div 8 < 8 ^ k" using m(2) by (simp add: less_mult_imp_div_less mult.commute)
    then show ?thesis using assms(1) k by (auto simp: octal_def)
  qed (use m assms(2) in simp)
  then show ?thesis using assms by (auto simp: octal_def oct_val_append odigit_digit)
qed

lemma octal_loop_digits: "\<exists>s. octal_loop u a = s @ a \<and> octal u s"
proof (induction u a rule: octal_loop.induct)
  case (1 u a)
  have m: "u AND 7 = u mod 8" using take_bit_eq_mask [of 3 u] by (simp add: take_bit_eq_mod mask_eq_exp_minus_1)
  show ?case
  proof (cases "u \<ge> 8")
    case True
    from "1.IH" [OF True] obtain s where "octal_loop (u div 8) (digit (u mod 8) # a) = s @ digit (u mod 8) # a" "octal (u div 8) s"
      by (auto simp: drop_bit_eq_div m)
    then show ?thesis using octal_snoc [OF _ True] True
      by (subst octal_loop.simps) (auto simp: drop_bit_eq_div m intro!: exI [of _ "s @ [digit (u mod 8)]"])
  next
    case False
    then have "octal u [digit u]" by (auto simp: octal_def odigit_digit)
    then show ?thesis using False by (subst octal_loop.simps) auto
  qed
qed

lemma odigit_facts: "odigit c \<Longrightarrow> \<not> octal_pad c \<and> c \<noteq> NUL \<and> byte c < 128"
  by (auto simp: odigit_def octal_pad_def)

lemma parseOctal_digits:
  assumes "list_all odigit s" "s \<noteq> []" "oct_val s 0 < 2 ^ 63" "list_all octal_pad p"
  shows "parseOctal (s @ p) = (int (oct_val s 0), False)"
proof -
  obtain c cs where s: "s = c # cs" using assms(2) by (cases s) auto
  have l: "dropWhile octal_pad (s @ p) = s @ p" using s assms(1) odigit_facts by simp
  have "dropWhile octal_pad (rev p @ rev s) = rev s"
    using assms odigit_facts [of "last s"] last_in_set [OF assms(2)]
    by (subst dropWhile_append2) (auto simp: list_all_iff hd_rev intro!: dropWhile_eq_self_iff [THEN iffD2])
  moreover have "parseString s = s" using assms(1) odigit_facts by (auto simp: parseString_def list_all_iff)
  moreover have "oct_val s 0 < 2 ^ 64" using assms(3) by simp
  ultimately show ?thesis using l s parse_octal [OF assms(1), of 0] assms(2,3)
    by (simp add: parseOctal_def Let_def ParseUint_def to_int64_def)
qed

lemma oct_val_zeros: "oct_val (replicate k (CHR ''0'') @ s) 0 = oct_val s 0"
  by (induction k) auto

text \<open>What \<open>formatOctal\<close> writes into a field that is long enough.\<close>

lemma formatOctal_field:
  assumes "fitsInOctal (length b) x" "b \<noteq> []" "x < 2 ^ 63"
  obtains t p where "formatOctal b x = (t @ p, False)" "length (t @ p) = length b" "list_all odigit t" "t \<noteq> []"
    "oct_val t 0 = nat x" "list_all octal_pad p"
proof -
  have x: "0 \<le> x" using assms(1) by (simp add: fitsInOctal_def)
  obtain s where s: "octal_loop (nat x) [] = s" "octal (nat x) s" using octal_loop_digits [of "nat x" "[]"] by auto
  have d: "list_all odigit s" "s \<noteq> []" "oct_val s 0 = nat x" using s(2) by (auto simp: octal_def)
  have lim: "length s \<le> max 1 (length b - 1)"
  proof (cases "length b \<ge> 22")
    case True
    have "nat x < 8 ^ 21" using assms(3) x by (simp add: nat_less_iff)
    then have "length s \<le> 21" using s(2) by (simp add: octal_def)
    then show ?thesis using True by simp
  next
    case False
    then have "x < 2 ^ (3 * (length b - 1))" using assms(1) by (simp add: fitsInOctal_def)
    then have lt: "nat x < 8 ^ (length b - 1)" using x by (simp add: nat_less_iff power_mult)
    have "nat x < 8 ^ max 1 (length b - 1)" using lt power_increasing [of "length b - 1" "max 1 (length b - 1)" "8 :: nat"]
      by linarith
    then show ?thesis using s(2) by (simp add: octal_def)
  qed
  show thesis
  proof (cases "length b = 1")
    case True
    then have "length s = 1" using lim d(2) by (cases s) auto
    then have "formatOctal b x = (s @ [], False)" using True assms(1) s(1)
      by (cases s) (simp_all add: formatOctal_def formatString_def Let_def)
    then show thesis using that [of s "[]"] d True \<open>length s = 1\<close> by simp
  next
    case False
    then have len: "2 \<le> length b" using assms(2) by (cases b) (auto simp: Suc_le_eq)
    let ?t = "replicate (length b - length s - 1) (CHR ''0'') @ s"
    have lt: "length ?t = length b - 1" using lim len by simp
    have "take (length b) ?t @ drop (length ?t) b = ?t @ [last b]"
      using lt assms(2) by (cases b rule: rev_cases) simp_all
    then have "formatString b ?t = (?t @ [NUL], False)" using lt len
      by (auto simp: formatString_def Let_def list_update_append)
    then have "formatOctal b x = (?t @ [NUL], False)" using assms(1) lim len
      by (cases "length s + 1 < length b") (simp_all add: formatOctal_def Let_def s(1))
    moreover have "list_all odigit ?t" using d(1) by (auto simp: list_all_iff odigit_def)
    ultimately show thesis using that [of ?t "[NUL]"] d lt len oct_val_zeros by (simp add: octal_pad_def)
  qed
qed


section \<open>Binary numbers\<close>

text \<open>The value of bytes, most significant first, each inverted or not.\<close>

fun be_val :: "bool \<Rightarrow> bytes \<Rightarrow> nat \<Rightarrow> nat" where
  "be_val neg [] v = v"
| "be_val neg (c # cs) v = be_val neg cs (256 * v + (if neg then 255 - byte c else byte c))"

lemma be_val_ge: "v * 256 ^ length cs \<le> be_val neg cs v"
proof (induction cs arbitrary: v)
  case (Cons c cs)
  have "v * 256 ^ length (c # cs) \<le> (256 * v + (if neg then 255 - byte c else byte c)) * 256 ^ length cs" by (simp add: algebra_simps)
  also have "\<dots> \<le> be_val neg cs (256 * v + (if neg then 255 - byte c else byte c))" by (rule Cons)
  finally show ?case by simp
qed simp

lemma be_val_append: "be_val neg (cs @ ds) v = be_val neg ds (be_val neg cs v)"
  by (induction cs arbitrary: v) auto

lemma invert_byte: "unat (byte8 c XOR 0xFF) = 255 - byte c"
proof -
  have "\<forall>n \<in> {..<256}. unat ((word_of_nat n :: 8 word) XOR 0xFF) = 255 - n" by code_simp
  then show ?thesis by (simp add: byte8_def)
qed

lemma unat_byte8: "unat (byte8 c) = byte c"
  by (simp add: byte8_def unat_of_nat)

lemma shift_or: "unat x < 2 ^ 56 \<Longrightarrow> unat (push_bit 8 x OR ucast c) = 256 * unat x + unat c" for x :: "64 word" and c :: "8 word"
proof -
  assume x: "unat x < 2 ^ 56"
  have "push_bit 8 x AND ucast c = 0"
    by (rule bit_eqI) (auto simp: bit_and_iff bit_push_bit_iff bit_ucast_iff dest: bit_imp_le_length)
  then have "push_bit 8 x OR ucast c = push_bit 8 x + ucast c" by (simp add: disjunctive_add_eq_or)
  moreover have "unat (push_bit 8 x) = 256 * unat x" using x by (simp add: push_bit_eq_mult unat_word_ariths)
  moreover have c: "unat c < 256" using unsigned_less [of c] by simp
  moreover have "unat (ucast c :: 64 word) = unat c" using c by (simp add: unsigned_ucast_eq take_bit_nat_eq_self_iff)
  ultimately show ?thesis using x by (simp add: unat_word_ariths)
qed

lemma binary_loop_val:
  "be_val neg cs (unat x) < 2 ^ 64 \<Longrightarrow>
   \<exists>y. binary_loop (if neg then 0xFF else 0) False cs x = Some y \<and> unat y = be_val neg cs (unat x)"
proof (induction cs arbitrary: x)
  case (Cons c cs)
  let ?c = "byte8 c XOR (if neg then 0xFF else 0)"
  have uc: "unat ?c = (if neg then 255 - byte c else byte c)" by (simp add: invert_byte unat_byte8)
  have "unat x * 256 \<le> unat x * 256 ^ length (c # cs)" by simp
  also have "\<dots> < 2 ^ 64" using be_val_ge [of "unat x" "c # cs" neg] Cons.prems by linarith
  finally have x: "unat x < 2 ^ 56" by simp
  then have "\<not> drop_bit 56 x > 0" by (simp add: word_gt_0 drop_bit_eq_div unat_div word_unat_eq_iff)
  moreover have "unat (push_bit 8 x OR ucast ?c) = 256 * unat x + (if neg then 255 - byte c else byte c)"
    using shift_or [OF x, of ?c] uc by simp
  ultimately show ?case using Cons.IH [of "push_bit 8 x OR ucast ?c"] Cons.prems by (simp add: Let_def)
qed simp


lemma byte_char_of [simp]: "int (byte (char_of (x :: int))) = x mod 256"
  by (metis of_char_of of_nat_of_char)

lemma byte_char_of_nat: "byte (char_of (x :: int)) = nat (x mod 256)"
  by (metis byte_char_of nat_int)

lemma binary_bytes_append: "binary_bytes n x a = binary_bytes n x [] @ a"
proof (induction n arbitrary: x a)
  case (Suc n)
  show ?case using Suc [of "drop_bit 8 x" "char_of (x mod 256) # a"] Suc [of "drop_bit 8 x" "[char_of (x mod 256)]"] by simp
qed simp

lemma binary_bytes_Suc: "binary_bytes (Suc n) x [] = binary_bytes n (x div 256) [] @ [char_of (x mod 256)]"
  using binary_bytes_append [of n "drop_bit 8 x" "[char_of (x mod 256)]"] by (simp add: drop_bit_eq_div)

lemma length_binary_bytes [simp]: "length (binary_bytes n x a) = n + length a"
  by (induction n arbitrary: x a) auto

text \<open>The first byte is the sign if the number fits into the others.\<close>

lemma binary_bytes_split:
  "binary_bytes (Suc n) x [] = char_of (x div 256 ^ n mod 256) # binary_bytes n x []"
proof (induction n arbitrary: x)
  case (Suc n)
  have "x div 256 div 256 ^ n = x div 256 ^ Suc n" by (simp add: div_mult2_eq [symmetric] zdiv_zmult2_eq)
  then show ?case using Suc [of "x div 256"] by (simp add: binary_bytes_Suc del: binary_bytes.simps)
qed (simp add: binary_bytes_Suc del: binary_bytes.simps(2))

lemma byte_le: "byte c \<le> 255"
  using nat_of_char_less_256 [of c] by linarith

lemma neg_split: "256 * q + r = x \<Longrightarrow> - x - 1 = 256 * (- q - 1) + (255 - r)" for q r x :: int
  by simp

lemma be_val_bytes:
  "int (be_val False (binary_bytes n x []) 0) = x mod 256 ^ n"
  "int (be_val True (binary_bytes n x []) 0) = (- x - 1) mod 256 ^ n"
proof (induction n arbitrary: x)
  case (Suc n)
  {
    case 1
    have "int (be_val False (binary_bytes (Suc n) x []) 0) = 256 * (x div 256 mod 256 ^ n) + x mod 256"
      using Suc(1) [of "x div 256"] by (simp add: binary_bytes_Suc be_val_append del: binary_bytes.simps)
    also have "\<dots> = x mod 256 ^ Suc n" by (simp add: zmod_zmult2_eq)
    finally show ?case .
  next
    case 2
    have x: "- x - 1 = 256 * (- (x div 256) - 1) + (255 - x mod 256)" 
      using neg_split [OF mult_div_mod_eq [of 256 x]] .
    have "0 \<le> 255 - x mod 256" "255 - x mod 256 < 256" using pos_mod_sign [of 256 x] pos_mod_bound [of 256 x] by linarith+
    note d = int_div_pos_eq [OF x this] int_mod_pos_eq [OF x this]
    have "int (be_val True (binary_bytes (Suc n) x []) 0) = 256 * ((- x - 1) div 256 mod 256 ^ n) + (- x - 1) mod 256"
    proof -
      have "int (be_val True (binary_bytes (Suc n) x []) 0) =
          256 * int (be_val True (binary_bytes n (x div 256) []) 0) + int (255 - byte (char_of x))"
        by (simp add: binary_bytes_Suc be_val_append del: binary_bytes.simps of_nat_diff)
      moreover have "int (255 - byte (char_of x)) = 255 - x mod 256" using of_nat_diff [OF byte_le, of "char_of x", where ?'a = int] by simp
      ultimately show ?thesis using Suc(2) [of "x div 256"] unfolding d by simp
    qed
    also have "\<dots> = (- x - 1) mod 256 ^ Suc n" by (simp add: zmod_zmult2_eq)
    finally show ?case .
  }
qed simp_all


lemma sign_byte:
  "byte8 (char_of (byte (char_of (255 :: int)) OR 0x80)) = 0xFF" "byte8 (char_of (byte (char_of (0 :: int)) OR 0x80)) = 0x80"
  by code_simp+

lemma formatOctal_numeric:
  assumes "b \<noteq> []" "x < 2 ^ 63" "fitsInOctal (length b) x"
  shows "\<exists>f. formatOctal b x = (f, False) \<and> length f = length b \<and> parseNumeric f = (x, False)"
proof -
  obtain t p where f: "formatOctal b x = (t @ p, False)" "length (t @ p) = length b" "list_all odigit t" "t \<noteq> []"
    "oct_val t 0 = nat x" "list_all octal_pad p" using formatOctal_field [OF assms(3,1,2)] .
  have x: "0 \<le> x" using assms(3) by (simp add: fitsInOctal_def)
  have "byte8 ((t @ p) ! 0) AND 0x80 = 0"
  proof -
    have "\<forall>n \<in> {0x30..0x37}. (word_of_nat n :: 8 word) AND 0x80 = 0" by code_simp
    moreover have "odigit ((t @ p) ! 0)" using f(3,4) by (cases t) auto
    ultimately show ?thesis by (auto simp: odigit_def byte8_def)
  qed
  then have "parseNumeric (t @ p) = parseOctal (t @ p)" by (simp add: parseNumeric_def)
  then show ?thesis using f parseOctal_digits [OF f(3,4) _ f(6)] x assms(2) by (simp add: nat_less_iff)
qed

text \<open>
  C27. Numbers in tar headers: what \<open>formatNumeric\<close> writes into a field, in octal or, where that does
  not fit, in base 256 with two's complement, is read back by \<open>parseNumeric\<close>, for every \<open>int64\<close> that
  fits into the field in one of the two forms.
\<close>

theorem parseNumeric_formatNumeric:
  assumes "b \<noteq> []" "- (2 ^ 63) \<le> x" "x < 2 ^ 63" "fitsInOctal (length b) x \<or> fitsInBase256 (length b) x"
  shows "\<exists>f. formatNumeric b x = (f, False) \<and> length f = length b \<and> parseNumeric f = (x, False)"
proof (cases "fitsInOctal (length b) x")
  case True
  then show ?thesis using formatOctal_numeric [OF assms(1,3)] by (simp add: formatNumeric_def)
next
  case False
  then have fit: "fitsInBase256 (length b) x" using assms(4) by simp
  obtain n where n: "length b = Suc n" using assms(1) by (cases b) auto
  let ?neg = "x < 0" let ?m = "if ?neg then 0xFF else 0 :: 8 word" let ?r = "binary_bytes n x []"
  have lim: "- (256 ^ n) \<le> x \<and> x < 256 ^ n"
  proof (cases "n \<ge> 8")
    case True
    then have "(2 :: int) ^ 64 \<le> 256 ^ n" using power_increasing [of 8 n "256 :: int"] by simp
    then show ?thesis using assms(2,3) by simp
  qed (use fit n in \<open>simp add: fitsInBase256_def power_mult\<close>)
  then have "x div 256 ^ n = (if ?neg then - 1 else 0)" by (auto simp: div_pos_pos_trivial int_div_pos_eq [where q = "- 1" and r = "x + 256 ^ n"])
  then have hd: "binary_bytes (Suc n) x [] = char_of (if ?neg then 255 else 0 :: int) # ?r"
    using binary_bytes_split [of n x] by simp
  define f where "f = char_of (byte (char_of (if ?neg then 255 else 0 :: int)) OR 0x80) # ?r"
  have fm: "formatNumeric b x = (f, False)" using False fit n hd by (simp add: formatNumeric_def Let_def f_def del: binary_bytes.simps)
  have h: "byte8 (f ! 0) = (if ?neg then 0xFF else 0x80)" using sign_byte by (simp add: f_def)
  define v where "v = be_val ?neg ?r 0"
  have v: "int v = (if ?neg then - x - 1 else x)"
    using be_val_bytes [of n x] lim by (auto simp: v_def mod_pos_pos_trivial)
  then have "int v < 2 ^ 63" using assms(2,3) by (simp split: if_splits)
  then have v63: "v < 2 ^ 63" by simp
  then have "be_val ?neg ?r (unat (0 :: 64 word)) < 2 ^ 64" by (simp add: v_def)
  from binary_loop_val [OF this] obtain y where y: "binary_loop ?m False ?r 0 = Some y" "unat y = v" by (auto simp: v_def)
  have first: "binary_loop ?m True f 0 = Some y" using y(1) h by (auto simp: f_def Let_def)
  have "\<not> drop_bit 63 y > 0" using y(2) v63 by (simp add: word_gt_0 drop_bit_eq_div unat_div word_unat_eq_iff)
  moreover have "uint y = int v" using y(2) by (metis uint_nat)
  moreover have "byte8 (f ! 0) AND 0x80 \<noteq> 0" "(byte8 (f ! 0) AND 0x40 \<noteq> 0) = ?neg" using h by auto
  ultimately have "parseNumeric f = (x, False)" using first v by (auto simp: parseNumeric_def f_def)
  then show ?thesis using fm n by (simp add: f_def)
qed

theorem parseNumeric_formatNumeric_witness:
  "parseNumeric (fst (formatNumeric (replicate 12 NUL) (- 9223372036854775808))) = (- 9223372036854775808, False)"
proof -
  have "fitsInBase256 (length (replicate 12 NUL)) (- 9223372036854775808)" by (simp add: fitsInBase256_def)
  then show ?thesis using parseNumeric_formatNumeric [of "replicate 12 NUL" "- 9223372036854775808"] by auto
qed

section \<open>The checksum\<close>

text \<open>A byte as the checksum counts it.\<close>

definition counted :: "nat \<Rightarrow> char \<Rightarrow> char" where
  "counted i c = (if 148 \<le> i \<and> i < 156 then CHR '' '' else c)"

fun weigh :: "(char \<Rightarrow> int) \<Rightarrow> nat \<Rightarrow> bytes \<Rightarrow> int" where
  "weigh f i [] = 0"
| "weigh f i (c # b) = f (counted i c) + weigh f (i + 1) b"

lemma checksum_weigh: "checksum_loop i b u s = (u + weigh (\<lambda>c. int (byte c)) i b, s + weigh int8 i b)"
  by (induction b arbitrary: i u s) (auto simp: counted_def Let_def)

lemma weigh_update: "k < length b \<Longrightarrow> weigh f i (b[k := c]) = weigh f i b - f (counted (i + k) (b ! k)) + f (counted (i + k) c)"
proof (induction b arbitrary: i k)
  case (Cons d b)
  then show ?case by (cases k) auto
qed simp

lemma weigh_signed: "\<exists>k \<ge> 0. weigh int8 i b = weigh (\<lambda>c. int (byte c)) i b - 256 * k"
proof (induction b arbitrary: i)
  case Nil
  then show ?case by (intro exI [of _ 0]) simp
next
  case (Cons c b)
  from Cons obtain k where k: "k \<ge> 0" "weigh int8 (i + 1) b = weigh (\<lambda>c. int (byte c)) (i + 1) b - 256 * k" by blast
  then show ?case
    by (intro exI [of _ "k + (if byte (counted i c) < 128 then 0 else 1)"]) (auto simp: int8_def [of "counted i c"])
qed

lemma weigh_fld: "i \<ge> 156 \<or> i + length b \<le> 148 \<Longrightarrow> weigh f i b = sum_list (map f b)"
  by (induction b arbitrary: i) (auto simp: counted_def)

lemma fld_update: "k < i \<or> i + n \<le> k \<Longrightarrow> fld i n (b[k := c]) = fld i n b"
  by (auto simp: fld_def drop_update_swap take_update_swap drop_update_cancel list_update_beyond)

lemma getFormat_checksum: "getFormat b \<noteq> FormatUnknown \<longleftrightarrow>
    (\<exists>v. parseOctal (v7_chksum b) = (v, False) \<and> (v = fst (computeChecksum b) \<or> v = snd (computeChecksum b)))"
  by (auto simp: getFormat_def FormatUnknown_def formatSTAR_def FormatUSTAR_def FormatPAX_def FormatGNU_def formatV7_def
      split: prod.splits if_splits)

lemma byte_int: "0 \<le> int (byte c) \<and> int (byte c) < 256"
  using nat_of_char_less_256 [of c] by linarith

lemma int8_mod: "int8 c mod 256 = int (byte c)"
proof -
  have "(i - 256) mod 256 = i" if "0 \<le> i" "i < 256" for i :: int using that by (metis minus_mod_self2 mod_pos_pos_trivial)
  then show ?thesis using byte_int [of c] unfolding int8_def by (auto simp: mod_pos_pos_trivial)
qed

lemma no_carry: "p - q = 256 * m \<Longrightarrow> 0 \<le> p \<and> p < 256 \<Longrightarrow> 0 \<le> q \<and> q < 256 \<Longrightarrow> p = q" for p q m :: int
  by presburger

lemma weigh_sum: "weigh f i b = (\<Sum>k<length b. f (counted (i + k) (b ! k)))"
  by (induction b arbitrary: i) (simp_all add: sum.lessThan_Suc_shift del: sum.lessThan_Suc)

lemma length_set_fld: "i + length f \<le> length b \<Longrightarrow> length (set_fld i f b) = length b"
  by (simp add: set_fld_def)

lemma nth_set_fld: "i + length f \<le> length b \<Longrightarrow> k < length b \<Longrightarrow>
    set_fld i f b ! k = (if i \<le> k \<and> k < i + length f then f ! (k - i) else b ! k)"
  by (auto simp: set_fld_def nth_append min_def)

lemma fld_set_same: "i + length f \<le> length b \<Longrightarrow> fld i (length f) (set_fld i f b) = f"
  by (simp add: fld_def set_fld_def)

lemma fld_set_other:
  assumes "i + length f \<le> length b" "j + n \<le> i \<or> i + length f \<le> j" "j + n \<le> length b"
  shows "fld j n (set_fld i f b) = fld j n b"
  by (rule nth_equalityI) (use assms in \<open>auto simp: fld_def length_set_fld nth_set_fld\<close>)

lemma weigh_bounds: "0 \<le> weigh (\<lambda>c. int (byte c)) i b" "weigh (\<lambda>c. int (byte c)) i b \<le> 255 * int (length b)"
proof (induction b arbitrary: i)
  case (Cons c b)
  { case 1 show ?case using Cons(1) [of "i + 1"] by simp }
  { case 2
    have "int (byte (counted i c)) \<le> 255" by (metis byte_le of_nat_le_iff of_nat_numeral)
    from add_mono [OF this Cons(2) [of "i + 1"]] show ?case by simp }
qed simp_all

text \<open>A block that \<open>setFormat\<close> has completed is accepted, and the other fields are as they were.\<close>

lemma setFormat_checksum:
  assumes "length b1 = 512" "b = set_fld 148 (fst (formatOctal (take 7 (v7_chksum b1)) (fst (computeChecksum b1))) @ '' '') b1"
  shows "length b = 512 \<and> getFormat b \<noteq> FormatUnknown \<and> (\<forall>j n. (j + n \<le> 148 \<or> 156 \<le> j) \<and> j + n \<le> 512 \<longrightarrow> fld j n b = fld j n b1)"
proof -
  let ?u = "weigh (\<lambda>c. int (byte c)) 0 b1" let ?f = "take 7 (v7_chksum b1)"
  have cs: "fst (computeChecksum b1) = ?u" by (simp add: computeChecksum_def checksum_weigh)
  have l: "length ?f = 7" using assms(1) by (simp add: v7_chksum_def fld_def)
  have u: "0 \<le> ?u" "?u < 2 ^ 18" using weigh_bounds [of 0 b1] assms(1) by simp_all
  then have "fitsInOctal (length ?f) ?u" "?u < 2 ^ 63" using l by (simp_all only: fitsInOctal_def) simp_all
  moreover have "?f \<noteq> []" using l by (cases ?f) auto
  ultimately obtain t p where f: "formatOctal ?f ?u = (t @ p, False)" "length (t @ p) = 7" "list_all odigit t" "t \<noteq> []"
    "oct_val t 0 = nat ?u" "list_all octal_pad p" using formatOctal_field [of ?f ?u] l by metis
  define g where "g = t @ (p @ '' '')"
  have lg: "length g = 8" using f(2) by (simp add: g_def)
  have b: "b = set_fld 148 g b1" using assms(2) f(1) by (simp add: cs g_def)
  have "parseOctal g = (?u, False)" using parseOctal_digits [OF f(3,4), of "p @ '' ''"] f(5,6) u by (simp add: g_def octal_pad_def)
  moreover have "v7_chksum b = g" using fld_set_same [of 148 g b1] lg assms(1) by (simp add: v7_chksum_def b)
  moreover have "weigh (\<lambda>c. int (byte c)) 0 b = ?u"
    unfolding weigh_sum b using assms(1) lg by (intro sum.cong) (auto simp: length_set_fld nth_set_fld counted_def)
  ultimately have "getFormat b \<noteq> FormatUnknown" by (simp add: getFormat_checksum computeChecksum_def checksum_weigh)
  moreover have "fld j n b = fld j n b1" if "j + n \<le> 148 \<or> 156 \<le> j" "j + n \<le> 512" for j n
    unfolding b using that lg assms(1) by (intro fld_set_other) auto
  ultimately show ?thesis using lg assms(1) by (simp add: b length_set_fld)
qed

text \<open>
  The checksum of a tar header finds every single changed byte: if a block is accepted and one
  byte outside the checksum field is changed, it is accepted no more, although the reader takes
  the sum of the bytes as signed or as unsigned numbers.
\<close>

theorem checksum_finds_byte:
  assumes "getFormat b \<noteq> FormatUnknown" "k < length b" "k < 148 \<or> 156 \<le> k" "c \<noteq> b ! k"
  shows "getFormat (b[k := c]) = FormatUnknown"
proof (rule ccontr)
  assume n: "getFormat (b[k := c]) \<noteq> FormatUnknown"
  let ?u = "weigh (\<lambda>c. int (byte c)) 0" and ?s = "weigh int8 0"
  have fl: "v7_chksum (b[k := c]) = v7_chksum b" using assms(3) by (auto simp: v7_chksum_def fld_update)
  obtain v where v: "parseOctal (v7_chksum b) = (v, False)" "v = ?u b \<or> v = ?s b"
    using assms(1) by (auto simp: getFormat_checksum computeChecksum_def checksum_weigh)
  moreover have v': "v = ?u (b[k := c]) \<or> v = ?s (b[k := c])"
    using n v(1) fl by (auto simp: getFormat_checksum computeChecksum_def checksum_weigh)
  have cnt: "counted k d = d" for d using assms(3) by (auto simp: counted_def)
  have u: "?u (b[k := c]) = ?u b - int (byte (b ! k)) + int (byte c)" and s: "?s (b[k := c]) = ?s b - int8 (b ! k) + int8 c"
    using weigh_update [OF assms(2), of _ 0 c] cnt by simp_all
  have d: "int (byte c) \<noteq> int (byte (b ! k))" "int8 c \<noteq> int8 (b ! k)"
    using assms(4) int8_mod [of c] int8_mod [of "b ! k"] by auto
  note lt = byte_int [of c] byte_int [of "b ! k"]
  obtain m where m: "m \<ge> 0" "?s b = ?u b - 256 * m" using weigh_signed by blast
  obtain m' where m': "m' \<ge> 0" "?s (b[k := c]) = ?u (b[k := c]) - 256 * m'" using weigh_signed by blast
  define p q where "p = int (byte c)" and "q = int (byte (b ! k))"
  from v(2) v' have "p = q \<or> int8 c = int8 (b ! k)"
    using u s lt [folded p_def q_def] m m' unfolding p_def [symmetric] q_def [symmetric]
    by (elim disjE) (auto intro: no_carry [of p q m'] no_carry [of p q "- m"])
  then show False using d by (simp add: p_def q_def)
qed

theorem checksum_finds_byte_witness:
  "\<exists>b. setFormat FormatUSTAR (replicate 512 NUL) = Some b \<and> getFormat (b[0 := CHR ''x'']) = FormatUnknown"
proof -
  define b1 where "b1 = set_fld 263 versionUSTAR (set_fld 257 magicUSTAR (replicate 512 NUL))"
  define b where "b = set_fld 148 (fst (formatOctal (take 7 (v7_chksum b1)) (fst (computeChecksum b1))) @ '' '') b1"
  have s: "setFormat FormatUSTAR (replicate 512 NUL) = Some b"
    by (simp add: setFormat_def fmt_has_def FormatUSTAR_def formatV7_def FormatGNU_def formatSTAR_def FormatPAX_def Let_def
        b_def b1_def)
  have l: "length b1 = 512" by (simp add: b1_def set_fld_def versionUSTAR_def magicUSTAR_def)
  note ok = setFormat_checksum [OF l b_def]
  have "fld 0 1 b1 = [NUL]" by (simp add: fld_def set_fld_def b1_def)
  moreover have "fld 0 1 b = fld 0 1 b1" using ok by simp
  ultimately have "take 1 b = [NUL]" by (simp add: fld_def)
  then have "b ! 0 = NUL" by (metis nth_Cons_0 nth_take zero_less_one)
  then have "getFormat (b[0 := CHR ''x'']) = FormatUnknown"
    using checksum_finds_byte [of b 0 "CHR ''x''"] ok by auto
  then show ?thesis using s by blast
qed

end
