(* ===== verification/GoIO.thy ===== *)
theory GoIO
  imports Prelude
begin

text \<open>
  Readers of package \<open>io\<close>: a \<open>stream\<close> is what an \<open>io.Reader\<close> still delivers, \<open>ReadFull\<close> reads from it,
  and \<open>bytes.Reader\<close> is the stream of a slice.
\<close>

section \<open>Streams\<close>

definition io_EOF :: error where "io_EOF = SentinelError ''EOF''"
definition ErrUnexpectedEOF :: error where "ErrUnexpectedEOF = SentinelError ''unexpected EOF''"

record stream =
  s_bytes :: bytes
  s_end :: error
  s_early :: bool

text \<open>Reads until \<open>n\<close> bytes are there or an error comes.\<close>

definition want :: "nat \<Rightarrow> stream \<Rightarrow> bytes \<times> error option \<times> stream" where
  "want n s =
     (let b = s_bytes s; e = Some (s_end s) in
      if n = 0 then ([], None, s)
      else if n < length b then (take n b, None, s\<lparr>s_bytes := drop n b\<rparr>)
      else if n = length b then (b, if s_early s then e else None, s\<lparr>s_bytes := []\<rparr>)
      else (b, e, s\<lparr>s_bytes := []\<rparr>))"

text \<open>\<open>io.ReadFull\<close>.\<close>

definition ReadFull :: "nat \<Rightarrow> stream \<Rightarrow> bytes \<times> error option \<times> stream" where
  "ReadFull n s =
     (case want n s of (b, e, s') \<Rightarrow>
        (b, if length b \<ge> n then None else if b \<noteq> [] \<and> e = Some io_EOF then Some ErrUnexpectedEOF else e, s'))"

text \<open>A \<open>bytes.Reader\<close> with the bytes it still holds.\<close>

definition bytes_Reader :: "bytes \<Rightarrow> stream" where
  "bytes_Reader r = \<lparr>s_bytes = r, s_end = io_EOF, s_early = False\<rparr>"

definition noEOF :: "error \<Rightarrow> error" where
  "noEOF e = (if e = io_EOF then ErrUnexpectedEOF else e)"

lemma want_less: "want n s = (b, e, s') \<Longrightarrow> length (s_bytes s') + length b = length (s_bytes s) \<and> length b \<le> n"
  by (auto simp: want_def Let_def split: if_splits)

lemma ReadFull_bytes [simp]:
  "ReadFull n (bytes_Reader r) =
     (if n \<le> length r then (take n r, None, bytes_Reader (drop n r))
      else (r, Some (if r = [] then io_EOF else ErrUnexpectedEOF), bytes_Reader []))"
  by (auto simp: ReadFull_def want_def bytes_Reader_def Let_def)

lemma bytes_Reader_sel [simp]: "s_bytes (bytes_Reader r) = r"
  by (simp add: bytes_Reader_def)

end
