(* ===== verification/TarReader.thy ===== *)
theory TarReader
  imports Decompress TarFormat GoIO "HOL-Library.AList"
begin

unbundle bit_operations_syntax

text \<open>
  Model of \<open>archive/tar/reader.go\<close>, as \<open>ExtractResources\<close> uses it. The reader below it is a
  \<open>stream\<close>: the bytes it still delivers, the error after them (\<open>io.EOF\<close> at a proper end), and
  whether that error comes together with the last bytes or with the read after them. How the bytes
  are cut into reads makes no other difference, for all reads are made by loops that go on until
  they have what they want. A file of the archive is either read to its end or not at all.
\<close>

section \<open>Streams\<close>

definition tryReadFull :: "nat \<Rightarrow> stream \<Rightarrow> bytes \<times> error option \<times> stream" where
  "tryReadFull n s =
     (case want n s of (b, e, s') \<Rightarrow> (b, if length b = n \<and> e = Some io_EOF then None else e, s'))"

definition mustReadFull :: "nat \<Rightarrow> stream \<Rightarrow> bytes \<times> error option \<times> stream" where
  "mustReadFull n s =
     (case tryReadFull n s of (b, e, s') \<Rightarrow> (b, if e = Some io_EOF then Some ErrUnexpectedEOF else e, s'))"

text \<open>\<open>discard\<close>; the decompressing reader cannot seek, so that \<open>io.CopyN\<close> skips everything.\<close>

definition discard :: "nat \<Rightarrow> stream \<Rightarrow> error option \<times> stream" where
  "discard n s =
     (case want n s of (b, e, s') \<Rightarrow>
        (if length b = n then None else if e = Some io_EOF then Some ErrUnexpectedEOF else e, s'))"

lemma read_less:
  "tryReadFull n s = (b, e, s') \<Longrightarrow> length (s_bytes s') \<le> length (s_bytes s)"
  "mustReadFull n s = (b, e, s') \<Longrightarrow> length (s_bytes s') \<le> length (s_bytes s)"
  "ReadFull n s = (b, e, s') \<Longrightarrow> length (s_bytes s') \<le> length (s_bytes s)"
  "discard n s = (e, s') \<Longrightarrow> length (s_bytes s') \<le> length (s_bytes s)"
  by (auto simp: tryReadFull_def mustReadFull_def ReadFull_def discard_def dest!: want_less split: prod.splits)

lemma read_all:
  "tryReadFull n s = (b, None, s') \<Longrightarrow> length b = n"
  "mustReadFull n s = (b, None, s') \<Longrightarrow> length b = n \<and> length (s_bytes s') + n = length (s_bytes s)"
  "ReadFull n s = (b, None, s') \<Longrightarrow> length b = n \<and> length (s_bytes s') + n = length (s_bytes s)"
  by (auto simp: tryReadFull_def mustReadFull_def ReadFull_def want_def Let_def split: prod.splits if_splits)

section \<open>Headers\<close>

datatype gotime = ZeroTime | UnixTime int int

record tar_header = Header +
  hSize :: int
  hUid :: int
  hGid :: int
  hUname :: string
  hGname :: string
  hModTime :: gotime
  hAccessTime :: gotime
  hChangeTime :: gotime
  hDevmajor :: int
  hDevminor :: int
  hXattrs :: "(string \<times> string) list"
  hPAXRecords :: "(string \<times> string) list"
  hFormat :: Format

definition empty_header :: tar_header where
  "empty_header = \<lparr>hName = [], hLinkname = [], hTypeflag = NUL, hMode = 0, hSize = 0, hUid = 0, hGid = 0, hUname = [], hGname = [],
     hModTime = ZeroTime, hAccessTime = ZeroTime, hChangeTime = ZeroTime, hDevmajor = 0, hDevminor = 0, hXattrs = [],
     hPAXRecords = [], hFormat = 0\<rparr>"

definition TypeRegA :: char where "TypeRegA = NUL"
definition TypeXHeader :: char where "TypeXHeader = CHR ''x''"
definition TypeXGlobalHeader :: char where "TypeXGlobalHeader = CHR ''g''"
definition TypeGNUSparse :: char where "TypeGNUSparse = CHR ''S''"
definition TypeGNULongName :: char where "TypeGNULongName = CHR ''L''"
definition TypeGNULongLink :: char where "TypeGNULongLink = CHR ''K''"

definition isHeaderOnlyType :: "char \<Rightarrow> bool" where
  "isHeaderOnlyType flag \<longleftrightarrow> flag \<in> set ''123456''"

definition zeroBlock :: bytes where
  "zeroBlock = replicate blockSize NUL"

text \<open>The part of \<open>readHeader\<close> for the three formats with extensions: header, prefix and error flag.\<close>

definition nul_end :: "bytes \<Rightarrow> bool" where
  "nul_end b \<longleftrightarrow> last b = NUL"

definition ustar_fields :: "Format \<Rightarrow> bytes \<Rightarrow> tar_header \<Rightarrow> tar_header \<times> string" where
  "ustar_fields format blk hdr =
     (hdr\<lparr>hFormat :=
        if list_ex (\<lambda>c. byte c \<ge> 0x80) blk then FormatUnknown
        else if \<not> (nul_end (v7_size blk) \<and> nul_end (v7_mode blk) \<and> nul_end (v7_uid blk) \<and> nul_end (v7_gid blk) \<and>
          nul_end (v7_modTime blk) \<and> nul_end (ustar_devMajor blk) \<and> nul_end (ustar_devMinor blk)) then FormatUnknown
        else format\<rparr>, parseString (ustar_prefix blk))"

definition star_fields :: "bytes \<Rightarrow> tar_header \<Rightarrow> tar_header \<times> string \<times> bool" where
  "star_fields blk hdr =
     (case (parseNumeric (star_accessTime blk), parseNumeric (star_changeTime blk)) of
        ((a, e1), (c, e2)) \<Rightarrow>
          (hdr\<lparr>hAccessTime := UnixTime a 0, hChangeTime := UnixTime c 0\<rparr>, parseString (star_prefix blk), e1 \<or> e2))"

definition gnu_fields :: "Format \<Rightarrow> bytes \<Rightarrow> tar_header \<Rightarrow> tar_header \<times> string" where
  "gnu_fields format blk hdr =
     (let a = gnu_accessTime blk; c = gnu_changeTime blk;
          (at, e1) = (if a ! 0 \<noteq> NUL then (UnixTime (fst (parseNumeric a)) 0, snd (parseNumeric a)) else (hAccessTime hdr, False));
          (ct, e2) = (if c ! 0 \<noteq> NUL then (UnixTime (fst (parseNumeric c)) 0, snd (parseNumeric c)) else (hChangeTime hdr, False))
      in if e1 \<or> e2 then
           (let s = parseString (ustar_prefix blk) in
            (hdr\<lparr>hAccessTime := ZeroTime, hChangeTime := ZeroTime, hFormat := FormatUnknown\<rparr>, if isASCII s then s else []))
         else (hdr\<lparr>hAccessTime := at, hChangeTime := ct, hFormat := format\<rparr>, []))"

definition v7_fields :: "bytes \<Rightarrow> tar_header \<times> bool" where
  "v7_fields blk =
     (case (parseNumeric (v7_size blk), parseNumeric (v7_mode blk), parseNumeric (v7_uid blk), parseNumeric (v7_gid blk),
            parseNumeric (v7_modTime blk)) of
        ((sz, e1), (mode, e2), (uid, e3), (gid, e4), (mtime, e5)) \<Rightarrow>
          (empty_header\<lparr>hTypeflag := v7_typeFlag blk ! 0, hName := parseString (v7_name blk), hLinkname := parseString (v7_linkName blk),
             hSize := sz, hMode := mode, hUid := uid, hGid := gid, hModTime := UnixTime mtime 0\<rparr>,
           e1 \<or> e2 \<or> e3 \<or> e4 \<or> e5))"

definition extended_fields :: "Format \<Rightarrow> bytes \<Rightarrow> tar_header \<Rightarrow> tar_header \<times> bool" where
  "extended_fields format blk hdr0 =
     (case (parseNumeric (ustar_devMajor blk), parseNumeric (ustar_devMinor blk)) of
        ((major, e1), (minor, e2)) \<Rightarrow>
          (let hdr = hdr0\<lparr>hUname := parseString (ustar_userName blk), hGname := parseString (ustar_groupName blk),
                 hDevmajor := major, hDevminor := minor\<rparr>;
               (hdr1, pfx, e3) =
                 (if fmt_has format (FormatUSTAR OR FormatPAX) then (case ustar_fields format blk hdr of (h, p) \<Rightarrow> (h, p, False))
                  else if fmt_has format formatSTAR then star_fields blk hdr
                  else if fmt_has format FormatGNU then (case gnu_fields format blk hdr of (h, p) \<Rightarrow> (h, p, False))
                  else (hdr, [], False))
           in (if pfx \<noteq> [] then hdr1\<lparr>hName := pfx @ ''/'' @ hName hdr1\<rparr> else hdr1, e1 \<or> e2 \<or> e3)))"

definition unpack_header :: "bytes \<Rightarrow> tar_header result" where
  "unpack_header blk =
     (let format = getFormat blk in
      if format = FormatUnknown then Inl ErrHeader
      else
        (case v7_fields blk of (hdr, e1) \<Rightarrow>
         case (if format > formatV7 then extended_fields format blk hdr else (hdr, False)) of (hdr', e2) \<Rightarrow>
           if e1 \<or> e2 then Inl ErrHeader else Inr hdr'))"

definition readHeader :: "stream \<Rightarrow> (tar_header \<times> bytes) result \<times> stream" where
  "readHeader s =
     (case ReadFull blockSize s of
        (_, Some e, s1) \<Rightarrow> (Inl e, s1)
      | (blk, None, s1) \<Rightarrow>
          if blk = zeroBlock then
            (case ReadFull blockSize s1 of
               (_, Some e, s2) \<Rightarrow> (Inl e, s2)
             | (blk, None, s2) \<Rightarrow> (Inl (if blk = zeroBlock then io_EOF else ErrHeader), s2))
          else
            (case unpack_header blk of Inl e \<Rightarrow> (Inl e, s1) | Inr hdr \<Rightarrow> (Inr (hdr, blk), s1)))"

lemma readHeader_less:
  "readHeader s = (Inr x, s') \<Longrightarrow> length (s_bytes s') + blockSize = length (s_bytes s)"
  by (auto simp: readHeader_def split: prod.splits option.splits if_splits sum.splits dest!: read_all)

section \<open>Files of the archive\<close>

text \<open>
  Reading from a regular file with \<open>nb\<close> bytes left: until \<open>k\<close> bytes are there or an error comes,
  as \<open>tryReadFull\<close> does with \<open>regFileReader.Read\<close>.
\<close>

definition reg_read :: "nat \<Rightarrow> nat \<Rightarrow> stream \<Rightarrow> bytes \<times> error option \<times> nat \<times> stream" where
  "reg_read k nb s =
     (if k = 0 then ([], None, nb, s)
      else if nb = 0 then ([], Some io_EOF, nb, s)
      else
        (case want (min k nb) s of
           (b, e, s') \<Rightarrow>
             (let nb' = nb - length b;
                  e' = (if e = Some io_EOF \<and> nb' > 0 then Some ErrUnexpectedEOF
                        else if e = None \<and> nb' = 0 then Some io_EOF else e)
              in (b, if length b = k \<and> e' = Some io_EOF then None else e', nb', s'))))"

lemma reg_read_less: "reg_read k nb s = (b, e, nb', s') \<Longrightarrow> length (s_bytes s') \<le> length (s_bytes s)"
  by (auto simp: reg_read_def Let_def split: if_splits prod.splits dest!: want_less)

lemma reg_read_all: "reg_read k nb s = (b, None, nb', s') \<Longrightarrow> length b = k \<and> nb = nb' + k"
  by (auto simp: reg_read_def want_def Let_def split: if_splits prod.splits)

text \<open>A part of a file that has all its bytes, and one that has not.\<close>

lemma reg_read_part:
  assumes "s_bytes s = d @ rest" "rest \<noteq> []"
  shows "reg_read k (length d) s =
    (take k d, if length d < k then Some io_EOF else None, length d - k, s\<lparr>s_bytes := drop k d @ rest\<rparr>)"
proof -
  have r: "length rest > 0" using assms(2) by simp
  show ?thesis
  proof (cases "k = 0 \<or> length d = 0")
    case True
    then show ?thesis using assms by (auto simp: reg_read_def)
  next
    case False
    then have "want (min k (length d)) s = (take (min k (length d)) d, None, s\<lparr>s_bytes := drop (min k (length d)) d @ rest\<rparr>)"
      using r assms(1) by (auto simp: want_def Let_def min_def)
    then show ?thesis using False by (auto simp: reg_read_def Let_def min_def)
  qed
qed

definition maxSpecialFileSize :: nat where "maxSpecialFileSize = 2 ^ 20"

definition readSpecialFile :: "nat \<Rightarrow> stream \<Rightarrow> bytes result \<times> nat \<times> stream" where
  "readSpecialFile nb s =
     (case reg_read (maxSpecialFileSize + 1) nb s of
        (buf, e, nb', s') \<Rightarrow>
          (if length buf > maxSpecialFileSize then Inl ErrFieldTooLong
           else if e = None \<or> e = Some io_EOF then Inr buf
           else Inl (the e), nb', s'))"

lemma readSpecialFile_less: "readSpecialFile nb s = (r, nb', s') \<Longrightarrow> length (s_bytes s') \<le> length (s_bytes s)"
  by (auto simp: readSpecialFile_def dest!: reg_read_less split: prod.splits)

section \<open>PAX records\<close>

text \<open>\<open>strings.Cut\<close> at a single byte.\<close>

definition Cut :: "char \<Rightarrow> string \<Rightarrow> string \<times> string \<times> bool" where
  "Cut c s =
     (if c \<in> set s then (takeWhile (\<lambda>d. d \<noteq> c) s, tl (dropWhile (\<lambda>d. d \<noteq> c) s), True) else (s, [], False))"

definition paxPath :: string where "paxPath = ''path''"
definition paxLinkpath :: string where "paxLinkpath = ''linkpath''"
definition paxSize :: string where "paxSize = ''size''"
definition paxUid :: string where "paxUid = ''uid''"
definition paxGid :: string where "paxGid = ''gid''"
definition paxUname :: string where "paxUname = ''uname''"
definition paxGname :: string where "paxGname = ''gname''"
definition paxMtime :: string where "paxMtime = ''mtime''"
definition paxAtime :: string where "paxAtime = ''atime''"
definition paxCtime :: string where "paxCtime = ''ctime''"
definition paxSchilyXattr :: string where "paxSchilyXattr = ''SCHILY.xattr.''"
definition paxGNUSparseNumBlocks :: string where "paxGNUSparseNumBlocks = ''GNU.sparse.numblocks''"
definition paxGNUSparseOffset :: string where "paxGNUSparseOffset = ''GNU.sparse.offset''"
definition paxGNUSparseNumBytes :: string where "paxGNUSparseNumBytes = ''GNU.sparse.numbytes''"
definition paxGNUSparseMap :: string where "paxGNUSparseMap = ''GNU.sparse.map''"
definition paxGNUSparseName :: string where "paxGNUSparseName = ''GNU.sparse.name''"
definition paxGNUSparseMajor :: string where "paxGNUSparseMajor = ''GNU.sparse.major''"
definition paxGNUSparseMinor :: string where "paxGNUSparseMinor = ''GNU.sparse.minor''"
definition paxGNUSparseSize :: string where "paxGNUSparseSize = ''GNU.sparse.size''"
definition paxGNUSparseRealSize :: string where "paxGNUSparseRealSize = ''GNU.sparse.realsize''"

definition validPAXRecord :: "string \<Rightarrow> string \<Rightarrow> bool" where
  "validPAXRecord k v =
     (if k = [] \<or> CHR ''='' \<in> set k then False
      else if k \<in> {paxPath, paxLinkpath, paxUname, paxGname} then \<not> hasNUL v
      else \<not> hasNUL k)"

definition parsePAXRecord :: "string \<Rightarrow> (string \<times> string \<times> string) result" where
  "parsePAXRecord s =
     (case Cut (CHR '' '') s of
        (nStr, rest, ok) \<Rightarrow>
          if \<not> ok then Inl ErrHeader
          else
            (case ParseInt nStr 10 64 of
               Inl _ \<Rightarrow> Inl ErrHeader
             | Inr n0 \<Rightarrow>
                 if n0 < 5 \<or> n0 > int (length s) then Inl ErrHeader
                 else
                   (let n1 = n0 - int (length nStr + 1) in
                    if n1 \<le> 0 then Inl ErrHeader
                    else
                      (let n = nat n1; r = take (n - 1) rest; trm = take 1 (drop (n - 1) rest); rem = drop n rest in
                       if trm \<noteq> [nl] then Inl ErrHeader
                       else
                         (case Cut (CHR ''='') r of
                            (k, v, ok) \<Rightarrow>
                              if \<not> ok then Inl ErrHeader
                              else if \<not> validPAXRecord k v then Inl ErrHeader
                              else Inr (k, v, rem))))))"

lemma parsePAXRecord_less: "parsePAXRecord s = Inr (k, v, r) \<Longrightarrow> length r < length s"
proof -
  assume a: "parsePAXRecord s = Inr (k, v, r)"
  obtain a1 rest ok where c: "Cut (CHR '' '') s = (a1, rest, ok)" by (metis prod_cases3)
  have ok using a c by (cases ok) (auto simp: parsePAXRecord_def)
  then have "CHR '' '' \<in> set s" using c by (auto simp: Cut_def split: if_splits)
  then have "dropWhile (\<lambda>d. d \<noteq> CHR '' '') s \<noteq> []" by auto
  moreover have "rest = tl (dropWhile (\<lambda>d. d \<noteq> CHR '' '') s)" using c \<open>ok\<close> by (auto simp: Cut_def split: if_splits)
  moreover have "length (dropWhile (\<lambda>d. d \<noteq> CHR '' '') s) \<le> length s" by (simp add: length_dropWhile_le)
  ultimately have "length rest < length s" by (cases "dropWhile (\<lambda>d. d \<noteq> CHR '' '') s") auto
  moreover have "\<exists>m. r = drop m rest" using a c
    by (fastforce simp: parsePAXRecord_def Let_def split: sum.splits if_splits prod.splits)
  ultimately show ?thesis by auto
qed

definition parsePAXTime :: "string \<Rightarrow> gotime option" where
  "parsePAXTime s =
     (case Cut (CHR ''.'') s of
        (ss, sn, _) \<Rightarrow>
          (case ParseInt ss 10 64 of
             Inl _ \<Rightarrow> None
           | Inr secs \<Rightarrow>
               if sn = [] then Some (UnixTime secs 0)
               else if \<not> list_all is_digit sn then None
               else
                 (let sn' = (if length sn < 9 then sn @ replicate (9 - length sn) (CHR ''0'') else take 9 sn);
                      nsecs = (case ParseInt sn' 10 64 of Inr n \<Rightarrow> n | Inl _ \<Rightarrow> 0)
                  in if ss \<noteq> [] \<and> ss ! 0 = CHR ''-'' then Some (UnixTime secs (- nsecs)) else Some (UnixTime secs nsecs))))"

type_synonym pax = "(string \<times> string) list"

text \<open>A missing key of a map reads as the empty string.\<close>

definition pax_get :: "pax \<Rightarrow> string \<Rightarrow> string" where
  "pax_get m k = (case map_of m k of None \<Rightarrow> [] | Some v \<Rightarrow> v)"

function parse_pax_loop :: "string \<Rightarrow> string list \<Rightarrow> pax \<Rightarrow> pax result" where
  "parse_pax_loop sbuf sparseMap paxHdrs =
     (if sbuf = [] then
        Inr (if sparseMap \<noteq> [] then AList.update paxGNUSparseMap (join_with '','' sparseMap) paxHdrs else paxHdrs)
      else
        (case parsePAXRecord sbuf of
           Inl _ \<Rightarrow> Inl ErrHeader
         | Inr (key, v, residual) \<Rightarrow>
             if key = paxGNUSparseOffset \<or> key = paxGNUSparseNumBytes then
               (if (even (length sparseMap) \<and> key \<noteq> paxGNUSparseOffset) \<or>
                   (odd (length sparseMap) \<and> key \<noteq> paxGNUSparseNumBytes) \<or> CHR '','' \<in> set v then Inl ErrHeader
                else parse_pax_loop residual (sparseMap @ [v]) paxHdrs)
             else parse_pax_loop residual sparseMap (AList.update key v paxHdrs)))"
  by pat_completeness auto
termination
  by (relation "measure (\<lambda>(s, _). length s)") (auto dest!: parsePAXRecord_less simp: eq_commute)

declare parse_pax_loop.simps [simp del]

definition parsePAX :: "nat \<Rightarrow> stream \<Rightarrow> pax result \<times> nat \<times> stream" where
  "parsePAX nb s =
     (case readSpecialFile nb s of
        (Inl e, nb', s') \<Rightarrow> (Inl e, nb', s')
      | (Inr buf, nb', s') \<Rightarrow> (parse_pax_loop buf [] [], nb', s'))"

text \<open>The body of the loop of \<open>mergePAX\<close> for one key: the header, or \<open>None\<close> for an invalid number.\<close>

definition merge_key :: "string \<Rightarrow> string \<Rightarrow> tar_header \<Rightarrow> tar_header option" where
  "merge_key k v hdr =
     (let num = (case ParseInt v 10 64 of Inl _ \<Rightarrow> None | Inr n \<Rightarrow> Some n) in
      if k = paxPath then Some (hdr\<lparr>hName := v\<rparr>)
      else if k = paxLinkpath then Some (hdr\<lparr>hLinkname := v\<rparr>)
      else if k = paxUname then Some (hdr\<lparr>hUname := v\<rparr>)
      else if k = paxGname then Some (hdr\<lparr>hGname := v\<rparr>)
      else if k = paxUid then map_option (\<lambda>n. hdr\<lparr>hUid := n\<rparr>) num
      else if k = paxGid then map_option (\<lambda>n. hdr\<lparr>hGid := n\<rparr>) num
      else if k = paxAtime then map_option (\<lambda>t. hdr\<lparr>hAccessTime := t\<rparr>) (parsePAXTime v)
      else if k = paxMtime then map_option (\<lambda>t. hdr\<lparr>hModTime := t\<rparr>) (parsePAXTime v)
      else if k = paxCtime then map_option (\<lambda>t. hdr\<lparr>hChangeTime := t\<rparr>) (parsePAXTime v)
      else if k = paxSize then map_option (\<lambda>n. hdr\<lparr>hSize := n\<rparr>) num
      else if HasPrefix k paxSchilyXattr then
        Some (hdr\<lparr>hXattrs := AList.update (drop (length paxSchilyXattr) k) v (hXattrs hdr)\<rparr>)
      else Some hdr)"

text \<open>
  The loop visits the map in some order, given by its keys. An invalid number ends it; the fields
  set before it stay set.
\<close>

fun merge_loop :: "string list \<Rightarrow> pax \<Rightarrow> tar_header \<Rightarrow> bool \<times> tar_header" where
  "merge_loop [] m hdr = (True, hdr\<lparr>hPAXRecords := m\<rparr>)"
| "merge_loop (k # ks) m hdr =
     (if pax_get m k = [] then merge_loop ks m hdr
      else (case merge_key k (pax_get m k) hdr of None \<Rightarrow> (False, hdr) | Some hdr' \<Rightarrow> merge_loop ks m hdr'))"

definition mergePAX :: "(string list \<Rightarrow> string list) \<Rightarrow> tar_header \<Rightarrow> pax \<Rightarrow> bool \<times> tar_header" where
  "mergePAX ord hdr m = merge_loop (ord (map fst m)) m hdr"

section \<open>Sparse files\<close>

record sparseEntry =
  Offset :: int
  Length :: int

definition endOffset :: "sparseEntry \<Rightarrow> int" where
  "endOffset s = Offset s + Length s"

fun validate_loop :: "sparseEntry \<Rightarrow> sparseEntry list \<Rightarrow> int \<Rightarrow> bool" where
  "validate_loop pre [] sz = True"
| "validate_loop pre (cur # sp) sz =
     (if Offset cur < 0 \<or> Length cur < 0 then False
      else if Offset cur > 2 ^ 63 - 1 - Length cur then False
      else if endOffset cur > sz then False
      else if endOffset pre > Offset cur then False
      else validate_loop cur sp sz)"

definition validateSparseEntries :: "sparseEntry list \<Rightarrow> int \<Rightarrow> bool" where
  "validateSparseEntries sp sz \<longleftrightarrow> sz \<ge> 0 \<and> validate_loop \<lparr>Offset = 0, Length = 0\<rparr> sp sz"

text \<open>The loop keeps the offset of the fragment in work; its length is set before each use.\<close>

fun invert_loop :: "int \<Rightarrow> sparseEntry list \<Rightarrow> int \<Rightarrow> sparseEntry list" where
  "invert_loop pre [] sz = [\<lparr>Offset = pre, Length = sz - pre\<rparr>]"
| "invert_loop pre (cur # src) sz =
     (if Length cur = 0 then invert_loop pre src sz
      else
        (let n = Offset cur - pre; dst = (if n > 0 then [\<lparr>Offset = pre, Length = n\<rparr>] else [])
         in dst @ invert_loop (endOffset cur) src sz))"

definition invertSparseEntries :: "sparseEntry list \<Rightarrow> int \<Rightarrow> sparseEntry list" where
  "invertSparseEntries src sz = invert_loop 0 src sz"

definition maxEntries :: "bytes \<Rightarrow> nat" where
  "maxEntries s = length s div 24"

definition isExtended :: "bytes \<Rightarrow> bytes" where
  "isExtended s = fld (24 * maxEntries s) 1 s"

text \<open>The inner loop of \<open>readOldGNUSparseMap\<close> over \<open>n\<close> elements, \<open>None\<close> for an invalid number.\<close>

fun sparse_elems :: "nat \<Rightarrow> bytes \<Rightarrow> sparseEntry list option" where
  "sparse_elems 0 s = Some []"
| "sparse_elems (Suc n) s =
     (if fld 0 12 s ! 0 = NUL then Some []
      else
        (case (parseNumeric (fld 0 12 s), parseNumeric (fld 12 12 s)) of
           ((offset, e1), (len, e2)) \<Rightarrow>
             if e1 \<or> e2 then None
             else map_option (\<lambda>spd. \<lparr>Offset = offset, Length = len\<rparr> # spd) (sparse_elems n (drop 24 s))))"

function old_sparse_loop :: "bytes \<Rightarrow> sparseEntry list \<Rightarrow> stream \<Rightarrow> sparseEntry list result \<times> stream" where
  "old_sparse_loop s spd r =
     (case sparse_elems (maxEntries s) s of
        None \<Rightarrow> (Inl ErrHeader, r)
      | Some es \<Rightarrow>
          if isExtended s ! 0 \<noteq> NUL then
            (case mustReadFull blockSize r of
               (_, Some e, r') \<Rightarrow> (Inl e, r')
             | (blk, None, r') \<Rightarrow> old_sparse_loop blk (spd @ es) r')
          else (Inr (spd @ es), r))"
  by pat_completeness auto
termination
  by (relation "measure (\<lambda>(_, _, r). length (s_bytes r))") (auto simp: blockSize_def dest!: sym [THEN read_all(2)])

declare old_sparse_loop.simps [simp del]

definition readOldGNUSparseMap :: "tar_header \<Rightarrow> bytes \<Rightarrow> stream \<Rightarrow> (tar_header \<times> sparseEntry list) result \<times> stream" where
  "readOldGNUSparseMap hdr blk r =
     (if getFormat blk \<noteq> FormatGNU then (Inl ErrHeader, r)
      else
        (case parseNumeric (gnu_realSize blk) of
           (_, True) \<Rightarrow> (Inl ErrHeader, r)
         | (n, False) \<Rightarrow>
             (case old_sparse_loop (gnu_sparse blk) [] r of
                (Inl e, r') \<Rightarrow> (Inl e, r')
              | (Inr spd, r') \<Rightarrow> (Inr (hdr\<lparr>hFormat := hFormat hdr AND FormatGNU, hSize := n\<rparr>, spd), r'))))"

text \<open>\<open>feedTokens\<close>: blocks of the current file are added to the buffer until it has \<open>n\<close> newlines.\<close>

function feedTokens :: "nat \<Rightarrow> bytes \<Rightarrow> nat \<Rightarrow> stream \<Rightarrow> bytes result \<times> nat \<times> stream" where
  "feedTokens n buf nb s =
     (if count_list buf nl < n then
        (case reg_read blockSize nb s of
           (_, Some e, nb', s') \<Rightarrow> (Inl (if e = io_EOF then ErrUnexpectedEOF else e), nb', s')
         | (blk, None, nb', s') \<Rightarrow> feedTokens n (buf @ blk) nb' s')
      else (Inr buf, nb, s))"
  by pat_completeness auto
termination
  by (relation "measure (\<lambda>(_, _, nb, _). nb)") (auto dest!: sym [THEN reg_read_all] simp: blockSize_def)

declare feedTokens.simps [simp del]

text \<open>Turns the tokens into entries, two a turn: the loops of \<open>readGNUSparseMap1x0\<close> and \<open>readGNUSparseMap0x1\<close>.\<close>

fun token_entries :: "string list \<Rightarrow> sparseEntry list option" where
  "token_entries (o1 # l1 # ts) =
     (case (ParseInt o1 10 64, ParseInt l1 10 64) of
        (Inr offset, Inr len) \<Rightarrow> map_option (\<lambda>spd. \<lparr>Offset = offset, Length = len\<rparr> # spd) (token_entries ts)
      | _ \<Rightarrow> None)"
| "token_entries ts = Some []"

definition num_entries :: "string \<Rightarrow> nat option" where
  "num_entries s =
     (case ParseInt s 10 64 of
        Inl _ \<Rightarrow> None
      | Inr n \<Rightarrow> if n < 0 \<or> to_int64 (nat (2 * n)) < n then None else Some (nat n))"

definition readGNUSparseMap1x0 :: "nat \<Rightarrow> stream \<Rightarrow> sparseEntry list result \<times> nat \<times> stream" where
  "readGNUSparseMap1x0 nb s =
     (case feedTokens 1 [] nb s of
        (Inl e, nb1, s1) \<Rightarrow> (Inl e, nb1, s1)
      | (Inr buf, nb1, s1) \<Rightarrow>
          (case Cut nl buf of
             (tok, rest, _) \<Rightarrow>
               (case num_entries tok of
                  None \<Rightarrow> (Inl ErrHeader, nb1, s1)
                | Some n \<Rightarrow>
                    (case feedTokens (2 * n) rest nb1 s1 of
                       (Inl e, nb2, s2) \<Rightarrow> (Inl e, nb2, s2)
                     | (Inr buf2, nb2, s2) \<Rightarrow>
                         (case token_entries (take (2 * n) (split_on nl buf2)) of
                            None \<Rightarrow> (Inl ErrHeader, nb2, s2)
                          | Some spd \<Rightarrow> (Inr spd, nb2, s2))))))"

definition readGNUSparseMap0x1 :: "pax \<Rightarrow> sparseEntry list result" where
  "readGNUSparseMap0x1 paxHdrs =
     (case num_entries (pax_get paxHdrs paxGNUSparseNumBlocks) of
        None \<Rightarrow> Inl ErrHeader
      | Some n \<Rightarrow>
          (let sm = split_on (CHR '','') (pax_get paxHdrs paxGNUSparseMap); sparseMap = (if sm = [[]] then [] else sm) in
           if length sparseMap \<noteq> 2 * n then Inl ErrHeader
           else (case token_entries sparseMap of None \<Rightarrow> Inl ErrHeader | Some spd \<Rightarrow> Inr spd)))"

section \<open>The reader\<close>

text \<open>
  The state of a \<open>Reader\<close>. The current file is a \<open>regFileReader\<close> with \<open>r_nb\<close> bytes left, inside a
  \<open>sparseFileReader\<close> at position zero when \<open>r_sp\<close> gives its holes.
\<close>

record Reader =
  r_src :: stream
  r_pad :: nat
  r_nb :: nat
  r_sp :: "sparseEntry list option"

definition NewReader :: "stream \<Rightarrow> Reader" where
  "NewReader s = \<lparr>r_src = s, r_pad = 0, r_nb = 0, r_sp = None\<rparr>"

definition blockPadding :: "int \<Rightarrow> int" where
  "blockPadding offset = (- offset) AND (int blockSize - 1)"

definition handleRegularFile :: "tar_header \<Rightarrow> Reader \<Rightarrow> error option \<times> Reader" where
  "handleRegularFile hdr tr =
     (let nb = (if isHeaderOnlyType (hTypeflag hdr) then 0 else hSize hdr) in
      if nb < 0 then (Some ErrHeader, tr)
      else (None, tr\<lparr>r_pad := nat (blockPadding nb), r_nb := nat nb, r_sp := None\<rparr>))"

text \<open>The version of the GNU headers: \<open>None\<close> where there is no sparse map, else whether it is 1.0.\<close>

definition sparse_version :: "pax \<Rightarrow> bool option" where
  "sparse_version m =
     (let major = pax_get m paxGNUSparseMajor; minor = pax_get m paxGNUSparseMinor in
      if major = ''0'' \<and> (minor = ''0'' \<or> minor = ''1'') then Some False
      else if major = ''1'' \<and> minor = ''0'' then Some True
      else if major \<noteq> [] \<or> minor \<noteq> [] then None
      else if pax_get m paxGNUSparseMap \<noteq> [] then Some False
      else None)"

definition readGNUSparsePAXHeaders ::
    "tar_header \<Rightarrow> Reader \<Rightarrow> (tar_header \<times> sparseEntry list option) result \<times> Reader" where
  "readGNUSparsePAXHeaders hdr0 tr =
     (let m = hPAXRecords hdr0 in
      case sparse_version m of
        None \<Rightarrow> (Inr (hdr0, None), tr)
      | Some is1x0 \<Rightarrow>
          (let name = pax_get m paxGNUSparseName;
               hdr1 = hdr0\<lparr>hFormat := hFormat hdr0 AND FormatPAX\<rparr>;
               hdr2 = (if name \<noteq> [] then hdr1\<lparr>hName := name\<rparr> else hdr1);
               sz0 = pax_get m paxGNUSparseSize;
               sz = (if sz0 = [] then pax_get m paxGNUSparseRealSize else sz0)
           in case (if sz \<noteq> [] then map_option (\<lambda>n. hdr2\<lparr>hSize := n\<rparr>) (case ParseInt sz 10 64 of Inl _ \<Rightarrow> None | Inr n \<Rightarrow> Some n)
                    else Some hdr2) of
                None \<Rightarrow> (Inl ErrHeader, tr)
              | Some hdr \<Rightarrow>
                  (case (if is1x0 then readGNUSparseMap1x0 (r_nb tr) (r_src tr)
                         else (readGNUSparseMap0x1 m, r_nb tr, r_src tr)) of
                     (r, nb, s) \<Rightarrow>
                       (case r of Inl e \<Rightarrow> Inl e | Inr spd \<Rightarrow> Inr (hdr, Some spd), tr\<lparr>r_nb := nb, r_src := s\<rparr>))))"

definition handleSparseFile :: "tar_header \<Rightarrow> bytes \<Rightarrow> Reader \<Rightarrow> tar_header result \<times> Reader" where
  "handleSparseFile hdr0 rawHdr tr0 =
     (case (if hTypeflag hdr0 = TypeGNUSparse then
              (case readOldGNUSparseMap hdr0 rawHdr (r_src tr0) of
                 (r, s) \<Rightarrow> (case r of Inl e \<Rightarrow> Inl e | Inr (hdr, spd) \<Rightarrow> Inr (hdr, Some spd), tr0\<lparr>r_src := s\<rparr>))
            else readGNUSparsePAXHeaders hdr0 tr0) of
        (Inl e, tr) \<Rightarrow> (Inl e, tr)
      | (Inr (hdr, None), tr) \<Rightarrow> (Inr hdr, tr)
      | (Inr (hdr, Some spd), tr) \<Rightarrow>
          if isHeaderOnlyType (hTypeflag hdr) \<or> \<not> validateSparseEntries spd (hSize hdr) then (Inl ErrHeader, tr)
          else (Inr hdr, tr\<lparr>r_sp := Some (invertSparseEntries spd (hSize hdr))\<rparr>))"

text \<open>What \<open>next\<close> does with the header of a file, after the special ones before it.\<close>

definition next_file ::
    "(string list \<Rightarrow> string list) \<Rightarrow> pax \<Rightarrow> string \<Rightarrow> string \<Rightarrow> Format \<Rightarrow> tar_header \<Rightarrow> bytes \<Rightarrow> Reader \<Rightarrow>
     tar_header result \<times> Reader" where
  "next_file ord paxHdrs gnuLongName gnuLongLink format hdr0 rawHdr tr0 =
     (case mergePAX ord hdr0 paxHdrs of
        (False, _) \<Rightarrow> (Inl ErrHeader, tr0)
      | (True, hdr1) \<Rightarrow>
          (let hdr2 = (if gnuLongName \<noteq> [] then hdr1\<lparr>hName := gnuLongName\<rparr> else hdr1);
               hdr3 = (if gnuLongLink \<noteq> [] then hdr2\<lparr>hLinkname := gnuLongLink\<rparr> else hdr2);
               hdr4 = (if hTypeflag hdr3 = TypeRegA then
                         hdr3\<lparr>hTypeflag := if HasSuffix (hName hdr3) ''/'' then TypeDir else TypeReg\<rparr> else hdr3)
           in case handleRegularFile hdr4 tr0 of
                (Some e, tr1) \<Rightarrow> (Inl e, tr1)
              | (None, tr1) \<Rightarrow>
                  (case handleSparseFile hdr4 rawHdr tr1 of
                     (Inl e, tr2) \<Rightarrow> (Inl e, tr2)
                   | (Inr hdr5, tr2) \<Rightarrow>
                       (Inr (hdr5\<lparr>hFormat := if fmt_has format FormatUSTAR \<and> fmt_has format FormatPAX
                                            then format AND FormatUSTAR else format\<rparr>), tr2))))"

definition global_header :: "(string list \<Rightarrow> string list) \<Rightarrow> pax \<Rightarrow> Format \<Rightarrow> tar_header \<Rightarrow> tar_header" where
  "global_header ord paxHdrs format hdr0 =
     (case mergePAX ord hdr0 paxHdrs of
        (_, hdr) \<Rightarrow>
          empty_header\<lparr>hName := hName hdr, hTypeflag := hTypeflag hdr, hXattrs := hXattrs hdr, hPAXRecords := hPAXRecords hdr,
            hFormat := format\<rparr>)"

text \<open>Skipping the rest of the current file and its padding.\<close>

definition skip_file :: "Reader \<Rightarrow> error option \<times> Reader" where
  "skip_file tr =
     (case discard (r_nb tr) (r_src tr) of
        (Some e, s) \<Rightarrow> (Some e, tr\<lparr>r_src := s\<rparr>)
      | (None, s) \<Rightarrow>
          (case tryReadFull (r_pad tr) s of
             (_, Some e, s') \<Rightarrow> (Some e, tr\<lparr>r_src := s'\<rparr>)
           | (_, None, s') \<Rightarrow> (None, tr\<lparr>r_src := s', r_pad := 0\<rparr>)))"

text \<open>The start of a turn of \<open>next\<close>: the next header, with the reader at its file.\<close>

definition next_header :: "Reader \<Rightarrow> (tar_header \<times> bytes) result \<times> Reader" where
  "next_header tr =
     (case skip_file tr of
        (Some e, tr1) \<Rightarrow> (Inl e, tr1)
      | (None, tr1) \<Rightarrow>
          (case readHeader (r_src tr1) of
             (Inl e, s) \<Rightarrow> (Inl e, tr1\<lparr>r_src := s\<rparr>)
           | (Inr (hdr, blk), s) \<Rightarrow>
               (case handleRegularFile hdr (tr1\<lparr>r_src := s\<rparr>) of
                  (Some e, tr2) \<Rightarrow> (Inl e, tr2)
                | (None, tr2) \<Rightarrow> (Inr (hdr, blk), tr2))))"

abbreviation remaining :: "Reader \<Rightarrow> nat" where
  "remaining tr \<equiv> length (s_bytes (r_src tr))"

lemma skip_file_less: "skip_file tr = (e, tr') \<Longrightarrow> remaining tr' \<le> remaining tr"
  by (auto simp: skip_file_def split: prod.splits option.splits dest!: read_less(1,4))

lemma handleRegularFile_src: "handleRegularFile hdr tr = (e, tr') \<Longrightarrow> r_src tr' = r_src tr"
  by (auto simp: handleRegularFile_def Let_def split: if_splits)

lemma next_header_less: "next_header tr = (Inr x, tr') \<Longrightarrow> remaining tr' + 512 \<le> remaining tr"
  by (fastforce simp: next_header_def blockSize_def split: prod.splits option.splits sum.splits
      dest!: skip_file_less readHeader_less handleRegularFile_src)

lemma parsePAX_less: "parsePAX nb s = (r, nb', s') \<Longrightarrow> length (s_bytes s') \<le> length (s_bytes s)"
  by (auto simp: parsePAX_def split: prod.splits sum.splits dest!: readSpecialFile_less)

function tar_next ::
    "(string list \<Rightarrow> string list) \<Rightarrow> pax \<Rightarrow> string \<Rightarrow> string \<Rightarrow> Format \<Rightarrow> Reader \<Rightarrow> tar_header result \<times> Reader" where
  "tar_next ord paxHdrs gnuLongName gnuLongLink format0 tr0 =
     (case next_header tr0 of
        (Inl e, tr) \<Rightarrow> (Inl e, tr)
      | (Inr (hdr, rawHdr), tr) \<Rightarrow>
          (let format = format0 AND hFormat hdr; flag = hTypeflag hdr in
           if flag = TypeXHeader \<or> flag = TypeXGlobalHeader then
             (case parsePAX (r_nb tr) (r_src tr) of
                (Inl e, nb, s) \<Rightarrow> (Inl e, tr\<lparr>r_nb := nb, r_src := s\<rparr>)
              | (Inr m, nb, s) \<Rightarrow>
                  if flag = TypeXGlobalHeader then
                    (Inr (global_header ord m (format AND FormatPAX) hdr), tr\<lparr>r_nb := nb, r_src := s\<rparr>)
                  else tar_next ord m gnuLongName gnuLongLink (format AND FormatPAX) (tr\<lparr>r_nb := nb, r_src := s\<rparr>))
           else if flag = TypeGNULongName \<or> flag = TypeGNULongLink then
             (case readSpecialFile (r_nb tr) (r_src tr) of
                (Inl e, nb, s) \<Rightarrow> (Inl e, tr\<lparr>r_nb := nb, r_src := s\<rparr>)
              | (Inr realname, nb, s) \<Rightarrow>
                  tar_next ord paxHdrs
                    (if flag = TypeGNULongName then parseString realname else gnuLongName)
                    (if flag = TypeGNULongLink then parseString realname else gnuLongLink)
                    (format AND FormatGNU) (tr\<lparr>r_nb := nb, r_src := s\<rparr>))
           else next_file ord paxHdrs gnuLongName gnuLongLink format hdr rawHdr tr))"
  by pat_completeness auto
termination
  by (relation "measure (\<lambda>(_, _, _, _, _, tr). remaining tr)")
     (auto dest!: sym [THEN next_header_less] sym [THEN parsePAX_less] sym [THEN readSpecialFile_less])

declare tar_next.simps [simp del]

text \<open>The parts that \<open>unixIsLocal\<close> visits; the separator is the end of a part.\<close>

definition unixIsLocal :: "string \<Rightarrow> bool" where
  "unixIsLocal path =
     (if IsAbs path \<or> path = [] then False
      else
        (let hasDots = list_ex (\<lambda>part. part = ''.'' \<or> part = ''..'') (split_on slash path);
             path' = (if hasDots then Clean path else path)
         in \<not> (path' = ''..'' \<or> HasPrefix path' ''../'')))"

text \<open>\<open>zero\<close> says that the setting \<open>tarinsecurepath\<close> is \<open>0\<close>.\<close>

definition Next :: "(string list \<Rightarrow> string list) \<Rightarrow> bool \<Rightarrow> Reader \<Rightarrow> tar_header result \<times> Reader" where
  "Next ord zero tr =
     (case tar_next ord [] [] [] (FormatUSTAR OR FormatPAX OR FormatGNU) tr of
        (Inl e, tr') \<Rightarrow> (Inl e, tr')
      | (Inr hdr, tr') \<Rightarrow> (if \<not> unixIsLocal (hName hdr) \<and> zero then Inl ErrInsecurePath else Inr hdr, tr'))"

text \<open>
  Reading a sparse file from a position to its end: before each hole the data fragment up to it,
  then the zeros of the hole.
\<close>

fun sparse_read :: "sparseEntry list \<Rightarrow> int \<Rightarrow> nat \<Rightarrow> stream \<Rightarrow> bytes \<times> error option \<times> nat \<times> stream" where
  "sparse_read [] pos nb s = ([], if nb > 0 then Some errUnrefData else None, nb, s)"
| "sparse_read (h # sp) pos nb s =
     (case reg_read (nat (Offset h - pos)) nb s of
        (b, Some e, nb1, s1) \<Rightarrow> (b, Some (if e = io_EOF then errMissData else e), nb1, s1)
      | (b, None, nb1, s1) \<Rightarrow>
          (case sparse_read sp (endOffset h) nb1 s1 of
             (b2, e, nb2, s2) \<Rightarrow> (b @ replicate (nat (Length h)) NUL @ b2, e, nb2, s2)))"

text \<open>\<open>io.Copy\<close> from the current file, until \<open>Read\<close> gives \<open>io.EOF\<close> or another error.\<close>

definition read_file :: "Reader \<Rightarrow> bytes \<times> error option \<times> Reader" where
  "read_file tr =
     (case (case r_sp tr of
              None \<Rightarrow> (case reg_read (Suc (r_nb tr)) (r_nb tr) (r_src tr) of
                         (b, e, nb, s) \<Rightarrow> (b, if e = Some io_EOF then None else e, nb, s))
            | Some sp \<Rightarrow> sparse_read sp 0 (r_nb tr) (r_src tr)) of
        (b, e, nb, s) \<Rightarrow> (b, e, tr\<lparr>r_nb := nb, r_src := s\<rparr>))"

definition mk_entry :: "tar_header \<Rightarrow> bytes \<Rightarrow> error option \<Rightarrow> entry" where
  "mk_entry hdr b e = \<lparr>e_hdr = Header.truncate hdr, e_data = b, e_err = e\<rparr>"

section \<open>The entries of an archive\<close>

lemma old_sparse_loop_less: "old_sparse_loop s spd r = (x, r') \<Longrightarrow> length (s_bytes r') \<le> length (s_bytes r)"
proof (induction s spd r arbitrary: x r' rule: old_sparse_loop.induct)
  case (1 s spd r)
  obtain b e r1 where m: "mustReadFull blockSize r = (b, e, r1)" by (metis prod_cases3)
  show ?case using "1.prems" [unfolded old_sparse_loop.simps [of s spd r]] read_less(2) [OF m] "1.IH" [OF _ _ m [symmetric] refl]
    by (fastforce simp: m split: option.splits if_splits)
qed

lemma feedTokens_less: "feedTokens n buf nb s = (x, nb', s') \<Longrightarrow> length (s_bytes s') \<le> length (s_bytes s)"
proof (induction n buf nb s arbitrary: x nb' s' rule: feedTokens.induct)
  case (1 n buf nb s)
  obtain b e nb1 s1 where m: "reg_read blockSize nb s = (b, e, nb1, s1)" by (metis prod_cases4)
  show ?case using "1.prems" [unfolded feedTokens.simps [of n buf nb s]] reg_read_less [OF m] "1.IH" [OF _ m [symmetric] refl]
    by (fastforce simp: m split: option.splits if_splits)
qed

lemma sparse_read_less: "sparse_read sp pos nb s = (b, e, nb', s') \<Longrightarrow> length (s_bytes s') \<le> length (s_bytes s)"
  by (induction sp pos nb s arbitrary: b e nb' s' rule: sparse_read.induct)
     (fastforce split: option.splits prod.splits if_splits dest: reg_read_less)+

lemma read_file_less: "read_file tr = (b, e, tr') \<Longrightarrow> remaining tr' \<le> remaining tr"
  by (auto simp: read_file_def split: option.splits prod.splits if_splits dest: reg_read_less sparse_read_less)

lemma readGNUSparseMap1x0_less: "readGNUSparseMap1x0 nb s = (r, nb', s') \<Longrightarrow> length (s_bytes s') \<le> length (s_bytes s)"
  by (auto simp: readGNUSparseMap1x0_def split: sum.splits option.splits prod.splits dest!: feedTokens_less)

lemma readOldGNUSparseMap_less: "readOldGNUSparseMap h b s = (r, s') \<Longrightarrow> length (s_bytes s') \<le> length (s_bytes s)"
  by (auto simp: readOldGNUSparseMap_def split: sum.splits bool.splits prod.splits if_splits dest!: old_sparse_loop_less)

lemma readGNUSparsePAXHeaders_less: "readGNUSparsePAXHeaders h tr = (r, tr') \<Longrightarrow> remaining tr' \<le> remaining tr"
  by (auto simp: readGNUSparsePAXHeaders_def Let_def split: sum.splits option.splits prod.splits if_splits
      dest!: readGNUSparseMap1x0_less)

lemma handleSparseFile_less: "handleSparseFile h b tr = (r, tr') \<Longrightarrow> remaining tr' \<le> remaining tr"
  by (auto simp: handleSparseFile_def split: sum.splits option.splits prod.splits if_splits
      dest!: readOldGNUSparseMap_less readGNUSparsePAXHeaders_less)

lemma next_file_less: "next_file ord m n l f h b tr = (r, tr') \<Longrightarrow> remaining tr' \<le> remaining tr"
  by (auto simp: next_file_def Let_def split: sum.splits option.splits prod.splits bool.splits
      dest!: handleSparseFile_less handleRegularFile_src)

lemma tar_next_less: "tar_next ord m n l f tr = (Inr h, tr') \<Longrightarrow> remaining tr' + 512 \<le> remaining tr"
proof (induction ord m n l f tr arbitrary: h tr' rule: tar_next.induct)
  case (1 ord m n l f tr)
  obtain x tr1 where x: "next_header tr = (x, tr1)" by fastforce
  with "1.prems" obtain hdr blk where h: "x = Inr (hdr, blk)" by (subst (asm) tar_next.simps) (auto split: sum.splits)
  note lt = next_header_less [OF x [unfolded h]]
  obtain y nb s where y: "parsePAX (r_nb tr1) (r_src tr1) = (y, nb, s)" by (metis prod_cases3)
  obtain z nb' s' where z: "readSpecialFile (r_nb tr1) (r_src tr1) = (z, nb', s')" by (metis prod_cases3)
  note IH = "1.IH" [OF x [symmetric] h refl refl refl]
  note eq = "1.prems" [unfolded tar_next.simps [of ord m n l f tr] x h prod.case sum.case Let_def y z]
  consider "hTypeflag hdr = TypeXHeader \<or> hTypeflag hdr = TypeXGlobalHeader"
    | "\<not> (hTypeflag hdr = TypeXHeader \<or> hTypeflag hdr = TypeXGlobalHeader)"
      "hTypeflag hdr = TypeGNULongName \<or> hTypeflag hdr = TypeGNULongLink"
    | "\<not> (hTypeflag hdr = TypeXHeader \<or> hTypeflag hdr = TypeXGlobalHeader)"
      "\<not> (hTypeflag hdr = TypeGNULongName \<or> hTypeflag hdr = TypeGNULongLink)" by blast
  then show ?case
  proof cases
    case 1
    show ?thesis using eq lt parsePAX_less [OF y] IH(1) [OF 1 y [symmetric] _ refl] 1
      by (fastforce split: sum.splits if_splits)
  next
    case 2
    show ?thesis using eq lt readSpecialFile_less [OF z] IH(2) [OF 2 z [symmetric] _ refl] 2
      by (fastforce split: sum.splits if_splits)
  next
    case 3
    then have "next_file ord m n l (f AND hFormat hdr) hdr blk tr1 = (Inr h, tr')" using eq by simp
    from next_file_less [OF this] lt show ?thesis by simp
  qed
qed

lemma Next_less: "Next ord zero tr = (Inr h, tr') \<Longrightarrow> remaining tr' + 512 \<le> remaining tr"
  by (auto simp: Next_def split: prod.splits sum.splits if_splits dest: tar_next_less)

text \<open>
  The calls that \<open>ExtractResources\<close> makes, one \<open>Next\<close> a turn: a regular file is read to its end, any
  other entry is left unread. An error in a file is sticky: \<open>Next\<close> gives it again.
\<close>

function tar_entries :: "(string list \<Rightarrow> string list) \<Rightarrow> bool \<Rightarrow> Reader \<Rightarrow> entry list \<times> error option" where
  "tar_entries ord zero tr =
     (case Next ord zero tr of
        (Inl e, _) \<Rightarrow> ([], if e = io_EOF then None else Some e)
      | (Inr hdr, tr1) \<Rightarrow>
          if hTypeflag hdr = TypeReg then
            (case read_file tr1 of
               (b, Some e, tr2) \<Rightarrow> ([mk_entry hdr b (Some e)], Some e)
             | (b, None, tr2) \<Rightarrow> (case tar_entries ord zero tr2 of (ens, fin) \<Rightarrow> (mk_entry hdr b None # ens, fin)))
          else (case tar_entries ord zero tr1 of (ens, fin) \<Rightarrow> (mk_entry hdr [] None # ens, fin)))"
  by pat_completeness auto
termination
  by (relation "measure (\<lambda>(_, _, tr). remaining tr)")
     (auto dest!: sym [THEN Next_less] sym [THEN read_file_less])

declare tar_entries.simps [simp del]

definition tar_archive :: "(string list \<Rightarrow> string list) \<Rightarrow> bool \<Rightarrow> stream \<Rightarrow> archive" where
  "tar_archive ord zero s = Inr (tar_entries ord zero (NewReader s))"

end
