(* ===== verification/TarWriter.thy ===== *)
theory TarWriter
  imports TarReader
begin

unbundle bit_operations_syntax

text \<open>
  Model of the part of \<open>archive/tar/writer.go\<close> that writes archives in the USTAR format, as the
  reference for the reader: what it writes is read back. The bytes written are the value of each
  function; the checks of \<open>allowedFormats\<close> are the conditions of the theorem.
\<close>

section \<open>Header blocks\<close>

type_synonym fblock = "bytes \<times> bool"

text \<open>A field of the block is formatted in place; the flag is the error of the \<open>formatter\<close>.\<close>

definition fmt_field :: "(bytes \<Rightarrow> 'a \<Rightarrow> bytes \<times> bool) \<Rightarrow> nat \<Rightarrow> nat \<Rightarrow> 'a \<Rightarrow> fblock \<Rightarrow> fblock" where
  "fmt_field fmt i n x blk =
     (case fmt (fld i n (fst blk)) x of (f, e) \<Rightarrow> (set_fld i f (fst blk), snd blk \<or> e))"

definition unix_time :: "gotime \<Rightarrow> int" where
  "unix_time t = (case t of ZeroTime \<Rightarrow> 0 | UnixTime sec _ \<Rightarrow> sec)"

definition templateV7Plus :: "(bytes \<Rightarrow> int \<Rightarrow> bytes \<times> bool) \<Rightarrow> tar_header \<Rightarrow> fblock" where
  "templateV7Plus fmtNum hdr =
     (let b0 = (set_fld 156 [hTypeflag hdr] zeroBlock, False);
          b1 = fmt_field formatString 0 100 (hName hdr) b0;
          b2 = fmt_field formatString 157 100 (hLinkname hdr) b1;
          b3 = fmt_field fmtNum 100 8 (hMode hdr) b2;
          b4 = fmt_field fmtNum 108 8 (hUid hdr) b3;
          b5 = fmt_field fmtNum 116 8 (hGid hdr) b4;
          b6 = fmt_field fmtNum 124 12 (hSize hdr) b5;
          b7 = fmt_field fmtNum 136 12 (unix_time (hModTime hdr)) b6;
          b8 = fmt_field formatString 265 32 (hUname hdr) b7;
          b9 = fmt_field formatString 297 32 (hGname hdr) b8;
          b10 = fmt_field fmtNum 329 8 (hDevmajor hdr) b9
      in fmt_field fmtNum 337 8 (hDevminor hdr) b10)"

definition nameSize :: nat where "nameSize = 100"
definition prefixSize :: nat where "prefixSize = 155"

text \<open>The index of the last slash, as \<open>strings.LastIndex\<close>, \<open>None\<close> for \<open>-1\<close>.\<close>

definition last_slash :: "string \<Rightarrow> nat option" where
  "last_slash s =
     (let n = length (takeWhile (\<lambda>c. c \<noteq> slash) (rev s)) in if n = length s then None else Some (length s - n - 1))"

definition splitUSTARPath :: "string \<Rightarrow> (string \<times> string) option" where
  "splitUSTARPath name =
     (if length name \<le> nameSize \<or> \<not> isASCII name then None
      else
        (let len = (if length name > prefixSize + 1 then prefixSize + 1
                    else if last name = slash then length name - 1 else length name)
         in case last_slash (take len name) of
              None \<Rightarrow> None
            | Some i \<Rightarrow>
                (let nlen = length name - i - 1; plen = i in
                 if i = 0 \<or> nlen > nameSize \<or> nlen = 0 \<or> plen > prefixSize then None
                 else Some (take i name, drop (i + 1) name))))"

definition writeUSTARHeader :: "tar_header \<Rightarrow> bytes result" where
  "writeUSTARHeader hdr0 =
     (let (namePrefix, hdr) =
        (case splitUSTARPath (hName hdr0) of
           Some (p, s) \<Rightarrow> (p, hdr0\<lparr>hName := s\<rparr>)
         | None \<Rightarrow> ([], hdr0))
      in case fmt_field formatString 345 155 namePrefix (templateV7Plus formatOctal hdr) of
           (blk, err) \<Rightarrow>
             (case setFormat FormatUSTAR blk of
                None \<Rightarrow> Inl ErrHeader
              | Some b \<Rightarrow> if err then Inl ErrFieldTooLong else Inr b))"

text \<open>
  One file: \<open>WriteHeader\<close>, one \<open>Write\<close> of its data, and the \<open>Flush\<close> that comes before the next
  header; then the archive, with the two zero blocks of \<open>Close\<close>.
\<close>

definition ErrWriteTooLong :: error where "ErrWriteTooLong = SentinelError ''archive/tar: write too long''"

definition write_file :: "tar_header \<Rightarrow> bytes \<Rightarrow> bytes result" where
  "write_file hdr data =
     (case writeUSTARHeader hdr of
        Inl e \<Rightarrow> Inl e
      | Inr blk \<Rightarrow>
          (let sz = (if isHeaderOnlyType (hTypeflag hdr) then 0 else hSize hdr) in
           if int (length data) > sz then Inl ErrWriteTooLong
           else if int (length data) < sz then Inl (Errorf ''archive/tar: missed writing %d bytes'' [] None)
           else Inr (blk @ data @ take (nat (blockPadding sz)) zeroBlock)))"

fun write_archive :: "(tar_header \<times> bytes) list \<Rightarrow> bytes result" where
  "write_archive [] = Inr (zeroBlock @ zeroBlock)"
| "write_archive ((hdr, data) # fs) =
     (case write_file hdr data of
        Inl e \<Rightarrow> Inl e
      | Inr b \<Rightarrow> (case write_archive fs of Inl e \<Rightarrow> Inl e | Inr bs \<Rightarrow> Inr (b @ bs)))"

section \<open>Headers read back\<close>

text \<open>The text and the number fields in an empty field of \<open>n\<close> bytes.\<close>

definition sfield :: "nat \<Rightarrow> string \<Rightarrow> bytes" where
  "sfield n s = s @ replicate (n - length s) NUL"

definition ofield :: "nat \<Rightarrow> int \<Rightarrow> bytes" where
  "ofield n x = fst (formatOctal (replicate n NUL) x)"

definition oct_fits :: "nat \<Rightarrow> int \<Rightarrow> bool" where
  "oct_fits n x \<longleftrightarrow> n \<noteq> 0 \<and> fitsInOctal n x \<and> x < 2 ^ 63"

lemma sfield_facts:
  "length s \<le> n \<Longrightarrow> length (sfield n s) = n" "\<not> hasNUL s \<Longrightarrow> parseString (sfield n s) = s"
  by (auto simp: sfield_def parseString_def hasNUL_def takeWhile_append)

lemma ofield_facts:
  assumes "oct_fits n x"
  shows "formatOctal (replicate n NUL) x = (ofield n x, False)" "length (ofield n x) = n" "parseNumeric (ofield n x) = (x, False)"
  using formatOctal_numeric [of "replicate n NUL" x] assms by (auto simp: oct_fits_def ofield_def)

lemma fmt_string:
  assumes "fld i n b = replicate n NUL" "length s \<le> n"
  shows "fmt_field formatString i n s (b, e) = (set_fld i (sfield n s) b, e)"
proof -
  have "formatString (replicate n NUL) s = (sfield n s, False)"
    using assms(2) by (auto simp: formatString_def sfield_def Let_def list_update_append nth_list_update intro: nth_equalityI)
  then show ?thesis using assms(1) by (simp add: fmt_field_def)
qed

lemma fmt_octal: "fld i n b = replicate n NUL \<Longrightarrow> oct_fits n x \<Longrightarrow> fmt_field formatOctal i n x (b, e) = (set_fld i (ofield n x) b, e)"
  by (simp add: fmt_field_def ofield_facts)

lemma fld_zero [simp]: "i + n \<le> 512 \<Longrightarrow> fld i n zeroBlock = replicate n NUL"
  by (auto simp: fld_def zeroBlock_def blockSize_def min_def)

lemma length_zeroBlock [simp]: "length zeroBlock = 512"
  by (simp add: zeroBlock_def blockSize_def)

text \<open>Reading a field back, and looking past a field that was written elsewhere.\<close>

lemma fld_put:
  assumes "length b = 512" "length f = m" "i + m \<le> 512"
  shows "length (set_fld i f b) = 512" "fld i m (set_fld i f b) = f"
    "j + n \<le> i \<or> i + m \<le> j \<Longrightarrow> j + n \<le> 512 \<Longrightarrow> fld j n (set_fld i f b) = fld j n b"
  using assms by (auto simp: length_set_fld fld_set_other) (metis assms fld_set_same)

text \<open>The conditions under which the writer uses the USTAR format without splitting the name.\<close>

definition ustar_fit :: "tar_header \<Rightarrow> bool" where
  "ustar_fit hdr \<longleftrightarrow> length (hName hdr) \<le> 100 \<and> length (hLinkname hdr) \<le> 100 \<and> length (hUname hdr) \<le> 32 \<and>
     length (hGname hdr) \<le> 32 \<and> oct_fits 8 (hMode hdr) \<and> oct_fits 8 (hUid hdr) \<and> oct_fits 8 (hGid hdr) \<and> oct_fits 12 (hSize hdr) \<and>
     oct_fits 12 (unix_time (hModTime hdr)) \<and> oct_fits 8 (hDevmajor hdr) \<and> oct_fits 8 (hDevminor hdr)"

lemma template_fields:
  assumes "ustar_fit hdr" "length pfx \<le> 155"
  shows "\<exists>b. fmt_field formatString 345 155 pfx (templateV7Plus formatOctal hdr) = (b, False) \<and> length b = 512 \<and>
    fld 0 100 b = sfield 100 (hName hdr) \<and> fld 100 8 b = ofield 8 (hMode hdr) \<and> fld 108 8 b = ofield 8 (hUid hdr) \<and>
    fld 116 8 b = ofield 8 (hGid hdr) \<and> fld 124 12 b = ofield 12 (hSize hdr) \<and>
    fld 136 12 b = ofield 12 (unix_time (hModTime hdr)) \<and> fld 156 1 b = [hTypeflag hdr] \<and>
    fld 157 100 b = sfield 100 (hLinkname hdr) \<and> fld 265 32 b = sfield 32 (hUname hdr) \<and> fld 297 32 b = sfield 32 (hGname hdr) \<and>
    fld 329 8 b = ofield 8 (hDevmajor hdr) \<and> fld 337 8 b = ofield 8 (hDevminor hdr) \<and> fld 345 155 b = sfield 155 pfx \<and>
    fld 508 4 b = replicate 4 NUL"
  using assms by (simp add: ustar_fit_def templateV7Plus_def Let_def fmt_string fmt_octal fld_put sfield_facts ofield_facts)

definition texts_ok :: "tar_header \<Rightarrow> bool" where
  "texts_ok hdr \<longleftrightarrow> \<not> hasNUL (hName hdr) \<and> \<not> hasNUL (hLinkname hdr) \<and> \<not> hasNUL (hUname hdr) \<and> \<not> hasNUL (hGname hdr)"

definition joined_name :: "string \<Rightarrow> string \<Rightarrow> string" where
  "joined_name pfx name = (if pfx \<noteq> [] then pfx @ ''/'' @ name else name)"

text \<open>A block with the magic of USTAR and its fields in place is unpacked to the header.\<close>

lemma unpack_fields:
  assumes "getFormat b = FormatUSTAR OR FormatPAX" "ustar_fit hdr" "texts_ok hdr" "\<not> hasNUL pfx" "length pfx \<le> 155"
    "fld 0 100 b = sfield 100 (hName hdr)" "fld 100 8 b = ofield 8 (hMode hdr)" "fld 108 8 b = ofield 8 (hUid hdr)"
    "fld 116 8 b = ofield 8 (hGid hdr)" "fld 124 12 b = ofield 12 (hSize hdr)"
    "fld 136 12 b = ofield 12 (unix_time (hModTime hdr))" "fld 156 1 b = [hTypeflag hdr]"
    "fld 157 100 b = sfield 100 (hLinkname hdr)" "fld 265 32 b = sfield 32 (hUname hdr)" "fld 297 32 b = sfield 32 (hGname hdr)"
    "fld 329 8 b = ofield 8 (hDevmajor hdr)" "fld 337 8 b = ofield 8 (hDevminor hdr)" "fld 345 155 b = sfield 155 pfx"
  shows "\<exists>f. unpack_header b = Inr (empty_header\<lparr>hName := joined_name pfx (hName hdr), hLinkname := hLinkname hdr,
    hTypeflag := hTypeflag hdr, hMode := hMode hdr, hSize := hSize hdr, hUid := hUid hdr, hGid := hGid hdr, hUname := hUname hdr,
    hGname := hGname hdr, hModTime := UnixTime (unix_time (hModTime hdr)) 0, hDevmajor := hDevmajor hdr, hDevminor := hDevminor hdr,
    hFormat := f\<rparr>)"
proof -
  have "parseNumeric (fld 100 8 b) = (hMode hdr, False)" "parseNumeric (fld 108 8 b) = (hUid hdr, False)"
    "parseNumeric (fld 116 8 b) = (hGid hdr, False)" "parseNumeric (fld 124 12 b) = (hSize hdr, False)"
    "parseNumeric (fld 136 12 b) = (unix_time (hModTime hdr), False)" "parseNumeric (fld 329 8 b) = (hDevmajor hdr, False)"
    "parseNumeric (fld 337 8 b) = (hDevminor hdr, False)"
    using assms(2) by (simp_all add: assms(6-) ustar_fit_def ofield_facts)
  moreover have "parseString (fld 0 100 b) = hName hdr" "parseString (fld 157 100 b) = hLinkname hdr"
    "parseString (fld 265 32 b) = hUname hdr" "parseString (fld 297 32 b) = hGname hdr" "parseString (fld 345 155 b) = pfx"
    using assms(3,4) by (simp_all add: assms(6-) texts_ok_def sfield_facts)
  moreover have "fld 156 (Suc 0) b ! 0 = hTypeflag hdr" using assms(12) by simp
  ultimately show ?thesis
    by (simp add: unpack_header_def assms(1) v7_fields_def extended_fields_def ustar_fields_def Let_def joined_name_def empty_header_def
        v7_name_def v7_mode_def v7_uid_def v7_gid_def v7_size_def v7_modTime_def v7_typeFlag_def v7_linkName_def ustar_userName_def
        ustar_groupName_def ustar_devMajor_def ustar_devMinor_def ustar_prefix_def
        FormatUSTAR_def FormatPAX_def FormatUnknown_def formatV7_def fmt_has_def)
qed

lemma last_slash_split:
  assumes "last_slash s = Some i"
  shows "i < length s \<and> s = take i s @ slash # drop (i + 1) s"
proof -
  let ?t = "takeWhile (\<lambda>c. c \<noteq> slash) (rev s)"
  have n: "length ?t \<noteq> length s" "i = length s - length ?t - 1" using assms by (auto simp: last_slash_def Let_def split: if_splits)
  then have lt: "length ?t < length (rev s)" using length_takeWhile_le [of _ "rev s"] by (simp add: le_neq_implies_less)
  from nth_length_takeWhile [OF lt] have "s ! i = slash" "i < length s" using lt n(2) by (auto simp: rev_nth)
  then show ?thesis using id_take_nth_drop [of i s] by simp
qed

lemma splitUSTARPath_join:
  assumes "splitUSTARPath name = Some (p, q)"
  shows "joined_name p q = name \<and> p \<noteq> [] \<and> length p \<le> 155 \<and> length q \<le> 100 \<and> (hasNUL name \<or> \<not> hasNUL p \<and> \<not> hasNUL q)"
proof -
  define len where "len = (if length name > prefixSize + 1 then prefixSize + 1
                    else if last name = slash then length name - 1 else length name)"
  obtain i where i: "last_slash (take len name) = Some i" "i \<noteq> 0" "p = take i name" "q = drop (i + 1) name"
    "length name - i - 1 \<le> 100" "i \<le> 155"
    using assms unfolding splitUSTARPath_def len_def [symmetric]
    by (auto simp: Let_def nameSize_def prefixSize_def split: if_splits option.splits)
  from last_slash_split [OF i(1)] have l: "i < length name" "name ! i = slash"
    by (auto, metis append_take_drop_id length_take min.absorb2 nth_append_length nth_take less_imp_le)
  then have "name = p @ slash # q" using id_take_nth_drop [of i name] i(3,4) by simp
  then show ?thesis using i l by (auto simp: joined_name_def hasNUL_def dest: in_set_takeD in_set_dropD)
qed

text \<open>The conditions of \<open>allowedFormats\<close> for USTAR, with a name that may be split.\<close>

definition ustar_ok :: "tar_header \<Rightarrow> bool" where
  "ustar_ok hdr \<longleftrightarrow> (length (hName hdr) \<le> 100 \<or> splitUSTARPath (hName hdr) \<noteq> None) \<and> ustar_fit (hdr\<lparr>hName := []\<rparr>) \<and> texts_ok hdr"

lemma split_short: "length name \<le> 100 \<Longrightarrow> splitUSTARPath name = None"
  by (simp add: splitUSTARPath_def nameSize_def)

lemma setFormat_ustar:
  assumes "length b0 = 512" "fld 508 4 b0 = replicate 4 NUL"
  obtains b where "setFormat FormatUSTAR b0 = Some b" "length b = 512" "b \<noteq> zeroBlock" "getFormat b = FormatUSTAR OR FormatPAX"
    "\<And>j k. (j + k \<le> 148 \<or> 156 \<le> j) \<and> (j + k \<le> 257 \<or> 265 \<le> j) \<and> j + k \<le> 512 \<Longrightarrow> fld j k b = fld j k b0"
proof -
  define b1 where "b1 = set_fld 263 versionUSTAR (set_fld 257 magicUSTAR b0)"
  define b where "b = set_fld 148 (fst (formatOctal (take 7 (v7_chksum b1)) (fst (computeChecksum b1))) @ '' '') b1"
  have m: "length magicUSTAR = 6" "length versionUSTAR = 2" by (simp_all add: magicUSTAR_def versionUSTAR_def)
  have l1: "length b1 = 512" using assms(1) by (simp add: b1_def fld_put m)
  note cs = setFormat_checksum [OF l1 b_def]
  have same: "fld j k b = fld j k b1" if "j + k \<le> 148 \<or> 156 \<le> j" "j + k \<le> 512" for j k using cs that by blast
  have g: "fld j k b = fld j k b0" if "(j + k \<le> 148 \<or> 156 \<le> j) \<and> (j + k \<le> 257 \<or> 265 \<le> j) \<and> j + k \<le> 512" for j k
    using same [of j k] that assms(1) by (auto simp: b1_def fld_put m)
  have mg: "fld 257 6 b = magicUSTAR" using same [of 257 6] assms(1) by (simp add: b1_def fld_put m)
  moreover have "fld 508 4 b \<noteq> trailerSTAR" using g [of 508 4] assms(2) by (simp add: trailerSTAR_def numeral_eq_Suc)
  ultimately have "getFormat b = FormatUSTAR OR FormatPAX"
    using cs by (auto simp: getFormat_def ustar_magic_def star_trailer_def split: prod.splits if_splits)
  moreover have "setFormat FormatUSTAR b0 = Some b"
    by (simp add: setFormat_def fmt_has_def FormatUSTAR_def formatV7_def FormatGNU_def formatSTAR_def FormatPAX_def Let_def b_def b1_def)
  moreover have "b \<noteq> zeroBlock" using mg by (auto simp: magicUSTAR_def numeral_eq_Suc)
  ultimately show thesis using that [of b] cs g by simp
qed

lemma header_block:
  assumes "ustar_ok hdr"
  obtains b h where "writeUSTARHeader hdr = Inr b" "length b = 512" "b \<noteq> zeroBlock" "unpack_header b = Inr h"
    "Header.truncate h = Header.truncate hdr" "hSize h = hSize hdr" "hPAXRecords h = []"
proof -
  obtain pfx name where n: "(case splitUSTARPath (hName hdr) of Some (p, s) \<Rightarrow> (p, hdr\<lparr>hName := s\<rparr>) | None \<Rightarrow> ([], hdr)) =
      (pfx, hdr\<lparr>hName := name\<rparr>)" "joined_name pfx name = hName hdr" "length pfx \<le> 155" "length name \<le> 100" "\<not> hasNUL pfx" "\<not> hasNUL name"
    using assms splitUSTARPath_join [of "hName hdr"]
    by (cases "splitUSTARPath (hName hdr)") (auto simp: ustar_ok_def texts_ok_def joined_name_def hasNUL_def)
  let ?h = "hdr\<lparr>hName := name\<rparr>"
  have ok: "ustar_fit ?h" "texts_ok ?h" using assms n(4,6) by (auto simp: ustar_ok_def ustar_fit_def texts_ok_def)
  obtain b0 where b0: "fmt_field formatString 345 155 pfx (templateV7Plus formatOctal ?h) = (b0, False)" "length b0 = 512"
    and f: "fld 0 100 b0 = sfield 100 (hName ?h)" "fld 100 8 b0 = ofield 8 (hMode ?h)" "fld 108 8 b0 = ofield 8 (hUid ?h)"
      "fld 116 8 b0 = ofield 8 (hGid ?h)" "fld 124 12 b0 = ofield 12 (hSize ?h)"
      "fld 136 12 b0 = ofield 12 (unix_time (hModTime ?h))" "fld 156 1 b0 = [hTypeflag ?h]"
      "fld 157 100 b0 = sfield 100 (hLinkname ?h)" "fld 265 32 b0 = sfield 32 (hUname ?h)" "fld 297 32 b0 = sfield 32 (hGname ?h)"
      "fld 329 8 b0 = ofield 8 (hDevmajor ?h)" "fld 337 8 b0 = ofield 8 (hDevminor ?h)" "fld 345 155 b0 = sfield 155 pfx"
      "fld 508 4 b0 = replicate 4 NUL"
    using template_fields [OF ok(1) n(3)] by blast
  obtain b where b: "setFormat FormatUSTAR b0 = Some b" "length b = 512" "b \<noteq> zeroBlock" "getFormat b = FormatUSTAR OR FormatPAX"
    and g: "\<And>j k. (j + k \<le> 148 \<or> 156 \<le> j) \<and> (j + k \<le> 257 \<or> 265 \<le> j) \<and> j + k \<le> 512 \<Longrightarrow> fld j k b = fld j k b0"
    using setFormat_ustar [OF b0(2) f(14)] by blast
  obtain u where u: "unpack_header b = Inr (empty_header\<lparr>hName := joined_name pfx (hName ?h), hLinkname := hLinkname ?h,
    hTypeflag := hTypeflag ?h, hMode := hMode ?h, hSize := hSize ?h, hUid := hUid ?h, hGid := hGid ?h, hUname := hUname ?h,
    hGname := hGname ?h, hModTime := UnixTime (unix_time (hModTime ?h)) 0, hDevmajor := hDevmajor ?h, hDevminor := hDevminor ?h,
    hFormat := u\<rparr>)"
    using unpack_fields [OF b(4) ok n(5,3)] f by (auto simp: g)
  have w: "writeUSTARHeader hdr = Inr b" by (simp add: writeUSTARHeader_def n(1) b0(1) b(1))
  show thesis using that [OF w b(2,3) u] n(2) by (simp add: Header.defs empty_header_def)
qed

section \<open>Archives read back\<close>

lemma ReadFull_block: "s_bytes s = b @ c \<Longrightarrow> length b = 512 \<Longrightarrow> ReadFull blockSize s = (b, None, s\<lparr>s_bytes := c\<rparr>)"
  by (auto simp: ReadFull_def want_def Let_def blockSize_def)

text \<open>A reader with \<open>j\<close> left to skip, then \<open>bs\<close>.\<close>

definition stands_at :: "bytes \<Rightarrow> Reader \<Rightarrow> bool" where
  "stands_at bs tr \<longleftrightarrow> (\<exists>j. s_bytes (r_src tr) = j @ bs \<and> length j = r_nb tr + r_pad tr)"

lemma want_part: "s_bytes s = a @ c \<Longrightarrow> c \<noteq> [] \<Longrightarrow> n = length a \<Longrightarrow> want n s = (a, None, s\<lparr>s_bytes := c\<rparr>)"
  by (cases "a = []") (auto simp: want_def Let_def)

lemma skip_file_at:
  assumes "stands_at bs tr" "bs \<noteq> []"
  shows "skip_file tr = (None, tr\<lparr>r_src := (r_src tr)\<lparr>s_bytes := bs\<rparr>, r_pad := 0\<rparr>)"
proof -
  obtain j where j: "s_bytes (r_src tr) = j @ bs" "length j = r_nb tr + r_pad tr" using assms(1) by (auto simp: stands_at_def)
  define j1 j2 where "j1 = take (r_nb tr) j" and "j2 = drop (r_nb tr) j"
  have "s_bytes (r_src tr) = j1 @ (j2 @ bs)" "length j1 = r_nb tr" "length j2 = r_pad tr" using j by (auto simp: j1_def j2_def)
  then show ?thesis using assms(2) want_part [of "r_src tr" j1 "j2 @ bs" "r_nb tr"]
      want_part [of "(r_src tr)\<lparr>s_bytes := j2 @ bs\<rparr>" j2 bs "r_pad tr"]
    by (simp add: skip_file_def discard_def tryReadFull_def)
qed

text \<open>A file as the writer takes it for this program: a regular file with its data, a directory or a link.\<close>

definition item_ok :: "tar_header \<times> bytes \<Rightarrow> bool" where
  "item_ok f \<longleftrightarrow> (case f of (hdr, data) \<Rightarrow> ustar_ok hdr \<and>
     (if hTypeflag hdr = TypeReg then hSize hdr = int (length data)
      else (hTypeflag hdr = TypeDir \<or> hTypeflag hdr = TypeSymlink) \<and> data = []))"

definition item_entry :: "tar_header \<times> bytes \<Rightarrow> entry" where
  "item_entry f = (case f of (hdr, data) \<Rightarrow> \<lparr>e_hdr = Header.truncate hdr, e_data = data, e_err = None\<rparr>)"

lemma merge_empty: "merge_loop ks [] hdr = (True, hdr\<lparr>hPAXRecords := []\<rparr>)"
  by (induction ks) (auto simp: pax_get_def)

lemmas flag_defs = TypeReg_def TypeDir_def TypeSymlink_def TypeRegA_def TypeXHeader_def TypeXGlobalHeader_def TypeGNUSparse_def
  TypeGNULongName_def TypeGNULongLink_def isHeaderOnlyType_def

lemma truncate_eq:
  "Header.truncate h = Header.truncate g \<longleftrightarrow>
   hName h = hName g \<and> hLinkname h = hLinkname g \<and> hTypeflag h = hTypeflag g \<and> hMode h = hMode g"
  by (simp add: Header.defs)

lemma blockPadding_range: "0 \<le> blockPadding n \<and> blockPadding n < 512"
  using take_bit_eq_mask [of 9 "- n"] by (simp add: blockPadding_def blockSize_def take_bit_eq_mod mask_eq_exp_minus_1)

lemma next_file_plain:
  assumes "handleRegularFile h tr = (None, tr)" "hTypeflag h \<notin> {TypeRegA, TypeGNUSparse}"
  obtains h' where "next_file ord [] [] [] f h blk tr = (Inr h', tr)" "Header.truncate h' = Header.truncate h"
proof -
  have "handleRegularFile (h\<lparr>hPAXRecords := []\<rparr>) tr = (None, tr)" using assms(1) by (auto simp: handleRegularFile_def Let_def split: if_splits)
  moreover have "sparse_version [] = None" by code_simp
  ultimately show thesis using that assms(2)
    by (simp add: next_file_def mergePAX_def merge_empty handleSparseFile_def readGNUSparsePAXHeaders_def Let_def truncate_eq)
qed

text \<open>\<open>next\<close> at a file of the archive: its header, and the reader at its data.\<close>

lemma tar_next_item:
  assumes "item_ok (hdr, data)" "write_file hdr data = Inr b" "stands_at (b @ c) tr" "c \<noteq> []"
  obtains h tr' pad where "tar_next ord [] [] [] f tr = (Inr h, tr')" "Header.truncate h = Header.truncate hdr"
    "s_bytes (r_src tr') = data @ pad @ c" "r_nb tr' = length data" "r_pad tr' = length pad" "r_sp tr' = None"
proof -
  have u: "ustar_ok hdr" and t: "hTypeflag hdr \<in> {TypeReg, TypeDir, TypeSymlink}"
    and sz: "(if isHeaderOnlyType (hTypeflag hdr) then 0 else hSize hdr) = int (length data)"
    using assms(1) by (auto simp: item_ok_def flag_defs split: if_splits)
  obtain blk h where h: "writeUSTARHeader hdr = Inr blk" "length blk = 512" "blk \<noteq> zeroBlock" "unpack_header blk = Inr h"
    "Header.truncate h = Header.truncate hdr" "hSize h = hSize hdr" "hPAXRecords h = []" by (rule header_block [OF u])
  have tf: "hTypeflag h = hTypeflag hdr" using h(5) by (simp add: truncate_eq)
  define pad where "pad = take (nat (blockPadding (int (length data)))) zeroBlock"
  have b: "b = blk @ data @ pad" using assms(2) h(1) sz by (auto simp: write_file_def Let_def pad_def)
  have bp: "length pad = nat (blockPadding (int (length data)))"
    using blockPadding_range [of "int (length data)"] by (auto simp: pad_def min_def le_nat_iff)
  define tr1 where "tr1 = tr\<lparr>r_src := (r_src tr)\<lparr>s_bytes := data @ pad @ c\<rparr>, r_pad := length pad, r_nb := length data, r_sp := None\<rparr>"
  have "next_header tr = (Inr (h, blk), tr1)"
    using skip_file_at [OF assms(3)] assms(4) h(2-4,6) tf sz bp b
    by (cases "isHeaderOnlyType (hTypeflag hdr)")
       (simp_all add: next_header_def readHeader_def ReadFull_block [of _ blk "data @ pad @ c"] handleRegularFile_def Let_def tr1_def)
  then have "tar_next ord [] [] [] f tr = next_file ord [] [] [] (f AND hFormat h) h blk tr1"
    using t tf by (subst tar_next.simps) (auto simp: flag_defs)
  moreover have hr: "handleRegularFile h tr1 = (None, tr1)" using h(6) tf sz bp
    by (cases "isHeaderOnlyType (hTypeflag hdr)") (simp_all add: handleRegularFile_def tr1_def Let_def)
  have "hTypeflag h \<notin> {TypeRegA, TypeGNUSparse}" using t tf by (auto simp: flag_defs)
  from next_file_plain [OF hr this] obtain h' where
    "next_file ord [] [] [] (f AND hFormat h) h blk tr1 = (Inr h', tr1)" "Header.truncate h' = Header.truncate h" by blast
  ultimately show thesis using that [of h' tr1 pad] h(5) by (simp add: tr1_def)
qed

lemma write_archive_zero: "write_archive fs = Inr bs \<Longrightarrow> bs \<noteq> []"
proof (induction fs arbitrary: bs)
  case Nil
  then show ?case using length_zeroBlock by (metis Nil_is_append_conv list.size(3) sum.inject(2) write_archive.simps(1) zero_neq_numeral)
next
  case (Cons f fs)
  then show ?case by (cases f) (auto split: sum.splits)
qed

lemma read_file_item:
  assumes "s_bytes (r_src tr) = data @ c" "c \<noteq> []" "r_nb tr = length data" "r_sp tr = None"
  shows "read_file tr = (data, None, tr\<lparr>r_nb := 0, r_src := (r_src tr)\<lparr>s_bytes := c\<rparr>\<rparr>)"
  using reg_read_part [OF assms(1,2), of "Suc (length data)"] assms(3,4) by (simp add: read_file_def)

lemma entries_end:
  assumes "stands_at (zeroBlock @ zeroBlock @ rest) tr"
  shows "tar_entries ord zero tr = ([], None)"
proof -
  have "zeroBlock @ zeroBlock @ rest \<noteq> []" using length_zeroBlock by (metis append_is_Nil_conv list.size(3) zero_neq_numeral)
  note skip = skip_file_at [OF assms this]
  have "\<exists>tr'. next_header tr = (Inl io_EOF, tr')"
    using ReadFull_block [of _ zeroBlock "zeroBlock @ rest"] ReadFull_block [of _ zeroBlock rest]
    by (simp add: next_header_def skip readHeader_def)
  then have "\<exists>tr'. Next ord zero tr = (Inl io_EOF, tr')" by (auto simp: Next_def tar_next.simps [of ord "[]" "[]" "[]" _ tr])
  then show ?thesis by (subst tar_entries.simps) auto
qed

lemma entries_written:
  assumes "list_all item_ok fs" "list_all (\<lambda>f. zero \<longrightarrow> unixIsLocal (hName (fst f))) fs" "write_archive fs = Inr bs" "stands_at (bs @ rest) tr"
  shows "tar_entries ord zero tr = (map item_entry fs, None)"
  using assms
proof (induction fs arbitrary: bs tr)
  case Nil
  then show ?case using entries_end [of rest tr ord zero] by auto
next
  case (Cons f fs)
  obtain hdr data where f: "f = (hdr, data)" by fastforce
  obtain b c where b: "write_file hdr data = Inr b" "write_archive fs = Inr c" "bs = b @ c"
    using Cons.prems(3) by (auto simp: f split: sum.splits)
  have ne: "c @ rest \<noteq> []" using write_archive_zero [OF b(2)] by simp
  obtain h tr1 pad where n: "tar_next ord [] [] [] (FormatUSTAR OR FormatPAX OR FormatGNU) tr = (Inr h, tr1)" "Header.truncate h = Header.truncate hdr"
    "s_bytes (r_src tr1) = data @ pad @ c @ rest" "r_nb tr1 = length data" "r_pad tr1 = length pad" "r_sp tr1 = None"
    using tar_next_item [OF _ b(1) _ ne] Cons.prems(1,4) by (metis append_assoc b(3) f list.pred_inject(2))
  have nx: "Next ord zero tr = (Inr h, tr1)" using n(1,2) Cons.prems(2) by (auto simp: Next_def f truncate_eq)
  let ?tr2 = "tr1\<lparr>r_nb := 0, r_src := (r_src tr1)\<lparr>s_bytes := pad @ c @ rest\<rparr>\<rparr>"
  have rf: "read_file tr1 = (data, None, ?tr2)" using read_file_item [OF n(3) _ n(4,6)] ne by simp
  have "stands_at (c @ rest) ?tr2" "stands_at (c @ rest) tr1" using n(3-5) by (auto simp: stands_at_def)
  then have "tar_entries ord zero ?tr2 = (map item_entry fs, None)" "tar_entries ord zero tr1 = (map item_entry fs, None)"
    using Cons.IH [OF _ _ b(2)] Cons.prems(1,2) by simp_all
  moreover have "mk_entry h data None = item_entry f" using n(2) by (simp add: mk_entry_def item_entry_def f)
  moreover have "data = []" if "hTypeflag h \<noteq> TypeReg" using that Cons.prems(1) n(2) by (auto simp: f item_ok_def truncate_eq)
  ultimately show ?case by (subst tar_entries.simps) (auto simp: nx rf)
qed

lemma archive_written: "list_all item_ok fs \<Longrightarrow> \<exists>bs. write_archive fs = Inr bs"
proof (induction fs)
  case (Cons f fs)
  obtain hdr data where f: "f = (hdr, data)" by fastforce
  have "ustar_ok hdr" using Cons.prems by (simp add: f item_ok_def)
  then obtain b where "writeUSTARHeader hdr = Inr b" by (metis header_block)
  then have "\<exists>b. write_file hdr data = Inr b" using Cons.prems
    by (auto simp: write_file_def f item_ok_def flag_defs Let_def split: if_splits)
  then show ?case using Cons by (auto simp: f)
qed simp

text \<open>
  C24. Archives round trip: for every list of regular files, directories and links whose fields fit
  the USTAR format, long names split at a slash included, the writer succeeds, and the reader
  delivers exactly these entries with their data and then the end of the archive, whatever
  bytes follow it, whether or not the stream reports its end early, and also where names that
  lead out are refused, if there are none.
\<close>

theorem archive_roundtrip:
  assumes "list_all item_ok fs" "list_all (\<lambda>f. zero \<longrightarrow> unixIsLocal (hName (fst f))) fs"
  shows "\<exists>bs. write_archive fs = Inr bs \<and>
    (\<forall>rest e early. tar_archive ord zero \<lparr>s_bytes = bs @ rest, s_end = e, s_early = early\<rparr> = Inr (map item_entry fs, None))"
proof -
  obtain bs where bs: "write_archive fs = Inr bs" using archive_written [OF assms(1)] by blast
  have "stands_at (bs @ rest) (NewReader \<lparr>s_bytes = bs @ rest, s_end = e, s_early = early\<rparr>)" for rest e early
    by (simp add: stands_at_def NewReader_def)
  from entries_written [OF assms bs this] show ?thesis using bs by (auto simp: tar_archive_def)
qed

definition demo_header :: "string \<Rightarrow> char \<Rightarrow> int \<Rightarrow> tar_header" where
  "demo_header name flag n = empty_header\<lparr>hName := name, hTypeflag := flag, hMode := 0x1A4, hSize := n, hModTime := UnixTime 1700000000 0\<rparr>"

definition demo_items :: "(tar_header \<times> bytes) list" where
  "demo_items =
     [(demo_header ''resources/'' TypeDir 0, []),
      (demo_header (''resources/'' @ replicate 90 (CHR ''d'') @ ''/../x.service'') TypeReg 5, ''hello'')]"

theorem archive_roundtrip_witness:
  "\<exists>bs. write_archive demo_items = Inr bs \<and>
     tar_archive id True \<lparr>s_bytes = bs, s_end = io_EOF, s_early = True\<rparr> = Inr (map item_entry demo_items, None)"
proof -
  have "list_all item_ok demo_items" "list_all (\<lambda>f. True \<longrightarrow> unixIsLocal (hName (fst f))) demo_items" by code_simp+
  from archive_roundtrip [OF this, of id] obtain bs where "write_archive demo_items = Inr bs"
    "tar_archive id True \<lparr>s_bytes = bs @ [], s_end = io_EOF, s_early = True\<rparr> = Inr (map item_entry demo_items, None)" by blast
  then show ?thesis by auto
qed

end
