(* ===== verification/DecompressSpec.thy ===== *)
theory DecompressSpec
  imports Decompress
begin

text \<open>
  Where unpacking writes. An archive without \<open>..\<close> in its names and without links stays below the
  destination, whatever system calls fail; the code itself checks neither, and both conditions are
  needed.
\<close>

section \<open>Names without links\<close>

definition comparable :: "path \<Rightarrow> path \<Rightarrow> bool" where
  "comparable p q \<longleftrightarrow> prefix p q \<or> prefix q p"

text \<open>No link on the way to a directory, or below it.\<close>

definition linkless :: "path \<Rightarrow> fs \<Rightarrow> bool" where
  "linkless d f \<longleftrightarrow> (\<forall>q. comparable q d \<longrightarrow> not_link f q)"

lemma comparable_prefix: "comparable p d \<Longrightarrow> prefix q p \<Longrightarrow> comparable q d"
  unfolding comparable_def by (metis prefix_order.trans prefix_same_cases)

lemma namei_linkless:
  "namei n f cur cs fl = Inr q \<Longrightarrow> list_all name_ok cs \<Longrightarrow> (\<And>k. not_link f (cur @ take k cs)) \<Longrightarrow> q = cur @ cs"
proof (induction cs arbitrary: cur)
  case (Cons c cs)
  have c: "c \<noteq> []" "c \<noteq> ''.''" "c \<noteq> ''..''" using Cons.prems(2) by (simp_all add: name_ok_def pelem_def)
  have nl: "not_link f (cur @ [c])" using Cons.prems(3) [of 1] by simp
  obtain nd where nd: "lookup f cur = Some nd" "is_dir nd" using Cons.prems(1) by (auto split: option.splits if_splits)
  show ?case
  proof (cases "lookup f (cur @ [c])")
    case None
    then show ?thesis using Cons.prems(1) nd c by (auto split: if_splits)
  next
    case (Some m)
    then have "namei n f (cur @ [c]) cs fl = Inr q" using Cons.prems(1) nd c nl by (cases m) (auto simp: not_link_def)
    moreover have "not_link f ((cur @ [c]) @ take k cs)" for k using Cons.prems(3) [of "Suc k"] by simp
    ultimately have "q = (cur @ [c]) @ cs" using Cons.prems(2) by (intro Cons.IH) auto
    then show ?thesis by simp
  qed
qed simp

lemma resolve_linkless:
  assumes "linkless d (w_fs w)" "comparable p d" "list_all name_ok p" "resolve w (apath p) fl = Inr q"
  shows "q = p"
proof -
  have "comparable (take k p) d" for k using assms(2) take_is_prefix comparable_prefix by blast
  then have "not_link (w_fs w) ([] @ take k p)" for k using assms(1) by (simp add: linkless_def)
  moreover have "namei 40 (w_fs w) [] p fl = Inr q" using assms(3,4) by (simp add: resolve_apath)
  ultimately show ?thesis using namei_linkless [of 40 "w_fs w" "[]" p fl q] assms(3) by simp
qed

section \<open>Staying inside\<close>

text \<open>
  From a linkless directory on, a step changes nodes at or below the directory and makes missing
  directories above it, and keeps it linkless.
\<close>

definition inside :: "path \<Rightarrow> world \<Rightarrow> world \<Rightarrow> bool" where
  "inside d w w' \<longleftrightarrow> (linkless d (w_fs w) \<longrightarrow> linkless d (w_fs w') \<and>
     (\<forall>q. lookup (w_fs w') q = lookup (w_fs w) q \<or> prefix d q \<or>
        (prefix q d \<and> lookup (w_fs w) q = None \<and> dir_at (w_fs w') q)))"

lemma inside_refl: "w_fs w' = w_fs w \<Longrightarrow> inside d w w'"
  by (simp add: inside_def)

lemma inside_trans: "inside d w1 w2 \<Longrightarrow> inside d w2 w3 \<Longrightarrow> inside d w1 w3"
  unfolding inside_def dir_at_def by (metis option.distinct(1))

lemma tick_fs: "w_fs (snd (tick w)) = w_fs w"
  by (auto simp: tick_def split: list.split)

lemma inside_store:
  assumes "q \<noteq> []" "\<not> (\<exists>t. n = LinkN t)" "prefix d q \<or> (prefix q d \<and> lookup (w_fs w) q = None \<and> is_dir n)"
  shows "inside d w (w\<lparr>w_fs := store q n (w_fs w)\<rparr>)"
proof -
  have "dir_at (store q n (w_fs w)) q" if "is_dir n" using that assms(1) by (cases n) (auto simp: dir_at_def)
  then show ?thesis using assms by (auto simp: inside_def linkless_def not_link_def)
qed

lemma inside_at_path:
  assumes "comparable p d" "list_all name_ok p"
    and "\<And>v :: world. w_fs v = w_fs w \<Longrightarrow> inside d w (snd (k v p))"
  shows "inside d w (snd (at_path w (apath p) fl k))"
proof -
  obtain r v where t: "tick w = (r, v)" by fastforce
  then have v: "w_fs v = w_fs w" using tick_fs [of w] by simp
  show ?thesis
  proof (cases "linkless d (w_fs w)")
    case True
    then show ?thesis using t v assms(3) [OF v] resolve_linkless [of d v p fl] assms(1,2)
      by (auto simp: at_path_def inside_refl split: option.split sum.split)
  qed (simp add: inside_def)
qed

lemma inside_mkdir:
  assumes "comparable p d" "list_all name_ok p"
  shows "inside d w (snd (sys_mkdir (apath p) m w))"
  unfolding sys_mkdir_def
proof (rule inside_at_path [OF assms])
  fix v :: world
  assume v: "w_fs v = w_fs w"
  have "inside d v (v\<lparr>w_fs := store p (DirN (mkdir_mode (w_umask v) m)) (w_fs v)\<rparr>)" if "lookup (w_fs v) p = None"
    using that assms(1) by (intro inside_store) (auto simp: comparable_def)
  then show "inside d w (snd (case lookup (w_fs v) p of None \<Rightarrow> (Inr (), v\<lparr>w_fs := store p (DirN (mkdir_mode (w_umask v) m)) (w_fs v)\<rparr>)
      | Some x \<Rightarrow> (Inl EEXIST, v)))"
    using inside_trans [OF inside_refl [OF v]] v by (auto simp: inside_refl split: option.split)
qed

lemma inside_creat:
  assumes "prefix d p" "p \<noteq> []" "list_all name_ok p"
  shows "inside d w (snd (sys_creat (apath p) m w))"
  unfolding sys_creat_def
proof (rule inside_at_path [OF _ assms(3)])
  fix v :: world
  assume v: "w_fs v = w_fs w"
  have "inside d v (v\<lparr>w_fs := store p (FileN m' b) (w_fs v)\<rparr>)" for m' b
    using assms by (intro inside_store) auto
  then show "inside d w (snd (case lookup (w_fs v) p of None \<Rightarrow> (Inr p, v\<lparr>w_fs := store p (FileN (m AND NOT (w_umask v)) []) (w_fs v)\<rparr>)
      | Some (FileN m' x) \<Rightarrow> (Inr p, v\<lparr>w_fs := store p (FileN m' []) (w_fs v)\<rparr>) | Some _ \<Rightarrow> (Inl EISDIR, v)))"
    using inside_trans [OF inside_refl [OF v]] v by (auto simp: inside_refl split: option.split node.split)
qed (use assms in \<open>simp add: comparable_def\<close>)

lemma inside_write:
  assumes "prefix d p" "p \<noteq> []"
  shows "inside d w (snd (sys_write p bs w))"
proof -
  obtain r v where t: "tick w = (r, v)" by fastforce
  then have v: "w_fs v = w_fs w" using tick_fs [of w] by simp
  have "inside d v (v\<lparr>w_fs := store p (FileN m b) (w_fs v)\<rparr>)" for m b using assms by (intro inside_store) auto
  then show ?thesis using t v inside_trans [OF inside_refl [OF v]]
    by (auto simp: sys_write_def Let_def inside_refl split: option.split node.split)
qed

lemma path_err_world: "snd (path_err op p r) = snd r"
  by (auto simp: path_err_def split: prod.split sum.split)

lemma inside_Stat: "inside d w (snd (Stat p w))" "inside d w (snd (Lstat p w))"
  by (simp_all add: Stat_fs inside_refl)

lemma inside_Mkdir: "comparable p d \<Longrightarrow> list_all name_ok p \<Longrightarrow> inside d w (snd (Mkdir (apath p) m w))"
  using inside_mkdir [of p d w m] by (auto simp: Mkdir_def split: prod.split sum.split)

lemma inside_mkdir_last:
  assumes "comparable p d" "list_all name_ok p"
  shows "inside d w (snd (mkdir_last (apath p) m w))"
proof -
  obtain e w1 where a: "Mkdir (apath p) m w = (e, w1)" by fastforce
  obtain r w2 where b: "Lstat (apath p) w1 = (r, w2)" by fastforce
  have "inside d w w1" "inside d w1 w2" using inside_Mkdir [OF assms, of w m] inside_Stat(2) [of d w1 "apath p"] a b by simp_all
  then show ?thesis using a b inside_trans by (auto simp: mkdir_last_def split: option.split sum.split)
qed

lemma inside_MkdirAll:
  "comparable p d \<Longrightarrow> list_all name_ok p \<Longrightarrow> inside d w (snd (MkdirAll (apath p) m w))"
proof (induction p arbitrary: w rule: rev_induct)
  case Nil
  have "parent_path (apath []) = []" by code_simp
  moreover obtain r w1 where st: "Stat (apath []) w = (r, w1)" by fastforce
  moreover have "inside d w w1" using inside_Stat(1) [of d w "apath []"] st by simp
  moreover have "inside d w (snd (mkdir_last (apath []) m w1))" using inside_trans [OF calculation(3) inside_mkdir_last [OF Nil]] .
  ultimately show ?case by (subst MkdirAll.simps) (auto split: sum.split)
next
  case (snoc x ps)
  have ps: "comparable ps d" "list_all name_ok ps" using snoc.prems comparable_prefix [of "ps @ [x]" d ps] by simp_all
  obtain r w1 where st: "Stat (apath (ps @ [x])) w = (r, w1)" by fastforce
  have w1: "inside d w w1" using inside_Stat(1) [of d w "apath (ps @ [x])"] st by simp
  have up: "inside d w (snd (case MkdirAll (apath ps) m w1 of (Some e, w2) \<Rightarrow> (Some e, w2) | (None, w2) \<Rightarrow> mkdir_last (apath (ps @ [x])) m w2))"
    if "ps \<noteq> []"
  proof -
    obtain e w2 where m: "MkdirAll (apath ps) m w1 = (e, w2)" by fastforce
    have "inside d w w2" using snoc.IH [OF ps, of w1] m inside_trans [OF w1] by simp
    then show ?thesis using m inside_trans inside_mkdir_last [OF snoc.prems(1,2)] by (auto split: option.split)
  qed
  have last: "inside d w (snd (mkdir_last (apath (ps @ [x])) m w1))" using inside_trans [OF w1 inside_mkdir_last [OF snoc.prems(1,2)]] .
  show ?case using st w1 up last parent_path_apath [OF snoc.prems(2)]
    by (subst MkdirAll.simps) (auto split: sum.split)
qed

lemma inside_open_write:
  assumes "prefix d p" "p \<noteq> []" "list_all name_ok p" "linkless d (w_fs w)" "OpenTrunc (apath p) m w = (Inr h, w1)"
  shows "h = p"
proof -
  obtain r v where t: "tick w = (r, v)" by fastforce
  then have v: "linkless d (w_fs v)" using tick_fs [of w] assms(4) by simp
  have "comparable p d" using assms(1) by (simp add: comparable_def)
  from resolve_linkless [OF v this assms(3)] show ?thesis using assms(5) t
    by (auto simp: OpenTrunc_def sys_creat_def at_path_def path_err_def split: option.splits sum.splits prod.splits node.splits)
qed

text \<open>
  One entry that is no link and whose name leads below the destination; one that is no link and
  whose name has no \<open>..\<close>.
\<close>

definition contained :: "path \<Rightarrow> entry \<Rightarrow> bool" where
  "contained d en \<longleftrightarrow>
     hTypeflag (e_hdr en) \<noteq> TypeSymlink \<and> prefix (celems (apath d)) (celems (Join [apath d, hName (e_hdr en)]))"

definition harmless :: "entry \<Rightarrow> bool" where
  "harmless en \<longleftrightarrow> hTypeflag (e_hdr en) \<noteq> TypeSymlink \<and> ''..'' \<notin> set (elems (hName (e_hdr en)))"

lemma harmless_contained: "harmless en \<Longrightarrow> contained d en"
  using Join_below [OF apath_ne, of "hName (e_hdr en)" d] by (simp add: harmless_def contained_def)

lemma target_path:
  assumes "list_all name_ok d" "prefix (celems (apath d)) (celems (Join [apath d, name]))"
  obtains es where "Join [apath d, name] = apath (d @ es)" "list_all name_ok (d @ es)"
proof -
  have nd: "normal True d" using assms(1) by (rule normal_names)
  let ?j = "Join [apath d, name]"
  have "prefix d (celems ?j)" using assms(2) celems_render [OF nd] by simp
  moreover have "IsAbs ?j" using IsAbs_Join2 [OF apath_ne, of d name] IsAbs_render [OF nd] by simp
  moreover have "?j = Clean ?j" by (simp add: Join2 Clean_idem)
  ultimately obtain es where es: "celems ?j = d @ es" "?j = apath (d @ es)" by (metis Clean_celems prefixE)
  moreover have "list_all name_ok (celems ?j)"
    using normal_celems [of ?j] \<open>IsAbs ?j\<close> by (auto simp: normal_def)
  ultimately show thesis using that by metis
qed

lemma inside_extract_entry:
  assumes "list_all name_ok d" "d \<noteq> []" "contained d en"
  shows "inside d w (snd (extract_entry (apath d) en w))"
proof (cases "linkless d (w_fs w)")
  case True
  let ?h = "e_hdr en"
  obtain es where es: "Join [apath d, hName ?h] = apath (d @ es)" "list_all name_ok (d @ es)"
    using target_path assms(1,3) by (metis contained_def)
  obtain ps x where px: "d @ es = ps @ [x]" using assms(2) by (cases "d @ es" rule: rev_cases) auto
  have dir: "Dir (apath (d @ es)) = apath ps" using es(2) by (simp only: px Dir_render normal_names)
  have c: "comparable (d @ es) d" by (simp add: comparable_def)
  have cp: "comparable ps d" "list_all name_ok ps"
    using comparable_prefix [OF c, of ps] es(2) by (simp_all add: px)
  have below: "prefix d (d @ es)" "d @ es \<noteq> []" using assms(2) by simp_all
  obtain e1 w1 where m: "MkdirAll (apath ps) 0x1ED w = (e1, w1)" by fastforce
  have i1: "inside d w w1" using inside_MkdirAll [OF cp, of w "0x1ED"] m by simp
  obtain r2 w2 where o: "OpenTrunc (apath (d @ es)) (syscallMode (hMode ?h)) w1 = (r2, w2)" by fastforce
  have i2: "inside d w w2" using inside_creat [OF below es(2), of w1 "syscallMode (hMode ?h)"] o inside_trans [OF i1]
    by (metis OpenTrunc_def path_err_world snd_conv)
  have i3: "inside d w (snd (copy_data (apath (d @ es)) f (e_data en, e_err en) w2))" if "r2 = Inr f" for f
  proof -
    have "f = d @ es" using inside_open_write [OF below es(2), of w1] True i1 o that by (auto simp: inside_def)
    then show ?thesis using inside_trans [OF i2 inside_write [OF below, of w2 "e_data en"]] i2
      by (auto simp: copy_data_def split: prod.split option.split)
  qed
  show ?thesis using inside_MkdirAll [OF c es(2), of w "0x1ED"] m o i1 i2 i3 assms(3)
    by (auto simp: extract_entry_def Let_def es(1) dir contained_def inside_refl split: prod.split option.split sum.split)
qed (simp add: inside_def)

lemma inside_extract_loop:
  assumes "list_all name_ok d" "d \<noteq> []" "list_all (contained d) ens"
  shows "inside d w (snd (extract_loop (apath d) ens fin n w))"
  using assms(3)
proof (induction ens arbitrary: n w)
  case (Cons en ens)
  obtain r w1 where e: "extract_entry (apath d) en w = (r, w1)" by fastforce
  have "inside d w w1" using inside_extract_entry [OF assms(1,2), of en w] Cons.prems e by simp
  then show ?case using e Cons inside_trans by (auto split: sum.split)
qed (auto simp: inside_refl split: option.split)

lemma extraction_contained:
  assumes "list_all name_ok d" "d \<noteq> []" "linkless d (w_fs w)" "list_all (contained d) ens"
    "ExtractResources (Inr (ens, fin)) (apath d) w = (e, w')"
  shows "lookup (w_fs w') q = lookup (w_fs w) q \<or> prefix d q \<or>
    (prefix q d \<and> lookup (w_fs w) q = None \<and> dir_at (w_fs w') q)"
proof -
  have fs: "w_fs (println s v) = w_fs v" for s v by (simp add: println_def)
  have cl: "Clean (apath d) = apath d" using Clean_render [OF normal_names [OF assms(1)]] .
  let ?w0 = "println ''INFO: extracting resources; this may take some time...'' w"
  obtain r w1 where x: "extract_loop (apath d) ens fin 0 ?w0 = (r, w1)" by fastforce
  then have "w_fs w' = w_fs w1" using assms(5) by (auto simp: ExtractResources_def cl Let_def fs split: sum.splits if_splits)
  moreover have "inside d ?w0 w1" using inside_extract_loop [OF assms(1,2,4), of ?w0 fin 0] x by simp
  ultimately show ?thesis using assms(3) by (simp add: inside_def fs)
qed


definition file_entry :: "string \<Rightarrow> bytes \<Rightarrow> entry" where
  "file_entry name b = \<lparr>e_hdr = \<lparr>hName = name, hLinkname = [], hTypeflag = TypeReg, hMode = 0x1A4\<rparr>, e_data = b, e_err = None\<rparr>"

definition link_entry :: "string \<Rightarrow> string \<Rightarrow> entry" where
  "link_entry name target =
     \<lparr>e_hdr = \<lparr>hName = name, hLinkname = target, hTypeflag = TypeSymlink, hMode = 0x1FF\<rparr>, e_data = [], e_err = None\<rparr>"



end
