(* ===== verification/TarSpec.thy ===== *)
theory TarSpec
  imports TarWriter DecompressSpec
begin

unbundle bit_operations_syntax

text \<open>
  What the tar reader promises to the unpacking code: how many entries an archive can have, what a
  sparse file contains, and that names leading out of the archive are refused where the setting
  \<open>tarinsecurepath\<close> asks for it.
\<close>

section \<open>Local names\<close>

lemma elems_split: "elems s = split_on slash s"
  by (induction s) (auto split: list.split)

lemma up_stays: "st \<noteq> [] \<Longrightarrow> last st = ''..'' \<Longrightarrow> ''..'' \<in> set (foldl (norm_step False) st es)"
proof (induction es arbitrary: st)
  case Nil
  then show ?case using last_in_set by fastforce
next
  case (Cons e es)
  have "norm_step False st e \<noteq> [] \<and> last (norm_step False st e) = ''..''"
    using Cons.prems by (cases st) (auto simp: norm_step_def split: if_splits)
  then show ?case using Cons.IH [of "norm_step False st e"] by simp
qed

lemma norm_fold_local:
  "''..'' \<notin> set (foldl (norm_step False) st es) \<Longrightarrow> ''..'' \<notin> set st \<Longrightarrow>
   foldl (norm_step rooted) (st @ base) es = foldl (norm_step False) st es @ base"
proof (induction es arbitrary: st)
  case (Cons e es)
  have "norm_step False [] ''..'' = [''..'']" by (simp add: norm_step_def)
  then have "st \<noteq> []" if "e = ''..''" using Cons.prems(1) up_stays [of "[''..'']" es] that by auto
  then have "norm_step rooted (st @ base) e = norm_step False st e @ base \<and> ''..'' \<notin> set (norm_step False st e)"
    using Cons.prems(2) by (cases st) (auto simp: norm_step_def)
  then show ?case using Cons.IH [of "norm_step False st e"] Cons.prems(1) by simp
qed simp

lemma Join_local:
  "d \<noteq> [] \<Longrightarrow> ''..'' \<notin> set (norm False (elems name)) \<Longrightarrow> prefix (celems d) (celems (Join [d, name]))"
  using norm_fold_local [of "[]" "elems name" "IsAbs d" "rev (celems d)"]
  by (simp add: celems_Join2 norm_def)

lemma norm_fold_subset: "set (foldl (norm_step r) st es) \<subseteq> set st \<union> set es"
proof (induction es arbitrary: st)
  case (Cons e es)
  have "set (norm_step r st e) \<subseteq> set st \<union> {e}" by (cases st) (auto simp: norm_step_def)
  then show ?case using Cons.IH [of "norm_step r st e"] by auto
qed simp

lemma local_norm:
  assumes "unixIsLocal name"
  shows "''..'' \<notin> set (norm False (elems name))"
proof (cases "list_ex (\<lambda>part. part = ''.'' \<or> part = ''..'') (elems name)")
  case True
  have ab: "\<not> IsAbs name" using assms by (auto simp: unixIsLocal_def)
  let ?n = "norm False (elems name)"
  obtain k ys where n: "?n = replicate k ''..'' @ ys" "list_all name_ok ys"
    using normal_celems [of name] ab by (auto simp: celems_def normal_def)
  have "Clean name = render False ?n" by (simp add: Clean_def ab)
  moreover have "Clean name \<noteq> ''..'' \<and> \<not> HasPrefix (Clean name) ''../''"
    using assms True by (simp add: unixIsLocal_def Let_def elems_split split: if_splits)
  ultimately have c: "render False ?n \<noteq> ''..''" "\<not> HasPrefix (render False ?n) ''../''" by simp_all
  have "k = 0"
  proof (rule ccontr)
    assume "k \<noteq> 0"
    then obtain es where e: "?n = ''..'' # es" using n(1) by (cases k) auto
    with c show False by (cases es) (auto simp: render_def HasPrefix_def)
  qed
  then show ?thesis using n by (auto simp: name_ok_def list_all_iff)
next
  case False
  then have "''..'' \<notin> set (elems name)" by (auto simp: list_ex_iff)
  then show ?thesis using norm_fold_subset [of False "[]" "elems name"] by (auto simp: norm_def)
qed

section \<open>Sparse files\<close>

text \<open>
  The content of a sparse file as the comment on \<open>sparseDatas\<close> describes it: the fragments of the map
  filled from the data in order, everything else zero.
\<close>

fun expand :: "int \<Rightarrow> sparseEntry list \<Rightarrow> bytes \<Rightarrow> int \<Rightarrow> bytes" where
  "expand pos [] d sz = replicate (nat (sz - pos)) NUL"
| "expand pos (x # spd) d sz =
     replicate (nat (Offset x - pos)) NUL @ take (nat (Length x)) d @ expand (endOffset x) spd (drop (nat (Length x)) d) sz"

definition data_size :: "sparseEntry list \<Rightarrow> nat" where
  "data_size spd = (\<Sum>x\<leftarrow>spd. nat (Length x))"

text \<open>A map that is valid from a position on.\<close>

fun valid_from :: "int \<Rightarrow> sparseEntry list \<Rightarrow> int \<Rightarrow> bool" where
  "valid_from pos [] sz \<longleftrightarrow> pos \<le> sz"
| "valid_from pos (x # spd) sz \<longleftrightarrow> pos \<le> Offset x \<and> 0 \<le> Length x \<and> valid_from (endOffset x) spd sz"

lemma validate_from: "validate_loop pre spd sz \<Longrightarrow> endOffset pre \<le> sz \<Longrightarrow> valid_from (endOffset pre) spd sz"
  by (induction pre spd sz rule: validate_loop.induct) (auto split: if_splits)

lemma validate_from_zero: "validateSparseEntries spd sz \<Longrightarrow> valid_from 0 spd sz"
  using validate_from [of "\<lparr>Offset = 0, Length = 0\<rparr>" spd sz] by (auto simp: validateSparseEntries_def endOffset_def)

lemma valid_le: "valid_from pos spd sz \<Longrightarrow> pos \<le> sz"
  by (induction pos spd sz rule: valid_from.induct) (auto simp: endOffset_def)

lemma replicate_split: "0 \<le> a \<Longrightarrow> 0 \<le> b \<Longrightarrow> replicate (nat (a + b)) c = replicate (nat a) c @ replicate (nat b) c"
  by (simp add: nat_add_distrib replicate_add)

lemma expand_split: "valid_from q spd sz \<Longrightarrow> pos \<le> q \<Longrightarrow> expand pos spd d sz = replicate (nat (q - pos)) NUL @ expand q spd d sz"
  using replicate_split [of "q - pos" "sz - q" NUL] replicate_split [of "q - pos" "Offset (hd spd) - q" NUL]
  by (cases spd) auto

lemma length_expand: "valid_from pos spd sz \<Longrightarrow> data_size spd \<le> length d \<Longrightarrow> length (expand pos spd d sz) = nat (sz - pos)"
proof (induction pos spd d sz rule: expand.induct)
  case (2 pos x spd d sz)
  then have "length (expand (endOffset x) spd (drop (nat (Length x)) d) sz) = nat (sz - endOffset x)"
    by (intro "2.IH") (auto simp: data_size_def)
  then show ?case using 2 valid_le [of "endOffset x" spd sz] by (auto simp: endOffset_def data_size_def min_def)
qed simp

text \<open>What reading gives if the map asks for \<open>n\<close> bytes of the data.\<close>

definition outcome :: "nat \<Rightarrow> bytes \<Rightarrow> bytes \<Rightarrow> bytes \<times> error option \<times> 'a \<Rightarrow> bool" where
  "outcome n d content r \<longleftrightarrow> (n \<le> length d \<longrightarrow> fst r = content) \<and>
     fst (snd r) = (if length d < n then Some errMissData else if n < length d then Some errUnrefData else None)"

lemma sparse_read_content:
  assumes "valid_from pre spd sz" "pos \<le> pre" "s_bytes s = d @ rest" "rest \<noteq> []"
  shows "outcome (nat (pre - pos) + data_size spd) d (take (nat (pre - pos)) d @ expand pre spd (drop (nat (pre - pos)) d) sz)
     (sparse_read (invert_loop pre spd sz) pos (length d) s)"
  using assms
proof (induction spd arbitrary: pre pos d s)
  case Nil
  then show ?case using reg_read_part [OF Nil(3,4), of "nat (pre - pos)"] by (auto simp: data_size_def endOffset_def outcome_def)
next
  case (Cons x spd)
  let ?k = "nat (pre - pos)" let ?n = "Offset x - pre" let ?l = "nat (Length x)"
  have v: "pre \<le> Offset x" "0 \<le> Length x" "valid_from (endOffset x) spd sz" using Cons.prems(1) by auto
  have t: "data_size (x # spd) = ?l + data_size spd" by (simp add: data_size_def)
  consider "Length x = 0" | "Length x > 0" "?n = 0" | "Length x > 0" "?n > 0" using v by linarith
  then show ?case
  proof cases
    case 1
    then have "valid_from (Offset x) spd sz" using v by (simp add: endOffset_def)
    then have "valid_from pre spd sz" "expand pre (x # spd) d' sz = expand pre spd d' sz" for d'
      using v(1) 1 expand_split [of "Offset x" spd sz pre d'] by (cases spd; auto simp: endOffset_def)+
    then show ?thesis using Cons.IH [of pre pos s d] Cons.prems 1 by (simp add: t)
  next
    case 2
    then have p: "nat (endOffset x - pos) = ?k + ?l" using v Cons.prems(2) by (simp add: endOffset_def)
    have "take (?k + ?l) d @ expand (endOffset x) spd (drop (?k + ?l) d) sz = take ?k d @ expand pre (x # spd) (drop ?k d) sz"
      using 2 by (simp add: take_add) (simp add: add.commute)
    moreover have "invert_loop pre (x # spd) sz = invert_loop (endOffset x) spd sz" using 2 by simp
    moreover have "pos \<le> endOffset x" using v Cons.prems(2) by (simp add: endOffset_def)
    ultimately show ?thesis using Cons.IH [of "endOffset x" pos s d] v(3) Cons.prems(3,4) by (simp add: p t add.assoc)
  next
    case 3
    let ?s = "s\<lparr>s_bytes := drop ?k d @ rest\<rparr>"
    have l: "nat (endOffset x - Offset x) = ?l" by (simp add: endOffset_def)
    have "outcome (?l + data_size spd) (drop ?k d) (take ?l (drop ?k d) @ expand (endOffset x) spd (drop ?l (drop ?k d)) sz)
        (sparse_read (invert_loop (endOffset x) spd sz) (Offset x) (length (drop ?k d)) ?s)"
      using Cons.IH [of "endOffset x" "Offset x" ?s "drop ?k d"] v Cons.prems(4) by (simp add: l endOffset_def)
    then show ?thesis using 3 reg_read_part [OF Cons.prems(3,4), of ?k]
      by (auto simp: t outcome_def endOffset_def split: prod.splits if_splits)
  qed
qed

text \<open>
  C26. Reading a sparse file, for every valid map, adjacent and empty fragments included: if the data
  of the archive is what the map asks for, the file has exactly the size of the header, with the
  data in the fragments and zeros elsewhere; data that is too short or too long is reported.
\<close>

theorem sparse_file_content:
  assumes "validateSparseEntries spd sz" "r_sp tr = Some (invertSparseEntries spd sz)"
    "s_bytes (r_src tr) = d @ rest" "rest \<noteq> []" "length d = r_nb tr" "read_file tr = (b, e, tr')"
  shows "(data_size spd \<le> length d \<longrightarrow> b = expand 0 spd d sz \<and> int (length b) = sz) \<and>
    e = (if length d < data_size spd then Some errMissData else if length d > data_size spd then Some errUnrefData else None)"
proof -
  have v: "valid_from 0 spd sz" "sz \<ge> 0" using assms(1) validate_from_zero by (auto simp: validateSparseEntries_def)
  have "outcome (data_size spd) d (expand 0 spd d sz) (sparse_read (invertSparseEntries spd sz) 0 (r_nb tr) (r_src tr))"
    using sparse_read_content [OF v(1) order.refl assms(3,4)] by (simp add: invertSparseEntries_def assms(5))
  then show ?thesis using assms(2,6) length_expand [OF v(1), of d] v(2)
    by (auto simp: read_file_def outcome_def split: prod.splits)
qed

definition sparse_demo :: Reader where
  "sparse_demo =
     \<lparr>r_src = \<lparr>s_bytes = ''abcdefgh'' @ replicate 504 NUL, s_end = io_EOF, s_early = False\<rparr>, r_pad = 504, r_nb = 8,
      r_sp = Some (invertSparseEntries [\<lparr>Offset = 2, Length = 5\<rparr>, \<lparr>Offset = 18, Length = 3\<rparr>] 25)\<rparr>"

theorem sparse_file_content_witness:
  "fst (read_file sparse_demo) = replicate 2 NUL @ ''abcde'' @ replicate 11 NUL @ ''fgh'' @ replicate 4 NUL"
proof -
  let ?m = "[\<lparr>Offset = 2, Length = 5\<rparr>, \<lparr>Offset = 18, Length = 3\<rparr>]"
  obtain b e tr' where r: "read_file sparse_demo = (b, e, tr')" by (metis prod_cases3)
  have x: "expand 0 ?m ''abcdefgh'' 25 = replicate 2 NUL @ ''abcde'' @ replicate 11 NUL @ ''fgh'' @ replicate 4 NUL" by code_simp
  have "validateSparseEntries ?m 25" "data_size ?m = 8" by code_simp+
  moreover have "r_sp sparse_demo = Some (invertSparseEntries ?m 25)" "s_bytes (r_src sparse_demo) = ''abcdefgh'' @ replicate 504 NUL"
    "r_nb sparse_demo = 8" by (simp_all add: sparse_demo_def)
  ultimately have "b = expand 0 ?m ''abcdefgh'' 25" using sparse_file_content [OF _ _ _ _ _ r, of ?m 25 "''abcdefgh''" "replicate 504 NUL"] by simp
  then show ?thesis using x r by simp
qed
section \<open>Entries\<close>

lemma Next_local: "Next ord True tr = (Inr h, tr') \<Longrightarrow> unixIsLocal (hName h)"
  by (auto simp: Next_def split: prod.splits sum.splits if_splits)

lemma mk_entry_name [simp]: "hName (e_hdr (mk_entry h b e)) = hName h" "hTypeflag (e_hdr (mk_entry h b e)) = hTypeflag h"
  by (simp_all add: mk_entry_def Header.defs)

text \<open>Induction over the calls of \<open>Next\<close>: the archive ends, a file cannot be read, or there is one more entry.\<close>

lemma tar_entries_induct [consumes 1, case_names Stop Cut Step]:
  assumes "tar_entries ord zero tr = (ens, fin)"
    and "\<And>tr e tr1. Next ord zero tr = (Inl e, tr1) \<Longrightarrow> P tr [] (if e = io_EOF then None else Some e)"
    and "\<And>tr h tr1 b e tr2. Next ord zero tr = (Inr h, tr1) \<Longrightarrow> read_file tr1 = (b, Some e, tr2) \<Longrightarrow>
      P tr [mk_entry h b (Some e)] (Some e)"
    and "\<And>tr h tr1 b tr2 ens fin. Next ord zero tr = (Inr h, tr1) \<Longrightarrow> remaining tr2 \<le> remaining tr1 \<Longrightarrow>
      tar_entries ord zero tr2 = (ens, fin) \<Longrightarrow> P tr2 ens fin \<Longrightarrow> P tr (mk_entry h b None # ens) fin"
  shows "P tr ens fin"
  using assms(1)
proof (induction tr arbitrary: ens fin rule: measure_induct_rule [where f = remaining])
  case (less tr)
  obtain r tr1 where n: "Next ord zero tr = (r, tr1)" by fastforce
  show ?case
  proof (cases r)
    case (Inl e)
    with n have "ens = [] \<and> fin = (if e = io_EOF then None else Some e)" using less.prems by (subst (asm) tar_entries.simps) auto
    then show ?thesis using assms(2) n Inl by auto
  next
    case (Inr h)
    obtain b e tr2 where f: "read_file tr1 = (b, e, tr2)" by (metis prod_cases3)
    have lt: "remaining tr1 < remaining tr" "remaining tr2 \<le> remaining tr1"
      using Next_less [OF n [unfolded Inr]] read_file_less [OF f] by simp_all
    obtain en1 f1 where e1: "tar_entries ord zero tr1 = (en1, f1)" by fastforce
    obtain en2 f2 where e2: "tar_entries ord zero tr2 = (en2, f2)" by fastforce
    note IH = less.IH [OF lt(1) e1] less.IH [OF order.strict_trans1 [OF lt(2,1)] e2]
    note step = assms(4) [OF n [unfolded Inr] _ e1 IH(1), of "[]"] assms(4) [OF n [unfolded Inr] lt(2) e2 IH(2), of b]
      assms(3) [OF n [unfolded Inr], of b _ tr2]
    show ?thesis using less.prems f e1 e2 n Inr step
      by (subst (asm) tar_entries.simps) (auto split: if_splits option.splits)
  qed
qed

lemma entries_local: "tar_entries ord True tr = (ens, fin) \<Longrightarrow> list_all (\<lambda>en. unixIsLocal (hName (e_hdr en))) ens"
  by (induction rule: tar_entries_induct) (auto dest: Next_local)



text \<open>
  C25. Reading an archive always comes to an end, for every content, every format and every chain of
  extended headers and sparse maps: each call of \<open>Next\<close> that gives an entry uses up at least one
  block, so that a stream of \<open>n\<close> bytes has at most \<open>n div 512\<close> entries; after them the end of
  the archive or an error is reported, and every error in a file ends the archive.
\<close>

theorem archive_ends:
  "\<exists>ens fin. tar_archive ord zero s = Inr (ens, fin) \<and> length ens \<le> length (s_bytes s) div 512 \<and>
     (\<forall>en \<in> set (butlast ens). e_err en = None) \<and> (ens \<noteq> [] \<longrightarrow> e_err (last ens) \<noteq> None \<longrightarrow> fin = e_err (last ens))"
proof -
  obtain ens fin where t: "tar_entries ord zero (NewReader s) = (ens, fin)" by fastforce
  then have "512 * length ens \<le> remaining (NewReader s) \<and>
      (\<forall>en \<in> set (butlast ens). e_err en = None) \<and> (ens \<noteq> [] \<longrightarrow> e_err (last ens) \<noteq> None \<longrightarrow> fin = e_err (last ens))"
    by (induction rule: tar_entries_induct) (auto simp: mk_entry_def dest!: Next_less)
  then show ?thesis using t by (auto simp: tar_archive_def NewReader_def less_eq_div_iff_mult_less_eq mult.commute)
qed

theorem archive_ends_witness:
  "length (fst (projr (tar_archive id False \<lparr>s_bytes = replicate 1000 NUL, s_end = io_EOF, s_early = True\<rparr>))) \<le> 1"
  using archive_ends [of id False "\<lparr>s_bytes = replicate 1000 NUL, s_end = io_EOF, s_early = True\<rparr>"] by auto

end
