(* ===== verification/Huffman.thy ===== *)
theory Huffman
  imports Prelude "HOL-Library.Word"
begin

unbundle bit_operations_syntax

text \<open>
  The Huffman tables of \<open>compress/flate/inflate.go\<close>: \<open>huffmanDecoder.init\<close> with its table of 512 chunks
  and the overflow links, and the lookup of \<open>huffSym\<close>. The entries of the tables are \<open>uint32\<close> in the
  code and natural numbers here, for they stay far below the limit. \<open>None\<close> is a panic: an index out
  of range, or a slice of negative length.
\<close>

section \<open>The decoder\<close>

definition maxCodeLen :: nat where "maxCodeLen = 16"
definition huffmanChunkBits :: nat where "huffmanChunkBits = 9"
definition huffmanNumChunks :: nat where "huffmanNumChunks = 512"

record huffmanDecoder =
  h_min :: nat
  h_chunks :: "nat list"
  h_links :: "nat list list"
  h_linkMask :: nat

definition zero_decoder :: huffmanDecoder where
  "zero_decoder = \<lparr>h_min = 0, h_chunks = replicate huffmanNumChunks 0, h_links = [], h_linkMask = 0\<rparr>"

text \<open>\<open>bits.Reverse16\<close> and its siblings: the low \<open>n\<close> bits in reverse order.\<close>

fun rev_n :: "nat \<Rightarrow> nat \<Rightarrow> nat" where
  "rev_n 0 x = 0"
| "rev_n (Suc n) x = (x mod 2) * 2 ^ n + rev_n n (x div 2)"

text \<open>The first loop: the number of codes of each length, the shortest and the longest.\<close>

fun len_loop :: "nat list \<Rightarrow> nat list \<Rightarrow> nat \<Rightarrow> nat \<Rightarrow> (nat list \<times> nat \<times> nat) option" where
  "len_loop [] count mn mx = Some (count, mn, mx)"
| "len_loop (n # ns) count mn mx =
     (if n = 0 then len_loop ns count mn mx
      else if n \<ge> length count then None
      else len_loop ns (count[n := count ! n + 1]) (if mn = 0 \<or> n < mn then n else mn) (if n > mx then n else mx))"

fun code_loop :: "nat list \<Rightarrow> nat list \<Rightarrow> nat \<Rightarrow> nat list \<Rightarrow> nat \<times> nat list" where
  "code_loop count [] code nextcode = (code, nextcode)"
| "code_loop count (i # is) code nextcode =
     (let code' = push_bit 1 code in code_loop count is (code' + count ! i) (nextcode[i := code']))"

text \<open>The link tables, one for each of the last chunks.\<close>

fun link_loop :: "nat \<Rightarrow> nat \<Rightarrow> nat list \<Rightarrow> huffmanDecoder \<Rightarrow> huffmanDecoder" where
  "link_loop link numLinks [] h = h"
| "link_loop link numLinks (j # js) h =
     (let reverse = drop_bit (16 - huffmanChunkBits) (rev_n 16 j); off = j - link
      in link_loop link numLinks js
           (h\<lparr>h_chunks := (h_chunks h)[reverse := push_bit 4 off OR (huffmanChunkBits + 1)],
             h_links := (h_links h)[off := replicate numLinks 0]\<rparr>))"

definition make_links :: "nat \<Rightarrow> nat list \<Rightarrow> huffmanDecoder \<Rightarrow> huffmanDecoder option" where
  "make_links mx nextcode h =
     (if mx > huffmanChunkBits then
        (let numLinks = push_bit (mx - huffmanChunkBits) 1; link = drop_bit 1 (nextcode ! (huffmanChunkBits + 1)) in
         if link > huffmanNumChunks then None
         else Some (link_loop link numLinks [link..<huffmanNumChunks]
                (h\<lparr>h_linkMask := numLinks - 1, h_links := replicate (huffmanNumChunks - link) []\<rparr>)))
      else Some h)"

text \<open>\<open>for off := off; off < len(t); off += step { t[off] = v }\<close>, with a positive step.\<close>

function fill :: "nat \<Rightarrow> nat \<Rightarrow> nat \<Rightarrow> nat list \<Rightarrow> nat list" where
  "fill step off v t = (if off < length t \<and> step > 0 then fill step (off + step) v (t[off := v]) else t)"
  by pat_completeness auto
termination by (relation "measure (\<lambda>(_, off, _, t). length t - off)") auto

declare fill.simps [simp del]

text \<open>Entering the code of symbol \<open>i\<close> with length \<open>n\<close>.\<close>

definition add_code :: "nat \<Rightarrow> nat \<Rightarrow> nat \<Rightarrow> huffmanDecoder \<Rightarrow> huffmanDecoder option" where
  "add_code i n code h =
     (let chunk = push_bit 4 i OR n; reverse = drop_bit (16 - n) (rev_n 16 code) in
      if n \<le> huffmanChunkBits then Some (h\<lparr>h_chunks := fill (push_bit n 1) reverse chunk (h_chunks h)\<rparr>)
      else
        (let j = reverse AND (huffmanNumChunks - 1); v = drop_bit 4 (h_chunks h ! j) in
         if v \<ge> length (h_links h) then None
         else Some (h\<lparr>h_links := (h_links h)[v :=
                fill (push_bit (n - huffmanChunkBits) 1) (drop_bit huffmanChunkBits reverse) chunk (h_links h ! v)]\<rparr>)))"

fun add_codes :: "nat \<Rightarrow> nat list \<Rightarrow> nat list \<Rightarrow> huffmanDecoder \<Rightarrow> huffmanDecoder option" where
  "add_codes i [] nextcode h = Some h"
| "add_codes i (n # ns) nextcode h =
     (if n = 0 then add_codes (i + 1) ns nextcode h
      else
        (case add_code i n (nextcode ! n) h of
           None \<Rightarrow> None
         | Some h' \<Rightarrow> add_codes (i + 1) ns (nextcode[n := nextcode ! n + 1]) h'))"

definition huffman_init :: "huffmanDecoder \<Rightarrow> nat list \<Rightarrow> (bool \<times> huffmanDecoder) option" where
  "huffman_init h0 lengths =
     (let h = (if h_min h0 \<noteq> 0 then zero_decoder else h0) in
      case len_loop lengths (replicate maxCodeLen 0) 0 0 of
        None \<Rightarrow> None
      | Some (count, mn, mx) \<Rightarrow>
          if mx = 0 then Some (True, h)
          else
            (case code_loop count [mn..<mx + 1] 0 (replicate maxCodeLen 0) of
               (code, nextcode) \<Rightarrow>
                 if code \<noteq> push_bit mx 1 \<and> \<not> (code = 1 \<and> mx = 1) then Some (False, h)
                 else
                   (case make_links mx nextcode (h\<lparr>h_min := mn\<rparr>) of
                      None \<Rightarrow> None
                    | Some h1 \<Rightarrow> map_option (Pair True) (add_codes 0 lengths nextcode h1))))"

text \<open>The lookup of \<open>huffSym\<close> with the bits at hand, the first of them lowest.\<close>

definition huff_lookup :: "huffmanDecoder \<Rightarrow> nat \<Rightarrow> nat option" where
  "huff_lookup h b =
     (let chunk = h_chunks h ! (b AND (huffmanNumChunks - 1)) in
      if chunk AND 15 > huffmanChunkBits then
        (let v = drop_bit 4 chunk; k = drop_bit huffmanChunkBits b AND h_linkMask h in
         if v < length (h_links h) \<and> k < length (h_links h ! v) then Some (h_links h ! v ! k) else None)
      else Some chunk)"

section \<open>Reversed bits\<close>

lemma rev_less [simp]: "rev_n n x < 2 ^ n"
proof (induction n arbitrary: x)
  case (Suc n)
  have "rev_n n (x div 2) < 2 ^ n" by (rule Suc)
  moreover have "x mod 2 = 0 \<or> x mod 2 = 1" by auto
  ultimately show ?case by auto
qed simp

lemma rev_split: "rev_n (n + m) x = rev_n n x * 2 ^ m + rev_n m (x div 2 ^ n)"
  by (induction n arbitrary: x) (simp_all add: algebra_simps power_add div_mult2_eq)

lemma rev_mod [simp]: "rev_n n (x mod 2 ^ n) = rev_n n x"
proof (induction n arbitrary: x)
  case (Suc n)
  have "x mod (2 * 2 ^ n) = x mod 2 + 2 * (x div 2 mod 2 ^ n)" by (simp add: mod_mult2_eq)
  then have "x mod (2 * 2 ^ n) mod 2 = x mod 2" "x mod (2 * 2 ^ n) div 2 = x div 2 mod 2 ^ n" by auto
  then show ?case using Suc [of "x div 2"] by simp
qed simp

lemma rev_rev [simp]: "rev_n n (rev_n n x) = x mod 2 ^ n"
proof (induction n arbitrary: x)
  case (Suc n)
  let ?y = "rev_n (Suc n) x"
  have y: "?y mod 2 ^ n = rev_n n (x div 2)" "?y div 2 ^ n = x mod 2" using rev_less [of n "x div 2"] by simp_all
  have "rev_n (Suc n) ?y = rev_n n (?y mod 2 ^ n) * 2 + rev_n 1 (?y div 2 ^ n)" 
    using rev_split [of n 1 ?y] by (simp only: rev_mod) simp
  also have "\<dots> = 2 * (x div 2 mod 2 ^ n) + x mod 2" using Suc [of "x div 2"] by (simp add: y)
  finally show ?case by (simp add: mod_mult2_eq)
qed simp

lemma rev_top: "n \<le> m \<Longrightarrow> rev_n m x div 2 ^ (m - n) = rev_n n x"
  using rev_split [of n "m - n" x] rev_less [of "m - n" "x div 2 ^ n"] by simp

text \<open>A number has the code in its low bits, reversed, exactly if its reversed low bits are the code.\<close>

lemma rev_eq: "c < 2 ^ n \<Longrightarrow> x mod 2 ^ n = rev_n n c \<longleftrightarrow> rev_n n x = c"
  by (metis mod_less rev_mod rev_rev)

section \<open>The canonical code\<close>

text \<open>
  The code of RFC 1951: the codes of one length are consecutive numbers in the order of the
  symbols, and the first of them follows the last one of the shorter lengths.
\<close>

fun first :: "nat list \<Rightarrow> nat \<Rightarrow> nat" where
  "first ls 0 = 0"
| "first ls (Suc n) = 2 * (first ls n + (if n = 0 then 0 else count_list ls n))"

definition code_of :: "nat list \<Rightarrow> nat \<Rightarrow> nat" where
  "code_of ls i = first ls (ls ! i) + count_list (take i ls) (ls ! i)"

text \<open>Symbol \<open>i\<close> stands at the beginning of the bits.\<close>

definition matches :: "nat list \<Rightarrow> nat \<Rightarrow> nat \<Rightarrow> bool" where
  "matches ls b i \<longleftrightarrow> i < length ls \<and> ls ! i > 0 \<and> rev_n (ls ! i) b = code_of ls i"

lemma first_step: "1 \<le> n \<Longrightarrow> n < m \<Longrightarrow> (first ls n + count_list ls n) * 2 ^ (m - n) \<le> first ls m"
proof (induction m)
  case (Suc m)
  show ?case
  proof (cases "n = m")
    case True
    then show ?thesis using Suc.prems by simp
  next
    case False
    then have "(first ls n + count_list ls n) * 2 ^ (m - n) \<le> first ls m" using Suc by simp
    then show ?thesis using False Suc.prems by (simp add: Suc_diff_le)
  qed
qed simp

lemma count_take_less: "i < j \<Longrightarrow> j \<le> length xs \<Longrightarrow> count_list (take i xs) (xs ! i) < count_list (take j xs) (xs ! i)"
proof -
  assume a: "i < j" "j \<le> length xs"
  have "take j xs = take i xs @ xs ! i # drop (i + 1) (take j xs)"
    using a id_take_nth_drop [of i "take j xs"] by (simp add: min_def)
  then have "count_list (take j xs) (xs ! i) = count_list (take i xs @ xs ! i # drop (i + 1) (take j xs)) (xs ! i)" by simp
  then show ?thesis by simp
qed

lemma count_take_all: "i < length xs \<Longrightarrow> count_list (take i xs) (xs ! i) < count_list xs (xs ! i)"
  using count_take_less [of i "length xs" xs] by simp

lemma nth_occurrence: "k < count_list xs n \<Longrightarrow> \<exists>i < length xs. xs ! i = n \<and> count_list (take i xs) n = k"
proof (induction xs rule: rev_induct)
  case (snoc x xs)
  show ?case
  proof (cases "k < count_list xs n")
    case True
    with snoc.IH obtain i where "i < length xs" "xs ! i = n" "count_list (take i xs) n = k" by blast
    then show ?thesis by (intro exI [of _ i]) (simp add: nth_append)
  next
    case False
    then have "x = n" "count_list xs n = k" using snoc.prems by (auto split: if_splits)
    then show ?thesis by (intro exI [of _ "length xs"]) simp
  qed
qed simp

lemma rev_prefix: "n \<le> m \<Longrightarrow> rev_n n b = rev_n m b div 2 ^ (m - n)"
  by (simp add: rev_top)

lemma matches_less: "matches ls b i \<Longrightarrow> matches ls b j \<Longrightarrow> \<not> ls ! i < ls ! j"
proof
  assume m: "matches ls b i" "matches ls b j" and lt: "ls ! i < ls ! j"
  let ?n = "ls ! i" and ?m = "ls ! j"
  have i: "rev_n ?n b < first ls ?n + count_list ls ?n" using m(1) count_take_all [of i ls] by (simp add: matches_def code_of_def)
  have "(first ls ?n + count_list ls ?n) * 2 ^ (?m - ?n) \<le> rev_n ?m b"
    using first_step [of ?n ?m ls] m lt by (simp add: matches_def code_of_def)
  then have "first ls ?n + count_list ls ?n \<le> rev_n ?m b div 2 ^ (?m - ?n)" by (simp add: less_eq_div_iff_mult_less_eq)
  then show False using i rev_prefix [of ?n ?m b] lt by simp
qed

text \<open>No code is the beginning of another one.\<close>

lemma matches_unique: "matches ls b i \<Longrightarrow> matches ls b j \<Longrightarrow> i = j"
proof (rule ccontr)
  assume m: "matches ls b i" "matches ls b j" and ne: "i \<noteq> j"
  have eq: "ls ! i = ls ! j" using matches_less [OF m] matches_less [OF m(2,1)] by simp
  then have c: "count_list (take i ls) (ls ! i) = count_list (take j ls) (ls ! i)" using m by (simp add: matches_def code_of_def)
  show False
  proof (cases "i < j")
    case True
    then show False using count_take_less [of i j ls] m(2) c by (simp add: matches_def)
  next
    case False
    then show False using count_take_less [of j i ls] m(1) c ne eq by (simp add: matches_def)
  qed
qed

text \<open>Bits that are cut off count as zeros, and then no longer code is found than with all bits.\<close>

lemma rev_cut: "rev_n n (x mod 2 ^ k) \<le> rev_n n x"
proof (induction n arbitrary: x k)
  case (Suc n)
  show ?case
  proof (cases k)
    case 0
    have "rev_n m 0 = 0" for m by (induction m) auto
    then show ?thesis using 0 by simp
  next
    case (Suc k')
    have "x mod (2 * 2 ^ k') = x mod 2 + 2 * (x div 2 mod 2 ^ k')" by (simp add: mod_mult2_eq)
    then have "x mod 2 ^ k mod 2 = x mod 2" "x mod 2 ^ k div 2 = x div 2 mod 2 ^ k'" using Suc by auto
    then show ?thesis using Suc.IH [of "x div 2" k'] by simp
  qed
qed simp

lemma matches_cut: "matches ls (b mod 2 ^ k) i \<Longrightarrow> matches ls b j \<Longrightarrow> ls ! i \<le> ls ! j"
proof (rule ccontr)
  assume m: "matches ls (b mod 2 ^ k) i" "matches ls b j" and "\<not> ls ! i \<le> ls ! j"
  then have lt: "ls ! j < ls ! i" by simp
  let ?n = "ls ! i" and ?m = "ls ! j"
  have "rev_n ?m b < first ls ?m + count_list ls ?m" using m(2) count_take_all [of j ls] by (simp add: matches_def code_of_def)
  moreover have "(first ls ?m + count_list ls ?m) * 2 ^ (?n - ?m) \<le> rev_n ?n (b mod 2 ^ k)"
    using first_step [of ?m ?n ls] m lt by (simp add: matches_def code_of_def)
  then have "first ls ?m + count_list ls ?m \<le> rev_n ?n b div 2 ^ (?n - ?m)"
    using rev_cut [of ?n b k] by (simp add: less_eq_div_iff_mult_less_eq)
  ultimately show False using rev_prefix [of ?m ?n b] lt by simp
qed

text \<open>The code has room, or is complete, up to the length \<open>mx\<close>.\<close>

definition kraft :: "nat list \<Rightarrow> nat \<Rightarrow> nat" where
  "kraft ls mx = first ls mx + count_list ls mx"

lemma kraft_bound: "1 \<le> n \<Longrightarrow> n \<le> mx \<Longrightarrow> kraft ls mx \<le> 2 ^ mx \<Longrightarrow> first ls n + count_list ls n \<le> 2 ^ n"
proof (cases "n = mx")
  case False
  assume a: "1 \<le> n" "n \<le> mx" "kraft ls mx \<le> 2 ^ mx"
  then have "(first ls n + count_list ls n) * 2 ^ (mx - n) \<le> 2 ^ n * 2 ^ (mx - n)"
    using first_step [of n mx ls] False by (simp add: kraft_def power_add [symmetric])
  then show ?thesis by simp
qed (simp add: kraft_def)

lemma code_less: "i < length ls \<Longrightarrow> 0 < ls ! i \<Longrightarrow> ls ! i \<le> mx \<Longrightarrow> kraft ls mx \<le> 2 ^ mx \<Longrightarrow> code_of ls i < 2 ^ (ls ! i)"
  using kraft_bound [of "ls ! i" mx ls] count_take_all [of i ls] by (simp add: code_of_def)

lemma matches_exists:
  assumes "kraft ls mx = 2 ^ mx" "1 \<le> mx"
  shows "\<exists>i. matches ls b i"
proof -
  let ?P = "\<lambda>n. 1 \<le> n \<and> rev_n n b < first ls n + count_list ls n"
  have "?P mx" using assms by (simp add: kraft_def)
  define n where "n = (LEAST n. ?P n)"
  have n: "?P n" unfolding n_def by (rule LeastI) (fact \<open>?P mx\<close>)
  then obtain k where k: "n = Suc k" by (cases n) auto
  have "k < (LEAST n. ?P n)" using k by (simp add: n_def)
  from not_less_Least [OF this] have np: "\<not> ?P k" .
  have "first ls k + (if k = 0 then 0 else count_list ls k) \<le> rev_n k b"
    using np by (auto simp: not_less)
  moreover have "rev_n n b div 2 = rev_n k b" using rev_top [of k n b] k by simp
  ultimately have "first ls n \<le> rev_n n b" by (simp add: k)
  moreover from this have "rev_n n b - first ls n < count_list ls n" using n by linarith
  ultimately obtain i where "i < length ls" "ls ! i = n" "count_list (take i ls) n = rev_n n b - first ls n"
    using nth_occurrence [of "rev_n n b - first ls n" ls n] by auto
  then have "matches ls b i" using n \<open>first ls n \<le> rev_n n b\<close> by (simp add: matches_def code_of_def)
  then show ?thesis ..
qed

section \<open>What the loops compute\<close>

lemma count_list_snoc [simp]: "count_list (xs @ [x]) y = count_list xs y + (if x = y then 1 else 0)"
  by simp

text \<open>The lengths seen so far, with the counts and the extremes of those that are not zero.\<close>

definition tally :: "nat list \<Rightarrow> nat list \<Rightarrow> nat \<Rightarrow> nat \<Rightarrow> bool" where
  "tally ls count mn mx \<longleftrightarrow> length count = 16 \<and> (\<forall>n. 1 \<le> n \<and> n < 16 \<longrightarrow> count ! n = count_list ls n) \<and>
     (\<forall>n \<in> set ls. n \<le> mx) \<and> (\<forall>n \<in> set ls. n \<noteq> 0 \<longrightarrow> mn \<le> n \<and> mn \<noteq> 0) \<and> mn \<le> mx \<and> mx < 16 \<and>
     (mx \<noteq> 0 \<longrightarrow> mx \<in> set ls)"

lemma len_loop_tally:
  assumes "len_loop ns count mn mx = Some (count', mn', mx')" "tally ls count mn mx"
  shows "tally (ls @ ns) count' mn' mx'"
  using assms
proof (induction ns arbitrary: ls count mn mx)
  case (Cons n ns)
  show ?case
  proof (cases "n = 0")
    case True
    then have "tally (ls @ [n]) count mn mx" using Cons.prems(2) by (auto simp: tally_def)
    then show ?thesis using Cons.IH [of count mn mx "ls @ [n]"] Cons.prems(1) True by simp
  next
    case False
    let ?mn = "if mn = 0 \<or> n < mn then n else mn" and ?mx = "if n > mx then n else mx"
    have "n < length count" "len_loop ns (count[n := count ! n + 1]) ?mn ?mx = Some (count', mn', mx')"
      using Cons.prems(1) False by (auto split: if_splits)
    moreover have "tally (ls @ [n]) (count[n := count ! n + 1]) ?mn ?mx"
      using Cons.prems(2) False \<open>n < length count\<close> by (auto simp: tally_def nth_list_update)
    ultimately show ?thesis using Cons.IH [of "count[n := count ! n + 1]" ?mn ?mx "ls @ [n]"] by simp
  qed
qed simp

lemma len_loop_total: "\<forall>n \<in> set ns. n < length count \<Longrightarrow> \<exists>r. len_loop ns count mn mx = Some r"
  by (induction ns arbitrary: count mn mx) auto

lemma first_zero: "(\<forall>n \<in> set ls. n \<noteq> 0 \<longrightarrow> mn \<le> n) \<Longrightarrow> n \<le> mn \<Longrightarrow> first ls n = 0"
proof (induction n)
  case (Suc n)
  then have "count_list ls n = 0" if "n \<noteq> 0" using that by (auto simp: count_list_0_iff)
  then show ?case using Suc by simp
qed simp

lemma code_loop_append: "code_loop count (is @ [i]) c nc =
    (case code_loop count is c nc of (c', nc') \<Rightarrow> (2 * c' + count ! i, nc'[i := 2 * c']))"
  by (induction "is" arbitrary: c nc) (simp_all add: Let_def push_bit_eq_mult mult.commute)

lemma code_loop_first:
  assumes "\<forall>n. 1 \<le> n \<and> n < 16 \<longrightarrow> count ! n = count_list ls n" "1 \<le> mn" "\<forall>n \<in> set ls. n \<noteq> 0 \<longrightarrow> mn \<le> n" "mn \<le> m" "m \<le> 16"
  shows "\<exists>c. code_loop count [mn..<m] 0 (replicate 16 0) = (c, map (\<lambda>n. if n < m then first ls n else 0) [0..<16]) \<and> 2 * c = first ls m"
  using assms(4,5)
proof (induction m rule: dec_induct)
  case base
  have "map (\<lambda>n. if n < mn then first ls n else 0) [0..<16] = replicate 16 0"
    using first_zero [OF assms(3)] by (auto intro!: nth_equalityI simp: less_imp_le)
  then show ?case using first_zero [OF assms(3), of mn] by simp
next
  case (step m)
  then obtain c where c: "code_loop count [mn..<m] 0 (replicate 16 0) = (c, map (\<lambda>n. if n < m then first ls n else 0) [0..<16])"
    "2 * c = first ls m" by auto
  have "count ! m = count_list ls m" "m \<noteq> 0" using assms(1,2) step by auto
  moreover have "(map (\<lambda>n. if n < m then first ls n else 0) [0..<16])[m := first ls m] = map (\<lambda>n. if n < Suc m then first ls n else 0) [0..<16]"
    by (rule nth_equalityI) (auto simp: nth_list_update less_Suc_eq)
  ultimately show ?case using c step(1) by (simp add: code_loop_append)
qed

lemma code_loop_kraft:
  assumes "tally ls count mn mx" "1 \<le> mn"
  shows "code_loop count [mn..<mx + 1] 0 (replicate 16 0) = (kraft ls mx, map (\<lambda>n. if n < mx + 1 then first ls n else 0) [0..<16])"
proof -
  obtain c where c: "code_loop count [mn..<mx + 1] 0 (replicate 16 0) = (c, map (\<lambda>n. if n < mx + 1 then first ls n else 0) [0..<16])"
    "2 * c = first ls (mx + 1)"
    using code_loop_first [of count ls mn "mx + 1"] assms by (auto simp: tally_def)
  then have "c = kraft ls mx" using assms by (auto simp: kraft_def tally_def split: if_splits)
  then show ?thesis using c(1) by simp
qed

section \<open>What the tables hold\<close>

lemma fill_nth:
  assumes "0 < step"
  shows "length (fill step off v t) = length t \<and>
    (\<forall>k < length t. fill step off v t ! k = (if off \<le> k \<and> step dvd (k - off) then v else t ! k))"
  using assms
proof (induction step off v t rule: fill.induct)
  case (1 step off v t)
  show ?case
  proof (cases "off < length t")
    case True
    have d: "off + step \<le> k \<and> step dvd (k - (off + step)) \<longleftrightarrow> off < k \<and> step dvd (k - off)" for k
    proof
      assume a: "off < k \<and> step dvd (k - off)"
      then have "step \<le> k - off" by (intro dvd_imp_le) auto
      then show "off + step \<le> k \<and> step dvd (k - (off + step))" using a dvd_diff_nat [of step "k - off" step] by auto
    next
      assume "off + step \<le> k \<and> step dvd (k - (off + step))"
      then show "off < k \<and> step dvd (k - off)" using "1.prems" dvd_add [of step "k - (off + step)" step] by (simp add: add.commute)
    qed
    have "fill step off v t = fill step (off + step) v (t[off := v])" using True "1.prems" by (subst fill.simps) simp
    moreover have "fill step (off + step) v (t[off := v]) ! k = (if off \<le> k \<and> step dvd (k - off) then v else t ! k)" if "k < length t" for k
      using "1.IH" True "1.prems" that d [of k] by (cases "k = off") auto
    ultimately show ?thesis using "1.IH" True "1.prems" by simp
  qed (auto simp: fill.simps)
qed

lemma fill_mod:
  assumes "off < step" "k < length t"
  shows "fill step off v t ! k = (if k mod step = off then v else t ! k)"
proof -
  have "off \<le> k \<and> step dvd (k - off) \<longleftrightarrow> k mod step = off"
  proof
    assume "off \<le> k \<and> step dvd (k - off)"
    then show "k mod step = off" using assms(1) by (metis dvd_def le_add_diff_inverse mod_less mod_mult_self2)
  qed (use mod_less_eq_dividend [of k step] in \<open>auto simp: minus_mod_eq_mult_div\<close>)
  then show ?thesis using fill_nth [of step off v t] assms by auto
qed

lemma length_fill: "0 < step \<Longrightarrow> length (fill step off v t) = length t"
  using fill_nth by simp

lemma chunk_value: "n < 16 \<Longrightarrow> push_bit 4 i OR n = 16 * i + n" for i n :: nat
proof -
  assume "n < 16"
  then have "take_bit 4 n = n" by (simp add: take_bit_nat_eq_self_iff)
  then have "\<not> bit n k" if "4 \<le> k" for k using that by (metis bit_take_bit_iff not_less)
  then have "push_bit 4 i + n = push_bit 4 i OR n" by (intro disjunctive_add) (auto simp: bit_push_bit_iff not_le)
  then show ?thesis by (simp add: push_bit_eq_mult)
qed

lemma push_one: "push_bit n (1 :: nat) = 2 ^ n"
  by (simp add: push_bit_eq_mult)

lemma chunk_parts: "n < 16 \<Longrightarrow> drop_bit 4 (16 * i + n) = i" "(16 * i + n) AND 15 = n mod 16" for i n :: nat
  using take_bit_eq_mask [of 4 "16 * i + n"] by (simp_all add: drop_bit_eq_div take_bit_eq_mod mask_eq_exp_minus_1)

text \<open>The symbols below \<open>k\<close> with a short or a long code that stand at the beginning of the bits.\<close>

definition short :: "nat list \<Rightarrow> nat \<Rightarrow> nat \<Rightarrow> nat option" where
  "short ls b k = find (\<lambda>i. matches ls b i \<and> ls ! i \<le> 9) [0..<k]"

definition long :: "nat list \<Rightarrow> nat \<Rightarrow> nat \<Rightarrow> nat option" where
  "long ls b k = find (\<lambda>i. matches ls b i \<and> \<not> ls ! i \<le> 9) [0..<k]"

lemma find_snoc: "find P (xs @ [x]) = (case find P xs of Some y \<Rightarrow> Some y | None \<Rightarrow> if P x then Some x else None)"
  by (induction xs) auto

lemma find_Some: "find P xs = Some x \<Longrightarrow> P x \<and> x \<in> set xs"
  by (induction xs) (auto split: if_splits)

lemma short_Suc: "short ls b (Suc k) = (if matches ls b k \<and> ls ! k \<le> 9 then Some k else short ls b k)"
  unfolding short_def using matches_unique [of ls b k]
  by (auto simp: find_snoc split: option.split dest!: find_Some)

lemma long_Suc: "long ls b (Suc k) = (if matches ls b k \<and> \<not> ls ! k \<le> 9 then Some k else long ls b k)"
  unfolding long_def using matches_unique [of ls b k]
  by (auto simp: find_snoc split: option.split dest!: find_Some)

definition chunk_of :: "nat list \<Rightarrow> nat \<Rightarrow> nat" where
  "chunk_of ls i = 16 * i + ls ! i"

text \<open>The number of the link table that belongs to the bits.\<close>

definition linked :: "nat list \<Rightarrow> nat \<Rightarrow> nat \<Rightarrow> bool" where
  "linked ls mx b \<longleftrightarrow> mx > 9 \<and> kraft ls 9 \<le> rev_n 9 b"

definition chunks_ok :: "nat list \<Rightarrow> nat \<Rightarrow> nat \<Rightarrow> nat list \<Rightarrow> bool" where
  "chunks_ok ls mx k cs \<longleftrightarrow> length cs = 512 \<and>
     (\<forall>b < 512. cs ! b = (case short ls b k of
        Some i \<Rightarrow> chunk_of ls i
      | None \<Rightarrow> if linked ls mx b then 16 * (rev_n 9 b - kraft ls 9) + 10 else 0))"

definition links_ok :: "nat list \<Rightarrow> nat \<Rightarrow> nat \<Rightarrow> nat list list \<Rightarrow> bool" where
  "links_ok ls mx k lt \<longleftrightarrow> length lt = 512 - kraft ls 9 \<and>
     (\<forall>v < 512 - kraft ls 9. length (lt ! v) = 2 ^ (mx - 9) \<and>
        (\<forall>off < 2 ^ (mx - 9). lt ! v ! off = (case long ls (rev_n 9 (kraft ls 9 + v) + 512 * off) k of Some i \<Rightarrow> chunk_of ls i | None \<Rightarrow> 0)))"

definition lens_ok :: "nat list \<Rightarrow> nat \<Rightarrow> bool" where
  "lens_ok ls mx \<longleftrightarrow> (\<forall>n \<in> set ls. n \<le> mx) \<and> 1 \<le> mx \<and> mx < 16 \<and> kraft ls mx \<le> 2 ^ mx"

lemma rev_16: "n \<le> 16 \<Longrightarrow> drop_bit (16 - n) (rev_n 16 c) = rev_n n c"
  by (simp add: drop_bit_eq_div rev_top)

lemma matches_mod: "ls ! i \<le> n \<Longrightarrow> matches ls (b mod 2 ^ n) i \<longleftrightarrow> matches ls b i"
proof -
  assume "ls ! i \<le> n"
  then have "b mod 2 ^ n mod 2 ^ (ls ! i) = b mod 2 ^ (ls ! i)" by (simp add: mod_mod_cancel le_imp_power_dvd)
  then have "rev_n (ls ! i) (b mod 2 ^ n) = rev_n (ls ! i) b" by (metis rev_mod)
  then show ?thesis by (simp add: matches_def)
qed

lemma nth_lens: "lens_ok ls mx \<Longrightarrow> k < length ls \<Longrightarrow> ls ! k \<le> mx \<and> ls ! k < 16"
  unfolding lens_ok_def using nth_mem [of k ls] by fastforce

lemma code_less': "lens_ok ls mx \<Longrightarrow> k < length ls \<Longrightarrow> 0 < ls ! k \<Longrightarrow> code_of ls k < 2 ^ (ls ! k)"
  using code_less [of k ls mx] nth_lens [of ls mx k] by (simp add: lens_ok_def)

lemma low_bits: "lens_ok ls mx \<Longrightarrow> k < length ls \<Longrightarrow> 0 < ls ! k \<Longrightarrow>
    b mod 2 ^ (ls ! k) = rev_n (ls ! k) (code_of ls k) \<longleftrightarrow> matches ls b k"
  using rev_eq [OF code_less', of ls mx k b] by (simp add: matches_def)

lemma add_short:
  assumes "lens_ok ls mx" "chunks_ok ls mx k (h_chunks h)" "k < length ls" "0 < ls ! k" "ls ! k \<le> 9"
  shows "\<exists>cs. add_code k (ls ! k) (code_of ls k) h = Some (h\<lparr>h_chunks := cs\<rparr>) \<and> chunks_ok ls mx (Suc k) cs"
proof -
  let ?n = "ls ! k"
  let ?cs = "fill (2 ^ ?n) (rev_n ?n (code_of ls k)) (chunk_of ls k) (h_chunks h)"
  have "add_code k ?n (code_of ls k) h = Some (h\<lparr>h_chunks := ?cs\<rparr>)"
    using assms(5) by (simp add: add_code_def Let_def huffmanChunkBits_def rev_16 chunk_value push_one chunk_of_def)
  moreover have "chunks_ok ls mx (Suc k) ?cs"
    using assms(2,5) low_bits [OF assms(1,3,4)]
    by (auto simp: chunks_ok_def length_fill fill_mod short_Suc)
  ultimately show ?thesis by blast
qed

lemma kraft_Suc: "n \<noteq> 0 \<Longrightarrow> first ls (Suc n) = 2 * kraft ls n"
  by (simp add: kraft_def)

lemma long_linked:
  assumes "matches ls b k" "9 < ls ! k" "lens_ok ls mx"
  shows "linked ls mx b"
proof -
  have "kraft ls 9 * 2 ^ (ls ! k - 9) \<le> code_of ls k" using first_step [of 9 "ls ! k" ls] assms(2) by (simp add: kraft_def code_of_def)
  then have "kraft ls 9 \<le> rev_n (ls ! k) b div 2 ^ (ls ! k - 9)" using assms(1) by (simp add: matches_def less_eq_div_iff_mult_less_eq)
  moreover have "9 < mx" using assms nth_lens [of ls mx k] by (simp add: matches_def)
  ultimately show ?thesis using assms(2) rev_prefix [of 9 "ls ! k" b] by (simp add: linked_def)
qed

lemma short_not_linked:
  assumes "matches ls b i" "ls ! i \<le> 9"
  shows "\<not> linked ls mx b"
proof -
  let ?n = "ls ! i"
  have "rev_n ?n b < kraft ls ?n" using assms(1) count_take_all [of i ls] by (simp add: matches_def code_of_def kraft_def)
  moreover have "kraft ls ?n * 2 ^ (9 - ?n) \<le> kraft ls 9"
    using first_step [of ?n 9 ls] assms by (cases "?n = 9") (auto simp: kraft_def matches_def)
  moreover have "rev_n 9 b div 2 ^ (9 - ?n) = rev_n ?n b" using rev_top assms(2) by simp
  ultimately have "rev_n 9 b < kraft ls 9"
    using div_less_iff_less_mult [of "2 ^ (9 - ?n)" "rev_n 9 b" "kraft ls ?n"] by simp
  then show ?thesis by (simp add: linked_def)
qed

lemma kraft_9: "lens_ok ls mx \<Longrightarrow> 9 < mx \<Longrightarrow> kraft ls 9 \<le> 512"
  using kraft_bound [of 9 mx ls] by (simp add: lens_ok_def kraft_def)

lemma and_511: "x AND 511 = x mod 512" for x :: nat
  using take_bit_eq_mask [of 9 x] by (simp add: take_bit_eq_mod mask_eq_exp_minus_1)

lemma drop_9: "drop_bit 9 x = x div 512" for x :: nat
  by (simp add: drop_bit_eq_div)

lemma top_nine: "9 < n \<Longrightarrow> c < 2 ^ n \<Longrightarrow> c div 2 ^ (n - 9) < 2 ^ 9" for c :: nat
  using div_less_iff_less_mult [of "2 ^ (n - 9)" c "2 ^ 9"] power_add [of "2 :: nat" 9 "n - 9"] by simp

text \<open>The bits of a long code: nine for the chunk, the others for the link table.\<close>

lemma long_bits:
  assumes "9 < n" "c < 2 ^ n"
  shows "rev_n n (rev_n 9 (c div 2 ^ (n - 9)) + 512 * off) = c \<longleftrightarrow> off mod 2 ^ (n - 9) = rev_n n c div 512"
proof -
  let ?x = "rev_n 9 (c div 2 ^ (n - 9)) + 512 * off"
  have n: "n = 9 + (n - 9)" using assms(1) by simp
  have r: "rev_n n c = rev_n (n - 9) (c mod 2 ^ (n - 9)) * 512 + rev_n 9 (c div 2 ^ (n - 9))"
    using rev_split [of "n - 9" 9 c] assms(1) by simp
  then have d: "rev_n n c div 512 = rev_n (n - 9) (c mod 2 ^ (n - 9))" using rev_less [of 9 "c div 2 ^ (n - 9)"] by simp
  note c9 = top_nine [OF assms]
  have "rev_n n ?x = rev_n 9 ?x * 2 ^ (n - 9) + rev_n (n - 9) (?x div 512)" using rev_split [of 9 "n - 9" ?x] n by simp
  also have "?x div 512 = off" using rev_less [of 9 "c div 2 ^ (n - 9)"] by simp
  also have "rev_n 9 ?x = c div 2 ^ (n - 9)" using c9 rev_mod [of 9 ?x] rev_less [of 9 "c div 2 ^ (n - 9)"] by simp
  finally have "rev_n n ?x = c \<longleftrightarrow> rev_n (n - 9) off = c mod 2 ^ (n - 9)"
    by (metis add_left_cancel div_mult_mod_eq)
  also have "\<dots> \<longleftrightarrow> off mod 2 ^ (n - 9) = rev_n (n - 9) (c mod 2 ^ (n - 9))" using rev_eq [of "c mod 2 ^ (n - 9)" "n - 9" off] by simp
  finally show ?thesis using d by simp
qed

lemma add_long:
  assumes "lens_ok ls mx" "chunks_ok ls mx k (h_chunks h)" "links_ok ls mx k (h_links h)" "k < length ls" "9 < ls ! k"
  shows "\<exists>lt. add_code k (ls ! k) (code_of ls k) h = Some (h\<lparr>h_links := lt\<rparr>) \<and> links_ok ls mx (Suc k) lt"
proof -
  let ?n = "ls ! k" and ?c = "code_of ls k"
  define j where "j = rev_n ?n ?c mod 512"
  have c: "?c < 2 ^ ?n" using code_less' [OF assms(1,4)] assms(5) by simp
  have n16: "?n \<le> 16" "?n < 16" using nth_lens [OF assms(1,4)] by simp_all
  have mj: "matches ls (rev_n ?n ?c) k" using rev_rev [of ?n ?c] c assms(4,5) by (simp add: matches_def)
  have j: "j = rev_n 9 (?c div 2 ^ (?n - 9))"
    using rev_split [of "?n - 9" 9 ?c] assms(5) rev_less [of 9 "?c div 2 ^ (?n - 9)"] by (simp add: j_def)
  note c9 = top_nine [OF assms(5) c]
  then have rj: "rev_n 9 j = ?c div 2 ^ (?n - 9)" by (simp add: j)
  have lk: "linked ls mx (rev_n ?n ?c)" using long_linked [OF mj assms(5,1)] .
  have "rev_n 9 (rev_n ?n ?c) = rev_n 9 j" using rev_mod [of 9 "rev_n ?n ?c"] by (simp add: j_def)
  then have lj: "linked ls mx j" using lk by (simp add: linked_def)
  define v where "v = ?c div 2 ^ (?n - 9) - kraft ls 9"
  have v: "v < 512 - kraft ls 9" "rev_n 9 (kraft ls 9 + v) = j"
    using lj c9 rj by (auto simp: linked_def v_def j)
  have "short ls j k = None"
    using short_not_linked lj by (auto simp: short_def find_None_iff)
  then have "h_chunks h ! j = 16 * v + 10" using assms(2) lj by (simp add: chunks_ok_def j_def v_def rj [unfolded j_def])
  then have vj: "drop_bit 4 (h_chunks h ! (rev_n ?n ?c AND (huffmanNumChunks - 1))) = v"
    using chunk_parts(1) [of 10 v] by (simp add: huffmanNumChunks_def and_511 j_def)
  let ?t = "fill (2 ^ (?n - 9)) (rev_n ?n ?c div 512) (chunk_of ls k) (h_links h ! v)"
  have len: "length (h_links h) = 512 - kraft ls 9" using assms(3) by (simp add: links_ok_def)
  have a: "add_code k ?n ?c h = Some (h\<lparr>h_links := (h_links h)[v := ?t]\<rparr>)"
    using assms(5) n16 vj v(1) len
    by (simp add: add_code_def Let_def huffmanChunkBits_def rev_16 chunk_value push_one chunk_of_def drop_9)
  have "(2 :: nat) ^ ?n = 512 * 2 ^ (?n - 9)" using power_add [of "2 :: nat" 9 "?n - 9"] assms(5) by simp
  then have "rev_n ?n ?c < 512 * 2 ^ (?n - 9)" using rev_less [of ?n ?c] by metis
  then have st: "rev_n ?n ?c div 512 < 2 ^ (?n - 9)" by (simp add: div_less_iff_less_mult mult.commute)
  have same: "off mod 2 ^ (?n - 9) = rev_n ?n ?c div 512 \<longleftrightarrow> matches ls (j + 512 * off) k" for off
    using long_bits [OF assms(5) c, of off] assms(4,5) by (auto simp: matches_def j)
  have other: "w = v" if "matches ls (rev_n 9 (kraft ls 9 + w) + 512 * off) k" "w < 512 - kraft ls 9" for w off
  proof -
    let ?b = "rev_n 9 (kraft ls 9 + w) + 512 * off"
    have "rev_n 9 ?b = kraft ls 9 + w" using rev_mod [of 9 ?b] rev_less [of 9 "kraft ls 9 + w"] that(2) by simp
    moreover have "rev_n 9 ?b = ?c div 2 ^ (?n - 9)" using rev_prefix [of 9 ?n ?b] that(1) assms(5) by (simp add: matches_def)
    ultimately show ?thesis by (simp add: v_def)
  qed
  have "links_ok ls mx (Suc k) ((h_links h)[v := ?t])"
    using assms(3,5) v st same other
    by (auto simp: links_ok_def nth_list_update length_fill fill_mod long_Suc)
  with a show ?thesis by blast
qed

text \<open>All codes, in the order of the symbols.\<close>

definition tables_ok :: "nat list \<Rightarrow> nat \<Rightarrow> nat \<Rightarrow> huffmanDecoder \<Rightarrow> bool" where
  "tables_ok ls mx k h \<longleftrightarrow> chunks_ok ls mx k (h_chunks h) \<and>
     (mx > 9 \<longrightarrow> links_ok ls mx k (h_links h) \<and> h_linkMask h = 2 ^ (mx - 9) - 1)"

lemma tables_skip: "ls ! k = 0 \<Longrightarrow> tables_ok ls mx k h \<Longrightarrow> tables_ok ls mx (Suc k) h"
  by (auto simp: tables_ok_def chunks_ok_def links_ok_def short_Suc long_Suc matches_def)

lemma tables_add:
  assumes "lens_ok ls mx" "tables_ok ls mx k h" "k < length ls" "0 < ls ! k"
  shows "\<exists>h'. add_code k (ls ! k) (code_of ls k) h = Some h' \<and> tables_ok ls mx (Suc k) h' \<and> h_min h' = h_min h"
proof (cases "ls ! k \<le> 9")
  case True
  then obtain cs where "add_code k (ls ! k) (code_of ls k) h = Some (h\<lparr>h_chunks := cs\<rparr>)" "chunks_ok ls mx (Suc k) cs"
    using add_short [OF assms(1) _ assms(3,4), of h] assms(2) by (auto simp: tables_ok_def)
  then show ?thesis using assms(2) True by (auto simp: tables_ok_def links_ok_def long_Suc)
next
  case False
  then have "9 < mx" using nth_lens [OF assms(1,3)] by simp
  then obtain lt where "add_code k (ls ! k) (code_of ls k) h = Some (h\<lparr>h_links := lt\<rparr>)" "links_ok ls mx (Suc k) lt"
    using add_long [OF assms(1) _ _ assms(3), of h] assms(2) False by (auto simp: tables_ok_def)
  then show ?thesis using assms(2) False by (auto simp: tables_ok_def chunks_ok_def short_Suc)
qed

lemma add_codes_ok:
  assumes "lens_ok ls mx" "ls = pre @ ns" "tables_ok ls mx (length pre) h" "length nc = 16"
    "\<forall>n. 1 \<le> n \<and> n \<le> mx \<longrightarrow> nc ! n = first ls n + count_list pre n"
  shows "\<exists>h'. add_codes (length pre) ns nc h = Some h' \<and> tables_ok ls mx (length ls) h' \<and> h_min h' = h_min h"
  using assms(2-)
proof (induction ns arbitrary: pre nc h)
  case (Cons n ns)
  let ?k = "length pre"
  have k: "?k < length ls" "ls ! ?k = n" "take ?k ls = pre" using Cons.prems(1) by (simp_all add: nth_append)
  have nmx: "n \<le> mx" "mx < 16" using nth_lens [OF assms(1) k(1)] k(2) assms(1) by (simp_all add: lens_ok_def)
  show ?case
  proof (cases "n = 0")
    case True
    then have "tables_ok ls mx (length (pre @ [n])) h" using tables_skip [of ls ?k mx h] k Cons.prems(2) by simp
    moreover have "\<forall>m. 1 \<le> m \<and> m \<le> mx \<longrightarrow> nc ! m = first ls m + count_list (pre @ [n]) m" using Cons.prems(4) True by simp
    ultimately show ?thesis using Cons.IH [of "pre @ [n]" h nc] Cons.prems(1,3) True by simp
  next
    case False
    have "nc ! n = code_of ls ?k" using Cons.prems(4) nmx k False by (simp add: code_of_def)
    moreover obtain h1 where h1: "add_code ?k n (code_of ls ?k) h = Some h1" "tables_ok ls mx (Suc ?k) h1" "h_min h1 = h_min h"
      using tables_add [OF assms(1) Cons.prems(2) k(1)] False k(2) by auto
    moreover have "\<forall>m. 1 \<le> m \<and> m \<le> mx \<longrightarrow> nc[n := nc ! n + 1] ! m = first ls m + count_list (pre @ [n]) m"
      using Cons.prems(3,4) nmx by (auto simp: nth_list_update)
    ultimately show ?thesis using Cons.IH [of "pre @ [n]" h1 "nc[n := nc ! n + 1]"] Cons.prems(1,3) False by simp
  qed
qed simp

text \<open>The link tables before the first code.\<close>

lemma link_loop_chunks:
  assumes "length (h_chunks h) = 512" "\<forall>j \<in> set js. j < 512" "b < 512"
  shows "h_chunks (link_loop link n js h) ! b = (if rev_n 9 b \<in> set js then 16 * (rev_n 9 b - link) + 10 else h_chunks h ! b)"
  using assms(1,2)
proof (induction js arbitrary: h)
  case (Cons j js)
  have "rev_n 9 j = b \<longleftrightarrow> rev_n 9 b = j" using rev_eq [of j 9 b] Cons.prems(2) assms(3) by (auto simp: rev_eq)
  moreover have "drop_bit 7 (rev_n 16 j) = rev_n 9 j" using rev_16 [of 9 j] by simp
  ultimately show ?case using Cons rev_less [of 9 j] by (auto simp: Let_def huffmanChunkBits_def chunk_value nth_list_update)
qed simp

lemma link_loop_links:
  assumes "v < length (h_links h)" "\<forall>j \<in> set js. link \<le> j"
  shows "h_links (link_loop link n js h) ! v = (if link + v \<in> set js then replicate n 0 else h_links h ! v)"
  using assms
proof (induction js arbitrary: h)
  case (Cons j js)
  then show ?case by (auto simp: Let_def nth_list_update)
qed simp

lemma link_loop_rest:
  "length (h_chunks (link_loop link n js h)) = length (h_chunks h)" "length (h_links (link_loop link n js h)) = length (h_links h)"
  "h_linkMask (link_loop link n js h) = h_linkMask h" "h_min (link_loop link n js h) = h_min h"
  by (induction js arbitrary: h) (simp_all add: Let_def)

lemma make_links_ok:
  assumes "lens_ok ls mx" "h_chunks h = replicate 512 0" "length nc = 16" "\<forall>n. 1 \<le> n \<and> n \<le> mx \<longrightarrow> nc ! n = first ls n"
  shows "\<exists>h'. make_links mx nc h = Some h' \<and> tables_ok ls mx 0 h' \<and> h_min h' = h_min h"
proof (cases "9 < mx")
  case False
  then show ?thesis using assms(2) by (simp add: make_links_def huffmanChunkBits_def tables_ok_def chunks_ok_def short_def linked_def)
next
  case True
  have "nc ! 10 = 2 * kraft ls 9" using assms(4) True kraft_Suc [of 9 ls] by simp
  then have l: "drop_bit 1 (nc ! (huffmanChunkBits + 1)) = kraft ls 9" by (simp add: huffmanChunkBits_def drop_bit_eq_div)
  note k9 = kraft_9 [OF assms(1) True]
  let ?h = "h\<lparr>h_linkMask := 2 ^ (mx - 9) - 1, h_links := replicate (512 - kraft ls 9) []\<rparr>"
  let ?r = "link_loop (kraft ls 9) (2 ^ (mx - 9)) [kraft ls 9..<512] ?h"
  have "make_links mx nc h = Some ?r"
    using True k9 l by (simp add: make_links_def huffmanChunkBits_def [symmetric] Let_def huffmanNumChunks_def push_one)
  moreover have "chunks_ok ls mx 0 (h_chunks ?r)"
    using True assms(2) link_loop_chunks [of ?h "[kraft ls 9..<512]"]
    by (auto simp: chunks_ok_def link_loop_rest short_def linked_def rev_less [of 9, simplified])
  moreover have "links_ok ls mx 0 (h_links ?r)"
    using link_loop_links [of _ ?h "[kraft ls 9..<512]" "kraft ls 9"] by (auto simp: links_ok_def link_loop_rest long_def)
  ultimately show ?thesis by (auto simp: tables_ok_def link_loop_rest)
qed

section \<open>Decoding\<close>

lemma find_only:
  assumes "P i" "i \<in> set xs" "\<forall>j. P j \<longrightarrow> j = i"
  shows "find P xs = Some i"
proof -
  obtain y where y: "find P xs = Some y" using assms(1,2) by (cases "find P xs") (auto simp: find_None_iff)
  then show ?thesis using find_Some [OF y] assms(3) by simp
qed

lemma short_all: "matches ls b i \<Longrightarrow> ls ! i \<le> 9 \<Longrightarrow> short ls b (length ls) = Some i"
  unfolding short_def by (rule find_only) (use matches_unique [of ls b _ i] in \<open>auto simp: matches_def [of ls b i]\<close>)

lemma long_all: "matches ls b i \<Longrightarrow> \<not> ls ! i \<le> 9 \<Longrightarrow> long ls b (length ls) = Some i"
  unfolding long_def by (rule find_only) (use matches_unique [of ls b _ i] in \<open>auto simp: matches_def [of ls b i]\<close>)

text \<open>The bits that the tables see, split into nine and the rest.\<close>

lemma window: "9 \<le> mx \<Longrightarrow> b mod 512 + 512 * (b div 512 mod 2 ^ (mx - 9)) = b mod 2 ^ mx" for b :: nat
  using mod_mult2_eq [of b 512 "2 ^ (mx - 9)"] power_add [of "2 :: nat" 9 "mx - 9"] by simp

text \<open>The lookup in the chunks, for bits with and without a link.\<close>

lemma lookup_chunk:
  assumes "tables_ok ls mx (length ls) h" "lens_ok ls mx"
  shows "matches ls b i \<Longrightarrow> ls ! i \<le> 9 \<Longrightarrow> huff_lookup h b = Some (chunk_of ls i)"
    and "\<forall>i. \<not> (matches ls b i \<and> ls ! i \<le> 9) \<Longrightarrow> \<not> linked ls mx b \<Longrightarrow> huff_lookup h b = Some 0"
    and "linked ls mx b \<Longrightarrow> huff_lookup h b =
      Some (case long ls (b mod 2 ^ mx) (length ls) of Some i \<Rightarrow> chunk_of ls i | None \<Rightarrow> 0)"
proof -
  have cs: "h_chunks h ! (b mod 512) = (case short ls (b mod 512) (length ls) of Some i \<Rightarrow> chunk_of ls i
      | None \<Rightarrow> if linked ls mx (b mod 512) then 16 * (rev_n 9 (b mod 512) - kraft ls 9) + 10 else 0)"
    using assms(1) by (simp add: tables_ok_def chunks_ok_def)
  have small: "matches ls (b mod 512) i \<longleftrightarrow> matches ls b i" if "ls ! i \<le> 9" for i using matches_mod [of ls i 9 b] that by simp
  have r9: "rev_n 9 (b mod 512) = rev_n 9 b" using rev_mod [of 9 b] by simp
  then have lk: "linked ls mx (b mod 512) = linked ls mx b" by (simp add: linked_def)
  note def = huff_lookup_def Let_def huffmanNumChunks_def huffmanChunkBits_def and_511 chunk_of_def
  show "huff_lookup h b = Some (chunk_of ls i)" if "matches ls b i" "ls ! i \<le> 9"
    using that cs short_all [of ls "b mod 512" i] small chunk_parts(2) [of i "ls ! i"] by (simp add: def)
  show "huff_lookup h b = Some 0" if "\<forall>i. \<not> (matches ls b i \<and> ls ! i \<le> 9)" "\<not> linked ls mx b"
  proof -
    have "short ls (b mod 512) (length ls) = None" using that(1) small by (auto simp: short_def find_None_iff)
    then show ?thesis using cs that(2) lk by (simp add: def)
  qed
  show "huff_lookup h b = Some (case long ls (b mod 2 ^ mx) (length ls) of Some i \<Rightarrow> chunk_of ls i | None \<Rightarrow> 0)" if l: "linked ls mx b"
  proof -
    have mx: "9 < mx" "kraft ls 9 \<le> rev_n 9 b" using l by (simp_all add: linked_def)
    let ?v = "rev_n 9 b - kraft ls 9" and ?k = "b div 512 mod 2 ^ (mx - 9)"
    have "short ls (b mod 512) (length ls) = None" using short_not_linked lk l by (auto simp: short_def find_None_iff)
    then have c: "h_chunks h ! (b mod 512) = 16 * ?v + 10" using cs lk l r9 by simp
    have lo: "links_ok ls mx (length ls) (h_links h)" "h_linkMask h = 2 ^ (mx - 9) - 1" using assms(1) mx by (simp_all add: tables_ok_def)
    have v: "?v < 512 - kraft ls 9" using rev_less [of 9 b] mx(2) by simp
    have k: "drop_bit 9 b AND h_linkMask h = ?k"
      using take_bit_eq_mask [of "mx - 9" "b div 512"] by (simp add: lo(2) drop_9 take_bit_eq_mod mask_eq_exp_minus_1)
    have "rev_n 9 (kraft ls 9 + ?v) + 512 * ?k = b mod 2 ^ mx" using window [of mx b] mx rev_rev [of 9 b] by simp
    then have "h_links h ! ?v ! ?k = (case long ls (b mod 2 ^ mx) (length ls) of Some i \<Rightarrow> chunk_of ls i | None \<Rightarrow> 0)"
      using lo(1) v by (simp add: links_ok_def)
    moreover have "?v < length (h_links h)" "?k < length (h_links h ! ?v)" using lo(1) v by (simp_all add: links_ok_def)
    ultimately show ?thesis using c k chunk_parts(1) [of 10 ?v] chunk_parts(2) [of ?v 10] by (simp add: def)
  qed
qed

lemma lookup_tables:
  assumes "tables_ok ls mx (length ls) h" "lens_ok ls mx"
  shows "matches ls b i \<Longrightarrow> huff_lookup h b = Some (chunk_of ls i)" and "\<forall>i. \<not> matches ls b i \<Longrightarrow> huff_lookup h b = Some 0"
proof -
  note lk = lookup_chunk [OF assms]
  have mm: "matches ls (b mod 2 ^ mx) j \<longleftrightarrow> matches ls b j" for j
    using matches_mod [of ls j mx b] nth_lens [OF assms(2), of j] by (auto simp: matches_def)
  show "huff_lookup h b = Some (chunk_of ls i)" if "matches ls b i"
  proof (cases "ls ! i \<le> 9")
    case False
    then show ?thesis using lk(3) [of b] long_linked [OF that _ assms(2)] long_all [of ls "b mod 2 ^ mx" i] mm that by simp
  qed (use lk(1) that in simp)
  show "huff_lookup h b = Some 0" if "\<forall>i. \<not> matches ls b i"
    using lk(2,3) [of b] that mm by (cases "linked ls mx b") (auto simp: long_def find_None_iff split: option.split dest!: find_Some)
qed

text \<open>What \<open>init\<close> accepts: no code at all, a complete code, or a single code of one bit.\<close>

definition good_code :: "nat list \<Rightarrow> bool" where
  "good_code ls \<longleftrightarrow> (let mx = Max (insert 0 (set ls)) in mx = 0 \<or> kraft ls mx = 2 ^ mx \<or> (mx = 1 \<and> kraft ls 1 = 1))"

definition decodes :: "nat list \<Rightarrow> huffmanDecoder \<Rightarrow> bool" where
  "decodes ls h \<longleftrightarrow> (\<forall>b i. matches ls b i \<longrightarrow> huff_lookup h b = Some (chunk_of ls i)) \<and>
     (\<forall>b. (\<forall>i. \<not> matches ls b i) \<longrightarrow> huff_lookup h b = Some 0) \<and> (\<forall>n \<in> set ls. n \<noteq> 0 \<longrightarrow> 0 < h_min h \<and> h_min h \<le> n) \<and>
     ((\<forall>n \<in> set ls. n = 0) \<longrightarrow> h_min h = 0)"

lemma decodes_zero: "\<forall>n \<in> set ls. n = 0 \<Longrightarrow> decodes ls zero_decoder"
proof -
  assume a: "\<forall>n \<in> set ls. n = 0"
  then have "\<not> matches ls b i" for b i using nth_mem [of i ls] by (auto simp: matches_def)
  then show ?thesis using a by (simp add: decodes_def huff_lookup_def zero_decoder_def Let_def huffmanNumChunks_def and_511)
qed

lemma huffman_init_ok:
  assumes "\<forall>n \<in> set ls. n < 16" "h_min h0 \<noteq> 0 \<or> h0 = zero_decoder"
  shows "\<exists>h. huffman_init h0 ls = Some (good_code ls, h) \<and> (good_code ls \<longrightarrow> decodes ls h) \<and> (h_min h \<noteq> 0 \<or> h = zero_decoder)"
proof -
  have h0: "(if h_min h0 \<noteq> 0 then zero_decoder else h0) = zero_decoder" using assms(2) by auto
  obtain count mn mx where l: "len_loop ls (replicate maxCodeLen 0) 0 0 = Some (count, mn, mx)"
    using len_loop_total [of ls "replicate maxCodeLen 0" 0 0] assms(1) by (auto simp: maxCodeLen_def)
  have t: "tally ls count mn mx"
    using len_loop_tally [OF l, of "[]"] by (simp add: tally_def maxCodeLen_def)
  have mx: "Max (insert 0 (set ls)) = mx"
  proof (cases "mx = 0")
    case True
    then show ?thesis using t by (intro Max_eqI) (auto simp: tally_def)
  next
    case False
    then show ?thesis using t by (intro Max_eqI) (auto simp: tally_def)
  qed
  show ?thesis
  proof (cases "mx = 0")
    case True
    then have "\<forall>n \<in> set ls. n = 0" using t by (auto simp: tally_def)
    moreover have "huffman_init h0 ls = Some (True, zero_decoder)" using l True h0 by (simp add: huffman_init_def Let_def)
    moreover have "good_code ls" using mx True by (simp add: good_code_def)
    ultimately show ?thesis using decodes_zero by simp
  next
    case False
    then have mn: "1 \<le> mn" using t by (auto simp: tally_def Suc_le_eq)
    let ?nc = "map (\<lambda>n. if n < mx + 1 then first ls n else 0) [0..<16]"
    have cl: "code_loop count [mn..<mx + 1] 0 (replicate maxCodeLen 0) = (kraft ls mx, ?nc)"
      using code_loop_kraft [OF t mn] by (simp add: maxCodeLen_def)
    have g: "good_code ls \<longleftrightarrow> kraft ls mx = 2 ^ mx \<or> (kraft ls mx = 1 \<and> mx = 1)" using mx False by (auto simp: good_code_def Let_def)
    show ?thesis
    proof (cases "good_code ls")
      case no: False
      then have "huffman_init h0 ls = Some (False, zero_decoder)" using l cl h0 False g by (simp add: huffman_init_def Let_def push_one)
      then show ?thesis using no by simp
    next
      case yes: True
      then have lo: "lens_ok ls mx" using g t False by (auto simp: lens_ok_def tally_def)
      let ?h = "zero_decoder\<lparr>h_min := mn\<rparr>"
      have "h_chunks ?h = replicate 512 0" by (simp add: zero_decoder_def huffmanNumChunks_def)
      then obtain h1 where h1: "make_links mx ?nc ?h = Some h1" "tables_ok ls mx 0 h1" "h_min h1 = mn"
        using make_links_ok [OF lo, of ?h ?nc] lo by (auto simp: lens_ok_def)
      obtain h where h: "add_codes 0 ls ?nc h1 = Some h" "tables_ok ls mx (length ls) h" "h_min h = mn"
        using add_codes_ok [OF lo, of "[]" ls h1 ?nc] h1 lo by (auto simp: lens_ok_def)
      have "huffman_init h0 ls = Some (True, h)" using l cl h0 False g yes h1(1) h(1) by (auto simp: huffman_init_def Let_def push_one)
      moreover have "mx \<in> set ls" "mx \<noteq> 0" using t False by (simp_all add: tally_def)
      then have nz: "\<not> (\<forall>n \<in> set ls. n = 0)" by metis
      have dm: "\<forall>n \<in> set ls. n \<noteq> 0 \<longrightarrow> 0 < h_min h \<and> h_min h \<le> n" using h(3) t mn by (auto simp: tally_def)
      have "decodes ls h" unfolding decodes_def
        by (intro conjI allI impI) (use lookup_tables [OF h(2) lo] in simp, use lookup_tables [OF h(2) lo] in simp, use dm in simp, use dm in simp, use nz in simp)
      ultimately show ?thesis using yes h(3) mn by auto
    qed
  qed
qed

text \<open>
  C30. The Huffman tables of the inflater, for every list of code lengths below sixteen: building them
  never indexes out of range and accepts exactly the complete codes, the code with a single
  one-bit symbol and the empty code. Then the lookup with any bits, through the chunks or an
  overflow link, gives the number and the code length of the one symbol of RFC 1951 whose code
  stands at the beginning of the bits, and zero if there is none; in a complete code there
  always is one.
\<close>

theorem huffman_tables:
  assumes "\<forall>n \<in> set ls. n < 16" "h_min h0 \<noteq> 0 \<or> h0 = zero_decoder"
  shows "\<exists>h. huffman_init h0 ls = Some (good_code ls, h) \<and>
    (good_code ls \<longrightarrow> (\<forall>b. (\<forall>i. matches ls b i \<longrightarrow> huff_lookup h b = Some (16 * i + ls ! i) \<and> (\<forall>j. matches ls b j \<longrightarrow> j = i)) \<and>
       ((\<forall>i. \<not> matches ls b i) \<longrightarrow> huff_lookup h b = Some 0) \<and>
       (kraft ls (Max (set ls)) = 2 ^ Max (set ls) \<and> (\<exists>n \<in> set ls. n \<noteq> 0) \<longrightarrow> (\<exists>i. matches ls b i))))"
proof -
  obtain h where h: "huffman_init h0 ls = Some (good_code ls, h)" "good_code ls \<longrightarrow> decodes ls h" using huffman_init_ok [OF assms] by blast
  have "\<exists>i. matches ls b i" if "kraft ls (Max (set ls)) = 2 ^ Max (set ls)" "n \<in> set ls" "n \<noteq> 0" for b n
  proof (rule matches_exists [OF that(1)])
    have "n \<le> Max (set ls)" using that(2) by simp
    then show "1 \<le> Max (set ls)" using that(3) by simp
  qed
  moreover have "j = i" if "matches ls b i" "matches ls b j" for b i j using matches_unique that by blast
  ultimately show ?thesis using h by (auto simp: decodes_def chunk_of_def)
qed

theorem huffman_tables_witness:
  "\<exists>h. huffman_init zero_decoder [2, 1, 0, 2] = Some (True, h) \<and> huff_lookup h 6 = Some 17 \<and> huff_lookup h 1 = Some 2"
proof -
  let ?l = "[2, 1, 0, 2] :: nat list"
  have "good_code ?l" "matches ?l 6 1" "matches ?l 1 0" by code_simp+
  moreover have "(16 * 1 + ?l ! 1 :: nat) = 17" "(16 * 0 + ?l ! 0 :: nat) = 2" by simp_all
  ultimately show ?thesis using huffman_tables [of ?l zero_decoder] by auto
qed

end
