(* ===== verification/FlateDict.thy ===== *)
theory FlateDict
  imports Prelude
begin

text \<open>
  Model of \<open>compress/flate/dict_decoder.go\<close>: the sliding window of the inflater, a ring of bytes that
  is written, copied from and flushed. \<open>None\<close> is a panic, or a copy that never ends because its
  distance is zero. A window is compared with the list of all bytes that were ever written to it:
  every operation on the ring is the one on the list.
\<close>

section \<open>The window\<close>

record dictDecoder =
  hist :: bytes
  wrPos :: nat
  rdPos :: nat
  full :: bool

definition dict_init :: "dictDecoder \<Rightarrow> nat \<Rightarrow> bytes \<Rightarrow> dictDecoder" where
  "dict_init dd sz dict0 =
     (let h = (if length (hist dd) < sz then replicate sz (CHR 0x00) else hist dd);
          h = take sz h;
          dict = (if length dict0 > length h then drop (length dict0 - length h) dict0 else dict0);
          h' = dict @ drop (length dict) h
      in if length dict = length h' then \<lparr>hist = h', wrPos = 0, rdPos = 0, full = True\<rparr>
         else \<lparr>hist = h', wrPos = length dict, rdPos = length dict, full = False\<rparr>)"

definition histSize :: "dictDecoder \<Rightarrow> nat" where
  "histSize dd = (if full dd then length (hist dd) else wrPos dd)"

definition availRead :: "dictDecoder \<Rightarrow> nat" where
  "availRead dd = wrPos dd - rdPos dd"

definition availWrite :: "dictDecoder \<Rightarrow> nat" where
  "availWrite dd = length (hist dd) - wrPos dd"

text \<open>\<open>writeSlice\<close> and \<open>writeMark\<close>: the caller has put these bytes at the start of the slice.\<close>

definition writeMark :: "dictDecoder \<Rightarrow> bytes \<Rightarrow> dictDecoder" where
  "writeMark dd bs =
     dd\<lparr>hist := take (wrPos dd) (hist dd) @ bs @ drop (wrPos dd + length bs) (hist dd), wrPos := wrPos dd + length bs\<rparr>"

definition writeByte :: "dictDecoder \<Rightarrow> char \<Rightarrow> dictDecoder option" where
  "writeByte dd c =
     (if wrPos dd < length (hist dd) then Some (dd\<lparr>hist := (hist dd)[wrPos dd := c], wrPos := wrPos dd + 1\<rparr>) else None)"

text \<open>\<open>copy(h[d:e], h[s:t])\<close>, which reads all of its source before it writes.\<close>

definition copy_within :: "bytes \<Rightarrow> nat \<Rightarrow> nat \<Rightarrow> nat \<Rightarrow> nat \<Rightarrow> nat \<times> bytes" where
  "copy_within h d e s t =
     (let n = min (e - d) (t - s) in (n, take d h @ take n (drop s h) @ drop (d + n) h))"

text \<open>The loop that copies the section before the destination again and again.\<close>

function copy_loop :: "bytes \<Rightarrow> nat \<Rightarrow> nat \<Rightarrow> nat \<Rightarrow> (bytes \<times> nat) option" where
  "copy_loop h srcPos dstPos endPos =
     (if dstPos < endPos then
        (if srcPos < dstPos then
           (case copy_within h dstPos endPos srcPos dstPos of (n, h') \<Rightarrow> copy_loop h' srcPos (dstPos + n) endPos)
         else None)
      else Some (h, dstPos))"
  by pat_completeness auto
termination
  by (relation "measure (\<lambda>(h, s, d, e). e - d)") (auto simp: copy_within_def Let_def)

declare copy_loop.simps [simp del]

definition writeCopy :: "dictDecoder \<Rightarrow> nat \<Rightarrow> nat \<Rightarrow> (nat \<times> dictDecoder) option" where
  "writeCopy dd dist len =
     (let dstBase = wrPos dd; endPos = min (dstBase + len) (length (hist dd)) in
      case (if dstBase < dist
            then (if endPos < dstBase \<or> dstBase + length (hist dd) < dist then None
                  else (case copy_within (hist dd) dstBase endPos (dstBase + length (hist dd) - dist) (length (hist dd)) of
                          (n, h) \<Rightarrow> copy_loop h 0 (dstBase + n) endPos))
            else copy_loop (hist dd) (dstBase - dist) dstBase endPos) of
        None \<Rightarrow> None
      | Some (h, dstPos) \<Rightarrow> Some (dstPos - dstBase, dd\<lparr>hist := h, wrPos := dstPos\<rparr>))"

definition tryWriteCopy :: "dictDecoder \<Rightarrow> nat \<Rightarrow> nat \<Rightarrow> (nat \<times> dictDecoder) option" where
  "tryWriteCopy dd dist len =
     (let dstPos = wrPos dd; endPos = dstPos + len in
      if dstPos < dist \<or> endPos > length (hist dd) then Some (0, dd)
      else
        (case copy_loop (hist dd) (dstPos - dist) dstPos endPos of
           None \<Rightarrow> None
         | Some (h, dstPos') \<Rightarrow> Some (dstPos' - dstPos, dd\<lparr>hist := h, wrPos := dstPos'\<rparr>)))"

definition readFlush :: "dictDecoder \<Rightarrow> bytes \<times> dictDecoder" where
  "readFlush dd =
     (let toRead = drop (rdPos dd) (take (wrPos dd) (hist dd)) in
      if wrPos dd = length (hist dd) then (toRead, dd\<lparr>wrPos := 0, rdPos := 0, full := True\<rparr>)
      else (toRead, dd\<lparr>rdPos := wrPos dd\<rparr>))"

section \<open>The bytes written so far\<close>

text \<open>A copy from \<open>d\<close> bytes back, byte by byte, as RFC 1951 has it.\<close>

fun lz_copy :: "nat \<Rightarrow> nat \<Rightarrow> bytes \<Rightarrow> bytes" where
  "lz_copy d 0 out = out"
| "lz_copy d (Suc n) out = lz_copy d n (out @ [out ! (length out - d)])"

text \<open>
  The ring of \<open>W\<close> bytes holds the last \<open>W\<close> bytes of \<open>out\<close>, each at its position modulo \<open>W\<close>; the first
  \<open>m\<close> bytes of \<open>out\<close> are flushed.
\<close>

definition window :: "nat \<Rightarrow> dictDecoder \<Rightarrow> bytes \<Rightarrow> nat \<Rightarrow> bool" where
  "window W dd out m \<longleftrightarrow>
     0 < W \<and> length (hist dd) = W \<and> rdPos dd \<le> wrPos dd \<and> wrPos dd \<le> W \<and>
     (\<exists>q. length out = q * W + wrPos dd \<and> m = q * W + rdPos dd \<and> (full dd \<longleftrightarrow> q > 0)) \<and>
     (\<forall>j < length out. length out \<le> j + W \<longrightarrow> hist dd ! (j mod W) = out ! j)"

lemma lz_copy_eq:
  assumes "0 < d" "d \<le> length out"
  shows "lz_copy d n out = out @ map (\<lambda>k. out ! (length out - d + k mod d)) [0..<n]"
  using assms(2)
proof (induction n arbitrary: out)
  case (Suc n)
  let ?o = "out @ [out ! (length out - d)]"
  have e: "?o ! (length ?o - d + k mod d) = out ! (length out - d + Suc k mod d)" for k
  proof -
    have "Suc k mod d = (if Suc (k mod d) = d then 0 else Suc (k mod d))" by (simp add: mod_Suc)
    moreover have "k mod d < d" using assms(1) by simp
    ultimately show ?thesis using Suc.prems by (auto simp: nth_append)
  qed
  have "lz_copy d (Suc n) out = ?o @ map (\<lambda>k. ?o ! (length ?o - d + k mod d)) [0..<n]" using Suc.IH [of ?o] Suc.prems by simp
  also have "\<dots> = out @ map (\<lambda>k. out ! (length out - d + k mod d)) [0..<Suc n]"
    by (subst upt_conv_Cons) (simp_all only: e, simp_all add: map_Suc_upt [symmetric] del: upt_Suc map_Suc_upt)
  finally show ?case .
qed simp

lemma length_lz_copy [simp]: "length (lz_copy d n out) = length out + n"
  by (induction n arbitrary: out) simp_all

text \<open>The loop fills the destination with the section before it, repeated.\<close>

lemma copy_within_nth:
  assumes "copy_within h d e s t = (n, h')" "d \<le> e" "e \<le> length h" "t \<le> length h"
  shows "n = min (e - d) (t - s)" "length h' = length h"
    "i < length h \<Longrightarrow> h' ! i = (if d \<le> i \<and> i < d + n then h ! (s + (i - d)) else h ! i)"
proof -
  from assms(1) have n: "n = min (e - d) (t - s)" and h': "h' = take d h @ take n (drop s h) @ drop (d + n) h"
    by (auto simp: copy_within_def Let_def)
  have l: "length (take n (drop s h)) = n" using n assms by auto
  show "n = min (e - d) (t - s)" by (rule n)
  show "length h' = length h" using h' l n assms by simp
  assume i: "i < length h"
  have "min (length h) d = d" "d + n \<le> length h" "s + n \<le> length h \<or> n = 0" using n assms by auto
  then show "h' ! i = (if d \<le> i \<and> i < d + n then h ! (s + (i - d)) else h ! i)"
    using i l unfolding h' by (auto simp: nth_append)
qed

lemma copy_loop_fill:
  assumes "s < d" "d \<le> e" "e \<le> length h" "0 < p" "p dvd d - s" "\<And>i. s \<le> i \<Longrightarrow> i < d \<Longrightarrow> h ! i = h ! (s + (i - s) mod p)"
  shows "\<exists>h'. copy_loop h s d e = Some (h', e) \<and> length h' = length h \<and>
    (\<forall>i < length h. h' ! i = (if d \<le> i \<and> i < e then h ! (s + (i - s) mod p) else h ! i))"
  using assms
proof (induction h s d e rule: copy_loop.induct)
  case (1 h s d e)
  show ?case
  proof (cases "d < e")
    case True
    obtain n h1 where c: "copy_within h d e s d = (n, h1)" by fastforce
    note w = copy_within_nth [OF c "1.prems"(2,3) order.trans [OF "1.prems"(2,3)]]
    have n: "0 < n" "n \<le> d - s" "d + n \<le> e" using w(1) True "1.prems"(1) by auto
    have m: "(i - (d - s) - s) mod p = (i - s) mod p" if "d \<le> i" for i
    proof -
      have "i - s = (i - (d - s) - s) + (d - s)" using that "1.prems"(1) by simp
      moreover obtain c where "d - s = p * c" using "1.prems"(5) by (rule dvdE)
      ultimately show ?thesis by simp
    qed
    have h1: "h1 ! i = (if d \<le> i \<and> i < d + n then h ! (s + (i - s) mod p) else h ! i)" if "i < length h" for i
    proof (cases "d \<le> i \<and> i < d + n")
      case i: True
      have "h ! (s + (i - d)) = h ! (s + (s + (i - d) - s) mod p)" by (rule "1.prems"(6)) (use i n(2) in auto)
      also have "s + (i - d) - s = i - (d - s) - s" using "1.prems"(1) by simp
      also have "(i - (d - s) - s) mod p = (i - s) mod p" by (rule m) (use i in simp)
      finally have "h ! (s + (i - d)) = h ! (s + (i - s) mod p)" .
      then show ?thesis using w(3) [OF that] i by simp
    next
      case False
      then show ?thesis unfolding w(3) [OF that] by auto
    qed
    have low: "s + (i - s) mod p < d" for i
    proof -
      have "p \<le> d - s" using "1.prems"(1,5) by (simp add: dvd_imp_le)
      moreover have "(i - s) mod p < p" using "1.prems"(4) by simp
      ultimately show ?thesis by simp
    qed
    have lh: "h1 ! (s + (i - s) mod p) = h ! (s + (i - s) mod p)" for i
    proof -
      have "s + (i - s) mod p < length h" "\<not> d \<le> s + (i - s) mod p" using low [of i] "1.prems"(2,3) by linarith+
      then show ?thesis using h1 by presburger
    qed
    have per: "h1 ! i = h1 ! (s + (i - s) mod p)" if "s \<le> i" "i < d + n" for i
    proof (cases "d \<le> i")
      case False
      then show ?thesis unfolding lh using h1 [of i] that n(3) "1.prems"(3) "1.prems"(6) [of i] by simp
    qed (use h1 [of i] that n(3) "1.prems"(3) in \<open>simp add: lh\<close>)
    have loop: "copy_loop h s d e = copy_loop h1 s (d + n) e" using True "1.prems"(1) c by (subst copy_loop.simps) simp
    show ?thesis
    proof (cases "d + n < e")
      case again: True
      then have "n = d - s" using w(1) by auto
      then have "p dvd d + n - s" using "1.prems"(1,5) by (metis Nat.add_diff_assoc2 dvd_add less_imp_le)
      then obtain h' where "copy_loop h1 s (d + n) e = Some (h', e)" "length h' = length h1"
          "\<forall>i < length h1. h' ! i = (if d + n \<le> i \<and> i < e then h1 ! (s + (i - s) mod p) else h1 ! i)"
        using "1.IH" [OF True "1.prems"(1) c [symmetric] _ n(3) _ "1.prems"(4) _ per] "1.prems"(1,3) n w(2) by auto
      then show ?thesis unfolding loop using h1 w(2) n(3) by (intro exI [of _ h']) (auto simp: lh)
    next
      case False
      then have "copy_loop h1 s (d + n) e = Some (h1, e)" using n(3) by (subst copy_loop.simps) auto
      then show ?thesis unfolding loop using h1 w(2) False n(3) by (intro exI [of _ h1]) auto
    qed
  next
    case False
    then have "d = e" using "1.prems"(2) by simp
    then show ?thesis by (subst copy_loop.simps) auto
  qed
qed

section \<open>The ring is the list\<close>

lemma window_write:
  assumes "window W dd out m" "wrPos dd + length xs \<le> W" "length h = W"
    "\<And>i. i < W \<Longrightarrow> h ! i = (if wrPos dd \<le> i \<and> i < wrPos dd + length xs then xs ! (i - wrPos dd) else hist dd ! i)"
  shows "window W (dd\<lparr>hist := h, wrPos := wrPos dd + length xs\<rparr>) (out @ xs) m"
proof -
  from assms(1) obtain q where w: "0 < W" "length (hist dd) = W" "rdPos dd \<le> wrPos dd" "length out = q * W + wrPos dd"
      "m = q * W + rdPos dd" "full dd \<longleftrightarrow> q > 0" and o: "\<And>j. j < length out \<Longrightarrow> length out \<le> j + W \<Longrightarrow> hist dd ! (j mod W) = out ! j"
    by (auto simp: window_def)
  have "h ! (j mod W) = (out @ xs) ! j" if j: "j < length (out @ xs)" "length (out @ xs) \<le> j + W" for j
  proof (cases "j < length out")
    case True
    have "\<not> (wrPos dd \<le> j mod W \<and> j mod W < wrPos dd + length xs)"
    proof
      assume a: "wrPos dd \<le> j mod W \<and> j mod W < wrPos dd + length xs"
      have "j div W < q"
      proof (rule ccontr)
        assume "\<not> j div W < q"
        then have "q * W \<le> j div W * W" by simp
        then show False using div_mult_mod_eq [of j W] True a w(4) by linarith
      qed
      then have "Suc (j div W) * W \<le> q * W" by (intro mult_right_mono) auto
      then have "j + W \<le> q * W + j mod W" using div_mult_mod_eq [of j W] unfolding mult_Suc by linarith
      then show False using a j(2) w(4) by simp
    qed
    then show ?thesis using assms(4) [of "j mod W"] o [OF True] j w(1) True by (auto simp: nth_append)
  next
    case False
    then obtain k where k: "j = q * W + (wrPos dd + k)" "k < length xs" using j(1) w(4) by (metis add.assoc le_Suc_ex length_append nat_add_left_cancel_less not_less)
    then have "j mod W = wrPos dd + k" using assms(2) by simp
    then show ?thesis using assms(4) [of "wrPos dd + k"] k assms(2) w(4) by (simp add: nth_append)
  qed
  then show ?thesis unfolding window_def using w assms(2,3) by auto
qed

lemma window_writeMark:
  assumes "window W dd out m" "length bs \<le> availWrite dd"
  shows "window W (writeMark dd bs) (out @ bs) m" "availWrite (writeMark dd bs) = availWrite dd - length bs"
proof -
  have w: "length (hist dd) = W" "wrPos dd \<le> W" "wrPos dd + length bs \<le> W" using assms by (auto simp: window_def availWrite_def)
  then show "window W (writeMark dd bs) (out @ bs) m" unfolding writeMark_def by (intro window_write [OF assms(1)]) (auto simp: nth_append)
  show "availWrite (writeMark dd bs) = availWrite dd - length bs" using w by (simp add: availWrite_def writeMark_def)
qed

lemma window_writeByte:
  assumes "window W dd out m" "0 < availWrite dd"
  shows "\<exists>dd'. writeByte dd c = Some dd' \<and> window W dd' (out @ [c]) m \<and> availWrite dd = Suc (availWrite dd')"
proof -
  have w: "length (hist dd) = W" "wrPos dd < W" using assms by (auto simp: window_def availWrite_def)
  then have "window W (dd\<lparr>hist := (hist dd)[wrPos dd := c], wrPos := wrPos dd + length [c]\<rparr>) (out @ [c]) m"
    by (intro window_write [OF assms(1)]) (auto simp: nth_list_update)
  then show ?thesis using w by (simp add: writeByte_def availWrite_def)
qed

lemma window_readFlush:
  assumes "window W dd out m" "readFlush dd = (bs, dd')"
  shows "bs = drop m out" "window W dd' out (length out)" "availRead dd' = 0" "0 < availWrite dd'"
proof -
  from assms(1) obtain q where w: "0 < W" "length (hist dd) = W" "rdPos dd \<le> wrPos dd" "wrPos dd \<le> W" "length out = q * W + wrPos dd"
      "m = q * W + rdPos dd" "full dd \<longleftrightarrow> q > 0" and o: "\<And>j. j < length out \<Longrightarrow> length out \<le> j + W \<Longrightarrow> hist dd ! (j mod W) = out ! j"
    by (auto simp: window_def)
  have "drop (rdPos dd) (take (wrPos dd) (hist dd)) = drop m out"
  proof (rule nth_equalityI)
    fix i assume "i < length (drop (rdPos dd) (take (wrPos dd) (hist dd)))"
    then have i: "rdPos dd + i < wrPos dd" by simp
    then have "(q * W + (rdPos dd + i)) mod W = rdPos dd + i" using w(4) by simp
    then show "drop (rdPos dd) (take (wrPos dd) (hist dd)) ! i = drop m out ! i"
      using o [of "q * W + (rdPos dd + i)"] i w by (simp add: add.assoc)
  qed (use w in simp)
  then show "bs = drop m out" using assms(2) by (auto simp: readFlush_def Let_def split: if_splits)
  show "window W dd' out (length out)"
  proof (cases "wrPos dd = W")
    case True
    then have "length out = Suc q * W + 0" using w(5) by simp
    then show ?thesis unfolding window_def using True w o assms(2) by (auto simp: readFlush_def Let_def intro!: exI [of _ "Suc q"])
  qed (use assms(2) w o in \<open>auto simp: window_def readFlush_def Let_def\<close>)
  show "availRead dd' = 0" "0 < availWrite dd'" using assms(2) w by (auto simp: availRead_def availWrite_def readFlush_def Let_def split: if_splits)
qed

lemma window_histSize:
  assumes "window W dd out m" "0 < availWrite dd"
  shows "histSize dd = min W (length out)"
proof -
  from assms obtain q where "length (hist dd) = W" "wrPos dd < W" "length out = q * W + wrPos dd" "full dd \<longleftrightarrow> q > 0"
    by (auto simp: window_def availWrite_def)
  then show ?thesis by (cases q) (auto simp: histSize_def)
qed

text \<open>The position of the byte \<open>d\<close> back from the end, and of those after it.\<close>

lemma window_back:
  assumes "window W dd out m" "0 < availWrite dd" "0 < d" "d \<le> histSize dd" "r < d"
  shows "out ! (length out - d + r) =
    hist dd ! (if d \<le> wrPos dd + r then wrPos dd + r - d else wrPos dd + r + W - d)"
proof -
  from assms(1,2) obtain q where w: "0 < W" "length (hist dd) = W" "wrPos dd < W" "length out = q * W + wrPos dd" "full dd \<longleftrightarrow> q > 0"
      and o: "\<And>j. j < length out \<Longrightarrow> length out \<le> j + W \<Longrightarrow> hist dd ! (j mod W) = out ! j"
    by (auto simp: window_def availWrite_def)
  have d: "d \<le> length out" "d \<le> W" using assms(4) window_histSize [OF assms(1,2)] by auto
  have "(length out - d + r) mod W = (if d \<le> wrPos dd + r then wrPos dd + r - d else wrPos dd + r + W - d)"
  proof (cases "d \<le> wrPos dd + r")
    case True
    then have "length out - d + r = (wrPos dd + r - d) + q * W" using w(4) d by simp
    then have "(length out - d + r) mod W = (wrPos dd + r - d) mod W" by (simp only: mod_mult_self1)
    then show ?thesis using True w(3) assms(5) by simp
  next
    case False
    then have "q > 0" using w(4) d by (cases q) auto
    then obtain q' where "q = Suc q'" by (cases q) auto
    then have "length out - d + r = (wrPos dd + r + W - d) + q' * W" using w(4) d False by simp
    then have "(length out - d + r) mod W = (wrPos dd + r + W - d) mod W" by (simp only: mod_mult_self1)
    then show ?thesis using False w(1,3) d(2) assms(5) by simp
  qed
  moreover have "hist dd ! ((length out - d + r) mod W) = out ! (length out - d + r)" using d assms(5) by (intro o) auto
  ultimately show ?thesis by metis
qed

lemma window_copy:
  assumes "window W dd out m" "0 < availWrite dd" "0 < d" "d \<le> histSize dd" "wrPos dd + n \<le> W" "length h = W"
    "\<And>k. k < n \<Longrightarrow> h ! (wrPos dd + k) = hist dd ! (if d \<le> wrPos dd + k mod d then wrPos dd + k mod d - d else wrPos dd + k mod d + W - d)"
    "\<And>i. i < W \<Longrightarrow> i < wrPos dd \<or> wrPos dd + n \<le> i \<Longrightarrow> h ! i = hist dd ! i"
  shows "window W (dd\<lparr>hist := h, wrPos := wrPos dd + n\<rparr>) (lz_copy d n out) m"
proof -
  let ?x = "map (\<lambda>k. out ! (length out - d + k mod d)) [0..<n]"
  have "d \<le> length out" using assms(4) window_histSize [OF assms(1,2)] by simp
  then have l: "lz_copy d n out = out @ ?x" by (rule lz_copy_eq [OF assms(3)])
  have v: "h ! (wrPos dd + k) = ?x ! k" if "k < n" for k
    using assms(7) [OF that] window_back [OF assms(1-4), of "k mod d"] assms(3) that by simp
  have "h ! i = (if wrPos dd \<le> i \<and> i < wrPos dd + length ?x then ?x ! (i - wrPos dd) else hist dd ! i)" if "i < W" for i
  proof (cases "wrPos dd \<le> i \<and> i < wrPos dd + n")
    case True
    then have "i - wrPos dd < n" "wrPos dd + (i - wrPos dd) = i" by auto
    then have "h ! i = ?x ! (i - wrPos dd)" using v by metis
    then show ?thesis using True by simp
  next
    case False
    then show ?thesis using assms(8) [OF that] by auto
  qed
  then have "window W (dd\<lparr>hist := h, wrPos := wrPos dd + length ?x\<rparr>) (out @ ?x) m" using assms(5,6) by (intro window_write [OF assms(1)]) simp_all
  then show ?thesis by (simp only: l length_map length_upt diff_zero)
qed

text \<open>A copy within the part of the ring before the write position.\<close>

lemma copy_loop_window:
  assumes "window W dd out m" "0 < availWrite dd" "0 < d" "d \<le> wrPos dd" "wrPos dd + n \<le> W"
  shows "\<exists>h. copy_loop (hist dd) (wrPos dd - d) (wrPos dd) (wrPos dd + n) = Some (h, wrPos dd + n) \<and>
    window W (dd\<lparr>hist := h, wrPos := wrPos dd + n\<rparr>) (lz_copy d n out) m"
proof -
  have w: "length (hist dd) = W" "wrPos dd < W" using assms(1,2) by (auto simp: window_def availWrite_def)
  have "\<exists>h. copy_loop (hist dd) (wrPos dd - d) (wrPos dd) (wrPos dd + n) = Some (h, wrPos dd + n) \<and> length h = length (hist dd) \<and>
      (\<forall>i < length (hist dd). h ! i = (if wrPos dd \<le> i \<and> i < wrPos dd + n then hist dd ! (wrPos dd - d + (i - (wrPos dd - d)) mod d) else hist dd ! i))"
    using assms w by (intro copy_loop_fill) auto
  then obtain h where h: "copy_loop (hist dd) (wrPos dd - d) (wrPos dd) (wrPos dd + n) = Some (h, wrPos dd + n)" "length h = W"
      "\<And>i. i < W \<Longrightarrow> h ! i = (if wrPos dd \<le> i \<and> i < wrPos dd + n then hist dd ! (wrPos dd - d + (i - (wrPos dd - d)) mod d) else hist dd ! i)"
    using w(1) by auto
  have "(wrPos dd + k - (wrPos dd - d)) mod d = k mod d" for k
  proof -
    have "wrPos dd + k - (wrPos dd - d) = k + d" using assms(4) by simp
    then show ?thesis by simp
  qed
  then have "window W (dd\<lparr>hist := h, wrPos := wrPos dd + n\<rparr>) (lz_copy d n out) m"
    using assms w h(2,3) by (intro window_copy [OF assms(1-3)]) (auto simp: histSize_def)
  then show ?thesis using h(1) by blast
qed

lemma mod_once: "(a :: nat) < 2 * d \<Longrightarrow> a mod d = (if d \<le> a then a - d else a)"
  by (simp add: le_mod_geq)

lemma window_tryWriteCopy:
  assumes "window W dd out m" "0 < availWrite dd" "0 < d" "d \<le> histSize dd"
  shows "tryWriteCopy dd d n = Some (0, dd) \<or>
    (\<exists>dd'. n \<le> availWrite dd \<and> tryWriteCopy dd d n = Some (n, dd') \<and> window W dd' (lz_copy d n out) m \<and>
       availWrite dd' = availWrite dd - n)"
proof (cases "wrPos dd < d \<or> wrPos dd + n > length (hist dd)")
  case False
  have w: "length (hist dd) = W" using assms(1) by (simp add: window_def)
  obtain h where "copy_loop (hist dd) (wrPos dd - d) (wrPos dd) (wrPos dd + n) = Some (h, wrPos dd + n)"
      "window W (dd\<lparr>hist := h, wrPos := wrPos dd + n\<rparr>) (lz_copy d n out) m"
    using copy_loop_window [OF assms(1-3), of n] False w by auto
  moreover have "n \<le> length (hist dd) - wrPos dd" using False by linarith
  moreover from calculation(2) have "length h = W" by (simp add: window_def)
  ultimately show ?thesis using False w by (simp add: tryWriteCopy_def availWrite_def)
qed (simp add: tryWriteCopy_def)

lemma window_writeCopy:
  assumes "window W dd out m" "0 < availWrite dd" "0 < d" "d \<le> histSize dd"
  shows "\<exists>dd'. writeCopy dd d n = Some (min n (availWrite dd), dd') \<and> window W dd' (lz_copy d (min n (availWrite dd)) out) m \<and>
    availWrite dd' = availWrite dd - min n (availWrite dd)"
proof -
  define k where "k = min n (availWrite dd)"
  have w: "length (hist dd) = W" "wrPos dd < W" using assms(1,2) by (auto simp: window_def availWrite_def)
  have k: "min (wrPos dd + n) (length (hist dd)) = wrPos dd + k" "wrPos dd + k \<le> W" using w by (auto simp: k_def availWrite_def)
  show ?thesis
  proof (cases "wrPos dd < d")
    case False
    obtain h where "copy_loop (hist dd) (wrPos dd - d) (wrPos dd) (wrPos dd + k) = Some (h, wrPos dd + k)"
        "window W (dd\<lparr>hist := h, wrPos := wrPos dd + k\<rparr>) (lz_copy d k out) m"
      using copy_loop_window [OF assms(1-3) _ k(2)] False by auto
    moreover from this(2) have "length h = W" by (simp add: window_def)
    ultimately show ?thesis using False k w by (simp add: writeCopy_def Let_def k_def [symmetric] availWrite_def [of "dd\<lparr>hist := _, wrPos := _\<rparr>"])
      (simp add: availWrite_def)
  next
    case True
    have d: "d \<le> W" using assms(4) w by (auto simp: histSize_def split: if_splits)
    obtain c h1 where c: "copy_within (hist dd) (wrPos dd) (wrPos dd + k) (wrPos dd + W - d) W = (c, h1)" by fastforce
    note cw = copy_within_nth [OF c le_add1 k(2) [folded w(1)] eq_imp_le [OF w(1) [symmetric]]]
    have c2: "c = min k (d - wrPos dd)" using cw(1) True d w(2) by auto
    have h1: "length h1 = W" "\<And>i. i < W \<Longrightarrow> h1 ! i = (if wrPos dd \<le> i \<and> i < wrPos dd + c then hist dd ! (i + W - d) else hist dd ! i)"
    proof -
      show "length h1 = W" using cw(2) w(1) by simp
      fix i assume "i < W"
      moreover have "wrPos dd + W - d + (i - wrPos dd) = i + W - d" if "wrPos dd \<le> i" using that d by simp
      ultimately show "h1 ! i = (if wrPos dd \<le> i \<and> i < wrPos dd + c then hist dd ! (i + W - d) else hist dd ! i)" using cw(3) [of i] w(1) by auto
    qed
    obtain h2 where h2: "copy_loop h1 0 (wrPos dd + c) (wrPos dd + k) = Some (h2, wrPos dd + k)" "length h2 = W"
        "\<And>i. i < W \<Longrightarrow> h2 ! i = (if wrPos dd + c \<le> i \<and> i < wrPos dd + k then h1 ! (i mod d) else h1 ! i)"
    proof (cases "c < k")
      case less: True
      then have cd: "wrPos dd + c = d" using c2 True by auto
      then have "\<exists>h'. copy_loop h1 0 (wrPos dd + c) (wrPos dd + k) = Some (h', wrPos dd + k) \<and> length h' = length h1 \<and>
          (\<forall>i < length h1. h' ! i = (if wrPos dd + c \<le> i \<and> i < wrPos dd + k then h1 ! (0 + (i - 0) mod d) else h1 ! i))"
        using less k(2) assms(3) h1(1) by (intro copy_loop_fill) auto
      then show ?thesis using that h1(1) by auto
    next
      case False
      then have "copy_loop h1 0 (wrPos dd + c) (wrPos dd + k) = Some (h1, wrPos dd + k)" using c2 by (subst copy_loop.simps) auto
      then show ?thesis using that h1(1) False by auto
    qed
    have "window W (dd\<lparr>hist := h2, wrPos := wrPos dd + k\<rparr>) (lz_copy d k out) m"
    proof (rule window_copy [OF assms k(2) h2(2)])
      fix j assume j: "j < k"
      then have jW: "wrPos dd + j < W" using k(2) by simp
      show "h2 ! (wrPos dd + j) = hist dd ! (if d \<le> wrPos dd + j mod d then wrPos dd + j mod d - d else wrPos dd + j mod d + W - d)"
      proof (cases "j < c")
        case True
        then have "j < d" "wrPos dd + j < d" using c2 by auto
        then show ?thesis using h2(3) [OF jW] h1(2) [OF jW] True by simp
      next
        case False
        then have cd: "wrPos dd + c = d" using c2 j True by auto
        let ?r = "j mod d"
        have r: "?r < d" using assms(3) by simp
        have "(wrPos dd + j) mod d = (wrPos dd + ?r) mod d" by (simp add: mod_simps)
        also have "\<dots> = (if d \<le> wrPos dd + ?r then wrPos dd + ?r - d else wrPos dd + ?r)" using r True by (intro mod_once) linarith
        finally have m: "(wrPos dd + j) mod d = (if d \<le> wrPos dd + ?r then wrPos dd + ?r - d else wrPos dd + ?r)" .
        have "h2 ! (wrPos dd + j) = h1 ! ((wrPos dd + j) mod d)" using h2(3) [OF jW] False j by simp
        also have "\<dots> = hist dd ! (if d \<le> wrPos dd + ?r then wrPos dd + ?r - d else wrPos dd + ?r + W - d)"
        proof (cases "d \<le> wrPos dd + ?r")
          case up: True
          have "wrPos dd + ?r - d < W" "wrPos dd + ?r - d < wrPos dd" using r up True d by linarith+
          then show ?thesis using m h1(2) [of "wrPos dd + ?r - d"] up by simp
        next
          case down: False
          have "wrPos dd + ?r < W" "wrPos dd + ?r < wrPos dd + c" using down d cd by linarith+
          then show ?thesis using m h1(2) [of "wrPos dd + ?r"] down by simp
        qed
        finally show ?thesis .
      qed
    next
      fix i assume i: "i < W" "i < wrPos dd \<or> wrPos dd + k \<le> i"
      show "h2 ! i = hist dd ! i" unfolding h2(3) [OF i(1)] h1(2) [OF i(1)] using i(2) c2 by auto
    qed
    moreover have "\<not> wrPos dd + W < d" using d w(2) by simp
    ultimately show ?thesis using True k(1) c h2(1,2) w(1)
      by (simp add: writeCopy_def Let_def k_def [symmetric] availWrite_def [of "dd\<lparr>hist := _, wrPos := _\<rparr>"]) (simp add: availWrite_def)
  qed
qed

lemma tryWriteCopy_0: "tryWriteCopy dd d 0 = Some (0, dd)"
  by (simp add: tryWriteCopy_def copy_loop.simps Let_def)

lemma lz_copy_add: "lz_copy d (a + b) out = lz_copy d b (lz_copy d a out)"
  by (induction a arbitrary: out) auto

lemma lz_copy_prefix: "prefix out (lz_copy d n out)"
  by (induction n arbitrary: out) (auto intro: prefix_order.trans [OF append_prefixD])

end
