(* ===== verification/Flate.thy ===== *)
theory Flate
  imports Huffman FlateDict GoIO
begin

unbundle bit_operations_syntax

text \<open>
  Model of the inflater of \<open>compress/flate/inflate.go\<close>: a state machine whose \<open>step\<close> is one of three
  functions, which stops whenever the window is full and goes on at the next \<open>Read\<close>. Its reader is
  the \<open>bytes.Reader\<close> of the archive, given by the bytes that it still holds. The result \<open>None\<close> is a panic
  or a loop that does not end; errors are values. A pointer to a Huffman table is a value of \<open>htable\<close>.
\<close>

section \<open>State\<close>

definition maxNumLit :: nat where "maxNumLit = 286"
definition maxNumDist :: nat where "maxNumDist = 30"
definition numCodes :: nat where "numCodes = 19"
definition maxMatchOffset :: nat where "maxMatchOffset = 32768"
definition endBlockMarker :: nat where "endBlockMarker = 256"
definition huffmanCountMask :: nat where "huffmanCountMask = 15"
definition huffmanValueShift :: nat where "huffmanValueShift = 4"

datatype htable = Fixed | Table1 | Table2
datatype step = NextBlock | HuffmanBlock | CopyData
datatype stepState = StateInit | StateDict

record decompressor =
  f_r :: bytes
  f_roffset :: nat
  f_b :: "32 word"
  f_nb :: nat
  f_h1 :: huffmanDecoder
  f_h2 :: huffmanDecoder
  f_bits :: "nat list"
  f_codebits :: "nat list"
  f_dict :: dictDecoder
  f_step :: step
  f_stepState :: stepState
  f_final :: bool
  f_err :: "error option"
  f_toRead :: bytes
  f_hl :: "htable option"
  f_hd :: "htable option"
  f_copyLen :: nat
  f_copyDist :: nat

text \<open>The table of the fixed code is built once; building it succeeds.\<close>

definition fixed_lengths :: "nat list" where
  "fixed_lengths = map (\<lambda>i. if i < 144 then 8 else if i < 256 then 9 else if i < 280 then 7 else 8) [0..<288]"

definition fixedHuffmanDecoder :: huffmanDecoder where
  "fixedHuffmanDecoder = (case huffman_init zero_decoder fixed_lengths of Some (_, h) \<Rightarrow> h | None \<Rightarrow> zero_decoder)"

definition htab :: "htable \<Rightarrow> decompressor \<Rightarrow> huffmanDecoder" where
  "htab t f = (case t of Fixed \<Rightarrow> fixedHuffmanDecoder | Table1 \<Rightarrow> f_h1 f | Table2 \<Rightarrow> f_h2 f)"

section \<open>Bits\<close>

definition moreBits :: "decompressor \<Rightarrow> error option \<times> decompressor" where
  "moreBits f =
     (case f_r f of
        [] \<Rightarrow> (Some (noEOF io_EOF), f)
      | c # r \<Rightarrow> (None, f\<lparr>f_r := r, f_roffset := f_roffset f + 1, f_b := f_b f OR push_bit (f_nb f) (of_char c), f_nb := f_nb f + 8\<rparr>))"

text \<open>\<open>for f.nb < n { ... f.moreBits() ... }\<close>.\<close>

function need :: "nat \<Rightarrow> decompressor \<Rightarrow> error option \<times> decompressor" where
  "need n f =
     (if f_nb f < n then (case moreBits f of (Some e, f1) \<Rightarrow> (Some e, f1) | (None, f1) \<Rightarrow> need n f1) else (None, f))"
  by pat_completeness auto
termination
  by (relation "measure (\<lambda>(n, f). length (f_r f))") (auto simp: moreBits_def split: list.splits)

declare need.simps [simp del]

text \<open>The low \<open>n\<close> bits, which are taken away; and both together.\<close>

definition takeBits :: "nat \<Rightarrow> decompressor \<Rightarrow> nat \<times> decompressor" where
  "takeBits n f = (unat (f_b f AND (push_bit n 1 - 1)), f\<lparr>f_b := drop_bit n (f_b f), f_nb := f_nb f - n\<rparr>)"

definition readBits :: "nat \<Rightarrow> decompressor \<Rightarrow> nat result \<times> decompressor" where
  "readBits n f =
     (case need n f of (Some e, f1) \<Rightarrow> (Inl e, f1) | (None, f1) \<Rightarrow> (case takeBits n f1 of (v, f2) \<Rightarrow> (Inr v, f2)))"

text \<open>The loops of \<open>huffSym\<close>. The inner one is \<open>moreBits\<close> inlined.\<close>

function symBits :: "nat \<Rightarrow> decompressor \<Rightarrow> error option \<times> decompressor" where
  "symBits n f =
     (if f_nb f < n then
        (case f_r f of
           [] \<Rightarrow> (Some (noEOF io_EOF), f)
         | c # r \<Rightarrow> symBits n (f\<lparr>f_r := r, f_roffset := f_roffset f + 1,
                     f_b := f_b f OR push_bit (f_nb f mod 32) (of_char c), f_nb := f_nb f + 8\<rparr>))
      else (None, f))"
  by pat_completeness auto
termination
  by (relation "measure (\<lambda>(n, f). length (f_r f))") auto

declare symBits.simps [simp del]

lemma symBits_less:
  "length (f_r (snd (symBits n f))) \<le> length (f_r f) \<and>
   (f_nb f < n \<and> fst (symBits n f) = None \<longrightarrow> length (f_r (snd (symBits n f))) < length (f_r f))"
proof (induction n f rule: symBits.induct)
  case (1 n f)
  show ?case
  proof (cases "f_nb f < n")
    case True
    show ?thesis
    proof (cases "f_r f")
      case Nil
      then show ?thesis using True by (subst (1 2 3) symBits.simps) simp
    next
      case (Cons c r)
      let ?f = "f\<lparr>f_r := r, f_roffset := f_roffset f + 1, f_b := f_b f OR push_bit (f_nb f mod 32) (of_char c), f_nb := f_nb f + 8\<rparr>"
      have "symBits n f = symBits n ?f" using True Cons by (subst symBits.simps) simp
      moreover have "length (f_r (snd (symBits n ?f))) \<le> length r" using 1 [OF True Cons] by simp
      ultimately show ?thesis using Cons by simp
    qed
  qed (simp add: symBits.simps [of n f])
qed

lemma symBits_nb: "symBits n f = (None, f') \<Longrightarrow> n \<le> f_nb f'"
proof (induction n f rule: symBits.induct)
  case (1 n f)
  then show ?case by (subst (asm) symBits.simps) (auto split: if_splits list.splits)
qed

function huffLoop :: "huffmanDecoder \<Rightarrow> nat \<Rightarrow> decompressor \<Rightarrow> (nat result \<times> decompressor) option" where
  "huffLoop h n f =
     (case symBits n f of
        (Some e, f1) \<Rightarrow> Some (Inl e, f1)
      | (None, f1) \<Rightarrow>
          (case huff_lookup h (unat (f_b f1)) of
             None \<Rightarrow> None
           | Some chunk \<Rightarrow>
               let n1 = chunk AND huffmanCountMask in
               if n1 \<le> f_nb f1 then
                 (if n1 = 0 then
                    (let e = CorruptInputError (f_roffset f1) in Some (Inl e, f1\<lparr>f_err := Some e\<rparr>))
                  else Some (Inr (drop_bit huffmanValueShift chunk), f1\<lparr>f_b := drop_bit (n1 mod 32) (f_b f1), f_nb := f_nb f1 - n1\<rparr>))
               else huffLoop h n1 f1))"
  by pat_completeness auto
termination
proof (relation "measure (\<lambda>(h, n, f). 2 * length (f_r f) + (if f_nb f < n then 0 else 1))")
  fix h n f ee f1 chunk n1
  assume a: "(ee, f1) = symBits n f" "ee = None" "n1 = chunk AND huffmanCountMask" "\<not> n1 \<le> f_nb f1"
  then show "((h, n1, f1), (h, n, f)) \<in> measure (\<lambda>(h, n, f). 2 * length (f_r f) + (if f_nb f < n then 0 else 1))"
    using symBits_less [of n f] by (cases "f_nb f < n") (auto simp: a(1) [symmetric])
qed auto

declare huffLoop.simps [simp del]

definition huffSym :: "huffmanDecoder \<Rightarrow> decompressor \<Rightarrow> (nat result \<times> decompressor) option" where
  "huffSym h f = huffLoop h (h_min h) f"

section \<open>Dynamic Huffman tables\<close>

definition fbind :: "('a result \<times> decompressor) option \<Rightarrow> ('a \<Rightarrow> decompressor \<Rightarrow> ('b result \<times> decompressor) option) \<Rightarrow> ('b result \<times> decompressor) option" where
  "fbind m k = (case m of None \<Rightarrow> None | Some (Inl e, f) \<Rightarrow> Some (Inl e, f) | Some (Inr x, f) \<Rightarrow> k x f)"

definition corrupt :: "decompressor \<Rightarrow> ('a result \<times> decompressor) option" where
  "corrupt f = Some (Inl (CorruptInputError (f_roffset f)), f)"

definition codeOrder :: "nat list" where
  "codeOrder = [16, 17, 18, 0, 8, 7, 9, 6, 10, 5, 11, 4, 12, 3, 13, 2, 14, 1, 15]"

text \<open>The lengths of the codes for lengths, at the positions that \<open>codeOrder\<close> gives; the rest is zero.\<close>

fun read_codebits :: "nat list \<Rightarrow> decompressor \<Rightarrow> error option \<times> decompressor" where
  "read_codebits [] f = (None, f)"
| "read_codebits (j # js) f =
     (case readBits 3 f of
        (Inl e, f1) \<Rightarrow> (Some e, f1)
      | (Inr v, f1) \<Rightarrow> read_codebits js (f1\<lparr>f_codebits := (f_codebits f1)[j := v]\<rparr>))"

definition zero_codebits :: "nat list \<Rightarrow> decompressor \<Rightarrow> decompressor" where
  "zero_codebits js f = f\<lparr>f_codebits := foldl (\<lambda>bs j. bs[j := 0]) (f_codebits f) js\<rparr>"

text \<open>The codes 16 to 18: how often to repeat at least, how many bits say how much more, and what.\<close>

definition repeat_code :: "nat \<Rightarrow> nat \<Rightarrow> decompressor \<Rightarrow> (nat \<times> nat \<times> nat) result" where
  "repeat_code x i f =
     (if x = 16 then
        (if i = 0 then Inl (CorruptInputError (f_roffset f)) else Inr (3, 2, f_bits f ! (i - 1)))
      else if x = 17 then Inr (3, 3, 0)
      else if x = 18 then Inr (11, 7, 0)
      else Inl (InternalError ''unexpected length code''))"

text \<open>The inner loop that stores \<open>rep\<close> times; it panics behind the end of the array.\<close>

fun store_rep :: "nat \<Rightarrow> nat \<Rightarrow> nat \<Rightarrow> nat list \<Rightarrow> nat list option" where
  "store_rep 0 i b bs = Some bs"
| "store_rep (Suc rep) i b bs = (if i < length bs then store_rep rep (i + 1) b (bs[i := b]) else None)"

function read_lengths :: "nat \<Rightarrow> nat \<Rightarrow> decompressor \<Rightarrow> (unit result \<times> decompressor) option" where
  "read_lengths i n f =
     (if i < n then
        (case huffSym (f_h1 f) f of
           None \<Rightarrow> None
         | Some (Inl e, f1) \<Rightarrow> Some (Inl e, f1)
         | Some (Inr x, f1) \<Rightarrow>
             if x < 16 then
               (if i < length (f_bits f1) then read_lengths (i + 1) n (f1\<lparr>f_bits := (f_bits f1)[i := x]\<rparr>) else None)
             else
               (case repeat_code x i f1 of
                  Inl e \<Rightarrow> Some (Inl e, f1)
                | Inr (rep0, k, b) \<Rightarrow>
                    (case readBits k f1 of
                       (Inl e, f2) \<Rightarrow> Some (Inl e, f2)
                     | (Inr v, f2) \<Rightarrow>
                         let rep = rep0 + v in
                         if i + rep > n then corrupt f2
                         else
                           (case store_rep rep i b (f_bits f2) of
                              None \<Rightarrow> None
                            | Some bs \<Rightarrow> read_lengths (i + rep) n (f2\<lparr>f_bits := bs\<rparr>)))))
      else Some (Inr (), f))"
  by pat_completeness auto
termination
  by (relation "measure (\<lambda>(i, n, f). n - i)") (auto simp: repeat_code_def split: if_splits)

declare read_lengths.simps [simp del]

text \<open>\<open>h.init(lengths)\<close> for the two tables: panic, or whether the lengths were accepted.\<close>

definition init1 :: "nat list \<Rightarrow> decompressor \<Rightarrow> (bool \<times> decompressor) option" where
  "init1 ls f = map_option (\<lambda>(ok, h). (ok, f\<lparr>f_h1 := h\<rparr>)) (huffman_init (f_h1 f) ls)"

definition init2 :: "nat list \<Rightarrow> decompressor \<Rightarrow> (bool \<times> decompressor) option" where
  "init2 ls f = map_option (\<lambda>(ok, h). (ok, f\<lparr>f_h2 := h\<rparr>)) (huffman_init (f_h2 f) ls)"

text \<open>The end of \<open>readHuffman\<close>: both tables, and the least number of bits to read for a symbol.\<close>

definition init_tables :: "nat \<Rightarrow> nat \<Rightarrow> decompressor \<Rightarrow> (unit result \<times> decompressor) option" where
  "init_tables nlit ndist f =
     (case init1 (take nlit (f_bits f)) f of
        None \<Rightarrow> None
      | Some (False, f1) \<Rightarrow> corrupt f1
      | Some (True, f1) \<Rightarrow>
          (case init2 (take ndist (drop nlit (f_bits f1))) f1 of
             None \<Rightarrow> None
           | Some (False, f2) \<Rightarrow> corrupt f2
           | Some (True, f2) \<Rightarrow>
               Some (Inr (), if h_min (f_h1 f2) < f_bits f2 ! endBlockMarker
                             then f2\<lparr>f_h1 := (f_h1 f2)\<lparr>h_min := f_bits f2 ! endBlockMarker\<rparr>\<rparr> else f2)))"

definition readHuffman :: "decompressor \<Rightarrow> (unit result \<times> decompressor) option" where
  "readHuffman f0 =
     (case need (5 + 5 + 4) f0 of
        (Some e, f) \<Rightarrow> Some (Inl e, f)
      | (None, f) \<Rightarrow>
          let nlit = unat (f_b f AND 0x1F) + 257 in
          if nlit > maxNumLit then corrupt f
          else
            (let f = f\<lparr>f_b := drop_bit 5 (f_b f)\<rparr>; ndist = unat (f_b f AND 0x1F) + 1 in
             if ndist > maxNumDist then corrupt f
             else
               (let f = f\<lparr>f_b := drop_bit 5 (f_b f)\<rparr>; nclen = unat (f_b f AND 0xF) + 4;
                    f = f\<lparr>f_b := drop_bit 4 (f_b f), f_nb := f_nb f - (5 + 5 + 4)\<rparr>
                in case read_codebits (take nclen codeOrder) f of
                     (Some e, f) \<Rightarrow> Some (Inl e, f)
                   | (None, f) \<Rightarrow>
                       let f = zero_codebits (drop nclen codeOrder) f in
                       (case init1 (f_codebits f) f of
                          None \<Rightarrow> None
                        | Some (False, f) \<Rightarrow> corrupt f
                        | Some (True, f) \<Rightarrow> fbind (read_lengths 0 (nlit + ndist) f) (\<lambda>_ f. init_tables nlit ndist f)))))"

section \<open>Blocks\<close>

definition flush :: "decompressor \<Rightarrow> decompressor" where
  "flush f = (case readFlush (f_dict f) of (bs, d) \<Rightarrow> f\<lparr>f_toRead := bs, f_dict := d\<rparr>)"

definition finishBlock :: "decompressor \<Rightarrow> decompressor" where
  "finishBlock f =
     (let f1 = (if f_final f then (if availRead (f_dict f) > 0 then flush f else f)\<lparr>f_err := Some io_EOF\<rparr> else f)
      in f1\<lparr>f_step := NextBlock\<rparr>)"

text \<open>The base length and the number of extra bits of a length symbol.\<close>

definition length_code :: "nat \<Rightarrow> (nat \<times> nat) option" where
  "length_code v =
     (if v < 265 then Some (v - (257 - 3), 0)
      else if v < 269 then Some (v * 2 - (265 * 2 - 11), 1)
      else if v < 273 then Some (v * 4 - (269 * 4 - 19), 2)
      else if v < 277 then Some (v * 8 - (273 * 8 - 35), 3)
      else if v < 281 then Some (v * 16 - (277 * 16 - 67), 4)
      else if v < 285 then Some (v * 32 - (281 * 32 - 131), 5)
      else if v < maxNumLit then Some (258, 0)
      else None)"

definition read_length :: "nat \<Rightarrow> decompressor \<Rightarrow> (nat result \<times> decompressor) option" where
  "read_length v f =
     (case length_code v of
        None \<Rightarrow> corrupt f
      | Some (base, n) \<Rightarrow>
          if n > 0 then (case readBits n f of (Inl e, f1) \<Rightarrow> Some (Inl e, f1) | (Inr x, f1) \<Rightarrow> Some (Inr (base + x), f1))
          else Some (Inr base, f))"

text \<open>The symbol of a distance, in five reversed bits in a block with the fixed codes.\<close>

definition dist_symbol :: "decompressor \<Rightarrow> (nat result \<times> decompressor) option" where
  "dist_symbol f =
     (case f_hd f of
        None \<Rightarrow>
          (case need 5 f of
             (Some e, f1) \<Rightarrow> Some (Inl e, f1)
           | (None, f1) \<Rightarrow>
               Some (Inr (rev_n 8 (unat (push_bit 3 (f_b f1 AND 0x1F)))), f1\<lparr>f_b := drop_bit 5 (f_b f1), f_nb := f_nb f1 - 5\<rparr>))
      | Some t \<Rightarrow> huffSym (htab t f) f)"

definition read_dist :: "decompressor \<Rightarrow> (nat result \<times> decompressor) option" where
  "read_dist f =
     fbind (dist_symbol f) (\<lambda>dist f1.
       if dist < 4 then Some (Inr (dist + 1), f1)
       else if dist < maxNumDist then
         (let k = drop_bit 1 (dist - 2); extra = push_bit k (dist AND 1) in
          case readBits k f1 of
            (Inl e, f2) \<Rightarrow> Some (Inl e, f2)
          | (Inr x, f2) \<Rightarrow> Some (Inr (push_bit (k + 1) 1 + 1 + (extra OR x)), f2))
       else corrupt f1)"

text \<open>The back reference that begins with symbol \<open>v\<close>: its length and distance.\<close>

definition read_ref :: "nat \<Rightarrow> decompressor \<Rightarrow> (unit result \<times> decompressor) option" where
  "read_ref v f =
     fbind (read_length v f) (\<lambda>len f1.
     fbind (read_dist f1) (\<lambda>dist f2.
       if dist > histSize (f_dict f2) then corrupt f2
       else Some (Inr (), f2\<lparr>f_copyLen := len, f_copyDist := dist\<rparr>)))"

text \<open>The part of \<open>copyHistory\<close> that copies what fits.\<close>

definition copy_history :: "decompressor \<Rightarrow> decompressor option" where
  "copy_history f =
     (case tryWriteCopy (f_dict f) (f_copyDist f) (f_copyLen f) of
        None \<Rightarrow> None
      | Some (cnt, d) \<Rightarrow>
          (case (if cnt = 0 then writeCopy d (f_copyDist f) (f_copyLen f) else Some (cnt, d)) of
             None \<Rightarrow> None
           | Some (cnt, d) \<Rightarrow> Some (f\<lparr>f_dict := d, f_copyLen := f_copyLen f - cnt\<rparr>)))"

text \<open>The bits that are left: those in the register and those in the reader.\<close>

definition avail :: "decompressor \<Rightarrow> nat" where
  "avail f = 8 * length (f_r f) + f_nb f"

lemma avail_symBits: "symBits n f = (e, f') \<Longrightarrow> avail f' = avail f"
proof (induction n f rule: symBits.induct)
  case (1 n f)
  then show ?case by (subst (asm) symBits.simps) (auto simp: avail_def split: if_splits list.splits)
qed

lemma avail_need: "need n f = (e, f') \<Longrightarrow> avail f' = avail f \<and> (e = None \<longrightarrow> n \<le> f_nb f')"
proof (induction n f rule: need.induct)
  case (1 n f)
  have m: "moreBits f = (e, f1) \<Longrightarrow> avail f1 = avail f" for e f1 by (auto simp: moreBits_def avail_def split: list.splits)
  obtain e1 f1 where mb: "moreBits f = (e1, f1)" by fastforce
  show ?case
  proof (cases "f_nb f < n \<and> e1 = None")
    case True
    then have "need n f1 = (e, f')" using 1(2) mb by (subst (asm) need.simps) simp
    then show ?thesis using 1(1) True mb m [OF mb] by fastforce
  next
    case False
    then show ?thesis using 1(2) mb m [OF mb] by (subst (asm) need.simps) (auto split: option.splits if_splits)
  qed
qed

lemma avail_readBits:
  "readBits n f = (r, f') \<Longrightarrow> avail f' \<le> avail f \<and> (\<forall>v. r = Inr v \<longrightarrow> avail f' + n = avail f)"
  by (auto simp: readBits_def takeBits_def avail_def dest!: avail_need split: prod.splits option.splits)

lemma avail_huffSym:
  assumes "huffSym h f = Some (r, f')"
  shows "avail f' \<le> avail f \<and> (\<forall>v. r = Inr v \<longrightarrow> avail f' < avail f)"
proof -
  have "huffLoop h n f = Some (r, f') \<Longrightarrow> ?thesis" for n
  proof (induction h n f rule: huffLoop.induct)
    case (1 h n f)
    obtain e f1 where y: "symBits n f = (e, f1)" by fastforce
    note a = avail_symBits [OF y]
    show ?case
    proof (cases e)
      case None
      obtain c where c: "huff_lookup h (unat (f_b f1)) = Some c" using 1(2) y None by (subst (asm) huffLoop.simps) (auto split: option.splits)
      show ?thesis
      proof (cases "c AND huffmanCountMask \<le> f_nb f1")
        case True
        then show ?thesis using 1(2) y None c a
          by (subst (asm) huffLoop.simps) (auto simp: avail_def Let_def split: if_splits)
      next
        case False
        then have "huffLoop h (c AND huffmanCountMask) f1 = Some (r, f')" using 1(2) y None c by (subst (asm) huffLoop.simps) simp
        then show ?thesis using 1(1) [OF y [symmetric] None c refl False] a by simp
      qed
    qed (use 1(2) y a in \<open>subst (asm) huffLoop.simps, auto\<close>)
  qed
  then show ?thesis using assms by (simp add: huffSym_def)
qed

lemma avail_read_ref: "read_ref v f = Some (r, f') \<Longrightarrow> avail f' \<le> avail f"
proof -
  have l: "read_length v f = Some (r, f') \<Longrightarrow> avail f' \<le> avail f" for r f'
    by (auto simp: read_length_def corrupt_def dest!: avail_readBits split: option.splits prod.splits if_splits sum.splits)
  have s: "dist_symbol f = Some (r, f') \<Longrightarrow> avail f' \<le> avail f" for r f f'
    by (auto simp: dist_symbol_def avail_def dest!: avail_huffSym avail_need split: option.splits prod.splits)
  have d: "read_dist f = Some (r, f') \<Longrightarrow> avail f' \<le> avail f" for r f f'
    by (fastforce simp: read_dist_def fbind_def corrupt_def Let_def dest!: s avail_readBits split: option.splits prod.splits if_splits sum.splits)
  have a: "avail (f\<lparr>f_copyLen := x, f_copyDist := y\<rparr>) = avail f" for f x y by (simp add: avail_def)
  assume "read_ref v f = Some (r, f')"
  then show "avail f' \<le> avail f"
    by (fastforce simp: read_ref_def fbind_def corrupt_def a dest!: l d split: option.splits prod.splits if_splits sum.splits)
qed

lemma avail_copy_history: "copy_history f = Some f' \<Longrightarrow> avail f' = avail f"
  by (auto simp: copy_history_def avail_def split: option.splits)

text \<open>The next symbol by \<open>f.hl\<close>, which is set in every block.\<close>

definition hl_sym :: "decompressor \<Rightarrow> (nat result \<times> decompressor) option" where
  "hl_sym f = (case f_hl f of None \<Rightarrow> None | Some t \<Rightarrow> huffSym (htab t f) f)"

lemma avail_hl_sym: "hl_sym f = Some (r, f') \<Longrightarrow> avail f' \<le> avail f \<and> (\<forall>v. r = Inr v \<longrightarrow> avail f' < avail f)"
  by (auto simp: hl_sym_def dest!: avail_huffSym split: option.splits)

text \<open>\<open>huffmanBlock\<close> from its two labels: \<open>readLiteral\<close> for \<open>StateInit\<close>, \<open>copyHistory\<close> for \<open>StateDict\<close>.\<close>

function huffman_loop :: "stepState \<Rightarrow> decompressor \<Rightarrow> decompressor option" where
  "huffman_loop StateInit f =
     (case hl_sym f of
        None \<Rightarrow> None
      | Some (Inl e, f1) \<Rightarrow> Some (f1\<lparr>f_err := Some e\<rparr>)
      | Some (Inr v, f1) \<Rightarrow>
          if v < 256 then
            (case writeByte (f_dict f1) (char_of v) of
               None \<Rightarrow> None
             | Some d \<Rightarrow>
                 let f2 = f1\<lparr>f_dict := d\<rparr> in
                 if availWrite d = 0 then Some ((flush f2)\<lparr>f_step := HuffmanBlock, f_stepState := StateInit\<rparr>)
                 else huffman_loop StateInit f2)
          else if v = 256 then Some (finishBlock f1)
          else
            (case read_ref v f1 of
               None \<Rightarrow> None
             | Some (Inl e, f2) \<Rightarrow> Some (f2\<lparr>f_err := Some e\<rparr>)
             | Some (Inr _, f2) \<Rightarrow> huffman_loop StateDict f2))"
| "huffman_loop StateDict f =
     (case copy_history f of
        None \<Rightarrow> None
      | Some f1 \<Rightarrow>
          if availWrite (f_dict f1) = 0 \<or> f_copyLen f1 > 0
          then Some ((flush f1)\<lparr>f_step := HuffmanBlock, f_stepState := StateDict\<rparr>)
          else huffman_loop StateInit f1)"
  by (pat_completeness) auto
termination
proof (relation "measure (\<lambda>(s, f). 2 * avail f + (case s of StateInit \<Rightarrow> 0 | StateDict \<Rightarrow> 1))", goal_cases)
  case (2 f x x2 y d f2)
  then show ?case by (auto simp: avail_def dest!: avail_hl_sym)
next
  case (3 f x v y)
  then show ?case by (fastforce dest!: avail_hl_sym avail_read_ref)
qed (auto dest: avail_copy_history)

declare huffman_loop.simps [simp del]

definition huffmanBlock :: "decompressor \<Rightarrow> decompressor option" where
  "huffmanBlock f = huffman_loop (f_stepState f) f"

text \<open>Stored blocks: \<open>copyData\<close> reads into the window as much as fits.\<close>

definition copyData :: "decompressor \<Rightarrow> decompressor" where
  "copyData f =
     (case ReadFull (min (availWrite (f_dict f)) (f_copyLen f)) (bytes_Reader (f_r f)) of
        (buf, e, s) \<Rightarrow>
          let cnt = length buf;
              f1 = f\<lparr>f_r := s_bytes s, f_roffset := f_roffset f + cnt, f_copyLen := f_copyLen f - cnt,
                     f_dict := writeMark (f_dict f) buf\<rparr>
          in case e of
               Some e \<Rightarrow> f1\<lparr>f_err := Some (noEOF e)\<rparr>
             | None \<Rightarrow>
                 if availWrite (f_dict f1) = 0 \<or> f_copyLen f1 > 0 then (flush f1)\<lparr>f_step := CopyData\<rparr> else finishBlock f1)"

definition dataBlock :: "decompressor \<Rightarrow> decompressor" where
  "dataBlock f0 =
     (let f = f0\<lparr>f_nb := 0, f_b := 0\<rparr> in
      case ReadFull 4 (bytes_Reader (f_r f)) of
        (buf, e, s) \<Rightarrow>
          let f1 = f\<lparr>f_r := s_bytes s, f_roffset := f_roffset f + length buf\<rparr> in
          (case e of
             Some e \<Rightarrow> f1\<lparr>f_err := Some (noEOF e)\<rparr>
           | None \<Rightarrow>
               let n = of_char (buf ! 0) OR push_bit 8 (of_char (buf ! 1)) :: nat;
                   nn = of_char (buf ! 2) OR push_bit 8 (of_char (buf ! 3)) :: nat in
               if (word_of_nat nn :: 16 word) \<noteq> NOT (word_of_nat n) then f1\<lparr>f_err := Some (CorruptInputError (f_roffset f1))\<rparr>
               else if n = 0 then finishBlock (flush f1)
               else copyData (f1\<lparr>f_copyLen := n\<rparr>)))"

definition nextBlock :: "decompressor \<Rightarrow> decompressor option" where
  "nextBlock f0 =
     (case need (1 + 2) f0 of
        (Some e, f) \<Rightarrow> Some (f\<lparr>f_err := Some e\<rparr>)
      | (None, f) \<Rightarrow>
          let f = f\<lparr>f_final := (f_b f AND 1 = 1), f_b := drop_bit 1 (f_b f)\<rparr>;
              typ = f_b f AND 3;
              f = f\<lparr>f_b := drop_bit 2 (f_b f), f_nb := f_nb f - (1 + 2)\<rparr>
          in if typ = 0 then Some (dataBlock f)
             else if typ = 1 then huffmanBlock (f\<lparr>f_hl := Some Fixed, f_hd := None\<rparr>)
             else if typ = 2 then
               (case readHuffman f of
                  None \<Rightarrow> None
                | Some (Inl e, f) \<Rightarrow> Some (f\<lparr>f_err := Some e\<rparr>)
                | Some (Inr _, f) \<Rightarrow> huffmanBlock (f\<lparr>f_hl := Some Table1, f_hd := Some Table2\<rparr>))
             else Some (f\<lparr>f_err := Some (CorruptInputError (f_roffset f))\<rparr>))"

section \<open>Reading\<close>

definition do_step :: "decompressor \<Rightarrow> decompressor option" where
  "do_step f = (case f_step f of NextBlock \<Rightarrow> nextBlock f | HuffmanBlock \<Rightarrow> huffmanBlock f | CopyData \<Rightarrow> Some (copyData f))"

text \<open>\<open>Read\<close> into a buffer of \<open>n\<close> bytes: the bytes and the error.\<close>

partial_function (option) flate_Read :: "nat \<Rightarrow> decompressor \<Rightarrow> (bytes \<times> error option \<times> decompressor) option" where
  "flate_Read n f =
     (if f_toRead f \<noteq> [] then
        (let b = take n (f_toRead f); f1 = f\<lparr>f_toRead := drop n (f_toRead f)\<rparr> in
         Some (b, if f_toRead f1 = [] then f_err f1 else None, f1))
      else if f_err f \<noteq> None then Some ([], f_err f, f)
      else
        (case do_step f of
           None \<Rightarrow> None
         | Some f1 \<Rightarrow> flate_Read n (if f_err f1 \<noteq> None \<and> f_toRead f1 = [] then flush f1 else f1)))"

definition flate_NewReader :: "bytes \<Rightarrow> decompressor" where
  "flate_NewReader r =
     \<lparr>f_r = r, f_roffset = 0, f_b = 0, f_nb = 0, f_h1 = zero_decoder, f_h2 = zero_decoder,
      f_bits = replicate (maxNumLit + maxNumDist) 0, f_codebits = replicate numCodes 0,
      f_dict = dict_init \<lparr>hist = [], wrPos = 0, rdPos = 0, full = False\<rparr> maxMatchOffset [],
      f_step = NextBlock, f_stepState = StateInit, f_final = False, f_err = None, f_toRead = [],
      f_hl = None, f_hd = None, f_copyLen = 0, f_copyDist = 0\<rparr>"

definition flate_Reset :: "bytes \<Rightarrow> decompressor \<Rightarrow> decompressor" where
  "flate_Reset r f =
     (flate_NewReader r)\<lparr>f_bits := f_bits f, f_codebits := f_codebits f, f_dict := dict_init (f_dict f) maxMatchOffset []\<rparr>"

end
