(* ===== verification/Crc32.thy ===== *)
theory Crc32
  imports Sha256
begin

unbundle bit_operations_syntax

text \<open>
  Model of \<open>hash/crc32\<close> without hardware support: the tables and the two loops of
  \<open>crc32_generic.go\<close>, the simple one and the one that takes eight bytes a turn. Both compute the
  remainder bit by bit.
\<close>

section \<open>Tables and updates\<close>

definition IEEE :: w32 where "IEEE = 0xedb88320"

definition crc_step :: "w32 \<Rightarrow> w32 \<Rightarrow> w32" where
  "crc_step poly crc = (if crc AND 1 = 1 then drop_bit 1 crc XOR poly else drop_bit 1 crc)"

definition simplePopulateTable :: "w32 \<Rightarrow> w32 list" where
  "simplePopulateTable poly = map (\<lambda>i. (crc_step poly ^^ 8) (word_of_nat i)) [0..<256]"

text \<open>A table lookup with a byte; it is always in range.\<close>

definition tab_at :: "w32 list \<Rightarrow> w32 \<Rightarrow> w32" where
  "tab_at t x = t ! unat (x AND 0xFF)"

definition simpleUpdate :: "w32 \<Rightarrow> w32 list \<Rightarrow> bytes \<Rightarrow> w32" where
  "simpleUpdate crc tab p = NOT (foldl (\<lambda>c v. tab_at tab (c XOR byte_word v) XOR drop_bit 8 c) (NOT crc) p)"

definition slicing8Cutoff :: nat where "slicing8Cutoff = 16"

text \<open>The eight tables: entry \<open>i\<close> of table \<open>j\<close> is made from entry \<open>i\<close> of table \<open>j - 1\<close>.\<close>

primrec slicing_table :: "w32 list \<Rightarrow> nat \<Rightarrow> w32 list" where
  "slicing_table t0 0 = t0"
| "slicing_table t0 (Suc j) = map (\<lambda>crc. tab_at t0 crc XOR drop_bit 8 crc) (slicing_table t0 j)"

definition slicingMakeTable :: "w32 \<Rightarrow> w32 list list" where
  "slicingMakeTable poly = map (slicing_table (simplePopulateTable poly)) [0..<8]"

definition LEUint32 :: "bytes \<Rightarrow> w32" where
  "LEUint32 p = byte_word (p ! 0) OR push_bit 8 (byte_word (p ! 1)) OR push_bit 16 (byte_word (p ! 2)) OR push_bit 24 (byte_word (p ! 3))"

text \<open>One turn of the loop of \<open>slicingUpdate\<close>, on the first eight bytes.\<close>

definition slice8 :: "w32 list list \<Rightarrow> w32 \<Rightarrow> bytes \<Rightarrow> w32" where
  "slice8 tab crc0 p =
     (let crc = crc0 XOR LEUint32 p in
      tab_at (tab ! 0) (byte_word (p ! 7)) XOR tab_at (tab ! 1) (byte_word (p ! 6)) XOR
      tab_at (tab ! 2) (byte_word (p ! 5)) XOR tab_at (tab ! 3) (byte_word (p ! 4)) XOR
      tab_at (tab ! 4) (drop_bit 24 crc) XOR tab_at (tab ! 5) (drop_bit 16 crc) XOR
      tab_at (tab ! 6) (drop_bit 8 crc) XOR tab_at (tab ! 7) crc)"

function slicing_loop :: "w32 list list \<Rightarrow> w32 \<Rightarrow> bytes \<Rightarrow> w32 \<times> bytes" where
  "slicing_loop tab crc p = (if length p > 8 then slicing_loop tab (slice8 tab crc p) (drop 8 p) else (crc, p))"
  by pat_completeness auto
termination by (relation "measure (\<lambda>(_, _, p). length p)") auto

declare slicing_loop.simps [simp del]

definition slicingUpdate :: "w32 \<Rightarrow> w32 list list \<Rightarrow> bytes \<Rightarrow> w32" where
  "slicingUpdate crc0 tab p0 =
     (case (if length p0 \<ge> slicing8Cutoff then (case slicing_loop tab (NOT crc0) p0 of (c, p) \<Rightarrow> (NOT c, p)) else (crc0, p0)) of
        (crc, p) \<Rightarrow> if p = [] then crc else simpleUpdate crc (tab ! 0) p)"

text \<open>\<open>crc32.Update\<close> with \<open>IEEETable\<close>, and \<open>ChecksumIEEE\<close>.\<close>

definition crc_Update :: "w32 \<Rightarrow> bytes \<Rightarrow> w32" where
  "crc_Update crc p = slicingUpdate crc (slicingMakeTable IEEE) p"

definition ChecksumIEEE :: "bytes \<Rightarrow> w32" where
  "ChecksumIEEE p = crc_Update 0 p"

section \<open>Bit by bit\<close>

abbreviation steps :: "w32 \<Rightarrow> nat \<Rightarrow> w32 \<Rightarrow> w32" where
  "steps poly n \<equiv> crc_step poly ^^ n"

text \<open>The reference: each byte is added to the register, and the register divided eight times.\<close>

definition crc_bytes :: "w32 \<Rightarrow> w32 \<Rightarrow> bytes \<Rightarrow> w32" where
  "crc_bytes poly c p = foldl (\<lambda>c v. steps poly 8 (c XOR byte_word v)) c p"

lemma and_one: "x AND 1 = 1 \<longleftrightarrow> bit x 0" for x :: w32
  by (simp add: and_one_eq odd_iff_mod_2_eq_one bit_0)

lemma crc_step_xor: "crc_step poly (a XOR b) = crc_step poly a XOR crc_step poly b"
  by (rule bit_eqI) (auto simp: crc_step_def and_one bit_xor_iff bit_drop_bit_eq)

lemma steps_xor: "steps poly n (a XOR b) = steps poly n a XOR steps poly n b"
  by (induction n) (simp_all add: crc_step_xor)

lemma steps_drop: "take_bit n x = 0 \<Longrightarrow> steps poly n x = drop_bit n x"
proof (induction n arbitrary: x)
  case (Suc n)
  have b: "\<not> bit x k" if "k < Suc n" for k using Suc.prems that by (metis bit_0_eq bit_take_bit_iff bot_apply bot_bool_def)
  then have "crc_step poly x = drop_bit 1 x" by (simp add: crc_step_def and_one)
  moreover have "take_bit n (drop_bit 1 x) = 0" by (rule bit_eqI) (simp add: bit_take_bit_iff bit_drop_bit_eq b)
  ultimately show ?case using Suc.IH [of "drop_bit 1 x"] by (simp add: funpow_swap1 drop_bit_drop_bit)
qed simp

lemma steps_push: "drop_bit k (push_bit k y) = y \<Longrightarrow> steps poly (n + k) (push_bit k y) = steps poly n y"
  by (simp add: funpow_add steps_drop take_bit_push_bit)

lemma and_byte: "x AND 0xFF = take_bit 8 x" for x :: w32
  by (simp add: take_bit_eq_mask mask_eq_exp_minus_1)

lemma byte_index: "unat (take_bit 8 x) < 256" for x :: w32
  by (simp add: take_bit_eq_mod unat_mod)

lemma tab_simple: "tab_at (simplePopulateTable poly) x = steps poly 8 (take_bit 8 x)"
  using byte_index [of x] by (simp add: tab_at_def simplePopulateTable_def and_byte)

lemma steps8: "tab_at (simplePopulateTable poly) x XOR drop_bit 8 x = steps poly 8 x"
proof -
  have x: "x = take_bit 8 x XOR push_bit 8 (drop_bit 8 x)"
    by (rule bit_eqI) (auto simp: bit_xor_iff bit_take_bit_iff bit_push_bit_iff bit_drop_bit_eq)
  have "steps poly 8 (push_bit 8 (drop_bit 8 x)) = drop_bit 8 x"
    by (subst steps_drop) (fastforce simp: take_bit_push_bit bit_drop_bit_eq bit_push_bit_iff intro!: bit_eqI dest: bit_imp_le_length)+
  then show ?thesis by (subst (3) x) (simp add: steps_xor tab_simple)
qed

lemma byte_bits: "bit (byte_word v :: w32) n \<Longrightarrow> n < 8"
proof -
  have "(of_char v :: int) = int (of_char v)" by (rule of_nat_of_char [symmetric])
  then have "take_bit 8 (of_char v :: int) = of_char v"
    using nat_of_char_less_256 [of v] by (simp only: take_bit_int_eq_self_iff) simp
  then have "\<not> bit (of_char v :: int) n" if "\<not> n < 8" using that by (metis bit_take_bit_iff)
  then show "bit (byte_word v :: w32) n \<Longrightarrow> n < 8" by (auto simp: byte_word_def bit_word_of_int_iff)
qed

lemma take_byte: "take_bit 8 (byte_word v :: w32) = byte_word v"
  by (rule bit_eqI) (auto simp: bit_take_bit_iff dest: byte_bits)

lemma drop_byte: "drop_bit 8 (c XOR byte_word v) = drop_bit 8 c" for c :: w32
  by (rule bit_eqI) (auto simp: bit_drop_bit_eq bit_xor_iff dest: byte_bits)

lemma simpleUpdate_bits: "simpleUpdate crc (simplePopulateTable poly) p = NOT (crc_bytes poly (NOT crc) p)"
  unfolding simpleUpdate_def crc_bytes_def using steps8 drop_byte by metis

lemma slicing_table_steps: "tab_at (slicing_table (simplePopulateTable poly) j) x = steps poly (8 * j + 8) (take_bit 8 x)"
proof (induction j)
  case (Suc j)
  have l: "length (slicing_table (simplePopulateTable poly) j) = 256" by (induction j) (simp_all add: simplePopulateTable_def)
  have "tab_at (slicing_table (simplePopulateTable poly) (Suc j)) x = steps poly 8 (tab_at (slicing_table (simplePopulateTable poly) j) x)"
    using l byte_index [of x] by (simp add: tab_at_def and_byte steps8 [unfolded tab_at_def and_byte])
  then show ?case using Suc by (simp add: funpow_add [symmetric, THEN fun_cong, simplified] add.commute)
qed (simp add: tab_simple)

lemma word_split: "x = take_bit 8 x XOR push_bit 8 (take_bit 8 (drop_bit 8 x)) XOR push_bit 16 (take_bit 8 (drop_bit 16 x)) XOR
    push_bit 24 (take_bit 8 (drop_bit 24 x))" (is "x = ?y") for x :: w32
proof (rule bit_word_eqI)
  fix n
  assume "n < LENGTH(32)"
  then consider "n < 8" | "8 \<le> n" "n < 16" | "16 \<le> n" "n < 24" | "24 \<le> n" "n < 32" by fastforce
  then show "bit x n = bit ?y n"
    by cases (auto simp: bit_xor_iff bit_take_bit_iff bit_push_bit_iff bit_drop_bit_eq)
qed

lemma push_ok: "k \<le> 24 \<Longrightarrow> drop_bit k (push_bit k (take_bit 8 y)) = take_bit 8 y" for y :: w32
  by (rule bit_eqI) (auto simp: bit_drop_bit_eq bit_push_bit_iff bit_take_bit_iff)

text \<open>The register after 64 steps, byte by byte.\<close>

lemma steps_64:
  "steps poly 64 x = steps poly 64 (take_bit 8 x) XOR steps poly 56 (take_bit 8 (drop_bit 8 x)) XOR
     steps poly 48 (take_bit 8 (drop_bit 16 x)) XOR steps poly 40 (take_bit 8 (drop_bit 24 x))"
proof -
  have "steps poly 64 (push_bit 8 (take_bit 8 y)) = steps poly 56 (take_bit 8 y)"
    "steps poly 64 (push_bit 16 (take_bit 8 y)) = steps poly 48 (take_bit 8 y)"
    "steps poly 64 (push_bit 24 (take_bit 8 y)) = steps poly 40 (take_bit 8 y)" for y
    using steps_push [OF push_ok [of 8 y], where n = 56 and poly = poly] steps_push [OF push_ok [of 16 y], where n = 48 and poly = poly]
      steps_push [OF push_ok [of 24 y], where n = 40 and poly = poly] by simp_all
  then show ?thesis by (subst word_split [of x]) (simp only: steps_xor)
qed

lemma crc_bytes_8:
  assumes "length p = 8"
  shows "crc_bytes poly c p = steps poly 64 (c XOR LEUint32 p) XOR steps poly 32 (byte_word (p ! 4)) XOR
    steps poly 24 (byte_word (p ! 5)) XOR steps poly 16 (byte_word (p ! 6)) XOR steps poly 8 (byte_word (p ! 7))"
proof -
  obtain p0 p1 p2 p3 p4 p5 p6 p7 where p: "p = [p0, p1, p2, p3, p4, p5, p6, p7]"
    using assms by (auto simp: numeral_eq_Suc length_Suc_conv)
  have le: "LEUint32 p = byte_word p0 XOR push_bit 8 (byte_word p1) XOR push_bit 16 (byte_word p2) XOR push_bit 24 (byte_word p3)"
    unfolding LEUint32_def p
    by (rule bit_word_eqI) (auto simp: bit_or_iff bit_xor_iff bit_push_bit_iff dest: byte_bits)
  have "steps poly 64 (push_bit 8 (byte_word v)) = steps poly 56 (byte_word v)"
    "steps poly 64 (push_bit 16 (byte_word v)) = steps poly 48 (byte_word v)"
    "steps poly 64 (push_bit 24 (byte_word v)) = steps poly 40 (byte_word v)" for v
    using steps_push [OF push_ok [of 8 "byte_word v"], where n = 56 and poly = poly]
      steps_push [OF push_ok [of 16 "byte_word v"], where n = 48 and poly = poly]
      steps_push [OF push_ok [of 24 "byte_word v"], where n = 40 and poly = poly] by (simp_all add: take_byte)
  then have l: "steps poly 64 (c XOR LEUint32 p) = steps poly 64 c XOR steps poly 64 (byte_word p0) XOR steps poly 56 (byte_word p1) XOR
      steps poly 48 (byte_word p2) XOR steps poly 40 (byte_word p3)" by (simp only: le steps_xor xor.assoc)
  have m: "steps poly 8 (steps poly n x) = steps poly (8 + n) x" for n x by (simp add: funpow_add)
  show ?thesis unfolding l unfolding crc_bytes_def p by (simp add: steps_xor m xor.assoc del: funpow.simps)
qed

lemma slice8_bits:
  assumes "length p \<ge> 8"
  shows "slice8 (slicingMakeTable poly) c p = crc_bytes poly c (take 8 p)"
proof -
  have t: "tab_at (slicingMakeTable poly ! j) x = steps poly (8 * j + 8) (take_bit 8 x)" if "j < 8" for j x
    using that by (simp add: slicingMakeTable_def slicing_table_steps)
  have le: "LEUint32 (take 8 p) = LEUint32 p" using assms by (simp add: LEUint32_def)
  show ?thesis using assms crc_bytes_8 [of "take 8 p" poly c] steps_64 [of poly "c XOR LEUint32 p"]
    by (simp add: slice8_def Let_def t le take_byte xor.assoc xor.left_commute xor.commute)
qed

lemma crc_bytes_append: "crc_bytes poly c (p @ q) = crc_bytes poly (crc_bytes poly c p) q"
  by (simp add: crc_bytes_def)

lemma slicing_loop_bits:
  "slicing_loop (slicingMakeTable poly) c p = (c', q) \<Longrightarrow> crc_bytes poly c p = crc_bytes poly c' q"
proof (induction "slicingMakeTable poly" c p rule: slicing_loop.induct)
  case (1 c p)
  show ?case
  proof (cases "length p > 8")
    case True
    then have "slicing_loop (slicingMakeTable poly) (slice8 (slicingMakeTable poly) c p) (drop 8 p) = (c', q)"
      using "1.prems" by (subst (asm) slicing_loop.simps) simp
    from "1.hyps" [OF True this] show ?thesis
      using True crc_bytes_append [of poly c "take 8 p" "drop 8 p"] slice8_bits [of p poly c] by simp
  qed (use "1.prems" in \<open>simp add: slicing_loop.simps\<close>)
qed

lemma crc_Update_bits: "crc_Update crc p = NOT (crc_bytes IEEE (NOT crc) p)"
proof (cases "p = []")
  case True
  then show ?thesis by (simp add: crc_Update_def slicingUpdate_def slicing8Cutoff_def crc_bytes_def)
next
  case False
  have t: "slicingMakeTable IEEE ! 0 = simplePopulateTable IEEE" by (simp add: slicingMakeTable_def)
  obtain c q where l: "slicing_loop (slicingMakeTable IEEE) (NOT crc) p = (c, q)" by fastforce
  show ?thesis using slicing_loop_bits [OF l] l False
    by (cases "q = []") (auto simp: crc_Update_def slicingUpdate_def t simpleUpdate_bits crc_bytes_def)
qed

section \<open>What the checksum finds\<close>

lemma xor_inj: "a XOR c = b XOR c \<longleftrightarrow> a = b" for a b c :: w32
  by (auto simp: bit_eq_iff bit_xor_iff)

lemma crc_step_inj:
  assumes "crc_step IEEE a = crc_step IEEE b"
  shows "a = b"
proof -
  have top: "bit (crc_step IEEE x) 31 \<longleftrightarrow> bit x 0" for x
    by (auto simp: crc_step_def and_one bit_xor_iff bit_drop_bit_eq IEEE_def dest: bit_imp_le_length)
  then have b0: "bit a 0 = bit b 0" using assms by metis
  then have "drop_bit 1 a = drop_bit 1 b" using assms by (auto simp: crc_step_def and_one xor_inj split: if_splits)
  then have "bit a (Suc n) = bit b (Suc n)" for n by (metis bit_drop_bit_eq comp_apply plus_1_eq_Suc)
  then have "bit a n = bit b n" for n using b0 by (cases n) auto
  then show ?thesis by (simp add: bit_eq_iff)
qed

lemma steps_inj: "steps IEEE n a = steps IEEE n b \<longleftrightarrow> a = b"
  by (induction n) (auto dest: crc_step_inj)

lemma crc_bytes_inj: "crc_bytes IEEE a p = crc_bytes IEEE b p \<longleftrightarrow> a = b"
  by (induction p arbitrary: a b) (simp_all add: crc_bytes_def steps_inj xor_inj del: funpow.simps)

lemma byte_word_inj: "(byte_word a :: w32) = byte_word b \<longleftrightarrow> a = b"
proof
  assume "(byte_word a :: w32) = byte_word b"
  then have "uint (byte_word a :: w32) = uint (byte_word b :: w32)" by simp
  moreover have "(of_char v :: int) mod 2 ^ 32 = of_char v" for v
  proof -
    have "(of_char v :: int) = int (of_char v)" by (rule of_nat_of_char [symmetric])
    moreover have "int (of_char v) < 256" using nat_of_char_less_256 [of v] by linarith
    then have "int (of_char v) < 2 ^ 32" by (rule less_trans) simp
    ultimately show ?thesis by (simp only: mod_pos_pos_trivial of_nat_0_le_iff)
  qed
  ultimately show "a = b" by (simp add: byte_word_def uint_word_of_int)
qed simp

text \<open>
  C31. \<open>crc32.Update\<close>, with its tables and eight bytes a turn, is the division by the IEEE polynomial
  bit by bit, for every register and every length; a message can be given in parts, and two
  messages that differ in one byte never have the same checksum.
\<close>

theorem crc_Update_correct:
  "crc_Update crc p = NOT (crc_bytes IEEE (NOT crc) p) \<and> crc_Update (crc_Update crc p) q = crc_Update crc (p @ q) \<and>
   (ChecksumIEEE (p @ a # q) = ChecksumIEEE (p @ b # q) \<longleftrightarrow> a = b)"
proof -
  have c: "crc_bytes IEEE c (v # q) = crc_bytes IEEE (steps IEEE 8 (byte_word v XOR c)) q" for c v
    by (simp add: crc_bytes_def xor.commute)
  have n: "NOT x = NOT y \<longleftrightarrow> x = y" for x y :: w32 by (metis bit.double_compl)
  have "ChecksumIEEE (p @ a # q) = ChecksumIEEE (p @ b # q) \<longleftrightarrow> a = b"
    by (simp only: ChecksumIEEE_def crc_Update_bits crc_bytes_append n c crc_bytes_inj steps_inj xor_inj byte_word_inj)
  then show ?thesis by (simp add: crc_Update_bits crc_bytes_append)
qed

end
