(* ===== verification/Gzip.thy ===== *)
theory Gzip
  imports Flate Crc32 GoUtf8
begin

unbundle bit_operations_syntax

text \<open>
  Model of \<open>compress/gzip/gunzip.go\<close>: the header with its optional fields, the trailer with checksum and
  size, and the sequence of members. The reader below is the \<open>bytes.Reader\<close> of the archive, which the
  gzip reader and the inflater share: \<open>z_r\<close> holds the bytes that it still has.
\<close>

section \<open>State\<close>

definition ErrChecksum :: error where "ErrChecksum = SentinelError ''gzip: invalid checksum''"
definition ErrHeader :: error where "ErrHeader = SentinelError ''gzip: invalid header''"

definition gzipID1 :: char where "gzipID1 = CHR 0x1F"
definition gzipID2 :: char where "gzipID2 = CHR 0x8B"
definition gzipDeflate :: char where "gzipDeflate = CHR 0x08"
definition flagHdrCrc :: nat where "flagHdrCrc = 2"
definition flagExtra :: nat where "flagExtra = 4"
definition flagName :: nat where "flagName = 8"
definition flagComment :: nat where "flagComment = 16"

text \<open>The modification time is the number of seconds, or \<open>None\<close> for the zero value.\<close>

record gzHeader =
  gz_Comment :: string
  gz_Extra :: bytes
  gz_ModTime :: "nat option"
  gz_Name :: string
  gz_OS :: char

record gzReader =
  z_Header :: gzHeader
  z_r :: bytes
  z_decompressor :: "decompressor option"
  z_digest :: "32 word"
  z_size :: "32 word"
  z_err :: "error option"
  z_multistream :: bool

definition empty_gzHeader :: gzHeader where
  "empty_gzHeader = \<lparr>gz_Comment = [], gz_Extra = [], gz_ModTime = None, gz_Name = [], gz_OS = CHR 0x00\<rparr>"

section \<open>The header\<close>

definition z_ReadFull :: "nat \<Rightarrow> gzReader \<Rightarrow> bytes \<times> error option \<times> gzReader" where
  "z_ReadFull n z = (case ReadFull n (bytes_Reader (z_r z)) of (buf, e, s) \<Rightarrow> (buf, e, z\<lparr>z_r := s_bytes s\<rparr>))"

definition z_digest_add :: "bytes \<Rightarrow> gzReader \<Rightarrow> gzReader" where
  "z_digest_add bs z = z\<lparr>z_digest := crc_Update (z_digest z) bs\<rparr>"

definition LEUint16 :: "bytes \<Rightarrow> nat" where
  "LEUint16 b = of_char (b ! 0) OR push_bit 8 (of_char (b ! 1))"

text \<open>The loop of \<open>readString\<close>: a string, its terminator excluded, and what is left; it fits the buffer of 512 bytes.\<close>

fun string_loop :: "nat \<Rightarrow> bytes \<Rightarrow> bytes \<Rightarrow> bytes result \<times> bytes" where
  "string_loop i acc r =
     (if i \<ge> 512 then (Inl ErrHeader, r)
      else
        (case r of
           [] \<Rightarrow> (Inl io_EOF, [])
         | c # r' \<Rightarrow> if c = CHR 0x00 then (Inr acc, r') else string_loop (i + 1) (acc @ [c]) r'))"

declare string_loop.simps [simp del]

text \<open>Latin-1 as UTF-8.\<close>

definition latin1 :: "bytes \<Rightarrow> string" where
  "latin1 b = (if \<exists>c \<in> set b. byte c > 0x7F then foldl AppendRune [] (map byte b) else b)"

definition readString :: "gzReader \<Rightarrow> string result \<times> gzReader" where
  "readString z =
     (case string_loop 0 [] (z_r z) of
        (Inl e, r) \<Rightarrow> (Inl e, z\<lparr>z_r := r\<rparr>)
      | (Inr b, r) \<Rightarrow> (Inr (latin1 b), z_digest_add (b @ [CHR 0x00]) (z\<lparr>z_r := r\<rparr>)))"

text \<open>The optional parts of the header, in order; each returns an error, the header and the reader.\<close>

definition read_extra :: "nat \<Rightarrow> gzHeader \<Rightarrow> gzReader \<Rightarrow> error option \<times> gzHeader \<times> gzReader" where
  "read_extra flg hdr z =
     (if flg AND flagExtra \<noteq> 0 then
        (case z_ReadFull 2 z of
           (_, Some e, z) \<Rightarrow> (Some (noEOF e), hdr, z)
         | (buf, None, z) \<Rightarrow>
             let z = z_digest_add buf z in
             (case z_ReadFull (LEUint16 buf) z of
                (_, Some e, z) \<Rightarrow> (Some (noEOF e), hdr, z)
              | (data, None, z) \<Rightarrow> (None, hdr\<lparr>gz_Extra := data\<rparr>, z_digest_add data z)))
      else (None, hdr, z))"

definition read_name :: "nat \<Rightarrow> gzHeader \<Rightarrow> gzReader \<Rightarrow> error option \<times> gzHeader \<times> gzReader" where
  "read_name flg hdr z =
     (if flg AND flagName \<noteq> 0 then
        (case readString z of
           (Inl e, z) \<Rightarrow> (Some (noEOF e), hdr, z)
         | (Inr s, z) \<Rightarrow> (None, hdr\<lparr>gz_Name := s\<rparr>, z))
      else (None, hdr, z))"

definition read_comment :: "nat \<Rightarrow> gzHeader \<Rightarrow> gzReader \<Rightarrow> error option \<times> gzHeader \<times> gzReader" where
  "read_comment flg hdr z =
     (if flg AND flagComment \<noteq> 0 then
        (case readString z of
           (Inl e, z) \<Rightarrow> (Some (noEOF e), hdr, z)
         | (Inr s, z) \<Rightarrow> (None, hdr\<lparr>gz_Comment := s\<rparr>, z))
      else (None, hdr, z))"

definition read_hdrcrc :: "nat \<Rightarrow> gzHeader \<Rightarrow> gzReader \<Rightarrow> error option \<times> gzHeader \<times> gzReader" where
  "read_hdrcrc flg hdr z =
     (if flg AND flagHdrCrc \<noteq> 0 then
        (case z_ReadFull 2 z of
           (_, Some e, z) \<Rightarrow> (Some (noEOF e), hdr, z)
         | (buf, None, z) \<Rightarrow>
             if (word_of_nat (LEUint16 buf) :: 16 word) \<noteq> ucast (z_digest z) then (Some ErrHeader, hdr, z) else (None, hdr, z))
      else (None, hdr, z))"

definition then_read :: "error option \<times> gzHeader \<times> gzReader \<Rightarrow> (gzHeader \<Rightarrow> gzReader \<Rightarrow> error option \<times> gzHeader \<times> gzReader) \<Rightarrow> error option \<times> gzHeader \<times> gzReader" where
  "then_read m k = (case m of (Some e, hdr, z) \<Rightarrow> (Some e, hdr, z) | (None, hdr, z) \<Rightarrow> k hdr z)"

definition start_inflater :: "gzReader \<Rightarrow> gzReader" where
  "start_inflater z =
     z\<lparr>z_digest := 0,
       z_decompressor := Some (case z_decompressor z of None \<Rightarrow> flate_NewReader (z_r z) | Some f \<Rightarrow> flate_Reset (z_r z) f)\<rparr>"

definition gz_readHeader :: "gzReader \<Rightarrow> error option \<times> gzHeader \<times> gzReader" where
  "gz_readHeader z0 =
     (case z_ReadFull 10 z0 of
        (_, Some e, z) \<Rightarrow> (Some e, empty_gzHeader, z)
      | (buf, None, z) \<Rightarrow>
          if buf ! 0 \<noteq> gzipID1 \<or> buf ! 1 \<noteq> gzipID2 \<or> buf ! 2 \<noteq> gzipDeflate then (Some ErrHeader, empty_gzHeader, z)
          else
            (let flg = of_char (buf ! 3); t = unat (LEUint32 (take 4 (drop 4 buf)));
                 hdr = empty_gzHeader\<lparr>gz_ModTime := (if t > 0 then Some t else None), gz_OS := buf ! 9\<rparr>;
                 z = z\<lparr>z_digest := ChecksumIEEE buf\<rparr>
             in then_read (then_read (then_read (then_read (read_extra flg hdr z) (read_name flg)) (read_comment flg)) (read_hdrcrc flg))
                  (\<lambda>hdr z. (None, hdr, start_inflater z))))"

section \<open>Reading\<close>

text \<open>\<open>z.decompressor.Read\<close>, which reads on where the shared reader stands.\<close>

definition z_inflate :: "nat \<Rightarrow> gzReader \<Rightarrow> (bytes \<times> error option \<times> gzReader) option" where
  "z_inflate n z =
     (case z_decompressor z of
        None \<Rightarrow> None
      | Some f \<Rightarrow>
          (case flate_Read n (f\<lparr>f_r := z_r z\<rparr>) of
             None \<Rightarrow> None
           | Some (b, e, f1) \<Rightarrow> Some (b, e, z\<lparr>z_decompressor := Some f1, z_r := f_r f1\<rparr>)))"

text \<open>
  The end of a member: checksum and size, and the header of the next member. An error, which is
  the result of \<open>Read\<close>, or \<open>None\<close> to go on with the next member.
\<close>

definition next_member :: "gzReader \<Rightarrow> error option \<times> gzReader" where
  "next_member z0 =
     (case z_ReadFull 8 z0 of
        (_, Some e, z) \<Rightarrow> (Some (noEOF e), z\<lparr>z_err := Some (noEOF e)\<rparr>)
      | (buf, None, z) \<Rightarrow>
          let digest = LEUint32 (take 4 buf); sz = LEUint32 (take 4 (drop 4 buf)) in
          if digest \<noteq> z_digest z \<or> sz \<noteq> z_size z then (Some ErrChecksum, z\<lparr>z_err := Some ErrChecksum\<rparr>)
          else
            (let z = z\<lparr>z_digest := 0, z_size := 0\<rparr> in
             if \<not> z_multistream z then (Some io_EOF, z)
             else (case gz_readHeader (z\<lparr>z_err := None\<rparr>) of (e, _, z) \<Rightarrow> (e, z\<lparr>z_err := e\<rparr>))))"

partial_function (option) gz_loop :: "nat \<Rightarrow> gzReader \<Rightarrow> (bytes \<times> error option \<times> gzReader) option" where
  "gz_loop n z =
     (case z_inflate n z of
        None \<Rightarrow> None
      | Some (b, e, z1) \<Rightarrow>
          let z2 = z1\<lparr>z_err := e, z_digest := crc_Update (z_digest z1) b, z_size := z_size z1 + word_of_nat (length b)\<rparr> in
          if e \<noteq> Some io_EOF then Some (b, e, z2)
          else
            (case next_member z2 of
               (Some e, z3) \<Rightarrow> Some (b, Some e, z3)
             | (None, z3) \<Rightarrow> if b = [] then gz_loop n z3 else Some (b, None, z3)))"

definition gz_Read :: "nat \<Rightarrow> gzReader \<Rightarrow> (bytes \<times> error option \<times> gzReader) option" where
  "gz_Read n z = (if z_err z \<noteq> None then Some ([], z_err z, z) else gz_loop n z)"

definition gz_NewReader :: "bytes \<Rightarrow> gzReader result" where
  "gz_NewReader r =
     (let z = \<lparr>z_Header = empty_gzHeader, z_r = r, z_decompressor = None, z_digest = 0, z_size = 0, z_err = None, z_multistream = True\<rparr> in
      case gz_readHeader z of
        (Some e, _, _) \<Rightarrow> Inl e
      | (None, hdr, z1) \<Rightarrow> Inr (z1\<lparr>z_Header := hdr\<rparr>))"

end
