(* ===== verification/FlateRef.thy ===== *)
theory FlateRef
  imports Flate "HOL-Library.Monad_Syntax"
begin

unbundle bit_operations_syntax

text \<open>
  The DEFLATE format of RFC 1951 as a decoder of bit lists, which knows neither windows nor registers
  nor buffers: the reference for the inflater. The tables of lengths and distances are those of
  the RFC, the fixed code for distances is a code of 32 symbols with five bits each. \<open>None\<close> means
  that the bits are not the beginning of a valid stream.
\<close>

section \<open>Numbers and symbols\<close>

type_synonym bits = "bool list"

definition num :: "bits \<Rightarrow> nat" where
  "num bs = horner_sum of_bool 2 bs"

definition take_num :: "nat \<Rightarrow> bits \<Rightarrow> (nat \<times> bits) option" where
  "take_num n bs = (if n \<le> length bs then Some (num (take n bs), drop n bs) else None)"

fun take_nums :: "nat \<Rightarrow> nat \<Rightarrow> bits \<Rightarrow> (nat list \<times> bits) option" where
  "take_nums 0 n bs = Some ([], bs)"
| "take_nums (Suc k) n bs = do { (v, bs) \<leftarrow> take_num n bs; (vs, bs) \<leftarrow> take_nums k n bs; Some (v # vs, bs) }"

text \<open>A code word is in the stream from its most significant bit on.\<close>

definition code_bits :: "nat list \<Rightarrow> nat \<Rightarrow> bits" where
  "code_bits ls i = rev (map (bit (code_of ls i)) [0..<ls ! i])"

definition take_sym :: "nat list \<Rightarrow> bits \<Rightarrow> (nat \<times> bits) option" where
  "take_sym ls bs =
     (case find (\<lambda>i. ls ! i > 0 \<and> prefix (code_bits ls i) bs) [0..<length ls] of
        None \<Rightarrow> None
      | Some i \<Rightarrow> Some (i, drop (ls ! i) bs))"

lemma num_less: "num bs < 2 ^ length bs"
proof (induction bs)
  case (Cons b bs)
  then show ?case by (cases b) (simp_all add: num_def)
qed (simp add: num_def)

lemma take_num_less: "take_num n bs = Some (v, bs') \<Longrightarrow> v < 2 ^ n"
  using num_less [of "take n bs"] by (auto simp: take_num_def min_def split: if_splits)

lemma take_sym_Some: "take_sym ls bs = Some (i, bs') \<Longrightarrow> length bs = length bs' + ls ! i \<and> ls ! i > 0 \<and> i < length ls"
  by (auto simp: take_sym_def find_Some_iff code_bits_def dest!: prefix_length_le split: option.splits)

lemma take_num_len: "take_num n bs = Some (v, bs') \<Longrightarrow> length bs = length bs' + n"
  by (auto simp: take_num_def split: if_splits)

lemma take_sym_len: "take_sym ls bs = Some (i, bs') \<Longrightarrow> length bs' < length bs"
  using take_sym_Some [of ls bs i bs'] by simp

section \<open>Dynamic codes\<close>

text \<open>The lengths of \<open>n\<close> codes, after those in \<open>acc\<close>.\<close>

function take_lengths :: "nat list \<Rightarrow> nat \<Rightarrow> bits \<Rightarrow> nat list \<Rightarrow> (nat list \<times> bits) option" where
  "take_lengths cl n bs acc =
     (if length acc < n then
        (case take_sym cl bs of
           None \<Rightarrow> None
         | Some (x, bs1) \<Rightarrow>
             if x < 16 then take_lengths cl n bs1 (acc @ [x])
             else if x = 16 \<and> acc = [] then None
             else
               (let (base, k, v) = (if x = 16 then (3, 2, last acc) else if x = 17 then (3, 3, 0) else (11, 7, 0)) in
                case take_num k bs1 of
                  None \<Rightarrow> None
                | Some (m, bs2) \<Rightarrow>
                    if length acc + (base + m) > n then None else take_lengths cl n bs2 (acc @ replicate (base + m) v)))
      else Some (acc, bs))"
  by pat_completeness auto
termination
  by (relation "measure (\<lambda>(cl, n, bs, acc). length bs)") (auto dest!: take_num_len take_sym_len)

declare take_lengths.simps [simp del]

definition take_tables :: "bits \<Rightarrow> (nat list \<times> nat list \<times> bits) option" where
  "take_tables bs =
     do {
       (hlit, bs) \<leftarrow> take_num 5 bs;
       (hdist, bs) \<leftarrow> take_num 5 bs;
       (hclen, bs) \<leftarrow> take_num 4 bs;
       let nlit = hlit + 257;
       let ndist = hdist + 1;
       if nlit > 286 \<or> ndist > 30 then None else do {
         (vs, bs) \<leftarrow> take_nums (hclen + 4) 3 bs;
         let cl = foldl (\<lambda>a (j, v). a[j := v]) (replicate 19 0) (zip codeOrder vs);
         if \<not> good_code cl then None else do {
           (ls, bs) \<leftarrow> take_lengths cl (nlit + ndist) bs [];
           if good_code (take nlit ls) \<and> good_code (drop nlit ls) then Some (take nlit ls, drop nlit ls, bs) else None
         }
       }
     }"

section \<open>Blocks\<close>

definition length_base :: "nat list" where
  "length_base = [3, 4, 5, 6, 7, 8, 9, 10, 11, 13, 15, 17, 19, 23, 27, 31, 35, 43, 51, 59, 67, 83, 99, 115, 131, 163, 195, 227, 258]"

definition length_extra :: "nat list" where
  "length_extra = [0, 0, 0, 0, 0, 0, 0, 0, 1, 1, 1, 1, 2, 2, 2, 2, 3, 3, 3, 3, 4, 4, 4, 4, 5, 5, 5, 5, 0]"

definition dist_base :: "nat list" where
  "dist_base = [1, 2, 3, 4, 5, 7, 9, 13, 17, 25, 33, 49, 65, 97, 129, 193, 257, 385, 513, 769, 1025, 1537, 2049, 3073, 4097, 6145,
     8193, 12289, 16385, 24577]"

definition dist_extra :: "nat list" where
  "dist_extra = [0, 0, 0, 0, 1, 1, 2, 2, 3, 3, 4, 4, 5, 5, 6, 6, 7, 7, 8, 8, 9, 9, 10, 10, 11, 11, 12, 12, 13, 13]"

definition take_length :: "nat \<Rightarrow> bits \<Rightarrow> (nat \<times> bits) option" where
  "take_length v bs =
     (if v - 257 < 29 then do { (x, bs) \<leftarrow> take_num (length_extra ! (v - 257)) bs; Some (length_base ! (v - 257) + x, bs) } else None)"

definition take_dist :: "nat list \<Rightarrow> bits \<Rightarrow> (nat \<times> bits) option" where
  "take_dist ds bs =
     do {
       (d, bs) \<leftarrow> take_sym ds bs;
       if d < 30 then do { (x, bs) \<leftarrow> take_num (dist_extra ! d) bs; Some (dist_base ! d + x, bs) } else None
     }"

text \<open>The symbols of a block up to its end, after the output \<open>out\<close>.\<close>

function take_syms :: "nat list \<Rightarrow> nat list \<Rightarrow> bits \<Rightarrow> bytes \<Rightarrow> (bits \<times> bytes) option" where
  "take_syms ls ds bs out =
     (case take_sym ls bs of
        None \<Rightarrow> None
      | Some (v, bs1) \<Rightarrow>
          if v < 256 then take_syms ls ds bs1 (out @ [char_of v])
          else if v = 256 then Some (bs1, out)
          else
            (case take_length v bs1 of
               None \<Rightarrow> None
             | Some (len, bs2) \<Rightarrow>
                 (case take_dist ds bs2 of
                    None \<Rightarrow> None
                  | Some (dist, bs3) \<Rightarrow> if dist > length out then None else take_syms ls ds bs3 (lz_copy dist len out))))"
  by pat_completeness auto
termination
  by (relation "measure (\<lambda>(ls, ds, bs, out). length bs)")
    (auto simp: take_length_def take_dist_def Option.bind_eq_Some_conv split: if_splits dest!: take_num_len take_sym_len)

declare take_syms.simps [simp del]

definition fixed_dists :: "nat list" where
  "fixed_dists = replicate 32 5"

fun take_bytes :: "nat \<Rightarrow> bits \<Rightarrow> (bytes \<times> bits) option" where
  "take_bytes 0 bs = Some ([], bs)"
| "take_bytes (Suc n) bs = do { (c, bs) \<leftarrow> take_num 8 bs; (cs, bs) \<leftarrow> take_bytes n bs; Some (char_of c # cs, bs) }"

text \<open>A stored block begins at the next byte of the input, which ends with a whole byte.\<close>

definition take_stored :: "bits \<Rightarrow> bytes \<Rightarrow> (bits \<times> bytes) option" where
  "take_stored bs out =
     do {
       (len, bs) \<leftarrow> take_num 16 (drop (length bs mod 8) bs);
       (nlen, bs) \<leftarrow> take_num 16 bs;
       if nlen \<noteq> 65535 - len then None else do { (cs, bs) \<leftarrow> take_bytes len bs; Some (bs, out @ cs) }
     }"

definition take_block :: "nat \<Rightarrow> bits \<Rightarrow> bytes \<Rightarrow> (bits \<times> bytes) option" where
  "take_block kind bs out =
     (if kind = 0 then take_stored bs out
      else if kind = 1 then take_syms fixed_lengths fixed_dists bs out
      else if kind = 2 then do { (ls, ds, bs) \<leftarrow> take_tables bs; take_syms ls ds bs out }
      else None)"

lemma take_length_Some:
  assumes "take_length v bs = Some (len, bs')"
  shows "length bs' \<le> length bs \<and> len \<le> 258"
proof -
  obtain x where x: "v - 257 < 29" "take_num (length_extra ! (v - 257)) bs = Some (x, bs')" "len = length_base ! (v - 257) + x"
    using assms by (auto simp: take_length_def Option.bind_eq_Some_conv split: if_splits)
  have "\<forall>k \<in> set [0..<29]. length_base ! k + 2 ^ (length_extra ! k) \<le> 259" by code_simp
  then have "length_base ! (v - 257) + 2 ^ (length_extra ! (v - 257)) \<le> 259" using x(1) by simp
  then show ?thesis using take_num_less [OF x(2)] take_num_len [OF x(2)] x(3) by simp
qed

lemma take_dist_Some: "take_dist ds bs = Some (d, bs') \<Longrightarrow> length bs' \<le> length bs"
  by (auto simp: take_dist_def Option.bind_eq_Some_conv split: if_splits dest!: take_num_len take_sym_len)

text \<open>A block takes the code for its end, and gives at most 258 bytes for a bit.\<close>

lemma take_syms_length:
  "take_syms ls ds bs out = Some (bs', out') \<Longrightarrow> length bs' + ls ! 256 \<le> length bs \<and> length bs' < length bs \<and>
     length out' + 258 * length bs' \<le> length out + 258 * length bs"
proof (induction ls ds bs out rule: take_syms.induct)
  case (1 ls ds bs out)
  obtain v bs1 where v: "take_sym ls bs = Some (v, bs1)" using 1(3) by (subst (asm) take_syms.simps) (auto split: option.splits)
  note l = take_sym_Some [OF v]
  consider "v < 256" | "v = 256" | "\<not> v < 256" "v \<noteq> 256" by linarith
  then show ?case
  proof cases
    case 1
    then have "take_syms ls ds bs1 (out @ [char_of v]) = Some (bs', out')" using "1.prems" v by (subst (asm) take_syms.simps) simp
    then show ?thesis using "1.IH"(1) [OF v refl 1] l by simp
  next
    case 2
    then show ?thesis using "1.prems" v l by (subst (asm) take_syms.simps) auto
  next
    case 3
    obtain len bs2 dist bs3 where d: "take_length v bs1 = Some (len, bs2)" "take_dist ds bs2 = Some (dist, bs3)" "\<not> length out < dist"
        "take_syms ls ds bs3 (lz_copy dist len out) = Some (bs', out')"
      using "1.prems" v 3 by (subst (asm) take_syms.simps) (auto split: option.splits if_splits)
    show ?thesis using "1.IH"(2) [OF v refl 3 d(1) refl d(2) refl d(3,4)] l take_length_Some [OF d(1)] take_dist_Some [OF d(2)] by simp
  qed
qed

lemma take_bytes_Some: "take_bytes n bs = Some (cs, bs') \<Longrightarrow> length bs = length bs' + 8 * n \<and> length cs = n"
  by (induction n arbitrary: bs cs) (auto simp: Option.bind_eq_Some_conv dest!: take_num_len)

lemma take_lengths_Some: "take_lengths cl n bs acc = Some (ls, bs') \<Longrightarrow> length bs' \<le> length bs"
proof (induction cl n bs acc rule: take_lengths.induct)
  case (1 cl n bs acc)
  show ?case
  proof (cases "length acc < n")
    case True
    obtain x bs1 where v: "take_sym cl bs = Some (x, bs1)" using 1(3) True by (subst (asm) take_lengths.simps) (auto split: option.splits)
    note l = take_sym_Some [OF v]
    show ?thesis
    proof (cases "x < 16")
      case x: True
      then show ?thesis using 1(1) [OF True v refl x] 1(3) v True l by (subst (asm) (2) take_lengths.simps) simp
    next
      case False
      then have na: "\<not> (x = 16 \<and> acc = [])" using 1(3) v True by (subst (asm) take_lengths.simps) auto
      obtain base k w :: nat where w: "(if x = 16 then (3, 2, last acc) else if x = 17 then (3, 3, 0) else (11, 7, 0)) = (base, k, w)" by (metis prod_cases3)
      obtain m bs2 where m: "take_num k bs1 = Some (m, bs2)" "\<not> n < length acc + (base + m)" "take_lengths cl n bs2 (acc @ replicate (base + m) w) = Some (ls, bs')"
        using 1(3) True v False na w by (subst (asm) take_lengths.simps) (auto split: option.splits if_splits)
      show ?thesis using 1(2) [OF True v refl False na w [symmetric] refl refl m(1) refl m(2,3)] take_num_len [OF m(1)] l by simp
    qed
  qed (use 1(3) in \<open>subst (asm) take_lengths.simps, simp\<close>)
qed

lemma take_nums_Some: "take_nums k n bs = Some (vs, bs') \<Longrightarrow> length bs' \<le> length bs \<and> length vs = k"
  by (induction k arbitrary: bs vs) (fastforce simp: Option.bind_eq_Some_conv dest!: take_num_len)+

lemma take_tables_Some: "take_tables bs = Some (ls, ds, bs') \<Longrightarrow> length bs' \<le> length bs"
  by (auto simp: take_tables_def Let_def Option.bind_eq_Some_conv split: if_splits dest!: take_num_len take_nums_Some take_lengths_Some)

lemma take_block_length:
  assumes "take_block kind bs out = Some (bs', out')"
  shows "length bs' \<le> length bs \<and> length out' + 258 * length bs' \<le> length out + 258 * length bs"
  using assms
  by (auto simp: take_block_def take_stored_def Option.bind_eq_Some_conv split: if_splits dest!: take_num_len take_syms_length take_tables_Some take_bytes_Some)

text \<open>All blocks up to the final one.\<close>

function take_blocks :: "bits \<Rightarrow> bytes \<Rightarrow> (bits \<times> bytes) option" where
  "take_blocks bs out =
     (case take_num 1 bs of
        None \<Rightarrow> None
      | Some (final, bs1) \<Rightarrow>
          (case take_num 2 bs1 of
             None \<Rightarrow> None
           | Some (kind, bs2) \<Rightarrow>
               (case take_block kind bs2 out of
                  None \<Rightarrow> None
                | Some (bs3, out1) \<Rightarrow> if final = 1 then Some (bs3, out1) else take_blocks bs3 out1)))"
  by pat_completeness auto
termination
  by (relation "measure (\<lambda>(bs, out). length bs)") (auto dest!: take_num_len take_block_length)

declare take_blocks.simps [simp del]

text \<open>The bits of bytes, and the whole decoder: what follows the stream, in bytes, and the output.\<close>

definition byte_bits :: "char \<Rightarrow> bits" where
  "byte_bits c = map (bit (of_char c :: nat)) [0..<8]"

definition bits_of_bytes :: "bytes \<Rightarrow> bits" where
  "bits_of_bytes bs = concat (map byte_bits bs)"

definition deflate_ref :: "bytes \<Rightarrow> (bytes \<times> bytes) option" where
  "deflate_ref r =
     (case take_blocks (bits_of_bytes r) [] of
        None \<Rightarrow> None
      | Some (rest, out) \<Rightarrow> Some (out, drop (length r - length rest div 8) r))"

text \<open>The output is at most 2064 times as long as the input.\<close>

lemma take_blocks_length: "take_blocks bs out = Some (bs', out') \<Longrightarrow> length bs' \<le> length bs \<and> length out' + 258 * length bs' \<le> length out + 258 * length bs"
proof (induction bs out rule: take_blocks.induct)
  case (1 bs out)
  obtain fi bs1 kind bs2 bs3 out1 where d: "take_num 1 bs = Some (fi, bs1)" "take_num 2 bs1 = Some (kind, bs2)" "take_block kind bs2 out = Some (bs3, out1)"
    using 1(2) by (subst (asm) take_blocks.simps) (auto split: option.splits)
  note l = take_num_len [OF d(1)] take_num_len [OF d(2)] take_block_length [OF d(3)]
  show ?case
  proof (cases "fi = 1")
    case True
    then show ?thesis using 1(2) d l by (subst (asm) take_blocks.simps) auto
  next
    case False
    then show ?thesis using 1(1) [OF d(1) refl d(2) refl d(3) refl False] 1(2) d l by (subst (asm) (2) take_blocks.simps) auto
  qed
qed

lemma length_bits_of_bytes [simp]: "length (bits_of_bytes bs) = 8 * length bs"
  by (induction bs) (auto simp: bits_of_bytes_def byte_bits_def)

lemma deflate_ref_length: "deflate_ref r = Some (out, rest) \<Longrightarrow> length out \<le> 2064 * length r \<and> length rest \<le> length r"
  by (auto simp: deflate_ref_def dest!: take_blocks_length split: option.splits)

end
