(* ===== verification/FlateBits.thy ===== *)
theory FlateBits
  imports FlateRef
begin

unbundle bit_operations_syntax

text \<open>
  The register of the inflater and its tables against the bits of the input: reading a number is
  \<open>take_num\<close>, and \<open>huffSym\<close> with the tables of a code is \<open>take_sym\<close>, with bounds for the bits that stay
  in the register.
\<close>

section \<open>The register\<close>

definition bits_of :: "decompressor \<Rightarrow> bits" where
  "bits_of f = map (bit (f_b f)) [0..<f_nb f] @ bits_of_bytes (f_r f)"

definition reg :: "decompressor \<Rightarrow> bool" where
  "reg f \<longleftrightarrow> (\<forall>i. bit (f_b f) i \<longrightarrow> i < f_nb f)"

text \<open>Only the input side has changed; or also the error.\<close>

definition bitio :: "decompressor \<Rightarrow> decompressor \<Rightarrow> bool" where
  "bitio f f' \<longleftrightarrow>
     f'\<lparr>f_r := [], f_roffset := 0, f_b := 0, f_nb := 0\<rparr> = f\<lparr>f_r := [], f_roffset := 0, f_b := 0, f_nb := 0\<rparr>"

definition bitioe :: "decompressor \<Rightarrow> decompressor \<Rightarrow> bool" where
  "bitioe f f' \<longleftrightarrow> (\<exists>g e. bitio f g \<and> f' = g\<lparr>f_err := e\<rparr>)"

lemma bitio_refl [simp]: "bitio f f"
  by (simp add: bitio_def)

lemma bitio_trans [trans]: "bitio f g \<Longrightarrow> bitio g h \<Longrightarrow> bitio f h"
  by (auto simp: bitio_def)

lemma bitio_e [simp]: "bitio f g \<Longrightarrow> bitioe f g"
  unfolding bitioe_def by (intro exI [of _ g] exI [of _ "f_err g"]) simp

lemma bitio_bitioe: "bitio f g \<Longrightarrow> bitioe g h \<Longrightarrow> bitioe f h"
  unfolding bitioe_def using bitio_trans by blast

lemma bitio_sel:
  assumes "bitio f g"
  shows "f_dict g = f_dict f" "f_step g = f_step f" "f_stepState g = f_stepState f" "f_final g = f_final f" "f_err g = f_err f"
    "f_toRead g = f_toRead f" "f_hl g = f_hl f" "f_hd g = f_hd f" "f_copyLen g = f_copyLen f" "f_copyDist g = f_copyDist f"
    "f_h1 g = f_h1 f" "f_h2 g = f_h2 f" "f_bits g = f_bits f" "f_codebits g = f_codebits f" "htab t g = htab t f"
  using assms unfolding bitio_def by (cases f; cases g; cases t; simp add: htab_def)+

lemma bitioe_sel:
  assumes "bitioe f g"
  shows "f_dict g = f_dict f" "f_step g = f_step f" "f_stepState g = f_stepState f" "f_final g = f_final f"
    "f_toRead g = f_toRead f" "f_hl g = f_hl f" "f_hd g = f_hd f" "f_copyLen g = f_copyLen f" "f_copyDist g = f_copyDist f"
    "f_h1 g = f_h1 f" "f_h2 g = f_h2 f" "f_bits g = f_bits f" "f_codebits g = f_codebits f"
  using assms by (auto simp: bitioe_def bitio_sel)

lemma noEOF_EOF [simp]: "noEOF e \<noteq> io_EOF"
  by (auto simp: noEOF_def io_EOF_def ErrUnexpectedEOF_def)

lemma length_bits_of [simp]: "length (bits_of f) = avail f"
  by (simp add: bits_of_def avail_def)

lemma char_bits: "bit (of_char c :: nat) j \<Longrightarrow> j < 8"
proof (rule ccontr)
  assume b: "bit (of_char c :: nat) j" and "\<not> j < 8"
  then have "(256 :: nat) \<le> 2 ^ j" using power_increasing [of 8 j "2 :: nat"] by simp
  then have "(of_char c :: nat) < 2 ^ j" using nat_of_char_less_256 [of c] by linarith
  then show False using b by (simp add: bit_iff_odd)
qed

lemma bit_char [simp]: "bit (of_char c :: 32 word) j \<longleftrightarrow> bit (of_char c :: nat) j"
proof -
  have "of_char c = (of_nat (of_char c) :: 32 word)" by (simp only: of_nat_of_char)
  moreover note char_bits [of c j]
  ultimately show ?thesis by (auto simp: bit_of_nat_iff)
qed

lemma moreBits_ok:
  assumes "reg f" "f_nb f \<le> 24" "f_r f = c # r"
  shows "\<exists>g. moreBits f = (None, g) \<and> bitio f g \<and> reg g \<and> bits_of g = bits_of f \<and> f_nb g = f_nb f + 8 \<and> f_r g = r"
proof -
  let ?g = "f\<lparr>f_r := r, f_roffset := f_roffset f + 1, f_b := f_b f OR push_bit (f_nb f) (of_char c), f_nb := f_nb f + 8\<rparr>"
  note c8 = char_bits
  have b: "bit (f_b f OR push_bit (f_nb f) (of_char c)) i \<longleftrightarrow> bit (f_b f) i \<or> (f_nb f \<le> i \<and> bit (of_char c :: nat) (i - f_nb f))" for i
    using assms(2) c8 [of c "i - f_nb f"] by (auto simp: bit_or_iff bit_push_bit_iff)
  have "map (bit (f_b ?g)) [0..<f_nb f + 8] = map (bit (f_b f)) [0..<f_nb f] @ byte_bits c"
    by (rule nth_equalityI) (use assms(1) in \<open>auto simp: b nth_append byte_bits_def reg_def simp del: decompressor.simps\<close>)
  then have "bits_of ?g = bits_of f" using assms(3) by (simp add: bits_of_def bits_of_bytes_def)
  moreover have "reg ?g" using assms(1) c8 by (fastforce simp: reg_def b)
  moreover have "bitio f ?g" by (simp add: bitio_def)
  ultimately show ?thesis using assms(3) by (simp add: moreBits_def)
qed

lemma need_ok:
  assumes "reg f" "f_nb f \<le> 24" "n \<le> 24"
  shows "\<exists>e g. need n f = (e, g) \<and> bitio f g \<and>
    (if n \<le> avail f then e = None \<and> reg g \<and> bits_of g = bits_of f \<and> n \<le> f_nb g \<and> f_nb g \<le> max (f_nb f) (n + 7)
     else \<exists>x. e = Some x \<and> x \<noteq> io_EOF)"
  using assms
proof (induction "length (f_r f)" arbitrary: f)
  case 0
  then show ?case by (subst need.simps) (auto simp: moreBits_def avail_def)
next
  case (Suc k)
  then obtain c r where r: "f_r f = c # r" by (cases "f_r f") auto
  show ?case
  proof (cases "f_nb f < n")
    case True
    obtain g where g: "moreBits f = (None, g)" "bitio f g" "reg g" "bits_of g = bits_of f" "f_nb g = f_nb f + 8" "f_r g = r"
      using moreBits_ok [OF Suc.prems(1,2) r] by blast
    then have "avail g = avail f" by (metis length_bits_of)
    moreover have "need n f = need n g" using True g(1) by (subst need.simps) simp
    moreover have "k = length (f_r g)" "f_nb g \<le> 24 \<or> n \<le> f_nb g" using Suc.hyps(2) g r Suc.prems(3) by auto
    moreover have "\<exists>e g'. need n g = (e, g') \<and> bitio g g' \<and>
        (if n \<le> avail g then e = None \<and> reg g' \<and> bits_of g' = bits_of g \<and> n \<le> f_nb g' \<and> f_nb g' \<le> max (f_nb g) (n + 7)
         else \<exists>x. e = Some x \<and> x \<noteq> io_EOF)"
    proof (cases "n \<le> f_nb g")
      case True
      then show ?thesis using g(3) by (subst need.simps) (auto simp: avail_def)
    next
      case False
      then show ?thesis using Suc.hyps(1) [of g] g(3) Suc.prems(3) \<open>k = length (f_r g)\<close> by simp
    qed
    ultimately show ?thesis using g(2,4,5) True by (auto simp: max_def dest: bitio_trans split: if_splits)
  next
    case False
    then show ?thesis using Suc.prems by (subst need.simps) (auto simp: avail_def)
  qed
qed

lemma symBits_need: "n \<le> 32 \<Longrightarrow> symBits n f = need n f"
proof (induction n f rule: symBits.induct)
  case (1 n f)
  show ?case
  proof (cases "f_nb f < n")
    case True
    show ?thesis
    proof (cases "f_r f")
      case Nil
      then show ?thesis using True by (subst symBits.simps, subst need.simps) (simp add: moreBits_def)
    next
      case (Cons c r)
      then show ?thesis using True 1 by (subst symBits.simps, subst need.simps) (simp add: moreBits_def)
    qed
  qed (subst symBits.simps, subst need.simps, simp)
qed

section \<open>Numbers\<close>

lemma num_bits: "num (map (bit (x :: nat)) [0..<n]) = x mod 2 ^ n"
  by (simp add: num_def horner_sum_bit_eq_take_bit take_bit_eq_mod)

lemma num_append: "num (xs @ ys) = num xs + 2 ^ length xs * num ys"
  by (simp add: num_def horner_sum_append)

lemma num_take: "num bs mod 2 ^ n = num (take n bs)"
proof (cases "n \<le> length bs")
  case True
  have "num bs = num (take n bs) + 2 ^ n * num (drop n bs)" using num_append [of "take n bs" "drop n bs"] True by simp
  then show ?thesis using num_less [of "take n bs"] True by simp
next
  case False
  then have "(2 :: nat) ^ length bs \<le> 2 ^ n" by (intro power_increasing) auto
  then have "num bs < 2 ^ n" using num_less [of bs] by linarith
  then show ?thesis using False by simp
qed

lemma num_inj: "length xs = length ys \<Longrightarrow> num xs = num ys \<Longrightarrow> xs = ys"
proof (induction xs ys rule: list_induct2)
  case (Cons x xs y ys)
  have "of_bool x + 2 * num xs = of_bool y + 2 * num ys" using Cons.prems by (simp add: num_def)
  then have "x = y \<and> num xs = num ys" by (cases x; cases y) (simp_all, presburger+)
  then show ?case using Cons.IH by simp
qed simp

lemma num_reg: "reg f \<Longrightarrow> unat (f_b f) = num (bits_of f) mod 2 ^ f_nb f"
proof -
  assume r: "reg f"
  have "take (f_nb f) (bits_of f) = map (bit (unat (f_b f))) [0..<f_nb f]" by (simp add: bits_of_def bit_unsigned_iff [abs_def])
  then have "num (bits_of f) mod 2 ^ f_nb f = unat (f_b f) mod 2 ^ f_nb f" by (simp add: num_take num_bits)
  also have "unat (f_b f) mod 2 ^ f_nb f = unat (f_b f)"
  proof (rule bit_eqI)
    fix i show "bit (unat (f_b f) mod 2 ^ f_nb f) i = bit (unat (f_b f)) i"
      using r by (auto simp: reg_def take_bit_eq_mod [symmetric] bit_take_bit_iff bit_unsigned_iff)
  qed
  finally show ?thesis by simp
qed

lemma reg_drop:
  assumes "reg f" "n \<le> f_nb f" "g = f\<lparr>f_b := drop_bit n (f_b f), f_nb := f_nb f - n\<rparr>"
  shows "reg g" "bits_of g = drop n (bits_of f)" "bitio f g" "f_nb g = f_nb f - n"
proof -
  show "reg g" using assms by (auto simp: reg_def bit_drop_bit_eq less_diff_conv)
  have "map (bit (drop_bit n (f_b f))) [0..<f_nb f - n] = drop n (map (bit (f_b f)) [0..<f_nb f])"
    by (rule nth_equalityI) (auto simp: bit_drop_bit_eq)
  then show "bits_of g = drop n (bits_of f)" using assms(2,3) by (simp add: bits_of_def)
  show "bitio f g" using assms(3) by (simp add: bitio_def)
  show "f_nb g = f_nb f - n" using assms(3) by simp
qed

lemma reg_low_bits:
  assumes "reg f" "n \<le> f_nb f"
  shows "unat (take_bit n (f_b f)) = num (take n (bits_of f))"
proof -
  have "unat (take_bit n (f_b f)) = unat (f_b f) mod 2 ^ n" by (simp only: unsigned_take_bit_eq) (simp add: take_bit_eq_mod)
  also have "\<dots> = num (bits_of f) mod 2 ^ f_nb f mod 2 ^ n" using num_reg [OF assms(1)] by simp
  also have "\<dots> = num (bits_of f) mod 2 ^ n" by (rule mod_mod_cancel) (use assms(2) in \<open>simp add: le_imp_power_dvd\<close>)
  finally show ?thesis by (simp add: num_take)
qed

lemma readBits_ok:
  assumes "reg f" "f_nb f \<le> 24" "n \<le> 16"
  shows "\<exists>r g. readBits n f = (r, g) \<and> bitio f g \<and>
    (case take_num n (bits_of f) of None \<Rightarrow> \<exists>x. r = Inl x \<and> x \<noteq> io_EOF
     | Some (v, bs) \<Rightarrow> r = Inr v \<and> reg g \<and> bits_of g = bs \<and> f_nb g \<le> max (f_nb f) 7)"
proof -
  obtain e g where g: "need n f = (e, g)" "bitio f g"
      "if n \<le> avail f then e = None \<and> reg g \<and> bits_of g = bits_of f \<and> n \<le> f_nb g \<and> f_nb g \<le> max (f_nb f) (n + 7) else \<exists>x. e = Some x \<and> x \<noteq> io_EOF"
    using need_ok [OF assms(1,2), of n] assms(3) by auto
  show ?thesis
  proof (cases "n \<le> avail f")
    case True
    then have k: "e = None" "reg g" "bits_of g = bits_of f" "n \<le> f_nb g" "f_nb g \<le> max (f_nb f) (n + 7)" using g(3) by auto
    let ?g = "g\<lparr>f_b := drop_bit n (f_b g), f_nb := f_nb g - n\<rparr>"
    note d = reg_drop [OF k(2,4) refl]
    have "f_b g AND (push_bit n 1 - 1) = take_bit n (f_b g)" by (simp add: take_bit_eq_mask mask_eq_exp_minus_1 push_bit_eq_mult)
    then have "readBits n f = (Inr (num (take n (bits_of f))), ?g)" using g(1) k reg_low_bits [OF k(2,4)] by (simp add: readBits_def takeBits_def)
    moreover have "f_nb ?g \<le> max (f_nb f) 7" using k(5) unfolding d(4) by linarith
    ultimately show ?thesis using d(1,2) k(3) True bitio_trans [OF g(2) d(3)] by (simp add: take_num_def)
  next
    case False
    then show ?thesis using g by (auto simp: readBits_def take_num_def)
  qed
qed

section \<open>Symbols\<close>

lemma rev_num: "rev_n n x = num (rev (map (bit x) [0..<n]))"
proof (induction n arbitrary: x)
  case (Suc n)
  have "map (bit x) [0..<Suc n] = bit x 0 # map (bit (x div 2)) [0..<n]"
    by (subst upt_conv_Cons) (simp_all add: bit_Suc map_Suc_upt [symmetric] del: upt_Suc map_Suc_upt)
  then have "num (rev (map (bit x) [0..<Suc n])) = num (rev (map (bit (x div 2)) [0..<n]) @ [odd x])" by (simp only: rev.simps bit_0)
  also have "\<dots> = num (rev (map (bit (x div 2)) [0..<n])) + 2 ^ n * (x mod 2)"
    unfolding num_append by (simp add: num_def mod_2_eq_odd)
  finally show ?case using Suc [of "x div 2"] by simp
qed (simp add: num_def)

lemma prefix_code:
  assumes "code_of ls i < 2 ^ (ls ! i)"
  shows "prefix (code_bits ls i) bs \<longleftrightarrow> ls ! i \<le> length bs \<and> rev_n (ls ! i) (num bs) = code_of ls i"
proof -
  let ?n = "ls ! i"
  have l: "length (code_bits ls i) = ?n" by (simp add: code_bits_def)
  have "prefix (code_bits ls i) bs \<longleftrightarrow> ?n \<le> length bs \<and> take ?n bs = code_bits ls i"
    using l by (metis append_eq_conv_conj prefix_def prefix_length_le take_is_prefix)
  also have "\<dots> \<longleftrightarrow> ?n \<le> length bs \<and> num (take ?n bs) = num (code_bits ls i)"
    using num_inj [of "take ?n bs" "code_bits ls i"] l by auto
  also have "num (code_bits ls i) = rev_n ?n (code_of ls i)" by (simp add: rev_num code_bits_def)
  also have "num (take ?n bs) = num bs mod 2 ^ ?n" by (simp add: num_take)
  finally show ?thesis using rev_eq [OF assms, of "num bs"] by simp
qed

lemma good_code_bound:
  assumes "good_code ls" "i < length ls" "0 < ls ! i"
  shows "code_of ls i < 2 ^ (ls ! i)"
proof -
  let ?m = "Max (insert 0 (set ls))"
  have m: "ls ! i \<le> ?m" using assms(2) by simp
  then have "kraft ls ?m \<le> 2 ^ ?m" using assms(1,3) by (auto simp: good_code_def Let_def)
  then show ?thesis using m assms by (intro code_less)
qed

lemma take_sym_matches:
  assumes "good_code ls"
  shows "take_sym ls bs = Some (i, bs') \<longleftrightarrow> matches ls (num bs) i \<and> ls ! i \<le> length bs \<and> bs' = drop (ls ! i) bs"
proof -
  have p: "0 < ls ! j \<and> prefix (code_bits ls j) bs \<longleftrightarrow> matches ls (num bs) j \<and> ls ! j \<le> length bs" if "j < length ls" for j
    using prefix_code [OF good_code_bound [OF assms that]] that by (auto simp: matches_def)
  show ?thesis
  proof
    assume "take_sym ls bs = Some (i, bs')"
    then obtain "find (\<lambda>j. 0 < ls ! j \<and> prefix (code_bits ls j) bs) [0..<length ls] = Some i" "bs' = drop (ls ! i) bs"
      by (auto simp: take_sym_def split: option.splits)
    moreover from this have "i < length ls" "0 < ls ! i \<and> prefix (code_bits ls i) bs" by (auto simp: find_Some_iff)
    ultimately show "matches ls (num bs) i \<and> ls ! i \<le> length bs \<and> bs' = drop (ls ! i) bs" using p [of i] by blast
  next
    assume m: "matches ls (num bs) i \<and> ls ! i \<le> length bs \<and> bs' = drop (ls ! i) bs"
    then have i: "i < length ls" by (simp add: matches_def)
    have no: "\<forall>j < i. \<not> (0 < ls ! j \<and> prefix (code_bits ls j) bs)"
      using p matches_unique [of ls "num bs" _ i] m i by (metis less_trans nat_neq_iff)
    have "find (\<lambda>j. 0 < ls ! j \<and> prefix (code_bits ls j) bs) [0..<length ls] = Some i"
      using p [OF i] m i no unfolding find_Some_iff by (intro exI [of _ i]) auto
    then show "take_sym ls bs = Some (i, bs')" using m by (simp add: take_sym_def)
  qed
qed

text \<open>
  The table \<open>h\<close> decodes the code with lengths \<open>ls\<close>, and reads at least \<open>h_min h\<close> bits: no more
  than the shortest code has, or than \<open>e\<close>.
\<close>

definition table :: "nat list \<Rightarrow> nat \<Rightarrow> huffmanDecoder \<Rightarrow> bool" where
  "table ls e h \<longleftrightarrow> good_code ls \<and> (\<forall>n \<in> set ls. n < 16) \<and> h_min h \<le> 15 \<and> e \<le> 15 \<and>
     (\<forall>b i. matches ls b i \<longrightarrow> huff_lookup h b = Some (chunk_of ls i)) \<and>
     (\<forall>b. (\<forall>i. \<not> matches ls b i) \<longrightarrow> huff_lookup h b = Some 0) \<and>
     (\<forall>n \<in> set ls. n \<noteq> 0 \<longrightarrow> 0 < h_min h \<and> h_min h \<le> max n e)"

lemma table_chunk:
  assumes "table ls e h" "matches ls b i"
  shows "\<exists>c. huff_lookup h b = Some c \<and> c AND huffmanCountMask = ls ! i \<and> drop_bit huffmanValueShift c = i"
proof -
  have l: "ls ! i < 16" using assms nth_mem [of i ls] by (auto simp: table_def matches_def)
  have "chunk_of ls i = 16 * i + ls ! i" by (simp add: chunk_of_def)
  moreover have "(16 * i + ls ! i) AND huffmanCountMask = ls ! i"
  proof -
    have "(16 * i + ls ! i) AND huffmanCountMask = take_bit 4 (16 * i + ls ! i)" by (simp add: take_bit_eq_mask mask_eq_exp_minus_1 huffmanCountMask_def)
    then show ?thesis using l by (simp add: take_bit_eq_mod)
  qed
  moreover have "drop_bit huffmanValueShift (16 * i + ls ! i) = i" using l by (simp add: drop_bit_eq_div huffmanValueShift_def)
  ultimately show ?thesis using assms by (simp add: table_def)
qed

lemma matches_low: "ls ! i \<le> k \<Longrightarrow> matches ls (b mod 2 ^ k) i \<longleftrightarrow> matches ls b i"
  using rev_mod [of "ls ! i" "b mod 2 ^ k"] rev_mod [of "ls ! i" b] mod_mod_cancel [of "2 ^ (ls ! i)" "2 ^ k" b]
  by (simp add: matches_def le_imp_power_dvd)

text \<open>If the bits at hand, filled up with zeros, show no code, there is none.\<close>

lemma no_code:
  assumes "good_code ls" "\<forall>j. \<not> matches ls (b mod 2 ^ k) j" "\<forall>n \<in> set ls. n \<noteq> 0 \<longrightarrow> 0 < k"
  shows "\<not> matches ls b i"
proof
  assume m: "matches ls b i"
  let ?m = "Max (insert 0 (set ls))"
  have i: "i < length ls" "0 < ls ! i" using m by (auto simp: matches_def)
  then have k: "0 < k" "ls ! i \<le> ?m" using assms(3) by auto
  consider "kraft ls ?m = 2 ^ ?m" | "?m = 1" using assms(1) i(2) k(2) by (auto simp: good_code_def Let_def)
  then show False
  proof cases
    case 1
    then show False using matches_exists [OF 1, of "b mod 2 ^ k"] i(2) k(2) assms(2) by auto
  next
    case 2
    then have "ls ! i \<le> k" using k by simp
    then show False using matches_low [of ls i k b] m assms(2) by simp
  qed
qed

text \<open>
  \<open>huffSym\<close> is \<open>take_sym\<close>. It may want more bits than the symbol has, up to \<open>e\<close>, but never more than
  the symbol it finds or \<open>e\<close>.
\<close>

lemma huffLoop_ok:
  assumes "table ls e h" "reg f" "f_nb f \<le> 22" "n \<le> 15"
    "\<And>j. matches ls (num (bits_of f)) j \<Longrightarrow> ls ! j \<le> avail f \<Longrightarrow> n \<le> max (ls ! j) e" "\<forall>m \<in> set ls. m \<noteq> 0 \<longrightarrow> 0 < n"
  shows "\<exists>r g. huffLoop h n f = Some (r, g) \<and>
    (case r of Inl x \<Rightarrow> x \<noteq> io_EOF \<and> bitioe f g \<and> (take_sym ls (bits_of f) = None \<or> avail f < e)
     | Inr i \<Rightarrow> bitio f g \<and> reg g \<and> take_sym ls (bits_of f) = Some (i, bits_of g) \<and> f_nb g \<le> max (f_nb f) (max (ls ! i) e + 7) - ls ! i)"
  using assms
proof (induction h n f rule: huffLoop.induct)
  case (1 h n f)
  note t = "1.prems"(1)
  note tm = take_sym_matches [of ls "bits_of f"]
  have gc: "good_code ls" using t by (simp add: table_def)
  obtain x f1 where y: "symBits n f = (x, f1)" "bitio f f1"
      "if n \<le> avail f then x = None \<and> reg f1 \<and> bits_of f1 = bits_of f \<and> n \<le> f_nb f1 \<and> f_nb f1 \<le> max (f_nb f) (n + 7) else \<exists>z. x = Some z \<and> z \<noteq> io_EOF"
    using need_ok [OF "1.prems"(2), of n] symBits_need [of n f] "1.prems"(3,4) by auto
  show ?case
  proof (cases "n \<le> avail f")
    case False
    then obtain z where z: "x = Some z" "z \<noteq> io_EOF" using y(3) by auto
    have "take_sym ls (bits_of f) = None \<or> avail f < e"
    proof (cases "take_sym ls (bits_of f)")
      case (Some p)
      obtain j bs where "p = (j, bs)" by fastforce
      then have "matches ls (num (bits_of f)) j" "ls ! j \<le> avail f" using Some tm [OF gc] by auto
      then show ?thesis using "1.prems"(5) [of j] False by auto
    qed simp
    then show ?thesis using y(1,2) z by (subst huffLoop.simps) simp
  next
    case True
    then have f1: "x = None" "reg f1" "bits_of f1 = bits_of f" "n \<le> f_nb f1" "f_nb f1 \<le> max (f_nb f) (n + 7)" using y(3) by auto
    have av: "avail f1 = avail f" using f1(3) by (metis length_bits_of)
    have pad: "unat (f_b f1) = num (bits_of f) mod 2 ^ f_nb f1" using num_reg [OF f1(2)] f1(3) by simp
    show ?thesis
    proof (cases "\<exists>i. matches ls (unat (f_b f1)) i")
      case True
      then obtain i where i: "matches ls (unat (f_b f1)) i" by blast
      obtain c where c: "huff_lookup h (unat (f_b f1)) = Some c" "c AND huffmanCountMask = ls ! i" "drop_bit huffmanValueShift c = i"
        using table_chunk [OF t i] by blast
      have i0: "0 < ls ! i" "ls ! i < 16" using i t nth_mem [of i ls] by (auto simp: matches_def table_def)
      show ?thesis
      proof (cases "ls ! i \<le> f_nb f1")
        case True
        then have m: "matches ls (num (bits_of f)) i" using i matches_low [of ls i "f_nb f1" "num (bits_of f)"] pad by simp
        have l: "ls ! i \<le> avail f" using True av by (simp add: avail_def)
        let ?g = "f1\<lparr>f_b := drop_bit (ls ! i) (f_b f1), f_nb := f_nb f1 - ls ! i\<rparr>"
        have lp: "huffLoop h n f = Some (Inr i, ?g)" using y(1) f1(1) c True i0 by (subst huffLoop.simps) (simp add: Let_def)
        note d = reg_drop [OF f1(2) True refl]
        have "take_sym ls (bits_of f) = Some (i, bits_of ?g)" using tm [OF gc] m l d(2) f1(3) by simp
        moreover have "f_nb ?g \<le> max (f_nb f) (max (ls ! i) e + 7) - ls ! i" using f1(5) "1.prems"(5) [OF m l] unfolding d(4) by linarith
        ultimately show ?thesis using lp d(1) bitio_trans [OF y(2) d(3)] by simp
      next
        case False
        have cut: "ls ! i \<le> ls ! j" if "matches ls (num (bits_of f)) j" for j
          using matches_cut [of ls "num (bits_of f)" "f_nb f1" i j] i pad that by simp
        have lp: "huffLoop h n f = huffLoop h (ls ! i) f1" using y(1) f1(1) c False by (subst huffLoop.simps) (simp add: Let_def)
        have "f_nb f1 \<le> 22" using f1(5) "1.prems"(3,4) by linarith
        then obtain r g where rg: "huffLoop h (ls ! i) f1 = Some (r, g)"
          "case r of Inl x \<Rightarrow> x \<noteq> io_EOF \<and> bitioe f1 g \<and> (take_sym ls (bits_of f) = None \<or> avail f < e)
           | Inr i \<Rightarrow> bitio f1 g \<and> reg g \<and> take_sym ls (bits_of f) = Some (i, bits_of g) \<and> f_nb g \<le> max (f_nb f1) (max (ls ! i) e + 7) - ls ! i"
          using "1.IH" [OF y(1) [symmetric] f1(1) c(1) c(2) [symmetric] False t f1(2)] False cut i0 unfolding f1(3) av
          by (auto simp: le_max_iff_disj)
        show ?thesis
        proof (cases r)
          case (Inl z)
          then show ?thesis using rg lp bitio_bitioe [OF y(2)] by simp
        next
          case (Inr k)
          then have k: "matches ls (num (bits_of f)) k" "ls ! k \<le> avail f" using rg(2) tm [OF gc] by auto
          have "f_nb g \<le> max (f_nb f) (max (ls ! k) e + 7) - ls ! k" using rg(2) Inr f1(5) "1.prems"(5) [OF k] by (auto simp: max_def split: if_splits)
          then show ?thesis using rg lp Inr bitio_trans [OF y(2)] by simp
        qed
      qed
    next
      case False
      then have l: "huff_lookup h (unat (f_b f1)) = Some 0" using t by (simp add: table_def)
      have "\<forall>m \<in> set ls. m \<noteq> 0 \<longrightarrow> 0 < f_nb f1" using "1.prems"(6) f1(4) by fastforce
      then have "\<not> matches ls (num (bits_of f)) i" for i using no_code [OF gc, of "num (bits_of f)" "f_nb f1" i] False pad by simp
      then have "take_sym ls (bits_of f) = None" using tm [OF gc] by (metis option.exhaust surj_pair)
      moreover have "bitioe f (f1\<lparr>f_err := Some (CorruptInputError (f_roffset f1))\<rparr>)" using y(2) unfolding bitioe_def by blast
      moreover have "huffLoop h n f = Some (Inl (CorruptInputError (f_roffset f1)), f1\<lparr>f_err := Some (CorruptInputError (f_roffset f1))\<rparr>)"
        using y(1) f1(1) l by (subst huffLoop.simps) (simp add: Let_def)
      ultimately show ?thesis by (simp add: io_EOF_def)
    qed
  qed
qed

lemma huffSym_ok:
  assumes "table ls e h" "reg f" "f_nb f \<le> 22"
  shows "\<exists>r g. huffSym h f = Some (r, g) \<and>
    (case r of Inl x \<Rightarrow> x \<noteq> io_EOF \<and> bitioe f g \<and> (take_sym ls (bits_of f) = None \<or> avail f < e)
     | Inr i \<Rightarrow> bitio f g \<and> reg g \<and> take_sym ls (bits_of f) = Some (i, bits_of g) \<and> f_nb g \<le> max (f_nb f) (max (ls ! i) e + 7) - ls ! i)"
proof -
  have "h_min h \<le> max (ls ! j) e" if "matches ls (num (bits_of f)) j" for j
    using that assms(1) nth_mem [of j ls] by (auto simp: table_def matches_def)
  then show ?thesis unfolding huffSym_def using assms by (intro huffLoop_ok) (auto simp: table_def)
qed

text \<open>Without \<open>e\<close> it fails only if there is no symbol, and hardly any bits stay in the register.\<close>

lemma huffSym_exact:
  assumes "table ls 0 h" "reg f" "f_nb f \<le> 22"
  shows "\<exists>r g. huffSym h f = Some (r, g) \<and>
    (case take_sym ls (bits_of f) of
       None \<Rightarrow> \<exists>x. r = Inl x \<and> x \<noteq> io_EOF \<and> bitioe f g
     | Some (i, bs) \<Rightarrow> r = Inr i \<and> bitio f g \<and> reg g \<and> bits_of g = bs \<and> f_nb g \<le> max (f_nb f) 7)"
proof -
  obtain r g where rg: "huffSym h f = Some (r, g)"
    "case r of Inl x \<Rightarrow> x \<noteq> io_EOF \<and> bitioe f g \<and> (take_sym ls (bits_of f) = None \<or> avail f < 0)
     | Inr i \<Rightarrow> bitio f g \<and> reg g \<and> take_sym ls (bits_of f) = Some (i, bits_of g) \<and> f_nb g \<le> max (f_nb f) (max (ls ! i) 0 + 7) - ls ! i"
    using huffSym_ok [OF assms] by blast
  have "max (f_nb f) (max (ls ! i) 0 + 7) - ls ! i \<le> max (f_nb f) 7" for i by linarith
  then show ?thesis using rg by (cases r) (auto intro: order_trans)
qed

end
