(* ===== verification/FlateTables.thy ===== *)
theory FlateTables
  imports FlateBits
begin

unbundle bit_operations_syntax

text \<open>
  The tables of the inflater are those of the codes that the reference reads: the fixed codes, and the
  dynamic codes of \<open>readHuffman\<close>.
\<close>

section \<open>Fixed codes\<close>

definition fresh :: "huffmanDecoder \<Rightarrow> bool" where
  "fresh h \<longleftrightarrow> h_min h \<noteq> 0 \<or> h = zero_decoder"

lemma init_table:
  assumes "\<forall>n \<in> set ls. n < 16" "fresh h0"
  shows "\<exists>h. huffman_init h0 ls = Some (good_code ls, h) \<and> (good_code ls \<longrightarrow> table ls 0 h) \<and> fresh h"
proof -
  obtain h where h: "huffman_init h0 ls = Some (good_code ls, h)" "good_code ls \<longrightarrow> decodes ls h" "fresh h"
    using huffman_init_ok [OF assms(1)] assms(2) by (auto simp: fresh_def)
  have "table ls 0 h" if g: "good_code ls"
  proof -
    have d: "decodes ls h" using h(2) g by simp
    have "h_min h \<le> 15"
    proof (cases "\<forall>n \<in> set ls. n = 0")
      case True
      then show ?thesis using d by (simp add: decodes_def)
    next
      case False
      then obtain n where "n \<in> set ls" "n \<noteq> 0" by blast
      then have "h_min h \<le> n" "n < 16" using d assms(1) by (auto simp: decodes_def)
      then show ?thesis by simp
    qed
    then show ?thesis using d g assms(1) unfolding table_def decodes_def by simp
  qed
  then show ?thesis using h by blast
qed

lemma good_fixed: "good_code fixed_lengths"
proof -
  have "Max (insert 0 (set fixed_lengths)) = 9"
    by (rule Max_eqI) (auto simp: fixed_lengths_def image_iff intro!: exI [of _ 200] bexI [of _ 200])
  moreover have "kraft fixed_lengths 9 = 2 ^ 9" by code_simp
  ultimately show ?thesis by (simp add: good_code_def)
qed

lemma fixed_table: "table fixed_lengths 0 fixedHuffmanDecoder"
proof -
  have "\<forall>n \<in> set fixed_lengths. n < 16" by (auto simp: fixed_lengths_def)
  then obtain h where "huffman_init zero_decoder fixed_lengths = Some (True, h)" "table fixed_lengths 0 h"
    using init_table [of fixed_lengths zero_decoder] good_fixed by (auto simp: fresh_def)
  then show ?thesis by (simp add: fixedHuffmanDecoder_def)
qed

lemma good_dists: "good_code fixed_dists"
proof -
  have "Max (insert 0 (set fixed_dists)) = 5" by (simp add: fixed_dists_def)
  moreover have "kraft fixed_dists 5 = 2 ^ 5" by code_simp
  ultimately show ?thesis by (simp add: good_code_def)
qed

lemma fixed_dist_sym:
  "take_sym fixed_dists bs = (if 5 \<le> length bs then Some (rev_n 5 (num (take 5 bs)), drop 5 bs) else None)"
proof -
  have f: "first fixed_dists 5 = 0" by code_simp
  have "count_list (replicate k (5 :: nat)) 5 = k" for k by (induction k) auto
  then have c: "code_of fixed_dists i = i" if "i < 32" for i
    using that f by (simp add: code_of_def fixed_dists_def min_def)
  have m: "matches fixed_dists b i \<longleftrightarrow> i = rev_n 5 b" for b i
  proof
    assume "matches fixed_dists b i"
    moreover from this have "i < 32" by (simp add: matches_def fixed_dists_def)
    ultimately show "i = rev_n 5 b" using c [of i] by (simp add: matches_def fixed_dists_def)
  next
    assume i: "i = rev_n 5 b"
    then have "i < 32" using rev_less [of 5 b] by simp
    then show "matches fixed_dists b i" using c [of i] i by (simp add: matches_def fixed_dists_def)
  qed
  have "rev_n 5 (num bs) = rev_n 5 (num (take 5 bs))" using rev_mod [of 5 "num bs"] by (simp only: num_take)
  then have "take_sym fixed_dists bs = Some (i, bs') \<longleftrightarrow> i = rev_n 5 (num (take 5 bs)) \<and> 5 \<le> length bs \<and> bs' = drop 5 bs" for i bs'
    using take_sym_matches [OF good_dists, of bs i bs'] m [of "num bs" i] rev_less [of 5 "num bs"]
    by (auto simp: fixed_dists_def nth_replicate)
  then show ?thesis by (metis not_Some_eq surj_pair)
qed

lemma rev_byte5: "x < 32 \<Longrightarrow> rev_n 8 (8 * x) = rev_n 5 x"
proof -
  have "rev_n 3 (8 * x) = rev_n 3 0" using rev_mod [of 3 "8 * x"] by simp
  also have "\<dots> = 0" by code_simp
  finally show ?thesis using rev_split [of 3 5 "8 * x"] by simp
qed

section \<open>The lengths of the code for lengths\<close>

lemma take_nums_less: "take_nums k n bs = Some (vs, bs') \<Longrightarrow> v \<in> set vs \<Longrightarrow> v < 2 ^ n"
  by (induction k arbitrary: bs vs) (auto simp: Option.bind_eq_Some_conv dest: take_num_less)

lemma read_codebits_ok:
  assumes "reg f" "f_nb f \<le> 22"
  shows "\<exists>e g c. read_codebits js f = (e, g) \<and> bitio (f\<lparr>f_codebits := c\<rparr>) g \<and> length c = length (f_codebits f) \<and>
    (case take_nums (length js) 3 (bits_of f) of
       None \<Rightarrow> \<exists>x. e = Some x \<and> x \<noteq> io_EOF
     | Some (vs, bs) \<Rightarrow> e = None \<and> reg g \<and> bits_of g = bs \<and> f_nb g \<le> max (f_nb f) 7 \<and>
         c = foldl (\<lambda>a (j, v). a[j := v]) (f_codebits f) (zip js vs))"
  using assms
proof (induction js arbitrary: f)
  case Nil
  then show ?case by (auto simp: bitio_def intro!: exI [of _ "f_codebits f"])
next
  case (Cons j js)
  obtain r g where g: "readBits 3 f = (r, g)" "bitio f g"
      "case take_num 3 (bits_of f) of None \<Rightarrow> \<exists>x. r = Inl x \<and> x \<noteq> io_EOF
       | Some (v, bs) \<Rightarrow> r = Inr v \<and> reg g \<and> bits_of g = bs \<and> f_nb g \<le> max (f_nb f) 7"
    using readBits_ok [OF Cons.prems(1), of 3] Cons.prems(2) by auto
  show ?case
  proof (cases "take_num 3 (bits_of f)")
    case None
    then show ?thesis using g by (auto simp: bitio_def intro!: exI [of _ "f_codebits f"])
  next
    case (Some p)
    obtain v bs where p: "p = (v, bs)" by fastforce
    let ?g = "g\<lparr>f_codebits := (f_codebits g)[j := v]\<rparr>"
    have k: "r = Inr v" "reg ?g" "bits_of ?g = bs" "f_nb ?g \<le> max (f_nb f) 7" using g(3) Some p by (auto simp: reg_def bits_of_def)
    then have n: "f_nb ?g \<le> 22" using Cons.prems(2) by linarith
    obtain e g' c where ih: "read_codebits js ?g = (e, g')" "bitio (?g\<lparr>f_codebits := c\<rparr>) g'" "length c = length (f_codebits ?g)"
        "case take_nums (length js) 3 bs of None \<Rightarrow> \<exists>x. e = Some x \<and> x \<noteq> io_EOF
         | Some (vs, bs) \<Rightarrow> e = None \<and> reg g' \<and> bits_of g' = bs \<and> f_nb g' \<le> max (f_nb ?g) 7 \<and>
             c = foldl (\<lambda>a (j, v). a[j := v]) (f_codebits ?g) (zip js vs)"
      using Cons.IH [OF k(2) n] k(3) by auto
    have "bitio (f\<lparr>f_codebits := c\<rparr>) g'" using g(2) ih(2) by (cases f; cases g) (simp add: bitio_def)
    moreover have "read_codebits (j # js) f = (e, g')" using g(1) k(1) ih(1) by simp
    moreover have "f_codebits g = f_codebits f" using bitio_sel [OF g(2)] by simp
    ultimately show ?thesis using ih(3,4) Some p k(4)
      by (intro exI [of _ e] exI [of _ g'] exI [of _ c]) (auto split: option.splits)
  qed
qed

lemma foldl_update: "length (foldl (\<lambda>a (j, v). a[j := v]) a ps) = length a"
  by (induction ps arbitrary: a) auto

lemma foldl_zeros: "foldl (\<lambda>bs j. bs[j := 0]) a js = foldl (\<lambda>a (j, v). a[j := v]) a (zip js (replicate (length js) (0 :: nat)))"
  by (induction js arbitrary: a) auto

lemma nth_foldl_update:
  assumes "distinct (map fst ps)" "i < length a"
  shows "foldl (\<lambda>a (j, v). a[j := v]) a ps ! i = (case map_of ps i of Some v \<Rightarrow> v | None \<Rightarrow> a ! i)"
  using assms
proof (induction ps arbitrary: a)
  case (Cons p ps)
  obtain j v where p: "p = (j, v)" by fastforce
  have "map_of ps j = None" using Cons.prems(1) p by (simp add: map_of_eq_None_iff)
  then show ?case using Cons.IH [of "a[j := v]"] Cons.prems p by (auto simp: nth_list_update split: option.splits)
qed simp

lemma codeOrder_facts: "distinct codeOrder" "set codeOrder = {0..<19}" "length codeOrder = 19"
  by (simp add: codeOrder_def, simp add: codeOrder_def atLeast0_lessThan_Suc numeral_eq_Suc insert_commute, simp add: codeOrder_def)

text \<open>What earlier blocks left in the array does not matter.\<close>

lemma codebits_total:
  fixes a :: "nat list"
  assumes "length a = 19" "length vs = n" "n \<le> 19"
  shows "foldl (\<lambda>bs j. bs[j := 0]) (foldl (\<lambda>a (j, v). a[j := v]) a (zip (take n codeOrder) vs)) (drop n codeOrder) =
    foldl (\<lambda>a (j, v). a[j := v]) (replicate 19 0) (zip codeOrder vs)"
proof (rule nth_equalityI)
  let ?l = "zip (take n codeOrder) vs" and ?z = "zip (drop n codeOrder) (replicate (19 - n) (0 :: nat))"
  have zl: "foldl (\<lambda>bs j. bs[j := 0]) b (drop n codeOrder) = foldl (\<lambda>a (j, v). a[j := v]) b ?z" for b
    using foldl_zeros [of b "drop n codeOrder"] codeOrder_facts(3) by simp
  then show "length (foldl (\<lambda>bs j. bs[j := 0]) (foldl (\<lambda>a (j, v). a[j := v]) a ?l) (drop n codeOrder)) =
      length (foldl (\<lambda>a (j, v). a[j := v]) (replicate 19 0) (zip codeOrder vs))" using assms(1) by (simp add: foldl_update)
  have t: "zip codeOrder vs = ?l" using assms(2) take_zip [of n codeOrder vs] by simp
  have m: "map fst ?l = take n codeOrder" "map fst ?z = drop n codeOrder" using assms(2,3) codeOrder_facts(3) by simp_all
  have dom: "map_of ?l j \<noteq> None \<longleftrightarrow> j \<in> set (take n codeOrder)" "map_of ?z j \<noteq> None \<longleftrightarrow> j \<in> set (drop n codeOrder)" for j
  proof -
    have "fst ` set ?l = set (take n codeOrder)" "fst ` set ?z = set (drop n codeOrder)" by (simp_all only: set_map [symmetric] m)
    then show "map_of ?l j \<noteq> None \<longleftrightarrow> j \<in> set (take n codeOrder)" "map_of ?z j \<noteq> None \<longleftrightarrow> j \<in> set (drop n codeOrder)"
      by (simp_all add: map_of_eq_None_iff)
  qed
  have d: "distinct (take n codeOrder)" "distinct (drop n codeOrder)" "set (take n codeOrder) \<inter> set (drop n codeOrder) = {}"
    using codeOrder_facts(1) distinct_append [of "take n codeOrder" "drop n codeOrder"] by auto
  fix i assume "i < length (foldl (\<lambda>bs j. bs[j := 0]) (foldl (\<lambda>a (j, v). a[j := v]) a ?l) (drop n codeOrder))"
  then have i: "i < 19" using assms(1) zl by (simp add: foldl_update)
  have "i \<in> set (take n codeOrder @ drop n codeOrder)" using i codeOrder_facts(2) by simp
  then consider "i \<in> set (take n codeOrder)" "i \<notin> set (drop n codeOrder)" | "i \<in> set (drop n codeOrder)" "i \<notin> set (take n codeOrder)"
    using d(3) by (auto simp del: append_take_drop_id)
  then show "foldl (\<lambda>bs j. bs[j := 0]) (foldl (\<lambda>a (j, v). a[j := v]) a ?l) (drop n codeOrder) ! i =
      foldl (\<lambda>a (j, v). a[j := v]) (replicate 19 0) (zip codeOrder vs) ! i"
  proof cases
    case 1
    then obtain v where "map_of ?l i = Some v" using dom(1) [of i] by blast
    moreover have "map_of ?z i = None" using 1 dom(2) [of i] by blast
    ultimately show ?thesis using i assms(1) d m unfolding zl t by (simp add: nth_foldl_update foldl_update)
  next
    case 2
    then obtain v where v: "map_of ?z i = Some v" using dom(2) [of i] by blast
    then have "v = 0" by (auto dest!: map_of_SomeD set_zip_rightD)
    moreover have "map_of ?l i = None" using 2 dom(1) [of i] by blast
    ultimately show ?thesis using v i assms(1) d m unfolding zl t by (simp add: nth_foldl_update foldl_update)
  qed
qed

section \<open>The lengths of the codes\<close>

lemma store_rep_eq:
  "i + rep \<le> length bs \<Longrightarrow> store_rep rep i b bs = Some (take i bs @ replicate rep b @ drop (i + rep) bs)"
proof (induction rep arbitrary: i bs)
  case (Suc rep)
  have "take (Suc i) (bs[i := b]) = take i bs @ [b]" using Suc.prems by (simp add: take_Suc_conv_app_nth)
  then show ?case using Suc.IH [of "Suc i" "bs[i := b]"] Suc.prems by simp
qed simp

text \<open>The code length codes 16 to 18 are the ways to repeat.\<close>

lemma last_take: "0 < i \<Longrightarrow> i \<le> length xs \<Longrightarrow> last (take i xs) = xs ! (i - 1)"
  by (cases i) (simp_all add: take_Suc_conv_app_nth)

lemma repeat_code_cases:
  assumes "\<not> x < 16" "x < 19" "\<not> (x = 16 \<and> i = 0)" "i \<le> length (f_bits f)"
  shows "repeat_code x i f = Inr (if x = 16 then (3, 2, last (take i (f_bits f))) else if x = 17 then (3, 3, 0) else (11, 7, 0))"
  using assms by (auto simp: repeat_code_def last_take)

definition lengths_pre :: "nat list \<Rightarrow> nat \<Rightarrow> bits \<Rightarrow> nat list \<Rightarrow> decompressor \<Rightarrow> bool" where
  "lengths_pre cl n bs acc f \<longleftrightarrow>
     bits_of f = bs \<and> length acc \<le> n \<and> n \<le> length (f_bits f) \<and> take (length acc) (f_bits f) = acc \<and> table cl 0 (f_h1 f) \<and>
     length cl = 19 \<and> reg f \<and> f_nb f \<le> 22"

definition lengths_post :: "decompressor \<Rightarrow> nat \<Rightarrow> (nat list \<times> bits) option \<Rightarrow> (unit result \<times> decompressor) option \<Rightarrow> bool" where
  "lengths_post f n ref res \<longleftrightarrow>
     (\<exists>r g b. res = Some (r, g) \<and> bitioe (f\<lparr>f_bits := b\<rparr>) g \<and> length b = length (f_bits f) \<and>
        (case ref of
           None \<Rightarrow> \<exists>x. r = Inl x \<and> x \<noteq> io_EOF
         | Some (ls, bs') \<Rightarrow> r = Inr () \<and> f_err g = f_err f \<and> reg g \<and> bits_of g = bs' \<and> f_nb g \<le> max (f_nb f) 7 \<and> take n b = ls))"

lemma lengths_preD:
  assumes "lengths_pre cl n bs acc f"
  shows "bits_of f = bs" "length acc \<le> n" "n \<le> length (f_bits f)" "take (length acc) (f_bits f) = acc" "table cl 0 (f_h1 f)"
    "length cl = 19" "reg f" "f_nb f \<le> 22"
  using assms by (simp_all add: lengths_pre_def)

lemma lengths_error: "bitioe f g \<Longrightarrow> x \<noteq> io_EOF \<Longrightarrow> lengths_post f n None (Some (Inl x, g))"
  unfolding lengths_post_def by (intro exI [of _ "Inl x"] exI [of _ g] exI [of _ "f_bits f"]) simp

lemma lengths_trans:
  assumes "bitio f h" "f_nb h \<le> max (f_nb f) 7" "length c = length (f_bits f)" "lengths_post (h\<lparr>f_bits := c\<rparr>) n ref res"
  shows "lengths_post f n ref res"
proof -
  let ?h = "h\<lparr>f_bits := c\<rparr>"
  obtain r g b where g: "res = Some (r, g)" "bitioe (?h\<lparr>f_bits := b\<rparr>) g" "length b = length (f_bits ?h)"
      "case ref of None \<Rightarrow> \<exists>x. r = Inl x \<and> x \<noteq> io_EOF
       | Some (ls, bs') \<Rightarrow> r = Inr () \<and> f_err g = f_err ?h \<and> reg g \<and> bits_of g = bs' \<and> f_nb g \<le> max (f_nb ?h) 7 \<and> take n b = ls"
    using assms(4) unfolding lengths_post_def by blast
  have "bitio (f\<lparr>f_bits := b\<rparr>) (h\<lparr>f_bits := b\<rparr>)" using assms(1) by (cases f; cases h) (simp add: bitio_def)
  then have "bitioe (f\<lparr>f_bits := b\<rparr>) g" using g(2) by (auto intro: bitio_bitioe)
  moreover have "f_nb g \<le> max (f_nb ?h) 7 \<Longrightarrow> f_nb g \<le> max (f_nb f) 7" using assms(2) by (simp add: max_def split: if_splits)
  ultimately show ?thesis unfolding lengths_post_def using g(1,3,4) assms(3) bitio_sel [OF assms(1)]
    by (intro exI [of _ r] exI [of _ g] exI [of _ b]) (auto split: option.splits)
qed

text \<open>A code below 16 is a length; the codes 16 to 18 repeat one.\<close>

lemma one_length:
  assumes "lengths_pre cl n bs acc f" "length acc < n" "huffSym (f_h1 f) f = Some (Inr x, g)" "take_sym cl bs = Some (x, bs1)" "x < 16"
    "bitio f g" "reg g" "bits_of g = bs1" "f_nb g \<le> max (f_nb f) 7"
    "\<And>f'. lengths_pre cl n bs1 (acc @ [x]) f' \<Longrightarrow> lengths_post f' n (take_lengths cl n bs1 (acc @ [x])) (read_lengths (length (acc @ [x])) n f')"
  shows "lengths_post f n (take_lengths cl n bs acc) (read_lengths (length acc) n f)"
proof -
  note pre = lengths_preD [OF assms(1)] and bg = bitio_sel [OF assms(6)]
  let ?i = "length acc" and ?c = "(f_bits g)[length acc := x]"
  let ?g = "g\<lparr>f_bits := ?c\<rparr>"
  have l: "?i < length (f_bits g)" using assms(2) pre(3) bg by simp
  have lp: "read_lengths ?i n f = read_lengths (length (acc @ [x])) n ?g" using assms(2,3,5) l by (subst read_lengths.simps) simp
  have tk: "take_lengths cl n bs acc = take_lengths cl n bs1 (acc @ [x])" using assms(2,4,5) by (subst take_lengths.simps) simp
  have "f_nb g \<le> 22" using assms(9) pre(8) by linarith
  then have "lengths_pre cl n bs1 (acc @ [x]) ?g" unfolding lengths_pre_def
    using pre assms(2,7,8) bg l by (simp add: bits_of_def reg_def take_Suc_conv_app_nth)
  from assms(10) [OF this] show ?thesis unfolding lp tk using bg by (intro lengths_trans [OF assms(6,9), of ?c]) simp_all
qed

lemma repeated_length:
  assumes "lengths_pre cl n bs acc f" "length acc < n" "huffSym (f_h1 f) f = Some (Inr x, g)" "take_sym cl bs = Some (x, bs1)" "\<not> x < 16"
    "\<not> (x = 16 \<and> acc = [])" "bitio f g" "reg g" "bits_of g = bs1" "f_nb g \<le> max (f_nb f) 7"
    "(if x = 16 then (3, 2, last acc) else if x = 17 then (3, 3, 0) else (11, 7, 0)) = (base, m, w)"
    "\<And>v bs2 f'. take_num m bs1 = Some (v, bs2) \<Longrightarrow> \<not> n < length acc + (base + v) \<Longrightarrow> lengths_pre cl n bs2 (acc @ replicate (base + v) w) f' \<Longrightarrow>
       lengths_post f' n (take_lengths cl n bs2 (acc @ replicate (base + v) w)) (read_lengths (length (acc @ replicate (base + v) w)) n f')"
  shows "lengths_post f n (take_lengths cl n bs acc) (read_lengths (length acc) n f)"
proof -
  note pre = lengths_preD [OF assms(1)] and bg = bitio_sel [OF assms(7)]
  let ?i = "length acc"
  have nb: "f_nb g \<le> 22" using assms(10) pre(8) by linarith
  have m16: "m \<le> 16" using assms(11) by (auto split: if_splits)
  have x19: "x < 19" using take_sym_Some [OF assms(4)] pre(6) by simp
  have tg: "take ?i (f_bits g) = acc" "?i \<le> length (f_bits g)" "\<not> (x = 16 \<and> ?i = 0)" using pre(2,3,4) bg assms(6) by simp_all
  have rc: "repeat_code x ?i g = Inr (base, m, w)" using repeat_code_cases [OF assms(5) x19 tg(3,2)] unfolding tg(1) assms(11) .
  obtain q h where h: "readBits m g = (q, h)" "bitio g h"
      "case take_num m bs1 of None \<Rightarrow> \<exists>z. q = Inl z \<and> z \<noteq> io_EOF
       | Some (v, bs2) \<Rightarrow> q = Inr v \<and> reg h \<and> bits_of h = bs2 \<and> f_nb h \<le> max (f_nb g) 7"
    using readBits_ok [OF assms(8), of m] nb m16 assms(9) by auto
  note bh = bitio_sel [OF h(2)]
  have fh: "bitio f h" using assms(7) h(2) by (rule bitio_trans)
  show ?thesis
  proof (cases "take_num m bs1")
    case None
    then obtain z where z: "q = Inl z" "z \<noteq> io_EOF" using h(3) by auto
    have "read_lengths ?i n f = Some (Inl z, h)" using assms(2,3,5) rc h(1) z(1) by (subst read_lengths.simps) simp
    moreover have "take_lengths cl n bs acc = None" using assms(2,4,5,6,11) None by (subst take_lengths.simps) (simp del: split_paired_Ex)
    ultimately show ?thesis using lengths_error [OF bitio_e [OF fh] z(2)] by simp
  next
    case (Some p)
    obtain v bs2 where "p = (v, bs2)" by fastforce
    with Some have tn: "take_num m bs1 = Some (v, bs2)" by simp
    have kh: "q = Inr v" "reg h" "bits_of h = bs2" "f_nb h \<le> max (f_nb g) 7" using h(3) tn by auto
    have nh: "f_nb h \<le> max (f_nb f) 7" using kh(4) assms(10) by (simp add: max_def split: if_splits)
    show ?thesis
    proof (cases "n < ?i + (base + v)")
      case True
      have "read_lengths ?i n f = Some (Inl (CorruptInputError (f_roffset h)), h)"
        using assms(2,3,5) rc h(1) kh(1) True by (subst read_lengths.simps) (simp add: corrupt_def)
      moreover have "take_lengths cl n bs acc = None" using assms(2,4,5,6,11) tn True by (subst take_lengths.simps) simp
      ultimately show ?thesis using lengths_error [OF bitio_e [OF fh], of "CorruptInputError (f_roffset h)"] by (simp add: io_EOF_def)
    next
      case False
      let ?acc = "acc @ replicate (base + v) w" and ?b = "take ?i (f_bits h) @ replicate (base + v) w @ drop (?i + (base + v)) (f_bits h)"
      have st: "store_rep (base + v) ?i w (f_bits h) = Some ?b" using False pre(3) bg bh by (intro store_rep_eq) simp
      have lp: "read_lengths ?i n f = read_lengths (length ?acc) n (h\<lparr>f_bits := ?b\<rparr>)"
        using assms(2,3,5) rc h(1) kh(1) False st by (subst read_lengths.simps) (simp add: Let_def)
      have tk: "take_lengths cl n bs acc = take_lengths cl n bs2 ?acc" using assms(2,4,5,6,11) tn False by (subst take_lengths.simps) auto
      have hb: "take ?i (f_bits h) = acc" "length ?b = length (f_bits f)" using pre(2,3,4) bg bh False by simp_all
      have "f_nb h \<le> 22" using kh(4) nb by linarith
      then have "lengths_pre cl n bs2 ?acc (h\<lparr>f_bits := ?b\<rparr>)" unfolding lengths_pre_def
        using kh(2,3) pre(3,5,6) bg bh False hb by (simp add: bits_of_def reg_def)
      from assms(12) [OF tn False this] show ?thesis unfolding lp tk by (rule lengths_trans [OF fh nh hb(2)])
    qed
  qed
qed

lemma lengths_ok: "lengths_pre cl n bs acc f \<Longrightarrow> lengths_post f n (take_lengths cl n bs acc) (read_lengths (length acc) n f)"
proof (induction cl n bs acc arbitrary: f rule: take_lengths.induct)
  case (1 cl n bs acc)
  note pre = lengths_preD [OF "1.prems"]
  let ?i = "length acc"
  show ?case
  proof (cases "?i < n")
    case False
    then have "?i = n" using pre(2) by simp
    moreover have "read_lengths ?i n f = Some (Inr (), f)" "take_lengths cl n bs acc = Some (acc, bs)"
      using False by (subst read_lengths.simps, simp) (use False in \<open>subst take_lengths.simps, simp\<close>)
    ultimately show ?thesis unfolding lengths_post_def using pre(1,4,7) by (intro exI [of _ "Inr ()"] exI [of _ f] exI [of _ "f_bits f"]) simp
  next
    case True
    obtain r g where g: "huffSym (f_h1 f) f = Some (r, g)"
        "case take_sym cl bs of None \<Rightarrow> \<exists>x. r = Inl x \<and> x \<noteq> io_EOF \<and> bitioe f g
         | Some (i, bs') \<Rightarrow> r = Inr i \<and> bitio f g \<and> reg g \<and> bits_of g = bs' \<and> f_nb g \<le> max (f_nb f) 7"
      using huffSym_exact [OF pre(5,7,8)] pre(1) by blast
    show ?thesis
    proof (cases "take_sym cl bs")
      case None
      then obtain x where x: "r = Inl x" "x \<noteq> io_EOF" "bitioe f g" using g(2) by auto
      have "read_lengths ?i n f = Some (Inl x, g)" using g(1) x(1) True by (subst read_lengths.simps) simp
      moreover have "take_lengths cl n bs acc = None" using True None by (subst take_lengths.simps) simp
      ultimately show ?thesis using lengths_error [OF x(3,2)] by simp
    next
      case (Some p)
      obtain x bs1 where "p = (x, bs1)" by fastforce
      with Some have sy: "take_sym cl bs = Some (x, bs1)" by simp
      then have k: "r = Inr x" "bitio f g" "reg g" "bits_of g = bs1" "f_nb g \<le> max (f_nb f) 7" using g(2) by auto
      note hs = g(1) [unfolded k(1)]
      consider "x < 16" | "x = 16" "acc = []" | "\<not> x < 16" "\<not> (x = 16 \<and> acc = [])" by blast
      then show ?thesis
      proof cases
        case 1
        show ?thesis by (rule one_length [OF "1.prems" True hs sy 1 k(2-5)]) (rule "1.IH"(1) [OF True sy refl 1])
      next
        case 2
        have "read_lengths ?i n f = Some (Inl (CorruptInputError (f_roffset g)), g)" using True hs 2 by (subst read_lengths.simps) (simp add: repeat_code_def)
        moreover have "take_lengths cl n bs acc = None" using True sy 2 by (subst take_lengths.simps) simp
        ultimately show ?thesis using lengths_error [OF bitio_e [OF k(2)], of "CorruptInputError (f_roffset g)"] by (simp add: io_EOF_def)
      next
        case 3
        obtain base m w :: nat where w: "(if x = 16 then (3, 2, last acc) else if x = 17 then (3, 3, 0) else (11, 7, 0)) = (base, m, w)"
          by (metis prod_cases3)
        show ?thesis
          by (rule repeated_length [OF "1.prems" True hs sy 3 k(2-5) w]) (rule "1.IH"(2) [OF True sy refl 3 w [symmetric] refl refl _ refl])
      qed
    qed
  qed
qed

lemma read_lengths_ok:
  assumes "lengths_pre cl n bs [] f"
  shows "\<exists>r g b. read_lengths 0 n f = Some (r, g) \<and> bitioe (f\<lparr>f_bits := b\<rparr>) g \<and> length b = length (f_bits f) \<and>
    (case take_lengths cl n bs [] of
       None \<Rightarrow> \<exists>x. r = Inl x \<and> x \<noteq> io_EOF
     | Some (ls, bs') \<Rightarrow> r = Inr () \<and> f_err g = f_err f \<and> reg g \<and> bits_of g = bs' \<and> f_nb g \<le> max (f_nb f) 7 \<and> take n b = ls)"
  using lengths_ok [OF assms] by (simp add: lengths_post_def)

section \<open>The tables of a dynamic block\<close>

lemma take_lengths_less:
  assumes "take_lengths cl n bs acc = Some (ls, bs')" "\<forall>m \<in> set acc. m < 16" "length acc \<le> n" "length cl = 19"
  shows "(\<forall>m \<in> set ls. m < 16) \<and> length ls = n"
  using assms
proof (induction cl n bs acc rule: take_lengths.induct)
  case (1 cl n bs acc)
  show ?case
  proof (cases "length acc < n")
    case True
    obtain x bs1 where v: "take_sym cl bs = Some (x, bs1)" using 1(3) True by (subst (asm) take_lengths.simps) (auto split: option.splits)
    show ?thesis
    proof (cases "x < 16")
      case x: True
      have "take_lengths cl n bs1 (acc @ [x]) = Some (ls, bs')" using 1(3) v x True by (subst (asm) take_lengths.simps) simp
      then show ?thesis using 1(1) [OF True v refl x] 1(4,6) x True by simp
    next
      case False
      then have na: "\<not> (x = 16 \<and> acc = [])" using 1(3) v True by (subst (asm) take_lengths.simps) auto
      obtain base k w :: nat where w: "(if x = 16 then (3, 2, last acc) else if x = 17 then (3, 3, 0) else (11, 7, 0)) = (base, k, w)" by (metis prod_cases3)
      obtain m bs2 where m: "take_num k bs1 = Some (m, bs2)" "\<not> n < length acc + (base + m)" "take_lengths cl n bs2 (acc @ replicate (base + m) w) = Some (ls, bs')"
        using 1(3) True v False na w by (subst (asm) take_lengths.simps) (auto split: option.splits if_splits)
      have "w < 16"
      proof (cases "x = 16")
        case True
        then show ?thesis using w na 1(4) by auto
      qed (use w in \<open>auto split: if_splits\<close>)
      then have "\<forall>k \<in> set (acc @ replicate (base + m) w). k < 16" using 1(4) by auto
      then show ?thesis using 1(2) [OF True v refl False na w [symmetric] refl refl m(1) refl m(2,3)] 1(6) m(2) by simp
    qed
  next
    case False
    then have "ls = acc" using 1(3) by (subst (asm) take_lengths.simps) simp
    then show ?thesis using 1(4,5) False by simp
  qed
qed

text \<open>Everything but the input, the tables and the error.\<close>

definition core :: "decompressor \<Rightarrow> dictDecoder \<times> step \<times> stepState \<times> bool \<times> bytes \<times> nat \<times> nat" where
  "core f = (f_dict f, f_step f, f_stepState f, f_final f, f_toRead f, f_copyLen f, f_copyDist f)"

definition arrays :: "decompressor \<Rightarrow> bool" where
  "arrays f \<longleftrightarrow> length (f_bits f) = 316 \<and> length (f_codebits f) = 19 \<and> fresh (f_h1 f) \<and> fresh (f_h2 f)"

lemma bitioe_core: "bitioe f g \<Longrightarrow> core g = core f"
  by (simp add: core_def bitioe_sel)

lemma low5: "reg f \<Longrightarrow> 5 \<le> f_nb f \<Longrightarrow> unat (f_b f AND 0x1F) = num (take 5 (bits_of f))"
  using reg_low_bits [of f 5] by (simp add: take_bit_eq_mask mask_eq_exp_minus_1)

lemma low4: "reg f \<Longrightarrow> 4 \<le> f_nb f \<Longrightarrow> unat (f_b f AND 0xF) = num (take 4 (bits_of f))"
  using reg_low_bits [of f 4] by (simp add: take_bit_eq_mask mask_eq_exp_minus_1)

text \<open>The last step: both tables are made, and reading a symbol waits for the bits of the end marker.\<close>

lemma init_tables_ok:
  assumes "take (nlit + ndist) (f_bits f) = ls" "length ls = nlit + ndist" "256 < nlit" "\<forall>m \<in> set ls. m < 16" "arrays f" "ndist \<le> 32"
  shows "\<exists>r g. init_tables nlit ndist f = Some (r, g) \<and> core g = core f \<and> arrays g \<and> bits_of g = bits_of f \<and> reg g = reg f \<and> f_nb g = f_nb f \<and>
    (if good_code (take nlit ls) \<and> good_code (drop nlit ls)
     then r = Inr () \<and> f_err g = f_err f \<and> table (take nlit ls) (ls ! 256) (f_h1 g) \<and> table (drop nlit ls) 0 (f_h2 g)
     else \<exists>x. r = Inl x \<and> x \<noteq> io_EOF)"
proof -
  have t: "take nlit (f_bits f) = take nlit ls" "take ndist (drop nlit (f_bits f)) = drop nlit ls"
    using assms(1,2) by (auto simp: take_drop add.commute)
  have s: "\<forall>m \<in> set (take nlit ls). m < 16" "\<forall>m \<in> set (drop nlit ls). m < 16" using assms(4) in_set_takeD in_set_dropD by metis+
  have e: "f_bits f ! endBlockMarker = ls ! 256" using assms(1,2,3) by (auto simp: endBlockMarker_def)
  have "256 < length ls" using assms(2,3) by simp
  then have e15: "ls ! 256 \<le> 15" using assms(4) nth_mem [of 256 ls] by fastforce
  obtain ha where ha: "huffman_init (f_h1 f) (take nlit ls) = Some (good_code (take nlit ls), ha)" "good_code (take nlit ls) \<longrightarrow> table (take nlit ls) 0 ha" "fresh ha"
    using init_table [OF s(1), of "f_h1 f"] assms(5) by (auto simp: arrays_def)
  let ?f1 = "f\<lparr>f_h1 := ha\<rparr>"
  have i1: "init1 (take nlit (f_bits f)) f = Some (good_code (take nlit ls), ?f1)" using ha(1) t(1) by (simp add: init1_def)
  show ?thesis
  proof (cases "good_code (take nlit ls)")
    case False
    then show ?thesis using i1 ha(3) assms(5)
      by (auto simp: init_tables_def corrupt_def core_def arrays_def bits_of_def reg_def io_EOF_def)
  next
    case g1: True
    obtain hb where hb: "huffman_init (f_h2 f) (drop nlit ls) = Some (good_code (drop nlit ls), hb)" "good_code (drop nlit ls) \<longrightarrow> table (drop nlit ls) 0 hb" "fresh hb"
      using init_table [OF s(2), of "f_h2 f"] assms(5) by (auto simp: arrays_def)
    have i2: "init2 (take ndist (drop nlit (f_bits ?f1))) ?f1 = Some (good_code (drop nlit ls), ?f1\<lparr>f_h2 := hb\<rparr>)" using hb(1) t(2) by (simp add: init2_def)
    show ?thesis
    proof (cases "good_code (drop nlit ls)")
      case False
      then show ?thesis using i1 i2 g1 ha(3) hb(3) assms(5)
        by (auto simp: init_tables_def corrupt_def core_def arrays_def bits_of_def reg_def io_EOF_def)
    next
      case g2: True
      let ?h1 = "if h_min ha < ls ! 256 then ha\<lparr>h_min := ls ! 256\<rparr> else ha"
      have tb: "table (take nlit ls) 0 ha" using ha(2) g1 by simp
      have "huff_lookup ?h1 b = huff_lookup ha b" for b by (auto simp: huff_lookup_def Let_def)
      then have "table (take nlit ls) (ls ! 256) ?h1" using tb e15 by (auto simp: table_def split: if_splits)
      moreover have "fresh ?h1" using ha(3) by (auto simp: fresh_def)
      ultimately show ?thesis using i1 i2 g1 g2 ha(3) hb e assms(5)
        by (auto simp: init_tables_def core_def arrays_def bits_of_def reg_def)
    qed
  qed
qed

text \<open>The header of a dynamic block: its three numbers.\<close>

lemma readHuffman_head:
  assumes "reg f" "14 \<le> f_nb f" "bs = bits_of f"
  shows "unat (f_b f AND 0x1F) = num (take 5 bs)" "unat (drop_bit 5 (f_b f) AND 0x1F) = num (take 5 (drop 5 bs))"
    "unat (drop_bit 5 (drop_bit 5 (f_b f)) AND 0xF) = num (take 4 (drop 10 bs))"
    "reg (f\<lparr>f_b := drop_bit 4 (drop_bit 5 (drop_bit 5 (f_b f))), f_nb := f_nb f - 14\<rparr>)"
    "bits_of (f\<lparr>f_b := drop_bit 4 (drop_bit 5 (drop_bit 5 (f_b f))), f_nb := f_nb f - 14\<rparr>) = drop 14 bs"
proof -
  let ?f5 = "f\<lparr>f_b := drop_bit 5 (f_b f), f_nb := f_nb f - 5\<rparr>"
  let ?f10 = "?f5\<lparr>f_b := drop_bit 5 (f_b ?f5), f_nb := f_nb ?f5 - 5\<rparr>"
  let ?f14 = "?f10\<lparr>f_b := drop_bit 4 (f_b ?f10), f_nb := f_nb ?f10 - 4\<rparr>"
  have n: "5 \<le> f_nb f" "5 \<le> f_nb ?f5" "4 \<le> f_nb ?f10" using assms(2) by simp_all
  note d5 = reg_drop [OF assms(1) n(1) refl]
  note d10 = reg_drop [OF d5(1) n(2) refl]
  note d14 = reg_drop [OF d10(1) n(3) refl]
  show "unat (f_b f AND 0x1F) = num (take 5 bs)" using low5 [OF assms(1) n(1)] assms(3) by simp
  show "unat (drop_bit 5 (f_b f) AND 0x1F) = num (take 5 (drop 5 bs))" using low5 [OF d5(1) n(2)] d5(2) assms(3) by simp
  show "unat (drop_bit 5 (drop_bit 5 (f_b f)) AND 0xF) = num (take 4 (drop 10 bs))"
    using low4 [OF d10(1) n(3)] d10(2) d5(2) assms(3) by simp
  have e: "?f14 = f\<lparr>f_b := drop_bit 4 (drop_bit 5 (drop_bit 5 (f_b f))), f_nb := f_nb f - 14\<rparr>" by simp
  show "reg (f\<lparr>f_b := drop_bit 4 (drop_bit 5 (drop_bit 5 (f_b f))), f_nb := f_nb f - 14\<rparr>)" using d14(1) unfolding e .
  show "bits_of (f\<lparr>f_b := drop_bit 4 (drop_bit 5 (drop_bit 5 (f_b f))), f_nb := f_nb f - 14\<rparr>) = drop 14 bs"
    using d14(2) d10(2) d5(2) assms(3) unfolding e by simp
qed

text \<open>The rest of the header after these numbers, for both.\<close>

definition rest_tables :: "nat \<Rightarrow> nat \<Rightarrow> nat \<Rightarrow> decompressor \<Rightarrow> (unit result \<times> decompressor) option" where
  "rest_tables nlit ndist nclen f =
     (case read_codebits (take nclen codeOrder) f of
        (Some e, f) \<Rightarrow> Some (Inl e, f)
      | (None, f) \<Rightarrow>
          let f = zero_codebits (drop nclen codeOrder) f in
          (case init1 (f_codebits f) f of
             None \<Rightarrow> None
           | Some (False, f) \<Rightarrow> corrupt f
           | Some (True, f) \<Rightarrow> fbind (read_lengths 0 (nlit + ndist) f) (\<lambda>_ f. init_tables nlit ndist f)))"

definition ref_rest :: "nat \<Rightarrow> nat \<Rightarrow> nat \<Rightarrow> bits \<Rightarrow> (nat list \<times> nat list \<times> bits) option" where
  "ref_rest nlit ndist nclen bs =
     do {
       (vs, bs) \<leftarrow> take_nums nclen 3 bs;
       let cl = foldl (\<lambda>a (j, v). a[j := v]) (replicate 19 0) (zip codeOrder vs);
       if \<not> good_code cl then None else do {
         (ls, bs) \<leftarrow> take_lengths cl (nlit + ndist) bs [];
         if good_code (take nlit ls) \<and> good_code (drop nlit ls) then Some (take nlit ls, drop nlit ls, bs) else None
       }
     }"

lemma code_lengths_less:
  assumes "take_nums k 3 bs0 = Some (vs, bs)"
  shows "\<forall>m \<in> set (foldl (\<lambda>a (j, v). a[j := v]) (replicate 19 0) (zip codeOrder vs)). m < 16"
proof
  define cl where "cl = foldl (\<lambda>a (j, v). a[j := v]) (replicate 19 0) (zip codeOrder vs)"
  fix m assume "m \<in> set (foldl (\<lambda>a (j, v). a[j := v]) (replicate 19 0) (zip codeOrder vs))"
  moreover have "length cl = 19" by (simp add: cl_def foldl_update)
  ultimately obtain i where i: "i < 19" "cl ! i = m" by (auto simp: in_set_conv_nth cl_def)
  have d: "distinct (map fst (zip codeOrder vs))" using codeOrder_facts(1) by (simp add: map_fst_zip_take)
  have "cl ! i = (case map_of (zip codeOrder vs) i of Some v \<Rightarrow> v | None \<Rightarrow> 0)"
    using nth_foldl_update [OF d, of i "replicate 19 0"] i(1) by (simp add: cl_def split: option.split)
  moreover have "v < 16" if "map_of (zip codeOrder vs) i = Some v" for v
    using take_nums_less [OF assms, of v] that by (auto dest!: map_of_SomeD set_zip_rightD)
  ultimately show "m < 16" using i(2) by (auto split: option.splits)
qed

lemma rest_tables_ok:
  assumes "reg f" "f_nb f \<le> 7" "arrays f" "nclen \<le> 19" "256 < nlit" "nlit \<le> 286" "ndist \<le> 30"
  shows "\<exists>r g. rest_tables nlit ndist nclen f = Some (r, g) \<and> core g = core f \<and> arrays g \<and>
    (case ref_rest nlit ndist nclen (bits_of f) of
       None \<Rightarrow> \<exists>x. r = Inl x \<and> x \<noteq> io_EOF
     | Some (ls, ds, bs) \<Rightarrow> r = Inr () \<and> f_err g = f_err f \<and> reg g \<and> bits_of g = bs \<and> f_nb g \<le> 7 \<and>
         table ls (ls ! 256) (f_h1 g) \<and> table ds 0 (f_h2 g))"
proof -
  have lt: "length (take nclen codeOrder) = nclen" using assms(4) codeOrder_facts(3) by simp
  have n22: "f_nb f \<le> 22" using assms(2) by simp
  obtain e g c where g: "read_codebits (take nclen codeOrder) f = (e, g)" "bitio (f\<lparr>f_codebits := c\<rparr>) g" "length c = length (f_codebits f)"
    "case take_nums nclen 3 (bits_of f) of None \<Rightarrow> \<exists>x. e = Some x \<and> x \<noteq> io_EOF
     | Some (vs, bs) \<Rightarrow> e = None \<and> reg g \<and> bits_of g = bs \<and> f_nb g \<le> max (f_nb f) 7 \<and>
         c = foldl (\<lambda>a (j, v). a[j := v]) (f_codebits f) (zip (take nclen codeOrder) vs)"
    using read_codebits_ok [OF assms(1) n22, of "take nclen codeOrder"] unfolding lt by blast
  have cg: "core g = core f" "f_err g = f_err f" "f_bits g = f_bits f" "f_h1 g = f_h1 f" "f_h2 g = f_h2 f" "f_codebits g = c"
    using bitio_sel [OF g(2)] by (simp_all add: core_def)
  have ag: "arrays g" using assms(3) cg g(3) by (simp add: arrays_def)
  show ?thesis
  proof (cases "take_nums nclen 3 (bits_of f)")
    case None
    then obtain x where x: "e = Some x" "x \<noteq> io_EOF" using g(4) by auto
    then have "rest_tables nlit ndist nclen f = Some (Inl x, g)" using g(1) by (simp add: rest_tables_def)
    then show ?thesis using None x cg ag by (simp add: ref_rest_def)
  next
    case (Some p)
    obtain vs bs where "p = (vs, bs)" by fastforce
    with Some have vs: "take_nums nclen 3 (bits_of f) = Some (vs, bs)" by simp
    define cl where "cl = foldl (\<lambda>a (j, v). a[j := v]) (replicate 19 0) (zip codeOrder vs)"
    define z where "z = zero_codebits (drop nclen codeOrder) g"
    have k: "e = None" "reg g" "bits_of g = bs" "f_nb g \<le> 7" "c = foldl (\<lambda>a (j, v). a[j := v]) (f_codebits f) (zip (take nclen codeOrder) vs)"
      using g(4) vs assms(2) by auto
    have lvs: "length vs = nclen" using take_nums_Some [OF vs] by simp
    have zc: "f_codebits z = cl" unfolding z_def zero_codebits_def cl_def
      using codebits_total [OF _ lvs assms(4), of "f_codebits f"] assms(3) k(5) cg(6) by (simp add: arrays_def)
    have zf: "core z = core f" "f_err z = f_err f" "f_bits z = f_bits f" "f_h1 z = f_h1 f" "f_h2 z = f_h2 f" "reg z" "bits_of z = bs" "f_nb z \<le> 7"
      using cg k(2,3,4) by (simp_all add: z_def zero_codebits_def core_def reg_def bits_of_def)
    have lcl: "length cl = 19" by (simp add: cl_def foldl_update)
    have cl16: "\<forall>m \<in> set cl. m < 16" unfolding cl_def by (rule code_lengths_less [OF vs])
    obtain h where h: "huffman_init (f_h1 z) cl = Some (good_code cl, h)" "good_code cl \<longrightarrow> table cl 0 h" "fresh h"
      using init_table [OF cl16, of "f_h1 z"] assms(3) zf(4) by (auto simp: arrays_def)
    let ?z = "z\<lparr>f_h1 := h\<rparr>"
    have i1: "init1 (f_codebits z) z = Some (good_code cl, ?z)" using h(1) zc by (simp add: init1_def)
    have az: "arrays ?z" using assms(3) zf zc lcl h(3) by (simp add: arrays_def)
    have st: "rest_tables nlit ndist nclen f = (case Some (good_code cl, ?z) of None \<Rightarrow> None | Some (False, f) \<Rightarrow> corrupt f
           | Some (True, f) \<Rightarrow> fbind (read_lengths 0 (nlit + ndist) f) (\<lambda>_ f. init_tables nlit ndist f))"
      using g(1) k(1) i1 by (simp add: rest_tables_def z_def [symmetric] Let_def)
    have rr: "ref_rest nlit ndist nclen (bits_of f) = (if \<not> good_code cl then None else do {
         (ls, bs) \<leftarrow> take_lengths cl (nlit + ndist) bs [];
         if good_code (take nlit ls) \<and> good_code (drop nlit ls) then Some (take nlit ls, drop nlit ls, bs) else None })"
      unfolding ref_rest_def vs cl_def by simp
    show ?thesis
    proof (cases "good_code cl")
      case False
      have "core ?z = core f" using zf(1) by (simp add: core_def)
      then show ?thesis unfolding st rr using False az by (simp add: corrupt_def io_EOF_def)
    next
      case True
      have pre: "lengths_pre cl (nlit + ndist) bs [] ?z" unfolding lengths_pre_def
        using zf assms(3,6,7) h(2) True lcl by (simp add: bits_of_def reg_def arrays_def)
      obtain r q b where q: "read_lengths 0 (nlit + ndist) ?z = Some (r, q)" "bitioe (?z\<lparr>f_bits := b\<rparr>) q" "length b = length (f_bits ?z)"
          "case take_lengths cl (nlit + ndist) bs [] of None \<Rightarrow> \<exists>x. r = Inl x \<and> x \<noteq> io_EOF
           | Some (ls, bs') \<Rightarrow> r = Inr () \<and> f_err q = f_err ?z \<and> reg q \<and> bits_of q = bs' \<and> f_nb q \<le> max (f_nb ?z) 7 \<and> take (nlit + ndist) b = ls"
        using read_lengths_ok [OF pre] by blast
      have qs: "core q = core f" "f_h1 q = h" "f_h2 q = f_h2 f" "f_bits q = b" "f_codebits q = cl"
        using bitioe_sel [OF q(2)] zf zc by (simp_all add: core_def)
      have aq: "arrays q" using az qs q(3) zf assms(3) lcl by (simp add: arrays_def)
      show ?thesis
      proof (cases "take_lengths cl (nlit + ndist) bs []")
        case None
        then obtain x where "r = Inl x" "x \<noteq> io_EOF" using q(4) by auto
        then show ?thesis unfolding st rr using True None q(1) qs(1) aq by (simp add: fbind_def)
      next
        case (Some p)
        obtain ls bs' where "p = (ls, bs')" by fastforce
        with Some have tl: "take_lengths cl (nlit + ndist) bs [] = Some (ls, bs')" by simp
        have kq: "r = Inr ()" "f_err q = f_err f" "reg q" "bits_of q = bs'" "f_nb q \<le> 7" "take (nlit + ndist) (f_bits q) = ls"
          using q(4) tl zf qs(4) by auto
        have l16: "\<forall>m \<in> set ls. m < 16" "length ls = nlit + ndist" using take_lengths_less [OF tl] lcl by simp_all
        have n32: "ndist \<le> 32" using assms(7) by simp
        obtain r' q' where q': "init_tables nlit ndist q = Some (r', q')" "core q' = core q" "arrays q'" "bits_of q' = bits_of q" "reg q' = reg q" "f_nb q' = f_nb q"
          "if good_code (take nlit ls) \<and> good_code (drop nlit ls)
           then r' = Inr () \<and> f_err q' = f_err q \<and> table (take nlit ls) (ls ! 256) (f_h1 q') \<and> table (drop nlit ls) 0 (f_h2 q')
           else \<exists>x. r' = Inl x \<and> x \<noteq> io_EOF"
          using init_tables_ok [OF kq(6) l16(2) assms(5) l16(1) aq n32] by blast
        have "rest_tables nlit ndist nclen f = Some (r', q')" unfolding st using True q(1) kq(1) q'(1) by (simp add: fbind_def)
        then show ?thesis unfolding rr using True tl q' qs(1) kq assms(5) by (simp split: if_splits)
      qed
    qed
  qed
qed

lemma take_tables_rest:
  "take_tables bs =
     (if length bs < 14 then None
      else
        (let nlit = num (take 5 bs) + 257; ndist = num (take 5 (drop 5 bs)) + 1 in
         if nlit > 286 \<or> ndist > 30 then None
         else ref_rest nlit ndist (num (take 4 (drop 10 bs)) + 4) (drop 14 bs)))"
proof -
  consider "length bs < 5" | "5 \<le> length bs" "length bs < 10" | "10 \<le> length bs" "length bs < 14" | "14 \<le> length bs" by linarith
  then show ?thesis
  proof cases
    case 4
    then have "5 \<le> length bs" "5 \<le> length bs - 5" "4 \<le> length bs - 10" "\<not> length bs < 14" by simp_all
    then show ?thesis by (simp add: take_tables_def take_num_def ref_rest_def Let_def)
  qed (simp_all add: take_tables_def take_num_def Let_def)
qed

lemma readHuffman_rest:
  "readHuffman f0 =
     (case need 14 f0 of
        (Some e, f) \<Rightarrow> Some (Inl e, f)
      | (None, f) \<Rightarrow>
          let nlit = unat (f_b f AND 0x1F) + 257 in
          if nlit > maxNumLit then corrupt f
          else
            (let f = f\<lparr>f_b := drop_bit 5 (f_b f)\<rparr>; ndist = unat (f_b f AND 0x1F) + 1 in
             if ndist > maxNumDist then corrupt f
             else
               rest_tables nlit ndist (unat (drop_bit 5 (f_b f) AND 0xF) + 4)
                 (f\<lparr>f_b := drop_bit 4 (drop_bit 5 (f_b f)), f_nb := f_nb f - 14\<rparr>)))"
  by (simp add: readHuffman_def rest_tables_def Let_def cong: option.case_cong prod.case_cong if_cong)

lemma readHuffman_ok:
  assumes "reg f" "f_nb f \<le> 7" "arrays f"
  shows "\<exists>r g. readHuffman f = Some (r, g) \<and> core g = core f \<and> arrays g \<and>
    (case take_tables (bits_of f) of
       None \<Rightarrow> \<exists>x. r = Inl x \<and> x \<noteq> io_EOF
     | Some (ls, ds, bs) \<Rightarrow> r = Inr () \<and> f_err g = f_err f \<and> reg g \<and> bits_of g = bs \<and> f_nb g \<le> 7 \<and>
         table ls (ls ! 256) (f_h1 g) \<and> table ds 0 (f_h2 g))"
proof -
  let ?bs = "bits_of f"
  obtain e g where g: "need 14 f = (e, g)" "bitio f g"
    "if 14 \<le> avail f then e = None \<and> reg g \<and> bits_of g = ?bs \<and> 14 \<le> f_nb g \<and> f_nb g \<le> max (f_nb f) (14 + 7) else \<exists>x. e = Some x \<and> x \<noteq> io_EOF"
    using need_ok [OF assms(1), of 14] assms(2) by auto
  note bg = bitio_sel [OF g(2)]
  have cg: "core g = core f" "arrays g" using bg assms(3) by (simp_all add: core_def arrays_def)
  show ?thesis
  proof (cases "14 \<le> avail f")
    case False
    then show ?thesis using g cg by (auto simp: readHuffman_rest take_tables_rest)
  next
    case True
    then have k: "e = None" "reg g" "bits_of g = ?bs" "14 \<le> f_nb g" "f_nb g \<le> 21" using g(3) assms(2) by auto
    note hd = readHuffman_head [OF k(2,4) k(3) [symmetric]]
    let ?nlit = "num (take 5 ?bs) + 257" and ?ndist = "num (take 5 (drop 5 ?bs)) + 1" and ?nclen = "num (take 4 (drop 10 ?bs)) + 4"
    let ?g1 = "g\<lparr>f_b := drop_bit 5 (f_b g)\<rparr>" and ?g2 = "g\<lparr>f_b := drop_bit 4 (drop_bit 5 (drop_bit 5 (f_b g))), f_nb := f_nb g - 14\<rparr>"
    have rd: "readHuffman f = (if ?nlit > maxNumLit then corrupt g else if ?ndist > maxNumDist then corrupt ?g1 else rest_tables ?nlit ?ndist ?nclen ?g2)"
      using g(1) k(1) hd(1,2,3) by (simp add: readHuffman_rest Let_def)
    have tt: "take_tables ?bs = (if ?nlit > 286 \<or> ?ndist > 30 then None else ref_rest ?nlit ?ndist ?nclen (drop 14 ?bs))"
      using True by (simp add: take_tables_rest Let_def)
    have c2: "core ?g2 = core f" "arrays ?g2" "core ?g1 = core f" "arrays ?g1" "f_err ?g2 = f_err f" using cg bg by (simp_all add: core_def arrays_def)
    show ?thesis
    proof (cases "?nlit > 286 \<or> ?ndist > 30")
      case True
      then show ?thesis unfolding rd tt using cg c2 by (auto simp: corrupt_def io_EOF_def maxNumLit_def maxNumDist_def)
    next
      case False
      have nc: "?nclen \<le> 19"
      proof -
        have "length (take 4 (drop 10 ?bs)) = 4" using True by simp
        then show ?thesis using num_less [of "take 4 (drop 10 ?bs)"] by simp
      qed
      have a: "reg ?g2" "f_nb ?g2 \<le> 7" "256 < ?nlit" "?nlit \<le> 286" "?ndist \<le> 30" using hd(4) k(5) False by simp_all
      have "rest_tables ?nlit ?ndist ?nclen ?g2 = readHuffman f" "ref_rest ?nlit ?ndist ?nclen (bits_of ?g2) = take_tables ?bs"
        unfolding rd tt hd(5) using False by (simp_all add: maxNumLit_def maxNumDist_def)
      then show ?thesis using rest_tables_ok [OF a(1,2) c2(2) nc a(3,4,5)] unfolding c2(1,5) by simp
    qed
  qed
qed

end
