(* ===== verification/FlateCorrect.thy ===== *)
theory FlateCorrect
  imports FlateTables
begin

unbundle bit_operations_syntax

text \<open>
  The inflater against the reference: from every state between two steps, what the remaining steps
  write and where they end is what the reference makes of the remaining bits after the output so
  far; and however the stream is read, the reads deliver the output of the reference, then
  \<open>io.EOF\<close>, and fail on every other input.
\<close>

section \<open>References\<close>

lemma length_code_table:
  assumes "257 \<le> v"
  shows "length_code v = (if v - 257 < 29 then Some (length_base ! (v - 257), length_extra ! (v - 257)) else None)"
proof (cases "v - 257 < 29")
  case True
  have u: "[0..<29] = [0, 1, 2, 3, 4, 5, 6, 7, 8, 9, 10, 11, 12, 13, 14, 15, 16, 17, 18, 19, 20, 21, 22, 23, 24, 25, 26, 27, 28]" by (simp add: upt_rec)
  have m: "map (\<lambda>k. length_code (k + 257)) [0..<29] = map Some (zip length_base length_extra)"
    unfolding u by (simp add: length_code_def length_base_def length_extra_def maxNumLit_def)
  have "length length_base = 29" "length length_extra = 29" by (simp_all add: length_base_def length_extra_def)
  then show ?thesis using arg_cong [OF m, of "\<lambda>l. l ! (v - 257)"] True assms by simp
qed (use assms in \<open>simp add: length_code_def maxNumLit_def\<close>)

lemma take_num_0 [simp]: "take_num 0 bs = Some (0, bs)"
  by (simp add: take_num_def num_def)

lemma read_length_ok:
  assumes "reg f" "f_nb f \<le> 22" "257 \<le> v"
  shows "\<exists>r g. read_length v f = Some (r, g) \<and> bitio f g \<and>
    (case take_length v (bits_of f) of None \<Rightarrow> \<exists>x. r = Inl x \<and> x \<noteq> io_EOF
     | Some (len, bs) \<Rightarrow> r = Inr len \<and> reg g \<and> bits_of g = bs \<and> f_nb g \<le> max (f_nb f) 7)"
proof (cases "v - 257 < 29")
  case False
  then show ?thesis using assms(3) by (simp add: read_length_def length_code_table take_length_def corrupt_def io_EOF_def)
next
  case True
  let ?n = "length_extra ! (v - 257)"
  have "\<forall>k \<in> set [0..<29]. length_extra ! k \<le> 16" by code_simp
  then have n: "?n \<le> 16" using True by simp
  show ?thesis
  proof (cases "?n = 0")
    case z: True
    then show ?thesis using True assms by (simp add: read_length_def length_code_table take_length_def)
  next
    case False
    obtain r g where g: "readBits ?n f = (r, g)" "bitio f g"
      "case take_num ?n (bits_of f) of None \<Rightarrow> \<exists>x. r = Inl x \<and> x \<noteq> io_EOF
       | Some (v, bs) \<Rightarrow> r = Inr v \<and> reg g \<and> bits_of g = bs \<and> f_nb g \<le> max (f_nb f) 7"
      using readBits_ok [OF assms(1) _ n] assms(2) by auto
    show ?thesis using True False g assms(3)
      by (cases "take_num ?n (bits_of f)") (auto simp: read_length_def length_code_table take_length_def)
  qed
qed

definition hd_ok :: "decompressor \<Rightarrow> nat list \<Rightarrow> bool" where
  "hd_ok f ds \<longleftrightarrow> (case f_hd f of None \<Rightarrow> ds = fixed_dists | Some t \<Rightarrow> table ds 0 (htab t f))"

definition hl_ok :: "decompressor \<Rightarrow> nat list \<Rightarrow> bool" where
  "hl_ok f ls \<longleftrightarrow> (case f_hl f of None \<Rightarrow> False | Some t \<Rightarrow> table ls (ls ! 256) (htab t f))"

lemma tables_cong:
  assumes "f_hl g = f_hl f" "f_hd g = f_hd f" "f_h1 g = f_h1 f" "f_h2 g = f_h2 f"
  shows "hd_ok g ds = hd_ok f ds" "hl_ok g ls = hl_ok f ls"
proof -
  have "htab t g = htab t f" for t using assms by (cases t) (simp_all add: htab_def)
  then show "hd_ok g ds = hd_ok f ds" "hl_ok g ls = hl_ok f ls" using assms by (simp_all add: hd_ok_def hl_ok_def cong: option.case_cong)
qed

lemma dist_symbol_ok:
  assumes "reg f" "f_nb f \<le> 22" "hd_ok f ds"
  shows "\<exists>r g. dist_symbol f = Some (r, g) \<and>
    (case take_sym ds (bits_of f) of None \<Rightarrow> \<exists>x. r = Inl x \<and> x \<noteq> io_EOF \<and> bitioe f g
     | Some (i, bs) \<Rightarrow> r = Inr i \<and> bitio f g \<and> reg g \<and> bits_of g = bs \<and> f_nb g \<le> max (f_nb f) 7)"
proof (cases "f_hd f")
  case (Some t)
  then show ?thesis using huffSym_exact [of ds "htab t f" f] assms by (simp add: dist_symbol_def hd_ok_def)
next
  case None
  then have ds: "ds = fixed_dists" using assms(3) by (simp add: hd_ok_def)
  obtain e g where g: "need 5 f = (e, g)" "bitio f g"
    "if 5 \<le> avail f then e = None \<and> reg g \<and> bits_of g = bits_of f \<and> 5 \<le> f_nb g \<and> f_nb g \<le> max (f_nb f) (5 + 7) else \<exists>x. e = Some x \<and> x \<noteq> io_EOF"
    using need_ok [OF assms(1), of 5] assms(2) by auto
  show ?thesis
  proof (cases "5 \<le> avail f")
    case False
    then show ?thesis using g None ds by (auto simp: dist_symbol_def fixed_dist_sym)
  next
    case True
    then have k: "e = None" "reg g" "bits_of g = bits_of f" "5 \<le> f_nb g" "f_nb g \<le> max (f_nb f) 12" using g(3) by auto
    let ?x = "num (take 5 (bits_of f))"
    let ?g = "g\<lparr>f_b := drop_bit 5 (f_b g), f_nb := f_nb g - 5\<rparr>"
    note d = reg_drop [OF k(2,4) refl]
    have l: "unat (f_b g AND 0x1F) = ?x" using low5 [OF k(2,4)] k(3) by simp
    have x: "?x < 32" using num_less [of "take 5 (bits_of f)"] True by simp
    have "unat (push_bit 3 (f_b g AND 0x1F)) = 8 * ?x"
    proof -
      have "unat (push_bit 3 (f_b g AND 0x1F)) = take_bit 32 (push_bit 3 (unat (f_b g AND 0x1F)))" unfolding unsigned_push_bit_eq by simp
      also have "\<dots> = 8 * ?x" using l x by (simp add: push_bit_eq_mult take_bit_eq_mod)
      finally show ?thesis .
    qed
    then have "rev_n 8 (unat (push_bit 3 (f_b g AND 0x1F))) = rev_n 5 ?x" using rev_byte5 [OF x] by simp
    then have "dist_symbol f = Some (Inr (rev_n 5 ?x), ?g)" using None g(1) k(1) by (simp add: dist_symbol_def)
    moreover have "f_nb ?g \<le> max (f_nb f) 7" using k(5) unfolding d(4) by linarith
    ultimately show ?thesis using d k True ds bitio_trans [OF g(2) d(3)] by (simp add: fixed_dist_sym)
  qed
qed

lemma dist_formulas:
  assumes "d < 30"
  shows "dist_extra ! d = (if d < 4 then 0 else (d - 2) div 2)"
    "dist_base ! d = (if d < 4 then d + 1 else (2 + d mod 2) * 2 ^ ((d - 2) div 2) + 1)"
proof -
  have u: "[0..<30] = [0, 1, 2, 3, 4, 5, 6, 7, 8, 9, 10, 11, 12, 13, 14, 15, 16, 17, 18, 19, 20, 21, 22, 23, 24, 25, 26, 27, 28, 29]" by (simp add: upt_rec)
  have "dist_extra = map (\<lambda>d. if d < 4 then 0 else (d - 2) div 2) [0..<30]" unfolding u by (simp add: dist_extra_def)
  from arg_cong [OF this, of "\<lambda>l. l ! d"] show "dist_extra ! d = (if d < 4 then 0 else (d - 2) div 2)" using assms by simp
  have "dist_base = map (\<lambda>d. if d < 4 then d + 1 else (2 + d mod 2) * 2 ^ ((d - 2) div 2) + 1) [0..<30]"
    unfolding u by (simp add: dist_base_def)
  from arg_cong [OF this, of "\<lambda>l. l ! d"] show "dist_base ! d = (if d < 4 then d + 1 else (2 + d mod 2) * 2 ^ ((d - 2) div 2) + 1)"
    using assms by simp
qed

lemma dist_tables:
  assumes "d < 30"
  shows "dist_extra ! d \<le> 16" "0 < dist_base ! d" "dist_base ! d + 2 ^ (dist_extra ! d) \<le> 32769"
    "d < 4 \<Longrightarrow> dist_extra ! d = 0 \<and> dist_base ! d = d + 1"
    "4 \<le> d \<Longrightarrow> drop_bit 1 (d - 2) = dist_extra ! d \<and>
       push_bit (dist_extra ! d + 1) 1 + 1 + push_bit (dist_extra ! d) (d AND 1) = dist_base ! d"
proof -
  let ?k = "(d - 2) div 2"
  note f = dist_formulas [OF assms]
  have k: "?k \<le> 13" using assms by simp
  then show "dist_extra ! d \<le> 16" "0 < dist_base ! d" using f by simp_all
  have p: "(2 :: nat) ^ ?k \<le> 2 ^ 13" using k by (intro power_increasing) auto
  have "(2 + d mod 2) * 2 ^ ?k \<le> 3 * 2 ^ ?k" by (intro mult_right_mono) auto
  moreover have "x + 1 + y \<le> 32769" if "x \<le> 3 * y" "y \<le> 2 ^ 13" for x y :: nat using that by simp
  ultimately have "(2 + d mod 2) * 2 ^ ?k + 1 + 2 ^ ?k \<le> 32769" using p by blast
  then show "dist_base ! d + 2 ^ (dist_extra ! d) \<le> 32769" using f by simp
  show "d < 4 \<Longrightarrow> dist_extra ! d = 0 \<and> dist_base ! d = d + 1" using f by simp
  assume d: "4 \<le> d"
  have "push_bit (?k + 1) 1 + 1 + push_bit ?k (d AND 1) = (2 + d mod 2) * 2 ^ ?k + 1"
    by (simp add: push_bit_eq_mult and_one_eq algebra_simps)
  then show "drop_bit 1 (d - 2) = dist_extra ! d \<and> push_bit (dist_extra ! d + 1) 1 + 1 + push_bit (dist_extra ! d) (d AND 1) = dist_base ! d"
    using f d by (simp add: drop_bit_eq_div)
qed

lemma push_or: "x < 2 ^ k \<Longrightarrow> push_bit k m OR x = push_bit k m + (x :: nat)"
proof -
  assume "x < 2 ^ k"
  then have "take_bit k x = x" by (simp add: take_bit_nat_eq_self)
  then have "\<not> bit (push_bit k m) n \<or> \<not> bit x n" for n by (metis bit_push_bit_iff_nat bit_take_bit_iff not_le)
  then have "push_bit k m AND x = 0" by (intro bit_eqI) (auto simp: bit_and_iff)
  then show ?thesis by (rule disjunctive_add_eq_or [symmetric])
qed

lemma read_dist_ok:
  assumes "reg f" "f_nb f \<le> 22" "hd_ok f ds"
  shows "\<exists>r g. read_dist f = Some (r, g) \<and>
    (case take_dist ds (bits_of f) of None \<Rightarrow> \<exists>x. r = Inl x \<and> x \<noteq> io_EOF \<and> bitioe f g
     | Some (d, bs) \<Rightarrow> r = Inr d \<and> bitio f g \<and> reg g \<and> bits_of g = bs \<and> f_nb g \<le> max (f_nb f) 7 \<and> 0 < d \<and> d \<le> 32768)"
proof -
  obtain r g where g: "dist_symbol f = Some (r, g)"
    "case take_sym ds (bits_of f) of None \<Rightarrow> \<exists>x. r = Inl x \<and> x \<noteq> io_EOF \<and> bitioe f g
     | Some (i, bs) \<Rightarrow> r = Inr i \<and> bitio f g \<and> reg g \<and> bits_of g = bs \<and> f_nb g \<le> max (f_nb f) 7"
    using dist_symbol_ok [OF assms] by blast
  show ?thesis
  proof (cases "take_sym ds (bits_of f)")
    case None
    then show ?thesis using g by (auto simp: read_dist_def fbind_def take_dist_def)
  next
    case (Some p)
    obtain d bs where "p = (d, bs)" by fastforce
    with Some have sy: "take_sym ds (bits_of f) = Some (d, bs)" by simp
    then have k: "r = Inr d" "bitio f g" "reg g" "bits_of g = bs" "f_nb g \<le> max (f_nb f) 7" using g(2) by auto
    consider "30 \<le> d" | "d < 4" | "4 \<le> d" "d < 30" by linarith
    then show ?thesis
    proof cases
      case 1
      then show ?thesis using g(1) k sy by (auto simp: read_dist_def fbind_def take_dist_def maxNumDist_def corrupt_def io_EOF_def)
    next
      case 2
      then show ?thesis using g(1) k sy dist_tables(4) [of d] by (auto simp: read_dist_def fbind_def take_dist_def)
    next
      case 3
      note t = dist_tables [OF 3(2)]
      have n: "f_nb g \<le> 24" using k(5) assms(2) by linarith
      obtain q h where h: "readBits (dist_extra ! d) g = (q, h)" "bitio g h"
          "case take_num (dist_extra ! d) bs of None \<Rightarrow> \<exists>x. q = Inl x \<and> x \<noteq> io_EOF
           | Some (v, bs) \<Rightarrow> q = Inr v \<and> reg h \<and> bits_of h = bs \<and> f_nb h \<le> max (f_nb g) 7"
        using readBits_ok [OF k(3) n t(1)] k(4) by auto
      have rd: "read_dist f = (case q of Inl e \<Rightarrow> Some (Inl e, h) | Inr x \<Rightarrow> Some (Inr (push_bit (dist_extra ! d + 1) 1 + 1 + (push_bit (dist_extra ! d) (d AND 1) OR x)), h))"
        using g(1) k(1) 3 t(5) h(1) by (simp add: read_dist_def fbind_def maxNumDist_def Let_def split: sum.split)
      show ?thesis
      proof (cases "take_num (dist_extra ! d) bs")
        case None
        then show ?thesis using rd h sy 3(2) bitio_trans [OF k(2) h(2)] by (auto simp: take_dist_def)
      next
        case (Some p)
        obtain x bs2 where "p = (x, bs2)" by fastforce
        with Some have tn: "take_num (dist_extra ! d) bs = Some (x, bs2)" by simp
        have xl: "x < 2 ^ (dist_extra ! d)" by (rule take_num_less [OF tn])
        have "push_bit (dist_extra ! d + 1) 1 + 1 + (push_bit (dist_extra ! d) (d AND 1) OR x) = dist_base ! d + x"
          using push_or [OF xl, of "d AND 1"] t(5) [OF 3(1)] by simp
        moreover have "0 < dist_base ! d + x" "dist_base ! d + x \<le> 32768" using t(2,3) xl by linarith+
        moreover have "f_nb h \<le> max (f_nb f) 7" if "f_nb h \<le> max (f_nb g) 7" using that k(5) by linarith
        ultimately show ?thesis using rd h tn sy 3(2) bitio_trans [OF k(2) h(2)] by (simp add: take_dist_def)
      qed
    qed
  qed
qed

text \<open>A whole back reference.\<close>

definition take_ref :: "nat list \<Rightarrow> nat \<Rightarrow> bits \<Rightarrow> bytes \<Rightarrow> (nat \<times> nat \<times> bits) option" where
  "take_ref ds v bs out =
     (case take_length v bs of
        None \<Rightarrow> None
      | Some (len, bs2) \<Rightarrow>
          (case take_dist ds bs2 of
             None \<Rightarrow> None
           | Some (dist, bs3) \<Rightarrow> if dist > length out then None else Some (len, dist, bs3)))"

lemma take_syms_ref:
  "take_syms ls ds bs out =
     (case take_sym ls bs of
        None \<Rightarrow> None
      | Some (v, bs1) \<Rightarrow>
          if v < 256 then take_syms ls ds bs1 (out @ [char_of v])
          else if v = 256 then Some (bs1, out)
          else (case take_ref ds v bs1 out of None \<Rightarrow> None | Some (len, dist, bs3) \<Rightarrow> take_syms ls ds bs3 (lz_copy dist len out)))"
  by (subst take_syms.simps) (simp add: take_ref_def split: option.split prod.split)

lemma read_ref_ok:
  assumes "reg f" "f_nb f \<le> 22" "hd_ok f ds" "257 \<le> v" "window maxMatchOffset (f_dict f) out m" "0 < availWrite (f_dict f)"
  shows "\<exists>r g. read_ref v f = Some (r, g) \<and>
    (case take_ref ds v (bits_of f) out of
       None \<Rightarrow> \<exists>x. r = Inl x \<and> x \<noteq> io_EOF \<and> bitioe f g
     | Some (len, dist, bs) \<Rightarrow> r = Inr () \<and> bitio (f\<lparr>f_copyLen := len, f_copyDist := dist\<rparr>) g \<and> reg g \<and> bits_of g = bs \<and>
         f_nb g \<le> max (f_nb f) 7 \<and> 0 < dist \<and> dist \<le> histSize (f_dict f))"
proof -
  obtain r g where g: "read_length v f = Some (r, g)" "bitio f g"
    "case take_length v (bits_of f) of None \<Rightarrow> \<exists>x. r = Inl x \<and> x \<noteq> io_EOF
     | Some (len, bs) \<Rightarrow> r = Inr len \<and> reg g \<and> bits_of g = bs \<and> f_nb g \<le> max (f_nb f) 7"
    using read_length_ok [OF assms(1,2,4)] by blast
  show ?thesis
  proof (cases "take_length v (bits_of f)")
    case None
    then show ?thesis using g by (auto simp: read_ref_def fbind_def take_ref_def)
  next
    case (Some p)
    obtain len bs2 where "p = (len, bs2)" by fastforce
    with Some have tl: "take_length v (bits_of f) = Some (len, bs2)" by simp
    then have k: "r = Inr len" "reg g" "bits_of g = bs2" "f_nb g \<le> max (f_nb f) 7" using g(3) by auto
    have n: "f_nb g \<le> 22" using k(4) assms(2) by linarith
    have hg: "hd_ok g ds" using assms(3) bitio_sel [OF g(2)] by (simp add: tables_cong [of g f])
    obtain q h where h: "read_dist g = Some (q, h)"
      "case take_dist ds bs2 of None \<Rightarrow> \<exists>x. q = Inl x \<and> x \<noteq> io_EOF \<and> bitioe g h
       | Some (d, bs) \<Rightarrow> q = Inr d \<and> bitio g h \<and> reg h \<and> bits_of h = bs \<and> f_nb h \<le> max (f_nb g) 7 \<and> 0 < d \<and> d \<le> 32768"
      using read_dist_ok [OF k(2) n hg] unfolding k(3) by blast
    show ?thesis
    proof (cases "take_dist ds bs2")
      case None
      then show ?thesis using g(1) k(1) h tl bitio_bitioe [OF g(2)] by (auto simp: read_ref_def fbind_def take_ref_def)
    next
      case (Some p)
      obtain d bs3 where "p = (d, bs3)" by fastforce
      with Some have td: "take_dist ds bs2 = Some (d, bs3)" by simp
      then have kh: "q = Inr d" "bitio g h" "reg h" "bits_of h = bs3" "f_nb h \<le> max (f_nb g) 7" "0 < d" "d \<le> 32768" using h(2) by auto
      have fh: "bitio f h" using g(2) kh(2) by (rule bitio_trans)
      have hs: "histSize (f_dict h) = min maxMatchOffset (length out)" "histSize (f_dict f) = min maxMatchOffset (length out)"
        using window_histSize [OF assms(5,6)] bitio_sel [OF fh] by simp_all
      show ?thesis
      proof (cases "length out < d")
        case True
        then show ?thesis using g(1) k(1) h(1) kh tl td hs fh
          by (auto simp: read_ref_def fbind_def take_ref_def corrupt_def io_EOF_def)
      next
        case False
        then have "\<not> histSize (f_dict h) < d" "d \<le> histSize (f_dict f)" using hs kh(7) by (simp_all add: maxMatchOffset_def)
        moreover have "bitio (f\<lparr>f_copyLen := len, f_copyDist := d\<rparr>) (h\<lparr>f_copyLen := len, f_copyDist := d\<rparr>)"
          using fh by (cases f; cases h) (simp add: bitio_def)
        moreover have "f_nb h \<le> max (f_nb f) 7" using kh(5) k(4) by linarith
        moreover have "reg (h\<lparr>f_copyLen := len, f_copyDist := d\<rparr>)" "bits_of (h\<lparr>f_copyLen := len, f_copyDist := d\<rparr>) = bs3"
          using kh(3,4) by (simp_all add: reg_def bits_of_def)
        ultimately show ?thesis using g(1) k(1) h(1) kh(1,6) tl td False
          by (simp add: read_ref_def fbind_def take_ref_def)
      qed
    qed
  qed
qed

lemma copy_history_ok:
  assumes "window W (f_dict f) out m" "0 < availWrite (f_dict f)" "0 < f_copyDist f" "f_copyDist f \<le> histSize (f_dict f)"
  shows "\<exists>d cnt. copy_history f = Some (f\<lparr>f_dict := d, f_copyLen := f_copyLen f - cnt\<rparr>) \<and> cnt \<le> f_copyLen f \<and>
    window W d (lz_copy (f_copyDist f) cnt out) m \<and> cnt = min (f_copyLen f) (availWrite (f_dict f)) \<and> availWrite d = availWrite (f_dict f) - cnt"
proof -
  let ?n = "f_copyLen f" and ?a = "availWrite (f_dict f)"
  obtain d where d: "writeCopy (f_dict f) (f_copyDist f) ?n = Some (min ?n ?a, d)" "window W d (lz_copy (f_copyDist f) (min ?n ?a) out) m"
      "availWrite d = ?a - min ?n ?a"
    using window_writeCopy [OF assms, of ?n] by blast
  have c: "copy_history f = Some (f\<lparr>f_dict := d, f_copyLen := ?n - min ?n ?a\<rparr>)" if "tryWriteCopy (f_dict f) (f_copyDist f) ?n = Some (0, f_dict f)"
    using that d(1) by (simp add: copy_history_def)
  consider "tryWriteCopy (f_dict f) (f_copyDist f) ?n = Some (0, f_dict f)"
    | d' where "?n \<le> ?a" "tryWriteCopy (f_dict f) (f_copyDist f) ?n = Some (?n, d')" "window W d' (lz_copy (f_copyDist f) ?n out) m" "availWrite d' = ?a - ?n"
    using window_tryWriteCopy [OF assms, of ?n] by blast
  then show ?thesis
  proof cases
    case 1
    then show ?thesis using c d by (intro exI [of _ d] exI [of _ "min ?n ?a"]) simp
  next
    case (2 d')
    show ?thesis
    proof (cases "?n = 0")
      case True
      then show ?thesis using c d tryWriteCopy_0 [of "f_dict f" "f_copyDist f"] by (intro exI [of _ d] exI [of _ "min ?n ?a"]) simp
    next
      case False
      then show ?thesis using 2 by (intro exI [of _ d'] exI [of _ ?n]) (simp add: copy_history_def)
    qed
  qed
qed

section \<open>The states between two steps\<close>

text \<open>What is left after a block, if it is not the final one.\<close>

definition after :: "bool \<Rightarrow> (bits \<times> bytes) option \<Rightarrow> (bits \<times> bytes) option" where
  "after fin r = (case r of None \<Rightarrow> None | Some (bs, out) \<Rightarrow> if fin then Some (bs, out) else take_blocks bs out)"

text \<open>The output with the back reference that is still to be copied.\<close>

definition copied :: "stepState \<Rightarrow> decompressor \<Rightarrow> bytes \<Rightarrow> bytes" where
  "copied s f out = (case s of StateInit \<Rightarrow> out | StateDict \<Rightarrow> lz_copy (f_copyDist f) (f_copyLen f) out)"

definition in_block :: "decompressor \<Rightarrow> nat list \<Rightarrow> nat list \<Rightarrow> bool" where
  "in_block f ls ds \<longleftrightarrow> hl_ok f ls \<and> hd_ok f ds \<and> ls ! 256 \<le> 15 \<and> f_nb f \<le> max 7 (ls ! 256 + 6)"

text \<open>The result of the reference from a state without an error.\<close>

definition ahead :: "decompressor \<Rightarrow> bytes \<Rightarrow> (bits \<times> bytes) option \<Rightarrow> bool" where
  "ahead f out res \<longleftrightarrow>
     (case f_step f of
        NextBlock \<Rightarrow> f_nb f \<le> 7 \<and> f_copyLen f = 0 \<and> res = take_blocks (bits_of f) out
      | HuffmanBlock \<Rightarrow> (\<exists>ls ds. in_block f ls ds \<and> (f_stepState f = StateInit \<longrightarrow> f_copyLen f = 0) \<and>
          res = after (f_final f) (take_syms ls ds (bits_of f) (copied (f_stepState f) f out)))
      | CopyData \<Rightarrow> f_nb f = 0 \<and>
          res = after (f_final f) (case take_bytes (f_copyLen f) (bits_of f) of None \<Rightarrow> None | Some (cs, bs) \<Rightarrow> Some (bs, out @ cs)))"

text \<open>A back reference that may be resumed reaches into the window.\<close>

definition dist_ok :: "decompressor \<Rightarrow> bytes \<Rightarrow> bool" where
  "dist_ok f out \<longleftrightarrow> (f_stepState f = StateDict \<longrightarrow> 0 < f_copyDist f \<and> f_copyDist f \<le> min maxMatchOffset (length out))"

text \<open>
  The state \<open>f\<close> has written \<open>out\<close>, of which \<open>m\<close> bytes are flushed and \<open>em\<close> bytes delivered; \<open>res\<close> is the
  final result of the reference.
\<close>

definition sim :: "decompressor \<Rightarrow> bytes \<Rightarrow> nat \<Rightarrow> nat \<Rightarrow> (bits \<times> bytes) option \<Rightarrow> bool" where
  "sim f out m em res \<longleftrightarrow>
     window maxMatchOffset (f_dict f) out m \<and> 0 < availWrite (f_dict f) \<and> em \<le> m \<and> f_toRead f = drop em (take m out) \<and> arrays f \<and>
     (case f_err f of
        None \<Rightarrow> reg f \<and> dist_ok f out \<and> ahead f out res
      | Some e \<Rightarrow> if e = io_EOF then reg f \<and> f_nb f \<le> 7 \<and> m = length out \<and> res = Some (bits_of f, out) else res = None)"

text \<open>An upper bound for the output, and a measure of progress.\<close>

definition pending :: "decompressor \<Rightarrow> nat" where
  "pending f = (if f_step f = HuffmanBlock \<and> f_stepState f = StateDict then f_copyLen f else 0)"

definition cost :: "decompressor \<Rightarrow> bytes \<Rightarrow> nat" where
  "cost f out = length out + pending f + 258 * avail f"

definition progress :: "decompressor \<Rightarrow> nat" where
  "progress f = 2 * avail f + (if f_step f = CopyData then 1 else 0)"

lemma next_block: "f_step g = NextBlock \<Longrightarrow> cost g out = length out + 258 * avail g" "f_step g = NextBlock \<Longrightarrow> progress g = 2 * avail g"
  by (simp_all add: cost_def pending_def progress_def)

lemma window_len: "window W d out m \<Longrightarrow> m \<le> length out"
  by (auto simp: window_def)

lemma flush_ok:
  assumes "window W (f_dict f) out m"
  shows "\<exists>d. flush f = f\<lparr>f_toRead := drop m out, f_dict := d\<rparr> \<and> window W d out (length out) \<and> availRead d = 0 \<and> 0 < availWrite d"
proof -
  obtain bs d where "readFlush (f_dict f) = (bs, d)" by fastforce
  then show ?thesis using window_readFlush [OF assms] by (auto simp: flush_def)
qed

lemma window_availRead: "window W d out m \<Longrightarrow> availRead d = length out - m"
  by (auto simp: window_def availRead_def)

text \<open>The end of a block.\<close>

lemma finishBlock_ok:
  assumes "window maxMatchOffset (f_dict f) out m" "0 < availWrite (f_dict f)" "f_toRead f = drop em (take m out)" "em \<le> m" "arrays f" "f_err f = None"
    "reg f" "f_nb f \<le> 7" "f_copyLen f = 0" "dist_ok f out" "f_toRead f = [] \<or> m = length out"
  shows "\<exists>m'. sim (finishBlock f) out m' em (after (f_final f) (Some (bits_of f, out))) \<and> m \<le> m' \<and>
    avail (finishBlock f) = avail f \<and> f_step (finishBlock f) = NextBlock"
proof (cases "f_final f")
  case False
  then have e: "finishBlock f = f\<lparr>f_step := NextBlock\<rparr>" by (simp add: finishBlock_def)
  have "sim (f\<lparr>f_step := NextBlock\<rparr>) out m em (after (f_final f) (Some (bits_of f, out)))" unfolding sim_def
    using assms False by (simp add: after_def ahead_def bits_of_def reg_def dist_ok_def arrays_def)
  then show ?thesis unfolding e by (auto simp: avail_def)
next
  case True
  show ?thesis
  proof (cases "m = length out")
    case m: True
    then have "availRead (f_dict f) = 0" using window_availRead [OF assms(1)] by simp
    then have e: "finishBlock f = f\<lparr>f_err := Some io_EOF, f_step := NextBlock\<rparr>" using True by (simp add: finishBlock_def)
    have "sim (f\<lparr>f_err := Some io_EOF, f_step := NextBlock\<rparr>) out m em (after (f_final f) (Some (bits_of f, out)))" unfolding sim_def
      using assms True m by (simp add: after_def bits_of_def reg_def arrays_def)
    then show ?thesis unfolding e by (auto simp: avail_def)
  next
    case False
    then have tr: "f_toRead f = []" using assms(11) by simp
    then have em: "em = m" using assms(3,4) window_len [OF assms(1)] by simp
    obtain d where d: "flush f = f\<lparr>f_toRead := drop m out, f_dict := d\<rparr>" "window maxMatchOffset d out (length out)" "0 < availWrite d"
      using flush_ok [OF assms(1)] by blast
    have "0 < availRead (f_dict f)" using window_availRead [OF assms(1)] False window_len [OF assms(1)] by simp
    then have e: "finishBlock f = f\<lparr>f_toRead := drop m out, f_dict := d, f_err := Some io_EOF, f_step := NextBlock\<rparr>"
      using True d(1) by (simp add: finishBlock_def)
    have "sim (finishBlock f) out (length out) em (after (f_final f) (Some (bits_of f, out)))" unfolding sim_def e
      using assms(4,5,7,8) True em d(2,3) window_len [OF assms(1)] by (simp add: after_def bits_of_def reg_def arrays_def)
    then show ?thesis using window_len [OF assms(1)] unfolding e by (auto simp: avail_def)
  qed
qed

section \<open>Huffman blocks\<close>

definition loop_pre :: "stepState \<Rightarrow> decompressor \<Rightarrow> bytes \<Rightarrow> nat \<Rightarrow> nat list \<Rightarrow> nat list \<Rightarrow> bool" where
  "loop_pre s f out m ls ds \<longleftrightarrow>
     window maxMatchOffset (f_dict f) out m \<and> 0 < availWrite (f_dict f) \<and> arrays f \<and> f_err f = None \<and> f_toRead f = [] \<and> reg f \<and>
     in_block f ls ds \<and> dist_ok f out \<and> (s = StateInit \<longrightarrow> f_copyLen f = 0) \<and>
     (s = StateDict \<longrightarrow> 0 < f_copyDist f \<and> f_copyDist f \<le> min maxMatchOffset (length out))"

text \<open>Where a step that begins with \<open>n\<close> bits ends.\<close>

definition step_post :: "decompressor option \<Rightarrow> bytes \<Rightarrow> nat \<Rightarrow> (bits \<times> bytes) option \<Rightarrow> nat \<Rightarrow> nat \<Rightarrow> bool" where
  "step_post r out m res c n \<longleftrightarrow>
     (\<exists>g out' m'. r = Some g \<and> sim g out' m' m res \<and> prefix out out' \<and> m \<le> m' \<and> cost g out' \<le> c \<and>
        (f_toRead g \<noteq> [] \<or> f_err g \<noteq> None \<or> progress g < n))"

lemma step_post_mono:
  assumes "step_post r out' m res c n" "prefix out out'" "c \<le> c'" "n \<le> n'"
  shows "step_post r out m res c' n'"
proof -
  obtain g o2 m' where "r = Some g" "sim g o2 m' m res" "prefix out' o2" "m \<le> m'" "cost g o2 \<le> c"
      "f_toRead g \<noteq> [] \<or> f_err g \<noteq> None \<or> progress g < n"
    using assms(1) by (auto simp: step_post_def)
  then show ?thesis unfolding step_post_def using assms(2-4)
    by (intro exI [of _ g] exI [of _ o2] exI [of _ m']) (auto intro: prefix_order.trans)
qed

lemma step_postI:
  "r = Some g \<Longrightarrow> sim g out' m' m res \<Longrightarrow> prefix out out' \<Longrightarrow> m \<le> m' \<Longrightarrow> cost g out' \<le> c \<Longrightarrow>
     f_toRead g \<noteq> [] \<or> f_err g \<noteq> None \<or> progress g < n \<Longrightarrow> step_post r out m res c n"
  unfolding step_post_def by blast

text \<open>An error in a block.\<close>

lemma step_error:
  assumes "window maxMatchOffset (f_dict f) out m" "0 < availWrite (f_dict f)" "arrays f" "f_toRead f = []" "bitioe f g"
    "x \<noteq> io_EOF" "avail g \<le> avail f" "length out + pending f + 258 * avail f \<le> c"
  shows "step_post (Some (g\<lparr>f_err := Some x\<rparr>)) out m None c n"
proof -
  let ?g = "g\<lparr>f_err := Some x\<rparr>"
  note b = bitioe_sel [OF assms(5)]
  have "arrays ?g" using assms(3) b by (simp add: arrays_def)
  then have "sim ?g out m m None" using assms(1,2,4,6) b by (simp add: sim_def)
  moreover have "avail ?g = avail g" "pending ?g = pending f" using b by (simp_all add: avail_def pending_def)
  then have "cost ?g out \<le> c" using assms(7,8) by (simp add: cost_def)
  ultimately show ?thesis unfolding step_post_def by (intro exI [of _ ?g] exI [of _ out] exI [of _ m]) simp
qed

text \<open>A pause in a block, when the window is full.\<close>

lemma step_pause:
  assumes "window maxMatchOffset (f_dict f) out' m" "arrays f" "f_err f = None" "reg f" "in_block f ls ds" "dist_ok (f\<lparr>f_stepState := s\<rparr>) out'"
    "s = StateInit \<longrightarrow> f_copyLen f = 0" "res = after (f_final f) (take_syms ls ds (bits_of f) (copied s f out'))"
    "prefix out out'" "m < length out'" "length out' + (if s = StateDict then f_copyLen f else 0) + 258 * avail f \<le> c"
  shows "step_post (Some ((flush f)\<lparr>f_step := HuffmanBlock, f_stepState := s\<rparr>)) out m res c n"
proof -
  obtain d where d: "flush f = f\<lparr>f_toRead := drop m out', f_dict := d\<rparr>" "window maxMatchOffset d out' (length out')" "0 < availWrite d"
    using flush_ok [OF assms(1)] by blast
  let ?g = "f\<lparr>f_toRead := drop m out', f_dict := d, f_step := HuffmanBlock, f_stepState := s\<rparr>"
  have b: "bits_of ?g = bits_of f" "reg ?g" "arrays ?g" "in_block ?g ls ds" "copied s ?g out' = copied s f out'" "dist_ok ?g out'"
    using assms(2,4,5,6) tables_cong [of ?g f]
    by (simp_all add: bits_of_def reg_def arrays_def in_block_def copied_def dist_ok_def cong: stepState.case_cong)
  have "ahead ?g out' res" unfolding ahead_def using b assms(7,8) by (simp cong: stepState.case_cong) blast
  then have "sim ?g out' (length out') m res" unfolding sim_def using d b assms(3,10) by simp
  moreover have "avail ?g = avail f" "pending ?g = (if s = StateDict then f_copyLen f else 0)" by (simp_all add: avail_def pending_def)
  then have "cost ?g out' \<le> c" using assms(11) by (simp add: cost_def)
  moreover have "(flush f)\<lparr>f_step := HuffmanBlock, f_stepState := s\<rparr> = ?g" using d(1) by simp
  ultimately show ?thesis unfolding step_post_def using assms(9,10)
    by (intro exI [of _ ?g] exI [of _ out'] exI [of _ "length out'"]) simp
qed

lemma in_block_bitio:
  assumes "in_block f ls ds" "bitio f g" "f_nb g \<le> max 7 (ls ! 256 + 6)"
  shows "in_block g ls ds"
  using assms bitio_sel [OF assms(2)] tables_cong [of g f] by (simp add: in_block_def)

text \<open>The loop from label \<open>s\<close> ends where the reference ends.\<close>

definition loop_ok :: "stepState \<Rightarrow> decompressor \<Rightarrow> bytes \<Rightarrow> nat \<Rightarrow> nat list \<Rightarrow> nat list \<Rightarrow> bool" where
  "loop_ok s f out m ls ds \<longleftrightarrow>
     step_post (huffman_loop s f) out m (after (f_final f) (take_syms ls ds (bits_of f) (copied s f out)))
       (length out + (if s = StateDict then f_copyLen f else 0) + 258 * avail f) (2 * avail f)"

lemma loop_preD:
  assumes "loop_pre s f out m ls ds"
  shows "window maxMatchOffset (f_dict f) out m" "0 < availWrite (f_dict f)" "arrays f" "f_err f = None" "f_toRead f = []" "reg f"
    "in_block f ls ds" "dist_ok f out" "s = StateInit \<Longrightarrow> f_copyLen f = 0"
    "s = StateDict \<Longrightarrow> 0 < f_copyDist f \<and> f_copyDist f \<le> histSize (f_dict f)"
  using assms window_histSize [of maxMatchOffset "f_dict f" out m] by (auto simp: loop_pre_def)

text \<open>The next symbol.\<close>

definition symbol_at :: "decompressor \<Rightarrow> decompressor \<Rightarrow> nat \<Rightarrow> nat list \<Rightarrow> nat list \<Rightarrow> bool" where
  "symbol_at f f1 v ls ds \<longleftrightarrow>
     hl_sym f = Some (Inr v, f1) \<and> bitio f f1 \<and> reg f1 \<and> arrays f1 \<and> in_block f1 ls ds \<and>
     take_sym ls (bits_of f) = Some (v, bits_of f1) \<and> avail f = avail f1 + ls ! v \<and> 0 < ls ! v \<and> (v = 256 \<longrightarrow> f_nb f1 \<le> 7)"

lemma symbolD:
  assumes "symbol_at f f1 v ls ds"
  shows "hl_sym f = Some (Inr v, f1)" "bitio f f1" "reg f1" "arrays f1" "in_block f1 ls ds" "take_sym ls (bits_of f) = Some (v, bits_of f1)"
    "avail f = avail f1 + ls ! v" "0 < ls ! v" "v = 256 \<Longrightarrow> f_nb f1 \<le> 7"
  using assms by (simp_all add: symbol_at_def)

lemma next_symbol:
  assumes "loop_pre StateInit f out m ls ds"
  shows "(\<exists>x f1. hl_sym f = Some (Inl x, f1) \<and> x \<noteq> io_EOF \<and> bitioe f f1 \<and> avail f1 \<le> avail f \<and> take_syms ls ds (bits_of f) out = None) \<or>
    (\<exists>v f1. symbol_at f f1 v ls ds)"
proof -
  note pre = loop_preD [OF assms]
  have e: "ls ! 256 \<le> 15" "f_nb f \<le> max 7 (ls ! 256 + 6)" using pre(7) by (auto simp: in_block_def)
  then have nb: "f_nb f \<le> 22" by linarith
  obtain t where t: "f_hl f = Some t" "table ls (ls ! 256) (htab t f)" using pre(7) by (auto simp: in_block_def hl_ok_def split: option.splits)
  obtain r f1 where r: "huffSym (htab t f) f = Some (r, f1)"
    "case r of Inl x \<Rightarrow> x \<noteq> io_EOF \<and> bitioe f f1 \<and> (take_sym ls (bits_of f) = None \<or> avail f < ls ! 256)
     | Inr i \<Rightarrow> bitio f f1 \<and> reg f1 \<and> take_sym ls (bits_of f) = Some (i, bits_of f1) \<and> f_nb f1 \<le> max (f_nb f) (max (ls ! i) (ls ! 256) + 7) - ls ! i"
    using huffSym_ok [OF t(2) pre(6) nb] by blast
  have hl: "hl_sym f = Some (r, f1)" using t(1) r(1) by (simp add: hl_sym_def)
  show ?thesis
  proof (cases r)
    case (Inl x)
    have "take_syms ls ds (bits_of f) out = None"
    proof (cases "take_sym ls (bits_of f)")
      case None
      then show ?thesis by (simp add: take_syms_ref)
    next
      case (Some p)
      then have "avail f < ls ! 256" using r(2) Inl by simp
      then show ?thesis using take_syms_length [of ls ds "bits_of f" out] by (cases "take_syms ls ds (bits_of f) out") auto
    qed
    then show ?thesis using hl r(2) Inl avail_huffSym [OF r(1)] by simp
  next
    case (Inr v)
    have k: "bitio f f1" "reg f1" "take_sym ls (bits_of f) = Some (v, bits_of f1)"
      and nb1: "f_nb f1 \<le> max (f_nb f) (max (ls ! v) (ls ! 256) + 7) - ls ! v" using r(2) Inr by auto
    have av: "avail f = avail f1 + ls ! v" "0 < ls ! v" using take_sym_Some [OF k(3)] by simp_all
    have nb2: "f_nb f1 \<le> max 7 (ls ! 256 + 6)" using nb1 e(2) av(2) by linarith
    have n7: "v = 256 \<Longrightarrow> f_nb f1 \<le> 7" using nb1 e(2) by (simp add: max_def split: if_splits)
    have "arrays f1" using pre(3) bitio_sel [OF k(1)] by (simp add: arrays_def)
    then have "symbol_at f f1 v ls ds" unfolding symbol_at_def
      using hl Inr k av n7 in_block_bitio [OF pre(7) k(1) nb2] by simp
    then show ?thesis by blast
  qed
qed

lemma literal_ok:
  assumes "loop_pre StateInit f out m ls ds" "symbol_at f f1 v ls ds" "v < 256"
    "\<And>f' out'. avail f' < avail f \<Longrightarrow> loop_pre StateInit f' out' m ls ds \<Longrightarrow> loop_ok StateInit f' out' m ls ds"
  shows "loop_ok StateInit f out m ls ds"
proof -
  note pre = loop_preD [OF assms(1)] and k = symbolD [OF assms(2)]
  note b1 = bitio_sel [OF k(2)]
  let ?o = "out @ [char_of v]" and ?res = "after (f_final f) (take_syms ls ds (bits_of f) out)"
  obtain d where d: "writeByte (f_dict f1) (char_of v) = Some d" "window maxMatchOffset d ?o m" "availWrite (f_dict f) = Suc (availWrite d)"
    using window_writeByte [OF pre(1,2), of "char_of v"] b1 by auto
  let ?f2 = "f1\<lparr>f_dict := d\<rparr>"
  have f2: "arrays ?f2" "f_err ?f2 = None" "reg ?f2" "in_block ?f2 ls ds" "f_copyLen ?f2 = 0" "f_toRead ?f2 = []" "avail ?f2 = avail f1" "bits_of ?f2 = bits_of f1"
      "f_final ?f2 = f_final f"
    using k(3,4,5) b1 pre(4,5) pre(9) [OF refl] tables_cong [of ?f2 f1] by (simp_all add: arrays_def reg_def in_block_def avail_def bits_of_def)
  have rs: "?res = after (f_final f) (take_syms ls ds (bits_of f1) ?o)" using k(6) assms(3) take_syms_ref [of ls ds "bits_of f" out] by simp
  have "step_post (huffman_loop StateInit f) out m ?res (length out + 258 * avail f) (2 * avail f)"
  proof (cases "availWrite d = 0")
    case True
    have lp: "huffman_loop StateInit f = Some ((flush ?f2)\<lparr>f_step := HuffmanBlock, f_stepState := StateInit\<rparr>)"
      using k(1) assms(3) d(1) True by (simp add: huffman_loop.simps(1) Let_def)
    show ?thesis unfolding lp
      by (rule step_pause [OF _ f2(1-4)]) (use d(2) f2 rs window_len [OF pre(1)] k(7,8) in \<open>auto simp: dist_ok_def copied_def\<close>)
  next
    case False
    have lp: "huffman_loop StateInit f = huffman_loop StateInit ?f2"
      using k(1) assms(3) d(1) False by (simp add: huffman_loop.simps(1) Let_def)
    have "dist_ok ?f2 ?o" using pre(8) b1 by (auto simp: dist_ok_def)
    then have "loop_pre StateInit ?f2 ?o m ls ds" unfolding loop_pre_def using d(2) False f2 by simp
    then have sp: "loop_ok StateInit ?f2 ?o m ls ds" using assms(4) [of ?f2 ?o] k(7,8) f2(7) by simp
    have eq: "after (f_final ?f2) (take_syms ls ds (bits_of ?f2) (copied StateInit ?f2 ?o)) = ?res" using rs f2 by (simp add: copied_def)
    show ?thesis unfolding lp by (rule step_post_mono [OF sp [unfolded loop_ok_def eq]]) (use f2(7) k(7,8) in simp_all)
  qed
  then show ?thesis by (simp add: loop_ok_def copied_def)
qed

lemma end_of_block_ok:
  assumes "loop_pre StateInit f out m ls ds" "symbol_at f f1 256 ls ds"
  shows "loop_ok StateInit f out m ls ds"
proof -
  note pre = loop_preD [OF assms(1)] and k = symbolD [OF assms(2)]
  note b1 = bitio_sel [OF k(2)]
  have lp: "huffman_loop StateInit f = Some (finishBlock f1)" using k(1) by (simp add: huffman_loop.simps(1))
  have w1: "window maxMatchOffset (f_dict f1) out m" "0 < availWrite (f_dict f1)" "f_toRead f1 = drop m (take m out)" "f_err f1 = None" "f_copyLen f1 = 0"
      "dist_ok f1 out" "f_toRead f1 = [] \<or> m = length out"
    using pre(1,2,4,5,8) pre(9) [OF refl] b1 by (simp_all add: dist_ok_def)
  obtain m' where m': "sim (finishBlock f1) out m' m (after (f_final f1) (Some (bits_of f1, out)))" "m \<le> m'" "avail (finishBlock f1) = avail f1"
      "f_step (finishBlock f1) = NextBlock"
    using finishBlock_ok [OF w1(1,2,3) _ k(4) w1(4) k(3) k(9) [OF refl] w1(5,6,7)] by auto
  have "take_syms ls ds (bits_of f) out = Some (bits_of f1, out)" using k(6) by (simp add: take_syms_ref)
  then have "sim (finishBlock f1) out m' m (after (f_final f) (take_syms ls ds (bits_of f) (copied StateInit f out)))"
    using m'(1) b1 by (simp add: copied_def)
  then show ?thesis unfolding loop_ok_def lp
    by (rule step_postI [OF refl _ prefix_order.refl m'(2)]) (use m'(3) k(7,8) next_block [OF m'(4)] in simp_all)
qed

lemma reference_ok:
  assumes "loop_pre StateInit f out m ls ds" "symbol_at f f1 v ls ds" "257 \<le> v"
    "\<And>f'. avail f' < avail f \<Longrightarrow> loop_pre StateDict f' out m ls ds \<Longrightarrow> loop_ok StateDict f' out m ls ds"
  shows "loop_ok StateInit f out m ls ds"
proof -
  note pre = loop_preD [OF assms(1)] and k = symbolD [OF assms(2)]
  note b1 = bitio_sel [OF k(2)]
  let ?res = "after (f_final f) (take_syms ls ds (bits_of f) out)"
  have nb2: "f_nb f1 \<le> max 7 (ls ! 256 + 6)" and nb3: "f_nb f1 \<le> 22" and hd1: "hd_ok f1 ds" using k(5) by (auto simp: in_block_def)
  have w1: "window maxMatchOffset (f_dict f1) out m" "0 < availWrite (f_dict f1)" "f_toRead f1 = []" using pre b1 by simp_all
  have hs: "histSize (f_dict f1) = min maxMatchOffset (length out)" by (rule window_histSize [OF w1(1,2)])
  obtain q f2 where q: "read_ref v f1 = Some (q, f2)"
    "case take_ref ds v (bits_of f1) out of None \<Rightarrow> \<exists>x. q = Inl x \<and> x \<noteq> io_EOF \<and> bitioe f1 f2
     | Some (len, dist, bs) \<Rightarrow> q = Inr () \<and> bitio (f1\<lparr>f_copyLen := len, f_copyDist := dist\<rparr>) f2 \<and> reg f2 \<and> bits_of f2 = bs \<and>
         f_nb f2 \<le> max (f_nb f1) 7 \<and> 0 < dist \<and> dist \<le> histSize (f_dict f1)"
    using read_ref_ok [OF k(3) nb3 hd1 assms(3) w1(1,2)] by blast
  have rs: "?res = after (f_final f) (case take_ref ds v (bits_of f1) out of None \<Rightarrow> None | Some (len, dist, bs3) \<Rightarrow> take_syms ls ds bs3 (lz_copy dist len out))"
    using k(6) assms(3) take_syms_ref [of ls ds "bits_of f" out] by simp
  have av2: "avail f2 \<le> avail f1" by (rule avail_read_ref [OF q(1)])
  have "step_post (huffman_loop StateInit f) out m ?res (length out + 258 * avail f) (2 * avail f)"
  proof (cases "take_ref ds v (bits_of f1) out")
    case None
    then obtain x where x: "q = Inl x" "x \<noteq> io_EOF" "bitioe f1 f2" using q(2) by auto
    have lp: "huffman_loop StateInit f = Some (f2\<lparr>f_err := Some x\<rparr>)" using k(1) assms(3) q(1) x(1) by (simp add: huffman_loop.simps(1))
    have "?res = None" using rs None by (simp add: after_def)
    moreover have "pending f1 = 0" using pre(9) [OF refl] b1 by (simp add: pending_def)
    ultimately show ?thesis unfolding lp using step_error [OF w1(1,2) k(4) w1(3) x(3,2) av2] k(7) by simp
  next
    case (Some p)
    obtain len dist bs3 where "p = (len, dist, bs3)" by (metis prod_cases3)
    with Some have tr: "take_ref ds v (bits_of f1) out = Some (len, dist, bs3)" by simp
    then have kq: "q = Inr ()" "bitio (f1\<lparr>f_copyLen := len, f_copyDist := dist\<rparr>) f2" "reg f2" "bits_of f2 = bs3" "f_nb f2 \<le> max (f_nb f1) 7"
        "0 < dist" "dist \<le> histSize (f_dict f1)" using q(2) by auto
    note b2 = bitio_sel [OF kq(2), simplified]
    have lp: "huffman_loop StateInit f = huffman_loop StateDict f2" using k(1) assms(3) q(1) kq(1) by (simp add: huffman_loop.simps(1))
    have len: "len \<le> 258" using tr take_length_Some [of v "bits_of f1"] by (auto simp: take_ref_def split: option.splits if_splits)
    have "in_block f2 ls ds" using k(5) kq(5) b2 nb2 tables_cong [of f2 f1] by (simp add: in_block_def)
    moreover have "arrays f2" using k(4) b2 by (simp add: arrays_def)
    ultimately have "loop_pre StateDict f2 out m ls ds" unfolding loop_pre_def using pre b1 b2 kq hs by (simp add: dist_ok_def)
    then have sp: "loop_ok StateDict f2 out m ls ds" using assms(4) [of f2] av2 k(7,8) by simp
    have eq: "after (f_final f2) (take_syms ls ds (bits_of f2) (copied StateDict f2 out)) = ?res" using rs tr b1 b2 kq(4) by (simp add: copied_def)
    show ?thesis unfolding lp by (rule step_post_mono [OF sp [unfolded loop_ok_def eq]]) (use b2 k(7,8) av2 len in simp_all)
  qed
  then show ?thesis by (simp add: loop_ok_def copied_def)
qed

lemma history_ok:
  assumes "loop_pre StateDict f out m ls ds"
    "\<And>f' out'. avail f' = avail f \<Longrightarrow> loop_pre StateInit f' out' m ls ds \<Longrightarrow> loop_ok StateInit f' out' m ls ds"
  shows "loop_ok StateDict f out m ls ds"
proof -
  note pre = loop_preD [OF assms(1)]
  have ds: "0 < f_copyDist f" "f_copyDist f \<le> histSize (f_dict f)" using pre(10) by simp_all
  have hs: "histSize (f_dict f) = min maxMatchOffset (length out)" by (rule window_histSize [OF pre(1,2)])
  obtain d cnt where c: "copy_history f = Some (f\<lparr>f_dict := d, f_copyLen := f_copyLen f - cnt\<rparr>)" "cnt \<le> f_copyLen f"
      "window maxMatchOffset d (lz_copy (f_copyDist f) cnt out) m" "cnt = min (f_copyLen f) (availWrite (f_dict f))" "availWrite d = availWrite (f_dict f) - cnt"
    using copy_history_ok [OF pre(1,2) ds] by blast
  let ?f1 = "f\<lparr>f_dict := d, f_copyLen := f_copyLen f - cnt\<rparr>" and ?o = "lz_copy (f_copyDist f) cnt out"
    and ?res = "after (f_final f) (take_syms ls ds (bits_of f) (copied StateDict f out))"
  have f1: "arrays ?f1" "f_err ?f1 = None" "reg ?f1" "in_block ?f1 ls ds" "f_toRead ?f1 = []" "avail ?f1 = avail f" "bits_of ?f1 = bits_of f" "f_final ?f1 = f_final f"
    using pre(3-7) tables_cong [of ?f1 f] by (simp_all add: arrays_def reg_def in_block_def avail_def bits_of_def)
  have rs: "?res = after (f_final f) (take_syms ls ds (bits_of f) (lz_copy (f_copyDist f) (f_copyLen f - cnt) ?o))"
    using c(2) lz_copy_add [of "f_copyDist f" cnt "f_copyLen f - cnt" out] by (simp add: copied_def)
  have pf: "prefix out ?o" by (rule lz_copy_prefix)
  have wd: "window maxMatchOffset (f_dict ?f1) ?o m" using c(3) by simp
  show ?thesis unfolding loop_ok_def
  proof (cases "availWrite d = 0 \<or> f_copyLen ?f1 > 0")
    case True
    have lp: "huffman_loop StateDict f = Some ((flush ?f1)\<lparr>f_step := HuffmanBlock, f_stepState := StateDict\<rparr>)"
      using c(1) True by (simp add: huffman_loop.simps(2))
    have "0 < cnt" using True c(4,5) pre(2) by auto
    then have l: "m < length ?o" using window_len [OF pre(1)] by simp
    show "step_post (huffman_loop StateDict f) out m ?res (length out + (if StateDict = StateDict then f_copyLen f else 0) + 258 * avail f) (2 * avail f)"
      unfolding lp by (rule step_pause [OF wd f1(1-4)]) (use f1 rs pf l c(2) ds hs in \<open>auto simp: dist_ok_def copied_def\<close>)
  next
    case False
    have lp: "huffman_loop StateDict f = huffman_loop StateInit ?f1" using c(1) False by (simp add: huffman_loop.simps(2))
    have "dist_ok ?f1 ?o" using pre(8) by (auto simp: dist_ok_def)
    then have "loop_pre StateInit ?f1 ?o m ls ds" unfolding loop_pre_def using c(3) False f1 by simp
    then have sp: "loop_ok StateInit ?f1 ?o m ls ds" using assms(2) [of ?f1 ?o] f1(6) by simp
    have eq: "after (f_final ?f1) (take_syms ls ds (bits_of ?f1) (copied StateInit ?f1 ?o)) = ?res" using rs f1 False by (simp add: copied_def)
    show "step_post (huffman_loop StateDict f) out m ?res (length out + (if StateDict = StateDict then f_copyLen f else 0) + 258 * avail f) (2 * avail f)"
      unfolding lp by (rule step_post_mono [OF sp [unfolded loop_ok_def eq] pf]) (use f1(6) c(2) in simp_all)
  qed
qed

lemma huffman_loop_ok: "loop_pre s f out m ls ds \<Longrightarrow> loop_ok s f out m ls ds"
proof (induction "2 * avail f + (case s of StateInit \<Rightarrow> 0 | StateDict \<Rightarrow> 1)" arbitrary: s f out rule: less_induct)
  case less
  show ?case
  proof (cases s)
    case StateInit
    note pre = less.prems [unfolded StateInit]
    consider x f1 where "hl_sym f = Some (Inl x, f1)" "x \<noteq> io_EOF" "bitioe f f1" "avail f1 \<le> avail f" "take_syms ls ds (bits_of f) out = None"
      | v f1 where "symbol_at f f1 v ls ds" using next_symbol [OF pre] by blast
    then show ?thesis
    proof cases
      case (1 x f1)
      note p = loop_preD [OF pre]
      have lp: "huffman_loop StateInit f = Some (f1\<lparr>f_err := Some x\<rparr>)" using 1(1) by (simp add: huffman_loop.simps(1))
      have "pending f = 0" using p(9) by (simp add: pending_def)
      then show ?thesis unfolding StateInit loop_ok_def lp using step_error [OF p(1,2,3,5) 1(3,2,4)] 1(5) by (simp add: copied_def after_def)
    next
      case (2 v f1)
      consider "v < 256" | "v = 256" | "257 \<le> v" by linarith
      then show ?thesis
      proof cases
        case 1
        show ?thesis unfolding StateInit by (rule literal_ok [OF pre 2 1]) (rule less.hyps, simp add: StateInit)
      next
        case e: 2
        show ?thesis unfolding StateInit using end_of_block_ok [OF pre] 2 e by simp
      next
        case 3
        show ?thesis unfolding StateInit by (rule reference_ok [OF pre 2 3]) (rule less.hyps, simp add: StateInit)
      qed
    qed
  next
    case StateDict
    show ?thesis unfolding StateDict
      by (rule history_ok [OF less.prems [unfolded StateDict]]) (rule less.hyps, simp add: StateDict)
  qed
qed

section \<open>Stored blocks\<close>

lemma bits_of_bytes_Cons [simp]: "bits_of_bytes (c # r) = byte_bits c @ bits_of_bytes r" "bits_of_bytes [] = []"
  by (simp_all add: bits_of_bytes_def)

lemma length_byte_bits [simp]: "length (byte_bits c) = 8"
  by (simp add: byte_bits_def)

lemma num_byte_bits [simp]: "num (byte_bits c) = of_char c"
  using nat_of_char_less_256 [of c] by (simp only: byte_bits_def num_bits) simp

lemma take_num_byte: "take_num 8 (bits_of_bytes (c # r)) = Some (of_char c, bits_of_bytes r)"
  by (simp add: take_num_def)

lemma take_num_word: "take_num 16 (bits_of_bytes (a # b # r)) = Some (of_char a + 256 * of_char b, bits_of_bytes r)"
  by (simp add: take_num_def num_append)

lemma take_bytes_bytes: "take_bytes n (bits_of_bytes r) = (if n \<le> length r then Some (take n r, bits_of_bytes (drop n r)) else None)"
proof (induction n arbitrary: r)
  case (Suc n)
  show ?case
  proof (cases r)
    case Nil
    then show ?thesis by (simp add: take_num_def)
  next
    case (Cons c r')
    then show ?thesis using Suc.IH [of r'] take_num_byte [of c r'] by (simp del: bits_of_bytes_Cons)
  qed
qed simp

lemma bits_of_nb0: "f_nb f = 0 \<Longrightarrow> bits_of f = bits_of_bytes (f_r f)"
  by (simp add: bits_of_def)

lemma split_bytes:
  assumes "k \<le> n" "k \<le> length r"
  shows "(case take_bytes n (bits_of_bytes r) of None \<Rightarrow> None | Some (cs, bs) \<Rightarrow> Some (bs, out @ cs)) =
    (case take_bytes (n - k) (bits_of_bytes (drop k r)) of None \<Rightarrow> None | Some (cs, bs) \<Rightarrow> Some (bs, (out @ take k r) @ cs))"
proof (cases "n \<le> length r")
  case True
  then show ?thesis using assms take_add [of k "n - k" r] by (simp add: take_bytes_bytes)
next
  case False
  then have "\<not> n - k \<le> length r - k" using assms by linarith
  then show ?thesis using False by (simp add: take_bytes_bytes)
qed

lemma copyData_ok:
  assumes "window maxMatchOffset (f_dict f) out m" "0 < availWrite (f_dict f)" "arrays f" "f_err f = None" "f_toRead f = []" "reg f"
    "f_nb f = 0" "dist_ok f out" "f_step f \<noteq> HuffmanBlock"
    "res = after (f_final f) (case take_bytes (f_copyLen f) (bits_of f) of None \<Rightarrow> None | Some (cs, bs) \<Rightarrow> Some (bs, out @ cs))"
    "length out + 258 * avail f \<le> c" "2 * avail f < n"
  shows "step_post (Some (copyData f)) out m res c n"
proof -
  let ?k = "min (availWrite (f_dict f)) (f_copyLen f)"
  have nh: "\<not> f_step f = HuffmanBlock" using assms(9) .
  have bf: "bits_of f = bits_of_bytes (f_r f)" by (rule bits_of_nb0 [OF assms(7)])
  have rs: "res = after (f_final f) (if f_copyLen f \<le> length (f_r f) then Some (bits_of_bytes (drop (f_copyLen f) (f_r f)), out @ take (f_copyLen f) (f_r f)) else None)"
    using assms(10) by (simp add: bf take_bytes_bytes)
  show ?thesis
  proof (cases "?k \<le> length (f_r f)")
    case False
    then have "\<not> f_copyLen f \<le> length (f_r f)" by auto
    then have "res = None" using rs by (simp add: after_def)
    moreover obtain x g where g: "copyData f = g\<lparr>f_err := Some x\<rparr>" "x \<noteq> io_EOF" "bitioe (f\<lparr>f_copyLen := f_copyLen g, f_dict := f_dict g\<rparr>) g" "f_r g = []"
        "f_nb g = 0" "f_dict g = writeMark (f_dict f) (f_r f)" "f_step g = f_step f"
    proof -
      let ?g = "f\<lparr>f_r := [], f_roffset := f_roffset f + length (f_r f), f_copyLen := f_copyLen f - length (f_r f), f_dict := writeMark (f_dict f) (f_r f)\<rparr>"
      have "copyData f = ?g\<lparr>f_err := Some (noEOF (if f_r f = [] then io_EOF else ErrUnexpectedEOF))\<rparr>" using False by (simp add: copyData_def Let_def)
      moreover have "bitioe (f\<lparr>f_copyLen := f_copyLen ?g, f_dict := f_dict ?g\<rparr>) ?g" using assms(7) by (intro bitio_e) (simp add: bitio_def)
      ultimately show ?thesis using that [of "noEOF (if f_r f = [] then io_EOF else ErrUnexpectedEOF)" ?g] assms(7) by simp
    qed
    have l: "length (f_r f) \<le> availWrite (f_dict f)" "length (f_r f) < availWrite (f_dict f)" using False by auto
    note w = window_writeMark [OF assms(1) l(1)]
    let ?g = "g\<lparr>f_err := Some x\<rparr>"
    note b = bitioe_sel [OF g(3), simplified]
    have "sim ?g (out @ f_r f) m m None" unfolding sim_def using w g b l(2) assms(3,5) window_len [OF assms(1)] by (simp add: arrays_def)
    moreover have "cost ?g (out @ f_r f) \<le> c" using assms(11) g nh by (simp add: cost_def pending_def avail_def)
    ultimately show ?thesis unfolding step_post_def g(1) using \<open>res = None\<close> by (intro exI [of _ ?g] exI [of _ "out @ f_r f"] exI [of _ m]) simp
  next
    case True
    let ?cs = "take ?k (f_r f)"
    let ?f1 = "f\<lparr>f_r := drop ?k (f_r f), f_roffset := f_roffset f + length ?cs, f_copyLen := f_copyLen f - ?k, f_dict := writeMark (f_dict f) ?cs\<rparr>"
    have lc: "length ?cs = ?k" using True by simp
    have l: "length ?cs \<le> availWrite (f_dict f)" by simp
    note w = window_writeMark [OF assms(1) l]
    have cd: "copyData f = (if availWrite (f_dict ?f1) = 0 \<or> f_copyLen ?f1 > 0 then (flush ?f1)\<lparr>f_step := CopyData\<rparr> else finishBlock ?f1)"
      using True lc by (simp add: copyData_def Let_def)
    have f1: "arrays ?f1" "reg ?f1" "dist_ok ?f1 (out @ ?cs)" "bits_of ?f1 = bits_of_bytes (drop ?k (f_r f))" "avail ?f1 + 8 * ?k = avail f"
      using assms(3,6,7,8) True by (auto simp: arrays_def reg_def dist_ok_def bits_of_def avail_def)
    show ?thesis
    proof (cases "availWrite (f_dict ?f1) = 0 \<or> f_copyLen ?f1 > 0")
      case p: True
      have w1: "window maxMatchOffset (f_dict ?f1) (out @ ?cs) m" using w(1) by simp
      obtain d where d: "flush ?f1 = ?f1\<lparr>f_toRead := drop m (out @ ?cs), f_dict := d\<rparr>" "window maxMatchOffset d (out @ ?cs) (length (out @ ?cs))" "0 < availWrite d"
        using flush_ok [OF w1] by blast
      let ?g = "?f1\<lparr>f_toRead := drop m (out @ ?cs), f_dict := d, f_step := CopyData\<rparr>"
      have "0 < ?k" using p w(2) lc assms(2) by auto
      then have ml: "m < length (out @ ?cs)" using window_len [OF assms(1)] unfolding length_append lc by linarith
      have "res = after (f_final f) (case take_bytes (f_copyLen f - ?k) (bits_of ?f1) of None \<Rightarrow> None | Some (cs, bs) \<Rightarrow> Some (bs, (out @ ?cs) @ cs))"
        unfolding assms(10) bf f1(4) by (subst split_bytes [OF _ True]) simp_all
      then have ah: "ahead ?g (out @ ?cs) res" unfolding ahead_def using assms(7) by (simp add: bits_of_def)
      have "reg ?g" "dist_ok ?g (out @ ?cs)" "arrays ?g" using f1(1,2,3) by (simp_all add: reg_def dist_ok_def arrays_def)
      with ah have sg: "sim ?g (out @ ?cs) (length (out @ ?cs)) m res" unfolding sim_def
        using d(2,3) assms(4) ml window_len [OF assms(1)] min_absorb2 [OF True] by simp
      have cg: "cost ?g (out @ ?cs) \<le> c"
      proof -
        have "avail ?g = avail ?f1" by (simp add: avail_def)
        then have "cost ?g (out @ ?cs) = length out + ?k + 258 * avail ?f1" using lc by (simp add: cost_def pending_def)
        then show ?thesis using f1(5) assms(11) by linarith
      qed
      have eg: "copyData f = ?g" using cd p d(1) by simp
      have "drop m (out @ ?cs) \<noteq> []" using ml by (simp only: drop_eq_Nil not_le)
      then have ne: "f_toRead ?g \<noteq> []" by simp
      show ?thesis by (rule step_postI [OF arg_cong [OF eg, of Some] sg prefixI [OF refl] less_imp_le [OF ml] cg disjI1 [OF ne]])
    next
      case False
      then have k: "?k = f_copyLen f" by auto
      have ff: "res = after (f_final ?f1) (Some (bits_of ?f1, out @ ?cs))" unfolding rs f1(4) using True unfolding k by simp
      have w1: "window maxMatchOffset (f_dict ?f1) (out @ ?cs) m" "0 < availWrite (f_dict ?f1)" "f_err ?f1 = None" "f_nb ?f1 \<le> 7" "f_copyLen ?f1 = 0"
          "f_toRead ?f1 = drop m (take m (out @ ?cs))" "f_toRead ?f1 = [] \<or> m = length (out @ ?cs)"
        using w(1) False k assms(4,5,7) by (simp_all del: take_append)
      obtain m' where m': "sim (finishBlock ?f1) (out @ ?cs) m' m res" "m \<le> m'" "avail (finishBlock ?f1) = avail ?f1" "f_step (finishBlock ?f1) = NextBlock"
        using finishBlock_ok [OF w1(1,2,6) order_refl f1(1) w1(3) f1(2) w1(4,5) f1(3) w1(7)] unfolding ff [symmetric] by blast
      have cg: "cost (finishBlock ?f1) (out @ ?cs) \<le> c"
        unfolding next_block(1) [OF m'(4)] m'(3) length_append using lc f1(5) assms(11) by linarith
      have pg: "progress (finishBlock ?f1) < n"
        unfolding next_block(2) [OF m'(4)] m'(3) using f1(5) assms(12) by linarith
      have "copyData f = finishBlock ?f1" using cd False by simp
      from arg_cong [OF this, of Some] m'(1) prefixI [OF refl] m'(2) cg disjI2 [OF disjI2 [OF pg]] show ?thesis by (rule step_postI)
    qed
  qed
qed

text \<open>The two lengths of a stored block.\<close>

lemma or_bytes: "of_char a OR push_bit 8 (of_char b) = (of_char a + 256 * of_char b :: nat)"
proof -
  have "(of_char a :: nat) < 2 ^ 8" using nat_of_char_less_256 [of a] by simp
  then have "push_bit 8 (of_char b :: nat) OR of_char a = push_bit 8 (of_char b) + of_char a" by (rule push_or)
  then show ?thesis by (simp add: or.commute push_bit_eq_mult)
qed

lemma complement16: "n < 65536 \<Longrightarrow> nn < 65536 \<Longrightarrow> (word_of_nat nn :: 16 word) = NOT (word_of_nat n) \<longleftrightarrow> nn = 65535 - n"
proof -
  assume n: "n < 65536" "nn < 65536"
  have a: "NOT (word_of_nat n :: 16 word) = word_of_nat (65535 - n)"
  proof -
    have "NOT (word_of_nat n :: 16 word) = - word_of_nat n - 1" by (simp add: not_eq_complement)
    also have "\<dots> = word_of_nat (65535 - n)" using n by (simp add: of_nat_diff)
    finally show ?thesis .
  qed
  show ?thesis unfolding a word_of_nat_eq_iff using n by (simp add: take_bit_eq_mod)
qed

lemma align_bits: "f_nb f \<le> 7 \<Longrightarrow> drop (length (bits_of f) mod 8) (bits_of f) = bits_of_bytes (f_r f)"
proof -
  assume "f_nb f \<le> 7"
  then have "length (bits_of f) mod 8 = f_nb f" by (simp add: avail_def)
  then show ?thesis by (simp add: bits_of_def)
qed

lemma dataBlock_ok:
  assumes "window maxMatchOffset (f_dict f) out m" "0 < availWrite (f_dict f)" "arrays f" "f_err f = None" "f_toRead f = []"
    "f_nb f \<le> 7" "dist_ok f out" "f_step f = NextBlock" "f_copyLen f = 0"
    "length out + 258 * avail f \<le> c" "2 * avail f < n"
  shows "step_post (Some (dataBlock f)) out m (after (f_final f) (take_stored (bits_of f) out)) c n"
proof -
  let ?f = "f\<lparr>f_nb := 0, f_b := 0\<rparr>"
  have al: "take_stored (bits_of f) out = do {
       (len, bs) \<leftarrow> take_num 16 (bits_of_bytes (f_r f));
       (nlen, bs) \<leftarrow> take_num 16 bs;
       if nlen \<noteq> 65535 - len then None else do { (cs, bs) \<leftarrow> take_bytes len bs; Some (bs, out @ cs) } }"
    unfolding take_stored_def align_bits [OF assms(6)] ..
  show ?thesis
  proof (cases "4 \<le> length (f_r f)")
    case False
    have "after (f_final f) (take_stored (bits_of f) out) = None"
    proof (cases "2 \<le> length (f_r f)")
      case True
      then obtain a b r where r: "f_r f = a # b # r" by (cases "f_r f") (auto simp: Suc_le_length_iff)
      then have "length r < 2" using False by simp
      then show ?thesis unfolding al r take_num_word by (simp add: take_num_def after_def)
    next
      case False
      then show ?thesis unfolding al by (simp add: take_num_def after_def)
    qed
    moreover have "dataBlock f = (?f\<lparr>f_r := [], f_roffset := f_roffset f + length (f_r f)\<rparr>)\<lparr>f_err := Some (noEOF (if f_r f = [] then io_EOF else ErrUnexpectedEOF))\<rparr>"
      using False by (simp add: dataBlock_def Let_def)
    moreover have "bitioe f (?f\<lparr>f_r := [], f_roffset := f_roffset f + length (f_r f)\<rparr>)" by (intro bitio_e) (simp add: bitio_def)
    moreover have "pending f = 0" using assms(8) by (simp add: pending_def)
    ultimately show ?thesis using step_error [OF assms(1,2,3,5)] assms(10) by (simp add: avail_def)
  next
    case True
    then obtain a0 a1 a2 a3 r where r: "f_r f = a0 # a1 # a2 # a3 # r" by (auto simp: Suc_le_length_iff numeral_eq_Suc)
    let ?len = "of_char a0 + 256 * of_char a1 :: nat" and ?nlen = "of_char a2 + 256 * of_char a3 :: nat"
    have lt: "?len < 65536" "?nlen < 65536" using nat_of_char_less_256 [of a0] nat_of_char_less_256 [of a1] nat_of_char_less_256 [of a2] nat_of_char_less_256 [of a3] by linarith+
    let ?f1 = "?f\<lparr>f_r := r, f_roffset := f_roffset f + length [a0, a1, a2, a3]\<rparr>"
    have st: "take_stored (bits_of f) out = (if ?nlen \<noteq> 65535 - ?len then None else do { (cs, bs) \<leftarrow> take_bytes ?len (bits_of_bytes r); Some (bs, out @ cs) })"
      unfolding al r by (simp add: take_num_word del: bits_of_bytes_Cons)
    have db: "dataBlock f = (if ?nlen \<noteq> 65535 - ?len then ?f1\<lparr>f_err := Some (CorruptInputError (f_roffset ?f1))\<rparr>
        else if ?len = 0 then finishBlock (flush ?f1) else copyData (?f1\<lparr>f_copyLen := ?len\<rparr>))"
      using r complement16 [OF lt] by (simp add: dataBlock_def Let_def or_bytes)
    have pf: "pending f = 0" using assms(8) by (simp add: pending_def)
    have av: "avail ?f1 + 32 \<le> avail f" using r by (simp add: avail_def)
    have b1: "bits_of ?f1 = bits_of_bytes r" "reg ?f1" by (simp_all add: bits_of_def reg_def)
    consider "?nlen \<noteq> 65535 - ?len" | "?nlen = 65535 - ?len" "?len = 0" | "?nlen = 65535 - ?len" "?len \<noteq> 0" by blast
    then show ?thesis
    proof cases
      case 1
      then have "dataBlock f = ?f1\<lparr>f_err := Some (CorruptInputError (f_roffset ?f1))\<rparr>" "take_stored (bits_of f) out = None" using db st by simp_all
      moreover have "bitioe f ?f1" by (intro bitio_e) (simp add: bitio_def)
      moreover have "CorruptInputError (f_roffset ?f1) \<noteq> io_EOF" by (simp add: io_EOF_def)
      ultimately show ?thesis using step_error [OF assms(1,2,3,5), of ?f1 "CorruptInputError (f_roffset ?f1)" c n] av assms(10) pf by (simp add: after_def)
    next
      case 2
      then have e: "dataBlock f = finishBlock (flush ?f1)" "take_stored (bits_of f) out = Some (bits_of_bytes r, out)" using db st by simp_all
      have w1: "window maxMatchOffset (f_dict ?f1) out m" using assms(1) by simp
      obtain d where d: "flush ?f1 = ?f1\<lparr>f_toRead := drop m out, f_dict := d\<rparr>" "window maxMatchOffset d out (length out)" "0 < availWrite d"
        using flush_ok [OF w1] by blast
      let ?g = "?f1\<lparr>f_toRead := drop m out, f_dict := d\<rparr>"
      have g: "window maxMatchOffset (f_dict ?g) out (length out)" "0 < availWrite (f_dict ?g)" "f_toRead ?g = drop m (take (length out) out)" "m \<le> length out"
          "arrays ?g" "f_err ?g = None" "reg ?g" "f_nb ?g \<le> 7" "f_copyLen ?g = 0" "dist_ok ?g out" "f_toRead ?g = [] \<or> length out = length out"
        using d(2,3) assms window_len [OF assms(1)] by (simp_all add: arrays_def reg_def dist_ok_def)
      obtain m' where m': "sim (finishBlock ?g) out m' m (after (f_final ?g) (Some (bits_of ?g, out)))" "length out \<le> m'" "avail (finishBlock ?g) = avail ?g"
          "f_step (finishBlock ?g) = NextBlock"
        using finishBlock_ok [OF g] by blast
      have "avail ?g = avail ?f1" "bits_of ?g = bits_of_bytes r" by (simp_all add: avail_def bits_of_def)
      then show ?thesis unfolding e d(1) step_post_def using m' av assms(10,11) window_len [OF assms(1)]
        by (intro exI [of _ "finishBlock ?g"] exI [of _ out] exI [of _ m']) (simp add: cost_def pending_def progress_def)
    next
      case 3
      then have n1: "\<not> ?nlen \<noteq> 65535 - ?len" by blast
      have e: "dataBlock f = copyData (?f1\<lparr>f_copyLen := ?len\<rparr>)" unfolding db if_not_P [OF n1] if_not_P [OF 3(2)] ..
      have e2: "take_stored (bits_of f) out = (case take_bytes ?len (bits_of_bytes r) of None \<Rightarrow> None | Some (cs, bs) \<Rightarrow> Some (bs, out @ cs))"
        unfolding st if_not_P [OF n1] by (cases "take_bytes ?len (bits_of_bytes r)") auto
      show ?thesis unfolding e e2
        by (rule copyData_ok) (use assms av in \<open>auto simp: arrays_def reg_def dist_ok_def bits_of_def avail_def\<close>)
    qed
  qed
qed

section \<open>Steps\<close>

lemma take_blocks_3:
  assumes "3 \<le> length bs"
  shows "take_blocks bs out = after (num (take 1 bs) = 1) (take_block (num (take 2 (drop 1 bs))) (drop 3 bs) out)"
proof -
  have "2 \<le> length bs - 1" using assms by simp
  then show ?thesis using assms by (subst take_blocks.simps) (simp add: take_num_def after_def split: option.split)
qed

lemma fixed_in_block:
  assumes "f_hl f = Some Fixed" "f_hd f = None" "f_nb f \<le> 7"
  shows "in_block f fixed_lengths fixed_dists"
proof -
  have "fixed_lengths ! 256 = 7" by (simp add: fixed_lengths_def)
  moreover have "table fixed_lengths 7 fixedHuffmanDecoder" using fixed_table by (auto simp: table_def)
  ultimately show ?thesis using assms by (simp add: in_block_def hl_ok_def hd_ok_def htab_def)
qed

lemma huffmanBlock_ok:
  assumes "window maxMatchOffset (f_dict f) out m" "0 < availWrite (f_dict f)" "arrays f" "f_err f = None" "f_toRead f = []" "reg f"
    "in_block f ls ds" "dist_ok f out" "f_copyLen f = 0" "length out + 258 * avail f \<le> c" "2 * avail f \<le> n"
  shows "step_post (huffmanBlock f) out m (after (f_final f) (take_syms ls ds (bits_of f) out)) c n"
proof -
  have "loop_pre (f_stepState f) f out m ls ds" unfolding loop_pre_def using assms(1-9) by (simp add: dist_ok_def)
  note sp = huffman_loop_ok [OF this, unfolded loop_ok_def]
  have "copied (f_stepState f) f out = out" using assms(9) by (simp add: copied_def split: stepState.split)
  then show ?thesis unfolding huffmanBlock_def using step_post_mono [OF sp, of out c n] assms(9-11) by simp
qed

end
