(* ===== verification/FlateRead.thy ===== *)
theory FlateRead
  imports FlateCorrect
begin

unbundle bit_operations_syntax

text \<open>
  The steps of the inflater from the start of a block, and \<open>Read\<close>: however the stream is read, the
  reads deliver the output of the reference, then \<open>io.EOF\<close>, and fail on every other input.
\<close>

section \<open>The start of a block\<close>

lemma avail_tables:
  "init1 ls f = Some (ok, g) \<Longrightarrow> avail g = avail f"
  "init2 ls f = Some (ok, g) \<Longrightarrow> avail g = avail f"
  "corrupt f = Some (r, g) \<Longrightarrow> avail g = avail f"
  "avail (f\<lparr>f_bits := bs\<rparr>) = avail f"
  "avail (f\<lparr>f_codebits := bs\<rparr>) = avail f"
  "avail (f\<lparr>f_h1 := h\<rparr>) = avail f"
  "avail (zero_codebits js f) = avail f"
  by (auto simp: init1_def init2_def corrupt_def avail_def zero_codebits_def)

lemma avail_read_codebits: "read_codebits js f = (e, g) \<Longrightarrow> avail g \<le> avail f"
proof (induction js f rule: read_codebits.induct)
  case (2 j js f)
  obtain r f1 where r: "readBits 3 f = (r, f1)" by fastforce
  show ?case
  proof (cases r)
    case (Inl e)
    then show ?thesis using 2(2) r avail_readBits [OF r] by simp
  next
    case (Inr v)
    then have "avail g \<le> avail (f1\<lparr>f_codebits := (f_codebits f1)[j := v]\<rparr>)" using 2(1) [OF r [symmetric] Inr] 2(2) r by simp
    then show ?thesis using avail_readBits [OF r] by (simp add: avail_tables)
  qed
qed simp

lemma avail_read_lengths: "read_lengths i n f = Some (r, g) \<Longrightarrow> avail g \<le> avail f"
proof (induction i n f rule: read_lengths.induct)
  case (1 i n f)
  show ?case
  proof (cases "i < n")
    case True
    obtain q f1 where q: "huffSym (f_h1 f) f = Some (q, f1)" using 1(3) True by (subst (asm) read_lengths.simps) (auto split: option.splits)
    note a1 = avail_huffSym [OF q]
    show ?thesis
    proof (cases q)
      case (Inl e)
      then show ?thesis using 1(3) True q a1 by (subst (asm) read_lengths.simps) simp
    next
      case (Inr x)
      show ?thesis
      proof (cases "x < 16")
        case x: True
        then have "i < length (f_bits f1)" "read_lengths (i + 1) n (f1\<lparr>f_bits := (f_bits f1)[i := x]\<rparr>) = Some (r, g)"
          using 1(3) True q Inr by (subst (asm) read_lengths.simps, simp split: if_splits)+
        then show ?thesis using 1(1) [OF True q refl Inr x] a1 by (simp add: avail_tables)
      next
        case x: False
        show ?thesis
        proof (cases "repeat_code x i f1")
          case (Inl e)
          then show ?thesis using 1(3) True q \<open>q = Inr x\<close> x a1 by (subst (asm) read_lengths.simps) simp
        next
          case (Inr p)
          obtain rep0 k b where p: "p = (rep0, k, b)" by (metis prod_cases3)
          obtain u f2 where u: "readBits k f1 = (u, f2)" by fastforce
          note a2 = avail_readBits [OF u]
          have rl: "(case u of Inl e \<Rightarrow> Some (Inl e, f2) | Inr v \<Rightarrow> if i + (rep0 + v) > n then corrupt f2
              else (case store_rep (rep0 + v) i b (f_bits f2) of None \<Rightarrow> None | Some bs \<Rightarrow> read_lengths (i + (rep0 + v)) n (f2\<lparr>f_bits := bs\<rparr>))) = Some (r, g)"
            using 1(3) True q \<open>q = Inr x\<close> x Inr p u by (subst (asm) read_lengths.simps) (cases u; simp add: Let_def)
          show ?thesis
          proof (cases u)
            case (Inl e)
            then show ?thesis using rl a1 a2 by simp
          next
            case v: (Inr v)
            show ?thesis
            proof (cases "i + (rep0 + v) > n")
              case True
              then show ?thesis using rl v a1 a2 by (auto dest: avail_tables(3))
            next
              case False
              then obtain bs where bs: "store_rep (rep0 + v) i b (f_bits f2) = Some bs" "read_lengths (i + (rep0 + v)) n (f2\<lparr>f_bits := bs\<rparr>) = Some (r, g)"
                using rl v by (auto split: option.splits)
              show ?thesis using 1(2) [OF True q refl \<open>q = Inr x\<close> x Inr p [symmetric] refl u [symmetric] v refl False bs] a1 a2 by (simp add: avail_tables)
            qed
          qed
        qed
      qed
    qed
  qed (use 1(3) in \<open>subst (asm) read_lengths.simps, simp\<close>)
qed

lemma avail_init_tables: "init_tables nlit ndist f = Some (r, g) \<Longrightarrow> avail g = avail f"
  by (auto simp: init_tables_def avail_tables split: option.splits bool.splits if_splits dest!: avail_tables(1,2,3))

lemma avail_rest_tables: "rest_tables nlit ndist nclen f = Some (r, g) \<Longrightarrow> avail g \<le> avail f"
  unfolding rest_tables_def fbind_def
  by (auto simp: avail_tables Let_def split: option.splits prod.splits bool.splits sum.splits
      dest!: avail_read_codebits avail_tables(1,3) avail_read_lengths avail_init_tables)

lemma avail_drop: "avail (f\<lparr>f_b := b\<rparr>) = avail f" "avail (f\<lparr>f_b := b, f_nb := f_nb f - n\<rparr>) \<le> avail f"
  by (simp_all add: avail_def)

lemma avail_readHuffman: "readHuffman f = Some (r, g) \<Longrightarrow> avail g \<le> avail f"
  by (auto simp: readHuffman_rest avail_drop Let_def split: option.splits prod.splits if_splits
      dest!: avail_need avail_rest_tables avail_tables(3) dest: order_trans [OF _ avail_drop(2)])

lemma take_blocks_short: "length bs < 3 \<Longrightarrow> take_blocks bs out = None"
  by (subst take_blocks.simps) (auto simp: take_num_def split: option.split)

text \<open>The three bits of a block header.\<close>

lemma block_header:
  assumes "reg f" "f_nb f \<le> 7"
  shows "\<exists>e g. need 3 f = (e, g) \<and> bitio f g \<and> avail g = avail f \<and>
    (if 3 \<le> avail f
     then e = None \<and> (f_b g AND 1 = 1) = (num (take 1 (bits_of f)) = 1) \<and>
       unat (drop_bit 1 (f_b g) AND 3) = num (take 2 (drop 1 (bits_of f))) \<and>
       reg (g\<lparr>f_b := drop_bit 3 (f_b g), f_nb := f_nb g - 3\<rparr>) \<and>
       bits_of (g\<lparr>f_b := drop_bit 3 (f_b g), f_nb := f_nb g - 3\<rparr>) = drop 3 (bits_of f) \<and> f_nb g - 3 \<le> 7
     else \<exists>x. e = Some x \<and> x \<noteq> io_EOF)"
proof -
  obtain e g where g: "need 3 f = (e, g)" "bitio f g"
    "if 3 \<le> avail f then e = None \<and> reg g \<and> bits_of g = bits_of f \<and> 3 \<le> f_nb g \<and> f_nb g \<le> max (f_nb f) (3 + 7) else \<exists>x. e = Some x \<and> x \<noteq> io_EOF"
    using need_ok [OF assms(1), of 3] assms(2) by auto
  show ?thesis
  proof (cases "3 \<le> avail f")
    case False
    then show ?thesis using g avail_need [OF g(1)] by simp
  next
    case True
    then have k: "e = None" "reg g" "bits_of g = bits_of f" "3 \<le> f_nb g" "f_nb g \<le> 10" using g(3) assms(2) by auto
    have n1: "1 \<le> f_nb g" using k(4) by simp
    let ?g1 = "g\<lparr>f_b := drop_bit 1 (f_b g), f_nb := f_nb g - 1\<rparr>"
    note d1 = reg_drop [OF k(2) n1 refl] and d3 = reg_drop [OF k(2,4) refl]
    have "unat (take_bit 1 (f_b g)) = num (take 1 (bits_of f))" using reg_low_bits [OF k(2) n1] k(3) by simp
    moreover have "take_bit 1 (f_b g) = f_b g AND 1" by (simp add: take_bit_eq_mask mask_eq_exp_minus_1)
    ultimately have a: "unat (f_b g AND 1) = num (take 1 (bits_of f))" by simp
    have "unat (take_bit 2 (f_b ?g1)) = num (take 2 (drop 1 (bits_of f)))" using reg_low_bits [OF d1(1), of 2] k(3,4) d1(2) by simp
    moreover have "take_bit 2 (f_b ?g1) = drop_bit 1 (f_b g) AND 3" by (simp add: take_bit_eq_mask mask_eq_exp_minus_1)
    ultimately have b: "unat (drop_bit 1 (f_b g) AND 3) = num (take 2 (drop 1 (bits_of f)))" by simp
    have "(f_b g AND 1 = 1) = (unat (f_b g AND 1) = 1)" by (metis unsigned_1 unsigned_word_eqI)
    then show ?thesis using g(1,2) avail_need [OF g(1)] k a b d3(1,2) True by simp
  qed
qed

lemma step_error_core:
  assumes "window maxMatchOffset (f_dict f) out m" "0 < availWrite (f_dict f)" "arrays g" "f_toRead f = []" "core g = core f"
    "x \<noteq> io_EOF" "avail g \<le> avail f" "length out + pending f + 258 * avail f \<le> c"
  shows "step_post (Some (g\<lparr>f_err := Some x\<rparr>)) out m None c n"
proof -
  let ?g = "g\<lparr>f_err := Some x\<rparr>"
  have b: "f_dict g = f_dict f" "f_toRead g = f_toRead f" "pending g = pending f" using assms(5) by (simp_all add: core_def pending_def)
  have "arrays ?g" using assms(3) by (simp add: arrays_def)
  then have "sim ?g out m m None" using assms(1,2,4,6) b by (simp add: sim_def)
  moreover have "avail ?g = avail g" "pending ?g = pending g" by (simp_all add: avail_def pending_def)
  then have "cost ?g out \<le> c" using assms(7,8) b by (simp add: cost_def)
  ultimately show ?thesis by (rule step_postI [OF refl _ prefix_order.refl order_refl]) simp
qed

lemma dynamic_in_block:
  assumes "table ls (ls ! 256) (f_h1 f)" "table ds 0 (f_h2 f)" "f_hl f = Some Table1" "f_hd f = Some Table2" "f_nb f \<le> 7"
  shows "in_block f ls ds"
proof -
  have "ls ! 256 \<le> 15" using assms(1) by (simp add: table_def)
  then show ?thesis using assms by (simp add: in_block_def hl_ok_def hd_ok_def htab_def)
qed

text \<open>The states a block starts in.\<close>

definition between :: "decompressor \<Rightarrow> bytes \<Rightarrow> nat \<Rightarrow> bool" where
  "between f out m \<longleftrightarrow>
     window maxMatchOffset (f_dict f) out m \<and> 0 < availWrite (f_dict f) \<and> arrays f \<and> f_err f = None \<and> f_toRead f = [] \<and> reg f \<and>
     dist_ok f out \<and> f_step f = NextBlock \<and> f_nb f \<le> 7 \<and> f_copyLen f = 0"

definition block_kind :: "nat \<Rightarrow> decompressor \<Rightarrow> decompressor option" where
  "block_kind k f =
    (if k = 0 then Some (dataBlock f)
     else if k = 1 then huffmanBlock (f\<lparr>f_hl := Some Fixed, f_hd := None\<rparr>)
     else if k = 2 then
       (case readHuffman f of
          None \<Rightarrow> None
        | Some (Inl e, f) \<Rightarrow> Some (f\<lparr>f_err := Some e\<rparr>)
        | Some (Inr _, f) \<Rightarrow> huffmanBlock (f\<lparr>f_hl := Some Table1, f_hd := Some Table2\<rparr>))
     else Some (f\<lparr>f_err := Some (CorruptInputError (f_roffset f))\<rparr>))"

lemma unat_small: "(unat w = 0) = (w = 0)" "(unat w = 1) = (w = 1)" "(unat w = 2) = (w = 2)" for w :: "32 word"
  by (simp_all add: word_eq_iff_unsigned [where ?'a = nat])

lemma nextBlock_header:
  "nextBlock f0 =
     (case need 3 f0 of
        (Some e, f) \<Rightarrow> Some (f\<lparr>f_err := Some e\<rparr>)
      | (None, f) \<Rightarrow> block_kind (unat (drop_bit 1 (f_b f) AND 3))
          (f\<lparr>f_final := (f_b f AND 1 = 1), f_b := drop_bit 3 (f_b f), f_nb := f_nb f - 3\<rparr>))"
proof -
  have "(1 + 2 :: nat) = 3" by simp
  then show ?thesis unfolding nextBlock_def block_kind_def unat_small by (simp only: Let_def) (simp cong: option.case_cong prod.case_cong if_cong)
qed

lemma block_kind_ok:
  assumes "between f out m" "length out + 258 * avail f \<le> c" "2 * avail f < n"
  shows "step_post (block_kind k f) out m (after (f_final f) (take_block k (bits_of f) out)) c n"
proof -
  note b = assms(1) [unfolded between_def]
  have pf: "pending f = 0" using b by (simp add: pending_def)
  have cp: "length out + pending f + 258 * avail f \<le> c" using pf assms(2) by simp
  consider "k = 0" | "k = 1" | "k = 2" | "k > 2" by linarith
  then show ?thesis
  proof cases
    case 1
    show ?thesis unfolding 1 take_block_def block_kind_def using dataBlock_ok [of f out m c n] b assms(2,3) by simp
  next
    case 2
    let ?g = "f\<lparr>f_hl := Some Fixed, f_hd := None\<rparr>"
    have g: "arrays ?g" "reg ?g" "dist_ok ?g out" "bits_of ?g = bits_of f" "avail ?g = avail f"
      using b by (simp_all add: arrays_def reg_def dist_ok_def bits_of_def avail_def)
    have "in_block ?g fixed_lengths fixed_dists" using b by (intro fixed_in_block) simp_all
    then show ?thesis unfolding take_block_def block_kind_def using 2 huffmanBlock_ok [of ?g out m fixed_lengths fixed_dists c n] b g assms(2,3) by simp
  next
    case 3
    obtain r g where g: "readHuffman f = Some (r, g)" "core g = core f" "arrays g"
      "case take_tables (bits_of f) of
         None \<Rightarrow> \<exists>x. r = Inl x \<and> x \<noteq> io_EOF
       | Some (ls, ds, bs) \<Rightarrow> r = Inr () \<and> f_err g = f_err f \<and> reg g \<and> bits_of g = bs \<and> f_nb g \<le> 7 \<and>
           table ls (ls ! 256) (f_h1 g) \<and> table ds 0 (f_h2 g)"
      using readHuffman_ok [of f] b by blast
    note av = avail_readHuffman [OF g(1)]
    show ?thesis
    proof (cases "take_tables (bits_of f)")
      case None
      then obtain x where x: "r = Inl x" "x \<noteq> io_EOF" using g(4) by auto
      have "after (f_final f) (take_block k (bits_of f) out) = None" using None 3 by (simp add: take_block_def after_def)
      moreover have "step_post (Some (g\<lparr>f_err := Some x\<rparr>)) out m None c n" using b by (intro step_error_core [OF _ _ g(3) _ g(2) x(2) av cp]) simp_all
      ultimately show ?thesis using 3 g(1) x(1) by (simp add: block_kind_def)
    next
      case (Some p)
      obtain ls ds bs where "p = (ls, ds, bs)" by (metis prod_cases3)
      with Some have tt: "take_tables (bits_of f) = Some (ls, ds, bs)" by simp
      then have k: "r = Inr ()" "f_err g = f_err f" "reg g" "bits_of g = bs" "f_nb g \<le> 7" "table ls (ls ! 256) (f_h1 g)" "table ds 0 (f_h2 g)"
        using g(4) by auto
      let ?h = "g\<lparr>f_hl := Some Table1, f_hd := Some Table2\<rparr>"
      have c: "f_dict g = f_dict f" "f_step g = f_step f" "f_stepState g = f_stepState f" "f_final g = f_final f" "f_toRead g = f_toRead f"
          "f_copyLen g = f_copyLen f" "f_copyDist g = f_copyDist f" using g(2) by (simp_all add: core_def)
      have h: "arrays ?h" "reg ?h" "dist_ok ?h out" "bits_of ?h = bs" "avail ?h = avail g"
        using b g(3) k(3,4) c by (simp_all add: arrays_def reg_def dist_ok_def bits_of_def avail_def)
      have "in_block ?h ls ds" using k by (intro dynamic_in_block) simp_all
      then have "step_post (huffmanBlock ?h) out m (after (f_final ?h) (take_syms ls ds (bits_of ?h) out)) c n"
        using b c k(2) h av assms(2,3) by (intro huffmanBlock_ok) simp_all
      then show ?thesis using 3 g(1) k(1) tt h(4) c(4) by (simp add: take_block_def block_kind_def)
    qed
  next
    case 4
    let ?e = "CorruptInputError (f_roffset f)"
    have "?e \<noteq> io_EOF" by (simp add: io_EOF_def)
    then have "step_post (Some (f\<lparr>f_err := Some ?e\<rparr>)) out m None c n"
      using b cp step_error_core [of f out m f ?e c n] by simp
    then show ?thesis using 4 by (simp add: take_block_def after_def block_kind_def)
  qed
qed

lemma nextBlock_ok:
  assumes "between f out m"
  shows "step_post (nextBlock f) out m (take_blocks (bits_of f) out) (cost f out) (progress f)"
proof -
  note b = assms [unfolded between_def]
  have cf: "cost f out = length out + 258 * avail f" "progress f = 2 * avail f" using b next_block by blast+
  obtain e g where g: "need 3 f = (e, g)" "bitio f g" "avail g = avail f"
    "if 3 \<le> avail f
     then e = None \<and> (f_b g AND 1 = 1) = (num (take 1 (bits_of f)) = 1) \<and>
       unat (drop_bit 1 (f_b g) AND 3) = num (take 2 (drop 1 (bits_of f))) \<and>
       reg (g\<lparr>f_b := drop_bit 3 (f_b g), f_nb := f_nb g - 3\<rparr>) \<and>
       bits_of (g\<lparr>f_b := drop_bit 3 (f_b g), f_nb := f_nb g - 3\<rparr>) = drop 3 (bits_of f) \<and> f_nb g - 3 \<le> 7
     else \<exists>x. e = Some x \<and> x \<noteq> io_EOF"
    using block_header [of f] b by blast
  note bg = bitio_sel [OF g(2)]
  show ?thesis
  proof (cases "3 \<le> avail f")
    case False
    then obtain x where x: "e = Some x" "x \<noteq> io_EOF" using g(4) by auto
    have "arrays g" "core g = core f" using b bg by (simp_all add: arrays_def core_def)
    moreover have "length out + pending f + 258 * avail f \<le> cost f out" by (simp add: cost_def)
    ultimately have "step_post (Some (g\<lparr>f_err := Some x\<rparr>)) out m None (cost f out) (progress f)"
      using b g(3) x(2) by (intro step_error_core [of f]) simp_all
    then show ?thesis using g(1) x(1) False by (simp add: nextBlock_header take_blocks_short)
  next
    case True
    let ?k = "num (take 2 (drop 1 (bits_of f)))"
    let ?h = "g\<lparr>f_final := (num (take 1 (bits_of f)) = 1), f_b := drop_bit 3 (f_b g), f_nb := f_nb g - 3\<rparr>"
    let ?p = "g\<lparr>f_b := drop_bit 3 (f_b g), f_nb := f_nb g - 3\<rparr>"
    have k: "e = None" "(f_b g AND 1 = 1) = (num (take 1 (bits_of f)) = 1)" "unat (drop_bit 1 (f_b g) AND 3) = ?k"
        "reg ?p" "bits_of ?p = drop 3 (bits_of f)" "f_nb g - 3 \<le> 7" using g(4) True by simp_all
    have h: "reg ?h" "bits_of ?h = drop 3 (bits_of f)" using k(4,5) by (simp_all add: reg_def bits_of_def)
    have ff: "f_final ?h = (num (take 1 (bits_of f)) = 1)" by simp
    have "avail ?h = avail f - 3" using arg_cong [OF h(2), of length] by (simp only: length_bits_of length_drop)
    then have av: "avail ?h + 3 = avail f" using True by simp
    have "between ?h out m" using b bg k(6) h(1) by (simp add: between_def arrays_def dist_ok_def)
    moreover have "length out + 258 * avail ?h \<le> cost f out" "2 * avail ?h < progress f" using cf av by linarith+
    ultimately have sp: "step_post (block_kind ?k ?h) out m (after (f_final ?h) (take_block ?k (bits_of ?h) out)) (cost f out) (progress f)"
      by (rule block_kind_ok)
    have "nextBlock f = block_kind ?k ?h" unfolding nextBlock_header g(1) k(1) using k(2,3) by simp
    then show ?thesis using sp take_blocks_3 [of "bits_of f" out] True unfolding h(2) ff by simp
  qed
qed

section \<open>Reading\<close>

lemma sim_drained: "sim f out m em res \<Longrightarrow> f_toRead f = [] \<Longrightarrow> em = m"
  using window_len [of maxMatchOffset "f_dict f" out m] by (auto simp: sim_def)

lemma do_step_ok:
  assumes "sim f out m em res" "f_err f = None" "f_toRead f = []"
  shows "step_post (do_step f) out m res (cost f out) (progress f)"
proof -
  have s: "window maxMatchOffset (f_dict f) out m" "0 < availWrite (f_dict f)" "arrays f" "reg f" "dist_ok f out" "ahead f out res"
    using assms(1,2) by (simp_all add: sim_def)
  show ?thesis
  proof (cases "f_step f")
    case NextBlock
    then have "between f out m" "res = take_blocks (bits_of f) out" using s assms(2,3) by (simp_all add: between_def ahead_def)
    then show ?thesis using nextBlock_ok [of f out m] NextBlock by (simp add: do_step_def)
  next
    case HuffmanBlock
    then obtain ls ds where b: "in_block f ls ds" "f_stepState f = StateInit \<longrightarrow> f_copyLen f = 0"
        "res = after (f_final f) (take_syms ls ds (bits_of f) (copied (f_stepState f) f out))" using s(6) by (auto simp: ahead_def)
    have "loop_pre (f_stepState f) f out m ls ds" unfolding loop_pre_def using s assms(2,3) b(1,2) by (simp add: dist_ok_def)
    note sp = huffman_loop_ok [OF this, unfolded loop_ok_def]
    show ?thesis using step_post_mono [OF sp prefix_order.refl, of "cost f out" "progress f"] HuffmanBlock
      by (simp add: do_step_def huffmanBlock_def b(3) cost_def pending_def progress_def)
  next
    case CopyData
    then have "f_nb f = 0" "res = after (f_final f) (case take_bytes (f_copyLen f) (bits_of f) of None \<Rightarrow> None | Some (cs, bs) \<Rightarrow> Some (bs, out @ cs))"
      using s(6) by (simp_all add: ahead_def)
    then have "step_post (Some (copyData f)) out m res (cost f out) (progress f)"
      using s assms(2,3) CopyData by (intro copyData_ok) (simp_all add: cost_def pending_def progress_def)
    then show ?thesis using CopyData by (simp add: do_step_def)
  qed
qed

text \<open>What a call of \<open>Read\<close> has delivered.\<close>

definition read_post :: "nat \<Rightarrow> decompressor \<Rightarrow> bytes \<Rightarrow> nat \<Rightarrow> (bits \<times> bytes) option \<Rightarrow> nat \<Rightarrow> (bytes \<times> error option \<times> decompressor) option \<Rightarrow> bool" where
  "read_post n f out em res c r \<longleftrightarrow>
     (\<exists>b e g out' m. r = Some (b, e, g) \<and> sim g out' m (em + length b) res \<and> prefix out out' \<and> take em out' @ b = take (em + length b) out' \<and>
        em + length b \<le> length out' \<and> cost g out' \<le> c \<and> length b \<le> n \<and> (e = None \<longrightarrow> 0 < n \<longrightarrow> b \<noteq> []) \<and>
        (\<forall>x. e = Some x \<longrightarrow> f_err g = Some x \<and> f_toRead g = []))"

definition rank :: "decompressor \<Rightarrow> nat" where
  "rank f = (if f_toRead f \<noteq> [] \<or> f_err f \<noteq> None then 0 else Suc (progress f))"

lemma read_deliver:
  assumes "sim f out m em res" "f_toRead f \<noteq> []"
  shows "read_post n f out em res (cost f out) (flate_Read n f)"
proof -
  let ?b = "take n (f_toRead f)" and ?g = "f\<lparr>f_toRead := drop n (f_toRead f)\<rparr>"
  have r: "flate_Read n f = Some (?b, if f_toRead ?g = [] then f_err ?g else None, ?g)"
    using assms(2) by (subst flate_Read.simps) (simp add: Let_def)
  have m: "em \<le> m" "f_toRead f = drop em (take m out)" "m \<le> length out" using assms(1) window_len [of maxMatchOffset "f_dict f" out m] by (auto simp: sim_def)
  have l: "length ?b = min n (m - em)" using m by simp
  have d: "drop n (f_toRead f) = drop (em + length ?b) (take m out)"
  proof (cases "n \<le> m - em")
    case True
    then show ?thesis unfolding m(2) l [unfolded m(2)] by (simp add: add.commute)
  next
    case False
    then show ?thesis using m(3) l unfolding m(2) by simp
  qed
  have eb: "em + length ?b \<le> m" using l m(1) by simp
  have a: "ahead ?g out res" if "ahead f out res"
    using that tables_cong [of ?g f] by (auto simp: ahead_def bits_of_def in_block_def copied_def split: step.splits stepState.splits)
  have "sim ?g out m (em + length ?b) res" unfolding sim_def using assms(1) a d eb
    by (auto simp: sim_def arrays_def reg_def dist_ok_def bits_of_def split: option.splits)
  moreover have "take em out @ ?b = take (em + length ?b) out"
  proof -
    have "?b = take (length ?b) (drop em out)" using l m by (simp add: take_drop min_def)
    then show ?thesis by (metis take_add)
  qed
  moreover have "cost ?g out = cost f out" by (simp add: cost_def pending_def avail_def)
  moreover have "0 < n \<longrightarrow> ?b \<noteq> []" using assms(2) by simp
  ultimately show ?thesis unfolding read_post_def r using eb m(3)
    by (intro exI [of _ ?b] exI [of _ "if f_toRead ?g = [] then f_err ?g else None"] exI [of _ ?g] exI [of _ out] exI [of _ m]) (auto split: if_splits)
qed

lemma flush_sim:
  assumes "sim f out m em res" "f_err f \<noteq> None" "f_toRead f = []"
  shows "\<exists>m'. sim (flush f) out m' em res" "cost (flush f) out = cost f out" "f_err (flush f) = f_err f"
proof -
  have w: "window maxMatchOffset (f_dict f) out m" using assms(1) by (simp add: sim_def)
  have em: "em = m" by (rule sim_drained [OF assms(1,3)])
  obtain d where d: "flush f = f\<lparr>f_toRead := drop m out, f_dict := d\<rparr>" "window maxMatchOffset d out (length out)" "0 < availWrite d"
    using flush_ok [OF w] by blast
  have "sim (f\<lparr>f_toRead := drop m out, f_dict := d\<rparr>) out (length out) em res"
    using assms(1,2) d(2,3) em window_len [OF w] by (auto simp: sim_def arrays_def reg_def bits_of_def split: option.splits if_splits)
  then show "\<exists>m'. sim (flush f) out m' em res" unfolding d(1) by blast
  show "cost (flush f) out = cost f out" "f_err (flush f) = f_err f" unfolding d(1) by (simp_all add: cost_def pending_def avail_def)
qed

lemma flate_Read_ok:
  assumes "sim f out m em res"
  shows "read_post n f out em res (cost f out) (flate_Read n f)"
  using assms
proof (induction "rank f" arbitrary: f out m rule: less_induct)
  case less
  show ?case
  proof (cases "f_toRead f = []")
    case False
    then show ?thesis by (rule read_deliver [OF less.prems])
  next
    case tr: True
    note w = window_len [of maxMatchOffset "f_dict f" out m]
    show ?thesis
    proof (cases "f_err f")
      case (Some x)
      then have "flate_Read n f = Some ([], Some x, f)" using tr by (subst flate_Read.simps) simp
      moreover have "em \<le> length out" using less.prems w by (auto simp: sim_def)
      ultimately show ?thesis unfolding read_post_def using less.prems Some tr
        by (intro exI [of _ "[]"] exI [of _ "Some x"] exI [of _ f] exI [of _ out] exI [of _ m]) simp
    next
      case None
      obtain g out' m' where g: "do_step f = Some g" "sim g out' m' m res" "prefix out out'" "m \<le> m'" "cost g out' \<le> cost f out"
          "f_toRead g \<noteq> [] \<or> f_err g \<noteq> None \<or> progress g < progress f"
        using do_step_ok [OF less.prems None tr] unfolding step_post_def by blast
      have em: "em = m" by (rule sim_drained [OF less.prems tr])
      let ?g = "if f_err g \<noteq> None \<and> f_toRead g = [] then flush g else g"
      have rd: "flate_Read n f = flate_Read n ?g" using tr None g(1) by (subst flate_Read.simps) simp
      obtain m2 where m2: "sim ?g out' m2 em res" using g(2) flush_sim(1) [OF g(2)] em by (cases "f_err g \<noteq> None \<and> f_toRead g = []") auto
      have c: "cost ?g out' = cost g out'" using flush_sim(2) [OF g(2)] by auto
      have "rank ?g < rank f" using g(6) tr None flush_sim(3) [OF g(2)] by (auto simp: rank_def)
      from less.hyps [OF this m2] have "read_post n ?g out' em res (cost g out') (flate_Read n f)" unfolding rd c .
      then show ?thesis unfolding read_post_def using g(3,5) by (fastforce intro: prefix_order.trans)
    qed
  qed
qed

text \<open>A sequence of reads, up to the first error.\<close>

fun flate_reads :: "nat list \<Rightarrow> decompressor \<Rightarrow> (bytes \<times> error option \<times> decompressor) option" where
  "flate_reads [] f = Some ([], None, f)"
| "flate_reads (n # ns) f =
     (case flate_Read n f of
        None \<Rightarrow> None
      | Some (b, Some e, g) \<Rightarrow> Some (b, Some e, g)
      | Some (b, None, g) \<Rightarrow> (case flate_reads ns g of None \<Rightarrow> None | Some (bs, e, h) \<Rightarrow> Some (b @ bs, e, h)))"

lemma flate_reads_ok:
  assumes "sim f out m em res"
  shows "\<exists>b e g out' m. flate_reads ns f = Some (b, e, g) \<and> sim g out' m (em + length b) res \<and> prefix out out' \<and>
    take em out' @ b = take (em + length b) out' \<and> em + length b \<le> length out' \<and> cost g out' \<le> cost f out \<and>
    (e = None \<longrightarrow> (\<forall>n \<in> set ns. 0 < n) \<longrightarrow> length ns \<le> length b) \<and> (\<forall>x. e = Some x \<longrightarrow> f_err g = Some x \<and> f_toRead g = [])"
  using assms
proof (induction ns arbitrary: f out m em)
  case Nil
  have "em \<le> length out" using Nil window_len [of maxMatchOffset "f_dict f" out m] by (auto simp: sim_def)
  then show ?case using Nil by (intro exI [of _ "[]"] exI [of _ None] exI [of _ f] exI [of _ out] exI [of _ m]) simp
next
  case (Cons n ns)
  obtain b e g o1 m1 where g: "flate_Read n f = Some (b, e, g)" "sim g o1 m1 (em + length b) res" "prefix out o1" "take em o1 @ b = take (em + length b) o1"
      "em + length b \<le> length o1" "cost g o1 \<le> cost f out" "e = None \<longrightarrow> 0 < n \<longrightarrow> b \<noteq> []" "\<forall>x. e = Some x \<longrightarrow> f_err g = Some x \<and> f_toRead g = []"
    using flate_Read_ok [OF Cons.prems, of n] unfolding read_post_def by blast
  show ?case
  proof (cases e)
    case (Some x)
    then have "flate_reads (n # ns) f = Some (b, Some x, g)" using g(1) by simp
    then show ?thesis using g Some by blast
  next
    case None
    obtain bs e2 h o2 m2 where h: "flate_reads ns g = Some (bs, e2, h)" "sim h o2 m2 (em + length b + length bs) res" "prefix o1 o2"
        "take (em + length b) o2 @ bs = take (em + length b + length bs) o2" "em + length b + length bs \<le> length o2" "cost h o2 \<le> cost g o1"
        "e2 = None \<longrightarrow> (\<forall>n \<in> set ns. 0 < n) \<longrightarrow> length ns \<le> length bs" "\<forall>x. e2 = Some x \<longrightarrow> f_err h = Some x \<and> f_toRead h = []"
      using Cons.IH [OF g(2)] by blast
    have r: "flate_reads (n # ns) f = Some (b @ bs, e2, h)" using g(1) None h(1) by simp
    obtain z where z: "o2 = o1 @ z" using h(3) by (auto simp: prefix_def)
    have "take em o2 @ b = take (em + length b) o2" using g(4,5) unfolding z by simp
    then have t: "take em o2 @ b @ bs = take (em + length (b @ bs)) o2" using h(4) by (metis add.assoc append.assoc length_append)
    have l: "e2 = None \<longrightarrow> (\<forall>n \<in> set (n # ns). 0 < n) \<longrightarrow> length (n # ns) \<le> length (b @ bs)"
      using g(7) None h(7) by (cases b) auto
    have p: "prefix out o2" by (rule prefix_order.trans [OF g(3) h(3)])
    have c: "cost h o2 \<le> cost f out" using h(6) g(6) by simp
    have s: "sim h o2 m2 (em + length (b @ bs)) res" "em + length (b @ bs) \<le> length o2" using h(2,5) by (simp_all add: add.assoc)
    show ?thesis using r s p t c l h(8) by blast
  qed
qed

section \<open>What is left of the input\<close>

lemma suffix_take_num: "take_num n bs = Some (v, bs') \<Longrightarrow> suffix bs' bs"
  by (auto simp: take_num_def suffix_drop split: if_splits)

lemma suffix_take_sym: "take_sym ls bs = Some (v, bs') \<Longrightarrow> suffix bs' bs"
  by (auto simp: take_sym_def suffix_drop split: option.splits)

lemma suffix_take_nums: "take_nums k n bs = Some (vs, bs') \<Longrightarrow> suffix bs' bs"
  by (induction k arbitrary: bs vs) (fastforce simp: Option.bind_eq_Some_conv dest!: suffix_take_num intro: suffix_order.trans)+

lemma suffix_take_bytes: "take_bytes n bs = Some (cs, bs') \<Longrightarrow> suffix bs' bs"
  by (induction n arbitrary: bs cs) (fastforce simp: Option.bind_eq_Some_conv dest!: suffix_take_num intro: suffix_order.trans)+

lemma suffix_take_lengths: "take_lengths cl n bs acc = Some (ls, bs') \<Longrightarrow> suffix bs' bs"
proof (induction cl n bs acc rule: take_lengths.induct)
  case (1 cl n bs acc)
  show ?case
  proof (cases "length acc < n")
    case True
    obtain x bs1 where v: "take_sym cl bs = Some (x, bs1)" using 1(3) True by (subst (asm) take_lengths.simps) (auto split: option.splits)
    note l = suffix_take_sym [OF v]
    show ?thesis
    proof (cases "x < 16")
      case x: True
      then show ?thesis using 1(1) [OF True v refl x] 1(3) v True l by (subst (asm) (2) take_lengths.simps) (auto intro: suffix_order.trans)
    next
      case False
      then have na: "\<not> (x = 16 \<and> acc = [])" using 1(3) v True by (subst (asm) take_lengths.simps) auto
      obtain base k w :: nat where w: "(if x = 16 then (3, 2, last acc) else if x = 17 then (3, 3, 0) else (11, 7, 0)) = (base, k, w)" by (metis prod_cases3)
      obtain m bs2 where m: "take_num k bs1 = Some (m, bs2)" "\<not> n < length acc + (base + m)" "take_lengths cl n bs2 (acc @ replicate (base + m) w) = Some (ls, bs')"
        using 1(3) True v False na w by (subst (asm) take_lengths.simps) (auto split: option.splits if_splits)
      show ?thesis using 1(2) [OF True v refl False na w [symmetric] refl refl m(1) refl m(2,3)] suffix_take_num [OF m(1)] l
        by (meson suffix_order.trans)
    qed
  qed (use 1(3) in \<open>subst (asm) take_lengths.simps, simp\<close>)
qed

lemma suffix_take_tables: "take_tables bs = Some (ls, ds, bs') \<Longrightarrow> suffix bs' bs"
  by (auto simp: take_tables_def Let_def Option.bind_eq_Some_conv split: if_splits dest!: suffix_take_num suffix_take_nums suffix_take_lengths
      intro: suffix_order.trans)

lemma suffix_take_ref: "take_ref ds v bs out = Some (len, dist, bs') \<Longrightarrow> suffix bs' bs"
  by (auto simp: take_ref_def take_length_def take_dist_def Option.bind_eq_Some_conv split: option.splits if_splits
      dest!: suffix_take_num suffix_take_sym intro: suffix_order.trans)

lemma suffix_take_syms: "take_syms ls ds bs out = Some (bs', out') \<Longrightarrow> suffix bs' bs"
proof (induction ls ds bs out rule: take_syms.induct)
  case (1 ls ds bs out)
  obtain v bs1 where v: "take_sym ls bs = Some (v, bs1)" using 1(3) by (subst (asm) take_syms.simps) (auto split: option.splits)
  note l = suffix_take_sym [OF v]
  consider "v < 256" | "v = 256" | "\<not> v < 256" "v \<noteq> 256" by linarith
  then show ?case
  proof cases
    case 1
    then have "take_syms ls ds bs1 (out @ [char_of v]) = Some (bs', out')" using "1.prems" v by (subst (asm) take_syms.simps) simp
    then show ?thesis using "1.IH"(1) [OF v refl 1] l by (auto intro: suffix_order.trans)
  next
    case 2
    then show ?thesis using "1.prems" v l by (subst (asm) take_syms.simps) auto
  next
    case 3
    obtain len bs2 dist bs3 where d: "take_length v bs1 = Some (len, bs2)" "take_dist ds bs2 = Some (dist, bs3)" "\<not> length out < dist"
        "take_syms ls ds bs3 (lz_copy dist len out) = Some (bs', out')"
      using "1.prems" v 3 by (subst (asm) take_syms.simps) (auto split: option.splits if_splits)
    have "take_ref ds v bs1 out = Some (len, dist, bs3)" using d by (simp add: take_ref_def)
    then show ?thesis using "1.IH"(2) [OF v refl 3 d(1) refl d(2) refl d(3,4)] l suffix_take_ref by (meson suffix_order.trans)
  qed
qed

lemma suffix_take_block: "take_block kind bs out = Some (bs', out') \<Longrightarrow> suffix bs' bs"
proof -
  have st: "suffix bs' bs" if "take_stored bs out = Some (bs', out')"
    using that by (auto simp: take_stored_def Option.bind_eq_Some_conv split: if_splits dest!: suffix_take_num suffix_take_bytes)
      (meson suffix_drop suffix_order.trans)
  assume "take_block kind bs out = Some (bs', out')"
  then show ?thesis using st
    by (auto simp: take_block_def Option.bind_eq_Some_conv split: if_splits dest!: suffix_take_syms suffix_take_tables intro: suffix_order.trans)
qed

lemma suffix_take_blocks: "take_blocks bs out = Some (bs', out') \<Longrightarrow> suffix bs' bs"
proof (induction bs out rule: take_blocks.induct)
  case (1 bs out)
  obtain fi bs1 kind bs2 bs3 out1 where d: "take_num 1 bs = Some (fi, bs1)" "take_num 2 bs1 = Some (kind, bs2)" "take_block kind bs2 out = Some (bs3, out1)"
    using 1(2) by (subst (asm) take_blocks.simps) (auto split: option.splits)
  have s: "suffix bs3 bs" using suffix_take_num [OF d(1)] suffix_take_num [OF d(2)] suffix_take_block [OF d(3)] by (meson suffix_order.trans)
  show ?case
  proof (cases "fi = 1")
    case True
    then show ?thesis using 1(2) d s by (subst (asm) take_blocks.simps) auto
  next
    case False
    then have "take_blocks bs3 out1 = Some (bs', out')" using 1(2) d by (subst (asm) take_blocks.simps) simp
    then show ?thesis using 1(1) [OF d(1) refl d(2) refl d(3) refl False] s by (auto intro: suffix_order.trans)
  qed
qed

lemma byte_bits_inj:
  assumes "byte_bits c = byte_bits d"
  shows "c = d"
proof -
  have "(of_char c :: nat) = of_char d" using arg_cong [OF assms, of num] unfolding num_byte_bits .
  then have "(char_of (of_char c :: nat) :: char) = char_of (of_char d :: nat)" by (rule arg_cong)
  then show ?thesis by (simp only: char_of_char)
qed

lemma bits_of_bytes_inj: "bits_of_bytes xs = bits_of_bytes ys \<Longrightarrow> xs = ys"
proof (induction xs arbitrary: ys)
  case Nil
  then have "length ys = 0" using length_bits_of_bytes [of ys] by simp
  then show ?case by simp
next
  case (Cons c xs)
  have "length (c # xs) = length ys" using arg_cong [OF Cons.prems, of length] unfolding length_bits_of_bytes by simp
  then obtain d ys' where y: "ys = d # ys'" by (cases ys) auto
  then have "byte_bits c = byte_bits d \<and> bits_of_bytes xs = bits_of_bytes ys'" using Cons.prems by (simp add: append_eq_append_conv)
  then show ?case using Cons.IH byte_bits_inj y by blast
qed

lemma bits_of_bytes_drop: "bits_of_bytes (drop j r) = drop (8 * j) (bits_of_bytes r)"
proof (induction j arbitrary: r)
  case (Suc j)
  then show ?case by (cases r) simp_all
qed simp

text \<open>The bits that are left, less those in the register, are the bytes that are left.\<close>

lemma rest_bytes:
  assumes "suffix (bits_of f) (bits_of_bytes r)" "f_nb f \<le> 7"
  shows "f_r f = drop (length r - length (bits_of f) div 8) r"
proof -
  have l: "length (bits_of f) div 8 = length (f_r f)" using assms(2) by (simp add: avail_def)
  obtain z where z: "bits_of_bytes r = z @ map (bit (f_b f)) [0..<f_nb f] @ bits_of_bytes (f_r f)"
    using assms(1) by (auto simp: suffix_def bits_of_def)
  define k where "k = length r - length (f_r f)"
  have le: "length (f_r f) \<le> length r" "length z + f_nb f = 8 * k"
    using arg_cong [OF z, of length] by (simp_all add: k_def)
  have "bits_of_bytes (drop k r) = bits_of_bytes (f_r f)" unfolding bits_of_bytes_drop z le(2) [symmetric] by simp
  then have "f_r f = drop k r" by (metis bits_of_bytes_inj)
  then show ?thesis unfolding l k_def .
qed

section \<open>Whole streams\<close>

lemma window_init:
  assumes "0 < W"
  shows "window W (dict_init d W []) [] 0" "availWrite (dict_init d W []) = W"
  using assms by (auto simp: dict_init_def window_def availWrite_def Let_def)

definition begins :: "bytes \<Rightarrow> decompressor \<Rightarrow> bool" where
  "begins r f \<longleftrightarrow> sim f [] 0 0 (take_blocks (bits_of_bytes r) []) \<and> cost f [] = 2064 * length r \<and> f_r f = r"

lemma begins_NewReader: "begins r (flate_NewReader r)"
  using window_init [of maxMatchOffset]
  by (simp add: begins_def sim_def flate_NewReader_def maxMatchOffset_def arrays_def fresh_def reg_def dist_ok_def ahead_def bits_of_def
      cost_def pending_def avail_def maxNumLit_def maxNumDist_def numCodes_def)

lemma begins_Reset: "arrays f \<Longrightarrow> begins r (flate_Reset r f)"
  using window_init [of maxMatchOffset "f_dict f"]
  by (simp add: begins_def sim_def flate_Reset_def flate_NewReader_def maxMatchOffset_def arrays_def fresh_def reg_def dist_ok_def ahead_def
      bits_of_def cost_def pending_def avail_def)

text \<open>The decompressor has no more to deliver.\<close>

lemma sim_end:
  assumes "sim g out m (length b) (take_blocks (bits_of_bytes r) [])" "take 0 out @ b = take (length b) out" "length b \<le> length out"
    "f_err g = Some x" "f_toRead g = []"
  shows "if x = io_EOF then deflate_ref r = Some (b, f_r g) else deflate_ref r = None"
proof (cases "x = io_EOF")
  case True
  then have g: "m = length out" "take_blocks (bits_of_bytes r) [] = Some (bits_of g, out)" "f_nb g \<le> 7" using assms(1,4) by (simp_all add: sim_def)
  have "length b = length out" using sim_drained [OF assms(1,5)] g(1) by simp
  then have "b = out" using assms(2) by simp
  moreover have "f_r g = drop (length r - length (bits_of g) div 8) r" by (rule rest_bytes [OF suffix_take_blocks [OF g(2)] g(3)])
  ultimately show ?thesis using True g(2) unfolding deflate_ref_def by simp
next
  case False
  then show ?thesis using assms(1,4) by (simp add: sim_def deflate_ref_def)
qed

lemma flate_reads_begin:
  assumes "begins r f" "\<forall>n \<in> set ns. 0 < n" "2064 * length r < length ns"
  shows "\<exists>b x g. flate_reads ns f = Some (b, Some x, g) \<and>
    (case deflate_ref r of Some (out, rest) \<Rightarrow> b = out \<and> x = io_EOF \<and> f_r g = rest | None \<Rightarrow> x \<noteq> io_EOF)"
proof -
  have f: "sim f [] 0 0 (take_blocks (bits_of_bytes r) [])" "cost f [] = 2064 * length r" using assms(1) by (simp_all add: begins_def)
  obtain b e g out m where g: "flate_reads ns f = Some (b, e, g)" "sim g out m (length b) (take_blocks (bits_of_bytes r) [])"
      "take 0 out @ b = take (length b) out" "length b \<le> length out" "cost g out \<le> cost f []"
      "e = None \<longrightarrow> (\<forall>n \<in> set ns. 0 < n) \<longrightarrow> length ns \<le> length b" "\<forall>x. e = Some x \<longrightarrow> f_err g = Some x \<and> f_toRead g = []"
    using flate_reads_ok [OF f(1), of ns] by (simp only: add_0) blast
  have "e \<noteq> None"
  proof
    assume "e = None"
    then have "length ns \<le> length b" using g(6) assms(2) by simp
    moreover have "length out \<le> cost g out" by (simp add: cost_def)
    ultimately show False using assms(3) g(4,5) f(2) by linarith
  qed
  then obtain x where x: "e = Some x" "f_err g = Some x" "f_toRead g = []" using g(7) by auto
  have "if x = io_EOF then deflate_ref r = Some (b, f_r g) else deflate_ref r = None" by (rule sim_end [OF g(2,3,4) x(2,3)])
  then show ?thesis using g(1) x(1) by (auto split: if_splits)
qed

text \<open>A stream with one stored block.\<close>

definition demo_stored :: bytes where
  "demo_stored = [CHR 0x01, CHR 0x01, CHR 0x00, CHR 0xFE, CHR 0xFF, CHR ''a'']"

lemma char_of_97: "char_of (97 :: nat) = CHR ''a''"
  by code_simp

lemma demo_deflated: "deflate_ref (demo_stored @ r) = Some (''a'', r)"
proof -
  let ?r = "[CHR 0x01, CHR 0x00, CHR 0xFE, CHR 0xFF, CHR ''a''] @ r"
  let ?bs = "bits_of_bytes (demo_stored @ r)"
  have b: "?bs = [True, False, False] @ replicate 5 False @ bits_of_bytes ?r"
  proof -
    have "byte_bits (CHR 0x01) = [True, False, False] @ replicate 5 False" by code_simp
    then show ?thesis unfolding demo_stored_def by (simp only: append_Cons append_Nil bits_of_bytes_Cons append_assoc)
  qed
  have n: "num (take 1 ?bs) = 1" "num (take 2 (drop 1 ?bs)) = 0" "drop 3 ?bs = replicate 5 False @ bits_of_bytes ?r"
    unfolding b by (simp_all add: num_def numeral_eq_Suc del: bits_of_bytes_Cons)
  have "drop (length (drop 3 ?bs) mod 8) (drop 3 ?bs) = bits_of_bytes ?r" unfolding n(3) by simp
  then have "take_stored (drop 3 ?bs) [] = Some (bits_of_bytes r, ''a'')"
    unfolding take_stored_def by (simp add: take_num_word take_num_byte take_bytes_bytes char_of_97 del: bits_of_bytes_Cons)
  moreover have "3 \<le> length ?bs" by (simp add: demo_stored_def)
  ultimately have "take_blocks ?bs [] = Some (bits_of_bytes r, ''a'')" using n(1,2) by (simp add: take_blocks_3 take_block_def after_def)
  then show ?thesis by (simp add: deflate_ref_def)
qed

text \<open>
  C21. However a stream is read, by enough reads of any positive sizes, the inflater delivers exactly
  the bytes that the bit-level reference of RFC 1951 gives for it and then \<open>io.EOF\<close>, having
  consumed exactly the stream; on every input that the reference rejects it delivers some error
  other than \<open>io.EOF\<close>, and it never panics and never runs forever.
\<close>

theorem inflate_correct:
  assumes "\<forall>n \<in> set ns. 0 < n" "2064 * length r < length ns"
  shows "\<exists>b x g. flate_reads ns (flate_NewReader r) = Some (b, Some x, g) \<and>
    (case deflate_ref r of Some (out, rest) \<Rightarrow> b = out \<and> x = io_EOF \<and> f_r g = rest | None \<Rightarrow> x \<noteq> io_EOF)"
  by (rule flate_reads_begin [OF begins_NewReader assms])

theorem inflate_correct_witness:
  "\<exists>g. flate_reads (replicate 20000 3) (flate_NewReader (demo_stored @ ''z'')) = Some (''a'', Some io_EOF, g) \<and> f_r g = ''z''"
  using inflate_correct [of "replicate 20000 3" "demo_stored @ ''z''"] unfolding demo_deflated by (auto simp: demo_stored_def)

text \<open>
  C22. The inflater is safe on every input: for every sequence of reads, of any sizes and including empty
  ones, it returns without a panic, and in all its reads together it delivers at most 2064 bytes for a
  byte of the input, so that no archive can make it deliver without bound.
\<close>

theorem inflate_bound:
  "\<exists>b e g. flate_reads ns (flate_NewReader r) = Some (b, e, g) \<and> length b \<le> 2064 * length r"
proof -
  have f: "sim (flate_NewReader r) [] 0 0 (take_blocks (bits_of_bytes r) [])" "cost (flate_NewReader r) [] = 2064 * length r"
    using begins_NewReader by (simp_all add: begins_def)
  obtain b e g out m where g: "flate_reads ns (flate_NewReader r) = Some (b, e, g)" "0 + length b \<le> length out" "cost g out \<le> 2064 * length r"
    using flate_reads_ok [OF f(1), of ns] f(2) by auto
  moreover have "length out \<le> cost g out" by (simp add: cost_def)
  ultimately show ?thesis by fastforce
qed

end
