(* ===== verification/GzipCorrect.thy ===== *)
theory GzipCorrect
  imports Gzip FlateRead
begin

unbundle bit_operations_syntax

text \<open>
  The gzip reader against RFC 1952: the reference takes the members of a file apart with the
  reference for deflate; the reads of the reader deliver what it gives, and fail where it fails.
\<close>

section \<open>The reference\<close>

text \<open>The checksum, bit by bit, and little-endian numbers.\<close>

definition crc_ref :: "bytes \<Rightarrow> w32" where
  "crc_ref p = NOT (crc_bytes IEEE (NOT 0) p)"

definition le :: "bytes \<Rightarrow> nat" where
  "le p = num (bits_of_bytes p)"

definition skip_extra :: "bytes \<Rightarrow> bytes option" where
  "skip_extra r = (if 2 \<le> length r \<and> 2 + le (take 2 r) \<le> length r then Some (drop (2 + le (take 2 r)) r) else None)"

text \<open>Go refuses strings that do not fit its buffer.\<close>

definition skip_string :: "bytes \<Rightarrow> bytes option" where
  "skip_string r =
     (let n = length (takeWhile (\<lambda>c. c \<noteq> CHR 0x00) r) in if n < 512 \<and> n < length r then Some (drop (Suc n) r) else None)"

definition skip_crc :: "bytes \<Rightarrow> bytes \<Rightarrow> bytes option" where
  "skip_crc hdr r = (if 2 \<le> length r \<and> le (take 2 r) = unat (crc_ref hdr) mod 65536 then Some (drop 2 r) else None)"

text \<open>What follows the header.\<close>

definition gzip_header :: "bytes \<Rightarrow> bytes option" where
  "gzip_header r0 =
     (if length r0 < 10 \<or> take 3 r0 \<noteq> [CHR 0x1F, CHR 0x8B, CHR 0x08] then None
      else
        (let flg = of_char (r0 ! 3) :: nat in
         do {
           r \<leftarrow> (if bit flg 2 then skip_extra (drop 10 r0) else Some (drop 10 r0));
           r \<leftarrow> (if bit flg 3 then skip_string r else Some r);
           r \<leftarrow> (if bit flg 4 then skip_string r else Some r);
           if bit flg 1 then skip_crc (take (length r0 - length r) r0) r else Some r
         }))"

text \<open>The data of a member, its checksum and its size; and what follows the member.\<close>

definition gzip_data :: "bytes \<Rightarrow> (bytes \<times> bytes) option" where
  "gzip_data s =
     do {
       (out, t) \<leftarrow> deflate_ref s;
       if 8 \<le> length t \<and> le (take 4 t) = unat (crc_ref out) \<and> le (take 4 (drop 4 t)) = length out mod 2 ^ 32
       then Some (out, drop 8 t) else None
     }"

lemma skip_length: "skip_extra r = Some s \<Longrightarrow> length s \<le> length r" "skip_string r = Some s \<Longrightarrow> length s \<le> length r"
  "skip_crc h r = Some s \<Longrightarrow> length s \<le> length r"
  by (auto simp: skip_extra_def skip_string_def skip_crc_def Let_def split: if_splits)

lemma gzip_header_length: "gzip_header r = Some s \<Longrightarrow> length s + 10 \<le> length r"
  by (auto simp: gzip_header_def Let_def Option.bind_eq_Some_conv split: if_splits dest!: skip_length)

lemma gzip_data_length: "gzip_data s = Some (out, t) \<Longrightarrow> length t \<le> length s"
  by (auto simp: gzip_data_def Option.bind_eq_Some_conv split: if_splits dest!: deflate_ref_length)

text \<open>A file is a sequence of members up to its end; its content is theirs, one after another.\<close>

function gunzip_ref :: "bytes \<Rightarrow> bytes option" where
  "gunzip_ref r =
     (case gzip_header r of
        None \<Rightarrow> None
      | Some s \<Rightarrow>
          (case gzip_data s of
             None \<Rightarrow> None
           | Some (out, t) \<Rightarrow> if t = [] then Some out else map_option ((@) out) (gunzip_ref t)))"
  by pat_completeness auto
termination
  by (relation "measure length") (auto dest!: gzip_header_length gzip_data_length)

declare gunzip_ref.simps [simp del]

definition data_ref :: "bytes \<Rightarrow> bytes option" where
  "data_ref s =
     (case gzip_data s of
        None \<Rightarrow> None
      | Some (out, t) \<Rightarrow> if t = [] then Some out else map_option ((@) out) (gunzip_ref t))"

lemma gunzip_ref_data: "gunzip_ref r = (case gzip_header r of None \<Rightarrow> None | Some s \<Rightarrow> data_ref s)"
  unfolding data_ref_def by (subst gunzip_ref.simps) (rule refl)

section \<open>Numbers and checksums\<close>

lemma crc_Update_ref: "crc_Update (crc_ref p) q = crc_ref (p @ q)" "ChecksumIEEE p = crc_ref p" "crc_ref [] = 0"
  by (simp_all add: crc_ref_def crc_Update_bits crc_bytes_append ChecksumIEEE_def crc_bytes_def)

lemma le_Cons: "le (c # p) = of_char c + 256 * le p" "le [] = 0"
  by (simp_all add: le_def num_append) (simp add: num_def)

lemma LEUint16_le: "2 \<le> length b \<Longrightarrow> LEUint16 (take 2 b) = le (take 2 b)"
proof -
  assume "2 \<le> length b"
  then obtain x y r where "b = x # y # r" by (auto simp: Suc_le_length_iff numeral_eq_Suc)
  then show ?thesis by (simp add: LEUint16_def or_bytes le_Cons)
qed

lemma le_less: "le p < 256 ^ length p"
  using num_less [of "bits_of_bytes p"] by (simp add: le_def power_mult)

lemma byte_word_nat: "byte_word c = (word_of_nat (of_char c) :: w32)"
proof -
  have "(of_char c :: int) = int (of_char c)" by (rule of_nat_of_char [symmetric])
  then show ?thesis by (simp add: byte_word_def)
qed

lemma LEUint32_le: 
  assumes "length p = 4"
  shows "LEUint32 p = word_of_nat (le p)"
proof -
  obtain a b c d where p: "p = [a, b, c, d]" using assms by (auto simp: length_Suc_conv numeral_eq_Suc)
  have or: "(x :: nat) OR push_bit k y = x + 2 ^ k * y" if "x < 2 ^ k" for x k y
    using push_or [OF that, of y] by (simp add: or.commute push_bit_eq_mult ac_simps)
  have "byte a < 256" "byte a + 256 * byte b < 65536" "byte a + 256 * byte b + 65536 * byte c < 16777216"
    using nat_of_char_less_256 [of a] nat_of_char_less_256 [of b] nat_of_char_less_256 [of c] by linarith+
  then have l: "byte a < 2 ^ 8" "byte a + 2 ^ 8 * byte b < 2 ^ 16" "byte a + 2 ^ 8 * byte b + 2 ^ 16 * byte c < 2 ^ 24" by simp_all
  have "of_char a OR push_bit 8 (of_char b) OR push_bit 16 (of_char c) OR push_bit 24 (of_char d) = le p"
  proof -
    have "of_char a OR push_bit 8 (of_char b) = (of_char a + 2 ^ 8 * of_char b :: nat)" by (rule or [OF l(1)])
    moreover have "of_char a + 2 ^ 8 * of_char b OR push_bit 16 (of_char c) = (of_char a + 2 ^ 8 * of_char b + 2 ^ 16 * of_char c :: nat)"
      by (rule or [OF l(2)])
    moreover have "of_char a + 2 ^ 8 * of_char b + 2 ^ 16 * of_char c OR push_bit 24 (of_char d) =
        (of_char a + 2 ^ 8 * of_char b + 2 ^ 16 * of_char c + 2 ^ 24 * of_char d :: nat)"
      by (rule or [OF l(3)])
    ultimately show ?thesis unfolding p le_Cons by (simp add: or.assoc [symmetric])
  qed
  then show ?thesis unfolding p LEUint32_def byte_word_nat
    by (simp add: of_nat_or_eq [symmetric] of_nat_push_bit [symmetric] or.assoc)
qed

section \<open>The header\<close>

text \<open>The reader has consumed \<open>h\<close>, and only its position and its checksum have changed.\<close>

definition consumed :: "gzReader \<Rightarrow> bytes \<Rightarrow> gzReader \<Rightarrow> bool" where
  "consumed z0 h z \<longleftrightarrow> z_r z0 = h @ z_r z \<and> z = z0\<lparr>z_r := z_r z, z_digest := crc_ref h\<rparr>"

lemma consumed_add:
  assumes "consumed z0 h z" "z_r z = bs @ r"
  shows "consumed z0 (h @ bs) (z_digest_add bs (z\<lparr>z_r := r\<rparr>))"
proof -
  have z: "z_digest z = crc_ref h" using assms(1) unfolding consumed_def by (metis gzReader.select_convs(4) gzReader.surjective gzReader.update_convs(4))
  obtain r0 where "z = z0\<lparr>z_r := r0, z_digest := crc_ref h\<rparr>" using assms(1) by (auto simp: consumed_def)
  then show ?thesis using assms z by (simp add: consumed_def z_digest_add_def crc_Update_ref)
qed

text \<open>A part of the header: it succeeds where the reference does, and then leaves what the reference leaves.\<close>

definition part_ok :: "gzReader \<Rightarrow> bytes option \<Rightarrow> error option \<times> gzHeader \<times> gzReader \<Rightarrow> bool" where
  "part_ok z0 ref m \<longleftrightarrow>
     (case ref of
        None \<Rightarrow> \<exists>x hdr z. m = (Some x, hdr, z) \<and> x \<noteq> io_EOF
      | Some r \<Rightarrow> \<exists>hdr h z. m = (None, hdr, z) \<and> consumed z0 h z \<and> z_r z = r)"

lemma part_bind:
  assumes "part_ok z0 ref m" "\<And>hdr h z. consumed z0 h z \<Longrightarrow> part_ok z0 (f (z_r z)) (k hdr z)"
  shows "part_ok z0 (ref \<bind> f) (then_read m k)"
proof (cases ref)
  case None
  then show ?thesis using assms(1) by (auto simp: part_ok_def then_read_def)
next
  case (Some r)
  then obtain hdr h z where "m = (None, hdr, z)" "consumed z0 h z" "z_r z = r" using assms(1) by (auto simp: part_ok_def)
  then show ?thesis using assms(2) [of h z hdr] Some by (simp add: then_read_def)
qed

lemma flag_bits: "flg AND flagHdrCrc = 0 \<longleftrightarrow> \<not> bit flg 1" "flg AND flagExtra = 0 \<longleftrightarrow> \<not> bit flg 2"
  "flg AND flagName = 0 \<longleftrightarrow> \<not> bit flg 3" "flg AND flagComment = 0 \<longleftrightarrow> \<not> bit flg 4"
  using and_exp_eq_0_iff_not_bit [of flg 1] and_exp_eq_0_iff_not_bit [of flg 2] and_exp_eq_0_iff_not_bit [of flg 3]
    and_exp_eq_0_iff_not_bit [of flg 4] by (simp_all add: flagHdrCrc_def flagExtra_def flagName_def flagComment_def)

lemma header_errors: "ErrHeader \<noteq> io_EOF" "ErrChecksum \<noteq> io_EOF" "ErrUnexpectedEOF \<noteq> io_EOF"
  by (simp_all add: ErrHeader_def ErrChecksum_def io_EOF_def ErrUnexpectedEOF_def)

lemma z_ReadFull_bytes:
  "z_ReadFull n z = (if n \<le> length (z_r z) then (take n (z_r z), None, z\<lparr>z_r := drop n (z_r z)\<rparr>)
     else (z_r z, Some (if z_r z = [] then io_EOF else ErrUnexpectedEOF), z\<lparr>z_r := []\<rparr>))"
  by (simp add: z_ReadFull_def)

lemma read_extra_ok:
  assumes "consumed z0 h z"
  shows "part_ok z0 (if bit flg 2 then skip_extra (z_r z) else Some (z_r z)) (read_extra flg hdr z)"
proof (cases "bit flg 2 \<and> 2 \<le> length (z_r z)")
  case False
  then show ?thesis using assms by (auto simp: part_ok_def read_extra_def flag_bits skip_extra_def z_ReadFull_bytes)
next
  case True
  let ?r = "z_r z" and ?n = "le (take 2 (z_r z))"
  let ?z1 = "z_digest_add (take 2 ?r) (z\<lparr>z_r := drop 2 ?r\<rparr>)"
  have c1: "consumed z0 (h @ take 2 ?r) ?z1" by (rule consumed_add [OF assms]) simp
  have r1: "z_r ?z1 = drop 2 ?r" by (simp add: z_digest_add_def)
  show ?thesis
  proof (cases "2 + ?n \<le> length ?r")
    case False
    then have "\<not> ?n \<le> length ?r - 2" using True by linarith
    then show ?thesis using False True r1
      by (simp add: part_ok_def read_extra_def flag_bits skip_extra_def z_ReadFull_bytes [of 2] z_ReadFull_bytes [of _ ?z1] LEUint16_le Let_def)
  next
    case l: True
    have "consumed z0 ((h @ take 2 ?r) @ take ?n (drop 2 ?r)) (z_digest_add (take ?n (drop 2 ?r)) (?z1\<lparr>z_r := drop ?n (drop 2 ?r)\<rparr>))"
      by (rule consumed_add [OF c1]) (simp only: r1 append_take_drop_id)
    moreover have "read_extra flg hdr z = (None, hdr\<lparr>gz_Extra := take ?n (drop 2 ?r)\<rparr>, z_digest_add (take ?n (drop 2 ?r)) (?z1\<lparr>z_r := drop ?n (drop 2 ?r)\<rparr>))"
      using True l r1 by (simp add: read_extra_def flag_bits z_ReadFull_bytes [of 2] z_ReadFull_bytes [of _ ?z1] LEUint16_le Let_def)
    moreover have "z_r (z_digest_add (take ?n (drop 2 ?r)) (?z1\<lparr>z_r := drop ?n (drop 2 ?r)\<rparr>)) = drop (2 + ?n) ?r"
      by (simp add: z_digest_add_def)
    ultimately show ?thesis using True l by (auto simp: part_ok_def skip_extra_def)
  qed
qed

lemma string_loop_ok:
  assumes "n = length (takeWhile (\<lambda>c. c \<noteq> CHR 0x00) r)"
  shows "if i + n < 512 \<and> n < length r then string_loop i acc r = (Inr (acc @ take n r), drop (Suc n) r) \<and> r ! n = CHR 0x00
    else \<exists>x r'. string_loop i acc r = (Inl x, r')"
  using assms
proof (induction r arbitrary: i acc n)
  case Nil
  then show ?case by (simp add: string_loop.simps)
next
  case (Cons c r)
  show ?case
  proof (cases "c = CHR 0x00 \<or> i \<ge> 512")
    case True
    then show ?thesis using Cons.prems by (auto simp: string_loop.simps [of i acc])
  next
    case False
    then obtain m where m: "n = Suc m" "m = length (takeWhile (\<lambda>c. c \<noteq> CHR 0x00) r)" using Cons.prems by simp
    have "string_loop i acc (c # r) = string_loop (Suc i) (acc @ [c]) r" using False by (subst string_loop.simps) simp
    then show ?thesis using Cons.IH [OF m(2), of "Suc i" "acc @ [c]"] m(1) by (simp split: if_splits)
  qed
qed

lemma readString_ok:
  assumes "consumed z0 h z"
  shows "case skip_string (z_r z) of
      None \<Rightarrow> \<exists>x z'. readString z = (Inl x, z')
    | Some r \<Rightarrow> \<exists>s h' z'. readString z = (Inr s, z') \<and> consumed z0 h' z' \<and> z_r z' = r"
proof -
  define n where "n = length (takeWhile (\<lambda>c. c \<noteq> CHR 0x00) (z_r z))"
  note sl = string_loop_ok [OF n_def, of 0 "[]"]
  show ?thesis
  proof (cases "n < 512 \<and> n < length (z_r z)")
    case False
    then have "\<exists>x r'. string_loop 0 [] (z_r z) = (Inl x, r')" using sl by (simp split: if_splits)
    then have "\<exists>x z'. readString z = (Inl x, z')" by (auto simp: readString_def)
    moreover have "skip_string (z_r z) = None" unfolding skip_string_def n_def [symmetric] Let_def using False by simp
    ultimately show ?thesis by simp
  next
    case True
    then have l: "string_loop 0 [] (z_r z) = (Inr (take n (z_r z)), drop (Suc n) (z_r z))" "z_r z ! n = CHR 0x00" using sl by simp_all
    have t: "take n (z_r z) @ [CHR 0x00] = take (Suc n) (z_r z)" using True l(2) by (simp add: take_Suc_conv_app_nth)
    have "consumed z0 (h @ take (Suc n) (z_r z)) (z_digest_add (take (Suc n) (z_r z)) (z\<lparr>z_r := drop (Suc n) (z_r z)\<rparr>))"
      by (rule consumed_add [OF assms]) simp
    moreover have "readString z = (Inr (latin1 (take n (z_r z))), z_digest_add (take (Suc n) (z_r z)) (z\<lparr>z_r := drop (Suc n) (z_r z)\<rparr>))"
      unfolding readString_def l(1) by (simp add: t)
    moreover have "skip_string (z_r z) = Some (drop (Suc n) (z_r z))" unfolding skip_string_def n_def [symmetric] Let_def using True by simp
    ultimately show ?thesis by (auto simp: z_digest_add_def)
  qed
qed

lemma read_name_ok:
  assumes "consumed z0 h z"
  shows "part_ok z0 (if bit flg 3 then skip_string (z_r z) else Some (z_r z)) (read_name flg hdr z)"
  using readString_ok [OF assms] assms
  by (cases "skip_string (z_r z)") (fastforce simp: part_ok_def read_name_def flag_bits)+

lemma read_comment_ok:
  assumes "consumed z0 h z"
  shows "part_ok z0 (if bit flg 4 then skip_string (z_r z) else Some (z_r z)) (read_comment flg hdr z)"
  using readString_ok [OF assms] assms
  by (cases "skip_string (z_r z)") (fastforce simp: part_ok_def read_comment_def flag_bits)+

lemma ucast_eq: "n < 65536 \<Longrightarrow> (word_of_nat n :: 16 word) = ucast w \<longleftrightarrow> n = unat w mod 65536" for w :: w32
proof -
  assume n: "n < 65536"
  have "(ucast w :: 16 word) = word_of_nat (unat w)" by simp
  then show ?thesis using n by (simp only: word_of_nat_eq_iff) (simp add: take_bit_eq_mod)
qed

definition header_post :: "gzReader \<Rightarrow> bytes option \<Rightarrow> error option \<times> gzHeader \<times> gzReader \<Rightarrow> bool" where
  "header_post z0 ref m \<longleftrightarrow>
     (case ref of
        None \<Rightarrow> \<exists>x hdr z. m = (Some x, hdr, z) \<and> (x = io_EOF \<longrightarrow> z_r z0 = [])
      | Some s \<Rightarrow> \<exists>hdr f. m = (None, hdr, z0\<lparr>z_r := s, z_digest := 0, z_decompressor := Some f\<rparr>) \<and> begins s f)"

definition reusable :: "gzReader \<Rightarrow> bool" where
  "reusable z \<longleftrightarrow> (\<forall>f. z_decompressor z = Some f \<longrightarrow> arrays f)"

lemma start_inflater_ok:
  assumes "reusable z0"
  shows "\<exists>f. start_inflater (z0\<lparr>z_r := s, z_digest := d\<rparr>) = z0\<lparr>z_r := s, z_digest := 0, z_decompressor := Some f\<rparr> \<and> begins s f"
proof (cases "z_decompressor z0")
  case None
  then show ?thesis using begins_NewReader by (intro exI [of _ "flate_NewReader s"]) (simp add: start_inflater_def)
next
  case (Some f)
  then show ?thesis using assms begins_Reset by (intro exI [of _ "flate_Reset s f"]) (simp add: start_inflater_def reusable_def)
qed

lemma header_end:
  assumes "consumed z0 h z" "reusable z0"
  shows "header_post z0 (if bit flg 1 then skip_crc h (z_r z) else Some (z_r z))
    (then_read (read_hdrcrc flg hdr z) (\<lambda>hdr z. (None, hdr, start_inflater z)))"
proof -
  let ?r = "z_r z"
  have z: "z = z0\<lparr>z_r := ?r, z_digest := crc_ref h\<rparr>" using assms(1) by (simp add: consumed_def)
  have si: "\<exists>f. start_inflater (z\<lparr>z_r := s\<rparr>) = z0\<lparr>z_r := s, z_digest := 0, z_decompressor := Some f\<rparr> \<and> begins s f" for s
  proof -
    have "z\<lparr>z_r := s\<rparr> = z0\<lparr>z_r := s, z_digest := crc_ref h\<rparr>" by (subst z) (cases z0, simp)
    then show ?thesis using start_inflater_ok [OF assms(2)] by simp
  qed
  have dg: "z_digest z = crc_ref h" by (subst z) simp
  show ?thesis
  proof (cases "bit flg 1")
    case False
    then show ?thesis using si [of ?r] by (simp add: header_post_def then_read_def read_hdrcrc_def flag_bits)
  next
    case bt: True
    show ?thesis
    proof (cases "2 \<le> length ?r")
      case False
      have "noEOF e \<noteq> io_EOF" for e by simp
      then show ?thesis using bt False
        by (simp add: header_post_def then_read_def read_hdrcrc_def flag_bits z_ReadFull_bytes skip_crc_def)
    next
      case True
      have "le (take 2 ?r) < 65536" using le_less [of "take 2 ?r"] True by simp
      note u = ucast_eq [OF this, of "crc_ref h"]
      show ?thesis using bt True u si [of "drop 2 ?r"] dg
        by (simp add: header_post_def then_read_def read_hdrcrc_def flag_bits z_ReadFull_bytes skip_crc_def LEUint16_le header_errors)
    qed
  qed
qed

lemma header_bind:
  assumes "part_ok z0 ref m" "\<And>hdr h z. consumed z0 h z \<Longrightarrow> header_post z0 (f (z_r z)) (k hdr z)"
  shows "header_post z0 (ref \<bind> f) (then_read m k)"
proof (cases ref)
  case None
  then show ?thesis using assms(1) by (auto simp: part_ok_def header_post_def then_read_def)
next
  case (Some r)
  then obtain hdr h z where "m = (None, hdr, z)" "consumed z0 h z" "z_r z = r" using assms(1) by (auto simp: part_ok_def)
  then show ?thesis using assms(2) [of h z hdr] Some by (simp add: then_read_def)
qed

lemma then_read_assoc: "then_read (then_read m k) l = then_read m (\<lambda>hdr z. then_read (k hdr z) l)"
  by (auto simp: then_read_def split: prod.splits option.splits)

lemma take_3: "3 \<le> length r \<Longrightarrow> take 3 r = [r ! 0, r ! 1, r ! 2]"
  by (cases r; cases "tl r"; cases "tl (tl r)") auto

lemma gz_readHeader_ok:
  assumes "reusable z0"
  shows "header_post z0 (gzip_header (z_r z0)) (gz_readHeader z0)"
proof -
  let ?r = "z_r z0"
  consider "length ?r < 10" | "10 \<le> length ?r" "take 3 ?r \<noteq> [CHR 0x1F, CHR 0x8B, CHR 0x08]" | "10 \<le> length ?r" "take 3 ?r = [CHR 0x1F, CHR 0x8B, CHR 0x08]"
    by linarith
  then show ?thesis
  proof cases
    case 1
    then show ?thesis by (auto simp: gzip_header_def gz_readHeader_def z_ReadFull_bytes header_post_def header_errors)
  next
    case 2
    have t3: "take 3 ?r = [?r ! 0, ?r ! 1, ?r ! 2]" using 2(1) by (intro take_3) simp
    have "?r ! 0 \<noteq> gzipID1 \<or> ?r ! 1 \<noteq> gzipID2 \<or> ?r ! 2 \<noteq> gzipDeflate" using 2(2) unfolding t3 by (simp add: gzipID1_def gzipID2_def gzipDeflate_def)
    then show ?thesis using 2 by (simp add: gzip_header_def gz_readHeader_def z_ReadFull_bytes header_post_def header_errors)
  next
    case 3
    have t3: "take 3 ?r = [?r ! 0, ?r ! 1, ?r ! 2]" using 3(1) by (intro take_3) simp
    have id: "?r ! 0 = gzipID1" "?r ! 1 = gzipID2" "?r ! 2 = gzipDeflate" using 3(2) unfolding t3 by (simp_all add: gzipID1_def gzipID2_def gzipDeflate_def)
    let ?flg = "of_char (?r ! 3) :: nat" and ?z = "z0\<lparr>z_r := drop 10 ?r, z_digest := ChecksumIEEE (take 10 ?r)\<rparr>"
    obtain hdr where m: "gz_readHeader z0 = then_read (read_extra ?flg hdr ?z) (\<lambda>hdr z. then_read (read_name ?flg hdr z)
        (\<lambda>hdr z. then_read (read_comment ?flg hdr z) (\<lambda>hdr z. then_read (read_hdrcrc ?flg hdr z) (\<lambda>hdr z. (None, hdr, start_inflater z)))))"
      using 3(1) id by (simp add: gz_readHeader_def z_ReadFull_bytes Let_def then_read_assoc)
    have c: "consumed z0 (take 10 ?r) ?z" by (simp add: consumed_def crc_Update_ref)
    have "header_post z0
       (do {
          r \<leftarrow> (if bit ?flg 2 then skip_extra (z_r ?z) else Some (z_r ?z));
          r \<leftarrow> (if bit ?flg 3 then skip_string r else Some r);
          r \<leftarrow> (if bit ?flg 4 then skip_string r else Some r);
          if bit ?flg 1 then skip_crc (take (length ?r - length r) ?r) r else Some r })
       (gz_readHeader z0)" unfolding m
    proof (rule header_bind [OF read_extra_ok [OF c]], rule header_bind [OF read_name_ok], assumption, rule header_bind [OF read_comment_ok], assumption)
      fix hdr h z
      assume c: "consumed z0 h z"
      then have t: "take (length ?r - length (z_r z)) ?r = h" by (simp add: consumed_def)
      show "header_post z0 (if bit ?flg 1 then skip_crc (take (length ?r - length (z_r z)) ?r) (z_r z) else Some (z_r z))
          (then_read (read_hdrcrc ?flg hdr z) (\<lambda>hdr z. (None, hdr, start_inflater z)))"
        unfolding t by (rule header_end [OF c assms])
    qed
    moreover have zr: "z_r ?z = drop 10 ?r" by simp
    moreover have nc: "\<not> (length ?r < 10 \<or> take 3 ?r \<noteq> [CHR 0x1F, CHR 0x8B, CHR 0x08])" using 3 by simp
    ultimately show ?thesis unfolding zr gzip_header_def if_not_P [OF nc] Let_def by blast
  qed
qed

section \<open>Members\<close>

text \<open>
  The reader is in the data \<open>s\<close> of a member, has delivered \<open>del\<close> of it, and can deliver at most
  \<open>c\<close> more bytes of the file.
\<close>

definition in_member :: "gzReader \<Rightarrow> bytes \<Rightarrow> bytes \<Rightarrow> nat \<Rightarrow> bool" where
  "in_member z s del c \<longleftrightarrow>
     (\<exists>f out m. z_decompressor z = Some f \<and> f_r f = z_r z \<and> sim f out m (length del) (take_blocks (bits_of_bytes s) []) \<and>
        del = take (length del) out \<and> length del \<le> length out \<and> cost f out \<le> length del + c) \<and>
     z_digest z = crc_ref del \<and> z_size z = word_of_nat (length del) \<and> z_err z = None \<and> z_multistream z"

lemma in_member_start:
  assumes "begins s f" "z_size z = 0" "z_err z = None" "z_multistream z"
  shows "in_member (z\<lparr>z_r := s, z_digest := 0, z_decompressor := Some f\<rparr>) s [] (2064 * length s)"
  using assms by (simp add: in_member_def begins_def crc_Update_ref) (rule exI [of _ "[]"], auto)

lemma word_crc: "n < 2 ^ 32 \<Longrightarrow> (word_of_nat n = w) \<longleftrightarrow> n = unat w" for w :: w32
  by (auto simp: unat_of_nat)

lemma word_size: "n < 2 ^ 32 \<Longrightarrow> ((word_of_nat n :: w32) = word_of_nat k) \<longleftrightarrow> n = k mod 2 ^ 32"
  by (simp add: word_of_nat_eq_iff take_bit_eq_mod)

lemma next_member_ok:
  assumes "deflate_ref s = Some (D, z_r z)" "z_digest z = crc_ref D" "z_size z = word_of_nat (length D)" "z_multistream z" "reusable z"
  shows "\<exists>e z'. next_member z = (e, z') \<and>
    (case gzip_data s of
       None \<Rightarrow> \<exists>x. e = Some x \<and> z_err z' = Some x \<and> x \<noteq> io_EOF
     | Some (out, t) \<Rightarrow> out = D \<and> length t \<le> length (z_r z) \<and>
         (if t = [] then e = Some io_EOF \<and> z_err z' = Some io_EOF
          else
            (case gzip_header t of
               None \<Rightarrow> \<exists>x. e = Some x \<and> z_err z' = Some x \<and> x \<noteq> io_EOF
             | Some s' \<Rightarrow> e = None \<and> in_member z' s' [] (2064 * length s'))))"
proof (cases "8 \<le> length (z_r z)")
  case False
  then have "gzip_data s = None" using assms(1) by (simp add: gzip_data_def)
  moreover have "noEOF e \<noteq> io_EOF" for e by simp
  ultimately show ?thesis using False by (simp add: next_member_def z_ReadFull_bytes)
next
  case True
  let ?t = "z_r z"
  have l: "length (take 4 ?t) = 4" "length (take 4 (drop 4 ?t)) = 4" using True by simp_all
  have n: "le (take 4 ?t) < 2 ^ 32" "le (take 4 (drop 4 ?t)) < 2 ^ 32"
    using le_less [of "take 4 ?t"] le_less [of "take 4 (drop 4 ?t)"] unfolding l by simp_all
  have tk: "take 4 (take 8 ?t) = take 4 ?t" "take 4 (drop 4 (take 8 ?t)) = take 4 (drop 4 ?t)" by (simp_all add: drop_take)
  let ?ok = "le (take 4 ?t) = unat (crc_ref D) \<and> le (take 4 (drop 4 ?t)) = length D mod 2 ^ 32"
  have ok: "LEUint32 (take 4 (take 8 ?t)) \<noteq> crc_ref D \<or> LEUint32 (take 4 (drop 4 (take 8 ?t))) \<noteq> word_of_nat (length D) \<longleftrightarrow> \<not> ?ok"
    unfolding tk LEUint32_le [OF l(1)] LEUint32_le [OF l(2)] word_crc [OF n(1)] word_size [OF n(2)] by blast
  have gd: "gzip_data s = (if ?ok then Some (D, drop 8 ?t) else None)" using assms(1) True by (simp add: gzip_data_def)
  let ?z = "z\<lparr>z_r := drop 8 ?t, z_digest := 0, z_size := 0, z_err := None\<rparr>"
  have nm: "next_member z = (if ?ok then (case gz_readHeader ?z of (e, _, z) \<Rightarrow> (e, z\<lparr>z_err := e\<rparr>))
      else (Some ErrChecksum, z\<lparr>z_r := drop 8 ?t, z_err := Some ErrChecksum\<rparr>))"
    using True ok assms(2-4) unfolding next_member_def z_ReadFull_bytes Let_def by simp
  show ?thesis
  proof (cases ?ok)
    case False
    show ?thesis unfolding nm gd if_not_P [OF False] by (simp add: header_errors)
  next
    case k: True
    have "reusable ?z" using assms(5) by (simp add: reusable_def)
    note hp = gz_readHeader_ok [OF this, simplified]
    consider "drop 8 ?t = []" | "drop 8 ?t \<noteq> []" "gzip_header (drop 8 ?t) = None" | s' where "drop 8 ?t \<noteq> []" "gzip_header (drop 8 ?t) = Some s'"
      by (cases "gzip_header (drop 8 ?t)") auto
    then show ?thesis
    proof cases
      case 1
      have "\<exists>hdr z'. gz_readHeader ?z = (Some io_EOF, hdr, z')" unfolding gz_readHeader_def z_ReadFull_bytes using 1 by simp
      then show ?thesis unfolding nm gd if_P [OF k] using 1 by auto
    next
      case 2
      then obtain x hdr z' where "gz_readHeader ?z = (Some x, hdr, z')" "x \<noteq> io_EOF" using hp by (auto simp: header_post_def)
      then show ?thesis unfolding nm gd if_P [OF k] using 2 by simp
    next
      case 3
      then obtain hdr f where h: "gz_readHeader ?z = (None, hdr, ?z\<lparr>z_r := s', z_digest := 0, z_decompressor := Some f\<rparr>)" "begins s' f"
        using hp by (auto simp: header_post_def)
      obtain w where w: "gz_readHeader ?z = (None, hdr, w)" "in_member w s' [] (2064 * length s')"
        using h in_member_start [OF h(2), of ?z] assms(4) by simp
      then have "w\<lparr>z_err := None\<rparr> = w" by (cases w) (simp add: in_member_def)
      then show ?thesis unfolding nm gd if_P [OF k] using 3 w by auto
    qed
  qed
qed

section \<open>Reading\<close>

text \<open>
  The file has the content \<open>whole\<close>, or none; the reader has delivered \<open>dl\<close>, the members before the
  present one and what it has delivered of that.
\<close>

definition gz_ahead :: "gzReader \<Rightarrow> bytes option \<Rightarrow> bytes \<Rightarrow> nat \<Rightarrow> bool" where
  "gz_ahead z whole dl c \<longleftrightarrow> (\<exists>s acc del. dl = acc @ del \<and> in_member z s del c \<and> whole = map_option ((@) acc) (data_ref s))"

definition gz_post :: "nat \<Rightarrow> bytes option \<Rightarrow> bytes \<Rightarrow> nat \<Rightarrow> (bytes \<times> error option \<times> gzReader) option \<Rightarrow> bool" where
  "gz_post n whole dl c r \<longleftrightarrow>
     (\<exists>b e z. r = Some (b, e, z) \<and>
        (case e of
           None \<Rightarrow> (0 < n \<longrightarrow> b \<noteq> []) \<and> (\<exists>c'. gz_ahead z whole (dl @ b) c' \<and> c' + length b \<le> c)
         | Some x \<Rightarrow> if x = io_EOF then whole = Some (dl @ b) else whole = None))"

lemma map_append_append: "map_option ((@) xs) (map_option ((@) ys) a) = map_option ((@) (xs @ ys)) a"
  by (cases a) auto

text \<open>One call of the inflater.\<close>

lemma z_inflate_ok:
  assumes "in_member z s del c"
  shows "\<exists>b e z1 c1. z_inflate n z = Some (b, e, z1) \<and> reusable z1 \<and>
    (let z2 = z1\<lparr>z_err := e, z_digest := crc_Update (z_digest z1) b, z_size := z_size z1 + word_of_nat (length b)\<rparr> in
     z_digest z2 = crc_ref (del @ b) \<and> z_size z2 = word_of_nat (length (del @ b)) \<and> z_multistream z2 \<and> z_r z2 = z_r z1 \<and> reusable z2 \<and>
     (case e of
        None \<Rightarrow> (0 < n \<longrightarrow> b \<noteq> []) \<and> in_member z2 s (del @ b) c1 \<and> c1 + length b \<le> c
      | Some x \<Rightarrow> if x = io_EOF then deflate_ref s = Some (del @ b, z_r z2) \<and> 2064 * length (z_r z2) + length b \<le> c else deflate_ref s = None))"
proof -
  obtain f out m where f: "z_decompressor z = Some f" "f_r f = z_r z" "sim f out m (length del) (take_blocks (bits_of_bytes s) [])"
      "del = take (length del) out" "length del \<le> length out" "cost f out \<le> length del + c"
    and zs: "z_digest z = crc_ref del" "z_size z = word_of_nat (length del)" "z_err z = None" "z_multistream z"
    using assms by (auto simp: in_member_def)
  have ff: "f\<lparr>f_r := z_r z\<rparr> = f" using f(2) by (cases f) simp
  obtain b e g out' m' where g: "flate_Read n f = Some (b, e, g)" "sim g out' m' (length del + length b) (take_blocks (bits_of_bytes s) [])" "prefix out out'"
      "take (length del) out' @ b = take (length del + length b) out'" "length del + length b \<le> length out'" "cost g out' \<le> cost f out"
      "e = None \<longrightarrow> 0 < n \<longrightarrow> b \<noteq> []" "\<forall>x. e = Some x \<longrightarrow> f_err g = Some x \<and> f_toRead g = []"
    using flate_Read_ok [OF f(3), of n] unfolding read_post_def by blast
  let ?z1 = "z\<lparr>z_decompressor := Some g, z_r := f_r g\<rparr>"
  let ?z2 = "?z1\<lparr>z_err := e, z_digest := crc_Update (z_digest ?z1) b, z_size := z_size ?z1 + word_of_nat (length b)\<rparr>"
  have zi: "z_inflate n z = Some (b, e, ?z1)" using f(1) g(1) ff by (simp add: z_inflate_def)
  have ru: "reusable ?z1" "reusable ?z2" using g(2) by (simp_all add: reusable_def sim_def)
  have t: "take (length del) out' = del" using f(4,5) g(3) by (auto simp: prefix_def)
  have db: "del @ b = take (length (del @ b)) out'" using g(4) unfolding t length_append .
  have s: "sim g out' m' (length (del @ b)) (take_blocks (bits_of_bytes s) [])" "length (del @ b) \<le> length out'" using g(2,5) by simp_all
  have dg: "z_digest ?z2 = crc_ref (del @ b)" "z_size ?z2 = word_of_nat (length (del @ b))" using zs by (simp_all add: crc_Update_ref)
  show ?thesis
  proof (cases e)
    case None
    have "z_decompressor ?z2 = Some g" "f_r g = z_r ?z2" "z_err ?z2 = None" "z_multistream ?z2" using None zs(4) by simp_all
    moreover have "cost g out' \<le> length (del @ b) + (c - length b)" using g(6) f(6) by simp
    ultimately have "in_member ?z2 s (del @ b) (c - length b)" unfolding in_member_def using s db dg by blast
    moreover have "length b \<le> c" using g(5,6) f(6) by (simp add: cost_def)
    ultimately show ?thesis using zi ru dg zs(4) None g(7)
      by (intro exI [of _ b] exI [of _ e] exI [of _ ?z1] exI [of _ "c - length b"]) (simp add: Let_def)
  next
    case (Some x)
    have "take 0 out' @ (del @ b) = take (length (del @ b)) out'" unfolding take_0 append_Nil by (rule db)
    from sim_end [OF s(1) this s(2)] have "if x = io_EOF then deflate_ref s = Some (del @ b, f_r g) else deflate_ref s = None" using g(8) Some by blast
    moreover have "2064 * length (f_r g) + length b \<le> c" using g(5,6) f(6) by (simp add: cost_def avail_def)
    ultimately show ?thesis using zi ru dg zs(4) Some
      by (intro exI [of _ b] exI [of _ e] exI [of _ ?z1] exI [of _ c]) (simp add: Let_def)
  qed
qed

lemma gz_post_mono:
  assumes "gz_post n whole dl c r" "c \<le> c'"
  shows "gz_post n whole dl c' r"
proof -
  obtain b e z where r: "r = Some (b, e, z)" "case e of None \<Rightarrow> (0 < n \<longrightarrow> b \<noteq> []) \<and> (\<exists>c'. gz_ahead z whole (dl @ b) c' \<and> c' + length b \<le> c)
         | Some x \<Rightarrow> if x = io_EOF then whole = Some (dl @ b) else whole = None" using assms(1) unfolding gz_post_def by blast
  show ?thesis
  proof (cases e)
    case None
    then obtain c1 where "gz_ahead z whole (dl @ b) c1" "c1 + length b \<le> c" "0 < n \<longrightarrow> b \<noteq> []" using r(2) by auto
    then have "\<exists>c1. gz_ahead z whole (dl @ b) c1 \<and> c1 + length b \<le> c'" using assms(2) order_trans by blast
    then show ?thesis unfolding gz_post_def using r None by simp
  qed (use r in \<open>simp add: gz_post_def\<close>)
qed

lemma gz_loop_ok:
  assumes "in_member z s del c" "whole = map_option ((@) acc) (data_ref s)"
  shows "gz_post n whole (acc @ del) c (gz_loop n z)"
  using assms
proof (induction "length s" arbitrary: z s acc del c rule: less_induct)
  case less
  obtain b e z1 c1 where z1: "z_inflate n z = Some (b, e, z1)"
    "let z2 = z1\<lparr>z_err := e, z_digest := crc_Update (z_digest z1) b, z_size := z_size z1 + word_of_nat (length b)\<rparr> in
     z_digest z2 = crc_ref (del @ b) \<and> z_size z2 = word_of_nat (length (del @ b)) \<and> z_multistream z2 \<and> z_r z2 = z_r z1 \<and> reusable z2 \<and>
     (case e of
        None \<Rightarrow> (0 < n \<longrightarrow> b \<noteq> []) \<and> in_member z2 s (del @ b) c1 \<and> c1 + length b \<le> c
      | Some x \<Rightarrow> if x = io_EOF then deflate_ref s = Some (del @ b, z_r z2) \<and> 2064 * length (z_r z2) + length b \<le> c else deflate_ref s = None)"
    using z_inflate_ok [OF less.prems(1), of n] by blast
  define z2 where "z2 = z1\<lparr>z_err := e, z_digest := crc_Update (z_digest z1) b, z_size := z_size z1 + word_of_nat (length b)\<rparr>"
  note p = z1(2) [unfolded Let_def z2_def [symmetric]]
  have lp: "gz_loop n z = (if e \<noteq> Some io_EOF then Some (b, e, z2)
      else (case next_member z2 of (Some e, z3) \<Rightarrow> Some (b, Some e, z3) | (None, z3) \<Rightarrow> if b = [] then gz_loop n z3 else Some (b, None, z3)))"
    by (subst gz_loop.simps) (simp add: z1(1) Let_def z2_def)
  consider "e = None" | x where "e = Some x" "x \<noteq> io_EOF" | "e = Some io_EOF" by (cases e) auto
  then show ?case
  proof cases
    case 1
    then have m: "in_member z2 s (del @ b) c1" "c1 + length b \<le> c" "0 < n \<longrightarrow> b \<noteq> []" using p by simp_all
    then have "gz_ahead z2 whole ((acc @ del) @ b) c1" unfolding gz_ahead_def append_assoc using less.prems(2) by blast
    then have "\<exists>c'. gz_ahead z2 whole ((acc @ del) @ b) c' \<and> c' + length b \<le> c" using m(2) by blast
    moreover have "gz_loop n z = Some (b, None, z2)" unfolding lp using 1 by simp
    ultimately show ?thesis unfolding gz_post_def using m(3) by simp
  next
    case (2 x)
    then have "whole = None" using p less.prems(2) by (simp add: data_ref_def gzip_data_def)
    then show ?thesis unfolding gz_post_def lp using 2 by simp
  next
    case 3
    let ?D = "del @ b"
    have "if io_EOF = io_EOF then deflate_ref s = Some (?D, z_r z2) \<and> 2064 * length (z_r z2) + length b \<le> c else deflate_ref s = None"
      using p unfolding 3 option.case by blast
    then have d: "deflate_ref s = Some (?D, z_r z2)" "2064 * length (z_r z2) + length b \<le> c" by simp_all
    obtain e3 z3 where n3: "next_member z2 = (e3, z3)"
      "case gzip_data s of
         None \<Rightarrow> \<exists>x. e3 = Some x \<and> z_err z3 = Some x \<and> x \<noteq> io_EOF
       | Some (out, t) \<Rightarrow> out = ?D \<and> length t \<le> length (z_r z2) \<and>
           (if t = [] then e3 = Some io_EOF \<and> z_err z3 = Some io_EOF
            else
              (case gzip_header t of
                 None \<Rightarrow> \<exists>x. e3 = Some x \<and> z_err z3 = Some x \<and> x \<noteq> io_EOF
               | Some s' \<Rightarrow> e3 = None \<and> in_member z3 s' [] (2064 * length s')))"
      using next_member_ok [OF d(1)] p by blast
    have lp3: "gz_loop n z = (case e3 of Some e \<Rightarrow> Some (b, Some e, z3) | None \<Rightarrow> if b = [] then gz_loop n z3 else Some (b, None, z3))"
      unfolding lp n3(1) using 3 by (simp split: option.split)
    show ?thesis
    proof (cases "gzip_data s")
      case None
      then show ?thesis unfolding gz_post_def lp3 using n3(2) less.prems(2) by (auto simp: data_ref_def)
    next
      case (Some q)
      then obtain t where t: "gzip_data s = Some (?D, t)" "length t \<le> length (z_r z2)" using n3(2) by (cases q) auto
      note n = n3(2) [unfolded t(1) option.case prod.case]
      consider "t = []" | "t \<noteq> []" "gzip_header t = None" | s' where "t \<noteq> []" "gzip_header t = Some s'" by (cases "gzip_header t") auto
      then show ?thesis
      proof cases
        case 1
        then show ?thesis unfolding gz_post_def lp3 using n t(1) less.prems(2) by (simp add: data_ref_def)
      next
        case 2
        then show ?thesis unfolding gz_post_def lp3 using n t(1) less.prems(2) by (auto simp: data_ref_def gunzip_ref_data)
      next
        case 3
        then have m: "e3 = None" "in_member z3 s' [] (2064 * length s')" using n by simp_all
        have tt: "whole = map_option ((@) (acc @ ?D)) (data_ref s')"
          using less.prems(2) t(1) 3 by (simp add: data_ref_def [of s] gunzip_ref_data map_append_append)
        have l: "length s' < length s" "2064 * length s' + length b \<le> c"
          using gzip_header_length [OF 3(2)] t(2) deflate_ref_length [OF d(1)] d(2) by simp_all
        show ?thesis
        proof (cases "b = []")
          case True
          have "gz_post n whole ((acc @ ?D) @ []) (2064 * length s') (gz_loop n z3)" by (rule less.hyps [OF l(1) m(2) tt])
          then have "gz_post n whole (acc @ del) (2064 * length s') (gz_loop n z3)" using True by simp
          then have "gz_post n whole (acc @ del) c (gz_loop n z3)" by (rule gz_post_mono) (use l(2) in simp)
          then show ?thesis unfolding lp3 using m(1) True by simp
        next
          case False
          have "gz_ahead z3 whole ((acc @ ?D) @ []) (2064 * length s')" unfolding gz_ahead_def using m(2) tt by blast
          then show ?thesis unfolding gz_post_def lp3 using m(1) False l(2) by auto
        qed
      qed
    qed
  qed
qed

text \<open>A sequence of reads, up to the first error.\<close>

fun gz_reads :: "nat list \<Rightarrow> gzReader \<Rightarrow> (bytes \<times> error option \<times> gzReader) option" where
  "gz_reads [] z = Some ([], None, z)"
| "gz_reads (n # ns) z =
     (case gz_Read n z of
        None \<Rightarrow> None
      | Some (b, Some e, z1) \<Rightarrow> Some (b, Some e, z1)
      | Some (b, None, z1) \<Rightarrow> (case gz_reads ns z1 of None \<Rightarrow> None | Some (bs, e, z2) \<Rightarrow> Some (b @ bs, e, z2)))"

lemma gz_Read_ok: "gz_ahead z whole dl c \<Longrightarrow> gz_post n whole dl c (gz_Read n z)"
  using gz_loop_ok by (fastforce simp: gz_ahead_def gz_Read_def in_member_def)

lemma gz_reads_ok:
  assumes "gz_ahead z whole dl c" "\<forall>n \<in> set ns. 0 < n"
  shows "\<exists>b e z'. gz_reads ns z = Some (b, e, z') \<and>
    (case e of None \<Rightarrow> length ns \<le> c | Some x \<Rightarrow> if x = io_EOF then whole = Some (dl @ b) else whole = None)"
  using assms
proof (induction ns arbitrary: z dl c)
  case (Cons n ns)
  obtain b e z1 where r: "gz_Read n z = Some (b, e, z1)"
    "case e of
       None \<Rightarrow> (0 < n \<longrightarrow> b \<noteq> []) \<and> (\<exists>c'. gz_ahead z1 whole (dl @ b) c' \<and> c' + length b \<le> c)
     | Some x \<Rightarrow> if x = io_EOF then whole = Some (dl @ b) else whole = None"
    using gz_Read_ok [OF Cons.prems(1), of n] by (auto simp: gz_post_def)
  show ?case
  proof (cases e)
    case (Some x)
    then show ?thesis using r by simp
  next
    case None
    then obtain c' where c: "gz_ahead z1 whole (dl @ b) c'" "c' + length b \<le> c" "b \<noteq> []" using r(2) Cons.prems(2) by auto
    then have l: "Suc c' \<le> c" by (cases b) auto
    obtain bs e2 z2 where q: "gz_reads ns z1 = Some (bs, e2, z2)"
      "case e2 of None \<Rightarrow> length ns \<le> c' | Some x \<Rightarrow> if x = io_EOF then whole = Some ((dl @ b) @ bs) else whole = None"
      using Cons.IH [OF c(1)] Cons.prems(2) by auto
    show ?thesis using r(1) None q l by (cases e2) auto
  qed
qed simp

lemma gunzip_reads:
  assumes "\<forall>n \<in> set ns. 0 < n" "2064 * length r < length ns"
  shows "case gz_NewReader r of
      Inl e \<Rightarrow> gunzip_ref r = None \<and> (e = io_EOF \<longrightarrow> r = [])
    | Inr z \<Rightarrow> \<exists>b x z'. gz_reads ns z = Some (b, Some x, z') \<and> (if x = io_EOF then gunzip_ref r = Some b else gunzip_ref r = None)"
proof -
  let ?z = "\<lparr>z_Header = empty_gzHeader, z_r = r, z_decompressor = None, z_digest = 0, z_size = 0, z_err = None, z_multistream = True\<rparr>"
  have "reusable ?z" by (simp add: reusable_def)
  note hp = gz_readHeader_ok [OF this, simplified]
  show ?thesis
  proof (cases "gzip_header r")
    case None
    then obtain x hdr z where "gz_readHeader ?z = (Some x, hdr, z)" "x = io_EOF \<longrightarrow> r = []" using hp by (auto simp: header_post_def)
    then show ?thesis using None by (simp add: gz_NewReader_def gunzip_ref_data)
  next
    case (Some s)
    then obtain hdr f where h: "gz_readHeader ?z = (None, hdr, ?z\<lparr>z_r := s, z_digest := 0, z_decompressor := Some f\<rparr>)" "begins s f"
      using hp by (auto simp: header_post_def)
    let ?w = "?z\<lparr>z_r := s, z_digest := 0, z_decompressor := Some f\<rparr>\<lparr>z_Header := hdr\<rparr>"
    have nr: "gz_NewReader r = Inr ?w" using h(1) by (simp add: gz_NewReader_def)
    have "in_member (?z\<lparr>z_Header := hdr\<rparr>\<lparr>z_r := s, z_digest := 0, z_decompressor := Some f\<rparr>) s [] (2064 * length s)"
      by (rule in_member_start [OF h(2)]) simp_all
    then have "in_member ?w s [] (2064 * length s)" by simp
    moreover have "gunzip_ref r = map_option ((@) []) (data_ref s)" using Some by (cases "data_ref s") (simp_all add: gunzip_ref_data)
    ultimately have "gz_ahead ?w (gunzip_ref r) ([] @ []) (2064 * length s)" unfolding gz_ahead_def by blast
    from gz_reads_ok [OF this assms(1)] obtain b e z' where g: "gz_reads ns ?w = Some (b, e, z')"
      "case e of None \<Rightarrow> length ns \<le> 2064 * length s | Some x \<Rightarrow> if x = io_EOF then gunzip_ref r = Some (([] @ []) @ b) else gunzip_ref r = None"
      by blast
    have "length s \<le> length r" using gzip_header_length [OF Some] by simp
    then obtain x where "e = Some x" using g(2) assms(2) by (cases e) auto
    then show ?thesis unfolding nr using g by simp
  qed
qed

text \<open>A file with one member.\<close>

definition demo_gz :: bytes where
  "demo_gz = [CHR 0x1F, CHR 0x8B, CHR 0x08, CHR 0x08, CHR 0x00, CHR 0x00, CHR 0x00, CHR 0x00, CHR 0x00, CHR 0xFF, CHR ''n'', CHR 0x00] @ demo_stored @
     [CHR 0x43, CHR 0xBE, CHR 0xB7, CHR 0xE8, CHR 0x01, CHR 0x00, CHR 0x00, CHR 0x00]"

lemma demo_gunzipped: "gunzip_ref demo_gz = Some ''a''"
proof -
  have "gzip_header demo_gz = Some (demo_stored @ [CHR 0x43, CHR 0xBE, CHR 0xB7, CHR 0xE8, CHR 0x01, CHR 0x00, CHR 0x00, CHR 0x00])"
    by code_simp
  moreover have "crc_ref ''a'' = 0xE8B7BE43" by code_simp
  ultimately show ?thesis by (simp add: gunzip_ref_data data_ref_def gzip_data_def demo_deflated le_Cons)
qed

text \<open>
  C20. A gzip file, read to its end in pieces of any positive sizes, gives exactly the content that the
  reference of RFC 1952 gives for it: its members one after another, each with a valid header, with
  data that the reference for deflate accepts, and with the right checksum and size. Every file that
  the reference rejects is refused, when it is opened or by a read, with an error other than
  \<open>io.EOF\<close>; only an empty file has \<open>io.EOF\<close> for its missing header.
\<close>

theorem gunzip_correct:
  assumes "\<forall>n \<in> set ns. 0 < n" "2064 * length r < length ns"
  shows "case gz_NewReader r of
      Inl e \<Rightarrow> gunzip_ref r = None \<and> (e = io_EOF \<longrightarrow> r = [])
    | Inr z \<Rightarrow> \<exists>b x z'. gz_reads ns z = Some (b, Some x, z') \<and> (if x = io_EOF then gunzip_ref r = Some b else gunzip_ref r = None)"
  by (rule gunzip_reads [OF assms])

theorem gunzip_correct_witness:
  "\<exists>z z'. gz_NewReader demo_gz = Inr z \<and> gz_reads (replicate 60000 3) z = Some (''a'', Some io_EOF, z')"
proof -
  have "2064 * length demo_gz < length (replicate 60000 (3 :: nat))" by (simp add: demo_gz_def demo_stored_def)
  from gunzip_correct [OF _ this] show ?thesis by (auto simp: demo_gunzipped split: sum.splits if_splits)
qed

end
