(* ===== verification/Unpack.thy ===== *)
theory Unpack
  imports GzipCorrect TarReader
begin

text \<open>
  The two readers put together, as \<open>ExtractResources\<close> of \<open>src/internal/decompress/decompress.go\<close> does:
  a \<open>bytes.Reader\<close> on the archive, the gzip reader on it, the tar reader on that. The stream that the
  tar reader sees is what the reads of the gzip reader deliver up to its first error.
\<close>

definition gz_stream :: "bytes \<Rightarrow> gzReader \<Rightarrow> stream option" where
  "gz_stream r z =
     (case gz_reads (replicate (2064 * length r + 1) 512) z of
        Some (b, Some x, _) \<Rightarrow> Some \<lparr>s_bytes = b, s_end = x, s_early = False\<rparr>
      | _ \<Rightarrow> None)"

definition gz_unpack :: "(string list \<Rightarrow> string list) \<Rightarrow> bool \<Rightarrow> bytes \<Rightarrow> archive option" where
  "gz_unpack ord zero r =
     (case gz_NewReader r of
        Inl e \<Rightarrow> Some (Inl e)
      | Inr z \<Rightarrow> map_option (tar_archive ord zero) (gz_stream r z))"


end
