(* ===== verification/Spec2Isabelle.thy ===== *)
theory Spec2Isabelle
  imports Cli UpdateTrace TarSpec Unpack
begin

text \<open>
  A verification library for the MIMO-INIT updater (Go). The program unpacks an archive embedded
  in its own binary and either sets a machine up (\<open>RunUpdate\<close>) or replaces the files of a running
  storage target (\<open>RuntgtUpdate\<close>); a command tree around it also forwards block-device requests to
  an RPC service.

  \<^bold>\<open>The parts and how they meet.\<close> \<open>src/main.go\<close> and \<open>src/cmd\<close> build the command tree and call
  \<open>src/internal/run\<close>. That package checks the user and the environment (\<open>env\<close>), unpacks and
  verifies the archive (\<open>decompress\<close>, with \<open>crypto/sha256\<close>), reads the configuration (\<open>fileops\<close>,
  \<open>encoding/json\<close>), and then either runs a transaction (\<open>transaction\<close>) of the actions registered
  by \<open>motd\<close>, \<open>fileops\<close> and \<open>grub\<close> followed by \<open>systemd\<close> and \<open>system\<close>, or stops the target
  (\<open>spdk\<close>), copies files and starts it again. All of them work on one file system through the
  standard library, whose sources are in the repository under \<open>src/file/go/src\<close>.

  \<^bold>\<open>The theories.\<close>
  \<^item> \<open>Prelude\<close>: error values, results, shared lemmas. \<open>Transaction\<close>: \<open>transaction.go\<close>; a run is
    refined to \<open>forward\<close> (the actions that succeed) and \<open>unwind\<close> (their undos, last first), and the
    locale \<open>compensable\<close> gives atomicity for every kind of action whose undo inverts it.
  \<^item> \<open>GoPath\<close>: \<open>path/filepath\<close> on Unix, with the lazy buffer of \<open>Clean\<close>; \<open>Clean\<close>, \<open>Join\<close>, \<open>Rel\<close>
    against an element-wise specification.
  \<^item> \<open>World\<close>: the system: a file system of directories, files and links, process state, standard
    input and output, the commands run so far, and a list of faults that lets any system call
    fail. The locales \<open>world_preorder\<close>, \<open>removal_relation\<close> and \<open>sys_relation\<close> say what a relation on
    worlds must satisfy to be kept by everything built from system calls. \<open>GoOS\<close>: \<open>os\<close> and
    \<open>filepath.Walk\<close> on top of it. \<open>OSSpec\<close>: what \<open>MkdirAll\<close>, \<open>RemoveAll\<close>, reads and writes do, with
    and without faults.
  \<^item> \<open>GoUtf8\<close>, \<open>GoStrings\<close>, \<open>GoStrconv\<close>: \<open>unicode/utf8\<close>, \<open>unicode/utf16\<close>, \<open>strings\<close>, \<open>strconv\<close>, with their
    round trips. \<open>Sha256\<close>: \<open>crypto/sha256\<close>, buffering and padding against the block-wise definition.
  \<^item> \<open>JsonScan\<close>, \<open>JsonDecode\<close>: the scanner and the decoder of \<open>encoding/json\<close>. \<open>JsonGrammar\<close>: the
    scanner accepts exactly the grammar of RFC 8259. \<open>JsonTotal\<close>: the decoder ends without a panic
    and keeps types.
  \<^item> \<open>Fileops\<close>, \<open>Motd\<close>, \<open>Grub\<close>: the three kinds of action, what their \<open>Do\<close> does and what their \<open>Undo\<close>
    restores. \<open>Exec\<close>: external commands and the end of the process, with the locales
    \<open>message_relation\<close> and \<open>program_relation\<close>. \<open>Env\<close>, \<open>Spdk\<close>, \<open>Services\<close>, \<open>Decompress\<close>: the other packages.
  \<^item> \<open>DecompressSpec\<close>: unpacking stays below its destination for archives without links and \<open>..\<close>,
    and does not for others.
  \<^item> \<open>TarFormat\<close>, \<open>TarReader\<close>, \<open>TarWriter\<close>: \<open>archive/tar\<close>: header fields and checksums; the reader of all
    formats with extended headers and sparse files, which turns a stream of bytes into the entries
    that \<open>ExtractResources\<close> takes; the USTAR part of the writer. \<open>TarSpec\<close>: every archive ends, the
    content of sparse files, and unpacking under \<open>tarinsecurepath=0\<close>.
  \<^item> \<open>GoIO\<close>: \<open>io.ReadFull\<close> and \<open>bytes.Reader\<close> as streams. \<open>Crc32\<close>: \<open>hash/crc32\<close>, its tables against the
    division bit by bit. \<open>Huffman\<close>, \<open>FlateDict\<close>, \<open>Flate\<close>: \<open>compress/flate\<close>: the decoding tables, the
    sliding window (a ring buffer, related to the whole output by \<open>window\<close>), and the inflater
    (\<open>decompressor\<close> has the fields of the Go struct with the prefix \<open>f_\<close>; its \<open>step\<close> says where a
    call of \<open>Read\<close> goes on). \<open>Gzip\<close>: \<open>compress/gzip\<close> (\<open>gzReader\<close>, prefix \<open>z_\<close>).
  \<^item> \<open>FlateRef\<close>: RFC 1951 on lists of bits, the reference. \<open>FlateBits\<close>: the bit register and the
    decoding of symbols against it. \<open>FlateTables\<close>: the tables of a dynamic block. \<open>FlateCorrect\<close>:
    one step of the inflater, with its pauses when the window is full, keeps \<open>sim\<close>, which says that
    the output so far and the reference on the remaining bits give the reference result.
    \<open>FlateRead\<close>: whole reads and whole streams. \<open>GzipCorrect\<close>: RFC 1952 as reference and the gzip
    reader against it. \<open>Unpack\<close>: the gzip reader under the archive reader.
  \<^item> \<open>Update\<close>: \<open>run.go\<close>. \<open>UpdateSpec\<close>: neither update panics, and both keep the invariants of the
    system. \<open>UpdateTrace\<close>: which commands they run, in which order and with whose consent, and
    what is left of the unpacked resources. \<open>Cli\<close>: \<open>cmd\<close>, \<open>rpclient/rpc\<close> and \<open>main.go\<close>.

  \<^bold>\<open>How code is modelled.\<close> A function that touches the system takes the world and returns it with
  its result; an error is a value of \<open>error\<close> that keeps the format and the wrapped error of
  \<open>fmt.Errorf\<close>; \<open>log.Fatalf\<close> and a panic are the outcomes \<open>Exit\<close> and \<open>Crash\<close> of \<open>outcome\<close>. Package
  variables are passed. Code outside the repository is an argument: external commands and process
  start (record \<open>platform\<close>, with \<open>sane\<close> commands leaving a proper file system), the Unicode case
  tables, the order in which a map is visited, the embedded files, the archive readers, and for
  the command tree cobra, pflag and the RPC service.

  \<^bold>\<open>Bounds.\<close> \<open>RemoveAll\<close> and \<open>Walk\<close> take fuel from the number of nodes of the file system, which is
  proved to suffice; the decoder takes fuel linear in the input, and \<open>Unmarshal_total\<close> shows that
  it is never used up; the loops of \<open>Read\<close> in \<open>compress/flate\<close> and \<open>compress/gzip\<close> are partial functions,
  which \<open>inflate_bound\<close> and \<open>gunzip_correct\<close> prove to return, after at most 2064 reads for a byte of
  input with an end or an error; the loop over a case-folding orbit is bounded by the number of runes.
  Lengths are natural numbers except where the code depends on wrap-around: the words of
  SHA-256 and of the parsers, and the timeout of the RPC client.

  \<^bold>\<open>Not modelled.\<close> What a started process does; the text layout of \<open>fmt\<close> and \<open>log\<close> (messages are
  kept as format and arguments); concurrent changes of the file system by other processes; signal
  handling; in decompression the buffering of readers without \<open>ReadByte\<close>, preset dictionaries and
  \<open>Multistream(false)\<close>, which the program does not use (the unpacked archive stays an argument of
  \<open>platform\<close>, so that the update is proved for every archive; \<open>gz_unpack\<close> is the one of the code);
  reflection, which the decoder uses, is replaced by a type of Go types; the vendored
  Go distribution beyond what the program calls.
\<close>

end
